(* ===== verification/Prelude.thy ===== *)
theory Prelude
  imports Main "HOL-Library.Word" "HOL-Library.Monad_Syntax"
begin

text \<open>
  Shared vocabulary of the development: names for the machine integers of the x86-64 build, the
  conversions C performs between them, and the lemmas on option computations, maps and lists
  that the component theories use.

  Outcomes: a computation of type \<open>'a option\<close> yields \<open>None\<close> where the C code does not come back
  with a value (it dereferences a pointer that points to no live object, runs past an array, or
  never returns). Ordinary failures of the code (error codes, false results) are values.
\<close>

unbundle bit_operations_syntax

subsection \<open>Machine integers\<close>

type_synonym u8 = "8 word"
type_synonym u16 = "16 word"
type_synonym u32 = "32 word"
type_synonym u64 = "64 word"

text \<open>The signed types share the representation; \<open>sint\<close> reads them as two's complement.\<close>

type_synonym s32 = "32 word"
type_synonym s64 = "64 word"

text \<open>Truncating remainder, as C's percent operator on signed operands.\<close>

definition c_rem :: "int \<Rightarrow> int \<Rightarrow> int" where
  "c_rem a b = sgn a * (\<bar>a\<bar> mod \<bar>b\<bar>)"

lemma c_rem_nonneg [simp]: "0 \<le> a \<Longrightarrow> 0 < b \<Longrightarrow> c_rem a b = a mod b"
  by (cases "a = 0") (auto simp: c_rem_def)

lemma c_rem_neg: "a < 0 \<Longrightarrow> 0 < b \<Longrightarrow> c_rem a b = - ((- a) mod b)"
  by (simp add: c_rem_def)

text \<open>Conversions between widths, where the value fits.\<close>

lemma unat_ucast_mod: "unat (ucast (w::'a::len word) :: 'b::len word) = unat w mod 2 ^ LENGTH('b)"
  by transfer (simp add: take_bit_eq_mod nat_mod_distrib nat_power_eq)

lemma unat_ucast_small:
  "unat (w::'a::len word) < 2 ^ LENGTH('b::len) \<Longrightarrow> unat (ucast w :: 'b word) = unat w"
  by (simp add: unat_ucast_mod)

lemma sint_small:
  fixes w :: "'a::len word"
  assumes "unat w < 2 ^ (LENGTH('a) - 1)"
  shows "sint w = int (unat w)"
proof -
  have "int (unat w) < int (2 ^ (LENGTH('a) - 1))" using assms by (simp only: of_nat_less_iff)
  then have "uint w < 2 ^ (LENGTH('a) - 1)" by simp
  moreover have "- (2 ^ (LENGTH('a) - 1)) \<le> uint w"
    by (rule order_trans[of _ 0]) simp_all
  ultimately have "signed_take_bit (LENGTH('a) - 1) (uint w) = uint w"
    by (intro signed_take_bit_int_eq_self)
  then show ?thesis by (simp add: sint_uint)
qed

lemma unat_scast_small:
  fixes w :: "'a::len word"
  assumes "unat w < 2 ^ (LENGTH('a) - 1)" "LENGTH('a) \<le> LENGTH('b::len)"
  shows "unat (scast w :: 'b word) = unat w"
proof -
  have "unat w < 2 ^ LENGTH('a)" by (rule unsigned_less)
  also have "\<dots> \<le> (2::nat) ^ LENGTH('b)" using assms(2) by (intro power_increasing) auto
  finally have "unat (ucast w :: 'b word) = unat w" by (rule unat_ucast_small)
  then show ?thesis
    using sint_small[OF assms(1)] by (simp add: scast_eq)
qed

text \<open>The sign of a word.\<close>

lemma sint_nonneg_iff:
  fixes w :: "'a::len word"
  shows "0 \<le> sint w \<longleftrightarrow> unat w < 2 ^ (LENGTH('a) - 1)"
proof
  assume nn: "0 \<le> sint w"
  have lt: "sint w < 2 ^ (LENGTH('a) - 1)" using sint_less[of w] by simp
  also have "\<dots> \<le> (2::int) ^ LENGTH('a)" by (rule power_increasing) auto
  finally have "take_bit LENGTH('a) (sint w) = sint w" using nn by (simp add: take_bit_int_eq_self)
  then have "int (unat w) < int (2 ^ (LENGTH('a) - 1))" using lt uint_sint[of w] by simp
  then show "unat w < 2 ^ (LENGTH('a) - 1)" by (simp only: of_nat_less_iff)
next
  assume "unat w < 2 ^ (LENGTH('a) - 1)"
  then show "0 \<le> sint w" by (simp add: sint_small)
qed

lemma sle_0_iff: "(0 :: 'a::len word) \<le>s w \<longleftrightarrow> unat w < 2 ^ (LENGTH('a) - 1)"
  by (simp add: word_sle_eq sint_nonneg_iff del: One_nat_def)

lemma sless_0_iff: "w <s (0 :: 'a::len word) \<longleftrightarrow> 2 ^ (LENGTH('a) - 1) \<le> unat w"
  using sint_nonneg_iff[of w] by (auto simp: word_sless_alt)

subsection \<open>Collections of facts\<close>

named_theorems heap_simps \<open>rewrites for pointer reads and writes\<close>
named_theorems mono_frame \<open>what an operation leaves alone\<close>

subsection \<open>Option computations\<close>

text \<open>An assertion: the access the C code makes is one it may make.\<close>

definition guard_opt :: "bool \<Rightarrow> unit option" where
  "guard_opt b = (if b then Some () else None)"

lemma guard_opt_simps [simp]:
  "guard_opt True = Some ()"
  "guard_opt False = None"
  "(guard_opt b = Some u) = b"
  "(guard_opt b = None) = (\<not> b)"
  by (simp_all add: guard_opt_def)

lemma bind_guard_Some [simp]:
  "(guard_opt b \<bind> f = Some y) = (b \<and> f () = Some y)"
  by (simp add: guard_opt_def)

text \<open>A loop over a list whose body may fail.\<close>

fun foldM :: "('x \<Rightarrow> 's \<Rightarrow> 's option) \<Rightarrow> 'x list \<Rightarrow> 's \<Rightarrow> 's option" where
  "foldM f [] s = Some s"
| "foldM f (x # xs) s = do { s \<leftarrow> f x s; foldM f xs s }"

lemma foldM_append: "foldM f (xs @ ys) s = do { s \<leftarrow> foldM f xs s; foldM f ys s }"
proof (induction xs arbitrary: s)
  case (Cons x xs)
  then show ?case by (cases "f x s") auto
qed simp

subsection \<open>Decimal output\<close>

definition digit :: "nat \<Rightarrow> char" where
  "digit n = char_of (48 + n)"

fun dec :: "nat \<Rightarrow> string" where
  "dec n = (if n < 10 then [digit n] else dec (n div 10) @ [digit (n mod 10)])"

declare dec.simps [simp del]

definition dec_int :: "int \<Rightarrow> string" where
  "dec_int i = (if i < 0 then CHR ''-'' # dec (nat (- i)) else dec (nat i))"

subsection \<open>Lists\<close>

lemma length_le_1_cases:
  assumes "length xs \<le> Suc 0"
  obtains "xs = []" | x where "xs = [x]"
  using assms by (cases xs) auto

end
