(* ===== verification/KList.thy ===== *)
theory KList
  imports Prelude
begin

text \<open>
  The kernel's intrusive doubly linked lists, \<^verbatim>\<open>include/linux/list.h\<close>, over an explicit heap of
  \<open>list_head\<close> cells. A pointer is an address; a heap maps the addresses of live cells to their
  two links, and an access to any other address gives \<open>None\<close>. The entry that embeds a cell is
  identified with the address of its cell (\<open>list_entry\<close> is a constant offset).

  \<open>ring h a xs\<close> says that the circular list headed at \<open>a\<close> holds exactly the cells \<open>xs\<close>, in
  order and linked consistently both ways. The locale \<open>linked_queue\<close> states what a client may
  rely on, and is interpreted on the definitions at the end.
\<close>

subsection \<open>Cells and raw access\<close>

type_synonym addr = nat

record list_head =
  lnext :: addr
  lprev :: addr

type_synonym lheap = "addr \<rightharpoonup> list_head"

definition get_next :: "addr \<Rightarrow> lheap \<Rightarrow> addr option" where
  "get_next a h = map_option lnext (h a)"

definition get_prev :: "addr \<Rightarrow> lheap \<Rightarrow> addr option" where
  "get_prev a h = map_option lprev (h a)"

definition set_next :: "addr \<Rightarrow> addr \<Rightarrow> lheap \<Rightarrow> lheap option" where
  "set_next a v h = (case h a of None \<Rightarrow> None | Some c \<Rightarrow> Some (h(a \<mapsto> c\<lparr>lnext := v\<rparr>)))"

definition set_prev :: "addr \<Rightarrow> addr \<Rightarrow> lheap \<Rightarrow> lheap option" where
  "set_prev a v h = (case h a of None \<Rightarrow> None | Some c \<Rightarrow> Some (h(a \<mapsto> c\<lparr>lprev := v\<rparr>)))"

subsection \<open>The operations of list.h\<close>

definition INIT_LIST_HEAD :: "addr \<Rightarrow> lheap \<Rightarrow> lheap option" where
  "INIT_LIST_HEAD l h = do { h \<leftarrow> set_next l l h; set_prev l l h }"

definition list_add_between :: "addr \<Rightarrow> addr \<Rightarrow> addr \<Rightarrow> lheap \<Rightarrow> lheap option" where
  "list_add_between new prev nxt h = do {
     h \<leftarrow> set_prev nxt new h;
     h \<leftarrow> set_next new nxt h;
     h \<leftarrow> set_prev new prev h;
     set_next prev new h }"

definition list_add :: "addr \<Rightarrow> addr \<Rightarrow> lheap \<Rightarrow> lheap option" where
  "list_add new head h = do { n \<leftarrow> get_next head h; list_add_between new head n h }"

definition list_add_tail :: "addr \<Rightarrow> addr \<Rightarrow> lheap \<Rightarrow> lheap option" where
  "list_add_tail new head h = do { p \<leftarrow> get_prev head h; list_add_between new p head h }"

definition list_del_between :: "addr \<Rightarrow> addr \<Rightarrow> lheap \<Rightarrow> lheap option" where
  "list_del_between prev nxt h = do { h \<leftarrow> set_prev nxt prev h; set_next prev nxt h }"

definition LIST_POISON1 :: addr where "LIST_POISON1 = 0x00100100"
definition LIST_POISON2 :: addr where "LIST_POISON2 = 0x00200200"

definition list_del :: "addr \<Rightarrow> lheap \<Rightarrow> lheap option" where
  "list_del entry h = do {
     p \<leftarrow> get_prev entry h;
     n \<leftarrow> get_next entry h;
     h \<leftarrow> list_del_between p n h;
     h \<leftarrow> set_next entry LIST_POISON1 h;
     set_prev entry LIST_POISON2 h }"

definition list_del_init :: "addr \<Rightarrow> lheap \<Rightarrow> lheap option" where
  "list_del_init entry h = do {
     p \<leftarrow> get_prev entry h;
     n \<leftarrow> get_next entry h;
     h \<leftarrow> list_del_between p n h;
     INIT_LIST_HEAD entry h }"

definition list_move :: "addr \<Rightarrow> addr \<Rightarrow> lheap \<Rightarrow> lheap option" where
  "list_move l head h = do {
     p \<leftarrow> get_prev l h;
     n \<leftarrow> get_next l h;
     h \<leftarrow> list_del_between p n h;
     list_add l head h }"

definition list_move_tail :: "addr \<Rightarrow> addr \<Rightarrow> lheap \<Rightarrow> lheap option" where
  "list_move_tail l head h = do {
     p \<leftarrow> get_prev l h;
     n \<leftarrow> get_next l h;
     h \<leftarrow> list_del_between p n h;
     list_add_tail l head h }"

definition list_empty :: "addr \<Rightarrow> lheap \<Rightarrow> bool option" where
  "list_empty head h = map_option (\<lambda>n. n = head) (get_next head h)"

subsection \<open>Heap rewrites\<close>

abbreviation nx :: "lheap \<Rightarrow> addr \<Rightarrow> addr option" where
  "nx h a \<equiv> get_next a h"

abbreviation pv :: "lheap \<Rightarrow> addr \<Rightarrow> addr option" where
  "pv h a \<equiv> get_prev a h"

lemma set_next_ex: "a \<in> dom h \<Longrightarrow> \<exists>h'. set_next a v h = Some h'"
  by (auto simp: set_next_def)

lemma set_prev_ex: "a \<in> dom h \<Longrightarrow> \<exists>h'. set_prev a v h = Some h'"
  by (auto simp: set_prev_def)

lemma set_next_effect [heap_simps]:
  assumes "set_next a v h = Some h'"
  shows "dom h' = dom h" and "nx h' b = (if b = a then Some v else nx h b)" and "pv h' b = pv h b"
  using assms by (auto simp: set_next_def get_next_def get_prev_def split: option.splits if_splits)

lemma set_prev_effect [heap_simps]:
  assumes "set_prev a v h = Some h'"
  shows "dom h' = dom h" and "pv h' b = (if b = a then Some v else pv h b)" and "nx h' b = nx h b"
  using assms by (auto simp: set_prev_def get_next_def get_prev_def split: option.splits if_splits)

lemma get_dom:
  "nx h a = Some b \<Longrightarrow> a \<in> dom h"
  "pv h a = Some b \<Longrightarrow> a \<in> dom h"
  by (auto simp: get_next_def get_prev_def)

lemma get_ex: "a \<in> dom h \<Longrightarrow> \<exists>b. nx h a = Some b" "a \<in> dom h \<Longrightarrow> \<exists>b. pv h a = Some b"
  by (auto simp: get_next_def get_prev_def)

lemma set_nextE:
  assumes "a \<in> dom h"
  obtains h' where "set_next a v h = Some h'" and "dom h' = dom h"
    and "\<And>b. nx h' b = (if b = a then Some v else nx h b)" and "\<And>b. pv h' b = pv h b"
  using set_next_ex[OF assms, of v] set_next_effect[of a v h] by metis

lemma set_prevE:
  assumes "a \<in> dom h"
  obtains h' where "set_prev a v h = Some h'" and "dom h' = dom h"
    and "\<And>b. pv h' b = (if b = a then Some v else pv h b)" and "\<And>b. nx h' b = nx h b"
  using set_prev_ex[OF assms, of v] set_prev_effect[of a v h] by metis

lemma INIT_LIST_HEAD_effect:
  assumes "l \<in> dom h"
  obtains h' where "INIT_LIST_HEAD l h = Some h'" and "dom h' = dom h"
    and "\<And>b. nx h' b = (if b = l then Some l else nx h b)"
    and "\<And>b. pv h' b = (if b = l then Some l else pv h b)"
proof -
  obtain h1 where 1: "set_next l l h = Some h1" "dom h1 = dom h"
      "\<And>b. nx h1 b = (if b = l then Some l else nx h b)" "\<And>b. pv h1 b = pv h b"
    by (rule set_nextE[of l h l]) (simp_all add: assms)
  obtain h2 where 2: "set_prev l l h1 = Some h2" "dom h2 = dom h1"
      "\<And>b. pv h2 b = (if b = l then Some l else pv h1 b)" "\<And>b. nx h2 b = nx h1 b"
    by (rule set_prevE[of l h1 l]) (simp_all add: 1 assms)
  show thesis
    by (rule that[of h2]) (simp_all add: INIT_LIST_HEAD_def 1 2)
qed

lemma list_add_between_effect:
  assumes "new \<in> dom h" "prev \<in> dom h" "nxt \<in> dom h" "new \<noteq> nxt" "new \<noteq> prev"
  obtains h' where "list_add_between new prev nxt h = Some h'" and "dom h' = dom h"
    and "\<And>b. nx h' b = (if b = prev then Some new else if b = new then Some nxt else nx h b)"
    and "\<And>b. pv h' b = (if b = nxt then Some new else if b = new then Some prev else pv h b)"
proof -
  obtain h1 where 1: "set_prev nxt new h = Some h1" "dom h1 = dom h"
      "\<And>b. pv h1 b = (if b = nxt then Some new else pv h b)" "\<And>b. nx h1 b = nx h b"
    by (rule set_prevE[of nxt h new]) (simp_all add: assms)
  obtain h2 where 2: "set_next new nxt h1 = Some h2" "dom h2 = dom h1"
      "\<And>b. nx h2 b = (if b = new then Some nxt else nx h1 b)" "\<And>b. pv h2 b = pv h1 b"
    by (rule set_nextE[of new h1 nxt]) (simp_all add: assms 1)
  obtain h3 where 3: "set_prev new prev h2 = Some h3" "dom h3 = dom h2"
      "\<And>b. pv h3 b = (if b = new then Some prev else pv h2 b)" "\<And>b. nx h3 b = nx h2 b"
    by (rule set_prevE[of new h2 prev]) (simp_all add: assms 1 2)
  obtain h4 where 4: "set_next prev new h3 = Some h4" "dom h4 = dom h3"
      "\<And>b. nx h4 b = (if b = prev then Some new else nx h3 b)" "\<And>b. pv h4 b = pv h3 b"
    by (rule set_nextE[of prev h3 new]) (simp_all add: assms 1 2 3)
  show thesis
    by (rule that[of h4]) (use assms in \<open>simp_all add: list_add_between_def 1 2 3 4\<close>)
qed

lemma list_del_between_effect:
  assumes "prev \<in> dom h" "nxt \<in> dom h"
  obtains h' where "list_del_between prev nxt h = Some h'" and "dom h' = dom h"
    and "\<And>b. nx h' b = (if b = prev then Some nxt else nx h b)"
    and "\<And>b. pv h' b = (if b = nxt then Some prev else pv h b)"
proof -
  obtain h1 where 1: "set_prev nxt prev h = Some h1" "dom h1 = dom h"
      "\<And>b. pv h1 b = (if b = nxt then Some prev else pv h b)" "\<And>b. nx h1 b = nx h b"
    by (rule set_prevE[of nxt h prev]) (simp_all add: assms)
  obtain h2 where 2: "set_next prev nxt h1 = Some h2" "dom h2 = dom h1"
      "\<And>b. nx h2 b = (if b = prev then Some nxt else nx h1 b)" "\<And>b. pv h2 b = pv h1 b"
    by (rule set_nextE[of prev h1 nxt]) (simp_all add: assms 1)
  show thesis
    by (rule that[of h2]) (simp_all add: list_del_between_def 1 2)
qed

subsection \<open>Rings\<close>

text \<open>\<open>seg h a xs b\<close>: starting at \<open>a\<close>, the links lead through \<open>xs\<close> to \<open>b\<close>, and back.\<close>

fun seg :: "lheap \<Rightarrow> addr \<Rightarrow> addr list \<Rightarrow> addr \<Rightarrow> bool" where
  "seg h a [] b \<longleftrightarrow> nx h a = Some b \<and> pv h b = Some a"
| "seg h a (x # xs) b \<longleftrightarrow> nx h a = Some x \<and> pv h x = Some a \<and> seg h x xs b"

definition ring :: "lheap \<Rightarrow> addr \<Rightarrow> addr list \<Rightarrow> bool" where
  "ring h a xs \<longleftrightarrow> seg h a xs a \<and> distinct (a # xs)"

lemma seg_append: "seg h a (xs @ y # ys) b \<longleftrightarrow> seg h a xs y \<and> seg h y ys b"
  by (induction xs arbitrary: a) auto

lemma seg_cong:
  assumes "\<And>x. x \<in> set (a # xs) \<Longrightarrow> nx h' x = nx h x"
    and "\<And>x. x \<in> set (xs @ [b]) \<Longrightarrow> pv h' x = pv h x"
  shows "seg h' a xs b = seg h a xs b"
  using assms by (induction xs arbitrary: a) auto

lemma ring_cong [mono_frame]:
  assumes "\<And>x. x \<in> set (a # xs) \<Longrightarrow> nx h' x = nx h x \<and> pv h' x = pv h x"
  shows "ring h' a xs = ring h a xs"
proof -
  have "seg h' a xs a = seg h a xs a" using assms by (intro seg_cong) auto
  then show ?thesis by (simp add: ring_def)
qed

lemma seg_dom: "seg h a xs b \<Longrightarrow> insert a (insert b (set xs)) \<subseteq> dom h"
  by (induction xs arbitrary: a) (auto dest: get_dom)

lemma seg_first: "seg h a xs b \<Longrightarrow> nx h a = Some (hd (xs @ [b]))"
  by (cases xs) auto

lemma seg_last: "seg h a xs b \<Longrightarrow> pv h b = Some (last (a # xs))"
  by (induction xs arbitrary: a) auto

lemma ring_dom: "ring h a xs \<Longrightarrow> insert a (set xs) \<subseteq> dom h"
  using seg_dom[of h a xs a] by (simp add: ring_def)

lemma seg_unique:
  "seg h a xs b \<Longrightarrow> seg h a ys b \<Longrightarrow> b \<notin> set xs \<Longrightarrow> b \<notin> set ys \<Longrightarrow> xs = ys"
proof (induction xs arbitrary: a ys)
  case Nil then show ?case by (cases ys) auto
next
  case (Cons x xs) then show ?case by (cases ys) auto
qed

lemma ring_unique: "ring h a xs \<Longrightarrow> ring h a ys \<Longrightarrow> xs = ys"
  by (auto simp: ring_def intro: seg_unique)


subsection \<open>What the operations do to rings\<close>

text \<open>\<open>same_links h h' x\<close>: the cell \<open>x\<close> has the same links in both heaps.\<close>

definition same_links :: "lheap \<Rightarrow> lheap \<Rightarrow> addr \<Rightarrow> bool" where
  "same_links h h' x \<longleftrightarrow> nx h' x = nx h x \<and> pv h' x = pv h x"

lemma ring_frame [mono_frame]:
  "(\<And>x. x \<in> set (a # xs) \<Longrightarrow> same_links h h' x) \<Longrightarrow> ring h' a xs = ring h a xs"
  by (rule ring_cong) (simp add: same_links_def)

lemma ring_single_swap: "ring h a [b] \<longleftrightarrow> ring h b [a]"
  by (auto simp: ring_def)

lemma ring_INIT_LIST_HEAD:
  assumes "a \<in> dom h"
  obtains h' where "INIT_LIST_HEAD a h = Some h'" "ring h' a []" "dom h' = dom h"
    "\<And>x. x \<noteq> a \<Longrightarrow> same_links h h' x"
proof (rule INIT_LIST_HEAD_effect[OF assms])
  fix h' assume "INIT_LIST_HEAD a h = Some h'" "dom h' = dom h"
    "\<And>b. nx h' b = (if b = a then Some a else nx h b)"
    "\<And>b. pv h' b = (if b = a then Some a else pv h b)"
  then show thesis by (intro that[of h']) (auto simp: ring_def same_links_def)
qed

lemma seg_extend:
  assumes "seg h a xs b" "distinct (a # xs)" "n \<noteq> b" "n \<notin> set (a # xs)" "b \<notin> set xs"
    and "p = last (a # xs)"
    and nxt: "\<And>x. nx h' x = (if x = p then Some n else if x = n then Some b else nx h x)"
    and prv: "\<And>x. pv h' x = (if x = b then Some n else if x = n then Some p else pv h x)"
  shows "seg h' a (xs @ [n]) b"
  using assms(1-6)
proof (induction xs arbitrary: a)
  case Nil
  then show ?case by (simp add: nxt prv)
next
  case (Cons x xs)
  then have "seg h' x (xs @ [n]) b" by auto
  moreover have "a \<noteq> p" using Cons.prems by (auto split: if_splits)
  ultimately show ?case using Cons.prems by (auto simp: nxt prv)
qed

lemma ring_list_add_tail:
  assumes r: "ring h a xs" and n: "n \<in> dom h" "n \<notin> set (a # xs)"
  obtains h' where "list_add_tail n a h = Some h'" "ring h' a (xs @ [n])" "dom h' = dom h"
    "\<And>x. x \<notin> set (n # a # xs) \<Longrightarrow> same_links h h' x"
proof -
  let ?p = "last (a # xs)"
  have p: "pv h a = Some ?p" using r seg_last[of h a xs a] by (simp add: ring_def)
  have mem: "?p \<in> set (a # xs)" by (rule last_in_set) simp
  then have d: "a \<in> dom h" "?p \<in> dom h" and np: "n \<noteq> ?p"
    using n(2) ring_dom[OF r] by auto
  obtain h' where h': "list_add_between n ?p a h = Some h'" "dom h' = dom h"
    "\<And>b. nx h' b = (if b = ?p then Some n else if b = n then Some a else nx h b)"
    "\<And>b. pv h' b = (if b = a then Some n else if b = n then Some ?p else pv h b)"
    by (rule list_add_between_effect[of n h ?p a]) (use n d np in auto)
  have "seg h' a (xs @ [n]) a"
    by (rule seg_extend[where h = h and p = ?p]) (use r n h' in \<open>auto simp: ring_def\<close>)
  with r n(2) have "ring h' a (xs @ [n])" by (auto simp: ring_def)
  moreover have "same_links h h' x" if "x \<notin> set (n # a # xs)" for x
  proof -
    have "x \<noteq> ?p" using that by (cases xs rule: rev_cases) auto
    with that show ?thesis by (auto simp: same_links_def h'(3,4))
  qed
  ultimately show thesis using that h'(1,2) p by (auto simp: list_add_tail_def)
qed

lemma seg_remove:
  assumes "seg h a xs x" "seg h x ys b" "distinct (a # xs @ x # ys)" "b \<notin> set (xs @ x # ys)"
    and p: "p = last (a # xs)" and q: "q = hd (ys @ [b])"
    and nxt: "\<And>y. nx h' y = (if y = x then z else if y = p then Some q else nx h y)"
    and prv: "\<And>y. pv h' y = (if y = x then w else if y = q then Some p else pv h y)"
  shows "seg h' a (xs @ ys) b"
proof -
  have right: "seg h' p ys b" if "p \<noteq> x" "p \<notin> set ys"
  proof (cases ys)
    case Nil
    with assms that show ?thesis by (auto simp: nxt prv)
  next
    case (Cons y ys')
    have "seg h' y ys' b = seg h y ys' b"
      using assms(3,4) that Cons q by (intro seg_cong) (auto simp: nxt prv)
    with assms(2) that Cons q assms(3) show ?thesis by (auto simp: nxt prv)
  qed
  show ?thesis
  proof (cases xs rule: rev_cases)
    case Nil
    with right p assms(3) show ?thesis by auto
  next
    case (snoc xs' l)
    have "seg h' a xs' l = seg h a xs' l"
      using assms(3,4) snoc p q by (intro seg_cong) (cases ys; auto simp: nxt prv)+
    moreover have "seg h a xs' l" using assms(1) snoc by (simp add: seg_append)
    moreover have "seg h' l ys b" using right snoc p assms(3) by auto
    ultimately show ?thesis using snoc by (simp add: seg_append)
  qed
qed

lemma ring_neighbours:
  assumes r: "ring h a (xs @ x # ys)"
  shows "pv h x = Some (last (a # xs))" "nx h x = Some (hd (ys @ [a]))"
    "last (a # xs) \<in> dom h" "hd (ys @ [a]) \<in> dom h" "x \<in> dom h"
    "last (a # xs) \<noteq> x" "hd (ys @ [a]) \<noteq> x"
proof -
  have s: "seg h a xs x" "seg h x ys a" using r by (simp_all add: ring_def seg_append)
  show "pv h x = Some (last (a # xs))" "nx h x = Some (hd (ys @ [a]))"
    using seg_last[OF s(1)] seg_first[OF s(2)] by simp_all
  have l: "last (a # xs) \<in> set (a # xs)" and f: "hd (ys @ [a]) \<in> set (ys @ [a])"
    by (rule last_in_set, simp) (rule hd_in_set, simp)
  then show "last (a # xs) \<in> dom h" "hd (ys @ [a]) \<in> dom h" "x \<in> dom h"
    using ring_dom[OF r] by auto
  show "last (a # xs) \<noteq> x" using l r by (auto simp: ring_def)
  show "hd (ys @ [a]) \<noteq> x" using f r by (auto simp: ring_def)
qed

lemma ring_list_del:
  assumes r: "ring h a (xs @ x # ys)"
  obtains h' where "list_del x h = Some h'" "ring h' a (xs @ ys)" "dom h' = dom h"
    "\<And>y. y \<notin> set (a # xs @ x # ys) \<Longrightarrow> same_links h h' y"
proof -
  let ?p = "last (a # xs)" and ?q = "hd (ys @ [a])"
  note n = ring_neighbours[OF r]
  obtain h1 where 1: "list_del_between ?p ?q h = Some h1" "dom h1 = dom h"
    "\<And>b. nx h1 b = (if b = ?p then Some ?q else nx h b)"
    "\<And>b. pv h1 b = (if b = ?q then Some ?p else pv h b)"
    by (rule list_del_between_effect[of ?p h ?q]) (use n in simp_all)
  obtain h2 where 2: "set_next x LIST_POISON1 h1 = Some h2" "dom h2 = dom h1"
    "\<And>b. nx h2 b = (if b = x then Some LIST_POISON1 else nx h1 b)" "\<And>b. pv h2 b = pv h1 b"
    by (rule set_nextE[of x h1 LIST_POISON1]) (use n 1 in simp_all)
  obtain h3 where 3: "set_prev x LIST_POISON2 h2 = Some h3" "dom h3 = dom h2"
    "\<And>b. pv h3 b = (if b = x then Some LIST_POISON2 else pv h2 b)" "\<And>b. nx h3 b = nx h2 b"
    by (rule set_prevE[of x h2 LIST_POISON2]) (use n 1 2 in simp_all)
  have "seg h3 a (xs @ ys) a"
    by (rule seg_remove[where h = h and x = x and p = ?p and q = ?q
          and z = "Some LIST_POISON1" and w = "Some LIST_POISON2"])
      (use r in \<open>auto simp: ring_def seg_append 1 2 3\<close>)
  moreover have "same_links h h3 y" if "y \<notin> set (a # xs @ x # ys)" for y
  proof -
    have "?p \<in> set (a # xs)" "?q \<in> set (ys @ [a])"
      by (rule last_in_set, simp) (rule hd_in_set, simp)
    with that have "y \<noteq> ?p" "y \<noteq> ?q" "y \<noteq> x" by auto
    then show ?thesis by (simp add: same_links_def 1 2 3)
  qed
  ultimately show thesis
    using that[of h3] r 1(1,2) 2(1,2) 3(1,2) by (auto simp: list_del_def n(1,2) ring_def)
qed

subsection \<open>The queue contract\<close>

text \<open>
  What the code that keeps its entries on a list relies on: a head represents one sequence of
  entries, \<open>add_tail\<close> appends, \<open>del\<close> removes the entry wherever it is, and neither touches
  a list that shares no cell with theirs.
\<close>

locale linked_queue =
  fixes rep :: "'h \<Rightarrow> 'a \<Rightarrow> 'a list \<Rightarrow> bool"
    and live :: "'h \<Rightarrow> 'a set"
    and init :: "'a \<Rightarrow> 'h \<Rightarrow> 'h option"
    and add_tail :: "'a \<Rightarrow> 'a \<Rightarrow> 'h \<Rightarrow> 'h option"
    and del :: "'a \<Rightarrow> 'h \<Rightarrow> 'h option"
  assumes rep_fun: "rep h a xs \<Longrightarrow> rep h a ys \<Longrightarrow> xs = ys"
    and rep_distinct: "rep h a xs \<Longrightarrow> distinct (a # xs)"
    and init_law: "a \<in> live h \<Longrightarrow> \<exists>h'. init a h = Some h' \<and> rep h' a [] \<and> live h' = live h
       \<and> (\<forall>b ys. rep h b ys \<longrightarrow> a \<notin> set (b # ys) \<longrightarrow> rep h' b ys)"
    and add_tail_law: "rep h a xs \<Longrightarrow> n \<in> live h \<Longrightarrow> n \<notin> set (a # xs) \<Longrightarrow>
       \<exists>h'. add_tail n a h = Some h' \<and> rep h' a (xs @ [n]) \<and> live h' = live h
       \<and> (\<forall>b ys. rep h b ys \<longrightarrow> set (n # a # xs) \<inter> set (b # ys) = {} \<longrightarrow> rep h' b ys)"
    and del_law: "rep h a (xs @ x # ys) \<Longrightarrow>
       \<exists>h'. del x h = Some h' \<and> rep h' a (xs @ ys) \<and> live h' = live h
       \<and> (\<forall>b zs. rep h b zs \<longrightarrow> set (a # xs @ x # ys) \<inter> set (b # zs) = {} \<longrightarrow> rep h' b zs)"
begin

lemma add_all:
  "rep h a xs \<Longrightarrow> set ns \<subseteq> live h \<Longrightarrow> distinct ns \<Longrightarrow> set ns \<inter> set (a # xs) = {} \<Longrightarrow>
   \<exists>h'. foldM (\<lambda>n. add_tail n a) ns h = Some h' \<and> rep h' a (xs @ ns) \<and> live h' = live h"
proof (induction ns arbitrary: h xs)
  case Nil
  then show ?case by simp
next
  case (Cons n ns)
  then obtain h1 where 1: "add_tail n a h = Some h1" "rep h1 a (xs @ [n])" "live h1 = live h"
    using add_tail_law[of h a xs n] by auto
  with Cons obtain h2 where "foldM (\<lambda>n. add_tail n a) ns h1 = Some h2"
    "rep h2 a ((xs @ [n]) @ ns)" "live h2 = live h1"
    using Cons.IH[of h1 "xs @ [n]"] by auto
  with 1 show ?case by auto
qed

lemma del_all:
  "rep h a (xs @ ys) \<Longrightarrow> \<exists>h'. foldM del xs h = Some h' \<and> rep h' a ys \<and> live h' = live h"
proof (induction xs arbitrary: h)
  case Nil
  then show ?case by simp
next
  case (Cons x xs)
  then obtain h1 where 1: "del x h = Some h1" "rep h1 a (xs @ ys)" "live h1 = live h"
    using del_law[of h a "[]" x "xs @ ys"] by auto
  with Cons.IH[of h1] show ?case by auto
qed

lemma fifo:
  assumes "a \<in> live h" and "set (xs @ ys) \<subseteq> live h" and "distinct (a # xs @ ys)"
  shows "\<exists>h'. (do { h \<leftarrow> init a h; h \<leftarrow> foldM (\<lambda>n. add_tail n a) (xs @ ys) h; foldM del xs h })
           = Some h' \<and> rep h' a ys"
proof -
  obtain h1 where 1: "init a h = Some h1" "rep h1 a []" "live h1 = live h"
    using init_law[OF assms(1)] by auto
  obtain h2 where 2: "foldM (\<lambda>n. add_tail n a) (xs @ ys) h1 = Some h2" "rep h2 a ([] @ xs @ ys)"
    using add_all[OF 1(2), of "xs @ ys"] assms 1(3) by auto
  obtain h3 where "foldM del xs h2 = Some h3" "rep h3 a ys"
    using del_all[of h2 a xs ys] 2(2) by auto
  with 1(1) 2(1) show ?thesis by simp
qed

end

interpretation kq: linked_queue ring dom INIT_LIST_HEAD list_add_tail list_del
proof
  show "rep = ys" if "ring h a rep" "ring h a ys" for h a rep ys
    using that by (rule ring_unique)
  show "distinct (a # xs)" if "ring h a xs" for h a xs
    using that by (simp add: ring_def)
  show "\<exists>h'. INIT_LIST_HEAD a h = Some h' \<and> ring h' a [] \<and> dom h' = dom h
       \<and> (\<forall>b ys. ring h b ys \<longrightarrow> a \<notin> set (b # ys) \<longrightarrow> ring h' b ys)" if "a \<in> dom h" for a h
    by (rule ring_INIT_LIST_HEAD[OF that]) (metis ring_frame)
  show "\<exists>h'. list_add_tail n a h = Some h' \<and> ring h' a (xs @ [n]) \<and> dom h' = dom h
       \<and> (\<forall>b ys. ring h b ys \<longrightarrow> set (n # a # xs) \<inter> set (b # ys) = {} \<longrightarrow> ring h' b ys)"
    if "ring h a xs" "n \<in> dom h" "n \<notin> set (a # xs)" for h a xs n
    by (rule ring_list_add_tail[OF that]) (metis ring_frame disjoint_iff)
  show "\<exists>h'. list_del x h = Some h' \<and> ring h' a (xs @ ys) \<and> dom h' = dom h
       \<and> (\<forall>b zs. ring h b zs \<longrightarrow> set (a # xs @ x # ys) \<inter> set (b # zs) = {} \<longrightarrow> ring h' b zs)"
    if "ring h a (xs @ x # ys)" for h a xs x ys
    by (rule ring_list_del[OF that]) (metis ring_frame disjoint_iff)
qed

end
