(* ===== verification/Rwsem.thy ===== *)
theory Rwsem
  imports KList
begin

text \<open>
  Semaphores for readers and writers (\<^verbatim>\<open>lib/rwsem-spinlock.c\<close>, \<^verbatim>\<open>kernel/rwsem.c\<close>), which the configuration builds with a
  spin lock. The state is the counter, the list of waiters in memory, the waiters, which are variables of
  the sleeping calls, the counts of task references and the calls of \<^verbatim>\<open>wake_up_process\<close> so far. The kernel has one
  processor and does not preempt, so what is done under the spin lock is one step; a call that has to wait
  is one step up to its first \<^verbatim>\<open>schedule\<close> and one test of its waiter after each wakeup. The counter, an
  \<^verbatim>\<open>__s32\<close>, is an \<open>int\<close>: it agrees with the code as long as fewer than 2 to the 31 readers have the semaphore at once, as
  \<open>activity_fits\<close> of \<open>Rwsem_System\<close> shows. Nothing in the code keeps a task from taking the semaphore for reading again and again,
  so this is an assumption about its users.
\<close>

subsection \<open>State\<close>

record rwsem_waiter =
  wr_task :: "nat option"
  wr_flags :: u32

definition RWSEM_WAITING_FOR_READ :: u32 where "RWSEM_WAITING_FOR_READ = 1"
definition RWSEM_WAITING_FOR_WRITE :: u32 where "RWSEM_WAITING_FOR_WRITE = 2"

record rw_semaphore =
  activity :: int
  wait_head :: addr
  cells :: lheap
  waiter_at :: "addr \<Rightarrow> rwsem_waiter"
  usage :: "nat \<Rightarrow> int"
  woken :: "nat list"

definition init_rwsem :: "rw_semaphore \<Rightarrow> rw_semaphore option" where
  "init_rwsem m = do {
     let m = m\<lparr>activity := 0\<rparr>;
     c \<leftarrow> INIT_LIST_HEAD (wait_head m) (cells m);
     Some (m\<lparr>cells := c\<rparr>) }"

subsection \<open>Waking\<close>

text \<open>What is done to each waiter that gets the semaphore.\<close>

definition wake_waiter :: "addr \<Rightarrow> rw_semaphore \<Rightarrow> rw_semaphore option" where
  "wake_waiter a m = do {
     c \<leftarrow> list_del a (cells m);
     tsk \<leftarrow> wr_task (waiter_at m a);
     Some (m\<lparr>cells := c, waiter_at := (waiter_at m)(a := (waiter_at m a)\<lparr>wr_task := None\<rparr>),
       woken := woken m @ [tsk], usage := (usage m)(tsk := usage m tsk - 1)\<rparr>) }"

text \<open>The loop over the readers at the front; \<open>n\<close> counts those woken.\<close>

partial_function (option) wake_readers :: "addr \<Rightarrow> int \<Rightarrow> rw_semaphore \<Rightarrow> (int \<times> rw_semaphore) option" where
  "wake_readers a n m =
     (if and (wr_flags (waiter_at m a)) RWSEM_WAITING_FOR_READ = 0 then Some (n, m)
      else Option.bind (get_next a (cells m)) (\<lambda>nxt.
        Option.bind (wake_waiter a m) (\<lambda>m.
          Option.bind (list_empty (wait_head m) (cells m)) (\<lambda>e.
            if e then Some (n + 1, m) else wake_readers nxt (n + 1) m))))"

lemma wake_readers_code [code]:
  "wake_readers a n m =
     (if and (wr_flags (waiter_at m a)) RWSEM_WAITING_FOR_READ = 0 then Some (n, m)
      else case get_next a (cells m) of None \<Rightarrow> None
      | Some nxt \<Rightarrow> case wake_waiter a m of None \<Rightarrow> None
        | Some m \<Rightarrow> case list_empty (wait_head m) (cells m) of None \<Rightarrow> None
          | Some e \<Rightarrow> if e then Some (n + 1, m) else wake_readers nxt (n + 1) m)"
  by (subst wake_readers.simps) (auto split: option.splits)

definition rwsem_do_wake :: "bool \<Rightarrow> rw_semaphore \<Rightarrow> rw_semaphore option" where
  "rwsem_do_wake wakewrite m = do {
     a \<leftarrow> get_next (wait_head m) (cells m);
     let writer = and (wr_flags (waiter_at m a)) RWSEM_WAITING_FOR_WRITE \<noteq> 0;
     if \<not> wakewrite \<and> writer then Some m
     else if wakewrite \<and> writer then wake_waiter a (m\<lparr>activity := -1\<rparr>)
     else do {
       (n, m) \<leftarrow> wake_readers a 0 m;
       Some (m\<lparr>activity := activity m + n\<rparr>) } }"

definition rwsem_wake_one_writer :: "rw_semaphore \<Rightarrow> rw_semaphore option" where
  "rwsem_wake_one_writer m = do {
     let m = m\<lparr>activity := -1\<rparr>;
     a \<leftarrow> get_next (wait_head m) (cells m);
     wake_waiter a m }"

subsection \<open>Operations\<close>

text \<open>A call that gets the semaphore at once gives \<open>True\<close>; otherwise its waiter \<open>a\<close> is in the list.\<close>

definition enqueue_waiter :: "u32 \<Rightarrow> addr \<Rightarrow> nat \<Rightarrow> rw_semaphore \<Rightarrow> rw_semaphore option" where
  "enqueue_waiter flags a tsk m = do {
     let m = m\<lparr>waiter_at := (waiter_at m)(a := \<lparr>wr_task = Some tsk, wr_flags = flags\<rparr>), usage := (usage m)(tsk := usage m tsk + 1)\<rparr>;
     c \<leftarrow> list_add_tail a (wait_head m) (cells m);
     Some (m\<lparr>cells := c\<rparr>) }"

definition down_read :: "addr \<Rightarrow> nat \<Rightarrow> rw_semaphore \<Rightarrow> (bool \<times> rw_semaphore) option" where
  "down_read a tsk m = do {
     e \<leftarrow> list_empty (wait_head m) (cells m);
     if 0 \<le> activity m \<and> e then Some (True, m\<lparr>activity := activity m + 1\<rparr>)
     else map_option (Pair False) (enqueue_waiter RWSEM_WAITING_FOR_READ a tsk m) }"

definition down_read_trylock :: "rw_semaphore \<Rightarrow> (bool \<times> rw_semaphore) option" where
  "down_read_trylock m = do {
     e \<leftarrow> list_empty (wait_head m) (cells m);
     if 0 \<le> activity m \<and> e then Some (True, m\<lparr>activity := activity m + 1\<rparr>) else Some (False, m) }"

definition down_write_nested :: "addr \<Rightarrow> nat \<Rightarrow> rw_semaphore \<Rightarrow> (bool \<times> rw_semaphore) option" where
  "down_write_nested a tsk m = do {
     e \<leftarrow> list_empty (wait_head m) (cells m);
     if activity m = 0 \<and> e then Some (True, m\<lparr>activity := -1\<rparr>)
     else map_option (Pair False) (enqueue_waiter RWSEM_WAITING_FOR_WRITE a tsk m) }"

definition down_write :: "addr \<Rightarrow> nat \<Rightarrow> rw_semaphore \<Rightarrow> (bool \<times> rw_semaphore) option" where
  "down_write a tsk m = down_write_nested a tsk m"

definition down_write_trylock :: "rw_semaphore \<Rightarrow> (bool \<times> rw_semaphore) option" where
  "down_write_trylock m = do {
     e \<leftarrow> list_empty (wait_head m) (cells m);
     if activity m = 0 \<and> e then Some (True, m\<lparr>activity := -1\<rparr>) else Some (False, m) }"

text \<open>The test in the waiting loops: the call returns when its waiter has lost its task.\<close>

definition wait_over :: "addr \<Rightarrow> rw_semaphore \<Rightarrow> bool" where
  "wait_over a m \<longleftrightarrow> wr_task (waiter_at m a) = None"

definition up_read :: "rw_semaphore \<Rightarrow> rw_semaphore option" where
  "up_read m = do {
     let m = m\<lparr>activity := activity m - 1\<rparr>;
     e \<leftarrow> list_empty (wait_head m) (cells m);
     if activity m = 0 \<and> \<not> e then rwsem_wake_one_writer m else Some m }"

definition up_write :: "rw_semaphore \<Rightarrow> rw_semaphore option" where
  "up_write m = do {
     let m = m\<lparr>activity := 0\<rparr>;
     e \<leftarrow> list_empty (wait_head m) (cells m);
     if \<not> e then rwsem_do_wake True m else Some m }"

definition downgrade_write :: "rw_semaphore \<Rightarrow> rw_semaphore option" where
  "downgrade_write m = do {
     let m = m\<lparr>activity := 1\<rparr>;
     e \<leftarrow> list_empty (wait_head m) (cells m);
     if \<not> e then rwsem_do_wake False m else Some m }"

definition rwsem_is_locked :: "rw_semaphore \<Rightarrow> bool" where
  "rwsem_is_locked m \<longleftrightarrow> activity m \<noteq> 0"

subsection \<open>The queue as a sequence\<close>

text \<open>An entry of the queue: the waiter, its task, and whether it wants to write.\<close>

type_synonym rw_entry = "addr \<times> nat \<times> bool"

definition waiter_of :: "nat \<Rightarrow> bool \<Rightarrow> rwsem_waiter" where
  "waiter_of t w = \<lparr>wr_task = Some t, wr_flags = (if w then RWSEM_WAITING_FOR_WRITE else RWSEM_WAITING_FOR_READ)\<rparr>"

definition rwq :: "rw_semaphore \<Rightarrow> rw_entry list \<Rightarrow> bool" where
  "rwq m q \<longleftrightarrow> ring (cells m) (wait_head m) (map fst q) \<and> (\<forall>(a, t, w)\<in>set q. waiter_at m a = waiter_of t w)"

abbreviation reads :: "rw_entry \<Rightarrow> bool" where "reads e \<equiv> \<not> snd (snd e)"
abbreviation etask :: "rw_entry \<Rightarrow> nat" where "etask e \<equiv> fst (snd e)"

lemma waiter_of_flags:
  "and (wr_flags (waiter_of t w)) RWSEM_WAITING_FOR_READ = 0 \<longleftrightarrow> w" "and (wr_flags (waiter_of t w)) RWSEM_WAITING_FOR_WRITE = 0 \<longleftrightarrow> \<not> w"
  by (simp_all add: waiter_of_def RWSEM_WAITING_FOR_READ_def RWSEM_WAITING_FOR_WRITE_def)

lemma rwq_distinct: "rwq m q \<Longrightarrow> distinct (map fst q) \<and> wait_head m \<notin> fst ` set q"
  using kq.rep_distinct[of "cells m" "wait_head m" "map fst q"] by (simp add: rwq_def)

lemma rwq_empty: "rwq m q \<Longrightarrow> list_empty (wait_head m) (cells m) = Some (q = [])"
  by (cases q) (auto simp: rwq_def ring_def list_empty_def)

lemma rwq_first: "rwq m (e # q) \<Longrightarrow> get_next (wait_head m) (cells m) = Some (fst e)"
  by (simp add: rwq_def ring_def)

text \<open>What waking does: the waiters \<open>es\<close> are marked, their tasks are woken in this order, and their references go.\<close>

definition woke :: "rw_entry list \<Rightarrow> rw_semaphore \<Rightarrow> rw_semaphore \<Rightarrow> bool" where
  "woke es m m' \<longleftrightarrow> wait_head m' = wait_head m \<and> dom (cells m') = dom (cells m) \<and> woken m' = woken m @ map etask es \<and>
     (\<forall>a. waiter_at m' a = (if a \<in> fst ` set es then (waiter_at m a)\<lparr>wr_task := None\<rparr> else waiter_at m a)) \<and>
     (\<forall>t. usage m' t = usage m t - int (count_list (map etask es) t))"

lemma woke_refl: "woke [] m m"
  by (simp add: woke_def)

lemma woke_none: "woke [] m (m\<lparr>activity := k\<rparr>)"
  by (simp add: woke_def)

lemma woke_trans: "woke es m m1 \<Longrightarrow> woke fs m1 m2 \<Longrightarrow> woke (es @ fs) m m2"
  by (auto simp: woke_def)

lemma wake_waiter_ok:
  assumes q: "rwq m ((a, t, w) # q)"
  shows "\<exists>m'. wake_waiter a m = Some m' \<and> rwq m' q \<and> woke [(a, t, w)] m m' \<and> activity m' = activity m"
proof -
  from q have r: "ring (cells m) (wait_head m) (a # map fst q)" and w: "waiter_at m a = waiter_of t w" by (simp_all add: rwq_def)
  from kq.del_law[of "cells m" "wait_head m" "[]" a "map fst q"] r obtain c where
    c: "list_del a (cells m) = Some c" "ring c (wait_head m) (map fst q)" "dom c = dom (cells m)" by auto
  have "a \<notin> fst ` set q" using rwq_distinct[OF q] by simp
  then have "\<forall>(b, u, v)\<in>set q. b \<noteq> a" by force
  then show ?thesis using c q w by (fastforce simp: wake_waiter_def waiter_of_def woke_def rwq_def)
qed

lemma wake_readers_ok:
  "rwq m ((a, t, w) # q) \<Longrightarrow> \<exists>m'. wake_readers a n m = Some (n + int (length (takeWhile reads ((a, t, w) # q))), m') \<and>
     rwq m' (dropWhile reads ((a, t, w) # q)) \<and> woke (takeWhile reads ((a, t, w) # q)) m m' \<and> activity m' = activity m"
proof (induction q arbitrary: a t w n m)
  case (Nil a t w n m)
  have f: "waiter_at m a = waiter_of t w" using Nil by (simp add: rwq_def)
  have nx: "get_next a (cells m) = Some (wait_head m)" using Nil by (simp add: rwq_def ring_def)
  obtain m1 where m1: "wake_waiter a m = Some m1" "rwq m1 []" "woke [(a, t, w)] m m1" "activity m1 = activity m" using wake_waiter_ok[OF Nil] by blast
  show ?case
  proof (cases w)
    case True
    then show ?thesis using Nil by (simp add: wake_readers.simps[of a] f waiter_of_flags woke_refl)
  next
    case False
    then show ?thesis using m1 rwq_empty[OF m1(2)] by (simp add: wake_readers.simps[of a] f waiter_of_flags nx)
  qed
next
  case (Cons e q a t w n m)
  obtain b u v where e: "e = (b, u, v)" by (cases e)
  have f: "waiter_at m a = waiter_of t w" using Cons.prems by (simp add: rwq_def)
  have nx: "get_next a (cells m) = Some b" using Cons.prems by (simp add: rwq_def ring_def e)
  obtain m1 where m1: "wake_waiter a m = Some m1" "rwq m1 ((b, u, v) # q)" "woke [(a, t, w)] m m1" "activity m1 = activity m"
    using wake_waiter_ok[OF Cons.prems] e by blast
  show ?case
  proof (cases w)
    case True
    then show ?thesis using Cons.prems by (simp add: wake_readers.simps[of a] f waiter_of_flags woke_refl)
  next
    case False
    obtain m2 where m2: "wake_readers b (n + 1) m1 = Some (n + 1 + int (length (takeWhile reads ((b, u, v) # q))), m2)"
      "rwq m2 (dropWhile reads ((b, u, v) # q))" "woke (takeWhile reads ((b, u, v) # q)) m1 m2" "activity m2 = activity m1"
      using Cons.IH[OF m1(2)] by blast
    have run: "wake_readers a n m = wake_readers b (n + 1) m1"
      using False m1(1) rwq_empty[OF m1(2)] by (simp add: wake_readers.simps[of a] f waiter_of_flags nx)
    show ?thesis using False m2 m1(4) woke_trans[OF m1(3) m2(3)] unfolding run e by simp
  qed
qed

text \<open>Which waiters get the semaphore when the counter has become \<open>k\<close>: a writer at the front if writers may be woken, or all readers
  at the front.\<close>

definition grants :: "bool \<Rightarrow> rw_entry list \<Rightarrow> rw_entry list" where
  "grants wakewrite q = (case q of [] \<Rightarrow> [] | e # _ \<Rightarrow> if reads e then takeWhile reads q else if wakewrite then [e] else [])"

definition new_activity :: "int \<Rightarrow> rw_entry list \<Rightarrow> int" where
  "new_activity k es = (if \<exists>e\<in>set es. \<not> reads e then -1 else k + int (length es))"

lemma grants_prefix: "q = grants w q @ drop (length (grants w q)) q"
proof (cases q)
  case (Cons e xs)
  have "length (takeWhile reads q) \<le> length q" by (rule length_takeWhile_le)
  then have "q = takeWhile reads q @ drop (length (takeWhile reads q)) q" by (metis dropWhile_eq_drop takeWhile_dropWhile_id)
  then show ?thesis using Cons by (auto simp: grants_def)
qed (simp add: grants_def)

lemma do_wake_ok:
  assumes q: "rwq m q" "q \<noteq> []"
  shows "\<exists>m'. rwsem_do_wake w m = Some m' \<and> rwq m' (drop (length (grants w q)) q) \<and> woke (grants w q) m m' \<and>
    activity m' = new_activity (activity m) (grants w q)"
proof -
  obtain a t v xs where e: "q = (a, t, v) # xs" using q(2) by (metis neq_Nil_conv prod_cases3)
  have f: "waiter_at m a = waiter_of t v" and n: "get_next (wait_head m) (cells m) = Some a" using q(1) rwq_first[of m] by (auto simp: e rwq_def)
  consider (reader) "\<not> v" | (writer) "v" "w" | (none) "v" "\<not> w" by blast
  then show ?thesis
  proof cases
    case reader
    obtain m1 where m1: "wake_readers a 0 m = Some (int (length (takeWhile reads q)), m1)" "rwq m1 (dropWhile reads q)"
      "woke (takeWhile reads q) m m1" "activity m1 = activity m" using wake_readers_ok[OF q(1)[unfolded e], of 0] unfolding e[symmetric] by auto
    let ?m = "m1\<lparr>activity := activity m1 + int (length (takeWhile reads q))\<rparr>"
    have "rwsem_do_wake w m = Some ?m" using m1(1) reader by (simp add: rwsem_do_wake_def n f waiter_of_flags Let_def)
    moreover have "rwq ?m (dropWhile reads q)" "woke (takeWhile reads q) m ?m" using m1(2,3) by (simp_all add: rwq_def woke_def)
    moreover have "grants w q = takeWhile reads q" using reader by (simp add: grants_def e)
    moreover have "\<not> (\<exists>e\<in>set (takeWhile reads q). \<not> reads e)" by (auto dest: set_takeWhileD)
    ultimately show ?thesis using m1(4) by (simp add: new_activity_def dropWhile_eq_drop)
  next
    case writer
    have "rwq (m\<lparr>activity := -1\<rparr>) q" using q(1) by (simp add: rwq_def)
    from wake_waiter_ok[OF this[unfolded e]] obtain m1 where m1: "wake_waiter a (m\<lparr>activity := -1\<rparr>) = Some m1" "rwq m1 xs"
      "woke [(a, t, v)] (m\<lparr>activity := -1\<rparr>) m1" "activity m1 = -1" by auto
    have "rwsem_do_wake w m = Some m1" using m1(1) writer by (simp add: rwsem_do_wake_def n f waiter_of_flags Let_def)
    then show ?thesis using m1 writer by (simp add: e grants_def new_activity_def woke_def)
  next
    case none
    then have "rwsem_do_wake w m = Some m" by (simp add: rwsem_do_wake_def n f waiter_of_flags Let_def)
    then show ?thesis using none q(1) by (simp add: e grants_def new_activity_def woke_refl)
  qed
qed

lemma wake_one_writer_ok:
  assumes q: "rwq m (e # xs)"
  shows "\<exists>m'. rwsem_wake_one_writer m = Some m' \<and> rwq m' xs \<and> woke [e] m m' \<and> activity m' = -1"
proof -
  obtain a t v where e: "e = (a, t, v)" by (cases e)
  have "rwq (m\<lparr>activity := -1\<rparr>) ((a, t, v) # xs)" using q e by (simp add: rwq_def)
  from wake_waiter_ok[OF this] rwq_first[OF q] show ?thesis by (auto simp: rwsem_wake_one_writer_def Let_def e woke_def)
qed

lemma enqueue_ok:
  assumes q: "rwq m q" and a: "a \<in> dom (cells m)" "a \<noteq> wait_head m" "a \<notin> fst ` set q"
    and f: "\<lparr>wr_task = Some t, wr_flags = flags\<rparr> = waiter_of t w"
  shows "\<exists>m'. enqueue_waiter flags a t m = Some m' \<and> rwq m' (q @ [(a, t, w)]) \<and> activity m' = activity m \<and> woken m' = woken m \<and>
    wait_head m' = wait_head m \<and> dom (cells m') = dom (cells m) \<and> (\<forall>b. waiter_at m' b = (if b = a then waiter_of t w else waiter_at m b)) \<and>
    (\<forall>u. usage m' u = usage m u + (if u = t then 1 else 0))"
proof -
  from kq.add_tail_law[of "cells m" "wait_head m" "map fst q" a] q a obtain c where
    c: "list_add_tail a (wait_head m) (cells m) = Some c" "ring c (wait_head m) (map fst q @ [a])" "dom c = dom (cells m)" by (auto simp: rwq_def)
  let ?m = "m\<lparr>waiter_at := (waiter_at m)(a := waiter_of t w), usage := (usage m)(t := usage m t + 1), cells := c\<rparr>"
  have "\<forall>(b, u, v)\<in>set q. b \<noteq> a" using a(3) by force
  then have "rwq ?m (q @ [(a, t, w)])" using c(2) q by (auto simp: rwq_def)
  moreover have "enqueue_waiter flags a t m = Some ?m" using c(1) by (simp add: enqueue_waiter_def Let_def f)
  ultimately show ?thesis using c(3) by simp
qed

text \<open>Releasing: who is woken, and what becomes of the counter.\<close>

lemma up_read_ok:
  assumes q: "rwq m q"
  defines "es \<equiv> (if activity m = 1 then take 1 q else [])"
  shows "\<exists>m'. up_read m = Some m' \<and> rwq m' (drop (length es) q) \<and> woke es m m' \<and> activity m' = (if es = [] then activity m - 1 else -1)"
proof -
  let ?m = "m\<lparr>activity := activity m - 1\<rparr>"
  have q1: "rwq ?m q" using q by (simp add: rwq_def)
  show ?thesis
  proof (cases "activity m = 1 \<and> q \<noteq> []")
    case True
    then obtain e xs where e: "q = e # xs" by (auto simp: neq_Nil_conv)
    from wake_one_writer_ok[OF q1[unfolded e]] rwq_empty[OF q1] show ?thesis using True by (auto simp: up_read_def Let_def es_def e woke_def)
  next
    case False
    then have "up_read m = Some ?m" "es = []" using rwq_empty[OF q1] by (auto simp: up_read_def Let_def es_def)
    then show ?thesis using q1 by (auto simp: woke_def)
  qed
qed

lemma release_ok:
  assumes q: "rwq m q"
  shows "\<exists>m'. up_write m = Some m' \<and> rwq m' (drop (length (grants True q)) q) \<and> woke (grants True q) m m' \<and> activity m' = new_activity 0 (grants True q)"
    "\<exists>m'. downgrade_write m = Some m' \<and> rwq m' (drop (length (grants False q)) q) \<and> woke (grants False q) m m' \<and>
      activity m' = new_activity 1 (grants False q)"
proof -
  have q1: "rwq (m\<lparr>activity := k\<rparr>) q" for k using q by (simp add: rwq_def)
  have e: "woke es (m\<lparr>activity := k\<rparr>) m' = woke es m m'" for es k m' by (simp add: woke_def)
  show "\<exists>m'. up_write m = Some m' \<and> rwq m' (drop (length (grants True q)) q) \<and> woke (grants True q) m m' \<and> activity m' = new_activity 0 (grants True q)"
    using do_wake_ok[OF q1[of 0], of True] rwq_empty[OF q1[of 0]] q1[of 0]
    by (cases "q = []") (auto simp: up_write_def Let_def e grants_def new_activity_def woke_none)
  show "\<exists>m'. downgrade_write m = Some m' \<and> rwq m' (drop (length (grants False q)) q) \<and> woke (grants False q) m m' \<and>
      activity m' = new_activity 1 (grants False q)"
    using do_wake_ok[OF q1[of 1], of False] rwq_empty[OF q1[of 1]] q1[of 1]
    by (cases "q = []") (auto simp: downgrade_write_def Let_def e grants_def new_activity_def woke_none)
qed

lemma grants_shape: "(\<forall>e\<in>set (grants w q). reads e) \<or> (\<exists>x. grants w q = [x] \<and> \<not> reads x)"
  by (cases q) (auto simp: grants_def dest: set_takeWhileD)

text \<open>After a grant to readers the front of the queue is a writer; after one without, nothing is left or a writer waits.\<close>

lemma grants_rest:
  assumes "drop (length (grants w q)) q \<noteq> []" "\<forall>e\<in>set (grants w q). reads e"
  shows "\<not> reads (hd (drop (length (grants w q)) q))"
proof (cases q)
  case (Cons e xs)
  show ?thesis
  proof (cases "reads e")
    case True
    then have "grants w q = takeWhile reads q" using Cons by (simp add: grants_def)
    then have "drop (length (grants w q)) q = dropWhile reads q" by (simp add: dropWhile_eq_drop)
    then show ?thesis using hd_dropWhile[of reads q] assms(1) by simp
  next
    case False
    then have g: "grants w q = (if w then [e] else [])" using Cons by (simp add: grants_def)
    then show ?thesis using assms(2) False Cons by (cases w) simp_all
  qed
qed (use assms in simp)

text \<open>Asking: the semaphore is given at once only when nobody waits.\<close>

lemma down_ok:
  assumes q: "rwq m q" and a: "a \<in> dom (cells m)" "a \<noteq> wait_head m" "a \<notin> fst ` set q"
  shows "\<exists>got m'. down_read a t m = Some (got, m') \<and> (if got then q = [] \<and> 0 \<le> activity m \<and> m' = m\<lparr>activity := activity m + 1\<rparr>
      else (q \<noteq> [] \<or> activity m < 0) \<and> enqueue_waiter RWSEM_WAITING_FOR_READ a t m = Some m')"
    "\<exists>got m'. down_write a t m = Some (got, m') \<and> (if got then q = [] \<and> activity m = 0 \<and> m' = m\<lparr>activity := -1\<rparr>
      else (q \<noteq> [] \<or> activity m \<noteq> 0) \<and> enqueue_waiter RWSEM_WAITING_FOR_WRITE a t m = Some m')"
proof -
  obtain m1 m2 where e: "enqueue_waiter RWSEM_WAITING_FOR_READ a t m = Some m1" "enqueue_waiter RWSEM_WAITING_FOR_WRITE a t m = Some m2"
    using enqueue_ok[OF assms, of t RWSEM_WAITING_FOR_READ False] enqueue_ok[OF assms, of t RWSEM_WAITING_FOR_WRITE True] by (auto simp: waiter_of_def)
  show "\<exists>got m'. down_read a t m = Some (got, m') \<and> (if got then q = [] \<and> 0 \<le> activity m \<and> m' = m\<lparr>activity := activity m + 1\<rparr>
      else (q \<noteq> [] \<or> activity m < 0) \<and> enqueue_waiter RWSEM_WAITING_FOR_READ a t m = Some m')"
    using e(1) by (simp add: down_read_def rwq_empty[OF q]) force
  show "\<exists>got m'. down_write a t m = Some (got, m') \<and> (if got then q = [] \<and> activity m = 0 \<and> m' = m\<lparr>activity := -1\<rparr>
      else (q \<noteq> [] \<or> activity m \<noteq> 0) \<and> enqueue_waiter RWSEM_WAITING_FOR_WRITE a t m = Some m')"
    using e(2) by (simp add: down_write_def down_write_nested_def rwq_empty[OF q]) force
qed

lemma trylock_ok_rw:
  assumes "rwq m q"
  shows "down_read_trylock m = Some (if 0 \<le> activity m \<and> q = [] then (True, m\<lparr>activity := activity m + 1\<rparr>) else (False, m))"
    "down_write_trylock m = Some (if activity m = 0 \<and> q = [] then (True, m\<lparr>activity := -1\<rparr>) else (False, m))"
  by (simp_all add: down_read_trylock_def down_write_trylock_def rwq_empty[OF assms])

end
