(* ===== verification/Rwsem_System.thy ===== *)
theory Rwsem_System
  imports Rwsem
begin

text \<open>
  Any number of tasks that use one semaphore for readers and writers: the counter always says who has it, waiting tasks
  get it in the order in which they came, and nobody waits for a semaphore that is free.
\<close>

subsection \<open>Tasks and steps\<close>

text \<open>Of every task, the waiter of the call it is waiting in and whether it wants to write; the tasks that have the semaphore,
  from the moment it is given to them; and the tasks that have gone to sleep, in this order.\<close>

record rw_system =
  sem :: rw_semaphore
  waits :: "nat \<Rightarrow> (addr \<times> bool) option"
  readers :: "nat list"
  writer :: "nat option"
  slept :: "nat list"

datatype rw_event = Down_read nat addr | Down_write nat addr | Try_read nat | Try_write nat | Look nat
  | Up_read nat | Up_write nat | Downgrade nat

fun hand_to :: "nat list \<Rightarrow> rw_system \<Rightarrow> rw_system" where
  "hand_to [] y = y"
| "hand_to (t # ts) y = hand_to ts (case waits y t of
     Some (_, True) \<Rightarrow> y\<lparr>writer := Some t\<rparr>
   | _ \<Rightarrow> y\<lparr>readers := readers y @ [t]\<rparr>)"

definition after_wake :: "rw_semaphore \<Rightarrow> rw_system \<Rightarrow> rw_system" where
  "after_wake m y = hand_to (drop (length (woken (sem y))) (woken m)) (y\<lparr>sem := m\<rparr>)"

definition after_down :: "nat \<Rightarrow> addr \<Rightarrow> bool \<Rightarrow> rw_system \<Rightarrow> bool \<times> rw_semaphore \<Rightarrow> rw_system" where
  "after_down t a w y = (\<lambda>(got, m).
     if got then (if w then y\<lparr>sem := m, writer := Some t\<rparr> else y\<lparr>sem := m, readers := readers y @ [t]\<rparr>)
     else y\<lparr>sem := m, waits := (waits y)(t \<mapsto> (a, w)), slept := slept y @ [t]\<rparr>)"

definition after_try :: "nat \<Rightarrow> bool \<Rightarrow> rw_system \<Rightarrow> bool \<times> rw_semaphore \<Rightarrow> rw_system" where
  "after_try t w y = (\<lambda>(got, m).
     if got then (if w then y\<lparr>sem := m, writer := Some t\<rparr> else y\<lparr>sem := m, readers := readers y @ [t]\<rparr>) else y\<lparr>sem := m\<rparr>)"

fun rw_step :: "rw_event \<Rightarrow> rw_system \<Rightarrow> rw_system option" where
  "rw_step (Down_read t a) y = map_option (after_down t a False y) (down_read a t (sem y))"
| "rw_step (Down_write t a) y = map_option (after_down t a True y) (down_write a t (sem y))"
| "rw_step (Try_read t) y = map_option (after_try t False y) (down_read_trylock (sem y))"
| "rw_step (Try_write t) y = map_option (after_try t True y) (down_write_trylock (sem y))"
| "rw_step (Look t) y = (case waits y t of
     None \<Rightarrow> Some y
   | Some (a, _) \<Rightarrow> Some (if wait_over a (sem y) then y\<lparr>waits := (waits y)(t := None)\<rparr> else y))"
| "rw_step (Up_read t) y = map_option (\<lambda>m. after_wake m (y\<lparr>readers := remove1 t (readers y)\<rparr>)) (up_read (sem y))"
| "rw_step (Up_write t) y = map_option (\<lambda>m. after_wake m (y\<lparr>writer := None\<rparr>)) (up_write (sem y))"
| "rw_step (Downgrade t) y = map_option (\<lambda>m. after_wake m (y\<lparr>writer := None, readers := [t]\<rparr>)) (downgrade_write (sem y))"

text \<open>A task that waits does nothing else, its waiter is memory of its own, and who releases the semaphore has it.\<close>

fun rw_guard :: "rw_event \<Rightarrow> rw_system \<Rightarrow> bool" where
  "rw_guard (Down_read t a) y \<longleftrightarrow> waits y t = None \<and> cells (sem y) a \<noteq> None \<and> a \<noteq> wait_head (sem y)"
| "rw_guard (Down_write t a) y \<longleftrightarrow> waits y t = None \<and> cells (sem y) a \<noteq> None \<and> a \<noteq> wait_head (sem y)"
| "rw_guard (Try_read t) y \<longleftrightarrow> waits y t = None"
| "rw_guard (Try_write t) y \<longleftrightarrow> waits y t = None"
| "rw_guard (Look t) y \<longleftrightarrow> waits y t \<noteq> None"
| "rw_guard (Up_read t) y \<longleftrightarrow> waits y t = None \<and> t \<in> set (readers y)"
| "rw_guard (Up_write t) y \<longleftrightarrow> waits y t = None \<and> writer y = Some t"
| "rw_guard (Downgrade t) y \<longleftrightarrow> waits y t = None \<and> writer y = Some t"

fun event_waiter :: "rw_event \<Rightarrow> addr option" where
  "event_waiter (Down_read t a) = Some a"
| "event_waiter (Down_write t a) = Some a"
| "event_waiter _ = None"

definition rw_allowed :: "rw_event \<Rightarrow> rw_system \<Rightarrow> bool" where
  "rw_allowed e y \<longleftrightarrow> rw_guard e y \<and> (\<forall>u a w. waits y u = Some (a, w) \<longrightarrow> event_waiter e \<noteq> Some a)"

definition rw_start :: "rw_semaphore \<Rightarrow> rw_system" where
  "rw_start m = \<lparr>sem = m, waits = (\<lambda>t. None), readers = [], writer = None, slept = []\<rparr>"

inductive rw_reachable :: "rw_system \<Rightarrow> bool" where
  start: "init_rwsem m = Some m' \<Longrightarrow> woken m = [] \<Longrightarrow> rw_reachable (rw_start m')"
| step: "rw_reachable y \<Longrightarrow> rw_allowed e y \<Longrightarrow> rw_step e y = Some y' \<Longrightarrow> rw_reachable y'"

subsection \<open>The invariant\<close>

text \<open>The queue, the waiting calls and the order of arrival.\<close>

definition links :: "(nat \<Rightarrow> (addr \<times> bool) option) \<Rightarrow> nat list \<Rightarrow> rw_semaphore \<Rightarrow> rw_entry list \<Rightarrow> bool" where
  "links ws sl m q \<longleftrightarrow> rwq m q \<and> (\<forall>(a, t, w)\<in>set q. ws t = Some (a, w)) \<and>
     (\<forall>t a w. ws t = Some (a, w) \<longrightarrow> (a, t, w) \<in> set q \<or> wait_over a m) \<and>
     (\<forall>t u a v w. ws t = Some (a, v) \<longrightarrow> ws u = Some (a, w) \<longrightarrow> t = u) \<and> sl = woken m @ map etask q"

text \<open>The counter and who has the semaphore; a reader at the front waits for a writer.\<close>

definition held :: "int \<Rightarrow> nat list \<Rightarrow> nat option \<Rightarrow> rw_entry list \<Rightarrow> bool" where
  "held k rs wr q \<longleftrightarrow> k = (if wr = None then int (length rs) else -1) \<and> (wr \<noteq> None \<longrightarrow> rs = []) \<and>
     (q \<noteq> [] \<longrightarrow> k \<noteq> 0 \<and> (reads (hd q) \<longrightarrow> wr \<noteq> None))"

text \<open>A call whose waiter has lost its task is one of a task that has the semaphore.\<close>

definition given :: "(nat \<Rightarrow> (addr \<times> bool) option) \<Rightarrow> rw_semaphore \<Rightarrow> nat list \<Rightarrow> nat option \<Rightarrow> bool" where
  "given ws m rs wr \<longleftrightarrow> (\<forall>t a w. ws t = Some (a, w) \<longrightarrow> wait_over a m \<longrightarrow> (if w then wr = Some t else t \<in> set rs))"

definition rw_ok :: "rw_system \<Rightarrow> bool" where
  "rw_ok y \<longleftrightarrow> (\<exists>q. links (waits y) (slept y) (sem y) q \<and> held (activity (sem y)) (readers y) (writer y) q) \<and>
     given (waits y) (sem y) (readers y) (writer y)"

lemma linksD:
  assumes "links ws sl m q"
  shows "rwq m q" "(a, t, w) \<in> set q \<Longrightarrow> ws t = Some (a, w)" "ws t = Some (a, w) \<Longrightarrow> (a, t, w) \<in> set q \<or> wait_over a m"
    "ws t = Some (a, v) \<Longrightarrow> ws u = Some (a, w) \<Longrightarrow> t = u" "sl = woken m @ map etask q"
  using assms unfolding links_def by blast+

lemma linksI:
  assumes "rwq m q" "\<And>a t w. (a, t, w) \<in> set q \<Longrightarrow> ws t = Some (a, w)" "\<And>a t w. ws t = Some (a, w) \<Longrightarrow> (a, t, w) \<in> set q \<or> wait_over a m"
    "\<And>t u a v w. ws t = Some (a, v) \<Longrightarrow> ws u = Some (a, w) \<Longrightarrow> t = u" "sl = woken m @ map etask q"
  shows "links ws sl m q"
  using assms unfolding links_def by blast

lemma links_woke:
  assumes l: "links ws sl m (es @ q)" and w: "woke es m m'" and r: "rwq m' q"
  shows "links ws sl m' q"
proof (rule linksI[OF r])
  show "(a, t, v) \<in> set q \<or> wait_over a m'" if "ws t = Some (a, v)" for t a v
  proof -
    have "(a, t, v) \<in> set es \<or> (a, t, v) \<in> set q \<or> wait_over a m" using linksD(3)[OF l that] by auto
    moreover have "wait_over a m'" if "(a, t, v) \<in> set es \<or> wait_over a m" using w that image_eqI[of a fst "(a, t, v)" "set es"] by (auto simp: woke_def wait_over_def)
    ultimately show ?thesis by blast
  qed
  show "sl = woken m' @ map etask q" using linksD(5)[OF l] w by (simp add: woke_def)
qed (use linksD(2,4)[OF l] in auto)

lemma links_activity: "links ws sl (m\<lparr>activity := k\<rparr>) q = links ws sl m q"
  by (simp add: links_def rwq_def wait_over_def)

lemma woke_activity: "woke es (m\<lparr>activity := k\<rparr>) m' = woke es m m'"
  by (simp add: woke_def)

text \<open>Handing the semaphore to the tasks of \<open>es\<close>.\<close>

lemma hand_readers:
  "\<forall>e\<in>set es. waits y (etask e) = Some (fst e, False) \<Longrightarrow> hand_to (map etask es) y = y\<lparr>readers := readers y @ map etask es\<rparr>"
  by (induction es arbitrary: y) auto

lemma hand_writer: "waits y t = Some (a, True) \<Longrightarrow> hand_to [t] y = y\<lparr>writer := Some t\<rparr>"
  by simp

lemma after_wake_eq:
  assumes w: "woke es (sem y) m" and l: "links (waits y) (slept y) (sem y) (es @ q)" and e: "(\<forall>e\<in>set es. reads e) \<or> (\<exists>x. es = [x] \<and> \<not> reads x)"
  shows "after_wake m y = y\<lparr>sem := m, readers := readers y @ map etask (filter reads es),
    writer := (if \<forall>e\<in>set es. reads e then writer y else Some (etask (hd es)))\<rparr>"
proof -
  have ws: "waits y (etask x) = Some (fst x, snd (snd x))" if "x \<in> set es" for x using linksD(2)[OF l, of "fst x" "etask x" "snd (snd x)"] that by simp
  have d: "drop (length (woken (sem y))) (woken m) = map etask es" using w by (simp add: woke_def)
  show ?thesis
  proof (cases "\<forall>e\<in>set es. reads e")
    case True
    then have "filter reads es = es" "\<forall>e\<in>set es. waits (y\<lparr>sem := m\<rparr>) (etask e) = Some (fst e, False)" using ws by (auto simp: filter_id_conv)
    then show ?thesis using True hand_readers[of es "y\<lparr>sem := m\<rparr>"] by (simp add: after_wake_def d)
  next
    case False
    then obtain x where "es = [x]" "\<not> reads x" using e by auto
    then show ?thesis using ws[of x] by (simp add: after_wake_def d)
  qed
qed

lemma given_woke:
  assumes g: "given ws m rs None" and w: "woke es m m'" and l: "links ws sl m (es @ q)" and e: "(\<forall>e\<in>set es. reads e) \<or> (\<exists>x. es = [x] \<and> \<not> reads x)"
  shows "given ws m' (rs @ map etask (filter reads es)) (if \<forall>e\<in>set es. reads e then None else Some (etask (hd es)))"
  unfolding given_def
proof (intro allI impI)
  fix t a v assume t: "ws t = Some (a, v)" "wait_over a m'"
  show "if v then (if \<forall>e\<in>set es. reads e then None else Some (etask (hd es))) = Some t else t \<in> set (rs @ map etask (filter reads es))"
  proof (cases "a \<in> fst ` set es")
    case False
    then have "wait_over a m" using t(2) w by (simp add: woke_def wait_over_def)
    then have "\<not> v" "t \<in> set rs" using g t(1) by (auto simp: given_def split: if_splits)
    then show ?thesis by simp
  next
    case True
    then obtain u v' where u: "(a, u, v') \<in> set es" by force
    then have "ws u = Some (a, v')" using linksD(2)[OF l] by auto
    moreover have "u = t" using linksD(4)[OF l calculation t(1)] .
    ultimately have "u = t" "v' = v" using t(1) by auto
    then show ?thesis using u e by force
  qed
qed

lemma woken_step:
  assumes l: "links (waits y) (slept y) (sem y) q" and w: "q = es @ q'" "woke es (sem y) m" "rwq m q'"
    and e: "(\<forall>e\<in>set es. reads e) \<or> (\<exists>x. es = [x] \<and> \<not> reads x)" and g: "given (waits y) (sem y) rs None"
    and h: "held (activity m) (rs @ map etask (filter reads es)) (if \<forall>e\<in>set es. reads e then None else Some (etask (hd es))) q'"
  shows "rw_ok (after_wake m (y\<lparr>readers := rs, writer := None\<rparr>))"
proof -
  let ?y = "y\<lparr>readers := rs, writer := None\<rparr>"
  have "after_wake m ?y = ?y\<lparr>sem := m, readers := rs @ map etask (filter reads es),
      writer := (if \<forall>e\<in>set es. reads e then None else Some (etask (hd es)))\<rparr>"
    using after_wake_eq[of es ?y m q'] w l e by simp
  moreover have "links (waits y) (slept y) m q'" using links_woke[OF _ w(2,3)] l w(1) by simp
  moreover have "given (waits y) m (rs @ map etask (filter reads es)) (if \<forall>e\<in>set es. reads e then None else Some (etask (hd es)))"
    using given_woke[OF g w(2) _ e] l w(1) by simp
  ultimately show ?thesis using h unfolding rw_ok_def by (intro conjI exI[of _ q']) simp_all
qed

lemma up_read_step:
  assumes l: "links (waits y) (slept y) (sem y) q" and h: "held (activity (sem y)) (readers y) (writer y) q" and gv: "given (waits y) (sem y) (readers y) (writer y)"
    and t: "t \<in> set (readers y)" "waits y t = None"
  shows "\<exists>y'. rw_step (Up_read t) y = Some y' \<and> rw_ok y'"
proof -
  define es where "es = (if activity (sem y) = 1 then take 1 q else [])"
  obtain m where m: "up_read (sem y) = Some m" "rwq m (drop (length es) q)" "woke es (sem y) m" "activity m = (if es = [] then activity (sem y) - 1 else -1)"
    using up_read_ok[OF linksD(1)[OF l]] unfolding es_def by blast
  have k: "writer y = None" "activity (sem y) = int (length (readers y))" using h t(1) by (auto simp: held_def)
  have q: "q \<noteq> [] \<Longrightarrow> \<not> reads (hd q)" using h k by (auto simp: held_def)
  have one: "es = [hd q]" if "es \<noteq> []" using that by (cases q) (auto simp: es_def split: if_splits)
  have pre: "q = es @ drop (length es) q" by (cases q) (simp_all add: es_def)
  have "0 < length (readers y)" using t(1) by auto
  then have len: "int (length (remove1 t (readers y))) = int (length (readers y)) - 1" using t(1) by (simp add: length_remove1 of_nat_diff Suc_leI)
  have "rw_ok (after_wake m (y\<lparr>readers := remove1 t (readers y), writer := None\<rparr>))"
  proof (rule woken_step[OF l pre m(3,2)])
    have "u \<noteq> t" if "waits y u = Some (a, w)" for u a w using that t(2) by auto
    then show "given (waits y) (sem y) (remove1 t (readers y)) None" using gv k(1) unfolding given_def by (metis in_set_remove1)
    show "(\<forall>e\<in>set es. reads e) \<or> (\<exists>x. es = [x] \<and> \<not> reads x)" using one q by (cases "es = []"; cases "q = []") (auto simp: es_def split: if_splits)
    show "held (activity m) (remove1 t (readers y) @ map etask (filter reads es)) (if \<forall>e\<in>set es. reads e then None else Some (etask (hd es))) (drop (length es) q)"
    proof (cases "es = []")
      case True
      then have "q = [] \<or> activity (sem y) \<noteq> 1" by (auto simp: es_def split: if_splits)
      then show ?thesis using True q m(4) k len by (auto simp: held_def)
    next
      case False
      then have "activity (sem y) = 1" "q \<noteq> []" by (auto simp: es_def split: if_splits)
      then have "remove1 t (readers y) = []" "\<not> reads (hd q)" using k(2) len q by auto
      then show ?thesis using one[OF False] m(4) by (simp add: held_def)
    qed
  qed
  moreover have "y\<lparr>readers := remove1 t (readers y), writer := None\<rparr> = y\<lparr>readers := remove1 t (readers y)\<rparr>" using k(1) by (cases y) simp
  ultimately show ?thesis using m(1) by simp
qed

lemma release_step:
  assumes l: "links (waits y) (slept y) (sem y) q"
    and m: "rwq m (drop (length (grants w q)) q)" "woke (grants w q) (sem y) m" "activity m = new_activity (int (length rs)) (grants w q)"
    and r: "rs = [] \<or> \<not> w" and n: "q \<noteq> [] \<Longrightarrow> rs \<noteq> [] \<or> w" and gv: "given (waits y) (sem y) rs None"
  shows "rw_ok (after_wake m (y\<lparr>readers := rs, writer := None\<rparr>))"
proof (rule woken_step[OF l grants_prefix m(2,1) grants_shape gv])
  let ?es = "grants w q" and ?q = "drop (length (grants w q)) q"
  show "held (activity m) (rs @ map etask (filter reads ?es)) (if \<forall>e\<in>set ?es. reads e then None else Some (etask (hd ?es))) ?q"
  proof (cases "\<forall>e\<in>set ?es. reads e")
    case True
    then have f: "filter reads ?es = ?es" "activity m = int (length rs) + int (length ?es)" using m(3) by (auto simp: new_activity_def filter_id_conv)
    have "rs \<noteq> [] \<or> ?es \<noteq> []" if "?q \<noteq> []" using n grants_rest[OF that True] that by (cases q) (auto simp: grants_def split: if_splits)
    then have "?q \<noteq> [] \<longrightarrow> activity m \<noteq> 0" using f(2) by (metis add_is_0 length_0_conv of_nat_0_eq_iff of_nat_add)
    then show ?thesis using True f grants_rest[OF _ True] by (auto simp: held_def)
  next
    case False
    then obtain x where x: "?es = [x]" "\<not> reads x" using grants_shape[of w q] by auto
    then have "w" by (cases q) (auto simp: grants_def dest: set_takeWhileD split: if_splits)
    then show ?thesis using x m(3) r by (simp add: held_def new_activity_def)
  qed
qed

lemma queued_step:
  assumes l: "links (waits y) (slept y) (sem y) q" and h: "held (activity (sem y)) (readers y) (writer y) q" and gv: "given (waits y) (sem y) (readers y) (writer y)"
    and t: "waits y t = None" and a: "a \<in> dom (cells (sem y))" "a \<noteq> wait_head (sem y)" "\<And>u w. waits y u \<noteq> Some (a, w)"
    and f: "\<lparr>wr_task = Some t, wr_flags = flags\<rparr> = waiter_of t w" and m: "enqueue_waiter flags a t (sem y) = Some m"
    and n: "q = [] \<Longrightarrow> activity (sem y) \<noteq> 0 \<and> (\<not> w \<longrightarrow> writer y \<noteq> None)"
  shows "rw_ok (after_down t a w y (False, m))"
proof -
  have aq: "a \<notin> fst ` set q" using linksD(2)[OF l] a(3) by force
  from enqueue_ok[OF linksD(1)[OF l] a(1,2) aq f] m have e: "rwq m (q @ [(a, t, w)])" "activity m = activity (sem y)" "woken m = woken (sem y)"
    "\<And>b. waiter_at m b = (if b = a then waiter_of t w else waiter_at (sem y) b)" by auto
  have "links ((waits y)(t \<mapsto> (a, w))) (slept y @ [t]) m (q @ [(a, t, w)])"
  proof (rule linksI[OF e(1)])
    show "((waits y)(t \<mapsto> (a, w))) u = Some (b, v)" if "(b, u, v) \<in> set (q @ [(a, t, w)])" for b u v
      using that linksD(2)[OF l, of b u v] t by auto
  qed (use linksD(3,4,5)[OF l] a(3) in \<open>auto simp: e wait_over_def split: if_splits\<close>)
  moreover have "held (activity m) (readers y) (writer y) (q @ [(a, t, w)])" using h n by (cases q) (auto simp: held_def e)
  moreover have "given ((waits y)(t \<mapsto> (a, w))) m (readers y) (writer y)"
    using gv a(3) by (auto simp: given_def e(4) wait_over_def waiter_of_def split: if_splits)
  ultimately show ?thesis by (auto simp: rw_ok_def after_down_def)
qed

lemma got_step:
  assumes l: "links (waits y) (slept y) (sem y) []" and h: "held (activity (sem y)) (readers y) (writer y) []"
    and gv: "given (waits y) (sem y) (readers y) (writer y)"
  shows "0 \<le> activity (sem y) \<Longrightarrow> rw_ok (y\<lparr>sem := (sem y)\<lparr>activity := activity (sem y) + 1\<rparr>, readers := readers y @ [t]\<rparr>)"
    "activity (sem y) = 0 \<Longrightarrow> rw_ok (y\<lparr>sem := (sem y)\<lparr>activity := -1\<rparr>, writer := Some t\<rparr>)"
proof -
  have g: "given ws (m\<lparr>activity := k\<rparr>) rs wr = given ws m rs wr" for ws m k rs wr by (simp add: given_def wait_over_def)
  show "rw_ok (y\<lparr>sem := (sem y)\<lparr>activity := activity (sem y) + 1\<rparr>, readers := readers y @ [t]\<rparr>)" if "0 \<le> activity (sem y)"
  proof -
    have "writer y = None" using h that by (auto simp: held_def split: if_splits)
    moreover have "given (waits y) (sem y) (readers y @ [t]) (writer y)" using gv by (auto simp: given_def split: if_splits)
    ultimately show ?thesis using l h by (auto simp: rw_ok_def links_activity g held_def intro!: exI[of _ "[]"])
  qed
  show "rw_ok (y\<lparr>sem := (sem y)\<lparr>activity := -1\<rparr>, writer := Some t\<rparr>)" if "activity (sem y) = 0"
  proof -
    have "writer y = None" "readers y = []" using h that by (auto simp: held_def split: if_splits)
    moreover have "given (waits y) (sem y) [] (Some t)" using gv calculation by (auto simp: given_def split: if_splits)
    ultimately show ?thesis using l h by (auto simp: rw_ok_def links_activity g held_def intro!: exI[of _ "[]"])
  qed
qed

lemma look_step:
  assumes l: "links (waits y) (slept y) (sem y) q" and h: "held (activity (sem y)) (readers y) (writer y) q" and gv: "given (waits y) (sem y) (readers y) (writer y)"
    and t: "waits y t = Some (a, w)" "wait_over a (sem y)"
  shows "rw_ok (y\<lparr>waits := (waits y)(t := None)\<rparr>)"
proof -
  have "(b, t, v) \<notin> set q" for b v
  proof
    assume b: "(b, t, v) \<in> set q"
    then have "waiter_at (sem y) b = waiter_of t v" using linksD(1)[OF l] by (auto simp: rwq_def)
    then show False using linksD(2)[OF l b] t by (simp add: wait_over_def waiter_of_def)
  qed
  then have "links ((waits y)(t := None)) (slept y) (sem y) q" using linksD[OF l] by (intro linksI) (auto split: if_splits)
  moreover have "given ((waits y)(t := None)) (sem y) (readers y) (writer y)" using gv by (auto simp: given_def)
  ultimately show ?thesis using h by (auto simp: rw_ok_def)
qed

lemma down_step:
  assumes l: "links (waits y) (slept y) (sem y) q" and h: "held (activity (sem y)) (readers y) (writer y) q" and gv: "given (waits y) (sem y) (readers y) (writer y)"
    and a: "waits y t = None" "a \<in> dom (cells (sem y))" "a \<noteq> wait_head (sem y)" "\<And>u w. waits y u \<noteq> Some (a, w)"
  shows "\<exists>y'. rw_step (Down_read t a) y = Some y' \<and> rw_ok y'" "\<exists>y'. rw_step (Down_write t a) y = Some y' \<and> rw_ok y'"
proof -
  have aq: "a \<notin> fst ` set q" using linksD(2)[OF l] a(4) by force
  note D = down_ok[OF linksD(1)[OF l] a(2,3) aq, of t]
  obtain got m where m: "down_read a t (sem y) = Some (got, m)" "if got then q = [] \<and> 0 \<le> activity (sem y) \<and> m = (sem y)\<lparr>activity := activity (sem y) + 1\<rparr>
      else (q \<noteq> [] \<or> activity (sem y) < 0) \<and> enqueue_waiter RWSEM_WAITING_FOR_READ a t (sem y) = Some m"
    using D(1) by blast
  have "rw_ok (after_down t a False y (got, m))"
  proof (cases got)
    case True
    then show ?thesis using m(2) got_step(1)[of y t] l h gv by (simp add: after_down_def)
  next
    case False
    have "rw_ok (after_down t a False y (False, m))"
      by (rule queued_step[OF l h gv a]) (use False m(2) h in \<open>auto simp: waiter_of_def held_def split: if_splits\<close>)
    then show ?thesis using False by simp
  qed
  then show "\<exists>y'. rw_step (Down_read t a) y = Some y' \<and> rw_ok y'" using m(1) by simp
  obtain got m where m: "down_write a t (sem y) = Some (got, m)" "if got then q = [] \<and> activity (sem y) = 0 \<and> m = (sem y)\<lparr>activity := -1\<rparr>
      else (q \<noteq> [] \<or> activity (sem y) \<noteq> 0) \<and> enqueue_waiter RWSEM_WAITING_FOR_WRITE a t (sem y) = Some m"
    using D(2) by blast
  have "rw_ok (after_down t a True y (got, m))"
  proof (cases got)
    case True
    then show ?thesis using m(2) got_step(2)[of y t] l h gv by (simp add: after_down_def)
  next
    case False
    have "rw_ok (after_down t a True y (False, m))"
      by (rule queued_step[OF l h gv a]) (use False m(2) in \<open>auto simp: waiter_of_def split: if_splits\<close>)
    then show ?thesis using False by simp
  qed
  then show "\<exists>y'. rw_step (Down_write t a) y = Some y' \<and> rw_ok y'" using m(1) by simp
qed

lemma rw_step_ok:
  assumes ok: "rw_ok y" and e: "rw_allowed e y"
  shows "\<exists>y'. rw_step e y = Some y' \<and> rw_ok y'"
proof -
  obtain q where l: "links (waits y) (slept y) (sem y) q" and h: "held (activity (sem y)) (readers y) (writer y) q"
    and gv: "given (waits y) (sem y) (readers y) (writer y)" using ok by (auto simp: rw_ok_def)
  note q = linksD(1)[OF l]
  have g: "rw_guard e y" and fresh: "\<And>u a w. event_waiter e = Some a \<Longrightarrow> waits y u \<noteq> Some (a, w)" using e by (auto simp: rw_allowed_def)
  show ?thesis
  proof (cases e)
    case (Down_read t a)
    then show ?thesis using down_step(1)[OF l h gv] g fresh by (auto simp: domIff)
  next
    case (Down_write t a)
    then show ?thesis using down_step(2)[OF l h gv] g fresh by (auto simp: domIff)
  next
    case (Try_read t)
    have "y\<lparr>sem := sem y\<rparr> = y" by simp
    then show ?thesis using Try_read trylock_ok_rw(1)[OF q] got_step(1)[of y t] l h gv ok by (auto simp: after_try_def)
  next
    case (Try_write t)
    have "y\<lparr>sem := sem y\<rparr> = y" by simp
    then show ?thesis using Try_write trylock_ok_rw(2)[OF q] got_step(2)[of y t] l h gv ok by (auto simp: after_try_def)
  next
    case (Look t)
    then show ?thesis using look_step[OF l h gv, of t] g ok by (auto split: option.splits)
  next
    case (Up_read t)
    then show ?thesis using up_read_step[OF l h gv, of t] g by auto
  next
    case (Up_write t)
    then have r: "readers y = []" using h g by (auto simp: held_def)
    have gn: "given (waits y) (sem y) [] None" using gv g Up_write r by (auto simp: given_def split: if_splits)
    have e: "y\<lparr>readers := [], writer := None\<rparr> = y\<lparr>writer := None\<rparr>" using r by (cases y) simp
    show ?thesis using Up_write release_ok(1)[OF q] release_step[OF l, of _ True "[]"] gn by (auto simp: e)
  next
    case (Downgrade t)
    then have "readers y = []" using h g by (auto simp: held_def)
    then have gn: "given (waits y) (sem y) [t] None" using gv g Downgrade by (auto simp: given_def split: if_splits)
    have e: "y\<lparr>readers := [t], writer := None\<rparr> = y\<lparr>writer := None, readers := [t]\<rparr>" by simp
    show ?thesis using Downgrade release_ok(2)[OF q] release_step[OF l, of _ False "[t]"] gn by (auto simp: e)
  qed
qed

lemma rw_start_ok:
  assumes "init_rwsem m = Some m'" "woken m = []"
  shows "rw_ok (rw_start m')"
proof -
  obtain c where c: "INIT_LIST_HEAD (wait_head m) (cells m) = Some c" "m' = m\<lparr>activity := 0, cells := c\<rparr>"
    using assms(1) by (auto simp: init_rwsem_def Let_def bind_eq_Some_conv)
  then have "wait_head m \<in> dom (cells m)" by (auto simp: INIT_LIST_HEAD_def set_next_def bind_eq_Some_conv split: option.splits)
  from kq.init_law[OF this] c(1) have "ring c (wait_head m) []" by auto
  then have "links (\<lambda>t. None) [] m' [] \<and> held (activity m') [] None []" using c(2) assms(2) by (simp add: links_def rwq_def held_def)
  then show ?thesis by (auto simp: rw_ok_def rw_start_def given_def)
qed

lemma rw_reachable_ok: "rw_reachable y \<Longrightarrow> rw_ok y"
proof (induction rule: rw_reachable.induct)
  case (step y e y')
  then show ?case using rw_step_ok[of y e] by auto
qed (rule rw_start_ok)

subsection \<open>Properties\<close>

text \<open>The counter fits its 32 bits as long as the number of readers does.\<close>

lemma activity_fits:
  assumes "rw_reachable y" "length (readers y) < 2 ^ 31"
  shows "- (2 ^ 31) \<le> activity (sem y) \<and> activity (sem y) < 2 ^ 31"
proof -
  have "activity (sem y) = (if writer y = None then int (length (readers y)) else -1)"
    using rw_reachable_ok[OF assms(1)] unfolding rw_ok_def held_def by blast
  moreover have "int (length (readers y)) < 2 ^ 31" using assms(2) by simp
  ultimately show ?thesis by simp
qed

text \<open>C39: The counter of a semaphore for readers and writers tells who has it: the number of readers, or -1 for one writer, who
  then has it alone; a call of \<^verbatim>\<open>down_read\<close> or \<^verbatim>\<open>down_write\<close> that waits comes back only to a task that has been given the semaphore;
  and no call that respects the rules for callers faults. In every reachable state, for any number of tasks.\<close>

theorem rwsem_counter_tells_holders:
  assumes "rw_reachable y"
  shows "activity (sem y) = (if writer y = None then int (length (readers y)) else -1) \<and> (writer y = None \<or> readers y = []) \<and>
    (\<forall>t a w. waits y t = Some (a, w) \<longrightarrow> wait_over a (sem y) \<longrightarrow> (if w then writer y = Some t else t \<in> set (readers y))) \<and>
    (\<forall>e. rw_allowed e y \<longrightarrow> rw_step e y \<noteq> None)"
proof -
  have ok: "rw_ok y" using rw_reachable_ok[OF assms] .
  then have "\<forall>e. rw_allowed e y \<longrightarrow> rw_step e y \<noteq> None" using rw_step_ok by fastforce
  then show ?thesis using ok unfolding rw_ok_def held_def given_def by blast
qed

text \<open>Runs in which the waiter of a task is named like the task.\<close>

fun named_waiter :: "rw_event \<Rightarrow> bool" where
  "named_waiter (Down_read t a) \<longleftrightarrow> a = t"
| "named_waiter (Down_write t a) \<longleftrightarrow> a = t"
| "named_waiter e \<longleftrightarrow> True"

fun rw_run :: "rw_event list \<Rightarrow> rw_system \<Rightarrow> rw_system option" where
  "rw_run [] y = Some y"
| "rw_run (e # es) y = (if rw_guard e y \<and> named_waiter e then Option.bind (rw_step e y) (rw_run es) else None)"

definition waits_named :: "rw_system \<Rightarrow> bool" where
  "waits_named y \<longleftrightarrow> (\<forall>u a w. waits y u = Some (a, w) \<longrightarrow> a = u)"

lemma hand_waits: "waits (hand_to ts y) = waits y"
  by (induction ts y rule: hand_to.induct) (auto split: option.splits bool.splits)

lemma named_step: "waits_named y \<Longrightarrow> named_waiter e \<Longrightarrow> rw_step e y = Some y' \<Longrightarrow> waits_named y'"
  by (cases e) (auto simp: waits_named_def after_down_def after_try_def after_wake_def hand_waits split: option.splits if_splits)

lemma named_allowed: "waits_named y \<Longrightarrow> named_waiter e \<Longrightarrow> rw_guard e y \<Longrightarrow> rw_allowed e y"
  by (cases e) (fastforce simp: rw_allowed_def waits_named_def)+

lemma rw_run_reachable: "rw_run es y = Some y' \<Longrightarrow> rw_reachable y \<Longrightarrow> waits_named y \<Longrightarrow> rw_reachable y' \<and> waits_named y'"
proof (induction es arbitrary: y)
  case (Cons e es)
  then obtain y1 where y1: "rw_guard e y" "named_waiter e" "rw_step e y = Some y1" "rw_run es y1 = Some y'"
    by (auto simp: bind_eq_Some_conv split: if_splits)
  then show ?case
    using Cons.IH[OF y1(4)] rw_reachable.step[OF Cons.prems(2) named_allowed[OF Cons.prems(3) y1(2,1)] y1(3)] named_step[OF Cons.prems(3) y1(2,3)] by blast
qed simp

definition demo_rwsem :: rw_semaphore where
  "demo_rwsem = \<lparr>activity = 7, wait_head = 0, cells = (\<lambda>a. Some \<lparr>lnext = 0, lprev = 0\<rparr>), waiter_at = (\<lambda>a. waiter_of 0 False),
     usage = (\<lambda>t. 1), woken = []\<rparr>"

definition demo_rw :: "rw_event list" where
  "demo_rw = [Down_read 1 1, Down_write 2 2, Down_read 3 3]"

lemma demo_rw_run:
  "map_option (\<lambda>y. (activity (sem y), readers y, writer y, woken (sem y), slept y, waits y 1))
     (Option.bind (map_option rw_start (init_rwsem demo_rwsem)) (rw_run demo_rw)) =
   Some (1, [1], None, [], [2, 3], None)"
  by code_simp

lemma demo_rw_reachable:
  assumes "Option.bind (map_option rw_start (init_rwsem demo_rwsem)) (rw_run demo_rw) = Some y"
  shows "rw_reachable y" "rw_guard e y \<Longrightarrow> named_waiter e \<Longrightarrow> rw_allowed e y"
proof -
  obtain m where m: "init_rwsem demo_rwsem = Some m" "rw_run demo_rw (rw_start m) = Some y" using assms by (auto simp: bind_eq_Some_conv)
  have "rw_reachable (rw_start m)" "waits_named (rw_start m)" using rw_reachable.start[OF m(1)] by (simp_all add: demo_rwsem_def waits_named_def rw_start_def)
  from rw_run_reachable[OF m(2) this] show "rw_reachable y" "rw_guard e y \<Longrightarrow> named_waiter e \<Longrightarrow> rw_allowed e y" using named_allowed by blast+
qed

theorem rwsem_counter_tells_holders_witness:
  "\<exists>y. Option.bind (map_option rw_start (init_rwsem demo_rwsem)) (rw_run demo_rw) = Some y \<and> activity (sem y) = 1 \<and> readers y = [1] \<and>
     writer y = None \<and> rw_allowed (Up_read 1) y \<and> rw_step (Up_read 1) y \<noteq> None"
proof -
  obtain y where y: "Option.bind (map_option rw_start (init_rwsem demo_rwsem)) (rw_run demo_rw) = Some y" "readers y = [1]" "writer y = None" "waits y 1 = None"
    using demo_rw_run by auto
  then have "rw_allowed (Up_read 1) y" using demo_rw_reachable(2)[OF y(1), of "Up_read 1"] by simp
  moreover note C = rwsem_counter_tells_holders[OF demo_rw_reachable(1)[OF y(1)]]
  ultimately have "rw_step (Up_read 1) y \<noteq> None" "activity (sem y) = 1" using y(2,3) by (blast, simp)
  then show ?thesis using y \<open>rw_allowed (Up_read 1) y\<close> by blast
qed

text \<open>C33: Waiting tasks are served in the order in which they came, and nobody waits for nothing: at any time the tasks woken so
  far, followed by the queue, are the tasks that have gone to sleep, in this order; when a writer is first in the queue somebody
  has the semaphore, and when a reader is, a writer has it.\<close>

theorem rwsem_first_come_first_served:
  assumes "rw_reachable y"
  shows "\<exists>q. rwq (sem y) q \<and> slept y = woken (sem y) @ map (fst \<circ> snd) q \<and>
    (q = [] \<or> (if snd (snd (hd q)) then writer y \<noteq> None \<or> readers y \<noteq> [] else writer y \<noteq> None))"
proof -
  obtain q where q: "links (waits y) (slept y) (sem y) q" "held (activity (sem y)) (readers y) (writer y) q"
    using rw_reachable_ok[OF assms] by (auto simp: rw_ok_def)
  have "map (fst \<circ> snd) q = map etask q" by simp
  then show ?thesis using linksD(1,5)[OF q(1)] q(2) by (intro exI[of _ q]) (auto simp: held_def)
qed

theorem rwsem_first_come_first_served_witness:
  "\<exists>y q. Option.bind (map_option rw_start (init_rwsem demo_rwsem)) (rw_run demo_rw) = Some y \<and> rwq (sem y) q \<and> [2, 3] = [] @ map (fst \<circ> snd) q"
proof -
  obtain y where y: "Option.bind (map_option rw_start (init_rwsem demo_rwsem)) (rw_run demo_rw) = Some y" "woken (sem y) = []" "slept y = [2, 3]"
    using demo_rw_run by auto
  from rwsem_first_come_first_served[OF demo_rw_reachable(1)[OF y(1)]] y show ?thesis by auto
qed

end
