(* ===== verification/KList_More.thy ===== *)
theory KList_More
  imports KList
begin

text \<open>
  The rest of the circular lists of \<^verbatim>\<open>include/linux/list.h\<close>: insertion in front, moving, replacing, splicing
  and the variants for lists that are read without a lock. A ring is described by the links between
  neighbours (\<open>linked\<close>), which split at any place.
\<close>

subsection \<open>Operations\<close>

definition list_add_between_rcu :: "addr \<Rightarrow> addr \<Rightarrow> addr \<Rightarrow> lheap \<Rightarrow> lheap option" where
  "list_add_between_rcu new prev nxt h = do {
     h \<leftarrow> set_next new nxt h;
     h \<leftarrow> set_prev new prev h;
     h \<leftarrow> set_prev nxt new h;
     set_next prev new h }"

definition list_add_rcu :: "addr \<Rightarrow> addr \<Rightarrow> lheap \<Rightarrow> lheap option" where
  "list_add_rcu new head h = do { n \<leftarrow> get_next head h; list_add_between_rcu new head n h }"

definition list_add_tail_rcu :: "addr \<Rightarrow> addr \<Rightarrow> lheap \<Rightarrow> lheap option" where
  "list_add_tail_rcu new head h = do { p \<leftarrow> get_prev head h; list_add_between_rcu new p head h }"

definition list_del_rcu :: "addr \<Rightarrow> lheap \<Rightarrow> lheap option" where
  "list_del_rcu entry h = do {
     p \<leftarrow> get_prev entry h;
     n \<leftarrow> get_next entry h;
     h \<leftarrow> list_del_between p n h;
     set_prev entry LIST_POISON2 h }"

definition list_replace :: "addr \<Rightarrow> addr \<Rightarrow> lheap \<Rightarrow> lheap option" where
  "list_replace old new h = do {
     n \<leftarrow> get_next old h;
     h \<leftarrow> set_next new n h;
     n \<leftarrow> get_next new h;
     h \<leftarrow> set_prev n new h;
     p \<leftarrow> get_prev old h;
     h \<leftarrow> set_prev new p h;
     p \<leftarrow> get_prev new h;
     set_next p new h }"

definition list_replace_init :: "addr \<Rightarrow> addr \<Rightarrow> lheap \<Rightarrow> lheap option" where
  "list_replace_init old new h = do { h \<leftarrow> list_replace old new h; INIT_LIST_HEAD old h }"

definition list_replace_rcu :: "addr \<Rightarrow> addr \<Rightarrow> lheap \<Rightarrow> lheap option" where
  "list_replace_rcu old new h = do {
     n \<leftarrow> get_next old h;
     h \<leftarrow> set_next new n h;
     p \<leftarrow> get_prev old h;
     h \<leftarrow> set_prev new p h;
     n \<leftarrow> get_next new h;
     h \<leftarrow> set_prev n new h;
     p \<leftarrow> get_prev new h;
     h \<leftarrow> set_next p new h;
     set_prev old LIST_POISON2 h }"

definition list_is_last :: "addr \<Rightarrow> addr \<Rightarrow> lheap \<Rightarrow> bool option" where
  "list_is_last l head h = map_option (\<lambda>n. n = head) (get_next l h)"

definition list_empty_careful :: "addr \<Rightarrow> lheap \<Rightarrow> bool option" where
  "list_empty_careful head h = do { n \<leftarrow> get_next head h; p \<leftarrow> get_prev head h; Some (n = head \<and> n = p) }"

definition list_splice_between :: "addr \<Rightarrow> addr \<Rightarrow> lheap \<Rightarrow> lheap option" where
  "list_splice_between l head h = do {
     first \<leftarrow> get_next l h;
     final \<leftarrow> get_prev l h;
     at \<leftarrow> get_next head h;
     h \<leftarrow> set_prev first head h;
     h \<leftarrow> set_next head first h;
     h \<leftarrow> set_next final at h;
     set_prev at final h }"

definition list_splice :: "addr \<Rightarrow> addr \<Rightarrow> lheap \<Rightarrow> lheap option" where
  "list_splice l head h = do { e \<leftarrow> list_empty l h; if e then Some h else list_splice_between l head h }"

definition list_splice_init :: "addr \<Rightarrow> addr \<Rightarrow> lheap \<Rightarrow> lheap option" where
  "list_splice_init l head h = do {
     e \<leftarrow> list_empty l h;
     if e then Some h else do { h \<leftarrow> list_splice_between l head h; INIT_LIST_HEAD l h } }"

text \<open>\<open>sync\<close> is the function that waits for the readers. The test is the source's: on \<open>head\<close>.\<close>

definition list_splice_init_rcu :: "addr \<Rightarrow> addr \<Rightarrow> (lheap \<Rightarrow> lheap option) \<Rightarrow> lheap \<Rightarrow> lheap option" where
  "list_splice_init_rcu l head sync h = do {
     first \<leftarrow> get_next l h;
     final \<leftarrow> get_prev l h;
     at \<leftarrow> get_next head h;
     e \<leftarrow> list_empty head h;
     if e then Some h
     else do {
       h \<leftarrow> INIT_LIST_HEAD l h;
       h \<leftarrow> sync h;
       h \<leftarrow> set_next final at h;
       h \<leftarrow> set_next head first h;
       h \<leftarrow> set_prev first head h;
       set_prev at final h } }"

subsection \<open>Stores\<close>

definition put_next :: "addr \<Rightarrow> addr \<Rightarrow> lheap \<Rightarrow> lheap" where
  "put_next a v h = h(a := map_option (\<lambda>c. c\<lparr>lnext := v\<rparr>) (h a))"

definition put_prev :: "addr \<Rightarrow> addr \<Rightarrow> lheap \<Rightarrow> lheap" where
  "put_prev a v h = h(a := map_option (\<lambda>c. c\<lparr>lprev := v\<rparr>) (h a))"

lemma put_simps [simp]:
  "a \<in> dom h \<Longrightarrow> set_next a v h = Some (put_next a v h)" "a \<in> dom h \<Longrightarrow> set_prev a v h = Some (put_prev a v h)"
  "dom (put_next a v h) = dom h" "dom (put_prev a v h) = dom h"
  "a \<in> dom h \<Longrightarrow> nx (put_next a v h) b = (if b = a then Some v else nx h b)"
  "a \<in> dom h \<Longrightarrow> pv (put_prev a v h) b = (if b = a then Some v else pv h b)"
  "pv (put_next a v h) b = pv h b" "nx (put_prev a v h) b = nx h b"
  by (auto simp: set_next_def set_prev_def put_next_def put_prev_def get_next_def get_prev_def option.map_comp comp_def split: if_splits)

lemma put_frame:
  "b \<noteq> a \<Longrightarrow> nx (put_next a v h) b = nx h b" "b \<noteq> a \<Longrightarrow> pv (put_prev a v h) b = pv h b"
  by (simp_all add: put_next_def put_prev_def get_next_def get_prev_def)

lemma put_commute:
  "a \<noteq> b \<Longrightarrow> put_next a v (put_next b w h) = put_next b w (put_next a v h)"
  "a \<noteq> b \<Longrightarrow> put_prev a v (put_prev b w h) = put_prev b w (put_prev a v h)"
  "put_next a v (put_prev b w h) = put_prev b w (put_next a v h)"
  by (auto simp: put_next_def put_prev_def fun_eq_iff option.map_comp comp_def intro!: option.map_cong0)

lemma INIT_LIST_HEAD_put [simp]: "a \<in> dom h \<Longrightarrow> INIT_LIST_HEAD a h = Some (put_prev a a (put_next a a h))"
  by (simp add: INIT_LIST_HEAD_def)

subsection \<open>Links\<close>

fun linked :: "lheap \<Rightarrow> addr list \<Rightarrow> bool" where
  "linked h [] \<longleftrightarrow> True"
| "linked h (x # ys) \<longleftrightarrow> (ys = [] \<or> nx h x = Some (hd ys) \<and> pv h (hd ys) = Some x) \<and> linked h ys"

lemma seg_linked: "seg h a xs b \<longleftrightarrow> linked h (a # xs @ [b])"
  by (induction xs arbitrary: a) auto

lemma ring_linked: "ring h a xs \<longleftrightarrow> linked h (a # xs @ [a]) \<and> distinct (a # xs)"
  by (simp add: ring_def seg_linked)

lemma linked_append: "linked h (xs @ ys) \<longleftrightarrow> linked h xs \<and> linked h ys \<and>
    (xs \<noteq> [] \<longrightarrow> ys \<noteq> [] \<longrightarrow> nx h (last xs) = Some (hd ys) \<and> pv h (hd ys) = Some (last xs))"
  by (induction xs) auto

lemma linked_put:
  "c \<notin> set (butlast xs) \<Longrightarrow> linked (put_next c v h) xs = linked h xs"
  "c \<notin> set (tl xs) \<Longrightarrow> linked (put_prev c v h) xs = linked h xs"
  by (induction xs rule: induct_list012) (auto simp: put_frame split: if_splits)

lemma distinct_ends [simp]:
  "distinct xs \<Longrightarrow> xs \<noteq> [] \<Longrightarrow> last xs \<notin> set (butlast xs)" "distinct xs \<Longrightarrow> hd xs \<notin> set (tl xs)"
  by (cases xs rule: rev_cases; simp) (cases xs; simp)

lemma ring_put [simp]:
  "c \<notin> set (a # xs) \<Longrightarrow> ring (put_next c v h) a xs = ring h a xs"
  "c \<notin> set (a # xs) \<Longrightarrow> ring (put_prev c v h) a xs = ring h a xs"
  by (simp_all add: ring_linked linked_put butlast_append del: linked.simps)

lemma ring_rotate: "ring h a (xs @ b # ys) \<longleftrightarrow> ring h b (ys @ a # xs)"
  by (auto simp: ring_def seg_append)

lemma ring_ends:
  assumes "ring h a xs"
  shows "nx h a = Some (hd (xs @ [a]))" "pv h a = Some (last (a # xs))" "a \<in> dom h"
    "hd (xs @ [a]) \<in> dom h" "last (a # xs) \<in> dom h"
proof -
  have "hd (xs @ [a]) \<in> set (xs @ [a])" "last (a # xs) \<in> set (a # xs)" by (rule hd_in_set, simp) (rule last_in_set, simp)
  then show "hd (xs @ [a]) \<in> dom h" "last (a # xs) \<in> dom h" "a \<in> dom h" using ring_dom[OF assms] by auto
qed (use assms seg_first seg_last in \<open>auto simp: ring_def\<close>)


subsection \<open>What the operations do to rings\<close>

lemma set_ends: "xs \<noteq> [] \<Longrightarrow> hd xs \<in> set xs \<and> last xs \<in> set xs"
  by simp

lemma ring_split: "xs \<noteq> [] \<Longrightarrow> ring h a (xs @ ys) \<longleftrightarrow>
    nx h a = Some (hd xs) \<and> pv h (hd xs) = Some a \<and> linked h xs \<and>
    nx h (last xs) = Some (hd (ys @ [a])) \<and> pv h (hd (ys @ [a])) = Some (last xs) \<and> linked h (ys @ [a]) \<and>
    distinct (a # xs @ ys)"
  using linked_append[of h xs "ys @ [a]"] by (auto simp: ring_linked)

lemma ring_whole: "ring h a xs \<longleftrightarrow> nx h a = Some (hd (xs @ [a])) \<and> pv h (hd (xs @ [a])) = Some a \<and>
    linked h (xs @ [a]) \<and> distinct (a # xs)"
  by (auto simp: ring_linked)

lemma list_add_ring:
  assumes r: "ring h a xs" and n: "n \<in> dom h" "n \<notin> set (a # xs)"
  shows "\<exists>h'. list_add n a h = Some h' \<and> ring h' a (n # xs) \<and> dom h' = dom h \<and>
    (\<forall>x. x \<notin> set (n # a # xs) \<longrightarrow> same_links h h' x)"
proof -
  note e = ring_ends[OF r]
  let ?q = "hd (xs @ [a])"
  let ?h = "put_next a n (put_prev n a (put_next n ?q (put_prev ?q n h)))"
  have q: "?q \<noteq> n" "?q \<in> set (a # xs)" "?q \<notin> set (tl (xs @ [a]))" "n \<notin> set (tl (xs @ [a]))"
    using r n by (cases xs; auto simp: ring_def)+
  have "list_add n a h = Some ?h" using e n by (simp add: list_add_def list_add_between_def)
  moreover have "linked ?h (xs @ [a])"
    using r q n by (simp add: linked_put butlast_append ring_whole)
  moreover have "ring ?h a (n # xs)" using r q n e calculation by (auto simp: ring_whole)
  moreover have "same_links h ?h x" if "x \<notin> set (n # a # xs)" for x
    using that q e n by (auto simp: same_links_def put_frame)
  ultimately show ?thesis by auto
qed

lemma list_del_between_ring:
  assumes r: "ring h a (xs @ x # ys)"
  defines "p \<equiv> last (a # xs)" and "q \<equiv> hd (ys @ [a])"
  shows "pv h x = Some p" "nx h x = Some q" "list_del_between p q h = Some (put_next p q (put_prev q p h))"
    "ring (put_next p q (put_prev q p h)) a (xs @ ys)" "p \<noteq> x" "q \<noteq> x" "p \<in> set (a # xs)" "q \<in> set (ys @ [a])" "x \<in> dom h"
proof -
  note n = ring_neighbours[OF r, folded p_def q_def]
  show "pv h x = Some p" "nx h x = Some q" "p \<noteq> x" "q \<noteq> x" "x \<in> dom h" using n by simp_all
  show "list_del_between p q h = Some (put_next p q (put_prev q p h))" using n by (simp add: list_del_between_def)
  show m: "p \<in> set (a # xs)" "q \<in> set (ys @ [a])" unfolding p_def q_def by (rule last_in_set, simp) (rule hd_in_set, simp)
  have l: "linked h (a # xs)" "linked h (ys @ [a])" "distinct (a # xs @ x # ys)"
    using r linked_append[of h "a # xs" "x # ys @ [a]"] by (auto simp: ring_linked)
  let ?h = "put_next p q (put_prev q p h)"
  have q: "q \<notin> set xs" "q \<notin> set (tl (ys @ [a]))" using l(3) unfolding q_def by (cases ys; simp)+
  have p: "p \<notin> set ys" "p \<notin> set (butlast (a # xs))" using l(3) unfolding p_def by (cases xs rule: rev_cases; auto)+
  have "linked ?h (a # xs)" "linked ?h (ys @ [a])"
    using l p q by (simp_all add: linked_put butlast_append del: linked.simps)
  moreover have "nx ?h p = Some q" "pv ?h q = Some p" using n by simp_all
  ultimately have "linked ?h ((a # xs) @ ys @ [a])" unfolding linked_append[of _ "a # xs"] p_def q_def by simp
  then show "ring ?h a (xs @ ys)" using l(3) unfolding ring_linked by simp
qed

lemma unlinkE:
  assumes r: "ring h a (xs @ x # ys)"
  obtains p q h1 where "pv h x = Some p" "nx h x = Some q" "list_del_between p q h = Some h1" "ring h1 a (xs @ ys)"
    "dom h1 = dom h" "\<forall>y. y \<notin> set (a # xs @ ys) \<longrightarrow> same_links h h1 y" "x \<in> dom h" "q = hd (ys @ [a])" "x \<notin> set (a # xs @ ys)"
proof -
  note d = list_del_between_ring[OF r]
  have "x \<notin> set (a # xs @ ys)" using r by (auto simp: ring_def)
  moreover have "same_links h (put_next (last (a # xs)) (hd (ys @ [a])) (put_prev (hd (ys @ [a])) (last (a # xs)) h)) y"
    if "y \<notin> set (a # xs @ ys)" for y
  proof -
    have "y \<noteq> last (a # xs)" "y \<noteq> hd (ys @ [a])" using d(7,8) that by auto
    then show ?thesis by (simp add: same_links_def put_frame)
  qed
  ultimately show thesis using that[OF d(1-4)] d(9) by simp
qed

lemma list_del_init_ring:
  assumes r: "ring h a (xs @ x # ys)"
  shows "\<exists>h'. list_del_init x h = Some h' \<and> ring h' a (xs @ ys) \<and> ring h' x [] \<and> dom h' = dom h \<and>
    (\<forall>y. y \<notin> set (x # a # xs @ ys) \<longrightarrow> same_links h h' y)"
proof -
  obtain p q h1 where h1: "pv h x = Some p" "nx h x = Some q" "list_del_between p q h = Some h1" "ring h1 a (xs @ ys)"
    "dom h1 = dom h" "x \<in> dom h" "x \<notin> set (a # xs @ ys)" "\<forall>y. y \<notin> set (a # xs @ ys) \<longrightarrow> same_links h h1 y" by (rule unlinkE[OF r])
  obtain h2 where h2: "INIT_LIST_HEAD x h1 = Some h2" "ring h2 x []" "\<And>y. y \<noteq> x \<Longrightarrow> same_links h1 h2 y" "dom h2 = dom h1"
    using ring_INIT_LIST_HEAD[of x h1] h1(5,6) by metis
  have fr: "\<forall>y. y \<notin> set (x # a # xs @ ys) \<longrightarrow> same_links h h2 y" using h1(8) h2(3) by (auto simp: same_links_def)
  have "ring h2 a (xs @ ys) = ring h1 a (xs @ ys)" by (rule ring_frame, rule h2(3)) (use h1(7) in auto)
  then show ?thesis using h1 h2 fr by (simp add: list_del_init_def)
qed

text \<open>A reader that stands on the entry when it is deleted goes on to the entries after it.\<close>

lemma list_del_rcu_ring:
  assumes r: "ring h a (xs @ x # ys)"
  shows "\<exists>h'. list_del_rcu x h = Some h' \<and> ring h' a (xs @ ys) \<and> nx h' x = Some (hd (ys @ [a]))"
proof -
  obtain p q h1 where h1: "pv h x = Some p" "nx h x = Some q" "list_del_between p q h = Some h1" "ring h1 a (xs @ ys)"
    "dom h1 = dom h" "\<forall>y. y \<notin> set (a # xs @ ys) \<longrightarrow> same_links h h1 y" "x \<in> dom h" "q = hd (ys @ [a])" "x \<notin> set (a # xs @ ys)"
    by (rule unlinkE[OF r])
  have "nx h1 x = Some q" using h1(2,6,9) by (auto simp: same_links_def)
  then show ?thesis using h1 by (simp add: list_del_rcu_def)
qed

text \<open>Moving an entry: within its list, and to another one.\<close>

lemma list_move_within:
  assumes r: "ring h a (xs @ x # ys)"
  shows "\<exists>h'. list_move x a h = Some h' \<and> ring h' a (x # xs @ ys)"
    and "\<exists>h'. list_move_tail x a h = Some h' \<and> ring h' a (xs @ ys @ [x]) \<and> dom h' = dom h \<and>
      (\<forall>y. y \<notin> set (a # xs @ x # ys) \<longrightarrow> same_links h h' y)"
proof -
  obtain p q h1 where h1: "pv h x = Some p" "nx h x = Some q" "list_del_between p q h = Some h1" "ring h1 a (xs @ ys)"
    "dom h1 = dom h" "x \<in> dom h" "x \<notin> set (a # xs @ ys)"
    "\<forall>y. y \<notin> set (a # xs @ ys) \<longrightarrow> same_links h h1 y" by (rule unlinkE[OF r])
  then have m: "list_move x a h = list_add x a h1" "list_move_tail x a h = list_add_tail x a h1" "x \<in> dom h1"
    by (simp_all add: list_move_def list_move_tail_def)
  show "\<exists>h'. list_move x a h = Some h' \<and> ring h' a (x # xs @ ys)"
    unfolding m(1) using list_add_ring[OF h1(4) m(3) h1(7)] by auto
  obtain h' where h': "list_add_tail x a h1 = Some h'" "ring h' a ((xs @ ys) @ [x])" "dom h' = dom h1"
    "\<forall>y. y \<notin> set (x # a # xs @ ys) \<longrightarrow> same_links h1 h' y" by (rule ring_list_add_tail[OF h1(4) m(3) h1(7)]) blast
  have "\<forall>y. y \<notin> set (a # xs @ x # ys) \<longrightarrow> same_links h h' y" using h1(8) h'(4) by (auto simp: same_links_def)
  then show "\<exists>h'. list_move_tail x a h = Some h' \<and> ring h' a (xs @ ys @ [x]) \<and> dom h' = dom h \<and>
      (\<forall>y. y \<notin> set (a # xs @ x # ys) \<longrightarrow> same_links h h' y)" unfolding m(2) using h' h1(5) by auto
qed

text \<open>An entry that is on no list is only added.\<close>

lemma put_same: "nx h a = Some v \<Longrightarrow> put_next a v h = h" "pv h a = Some v \<Longrightarrow> put_prev a v h = h"
  by (auto simp: put_next_def put_prev_def get_next_def get_prev_def fun_eq_iff)

lemma list_move_single: "ring h x [] \<Longrightarrow> list_move_tail x b h = list_add_tail x b h"
  using ring_ends[of h x "[]"] by (simp add: list_move_tail_def list_del_between_def put_same)

lemma list_move_ring:
  assumes r: "ring h a (xs @ x # ys)" and b: "ring h b zs" and dj: "set (a # xs @ x # ys) \<inter> set (b # zs) = {}"
  shows "\<exists>h'. list_move x b h = Some h' \<and> ring h' a (xs @ ys) \<and> ring h' b (x # zs)"
    and "\<exists>h'. list_move_tail x b h = Some h' \<and> ring h' a (xs @ ys) \<and> ring h' b (zs @ [x])"
proof -
  obtain p q h1 where h1: "pv h x = Some p" "nx h x = Some q" "list_del_between p q h = Some h1" "ring h1 a (xs @ ys)"
    "dom h1 = dom h" "\<forall>y. y \<notin> set (a # xs @ ys) \<longrightarrow> same_links h h1 y" "x \<in> dom h" "x \<notin> set (a # xs @ ys)" by (rule unlinkE[OF r])
  have "ring h1 b zs = ring h b zs" by (rule ring_frame) (use dj h1(6) in auto)
  then have b1: "ring h1 b zs" using b by simp
  have m: "list_move x b h = list_add x b h1" "list_move_tail x b h = list_add_tail x b h1" "x \<in> dom h1" "x \<notin> set (b # zs)"
    using h1 dj by (simp_all add: list_move_def list_move_tail_def)
  have fr: "ring h' a (xs @ ys)" if "\<And>y. y \<notin> set (x # b # zs) \<Longrightarrow> same_links h1 h' y" for h'
  proof -
    have "ring h' a (xs @ ys) = ring h1 a (xs @ ys)" by (rule ring_frame, rule that) (use dj h1(8) in auto)
    then show ?thesis using h1(4) by simp
  qed
  show "\<exists>h'. list_move x b h = Some h' \<and> ring h' a (xs @ ys) \<and> ring h' b (x # zs)"
    unfolding m(1) using list_add_ring[OF b1 m(3,4)] fr by blast
  show "\<exists>h'. list_move_tail x b h = Some h' \<and> ring h' a (xs @ ys) \<and> ring h' b (zs @ [x])"
    unfolding m(2) by (rule ring_list_add_tail[OF b1 m(3,4)]) (use fr in blast)
qed

lemma ring_nonempty: "xs \<noteq> [] \<Longrightarrow> ring h a xs \<longleftrightarrow> nx h a = Some (hd xs) \<and> pv h (hd xs) = Some a \<and> linked h xs \<and>
    nx h (last xs) = Some a \<and> pv h a = Some (last xs) \<and> distinct (a # xs)"
  using ring_split[of xs h a "[]"] by auto

lemma list_replace_runs:
  assumes r: "ring h old xs" and n: "new \<in> dom h" "new \<notin> set (old # xs)"
  obtains h' where "list_replace old new h = Some h'" "ring h' new xs" "dom h' = dom h"
    "xs \<noteq> [] \<Longrightarrow> list_replace_rcu old new h = Some (put_prev old LIST_POISON2 h')"
proof (cases "xs = []")
  case True
  let ?h = "put_next new new (put_prev new new (put_prev old new (put_next new old h)))"
  have "list_replace old new h = Some ?h" "ring ?h new []"
    using r n True ring_ends[OF r] by (simp_all add: list_replace_def ring_def)
  then show thesis using that[of ?h] True by simp
next
  case False
  let ?q = "hd xs" and ?p = "last xs"
  let ?h = "put_next ?p new (put_prev new ?p (put_prev ?q new (put_next new ?q h)))"
  note R = r[unfolded ring_nonempty[OF False]]
  have s: "?q \<in> set xs" "?p \<in> set xs" using False by simp_all
  then have ne: "?q \<noteq> new" "?p \<noteq> new" "?q \<noteq> old" "?p \<noteq> old" "?q \<in> dom h" "?p \<in> dom h" "old \<in> dom h" "old \<noteq> new"
    using n r ring_dom[OF r] by (auto simp: ring_def)
  have run: "list_replace old new h = Some ?h" using R ne n by (simp add: list_replace_def)
  have rcu: "list_replace_rcu old new h = Some (put_prev old LIST_POISON2 ?h)"
    using R ne n by (simp add: list_replace_rcu_def put_commute)
  have "new \<notin> set (butlast xs)" "new \<notin> set (tl xs)" using n False by (auto dest: in_set_butlastD list.set_sel(2))
  then have "linked ?h xs" using R False by (simp add: linked_put)
  then have "ring ?h new xs" unfolding ring_nonempty[OF False] using R ne n by simp
  then show thesis using that[of ?h] run rcu by simp
qed

text \<open>The entry that takes the place of another may also be a list's head.\<close>

lemma list_replace_ring:
  assumes r: "ring h old xs" and n: "new \<in> dom h" "new \<notin> set (old # xs)"
  shows "\<exists>h'. list_replace old new h = Some h' \<and> ring h' new xs"
    and "\<exists>h'. list_replace_init old new h = Some h' \<and> ring h' new xs \<and> ring h' old []"
    and "xs \<noteq> [] \<Longrightarrow> \<exists>h'. list_replace_rcu old new h = Some h' \<and> ring h' new xs"
proof -
  obtain h' where h': "list_replace old new h = Some h'" "ring h' new xs" "dom h' = dom h"
    "xs \<noteq> [] \<longrightarrow> list_replace_rcu old new h = Some (put_prev old LIST_POISON2 h')"
    using list_replace_runs[OF r n] by metis
  have old: "old \<notin> set (new # xs)" "old \<in> dom h" using r n ring_ends(3)[OF r] by (auto simp: ring_def)
  show "\<exists>h'. list_replace old new h = Some h' \<and> ring h' new xs" using h' by simp
  show "\<exists>h'. list_replace_init old new h = Some h' \<and> ring h' new xs \<and> ring h' old []"
    using h' old by (simp add: list_replace_init_def) (simp add: ring_def)
  show "xs \<noteq> [] \<Longrightarrow> \<exists>h'. list_replace_rcu old new h = Some h' \<and> ring h' new xs" using h' old by simp
qed

lemma list_replace_within:
  assumes r: "ring h a (xs @ old # ys)" and n: "new \<in> dom h" "new \<notin> set (a # xs @ old # ys)"
  shows "\<exists>h'. list_replace old new h = Some h' \<and> ring h' a (xs @ new # ys)"
    and "\<exists>h'. list_replace_rcu old new h = Some h' \<and> ring h' a (xs @ new # ys)"
  using list_replace_ring(1,3)[of h old "ys @ a # xs" new] r n by (auto simp: ring_rotate)

lemma list_splice_between_ring:
  assumes l: "ring h l xs" and a: "ring h a ys" and ne: "xs \<noteq> []" and dj: "set (l # xs) \<inter> set (a # ys) = {}"
  shows "\<exists>h'. list_splice_between l a h = Some h' \<and> ring h' a (xs @ ys) \<and> dom h' = dom h \<and> nx h' l = Some (hd xs)"
proof -
  let ?x = "hd xs" and ?z = "last xs" and ?t = "hd (ys @ [a])"
  let ?h = "put_prev ?t ?z (put_next ?z ?t (put_next a ?x (put_prev ?x a h)))"
  note L = l[unfolded ring_nonempty[OF ne]] and A = a[unfolded ring_whole] and e = ring_ends[OF a]
  have s: "?x \<in> set xs" "?z \<in> set xs" "?t \<in> set (ys @ [a])" using ne by (cases ys; simp)+
  then have d: "?x \<in> dom h" "?z \<in> dom h" "?t \<in> dom h" "?x \<noteq> ?t" "?z \<noteq> a" "?x \<noteq> a" "l \<noteq> a" "l \<noteq> ?z"
    using ring_dom[OF l] ring_dom[OF a] dj l by (auto simp: ring_def)
  have run: "list_splice_between l a h = Some ?h" using L A e d by (simp add: list_splice_between_def)
  have "set (tl (ys @ [a])) \<subseteq> set (a # ys)" "set (tl xs) \<subseteq> set xs" "set (butlast xs) \<subseteq> set xs"
    by (cases ys; auto) (use list.set_sel(2)[OF ne] in \<open>auto dest: in_set_butlastD\<close>)
  then have nin: "?x \<notin> set (tl (ys @ [a]))" "?z \<notin> set ys" "?t \<notin> set (tl xs)" "a \<notin> set (butlast xs)"
    using s dj by auto
  have "?t \<notin> set (tl (ys @ [a]))" "a \<notin> set ys" using A by (simp_all add: distinct_ends(2))
  then have "linked ?h xs" "linked ?h (ys @ [a])" using nin L A ne by (simp_all add: linked_put butlast_append)
  then have "ring ?h a (xs @ ys)" unfolding ring_split[OF ne] using L A d e(3) dj by auto
  moreover have "nx ?h l = Some ?x" using L d e(3) by simp
  ultimately show ?thesis using run by simp
qed


lemma list_empty_ring: "ring h a xs \<Longrightarrow> list_empty a h = Some (xs = [])" "ring h a xs \<Longrightarrow> list_empty_careful a h = Some (xs = [])"
  "ring h a (xs @ [x]) \<Longrightarrow> list_is_last x a h = Some True" "ring h a (xs @ x # y # ys) \<Longrightarrow> list_is_last x a h = Some False"
proof -
  show "list_empty a h = Some (xs = [])" "list_empty_careful a h = Some (xs = [])" if "ring h a xs"
    using that ring_ends[OF that] by (cases xs; auto simp: list_empty_def list_empty_careful_def ring_def)+
qed (auto simp: list_is_last_def ring_def seg_append)

lemma list_splice_ring:
  assumes l: "ring h l xs" and a: "ring h a ys" and dj: "set (l # xs) \<inter> set (a # ys) = {}"
  shows "\<exists>h'. list_splice l a h = Some h' \<and> ring h' a (xs @ ys)"
    and "\<exists>h'. list_splice_init l a h = Some h' \<and> ring h' a (xs @ ys) \<and> ring h' l []"
proof (atomize (full), cases "xs = []")
  case False
  then obtain h' where h': "list_splice_between l a h = Some h'" "ring h' a (xs @ ys)" "dom h' = dom h"
    using list_splice_between_ring[OF l a _ dj] by auto
  have "l \<notin> set (a # xs @ ys)" "l \<in> dom h" using l dj ring_ends(3)[OF l] by (auto simp: ring_def)
  with h' False list_empty_ring(1)[OF l]
  show "(\<exists>h'. list_splice l a h = Some h' \<and> ring h' a (xs @ ys)) \<and>
      (\<exists>h'. list_splice_init l a h = Some h' \<and> ring h' a (xs @ ys) \<and> ring h' l [])"
    by (simp add: list_splice_def list_splice_init_def) (simp add: ring_def)
qed (use list_empty_ring(1)[OF l] l a in \<open>auto simp: list_splice_def list_splice_init_def\<close>)

text \<open>The variant for readers without a lock does the same when both lists have entries. Its test is on
  the wrong list: entries are never moved to an empty list, and moving none ties the source's head in.\<close>

lemma list_splice_init_rcu_ring:
  assumes l: "ring h l xs" and a: "ring h a ys" and ne: "xs \<noteq> []" "ys \<noteq> []" and dj: "set (l # xs) \<inter> set (a # ys) = {}"
  shows "\<exists>h'. list_splice_init_rcu l a Some h = Some h' \<and> ring h' a (xs @ ys) \<and> ring h' l []"
proof -
  obtain h' where h': "list_splice_between l a h = Some h'" "ring h' a (xs @ ys)" "dom h' = dom h"
    using list_splice_between_ring[OF l a ne(1) dj] by auto
  let ?x = "hd xs" and ?z = "last xs" and ?t = "hd ys"
  have s: "?x \<in> set xs" "?z \<in> set xs" "?t \<in> set ys" using ne by simp_all
  then have d: "?x \<in> dom h" "?z \<in> dom h" "?t \<in> dom h" "?x \<noteq> ?t" "?z \<noteq> a" "?x \<noteq> a" "l \<noteq> a" "l \<noteq> ?z" "l \<noteq> ?x" "l \<noteq> ?t" "l \<in> dom h" "a \<in> dom h"
    using ring_dom[OF l] ring_dom[OF a] dj l by (auto simp: ring_def)
  note L = l[unfolded ring_nonempty[OF ne(1)]] and A = a[unfolded ring_nonempty[OF ne(2)]]
  have "h' = put_prev ?t ?z (put_next ?z ?t (put_next a ?x (put_prev ?x a h)))"
    using h'(1) L A d ne by (simp add: list_splice_between_def)
  moreover have "list_splice_init_rcu l a Some h =
      Some (put_prev ?t ?z (put_prev ?x a (put_next a ?x (put_next ?z ?t (put_prev l l (put_next l l h))))))"
    using L A d ne list_empty_ring(1)[OF a] by (simp add: list_splice_init_rcu_def)
  ultimately have r: "list_splice_init_rcu l a Some h = Some (put_prev l l (put_next l l h'))"
    using d by (simp add: put_commute)
  have "l \<notin> set (a # xs @ ys)" using l dj by (auto simp: ring_def)
  then show ?thesis using r h'(2,3) d(11) by simp (simp add: ring_def)
qed

lemma list_splice_init_rcu_into_empty:
  "ring h l xs \<Longrightarrow> ring h a [] \<Longrightarrow> list_splice_init_rcu l a sync h = Some h"
  using list_empty_ring(1)[of h a "[]"] ring_ends(1,2)[of h l xs] ring_ends(1)[of h a "[]"]
  by (simp add: list_splice_init_rcu_def)

lemma list_splice_init_rcu_of_empty:
  assumes l: "ring h l []" and a: "ring h a ys" and ne: "ys \<noteq> []" and dj: "l \<notin> set (a # ys)"
  shows "\<exists>h'. list_splice_init_rcu l a Some h = Some h' \<and> ring h' a (l # ys)"
proof -
  note L = ring_ends[OF l] and A = a[unfolded ring_nonempty[OF ne]]
  have t: "hd ys \<in> set ys" using ne by simp
  then have d: "hd ys \<in> dom h" "a \<in> dom h" "l \<in> dom h" "hd ys \<noteq> a" "hd ys \<noteq> l" "a \<noteq> l"
    using ring_dom[OF a] L a dj by (auto simp: ring_def)
  let ?h = "put_prev (hd ys) l (put_prev l a (put_next a l (put_next l (hd ys) (put_prev l l (put_next l l h)))))"
  have run: "list_splice_init_rcu l a Some h = Some ?h"
    using L A d list_empty_ring(1)[OF a] ne by (simp add: list_splice_init_rcu_def)
  have "l \<notin> set (butlast ys)" "l \<notin> set (tl ys)" "a \<notin> set ys" "a \<notin> set (butlast ys)" using dj a ne by (auto simp: ring_def dest: in_set_butlastD list.set_sel(2))
  then have "linked ?h ys" using A ne by (simp add: linked_put)
  moreover have "last ys \<noteq> a" "last ys \<noteq> l" using a dj ne last_in_set[OF ne] by (auto simp: ring_def)
  ultimately have "ring ?h a ([l] @ ys)" unfolding ring_linked using A d ne dj by (auto simp: linked_append)
  then show ?thesis using run by simp
qed


subsection \<open>Adding while the list is read\<close>

text \<open>The stores of an insertion in the order the code makes them, and what a reader that goes forward meets.\<close>

definition add_rcu_stores :: "addr \<Rightarrow> addr \<Rightarrow> addr \<Rightarrow> (lheap \<Rightarrow> lheap option) list" where
  "add_rcu_stores new prev nxt = [set_next new nxt, set_prev new prev, set_prev nxt new, set_next prev new]"

fun run_stores :: "(lheap \<Rightarrow> lheap option) list \<Rightarrow> lheap \<Rightarrow> lheap option" where
  "run_stores [] h = Some h"
| "run_stores (st # sts) h = (case st h of None \<Rightarrow> None | Some h \<Rightarrow> run_stores sts h)"

fun reads :: "lheap \<Rightarrow> addr \<Rightarrow> addr list \<Rightarrow> addr \<Rightarrow> bool" where
  "reads h a [] b \<longleftrightarrow> nx h a = Some b"
| "reads h a (x # xs) b \<longleftrightarrow> nx h a = Some x \<and> reads h x xs b"

lemma list_add_between_rcu_stores: "list_add_between_rcu new prev nxt h = run_stores (add_rcu_stores new prev nxt) h"
  by (simp add: list_add_between_rcu_def add_rcu_stores_def split: option.splits bind_splits)

lemma seg_reads: "seg h a xs b \<Longrightarrow> reads h a xs b"
  by (induction xs arbitrary: a) auto

lemma reads_cong: "(\<And>x. x \<in> set (a # xs) \<Longrightarrow> nx h' x = nx h x) \<Longrightarrow> reads h' a xs b = reads h a xs b"
  by (induction xs arbitrary: a) auto

lemma list_add_between_rcu_eq:
  "new \<noteq> prev \<Longrightarrow> new \<noteq> nxt \<Longrightarrow> {new, prev, nxt} \<subseteq> dom h \<Longrightarrow> list_add_between_rcu new prev nxt h = list_add_between new prev nxt h"
  by (simp add: list_add_between_rcu_def list_add_between_def put_commute)

lemma list_add_between_ring:
  assumes r: "ring h a (xs @ ys)" and n: "n \<in> dom h" "n \<notin> set (a # xs @ ys)"
  shows "\<exists>h'. list_add_between n (last (a # xs)) (hd (ys @ [a])) h = Some h' \<and> ring h' a (xs @ n # ys) \<and> dom h' = dom h \<and>
    (\<forall>x. x \<notin> set (n # a # xs @ ys) \<longrightarrow> same_links h h' x)"
proof (cases xs rule: rev_cases)
  case Nil
  then show ?thesis using list_add_ring[of h a ys n] r n ring_ends(1)[of h a ys] by (auto simp: list_add_def)
next
  case (snoc us p)
  have r': "ring h p (ys @ a # us)" using r snoc by (simp add: ring_rotate)
  have "nx h p = Some (hd (ys @ [a]))" using ring_ends(1)[OF r'] by (cases ys) simp_all
  then show ?thesis using list_add_ring[OF r' n(1)] n(2) snoc ring_rotate[of _ a us p "n # ys"] by (auto simp: list_add_def)
qed

text \<open>\<^verbatim>\<open>list_add_tail\<close> with an entry in the place of the head inserts in front of that entry.\<close>

lemma list_add_before_ring:
  assumes r: "ring h a (xs @ ys)" and n: "n \<in> dom h" "n \<notin> set (a # xs @ ys)"
  shows "\<exists>h'. list_add_tail n (hd (ys @ [a])) h = Some h' \<and> ring h' a (xs @ n # ys) \<and> dom h' = dom h \<and>
    (\<forall>x. x \<notin> set (n # a # xs @ ys) \<longrightarrow> same_links h h' x)"
proof -
  have "pv h (hd (ys @ [a])) = Some (last (a # xs))"
    using r linked_append[of h "a # xs" "ys @ [a]"] by (simp add: ring_linked del: linked.simps)
  then show ?thesis using list_add_between_ring[OF r n] by (simp add: list_add_tail_def)
qed

lemma list_add_rcu_readers:
  assumes r: "ring h a (xs @ ys)" and n: "n \<in> dom h" "n \<notin> set (a # xs @ ys)"
  shows "\<exists>h'. run_stores (take k (add_rcu_stores n (last (a # xs)) (hd (ys @ [a])))) h = Some h' \<and>
    (if k < 4 then reads h' a (xs @ ys) a else ring h' a (xs @ n # ys) \<and> reads h' a (xs @ n # ys) a)"
proof -
  let ?p = "last (a # xs)" and ?q = "hd (ys @ [a])"
  have "?p \<in> set (a # xs)" "?q \<in> set (ys @ [a])" by (rule last_in_set, simp) (rule hd_in_set, simp)
  then have m: "?p \<in> dom h" "?q \<in> dom h" "n \<noteq> ?p" "n \<noteq> ?q" using ring_dom[OF r] n by auto
  show ?thesis
  proof (cases "k < 4")
    case True
    have old: "reads h a (xs @ ys) a" using r seg_reads by (auto simp: ring_def)
    have "reads (put_next n ?q h) a (xs @ ys) a = reads h a (xs @ ys) a"
      by (rule reads_cong, rule put_frame) (use n in auto)
    moreover have "reads (put_prev c v g) a (xs @ ys) a = reads g a (xs @ ys) a" for c v g by (rule reads_cong) simp
    moreover have "k = 0 \<or> k = 1 \<or> k = 2 \<or> k = 3" using True by auto
    ultimately show ?thesis using old n m True by (elim disjE) (simp_all add: add_rcu_stores_def numeral_2_eq_2 numeral_3_eq_3)
  next
    case False
    then have "take k (add_rcu_stores n ?p ?q) = add_rcu_stores n ?p ?q" by (simp add: add_rcu_stores_def)
    then have "run_stores (take k (add_rcu_stores n ?p ?q)) h = list_add_between n ?p ?q h"
      using list_add_between_rcu_stores[of n ?p ?q h] list_add_between_rcu_eq[of n ?p ?q h] m n by simp
    then show ?thesis using list_add_between_ring[OF r n] False seg_reads by (auto simp: ring_def)
  qed
qed

end
