(* ===== verification/PList.thy ===== *)
theory PList
  imports KList_More "HOL-Library.Multiset"
begin

text \<open>
  Lists ordered by priority (\<^verbatim>\<open>lib/plist.c\<close>, \<^verbatim>\<open>include/linux/plist.h\<close>), which queue the tasks that wait for a real-time
  mutex. A node has two cells: every node is on the list of nodes, and the first node of each
  priority is on the list of priorities as well, where the place for a new node is looked for. The two
  kinds of cells are two heaps, and a cell is named by the structure it is in. \<open>plist h a xs\<close> says that the
  list at \<open>a\<close> has the nodes \<open>xs\<close>; adding and deleting are shown to be insertion into a sorted sequence, behind
  the nodes of the same priority, and removal from it. The checks of \<^verbatim>\<open>CONFIG_DEBUG_PI_LIST\<close> only print.
\<close>

subsection \<open>Memory and operations\<close>

record pheap =
  prio_list :: lheap
  node_list :: lheap
  node_prio :: "addr \<rightharpoonup> int"

definition on_prio :: "(lheap \<Rightarrow> lheap option) \<Rightarrow> pheap \<Rightarrow> pheap option" where
  "on_prio f h = map_option (\<lambda>l. h\<lparr>prio_list := l\<rparr>) (f (prio_list h))"

definition on_node :: "(lheap \<Rightarrow> lheap option) \<Rightarrow> pheap \<Rightarrow> pheap option" where
  "on_node f h = map_option (\<lambda>l. h\<lparr>node_list := l\<rparr>) (f (node_list h))"

definition plist_head_init :: "addr \<Rightarrow> pheap \<Rightarrow> pheap option" where
  "plist_head_init a h = do { h \<leftarrow> on_prio (INIT_LIST_HEAD a) h; on_node (INIT_LIST_HEAD a) h }"

definition plist_node_init :: "addr \<Rightarrow> int \<Rightarrow> pheap \<Rightarrow> pheap option" where
  "plist_node_init n prio h = (if node_prio h n = None then None
     else plist_head_init n (h\<lparr>node_prio := (node_prio h)(n \<mapsto> prio)\<rparr>))"

definition plist_head_empty :: "addr \<Rightarrow> pheap \<Rightarrow> bool option" where
  "plist_head_empty a h = list_empty a (node_list h)"

definition plist_node_empty :: "addr \<Rightarrow> pheap \<Rightarrow> bool option" where
  "plist_node_empty n h = plist_head_empty n h"

definition plist_first :: "addr \<Rightarrow> pheap \<Rightarrow> addr option" where
  "plist_first a h = get_next a (node_list h)"

text \<open>The loop of \<^verbatim>\<open>plist_add\<close> gives the node in front of which the new one is linked, and whether it is also
  linked among the priorities (the label \<^verbatim>\<open>lt_prio\<close>).\<close>

partial_function (option) plist_place :: "int \<Rightarrow> addr \<Rightarrow> addr \<Rightarrow> pheap \<Rightarrow> (bool \<times> addr) option" where
  "plist_place prio head iter h =
     (if iter = head then Some (True, iter)
      else Option.bind (node_prio h iter) (\<lambda>p.
        if prio < p then Some (True, iter)
        else Option.bind (get_next iter (prio_list h)) (\<lambda>nxt.
          if prio = p then Some (False, nxt) else plist_place prio head nxt h)))"

declare plist_place.simps [code]

definition plist_add :: "addr \<Rightarrow> addr \<Rightarrow> pheap \<Rightarrow> pheap option" where
  "plist_add node head h = do {
     prio \<leftarrow> node_prio h node;
     iter \<leftarrow> get_next head (prio_list h);
     (lt, iter) \<leftarrow> plist_place prio head iter h;
     h \<leftarrow> (if lt then on_prio (list_add_tail node iter) h else Some h);
     on_node (list_add_tail node iter) h }"

definition plist_del_prio :: "addr \<Rightarrow> pheap \<Rightarrow> pheap option" where
  "plist_del_prio node h = do {
     e \<leftarrow> list_empty node (prio_list h);
     if \<not> e
     then do { nxt \<leftarrow> plist_first node h; h \<leftarrow> on_prio (list_move_tail nxt node) h; on_prio (list_del_init node) h }
     else Some h }"

definition plist_del :: "addr \<Rightarrow> addr \<Rightarrow> pheap \<Rightarrow> pheap option" where
  "plist_del node head h = do { h \<leftarrow> plist_del_prio node h; on_node (list_del_init node) h }"

subsection \<open>Priorities in a sequence\<close>

text \<open>The first nodes of each priority; \<open>q\<close> is the priority in front.\<close>

fun leads :: "(addr \<Rightarrow> int) \<Rightarrow> int option \<Rightarrow> addr list \<Rightarrow> addr list" where
  "leads p q [] = []"
| "leads p q (x # xs) = (if q = Some (p x) then leads p q xs else x # leads p (Some (p x)) xs)"

definition insert_prio :: "(addr \<Rightarrow> int) \<Rightarrow> addr \<Rightarrow> addr list \<Rightarrow> addr list" where
  "insert_prio p n xs = takeWhile (\<lambda>y. p y \<le> p n) xs @ n # dropWhile (\<lambda>y. p y \<le> p n) xs"

definition plist :: "pheap \<Rightarrow> addr \<Rightarrow> addr list \<Rightarrow> bool" where
  "plist h a xs \<longleftrightarrow> (let p = the \<circ> node_prio h in
     ring (node_list h) a xs \<and> ring (prio_list h) a (leads p None xs) \<and> sorted (map p xs) \<and>
     (\<forall>x\<in>set xs. node_prio h x \<noteq> None \<and> (x \<notin> set (leads p None xs) \<longrightarrow> ring (prio_list h) x [])))"

lemma leads_append: "leads p q (xs @ ys) = leads p q xs @ leads p (if xs = [] then q else Some (p (last xs))) ys"
proof (induction xs arbitrary: q)
  case (Cons x xs)
  then show ?case by auto
qed simp

lemma leads_subset: "set (leads p q xs) \<subseteq> set xs"
  by (induction xs arbitrary: q) auto

lemma leads_distinct: "distinct xs \<Longrightarrow> distinct (leads p q xs)"
proof (induction xs arbitrary: q)
  case (Cons x xs)
  then show ?case using leads_subset[of p "Some (p x)" xs] by auto
qed simp

lemma leads_cong: "(\<And>x. x \<in> set xs \<Longrightarrow> p x = p' x) \<Longrightarrow> leads p q xs = leads p' q xs"
  by (induction xs arbitrary: q) auto

text \<open>The leads of a sorted sequence have ever larger priorities, and the last of them that of the last node.\<close>

lemma leads_greater:
  "sorted (map p xs) \<Longrightarrow> \<forall>z\<in>set xs. v \<le> p z \<Longrightarrow> y \<in> set (leads p (Some v) xs) \<Longrightarrow> v < p y"
proof (induction xs)
  case (Cons z zs)
  show ?case
  proof (cases "v = p z")
    case False
    then have "v < p z" "y = z \<or> y \<in> set zs" using Cons.prems leads_subset[of p "Some (p z)" zs] by auto
    moreover have "p z \<le> p y" if "y \<in> set zs" using Cons.prems(1) that by simp
    ultimately show ?thesis by fastforce
  qed (use Cons in simp)
qed simp

lemma leads_sorted: "sorted (map p xs) \<Longrightarrow> sorted_wrt (<) (map p (leads p q xs))"
proof (induction xs arbitrary: q)
  case (Cons x xs)
  then show ?case using leads_greater[of p xs "p x"] by auto
qed simp

lemma leads_last: "xs \<noteq> [] \<Longrightarrow> leads p None xs \<noteq> [] \<and> p (last (leads p None xs)) = p (last xs)"
proof (induction xs rule: rev_induct)
  case (snoc x xs)
  then show ?case by (auto simp: leads_append)
qed simp

lemma leads_skip: "(\<And>x. x \<in> set xs \<Longrightarrow> q \<noteq> Some (p x) \<and> q' \<noteq> Some (p x)) \<Longrightarrow> leads p q xs = leads p q' xs"
  by (cases xs) auto

lemma leads_hd: "xs = [] \<or> q \<noteq> Some (p (hd xs)) \<Longrightarrow> hd (leads p q xs @ [a]) = hd (xs @ [a])"
  by (cases xs) auto

definition prio_before :: "(addr \<Rightarrow> int) \<Rightarrow> addr list \<Rightarrow> int option" where
  "prio_before p xs = (if xs = [] then None else Some (p (last xs)))"

lemma leads_split: "leads p None (xs @ ys) = leads p None xs @ leads p (prio_before p xs) ys"
  by (simp add: leads_append prio_before_def)

lemma prio_before_less: "\<forall>x\<in>set as. p x \<le> v \<Longrightarrow> v < w \<Longrightarrow> prio_before p as \<noteq> Some w"
  by (cases as rule: rev_cases) (auto simp: prio_before_def)

lemma lead_iff:
  assumes "distinct (as @ n # bs)"
  shows "n \<in> set (leads p None (as @ n # bs)) \<longleftrightarrow> prio_before p as \<noteq> Some (p n)"
  using assms leads_subset[of p None as] leads_subset[of p "Some (p n)" bs]
  by (auto simp: leads_split)

lemma leads_insert:
  assumes "sorted (map p (as @ bs))" "\<forall>x\<in>set as. p x \<le> p n" "\<forall>x\<in>set bs. p n < p x"
  shows "leads p None (as @ n # bs) = (if prio_before p as = Some (p n) then leads p None (as @ bs)
      else leads p None as @ n # leads p (prio_before p as) bs)" and "hd (leads p (prio_before p as) bs @ [a]) = hd (bs @ [a])"
proof -
  have q: "prio_before p as \<noteq> Some (p x) \<and> Some (p n) \<noteq> Some (p x)" if "x \<in> set bs" for x
    using prio_before_less[OF assms(2)] assms(3) that by force
  then show "hd (leads p (prio_before p as) bs @ [a]) = hd (bs @ [a])" by (intro leads_hd) (metis hd_in_set)
  have "leads p (prio_before p as) bs = leads p (Some (p n)) bs" using q by (intro leads_skip) blast
  then show "leads p None (as @ n # bs) = (if prio_before p as = Some (p n) then leads p None (as @ bs)
      else leads p None as @ n # leads p (prio_before p as) bs)" by (simp add: leads_split)
qed

lemma leads_delete:
  assumes s: "sorted (map p (as @ n # bs))"
  shows "prio_before p as = Some (p n) \<Longrightarrow> leads p None (as @ n # bs) = leads p None (as @ bs)"
    and "prio_before p as \<noteq> Some (p n) \<Longrightarrow> bs = b # cs \<Longrightarrow> p b = p n \<Longrightarrow>
      leads p None (as @ n # bs) = leads p None as @ n # leads p (Some (p n)) cs \<and>
      leads p None (as @ bs) = leads p None as @ b # leads p (Some (p n)) cs"
    and "prio_before p as \<noteq> Some (p n) \<Longrightarrow> bs = [] \<or> p (hd bs) \<noteq> p n \<Longrightarrow>
      leads p None (as @ n # bs) = leads p None as @ n # leads p (Some (p n)) bs \<and>
      leads p None (as @ bs) = leads p None as @ leads p (Some (p n)) bs"
proof -
  show "leads p None (as @ n # bs) = leads p None (as @ bs)" if "prio_before p as = Some (p n)"
    using that by (simp add: leads_split)
  show "leads p None (as @ n # bs) = leads p None as @ n # leads p (Some (p n)) cs \<and>
      leads p None (as @ bs) = leads p None as @ b # leads p (Some (p n)) cs"
    if "prio_before p as \<noteq> Some (p n)" "bs = b # cs" "p b = p n"
    using that by (simp add: leads_split)
  assume q: "prio_before p as \<noteq> Some (p n)" "bs = [] \<or> p (hd bs) \<noteq> p n"
  have "prio_before p as \<noteq> Some (p (hd bs))" if "bs \<noteq> []"
  proof
    assume e: "prio_before p as = Some (p (hd bs))"
    have "as \<noteq> []" using e by (auto simp: prio_before_def)
    then have "last as \<in> set as" "hd bs \<in> set bs" using that by simp_all
    then have "p (last as) \<le> p n" "p n \<le> p (hd bs)" using s by (auto simp: sorted_append)
    then show False using e q that by (auto simp: prio_before_def split: if_splits)
  qed
  then show "leads p None (as @ n # bs) = leads p None as @ n # leads p (Some (p n)) bs \<and>
      leads p None (as @ bs) = leads p None as @ leads p (Some (p n)) bs"
    using q by (cases bs) (auto simp: leads_split)
qed

subsection \<open>Adding\<close>

text \<open>Where the loop over the priorities stops.\<close>

lemma plist_place_ring:
  assumes "seg (prio_list h) x ls head" "head \<notin> set ls" "\<forall>y\<in>set ls. node_prio h y = Some (p y)"
  shows "plist_place prio head (hd (ls @ [head])) h = Some (case dropWhile (\<lambda>y. p y < prio) ls of
      [] \<Rightarrow> (True, head) | y # ys \<Rightarrow> if prio < p y then (True, y) else (False, hd (ys @ [head])))"
  using assms
proof (induction ls arbitrary: x)
  case Nil
  then show ?case by (simp add: plist_place.simps[of prio head head])
next
  case (Cons y ys)
  have "nx (prio_list h) y = Some (hd (ys @ [head]))" using Cons.prems(1) seg_first[of _ y ys head] by simp
  then have "plist_place prio head y h = (if prio < p y then Some (True, y)
      else if prio = p y then Some (False, hd (ys @ [head])) else plist_place prio head (hd (ys @ [head])) h)"
    using Cons.prems(2,3) by (simp add: plist_place.simps[of prio head y])
  moreover have "plist_place prio head (hd (ys @ [head])) h = Some (case dropWhile (\<lambda>y. p y < prio) ys of
      [] \<Rightarrow> (True, head) | y # ys \<Rightarrow> if prio < p y then (True, y) else (False, hd (ys @ [head])))"
    by (rule Cons.IH[of y]) (use Cons.prems in auto)
  ultimately show ?case by auto
qed

lemma place_leads:
  assumes s: "sorted (map p (as @ bs))" and a: "\<forall>x\<in>set as. p x \<le> v" and b: "\<forall>x\<in>set bs. v < p x"
  shows "(case dropWhile (\<lambda>y. p y < v) (leads p None (as @ bs)) of
      [] \<Rightarrow> (True, head) | y # ys \<Rightarrow> if v < p y then (True, y) else (False, hd (ys @ [head])))
    = (prio_before p as \<noteq> Some v, hd (bs @ [head]))"
proof -
  let ?L = "leads p (prio_before p as) bs"
  have q: "prio_before p as \<noteq> Some (p x)" if "x \<in> set bs" for x using prio_before_less[OF a] b that by blast
  have h: "hd (?L @ [head]) = hd (bs @ [head])" using q by (intro leads_hd) (metis hd_in_set)
  have Lb: "\<forall>x\<in>set ?L. v < p x" using leads_subset[of p "prio_before p as" bs] b by blast
  have L: "(case ?L of [] \<Rightarrow> (True, head) | y # ys \<Rightarrow> if v < p y then (True, y) else (False, hd (ys @ [head]))) = (True, hd (bs @ [head]))"
    using Lb h by (cases ?L) auto
  show ?thesis
  proof (cases "prio_before p as = Some v")
    case False
    have "p x < v" if "x \<in> set as" for x
    proof -
      have ne: "as \<noteq> []" using that by auto
      then have "p (last as) < v" using False a last_in_set[OF ne] by (auto simp: prio_before_def order.order_iff_strict)
      moreover have "p x \<le> p (last as)" using s that by (cases as rule: rev_cases) (auto simp: sorted_append)
      ultimately show ?thesis by simp
    qed
    then have "dropWhile (\<lambda>y. p y < v) (leads p None as @ ?L) = dropWhile (\<lambda>y. p y < v) ?L"
      using leads_subset[of p None as] by (intro dropWhile_append2) auto
    moreover have "dropWhile (\<lambda>y. p y < v) ?L = ?L" using Lb by (cases ?L) auto
    ultimately show ?thesis using False L by (simp add: leads_split)
  next
    case True
    then have ne: "as \<noteq> []" "p (last as) = v" by (auto simp: prio_before_def split: if_splits)
    then obtain us u where u: "leads p None as = us @ [u]" "p u = v" using leads_last[OF ne(1), of p] by (metis append_butlast_last_id)
    have "sorted_wrt (<) (map p (us @ [u]))" using leads_sorted[of p as None] s u(1) by (simp add: sorted_append)
    then have "\<forall>x\<in>set us. p x < v" using u(2) by (auto simp: sorted_wrt_append)
    then have "dropWhile (\<lambda>y. p y < v) (leads p None as @ ?L) = u # ?L" using u by simp
    then show ?thesis using True u(2) h by (simp add: leads_split)
  qed
qed

lemma insert_prio_split:
  fixes n :: addr and p :: "addr \<Rightarrow> int"
  assumes "sorted (map p xs)"
  defines "as \<equiv> takeWhile (\<lambda>y. p y \<le> p n) xs" and "bs \<equiv> dropWhile (\<lambda>y. p y \<le> p n) xs"
  shows "xs = as @ bs" "\<forall>x\<in>set as. p x \<le> p n" "\<forall>x\<in>set bs. p n < p x" "insert_prio p n xs = as @ n # bs"
proof -
  show xs: "xs = as @ bs" by (simp add: as_def bs_def)
  show "\<forall>x\<in>set as. p x \<le> p n" unfolding as_def by (auto dest: set_takeWhileD)
  show "insert_prio p n xs = as @ n # bs" by (simp add: insert_prio_def as_def bs_def)
  have "\<not> p (hd bs) \<le> p n" if "bs \<noteq> []" using that hd_dropWhile[of "\<lambda>y. p y \<le> p n" xs] by (simp add: bs_def)
  moreover have "sorted (map p bs)" using assms(1) xs by (simp add: sorted_append)
  ultimately show "\<forall>x\<in>set bs. p n < p x" by (cases bs) force+
qed

text \<open>\<open>same_cells h h' x\<close>: both cells of \<open>x\<close> have the same links.\<close>

definition same_cells :: "pheap \<Rightarrow> pheap \<Rightarrow> addr \<Rightarrow> bool" where
  "same_cells h h' x \<longleftrightarrow> same_links (prio_list h) (prio_list h') x \<and> same_links (node_list h) (node_list h') x"

definition prio_cells :: "lheap \<Rightarrow> (addr \<Rightarrow> int) \<Rightarrow> addr \<Rightarrow> addr list \<Rightarrow> bool" where
  "prio_cells l p a xs \<longleftrightarrow> ring l a (leads p None xs) \<and> (\<forall>x\<in>set xs. x \<notin> set (leads p None xs) \<longrightarrow> ring l x [])"

lemma prio_cellsI:
  assumes c: "prio_cells l p a xs" and r: "ring l' a (leads p None ys)"
    and new: "\<And>x. x \<in> set ys \<Longrightarrow> x \<notin> set (leads p None ys) \<Longrightarrow>
      ring l' x [] \<or> x \<in> set xs \<and> x \<notin> set (leads p None xs) \<and> same_links l l' x"
  shows "prio_cells l' p a ys"
  unfolding prio_cells_def
proof (intro conjI ballI impI r)
  fix x assume "x \<in> set ys" "x \<notin> set (leads p None ys)"
  from new[OF this] show "ring l' x []"
  proof
    assume x: "x \<in> set xs \<and> x \<notin> set (leads p None xs) \<and> same_links l l' x"
    have "ring l' x [] = ring l x []" by (rule ring_frame) (use x in simp)
    then show ?thesis using x c by (simp add: prio_cells_def)
  qed
qed

lemma plist_cells: "plist h a xs \<longleftrightarrow> ring (node_list h) a xs \<and> prio_cells (prio_list h) (the \<circ> node_prio h) a xs \<and>
    sorted (map (the \<circ> node_prio h) xs) \<and> (\<forall>x\<in>set xs. node_prio h x \<noteq> None)"
  by (auto simp: plist_def prio_cells_def Let_def)

lemma add_prio_cells:
  assumes c: "prio_cells l p a (as @ bs)" and s: "sorted (map p (as @ bs))" "\<forall>x\<in>set as. p x \<le> p n" "\<forall>x\<in>set bs. p n < p x"
    and n: "n \<notin> set (a # as @ bs)" "ring l n []" and a: "a \<notin> set (as @ bs)" and new: "prio_before p as \<noteq> Some (p n)"
  shows "\<exists>l'. list_add_tail n (hd (bs @ [a])) l = Some l' \<and> prio_cells l' p a (as @ n # bs) \<and>
    (\<forall>x. x \<notin> set (n # a # as @ bs) \<longrightarrow> same_links l l' x)"
proof -
  let ?l1 = "leads p None as" and ?l2 = "leads p (prio_before p as) bs"
  note li = leads_insert[OF s]
  have ls: "leads p None (as @ bs) = ?l1 @ ?l2" by (simp add: leads_split)
  have e: "leads p None (as @ n # bs) = ?l1 @ n # ?l2" using li(1) new by simp
  have sub: "set ?l1 \<subseteq> set as" "set ?l2 \<subseteq> set bs" by (rule leads_subset)+
  have r: "ring l a (?l1 @ ?l2)" using c by (simp add: prio_cells_def ls)
  have "n \<notin> set (a # ?l1 @ ?l2)" "n \<in> dom l" using n sub ring_ends(3)[OF n(2)] by auto
  from list_add_before_ring[OF r this(2,1)] obtain l' where l': "list_add_tail n (hd (bs @ [a])) l = Some l'"
    "ring l' a (?l1 @ n # ?l2)" "\<forall>x. x \<notin> set (n # a # ?l1 @ ?l2) \<longrightarrow> same_links l l' x" unfolding li(2) by blast
  have "prio_cells l' p a (as @ n # bs)"
    by (rule prio_cellsI[OF c]) (use l'(2,3) a in \<open>auto simp: e ls\<close>)
  then show ?thesis using l' sub by auto
qed

lemma plist_add_inserts:
  assumes l: "plist h a xs" and n: "n \<notin> set (a # xs)" "node_prio h n \<noteq> None" "n \<in> dom (node_list h)" "ring (prio_list h) n []"
  shows "\<exists>h'. plist_add n a h = Some h' \<and> node_prio h' = node_prio h \<and> plist h' a (insert_prio (the \<circ> node_prio h) n xs) \<and>
    (\<forall>x. x \<notin> set (n # a # xs) \<longrightarrow> same_cells h h' x)"
proof -
  define p where "p = the \<circ> node_prio h"
  let ?ls = "leads p None xs"
  have L: "ring (node_list h) a xs" "prio_cells (prio_list h) p a xs" "sorted (map p xs)" "\<forall>x\<in>set xs. node_prio h x \<noteq> None"
    using l unfolding plist_cells p_def by auto
  obtain as bs where s: "xs = as @ bs" "\<forall>x\<in>set as. p x \<le> p n" "\<forall>x\<in>set bs. p n < p x" "insert_prio p n xs = as @ n # bs"
    using insert_prio_split[OF L(3), of n] by blast
  let ?q = "hd (bs @ [a])" and ?new = "prio_before p as \<noteq> Some (p n)"
  have pn: "node_prio h n = Some (p n)" using n(2) by (auto simp: p_def)
  have r: "ring (prio_list h) a ?ls" using L(2) by (simp add: prio_cells_def)
  have "node_prio h y = Some (p y)" if "y \<in> set ?ls" for y using L(4) leads_subset[of p None xs] that by (fastforce simp: p_def)
  then have "plist_place (p n) a (hd (?ls @ [a])) h = Some (?new, ?q)"
    using plist_place_ring[of h a ?ls a p "p n"] r place_leads[OF L(3)[unfolded s(1)] s(2,3), of a] by (simp add: s(1) ring_def)
  then have run: "plist_add n a h = do { h \<leftarrow> (if ?new then on_prio (list_add_tail n ?q) h else Some h); on_node (list_add_tail n ?q) h }"
    using pn ring_ends(1)[OF r] by (simp add: plist_add_def)
  have n': "n \<notin> set (a # as @ bs)" "a \<notin> set (as @ bs)" using n(1) L(1) s(1) by (auto simp: ring_def)
  obtain nl where nl: "list_add_tail n ?q (node_list h) = Some nl" "ring nl a (as @ n # bs)"
    "\<forall>x. x \<notin> set (n # a # as @ bs) \<longrightarrow> same_links (node_list h) nl x"
    using list_add_before_ring[OF L(1)[unfolded s(1)] n(3) n'(1)] by blast
  have so: "sorted (map p (as @ n # bs))" using L(3) s(1-3) by (auto simp: sorted_append less_imp_le)
  obtain pl where pl: "(if ?new then on_prio (list_add_tail n ?q) h else Some h) = Some (h\<lparr>prio_list := pl\<rparr>)"
    "prio_cells pl p a (as @ n # bs)" "\<forall>x. x \<notin> set (n # a # as @ bs) \<longrightarrow> same_links (prio_list h) pl x"
  proof (cases ?new)
    case True
    then show thesis using add_prio_cells[OF L(2)[unfolded s(1)] L(3)[unfolded s(1)] s(2,3) n'(1) n(4) n'(2)] that
      by (auto simp: on_prio_def)
  next
    case False
    then have "leads p None (as @ n # bs) = leads p None (as @ bs)" using leads_insert(1)[OF L(3)[unfolded s(1)] s(2,3)] by simp
    then show thesis using False L(2) s(1) n(4) that[of "prio_list h"] by (auto simp: prio_cells_def same_links_def)
  qed
  have "plist_add n a h = Some (h\<lparr>prio_list := pl, node_list := nl\<rparr>)" using run pl(1) nl(1) by (simp add: on_node_def)
  moreover have "plist (h\<lparr>prio_list := pl, node_list := nl\<rparr>) a (as @ n # bs)"
    using nl(2) pl(2) so L(4) n(2) s(1) unfolding plist_cells by (auto simp flip: p_def)
  moreover have "\<forall>x. x \<notin> set (n # a # xs) \<longrightarrow> same_cells h (h\<lparr>prio_list := pl, node_list := nl\<rparr>) x"
    using nl(3) pl(3) s(1) by (simp add: same_cells_def)
  ultimately show ?thesis using s(4) by (auto simp flip: p_def)
qed

subsection \<open>Deleting\<close>

lemma take_over:
  assumes r: "ring h a (xs @ n # ys)" and b: "ring h b []" "b \<notin> set (a # xs @ n # ys)"
  shows "\<exists>h1 h2. list_move_tail b n h = Some h1 \<and> list_del_init n h1 = Some h2 \<and> ring h2 a (xs @ b # ys) \<and> ring h2 n [] \<and>
    (\<forall>x. x \<notin> set (a # b # xs @ n # ys) \<longrightarrow> same_links h h2 x)"
proof -
  have "hd ((n # ys) @ [a]) = n" by simp
  then obtain h1 where h1: "list_move_tail b n h = Some h1" "ring h1 a (xs @ b # n # ys)"
    "\<forall>x. x \<notin> set (b # a # xs @ n # ys) \<longrightarrow> same_links h h1 x"
    using list_add_before_ring[OF r ring_ends(3)[OF b(1)] b(2)] list_move_single[OF b(1)] by auto
  obtain h2 where h2: "list_del_init n h1 = Some h2" "ring h2 a ((xs @ [b]) @ ys)" "ring h2 n []"
    "\<forall>x. x \<notin> set (n # a # (xs @ [b]) @ ys) \<longrightarrow> same_links h1 h2 x"
    using list_del_init_ring[of h1 a "xs @ [b]" n ys] h1(2) by auto
  have "\<forall>x. x \<notin> set (a # b # xs @ n # ys) \<longrightarrow> same_links h h2 x" using h1(3) h2(4) by (auto simp: same_links_def)
  then show ?thesis using h1(1) h2(1-3) by auto
qed

lemma step_aside:
  assumes r: "ring h a (xs @ n # ys)"
  shows "\<exists>h1 h2. list_move_tail (hd (ys @ [a])) n h = Some h1 \<and> list_del_init n h1 = Some h2 \<and> ring h2 a (xs @ ys) \<and> ring h2 n [] \<and>
    (\<forall>x. x \<notin> set (a # xs @ n # ys) \<longrightarrow> same_links h h2 x)"
proof -
  define b zs where bz: "b = hd (ys @ [a])" "zs = tl (ys @ a # xs)"
  have e: "ys @ a # xs = b # zs" by (cases ys) (simp_all add: bz)
  then have mem: "set (b # zs) = set (a # xs @ ys)" by (metis Un_commute Un_insert_right list.simps(15) set_append)
  have r': "ring h n ([] @ b # zs)" using r e ring_rotate[of h a xs n ys] by simp
  obtain h1 where h1: "list_move_tail b n h = Some h1" "ring h1 n (zs @ [b])" "\<forall>x. x \<notin> set (n # b # zs) \<longrightarrow> same_links h h1 x"
    using list_move_within(2)[OF r'] by auto
  have "ring h1 b ([] @ n # zs)" using h1(2) ring_rotate[of h1 n zs b "[]"] by simp
  from list_del_init_ring[OF this] obtain h2 where h2: "list_del_init n h1 = Some h2" "ring h2 b zs" "ring h2 n []"
    "\<forall>x. x \<notin> set (n # b # zs) \<longrightarrow> same_links h1 h2 x" by auto
  have "ring h2 a (xs @ ys)"
  proof (cases ys)
    case (Cons y us)
    then have "b = y" "zs = us @ a # xs" by (simp_all add: bz)
    then show ?thesis using h2(2) Cons by (simp add: ring_rotate[of h2 a])
  qed (use h2(2) in \<open>simp add: bz\<close>)
  moreover have "\<forall>x. x \<notin> set (a # xs @ n # ys) \<longrightarrow> same_links h h2 x"
  proof (intro allI impI)
    fix x assume "x \<notin> set (a # xs @ n # ys)"
    then have "x \<notin> set (n # b # zs)" using mem by auto
    then show "same_links h h2 x" using h1(3) h2(4) by (simp add: same_links_def)
  qed
  ultimately show ?thesis using h1(1) h2(1,3) unfolding bz(1) by blast
qed

lemma del_prio_cells:
  assumes c: "prio_cells (prio_list h) p a (as @ n # bs)" and so: "sorted (map p (as @ n # bs))" and d: "distinct (a # as @ n # bs)"
    and nxt: "plist_first n h = Some (hd (bs @ [a]))"
  shows "\<exists>pl. plist_del_prio n h = Some (h\<lparr>prio_list := pl\<rparr>) \<and> prio_cells pl p a (as @ bs) \<and> ring pl n [] \<and>
    (\<forall>x. x \<notin> set (a # as @ n # bs) \<longrightarrow> same_links (prio_list h) pl x)"
proof -
  let ?ls = "leads p None (as @ n # bs)" and ?l1 = "leads p None as"
  have r: "ring (prio_list h) a ?ls" using c by (simp add: prio_cells_def)
  have l1: "set ?l1 \<subseteq> set as" by (rule leads_subset)
  have iff: "n \<in> set ?ls \<longleftrightarrow> prio_before p as \<noteq> Some (p n)" by (rule lead_iff) (use d in simp)
  note D = leads_delete[OF so]
  show ?thesis
  proof (cases "n \<in> set ?ls")
    case False
    then have e: "leads p None (as @ bs) = ?ls" using iff D(1) by simp
    have n: "ring (prio_list h) n []" using c False by (simp add: prio_cells_def)
    have "prio_cells (prio_list h) p a (as @ bs)" using c e by (simp add: prio_cells_def)
    then show ?thesis using n list_empty_ring(1)[OF n] by (intro exI[of _ "prio_list h"]) (simp add: plist_del_prio_def same_links_def)
  next
    case True
    then have q: "prio_before p as \<noteq> Some (p n)" using iff by simp
    obtain us vs where "?ls = us @ n # vs" using split_list[OF True] by auto
    then have "ring (prio_list h) n (vs @ a # us)" using r ring_rotate[of _ a us n vs] by simp
    then have run: "plist_del_prio n h = do { h \<leftarrow> on_prio (list_move_tail (hd (bs @ [a])) n) h; on_prio (list_del_init n) h }"
      using list_empty_ring(1)[of "prio_list h" n "vs @ a # us"] nxt by (simp add: plist_del_prio_def)
    show ?thesis
    proof (cases "bs = [] \<or> p (hd bs) \<noteq> p n")
      case B: True
      let ?l2 = "leads p (Some (p n)) bs"
      have l2: "set ?l2 \<subseteq> set bs" by (rule leads_subset)
      have e: "?ls = ?l1 @ n # ?l2" "leads p None (as @ bs) = ?l1 @ ?l2" using D(3)[OF q B] by auto
      have hd2: "hd (?l2 @ [a]) = hd (bs @ [a])" using B by (intro leads_hd) auto
      from step_aside[OF r[unfolded e(1)]] obtain h1 h2 where h: "list_move_tail (hd (bs @ [a])) n (prio_list h) = Some h1"
        "list_del_init n h1 = Some h2" "ring h2 a (?l1 @ ?l2)" "ring h2 n []"
        "\<forall>x. x \<notin> set (a # ?l1 @ n # ?l2) \<longrightarrow> same_links (prio_list h) h2 x" unfolding hd2 by blast
      have "prio_cells h2 p a (as @ bs)" by (rule prio_cellsI[OF c]) (use h(3,5) d in \<open>auto simp: e\<close>)
      moreover have "\<forall>x. x \<notin> set (a # as @ n # bs) \<longrightarrow> same_links (prio_list h) h2 x" using h(5) l1 l2 by auto
      ultimately show ?thesis using run h(1,2,4) by (intro exI[of _ h2]) (simp add: on_prio_def)
    next
      case False
      then obtain b cs where B: "bs = b # cs" "p b = p n" by (cases bs) auto
      let ?l3 = "leads p (Some (p n)) cs"
      have l3: "set ?l3 \<subseteq> set cs" by (rule leads_subset)
      have e: "?ls = ?l1 @ n # ?l3" "leads p None (as @ bs) = ?l1 @ b # ?l3" using D(2)[OF q B] by auto
      have b: "b \<notin> set (a # ?ls)" unfolding e using d l1 l3 B(1) by auto
      have "ring (prio_list h) b []" using c b B(1) by (simp add: prio_cells_def)
      from take_over[OF r[unfolded e(1)] this b[unfolded e(1)]] obtain h1 h2 where h: "list_move_tail b n (prio_list h) = Some h1"
        "list_del_init n h1 = Some h2" "ring h2 a (?l1 @ b # ?l3)" "ring h2 n []"
        "\<forall>x. x \<notin> set (a # b # ?l1 @ n # ?l3) \<longrightarrow> same_links (prio_list h) h2 x" by blast
      have "prio_cells h2 p a (as @ bs)" by (rule prio_cellsI[OF c]) (use h(3,5) d in \<open>auto simp: e\<close>)
      moreover have "\<forall>x. x \<notin> set (a # as @ n # bs) \<longrightarrow> same_links (prio_list h) h2 x" using h(5) l1 l3 B(1) by auto
      ultimately show ?thesis using run h(1,2,4) B(1) by (intro exI[of _ h2]) (simp add: on_prio_def)
    qed
  qed
qed

lemma plist_del_removes:
  assumes l: "plist h a (as @ n # bs)"
  shows "\<exists>h'. plist_del n a h = Some h' \<and> node_prio h' = node_prio h \<and> plist h' a (as @ bs) \<and>
    ring (node_list h') n [] \<and> ring (prio_list h') n [] \<and> (\<forall>x. x \<notin> set (a # as @ n # bs) \<longrightarrow> same_cells h h' x)"
proof -
  define p where "p = the \<circ> node_prio h"
  have L: "ring (node_list h) a (as @ n # bs)" "prio_cells (prio_list h) p a (as @ n # bs)" "sorted (map p (as @ n # bs))"
    "\<forall>x\<in>set (as @ n # bs). node_prio h x \<noteq> None" using l unfolding plist_cells p_def by auto
  have "plist_first n h = Some (hd (bs @ [a]))" using L(1) seg_first[of "node_list h" n bs a] by (simp add: plist_first_def ring_def seg_append)
  then obtain pl where pl: "plist_del_prio n h = Some (h\<lparr>prio_list := pl\<rparr>)" "prio_cells pl p a (as @ bs)" "ring pl n []"
    "\<forall>x. x \<notin> set (a # as @ n # bs) \<longrightarrow> same_links (prio_list h) pl x"
    using del_prio_cells[OF L(2,3)] L(1) by (auto simp: ring_def)
  obtain nl where nl: "list_del_init n (node_list h) = Some nl" "ring nl a (as @ bs)" "ring nl n []"
    "\<forall>x. x \<notin> set (n # a # as @ bs) \<longrightarrow> same_links (node_list h) nl x"
    using list_del_init_ring[OF L(1)] by blast
  let ?h = "h\<lparr>prio_list := pl, node_list := nl\<rparr>"
  have "plist_del n a h = Some ?h" using pl(1) nl(1) by (simp add: plist_del_def on_node_def)
  moreover have "sorted (map p (as @ bs))" using L(3) by (auto simp: sorted_append)
  then have "plist ?h a (as @ bs)" using nl(2) pl(2) L(4) unfolding plist_cells by (simp flip: p_def)
  moreover have "\<forall>x. x \<notin> set (a # as @ n # bs) \<longrightarrow> same_cells h ?h x" using nl(4) pl(4) by (auto simp: same_cells_def)
  ultimately show ?thesis using nl(3) pl(3) by (intro exI[of _ ?h]) simp
qed

subsection \<open>A stable priority queue\<close>

lemma insert_prio_set: "set (insert_prio p n xs) = insert n (set xs)"
  unfolding insert_prio_def by (metis set_append Un_insert_right list.simps(15) takeWhile_dropWhile_id)

lemma insert_prio_distinct: "distinct (insert_prio p n xs) \<longleftrightarrow> n \<notin> set xs \<and> distinct xs"
proof -
  have e: "distinct (as @ n # bs) \<longleftrightarrow> n \<notin> set (as @ bs) \<and> distinct (as @ bs)" for as bs by auto
  show ?thesis unfolding insert_prio_def e takeWhile_dropWhile_id ..
qed

lemma insert_prio_nonempty [simp]: "insert_prio p n xs \<noteq> []"
  by (simp add: insert_prio_def)

lemma insert_prio_hd: "hd (insert_prio p n xs) = (if xs \<noteq> [] \<and> p (hd xs) \<le> p n then hd xs else n)"
  by (cases xs) (auto simp: insert_prio_def)

lemma insert_prio_cong: "p n = q n \<Longrightarrow> (\<And>x. x \<in> set xs \<Longrightarrow> p x = q x) \<Longrightarrow> insert_prio p n xs = insert_prio q n xs"
  unfolding insert_prio_def by (auto cong: takeWhile_cong dropWhile_cong)

lemma insert_prio_stable: "sorted (map p xs) \<Longrightarrow> filter (\<lambda>x. v = p x) (insert_prio p n xs) = filter (\<lambda>x. v = p x) (xs @ [n])"
proof -
  assume s: "sorted (map p xs)"
  obtain as bs where ab: "xs = as @ bs" "\<forall>x\<in>set bs. p n < p x" "insert_prio p n xs = as @ n # bs"
    using insert_prio_split[OF s, of n] by blast
  have "filter (\<lambda>x. v = p x) bs = []" if "p n = v" using ab(2) that by (auto simp: filter_empty_conv)
  then show ?thesis using ab by auto
qed

lemma insert_prio_sorted: "sorted (map p xs) \<Longrightarrow> sorted (map p (insert_prio p n xs))"
proof -
  assume s: "sorted (map p xs)"
  obtain as bs where ab: "xs = as @ bs" "\<forall>x\<in>set as. p x \<le> p n" "\<forall>x\<in>set bs. p n < p x" "insert_prio p n xs = as @ n # bs"
    using insert_prio_split[OF s, of n] by blast
  then show ?thesis using s by (auto simp: sorted_append less_imp_le)
qed

lemma insert_all_sort:
  assumes "sorted (map p xs)"
  shows "fold (insert_prio p) ns xs = sort_key p (xs @ ns)"
proof -
  have "sorted (map p (fold (insert_prio p) ns xs)) \<and> mset (fold (insert_prio p) ns xs) = mset (xs @ ns) \<and>
    (\<forall>v. filter (\<lambda>x. v = p x) (fold (insert_prio p) ns xs) = filter (\<lambda>x. v = p x) (xs @ ns))"
    using assms
  proof (induction ns arbitrary: xs)
    case (Cons n ns)
    have "mset (insert_prio p n xs) = add_mset n (mset xs)"
      unfolding insert_prio_def by (metis mset_append mset.simps(2) takeWhile_dropWhile_id union_mset_add_mset_right)
    moreover have "filter (\<lambda>x. v = p x) (insert_prio p n xs @ ns) = filter (\<lambda>x. v = p x) (xs @ n # ns)" for v
      using insert_prio_stable[OF Cons.prems, of v n] by simp
    ultimately show ?case using Cons.IH[OF insert_prio_sorted[OF Cons.prems], of n] by simp
  qed simp
  then have "sort_key p (xs @ ns) = fold (insert_prio p) ns xs"
    by (intro properties_for_sort_key) auto
  then show ?thesis by simp
qed

text \<open>What users of such a queue rely on: a node that is on no list can be added and comes behind the nodes
  that are at least as urgent, and any node can be taken out.\<close>

locale stable_queue =
  fixes rep :: "'h \<Rightarrow> addr \<Rightarrow> addr list \<Rightarrow> bool" and prio :: "'h \<Rightarrow> addr \<Rightarrow> int" and idle :: "'h \<Rightarrow> addr \<Rightarrow> bool"
    and add :: "addr \<Rightarrow> addr \<Rightarrow> 'h \<Rightarrow> 'h option" and del :: "addr \<Rightarrow> addr \<Rightarrow> 'h \<Rightarrow> 'h option" and first :: "addr \<Rightarrow> 'h \<Rightarrow> addr option"
  assumes rep_sorted: "rep h a xs \<Longrightarrow> sorted (map (prio h) xs) \<and> distinct (a # xs)"
    and first_law: "rep h a (x # xs) \<Longrightarrow> first a h = Some x"
    and add_law: "rep h a xs \<Longrightarrow> idle h n \<Longrightarrow> n \<notin> set (a # xs) \<Longrightarrow>
      \<exists>h'. add n a h = Some h' \<and> rep h' a (insert_prio (prio h) n xs) \<and> prio h' = prio h \<and>
        (\<forall>m. idle h m \<longrightarrow> m \<notin> set (n # a # xs) \<longrightarrow> idle h' m)"
    and del_law: "rep h a (xs @ n # ys) \<Longrightarrow>
      \<exists>h'. del n a h = Some h' \<and> rep h' a (xs @ ys) \<and> prio h' = prio h \<and> idle h' n \<and>
        (\<forall>m. idle h m \<longrightarrow> m \<notin> set (a # xs @ n # ys) \<longrightarrow> idle h' m)"
begin

lemma add_all:
  assumes "rep h a xs" "distinct ns" "\<forall>n\<in>set ns. idle h n" "set ns \<inter> set (a # xs) = {}"
  shows "\<exists>h'. foldM (\<lambda>n. add n a) ns h = Some h' \<and> rep h' a (sort_key (prio h) (xs @ ns)) \<and> prio h' = prio h"
proof -
  have "\<exists>h'. foldM (\<lambda>n. add n a) ns h = Some h' \<and> rep h' a (fold (insert_prio (prio h)) ns xs) \<and> prio h' = prio h"
    using assms
  proof (induction ns arbitrary: h xs)
    case (Cons n ns)
    then obtain h1 where h1: "add n a h = Some h1" "rep h1 a (insert_prio (prio h) n xs)" "prio h1 = prio h"
      "\<forall>m. idle h m \<longrightarrow> m \<notin> set (n # a # xs) \<longrightarrow> idle h1 m" using add_law[of h a xs n] by auto
    have "\<forall>m\<in>set ns. idle h1 m" using h1(4) Cons.prems by auto
    moreover have "set ns \<inter> set (a # insert_prio (prio h) n xs) = {}" using Cons.prems by (auto simp: insert_prio_set)
    ultimately show ?case using Cons.IH[OF h1(2)] Cons.prems(2) h1(1,3) by simp
  qed simp
  then show ?thesis using insert_all_sort[of "prio h" xs ns] rep_sorted[OF assms(1)] by simp
qed

lemma del_keeps_order:
  assumes "rep h a xs" "n \<in> set xs"
  shows "\<exists>h'. del n a h = Some h' \<and> rep h' a (remove1 n xs) \<and> prio h' = prio h"
proof -
  obtain ys zs where x: "xs = ys @ n # zs" using split_list[OF assms(2)] by auto
  then have "remove1 n xs = ys @ zs" using rep_sorted[OF assms(1)] by (simp add: remove1_append)
  then show ?thesis using del_law[of h a ys n zs] assms(1) x by auto
qed

end

definition idle_node :: "pheap \<Rightarrow> addr \<Rightarrow> bool" where
  "idle_node h n \<longleftrightarrow> node_prio h n \<noteq> None \<and> ring (node_list h) n [] \<and> ring (prio_list h) n []"

lemma idle_frame: "idle_node h m \<Longrightarrow> same_cells h h' m \<Longrightarrow> node_prio h' = node_prio h \<Longrightarrow> idle_node h' m"
  by (simp add: idle_node_def same_cells_def ring_def same_links_def)

interpretation pq: stable_queue plist "\<lambda>h. the \<circ> node_prio h" idle_node plist_add plist_del plist_first
proof
  show "sorted (map (the \<circ> node_prio h) xs) \<and> distinct (a # xs)" if "plist h a xs" for h a xs
    using that by (simp add: plist_cells ring_def)
  show "plist_first a h = Some x" if "plist h a (x # xs)" for h a x xs
    using that ring_ends(1)[of "node_list h" a "x # xs"] by (simp add: plist_cells plist_first_def)
next
  fix h a xs n assume l: "plist h a xs" and n: "idle_node h n" "n \<notin> set (a # xs)"
  have "n \<in> dom (node_list h)" using n(1) ring_ends(3)[of "node_list h" n "[]"] by (simp add: idle_node_def)
  then show "\<exists>h'. plist_add n a h = Some h' \<and> plist h' a (insert_prio (the \<circ> node_prio h) n xs) \<and>
      the \<circ> node_prio h' = the \<circ> node_prio h \<and> (\<forall>m. idle_node h m \<longrightarrow> m \<notin> set (n # a # xs) \<longrightarrow> idle_node h' m)"
    using plist_add_inserts[OF l n(2)] n(1) idle_frame by (metis idle_node_def)
next
  fix h a xs n ys assume l: "plist h a (xs @ n # ys)"
  have "node_prio h n \<noteq> None" using l by (simp add: plist_cells)
  then show "\<exists>h'. plist_del n a h = Some h' \<and> plist h' a (xs @ ys) \<and> the \<circ> node_prio h' = the \<circ> node_prio h \<and> idle_node h' n \<and>
      (\<forall>m. idle_node h m \<longrightarrow> m \<notin> set (a # xs @ n # ys) \<longrightarrow> idle_node h' m)"
    using plist_del_removes[OF l] idle_frame by (metis idle_node_def)
qed

lemma list_del_init_alone:
  assumes "ring h n []"
  shows "list_del_init n h = Some h"
proof -
  obtain c where c: "h n = Some c" "lnext c = n" "lprev c = n" using assms by (auto simp: ring_def get_next_def get_prev_def)
  then have "c\<lparr>lnext := n\<rparr> = c" "c\<lparr>lprev := n\<rparr> = c" by (cases c; simp)+
  then show ?thesis using c
    by (simp add: list_del_init_def list_del_between_def INIT_LIST_HEAD_def set_next_def set_prev_def get_next_def get_prev_def fun_upd_idem)
qed

text \<open>Deleting a node that is on no list changes nothing.\<close>

lemma plist_del_idle:
  assumes "idle_node h n"
  shows "plist_del n a h = Some h"
proof -
  have r: "list_del_init n (node_list h) = Some (node_list h)" using assms by (simp add: idle_node_def list_del_init_alone)
  have "list_empty n (prio_list h) = Some True" using assms by (simp add: idle_node_def ring_def list_empty_def)
  then show ?thesis by (simp add: plist_del_def plist_del_prio_def on_node_def r)
qed

lemma plist_init:
  assumes "a \<in> dom (prio_list h)" "a \<in> dom (node_list h)"
  shows "\<exists>h'. plist_head_init a h = Some h' \<and> plist h' a [] \<and> plist_head_empty a h' = Some True \<and> node_prio h' = node_prio h"
  using assms by (simp add: plist_head_init_def on_prio_def on_node_def plist_cells prio_cells_def)
    (simp add: ring_def plist_head_empty_def list_empty_def)

end
