(* ===== verification/Rtmutex.thy ===== *)
theory Rtmutex
  imports PList
begin

text \<open>
  Real-time mutexes with priority inheritance (\<^verbatim>\<open>kernel/rtmutex.c\<close>, \<^verbatim>\<open>kernel/rtmutex_common.h\<close>). The waiters of a lock
  and the waiters a task inherits from are lists by priority, whose operations are those of sequences
  (\<open>PList\<close>); a node's place is fixed by the priority it had when it was added. The low bits of the owner
  word are fields of their own. The kernel of the repository has one processor and does not preempt, so
  everything between two calls of \<^verbatim>\<open>schedule\<close> is one step, and the loop of \<^verbatim>\<open>rt_mutex_slowlock\<close> is one step per
  pass. It is built with \<^verbatim>\<open>CONFIG_DEBUG_RT_MUTEXES\<close>: there is no fast path, and a walk that begins with a
  waiter always looks for deadlocks. \<open>None\<close> is a \<^verbatim>\<open>BUG_ON\<close> or an access through a null pointer; the \<^verbatim>\<open>BUG_ON\<close> that
  \<^verbatim>\<open>rt_mutex_setprio\<close> of the scheduler has for a priority out of range is the flag \<open>rt_bug\<close>, which is never cleared:
  \<open>Rtmutex_System\<close> makes a step that sets it one that fails.
\<close>

subsection \<open>State\<close>

record rt_mutex_waiter =
  w_prio :: int
  w_pi_prio :: int
  w_task :: "nat option"
  w_lock :: nat

record rt_mutex =
  lk_owner :: "nat option"
  lk_pending :: bool
  lk_has_waiters :: bool
  wait_list :: "nat list"

record rt_task =
  rt_prio :: int
  rt_normal_prio :: int
  pi_waiters :: "nat list"
  pi_blocked_on :: "nat option"
  rt_usage :: int

record rtm =
  rt_tasks :: "nat \<Rightarrow> rt_task"
  rt_locks :: "nat \<Rightarrow> rt_mutex"
  rt_waiters :: "nat \<Rightarrow> rt_mutex_waiter"
  rt_bug :: bool

definition upd_task :: "nat \<Rightarrow> (rt_task \<Rightarrow> rt_task) \<Rightarrow> rtm \<Rightarrow> rtm" where
  "upd_task t f s = s\<lparr>rt_tasks := (rt_tasks s)(t := f (rt_tasks s t))\<rparr>"

definition upd_lock :: "nat \<Rightarrow> (rt_mutex \<Rightarrow> rt_mutex) \<Rightarrow> rtm \<Rightarrow> rtm" where
  "upd_lock l f s = s\<lparr>rt_locks := (rt_locks s)(l := f (rt_locks s l))\<rparr>"

definition upd_waiter :: "nat \<Rightarrow> (rt_mutex_waiter \<Rightarrow> rt_mutex_waiter) \<Rightarrow> rtm \<Rightarrow> rtm" where
  "upd_waiter w f s = s\<lparr>rt_waiters := (rt_waiters s)(w := f (rt_waiters s w))\<rparr>"

definition EDEADLK :: int where "EDEADLK = 35"
definition EINTR :: int where "EINTR = 4"
definition ETIMEDOUT :: int where "ETIMEDOUT = 110"

definition max_lock_depth :: nat where "max_lock_depth = 1024"

subsection \<open>Queues and owners\<close>

definition wait_add :: "nat \<Rightarrow> nat \<Rightarrow> rtm \<Rightarrow> rtm" where
  "wait_add w l s = upd_lock l (\<lambda>k. k\<lparr>wait_list := insert_prio (\<lambda>v. w_prio (rt_waiters s v)) w (wait_list k)\<rparr>) s"

definition wait_del :: "nat \<Rightarrow> nat \<Rightarrow> rtm \<Rightarrow> rtm" where
  "wait_del w l s = upd_lock l (\<lambda>k. k\<lparr>wait_list := remove1 w (wait_list k)\<rparr>) s"

definition pi_add :: "nat \<Rightarrow> nat \<Rightarrow> rtm \<Rightarrow> rtm" where
  "pi_add w t s = upd_task t (\<lambda>k. k\<lparr>pi_waiters := insert_prio (\<lambda>v. w_pi_prio (rt_waiters s v)) w (pi_waiters k)\<rparr>) s"

definition pi_del :: "nat \<Rightarrow> nat \<Rightarrow> rtm \<Rightarrow> rtm" where
  "pi_del w t s = upd_task t (\<lambda>k. k\<lparr>pi_waiters := remove1 w (pi_waiters k)\<rparr>) s"

definition rt_mutex_has_waiters :: "nat \<Rightarrow> rtm \<Rightarrow> bool" where
  "rt_mutex_has_waiters l s \<longleftrightarrow> wait_list (rt_locks s l) \<noteq> []"

definition rt_mutex_top_waiter :: "nat \<Rightarrow> rtm \<Rightarrow> nat option" where
  "rt_mutex_top_waiter l s = (case wait_list (rt_locks s l) of
     [] \<Rightarrow> None
   | w # _ \<Rightarrow> if w_lock (rt_waiters s w) \<noteq> l then None else Some w)"

definition task_has_pi_waiters :: "nat \<Rightarrow> rtm \<Rightarrow> bool" where
  "task_has_pi_waiters t s \<longleftrightarrow> pi_waiters (rt_tasks s t) \<noteq> []"

definition task_top_pi_waiter :: "nat \<Rightarrow> rtm \<Rightarrow> nat option" where
  "task_top_pi_waiter t s = (case pi_waiters (rt_tasks s t) of [] \<Rightarrow> None | w # _ \<Rightarrow> Some w)"

definition rt_mutex_owner :: "nat \<Rightarrow> rtm \<Rightarrow> nat option" where
  "rt_mutex_owner l s = lk_owner (rt_locks s l)"

definition rt_mutex_owner_pending :: "nat \<Rightarrow> rtm \<Rightarrow> bool" where
  "rt_mutex_owner_pending l s = lk_pending (rt_locks s l)"

definition rt_mutex_set_owner :: "nat \<Rightarrow> nat option \<Rightarrow> bool \<Rightarrow> rtm \<Rightarrow> rtm" where
  "rt_mutex_set_owner l t pend s =
     upd_lock l (\<lambda>k. k\<lparr>lk_owner := t, lk_pending := pend, lk_has_waiters := rt_mutex_has_waiters l s\<rparr>) s"

definition clear_rt_mutex_waiters :: "nat \<Rightarrow> rtm \<Rightarrow> rtm" where
  "clear_rt_mutex_waiters l s = upd_lock l (\<lambda>k. k\<lparr>lk_has_waiters := False\<rparr>) s"

definition fixup_rt_mutex_waiters :: "nat \<Rightarrow> rtm \<Rightarrow> rtm" where
  "fixup_rt_mutex_waiters l s = (if \<not> rt_mutex_has_waiters l s then clear_rt_mutex_waiters l s else s)"

definition mark_rt_mutex_waiters :: "nat \<Rightarrow> rtm \<Rightarrow> rtm" where
  "mark_rt_mutex_waiters l s = upd_lock l (\<lambda>k. k\<lparr>lk_has_waiters := True\<rparr>) s"

definition get_task :: "nat \<Rightarrow> rtm \<Rightarrow> rtm" where
  "get_task t s = upd_task t (\<lambda>k. k\<lparr>rt_usage := rt_usage k + 1\<rparr>) s"

definition put_task :: "nat \<Rightarrow> rtm \<Rightarrow> rtm" where
  "put_task t s = upd_task t (\<lambda>k. k\<lparr>rt_usage := rt_usage k - 1\<rparr>) s"

subsection \<open>Priorities\<close>

definition rt_mutex_getprio :: "nat \<Rightarrow> rtm \<Rightarrow> int" where
  "rt_mutex_getprio t s = (case pi_waiters (rt_tasks s t) of
     [] \<Rightarrow> rt_normal_prio (rt_tasks s t)
   | w # _ \<Rightarrow> min (w_pi_prio (rt_waiters s w)) (rt_normal_prio (rt_tasks s t)))"

definition MAX_PRIO :: int where "MAX_PRIO = 140"

text \<open>\<^verbatim>\<open>rt_mutex_setprio\<close> of the scheduler is seen here by its \<^verbatim>\<open>BUG_ON\<close> and the priority it leaves.\<close>

definition rt_setprio :: "nat \<Rightarrow> int \<Rightarrow> rtm \<Rightarrow> rtm" where
  "rt_setprio t p s = (upd_task t (\<lambda>k. k\<lparr>rt_prio := p\<rparr>) s)\<lparr>rt_bug := rt_bug s \<or> p < 0 \<or> p > MAX_PRIO\<rparr>"

definition rt_mutex_adjust_prio :: "nat \<Rightarrow> rtm \<Rightarrow> rtm" where
  "rt_mutex_adjust_prio t s = (let p = rt_mutex_getprio t s in
     if rt_prio (rt_tasks s t) \<noteq> p then rt_setprio t p s else s)"

text \<open>One pass of the walk for a waiter \<open>w\<close> of the task \<open>t\<close> on the lock \<open>l\<close>: the waiter is queued again with the
  task's priority, and the owner's list follows. The result has the owner, the waiter the code goes on
  with and the state.\<close>

definition chain_requeue :: "nat \<Rightarrow> nat \<Rightarrow> nat \<Rightarrow> rtm \<Rightarrow> (nat \<times> nat \<times> rtm) option" where
  "chain_requeue t w l s = do {
     tw \<leftarrow> rt_mutex_top_waiter l s;
     let s = wait_del w l s;
     let s = upd_waiter w (\<lambda>k. k\<lparr>w_prio := rt_prio (rt_tasks s t)\<rparr>) s;
     let s = wait_add w l s;
     let s = put_task t s;
     owner \<leftarrow> rt_mutex_owner l s;
     let s = get_task owner s;
     tw' \<leftarrow> rt_mutex_top_waiter l s;
     if w = tw' then
       let s = pi_del tw owner s;
           s = upd_waiter w (\<lambda>k. k\<lparr>w_pi_prio := w_prio k\<rparr>) s;
           s = pi_add w owner s
       in Some (owner, w, rt_mutex_adjust_prio owner s)
     else if tw = w then
       let s = pi_del w owner s;
           s = upd_waiter tw' (\<lambda>k. k\<lparr>w_pi_prio := w_prio k\<rparr>) s;
           s = pi_add tw' owner s
       in Some (owner, tw', rt_mutex_adjust_prio owner s)
     else Some (owner, w, s) }"

text \<open>The walk; the first argument counts the passes that are left.\<close>

fun adjust_prio_chain ::
  "nat \<Rightarrow> nat \<Rightarrow> nat option \<Rightarrow> bool \<Rightarrow> nat option \<Rightarrow> nat option \<Rightarrow> nat \<Rightarrow> rtm \<Rightarrow> (int \<times> rtm) option"
where
  "adjust_prio_chain 0 t top_waiter dd orig_lock orig_waiter top_task s = Some (if dd then - EDEADLK else 0, put_task t s)"
| "adjust_prio_chain (Suc n) t top_waiter dd orig_lock orig_waiter top_task s =
     (let detect = orig_waiter \<noteq> None in
      case pi_blocked_on (rt_tasks s t) of
        None \<Rightarrow> Some (0, put_task t s)
      | Some w \<Rightarrow>
          if w_task (rt_waiters s w) = None then Some (0, put_task t s)
          else if (case orig_waiter of None \<Rightarrow> False | Some ow \<Rightarrow> w_task (rt_waiters s ow) = None) then Some (0, put_task t s)
          else if top_waiter \<noteq> None \<and> (\<not> task_has_pi_waiters t s \<or> top_waiter \<noteq> task_top_pi_waiter t s) then Some (0, put_task t s)
          else if \<not> detect \<and> w_prio (rt_waiters s w) = rt_prio (rt_tasks s t) then Some (0, put_task t s)
          else let l = w_lock (rt_waiters s w) in
            if Some l = orig_lock \<or> rt_mutex_owner l s = Some top_task then Some (if dd then - EDEADLK else 0, put_task t s)
            else (case chain_requeue t w l s of
                None \<Rightarrow> None
              | Some (owner, waiter, s) \<Rightarrow>
                  (case rt_mutex_top_waiter l s of
                     None \<Rightarrow> None
                   | Some tw \<Rightarrow>
                       if \<not> detect \<and> waiter \<noteq> tw then Some (0, put_task owner s)
                       else adjust_prio_chain n owner (Some tw) dd orig_lock orig_waiter top_task s)))"

definition rt_mutex_adjust_prio_chain ::
  "nat \<Rightarrow> bool \<Rightarrow> nat option \<Rightarrow> nat option \<Rightarrow> nat \<Rightarrow> rtm \<Rightarrow> (int \<times> rtm) option"
where
  "rt_mutex_adjust_prio_chain t dd orig_lock orig_waiter top_task s =
     adjust_prio_chain max_lock_depth t orig_waiter dd orig_lock orig_waiter top_task s"

subsection \<open>Taking, blocking and waking\<close>

definition try_to_steal_lock :: "nat \<Rightarrow> nat \<Rightarrow> rtm \<Rightarrow> (bool \<times> rtm) option" where
  "try_to_steal_lock cur l s =
     (if \<not> rt_mutex_owner_pending l s then Some (False, s)
      else case rt_mutex_owner l s of
        None \<Rightarrow> None
      | Some pendowner \<Rightarrow>
          if pendowner = cur then Some (True, s)
          else if rt_prio (rt_tasks s cur) \<ge> rt_prio (rt_tasks s pendowner) then Some (False, s)
          else if \<not> rt_mutex_has_waiters l s then Some (True, s)
          else do {
            nxt \<leftarrow> rt_mutex_top_waiter l s;
            let s = rt_mutex_adjust_prio pendowner (pi_del nxt pendowner s);
            if w_task (rt_waiters s nxt) \<noteq> Some cur
            then Some (True, rt_mutex_adjust_prio cur (pi_add nxt cur s))
            else Some (True, s) })"

definition try_to_take_rt_mutex :: "nat \<Rightarrow> nat \<Rightarrow> rtm \<Rightarrow> (bool \<times> rtm) option" where
  "try_to_take_rt_mutex cur l s =
     (let s = mark_rt_mutex_waiters l s in
      if rt_mutex_owner l s = None then Some (True, rt_mutex_set_owner l (Some cur) False s)
      else do {
        (ok, s) \<leftarrow> try_to_steal_lock cur l s;
        if \<not> ok then Some (False, s) else Some (True, rt_mutex_set_owner l (Some cur) False s) })"

definition task_blocks_on_rt_mutex :: "nat \<Rightarrow> nat \<Rightarrow> nat \<Rightarrow> bool \<Rightarrow> rtm \<Rightarrow> (int \<times> rtm) option" where
  "task_blocks_on_rt_mutex cur l w dd s = do {
     owner \<leftarrow> rt_mutex_owner l s;
     let s = rt_mutex_adjust_prio cur s;
     let p = rt_prio (rt_tasks s cur);
     let s = upd_waiter w (\<lambda>k. k\<lparr>w_task := Some cur, w_lock := l, w_prio := p, w_pi_prio := p\<rparr>) s;
     tw \<leftarrow> (if rt_mutex_has_waiters l s then rt_mutex_top_waiter l s else Some w);
     let s = wait_add w l s;
     let s = upd_task cur (\<lambda>k. k\<lparr>pi_blocked_on := Some w\<rparr>) s;
     tw' \<leftarrow> rt_mutex_top_waiter l s;
     let (walk, s) =
       (if w = tw' then
          let s = rt_mutex_adjust_prio owner (pi_add w owner (pi_del tw owner s))
          in (pi_blocked_on (rt_tasks s owner) \<noteq> None, s)
        else (True, s));
     if \<not> walk then Some (0, s)
     else rt_mutex_adjust_prio_chain owner dd (Some l) (Some w) cur (get_task owner s) }"

definition wakeup_next_waiter :: "nat \<Rightarrow> nat \<Rightarrow> rtm \<Rightarrow> (nat \<times> rtm) option" where
  "wakeup_next_waiter cur l s = do {
     w \<leftarrow> rt_mutex_top_waiter l s;
     let s = pi_del w cur (wait_del w l s);
     pendowner \<leftarrow> w_task (rt_waiters s w);
     let s = upd_waiter w (\<lambda>k. k\<lparr>w_task := None\<rparr>) s;
     let s = rt_mutex_set_owner l (Some pendowner) True s;
     let s = upd_task pendowner (\<lambda>k. k\<lparr>pi_blocked_on := None\<rparr>) s;
     s \<leftarrow> (if rt_mutex_has_waiters l s then do { nxt \<leftarrow> rt_mutex_top_waiter l s; Some (pi_add nxt pendowner s) } else Some s);
     Some (pendowner, s) }"

definition remove_waiter :: "nat \<Rightarrow> nat \<Rightarrow> nat \<Rightarrow> rtm \<Rightarrow> rtm option" where
  "remove_waiter cur l w s = do {
     tw \<leftarrow> rt_mutex_top_waiter l s;
     let owner = rt_mutex_owner l s;
     let s = wait_del w l s;
     let s = upd_waiter w (\<lambda>k. k\<lparr>w_task := None\<rparr>) s;
     let s = upd_task cur (\<lambda>k. k\<lparr>pi_blocked_on := None\<rparr>) s;
     if w = tw \<and> owner \<noteq> Some cur then do {
       owner \<leftarrow> owner;
       let s = pi_del w owner s;
       s \<leftarrow> (if rt_mutex_has_waiters l s then do { nxt \<leftarrow> rt_mutex_top_waiter l s; Some (pi_add nxt owner s) } else Some s);
       let s = rt_mutex_adjust_prio owner s;
       if pi_blocked_on (rt_tasks s owner) = None then Some s
       else map_option snd (rt_mutex_adjust_prio_chain owner False (Some l) None cur (get_task owner s)) }
     else Some s }"

definition rt_mutex_adjust_pi :: "nat \<Rightarrow> rtm \<Rightarrow> rtm option" where
  "rt_mutex_adjust_pi t s = (case pi_blocked_on (rt_tasks s t) of
     None \<Rightarrow> Some s
   | Some w \<Rightarrow> if w_prio (rt_waiters s w) = rt_prio (rt_tasks s t) then Some s
       else map_option snd (rt_mutex_adjust_prio_chain t False None None t (get_task t s)))"

subsection \<open>Locking and unlocking\<close>

datatype pass = Returns int | Sleeps | Again

text \<open>What follows the loop of \<^verbatim>\<open>rt_mutex_slowlock\<close>.\<close>

definition slowlock_end :: "nat \<Rightarrow> nat \<Rightarrow> nat \<Rightarrow> int \<Rightarrow> rtm \<Rightarrow> (pass \<times> rtm) option" where
  "slowlock_end cur l w ret s = do {
     s \<leftarrow> (if w_task (rt_waiters s w) \<noteq> None then remove_waiter cur l w s else Some s);
     let s = fixup_rt_mutex_waiters l s;
     Some (Returns ret, if ret \<noteq> 0 then rt_mutex_adjust_prio cur s else s) }"

text \<open>One pass of the loop, up to the call of \<^verbatim>\<open>schedule\<close> or the end.\<close>

definition slowlock_pass :: "nat \<Rightarrow> nat \<Rightarrow> nat \<Rightarrow> bool \<Rightarrow> bool \<Rightarrow> bool \<Rightarrow> bool \<Rightarrow> rtm \<Rightarrow> (pass \<times> rtm) option" where
  "slowlock_pass cur l w interruptible signal expired dd s = do {
     (ok, s) \<leftarrow> try_to_take_rt_mutex cur l s;
     if ok then slowlock_end cur l w 0 s
     else let ret = (if interruptible then if expired then - ETIMEDOUT else if signal then - EINTR else 0 else 0)
     in if ret \<noteq> 0 then slowlock_end cur l w ret s
     else if w_task (rt_waiters s w) = None then do {
       (ret, s) \<leftarrow> task_blocks_on_rt_mutex cur l w dd s;
       if w_task (rt_waiters s w) = None then Some (Again, s)
       else if ret \<noteq> 0 then slowlock_end cur l w ret s
       else Some (Sleeps, s) }
     else Some (Sleeps, s) }"

text \<open>\<^verbatim>\<open>rt_mutex_slowlock\<close> up to the first time it sleeps or returns.\<close>

definition rt_mutex_slowlock :: "nat \<Rightarrow> nat \<Rightarrow> nat \<Rightarrow> bool \<Rightarrow> bool \<Rightarrow> bool \<Rightarrow> bool \<Rightarrow> rtm \<Rightarrow> (pass \<times> rtm) option" where
  "rt_mutex_slowlock cur l w interruptible signal expired dd s = do {
     let s = upd_waiter w (\<lambda>k. k\<lparr>w_task := None\<rparr>) s;
     (ok, s) \<leftarrow> try_to_take_rt_mutex cur l s;
     if ok then Some (Returns 0, s) else slowlock_pass cur l w interruptible signal expired dd s }"

definition rt_mutex_slowtrylock :: "nat \<Rightarrow> nat \<Rightarrow> rtm \<Rightarrow> (bool \<times> rtm) option" where
  "rt_mutex_slowtrylock cur l s =
     (if rt_mutex_owner l s \<noteq> Some cur
      then do { (ret, s) \<leftarrow> try_to_take_rt_mutex cur l s; Some (ret, fixup_rt_mutex_waiters l s) }
      else Some (False, s))"

text \<open>The first component is the task that is woken.\<close>

definition rt_mutex_slowunlock :: "nat \<Rightarrow> nat \<Rightarrow> rtm \<Rightarrow> (nat option \<times> rtm) option" where
  "rt_mutex_slowunlock cur l s =
     (if \<not> rt_mutex_has_waiters l s
      then Some (None, upd_lock l (\<lambda>k. k\<lparr>lk_owner := None, lk_pending := False, lk_has_waiters := False\<rparr>) s)
      else do { (t, s) \<leftarrow> wakeup_next_waiter cur l s; Some (Some t, rt_mutex_adjust_prio cur s) })"

text \<open>Without a fast path the calls of the interface are these functions; a call that is not interruptible takes no
  notice of signals and timers.\<close>

definition rt_mutex_lock :: "nat \<Rightarrow> nat \<Rightarrow> nat \<Rightarrow> rtm \<Rightarrow> (pass \<times> rtm) option" where
  "rt_mutex_lock cur l w = rt_mutex_slowlock cur l w False False False False"

definition rt_mutex_lock_interruptible :: "nat \<Rightarrow> nat \<Rightarrow> nat \<Rightarrow> bool \<Rightarrow> bool \<Rightarrow> rtm \<Rightarrow> (pass \<times> rtm) option" where
  "rt_mutex_lock_interruptible cur l w signal dd = rt_mutex_slowlock cur l w True signal False dd"

definition rt_mutex_timed_lock :: "nat \<Rightarrow> nat \<Rightarrow> nat \<Rightarrow> bool \<Rightarrow> bool \<Rightarrow> bool \<Rightarrow> rtm \<Rightarrow> (pass \<times> rtm) option" where
  "rt_mutex_timed_lock cur l w signal expired dd = rt_mutex_slowlock cur l w True signal expired dd"

definition rt_mutex_trylock :: "nat \<Rightarrow> nat \<Rightarrow> rtm \<Rightarrow> (bool \<times> rtm) option" where
  "rt_mutex_trylock cur l s = rt_mutex_slowtrylock cur l s"

definition rt_mutex_unlock :: "nat \<Rightarrow> nat \<Rightarrow> rtm \<Rightarrow> (nat option \<times> rtm) option" where
  "rt_mutex_unlock cur l s = rt_mutex_slowunlock cur l s"

definition rt_mutex_init :: "nat \<Rightarrow> rtm \<Rightarrow> rtm" where
  "rt_mutex_init l s = upd_lock l (\<lambda>k. \<lparr>lk_owner = None, lk_pending = False, lk_has_waiters = False, wait_list = []\<rparr>) s"

definition rt_mutex_init_proxy_locked :: "nat \<Rightarrow> nat \<Rightarrow> rtm \<Rightarrow> rtm" where
  "rt_mutex_init_proxy_locked l proxy s = rt_mutex_set_owner l (Some proxy) False (rt_mutex_init l s)"

definition rt_mutex_proxy_unlock :: "nat \<Rightarrow> rtm \<Rightarrow> rtm" where
  "rt_mutex_proxy_unlock l s = rt_mutex_set_owner l None False s"

definition rt_mutex_next_owner :: "nat \<Rightarrow> rtm \<Rightarrow> nat option option" where
  "rt_mutex_next_owner l s = (if \<not> rt_mutex_has_waiters l s then Some None
     else map_option (\<lambda>w. w_task (rt_waiters s w)) (rt_mutex_top_waiter l s))"

definition rt_mutex_is_locked :: "nat \<Rightarrow> rtm \<Rightarrow> bool" where
  "rt_mutex_is_locked l s \<longleftrightarrow> lk_owner (rt_locks s l) \<noteq> None \<or> lk_pending (rt_locks s l) \<or> lk_has_waiters (rt_locks s l)"

text \<open>The part of \<^verbatim>\<open>sched_setscheduler\<close> that priorities pass through: the task's own priority, the one it has with
  what it inherits, and the walk.\<close>

definition set_normal_prio :: "nat \<Rightarrow> int \<Rightarrow> rtm \<Rightarrow> rtm option" where
  "set_normal_prio t p s =
     (let s = upd_task t (\<lambda>k. k\<lparr>rt_normal_prio := p\<rparr>) s;
          s = upd_task t (\<lambda>k. k\<lparr>rt_prio := rt_mutex_getprio t s\<rparr>) s
      in rt_mutex_adjust_pi t s)"

subsection \<open>The invariant\<close>

abbreviation wl :: "rtm \<Rightarrow> nat \<Rightarrow> nat list" where "wl s l \<equiv> wait_list (rt_locks s l)"
abbreviation own :: "rtm \<Rightarrow> nat \<Rightarrow> nat option" where "own s l \<equiv> lk_owner (rt_locks s l)"
abbreviation piw :: "rtm \<Rightarrow> nat \<Rightarrow> nat list" where "piw s t \<equiv> pi_waiters (rt_tasks s t)"
abbreviation blk :: "rtm \<Rightarrow> nat \<Rightarrow> nat option" where "blk s t \<equiv> pi_blocked_on (rt_tasks s t)"
abbreviation wtask :: "rtm \<Rightarrow> nat \<Rightarrow> nat option" where "wtask s w \<equiv> w_task (rt_waiters s w)"
abbreviation wlock :: "rtm \<Rightarrow> nat \<Rightarrow> nat" where "wlock s w \<equiv> w_lock (rt_waiters s w)"
abbreviation lprio :: "rtm \<Rightarrow> nat \<Rightarrow> int" where "lprio s w \<equiv> w_prio (rt_waiters s w)"
abbreviation pend :: "rtm \<Rightarrow> nat \<Rightarrow> bool" where "pend s l \<equiv> lk_pending (rt_locks s l)"
abbreviation piprio :: "rtm \<Rightarrow> nat \<Rightarrow> int" where "piprio s w \<equiv> w_pi_prio (rt_waiters s w)"

text \<open>Waiters and blocked tasks belong together; a lock somebody waits for has an owner; and the waiters a
  task inherits from are first in the queues of locks it owns. Queues are in the order of priorities.\<close>

definition waiters_ok :: "rtm \<Rightarrow> bool" where
  "waiters_ok s \<longleftrightarrow>
     (\<forall>l. distinct (wl s l) \<and> sorted (map (lprio s) (wl s l)) \<and> (wl s l \<noteq> [] \<longrightarrow> own s l \<noteq> None) \<and>
        (\<forall>w\<in>set (wl s l). wlock s w = l \<and> (\<exists>t. wtask s w = Some t \<and> blk s t = Some w))) \<and>
     (\<forall>t w. blk s t = Some w \<longrightarrow> wtask s w = Some t \<and> w \<in> set (wl s (wlock s w)))"

definition inherits_ok :: "rtm \<Rightarrow> bool" where
  "inherits_ok s \<longleftrightarrow> (\<forall>t. distinct (piw s t) \<and> sorted (map (piprio s) (piw s t)) \<and>
     (\<forall>w\<in>set (piw s t). own s (wlock s w) = Some t \<and> wl s (wlock s w) \<noteq> [] \<and> hd (wl s (wlock s w)) = w))"

definition rtm_ok :: "rtm \<Rightarrow> bool" where
  "rtm_ok s \<longleftrightarrow> waiters_ok s \<and> inherits_ok s \<and> (\<forall>l. lk_pending (rt_locks s l) \<longrightarrow> own s l \<noteq> None)"

subsection \<open>The queues in memory\<close>

text \<open>The list by priority at \<open>a\<close> has the nodes of a queue, each with the priority it was added with. A waiter is named by its node.\<close>

definition queue_in_memory :: "pheap \<Rightarrow> addr \<Rightarrow> (nat \<Rightarrow> int) \<Rightarrow> nat list \<Rightarrow> bool" where
  "queue_in_memory h a p ws \<longleftrightarrow> plist h a ws \<and> (\<forall>w\<in>set ws. node_prio h w = Some (p w))"

lemma queue_add_in_memory:
  assumes q: "queue_in_memory h a p ws" and w: "idle_node h w" "w \<notin> set (a # ws)" "node_prio h w = Some (p w)"
  shows "\<exists>h'. plist_add w a h = Some h' \<and> plist h' a (insert_prio p w ws)"
proof -
  have "insert_prio (the \<circ> node_prio h) w ws = insert_prio p w ws"
    by (rule insert_prio_cong) (use q w(3) in \<open>auto simp: queue_in_memory_def\<close>)
  then show ?thesis using pq.add_law[of h a ws w] q w(1,2) by (auto simp: queue_in_memory_def)
qed

lemma wait_list_in_memory:
  assumes q: "queue_in_memory h a (lprio s) (wl s l)"
  shows "idle_node h w \<Longrightarrow> w \<notin> set (a # wl s l) \<Longrightarrow> node_prio h w = Some (lprio s w) \<Longrightarrow>
      \<exists>h'. plist_add w a h = Some h' \<and> plist h' a (wl (wait_add w l s) l)"
    "w \<in> set (wl s l) \<Longrightarrow> \<exists>h'. plist_del w a h = Some h' \<and> plist h' a (wl (wait_del w l s) l)"
    "rt_mutex_top_waiter l s = Some w \<Longrightarrow> plist_first a h = Some w"
proof -
  have m: "plist h a (wl s l)" using q by (simp add: queue_in_memory_def)
  show "\<exists>h'. plist_add w a h = Some h' \<and> plist h' a (wl (wait_add w l s) l)"
    if "idle_node h w" "w \<notin> set (a # wl s l)" "node_prio h w = Some (lprio s w)"
    using queue_add_in_memory[OF q that] by (simp add: wait_add_def upd_lock_def)
  show "\<exists>h'. plist_del w a h = Some h' \<and> plist h' a (wl (wait_del w l s) l)" if "w \<in> set (wl s l)"
    using pq.del_keeps_order[OF m that] by (auto simp: wait_del_def upd_lock_def)
  show "plist_first a h = Some w" if "rt_mutex_top_waiter l s = Some w"
    using that m pq.first_law[of h a w] by (auto simp: rt_mutex_top_waiter_def split: list.splits if_splits)
qed

lemma pi_waiters_in_memory:
  assumes q: "queue_in_memory h a (piprio s) (piw s t)"
  shows "idle_node h w \<Longrightarrow> w \<notin> set (a # piw s t) \<Longrightarrow> node_prio h w = Some (piprio s w) \<Longrightarrow>
      \<exists>h'. plist_add w a h = Some h' \<and> plist h' a (piw (pi_add w t s) t)"
    "w \<in> set (piw s t) \<Longrightarrow> \<exists>h'. plist_del w a h = Some h' \<and> plist h' a (piw (pi_del w t s) t)"
    "task_top_pi_waiter t s = Some w \<Longrightarrow> plist_first a h = Some w"
    "idle_node h w \<Longrightarrow> w \<notin> set (piw s t) \<Longrightarrow> plist_del w a h = Some h \<and> piw (pi_del w t s) t = piw s t"
proof -
  have m: "plist h a (piw s t)" using q by (simp add: queue_in_memory_def)
  show "\<exists>h'. plist_add w a h = Some h' \<and> plist h' a (piw (pi_add w t s) t)"
    if "idle_node h w" "w \<notin> set (a # piw s t)" "node_prio h w = Some (piprio s w)"
    using queue_add_in_memory[OF q that] by (simp add: pi_add_def upd_task_def)
  show "\<exists>h'. plist_del w a h = Some h' \<and> plist h' a (piw (pi_del w t s) t)" if "w \<in> set (piw s t)"
    using pq.del_keeps_order[OF m that] by (auto simp: pi_del_def upd_task_def)
  show "plist_first a h = Some w" if "task_top_pi_waiter t s = Some w"
    using that m pq.first_law[of h a w] by (auto simp: task_top_pi_waiter_def split: list.splits)
  show "plist_del w a h = Some h \<and> piw (pi_del w t s) t = piw s t" if "idle_node h w" "w \<notin> set (piw s t)"
    using that by (simp add: plist_del_idle pi_del_def upd_task_def remove1_idem)
qed

end
