(* ===== verification/Rtmutex_Walk.thy ===== *)
theory Rtmutex_Walk
  imports Rtmutex
begin

text \<open>
  The walk along a chain of blocked tasks and owners of locks (\<open>rt_mutex_adjust_prio_chain\<close>) keeps the invariant of
  \<open>Rtmutex\<close>: it always ends, and changes no owner, no blocked task and no member of a queue.
\<close>

subsection \<open>What the operations leave alone\<close>

lemmas upd_defs = upd_task_def upd_lock_def upd_waiter_def

text \<open>Operations that change only priorities, counts and the bit for waiters.\<close>

definition same_queues :: "rtm \<Rightarrow> rtm \<Rightarrow> bool" where
  "same_queues s s' \<longleftrightarrow> rt_waiters s' = rt_waiters s \<and> (\<forall>l. wl s' l = wl s l \<and> own s' l = own s l \<and>
      lk_pending (rt_locks s' l) = lk_pending (rt_locks s l)) \<and>
     (\<forall>t. piw s' t = piw s t \<and> blk s' t = blk s t \<and> rt_normal_prio (rt_tasks s' t) = rt_normal_prio (rt_tasks s t))"

lemma same_queues_ok: "same_queues s s' \<Longrightarrow> rtm_ok s' = rtm_ok s"
  by (simp add: same_queues_def rtm_ok_def waiters_ok_def inherits_ok_def)

lemma same_queues_simps [simp]:
  "same_queues s (rt_mutex_adjust_prio t s)" "same_queues s (get_task t s)" "same_queues s (put_task t s)"
  "same_queues s (mark_rt_mutex_waiters l s)" "same_queues s (fixup_rt_mutex_waiters l s)"
  by (simp_all add: same_queues_def rt_mutex_adjust_prio_def rt_setprio_def get_task_def put_task_def mark_rt_mutex_waiters_def
      fixup_rt_mutex_waiters_def clear_rt_mutex_waiters_def upd_defs Let_def)

lemma same_queues_trans: "same_queues s s' \<Longrightarrow> same_queues s' s'' \<Longrightarrow> same_queues s s''"
  by (simp add: same_queues_def)

lemma same_queues_views:
  assumes "same_queues s s'"
  shows "wl s' l = wl s l" "own s' l = own s l" "piw s' t = piw s t" "blk s' t = blk s t" "rt_waiters s' = rt_waiters s"
    "lk_pending (rt_locks s' l) = lk_pending (rt_locks s l)"
  using assms by (simp_all add: same_queues_def)

lemmas view_simps [simp] = same_queues_simps[THEN same_queues_views(1)] same_queues_simps[THEN same_queues_views(2)]
  same_queues_simps[THEN same_queues_views(3)] same_queues_simps[THEN same_queues_views(4)]
  same_queues_simps[THEN same_queues_views(5)] same_queues_simps[THEN same_queues_views(6)]

lemmas ok_simps [simp] = same_queues_simps[THEN same_queues_ok]

lemma waiters_okD:
  assumes "waiters_ok s"
  shows "distinct (wl s l)" "sorted (map (lprio s) (wl s l))" "wl s l \<noteq> [] \<Longrightarrow> own s l \<noteq> None"
    "w \<in> set (wl s l) \<Longrightarrow> wlock s w = l \<and> (\<exists>t. wtask s w = Some t \<and> blk s t = Some w)"
    "blk s t = Some w \<Longrightarrow> wtask s w = Some t \<and> w \<in> set (wl s (wlock s w))"
  using assms unfolding waiters_ok_def by blast+

lemma inherits_okD:
  assumes "inherits_ok s"
  shows "distinct (piw s t)" "sorted (map (piprio s) (piw s t))"
    "w \<in> set (piw s t) \<Longrightarrow> own s (wlock s w) = Some t \<and> wl s (wlock s w) \<noteq> [] \<and> hd (wl s (wlock s w)) = w"
  using assms unfolding inherits_ok_def by blast+

lemma rt_mutex_top_waiter_ok: "waiters_ok s \<Longrightarrow> wl s l \<noteq> [] \<Longrightarrow> rt_mutex_top_waiter l s = Some (hd (wl s l))"
  using waiters_okD(4)[of s _ l] by (cases "wl s l") (auto simp: rt_mutex_top_waiter_def)

text \<open>When only the lock \<open>l\<close> changes, a task inherits from what it inherited through other locks and from the
  first waiter of \<open>l\<close>.\<close>

lemma relink:
  assumes i: "inherits_ok s"
    and fr: "\<And>k. k \<noteq> l \<Longrightarrow> wl s' k = wl s k \<and> own s' k = own s k"
    and lists: "\<And>t. distinct (piw s' t) \<and> sorted (map (piprio s') (piw s' t))"
    and mem: "\<And>t v. v \<in> set (piw s' t) \<Longrightarrow> (v \<in> set (piw s t) \<and> wlock s v \<noteq> l \<and> wlock s' v = wlock s v) \<or>
      (own s' l = Some t \<and> wlock s' v = l \<and> wl s' l \<noteq> [] \<and> v = hd (wl s' l))"
  shows "inherits_ok s'"
  unfolding inherits_ok_def
proof (intro allI conjI ballI)
  fix t v assume "v \<in> set (piw s' t)"
  from mem[OF this] inherits_okD(3)[OF i, of v t] fr[of "wlock s v"]
  show "own s' (wlock s' v) = Some t" "wl s' (wlock s' v) \<noteq> []" "hd (wl s' (wlock s' v)) = v" by auto
qed (use lists in auto)

text \<open>Where the nodes of the lock \<open>l\<close> are in these lists.\<close>

lemma from_lock: "inherits_ok s \<Longrightarrow> v \<in> set (piw s t) \<Longrightarrow> wlock s v = l \<Longrightarrow> own s l = Some t \<and> v = hd (wl s l)"
  using inherits_okD(3)[of s v t] by auto

lemma removed_top:
  assumes "inherits_ok s" "v \<in> set (remove1 (hd (wl s l)) (piw s t))"
  shows "v \<in> set (piw s t) \<and> wlock s v \<noteq> l"
proof -
  have "v \<noteq> hd (wl s l)" "v \<in> set (piw s t)" using assms inherits_okD(1)[OF assms(1), of t] by auto
  then show ?thesis using from_lock[OF assms(1), of v t l] by blast
qed

lemma sorted_insert_changed:
  assumes "sorted (map p xs)" "\<And>x. x \<in> set xs \<Longrightarrow> q x = p x"
  shows "sorted (map q (insert_prio q n xs))"
proof -
  have "map q xs = map p xs" using assms(2) by simp
  then have "sorted (map q xs)" using assms(1) by metis
  then show ?thesis by (rule insert_prio_sorted)
qed

lemma sorted_map_same: "\<forall>x\<in>set xs. q x = p x \<Longrightarrow> sorted (map p xs) \<Longrightarrow> sorted (map q xs)"
proof -
  assume "\<forall>x\<in>set xs. q x = p x" and s: "sorted (map p xs)"
  then have "map q xs = map p xs" by simp
  then show "sorted (map q xs)" using s by metis
qed

lemma sorted_insert_upd: "sorted (map p xs) \<Longrightarrow> n \<notin> set xs \<Longrightarrow> sorted (map (p(n := v)) (insert_prio (p(n := v)) n xs))"
  by (rule sorted_insert_changed[of p]) auto

subsection \<open>The walk keeps the invariant\<close>

definition same_places :: "rtm \<Rightarrow> rtm \<Rightarrow> bool" where
  "same_places s s' \<longleftrightarrow> (\<forall>l. own s' l = own s l \<and> lk_pending (rt_locks s' l) = lk_pending (rt_locks s l) \<and> set (wl s' l) = set (wl s l)) \<and>
     (\<forall>t. blk s' t = blk s t) \<and> (\<forall>w. wtask s' w = wtask s w \<and> wlock s' w = wlock s w)"

lemma same_places_trans: "same_places s s' \<Longrightarrow> same_places s' s'' \<Longrightarrow> same_places s s''"
  by (simp add: same_places_def)

lemma same_queues_places: "same_queues s s' \<Longrightarrow> same_places s s'"
  by (simp add: same_queues_def same_places_def)

text \<open>The waiter is queued again in its lock.\<close>

definition requeue :: "nat \<Rightarrow> nat \<Rightarrow> nat \<Rightarrow> rtm \<Rightarrow> rtm" where
  "requeue t w l s = wait_add w l (upd_waiter w (\<lambda>k. k\<lparr>w_prio := rt_prio (rt_tasks s t)\<rparr>) (wait_del w l s))"

lemma requeue_views:
  "wl (requeue t w l s) k = (if k = l then insert_prio ((lprio s)(w := rt_prio (rt_tasks s t))) w (remove1 w (wl s l)) else wl s k)"
  "lprio (requeue t w l s) = (lprio s)(w := rt_prio (rt_tasks s t))" "piprio (requeue t w l s) v = piprio s v"
  "own (requeue t w l s) k = own s k" "lk_pending (rt_locks (requeue t w l s) k) = lk_pending (rt_locks s k)"
  "rt_tasks (requeue t w l s) = rt_tasks s" "wtask (requeue t w l s) v = wtask s v" "wlock (requeue t w l s) v = wlock s v"
  by (auto simp: requeue_def wait_add_def wait_del_def upd_defs intro!: insert_prio_cong)

lemma requeue_prio: "lprio (requeue t w l s) v = (if v = w then rt_prio (rt_tasks s t) else lprio s v)"
  by (simp add: requeue_def wait_add_def wait_del_def upd_defs)

lemma requeue_ok:
  assumes o: "waiters_ok s" and w: "w \<in> set (wl s l)"
  shows "waiters_ok (requeue t w l s)" "set (wl (requeue t w l s) k) = set (wl s k)"
proof -
  let ?s = "requeue t w l s"
  show st: "set (wl ?s k) = set (wl s k)" for k
    using w waiters_okD(1)[OF o, of l] by (auto simp: requeue_views insert_prio_set)
  have "distinct (wl ?s k)" "sorted (map (lprio ?s) (wl ?s k))" for k
  proof -
    have r: "w \<notin> set (remove1 w (wl s l))" using waiters_okD(1)[OF o, of l] by simp
    show "distinct (wl ?s k)" using waiters_okD(1)[OF o] r by (simp add: requeue_views insert_prio_distinct)
    show "sorted (map (lprio ?s) (wl ?s k))"
    proof (cases "k = l")
      case True
      have "sorted (map (lprio s) (remove1 w (wl s l)))" by (rule sorted_map_remove1) (rule waiters_okD(2)[OF o])
      from sorted_insert_upd[OF this r, of "rt_prio (rt_tasks s t)"] show ?thesis unfolding requeue_views True by simp
    next
      case False
      then have "w \<notin> set (wl s k)" using waiters_okD(4)[OF o] w by blast
      then have "\<forall>x\<in>set (wl s k). lprio ?s x = lprio s x" by (auto simp: requeue_prio)
      from sorted_map_same[OF this waiters_okD(2)[OF o]] show ?thesis using False by (simp add: requeue_views(1))
    qed
  qed
  moreover have "wl ?s k \<noteq> [] \<Longrightarrow> own ?s k \<noteq> None" for k
    using st[of k] waiters_okD(3)[OF o, of k] by (simp add: requeue_views(4) flip: set_empty2)
  moreover have "wlock ?s v = k \<and> (\<exists>t. wtask ?s v = Some t \<and> blk ?s t = Some v)" if "v \<in> set (wl ?s k)" for v k
    using that waiters_okD(4)[OF o, of v k] unfolding st by (simp add: requeue_views)
  moreover have "wtask ?s v = Some u \<and> v \<in> set (wl ?s (wlock ?s v))" if "blk ?s u = Some v" for u v
    using that waiters_okD(5)[OF o, of u v] unfolding st by (simp add: requeue_views)
  ultimately show "waiters_ok ?s" unfolding waiters_ok_def by blast
qed

text \<open>The list of the owner follows its lock: the old first waiter \<open>u\<close> goes, the new one \<open>v\<close> comes with its priority.\<close>

definition follow :: "nat \<Rightarrow> nat \<Rightarrow> nat \<Rightarrow> rtm \<Rightarrow> rtm" where
  "follow u v t s = pi_add v t (upd_waiter v (\<lambda>k. k\<lparr>w_pi_prio := w_prio k\<rparr>) (pi_del u t s))"

lemma follow_views:
  "wl (follow u v t s) l = wl s l" "own (follow u v t s) l = own s l" "lk_pending (rt_locks (follow u v t s) l) = lk_pending (rt_locks s l)"
  "lprio (follow u v t s) x = lprio s x" "piprio (follow u v t s) = (piprio s)(v := lprio s v)"
  "blk (follow u v t s) r = blk s r" "wtask (follow u v t s) x = wtask s x" "wlock (follow u v t s) x = wlock s x"
  "piw (follow u v t s) r = (if r = t then insert_prio ((piprio s)(v := lprio s v)) v (remove1 u (piw s t)) else piw s r)"
  by (auto simp: follow_def pi_add_def pi_del_def upd_defs intro!: insert_prio_cong)

lemma follow_prio: "piprio (follow u v t s) x = (if x = v then lprio s v else piprio s x)"
  by (simp add: follow_def pi_add_def pi_del_def upd_defs)

lemma waiters_ok_cong:
  assumes "\<And>l. wl s' l = wl s l" "\<And>l. own s' l = own s l" "\<And>x. lprio s' x = lprio s x" "\<And>x. wlock s' x = wlock s x"
    "\<And>x. wtask s' x = wtask s x" "\<And>t. blk s' t = blk s t"
  shows "waiters_ok s' = waiters_ok s"
  unfolding waiters_ok_def assms ..

lemma follow_ok:
  assumes i: "inherits_ok s0" and w: "waiters_ok s"
    and same: "\<And>r. piw s r = piw s0 r" "\<And>x. piprio s x = piprio s0 x" "\<And>x. wlock s x = wlock s0 x" "\<And>k. own s k = own s0 k"
    and fr: "\<And>k. k \<noteq> l \<Longrightarrow> wl s k = wl s0 k" and o: "own s l = Some t" and ne: "wl s l \<noteq> []"
    and u: "wl s0 l \<noteq> [] \<Longrightarrow> u = hd (wl s0 l)"
  shows "inherits_ok (follow u (hd (wl s l)) t s)"
proof (rule relink[OF i, of l])
  let ?v = "hd (wl s l)"
  let ?s = "follow u ?v t s"
  have v: "wlock s ?v = l" using waiters_okD(4)[OF w, of ?v l] ne by simp
  have rem: "x \<in> set (piw s0 r) \<and> wlock s0 x \<noteq> l" if "x \<in> set (remove1 u (piw s0 r))" for x r
  proof (cases "wl s0 l = []")
    case True
    then show ?thesis using inherits_okD(3)[OF i, of x r] notin_set_remove1[of x "piw s0 r" u] that by auto
  qed (use removed_top[OF i, of x l r] u that in auto)
  have notin: "?v \<notin> set (remove1 u (piw s0 r))" for r using rem[of ?v r] v same(3) by auto
  have other: "x \<in> set (piw s0 r) \<Longrightarrow> r \<noteq> t \<Longrightarrow> wlock s0 x \<noteq> l" for x r using from_lock[OF i] o same(4) by fastforce
  show "distinct (piw ?s r) \<and> sorted (map (piprio ?s) (piw ?s r))" for r
  proof (cases "r = t")
    case True
    have "sorted (map (piprio s) (remove1 u (piw s0 t)))"
      unfolding same(2) by (rule sorted_map_remove1) (rule inherits_okD(2)[OF i])
    from sorted_insert_upd[OF this notin, of "lprio s ?v"]
    have "sorted (map (piprio ?s) (piw ?s r))" unfolding follow_views same(1) True by simp
    then show ?thesis using True notin[of t] inherits_okD(1)[OF i, of t] by (simp add: follow_views(9) same(1) insert_prio_distinct)
  next
    case False
    have "x \<noteq> ?v" if "x \<in> set (piw s0 r)" for x using other[OF that False] v same(3) by auto
    then have "\<forall>x\<in>set (piw s0 r). piprio ?s x = piprio s0 x" by (auto simp: follow_prio same)
    from sorted_map_same[OF this inherits_okD(2)[OF i]]
    show ?thesis using False inherits_okD(1)[OF i, of r] by (simp add: follow_views(9) same(1))
  qed
  show "(x \<in> set (piw s0 r) \<and> wlock s0 x \<noteq> l \<and> wlock ?s x = wlock s0 x) \<or>
      (own ?s l = Some r \<and> wlock ?s x = l \<and> wl ?s l \<noteq> [] \<and> x = hd (wl ?s l))" if "x \<in> set (piw ?s r)" for r x
    using that other[of x r] rem[of x t] v o ne
    by (auto simp: follow_views insert_prio_set same split: if_splits)
qed (use fr same in \<open>auto simp: follow_views\<close>)

lemma chain_requeue_eq:
  "chain_requeue t w l s = do {
     tw \<leftarrow> rt_mutex_top_waiter l s;
     owner \<leftarrow> own s l;
     let g = get_task owner (put_task t (requeue t w l s));
     tw' \<leftarrow> rt_mutex_top_waiter l g;
     Some (if w = tw' then (owner, w, rt_mutex_adjust_prio owner (follow tw w owner g))
       else if tw = w then (owner, tw', rt_mutex_adjust_prio owner (follow w tw' owner g)) else (owner, w, g)) }"
proof -
  have t: "rt_tasks (wait_del w l s) = rt_tasks s" by (simp add: wait_del_def upd_defs)
  have o: "rt_mutex_owner l (put_task t (requeue t w l s)) = own s l" by (simp add: rt_mutex_owner_def requeue_views)
  have "requeue t w l s = wait_add w l (upd_waiter w (\<lambda>k. k\<lparr>w_prio := rt_prio (rt_tasks (wait_del w l s) t)\<rparr>) (wait_del w l s))"
    unfolding t by (rule requeue_def)
  note r = this[symmetric]
  show ?thesis unfolding chain_requeue_def Let_def r o follow_def by (simp cong: if_cong split: Option.bind_split)
qed

lemma chain_requeue_ok:
  assumes ok: "rtm_ok s" and b: "blk s t = Some w" and l: "l = wlock s w"
  shows "\<exists>t' w' s'. chain_requeue t w l s = Some (t', w', s') \<and> own s l = Some t' \<and> rtm_ok s' \<and> same_places s s' \<and> w' \<in> set (wl s l)"
proof -
  have W: "waiters_ok s" and I: "inherits_ok s" and P: "\<And>k. lk_pending (rt_locks s k) \<Longrightarrow> own s k \<noteq> None" using ok by (auto simp: rtm_ok_def)
  have w: "w \<in> set (wl s l)" using waiters_okD(5)[OF W b] l by simp
  then have ne: "wl s l \<noteq> []" by auto
  then obtain t' where t': "own s l = Some t'" using waiters_okD(3)[OF W] by blast
  let ?r = "requeue t w l s" and ?u = "hd (wl s l)"
  define g where "g = get_task t' (put_task t ?r)"
  let ?v = "hd (wl ?r l)"
  have R: "waiters_ok ?r" "\<And>k. set (wl ?r k) = set (wl s k)" using requeue_ok[OF W w] by auto
  have g: "same_queues ?r g" unfolding g_def by (rule same_queues_trans[of _ "put_task t ?r"]) simp_all
  note gv = same_queues_views[OF g]
  have Wg: "waiters_ok g" using R(1) g by (simp add: waiters_ok_def same_queues_def)
  have neg: "wl g l \<noteq> []" unfolding gv by (simp add: requeue_views)
  have hv: "hd (wl g l) = ?v" by (simp add: gv)
  have run: "chain_requeue t w l s = Some (if w = ?v then (t', w, rt_mutex_adjust_prio t' (follow ?u w t' g))
      else if ?u = w then (t', ?v, rt_mutex_adjust_prio t' (follow w ?v t' g)) else (t', w, g))"
    using rt_mutex_top_waiter_ok[OF W ne] rt_mutex_top_waiter_ok[OF Wg neg] t'
    by (simp add: chain_requeue_eq Let_def hv flip: g_def)
  have Fi: "inherits_ok (follow ?u ?v t' g)"
  proof (subst hv[symmetric], rule follow_ok[OF I Wg])
    show "piw g r = piw s r" "piprio g x = piprio s x" "wlock g x = wlock s x" "own g k = own s k" for r x k
      by (simp_all add: gv requeue_views)
    show "k \<noteq> l \<Longrightarrow> wl g k = wl s k" for k by (simp add: gv requeue_views(1))
    show "own g l = Some t'" by (simp add: gv requeue_views t')
  qed (use neg in simp_all)
  have Fw: "waiters_ok (follow a b t' g)" for a b using Wg waiters_ok_cong[of "follow a b t' g" g] by (simp add: follow_views)
  have places: "same_places s g" "same_places s (follow a b t' g)" for a b
    using R(2) by (simp_all add: same_places_def follow_views gv) (simp_all add: requeue_views(4-8))
  have pend: "lk_pending (rt_locks g k) = lk_pending (rt_locks s k)" for k by (simp add: gv requeue_views)
  have ng: "own g k = own s k" for k by (simp add: gv requeue_views)
  have okf: "rtm_ok (follow ?u ?v t' g)" using Fi Fw P by (simp add: rtm_ok_def follow_views pend ng)
  have okg: "rtm_ok g" if "w \<noteq> ?v" "?u \<noteq> w"
  proof -
    have "?v = hd (remove1 w (wl s l))" using that(1) by (auto simp: requeue_views insert_prio_hd split: if_splits)
    then have "hd (wl g l) = ?u" using hv that(2) by (cases "wl s l") auto
    then have h: "hd (wl g k) = hd (wl s k)" for k by (cases "k = l") (simp_all add: gv requeue_views(1))
    have e: "wl g k = [] \<longleftrightarrow> wl s k = []" for k using R(2)[of k] by (simp add: gv flip: set_empty2)
    have "inherits_ok g" using I unfolding inherits_ok_def h e by (simp add: gv requeue_views)
    then show ?thesis using Wg P by (simp add: rtm_ok_def pend ng)
  qed
  have v: "?v \<in> set (wl s l)" using R(2)[of l] hd_in_set[OF neg] hv by (simp add: gv)
  show ?thesis
  proof (cases "w = ?v \<or> ?u = w")
    case True
    then have "\<exists>w'. chain_requeue t w l s = Some (t', w', rt_mutex_adjust_prio t' (follow ?u ?v t' g)) \<and> w' \<in> set (wl s l)"
      using run w v by (auto split: if_splits)
    moreover have "same_places s (rt_mutex_adjust_prio t' (follow ?u ?v t' g))"
      by (rule same_places_trans[OF places(2)[of ?u ?v]]) (rule same_queues_places, simp)
    ultimately show ?thesis using okf t' by auto
  next
    case False
    then show ?thesis using run okg places(1) t' w by auto
  qed
qed

lemma put_task_places: "rtm_ok s \<Longrightarrow> rtm_ok (put_task t s) \<and> same_places s (put_task t s)"
  by (simp add: same_queues_places)

definition walk_ends :: "rtm \<Rightarrow> bool \<Rightarrow> (int \<times> rtm) option \<Rightarrow> bool" where
  "walk_ends s dd x \<longleftrightarrow> (\<exists>r s'. x = Some (r, s') \<and> rtm_ok s' \<and> same_places s s' \<and> (r = 0 \<or> dd \<and> r = - EDEADLK))"

lemma walk_ends_put: "rtm_ok s \<Longrightarrow> walk_ends s dd (Some (0, put_task t s))" "rtm_ok s \<Longrightarrow> walk_ends s True (Some (- EDEADLK, put_task t s))"
  using put_task_places[of s t] by (simp_all add: walk_ends_def)

lemma walk_ends_trans: "same_places s s1 \<Longrightarrow> walk_ends s1 dd x \<Longrightarrow> walk_ends s dd x"
  unfolding walk_ends_def using same_places_trans by blast

lemma adjust_prio_chain_ok: "rtm_ok s \<Longrightarrow> walk_ends s dd (adjust_prio_chain n t tw dd orig_lock orig_waiter tt s)"
proof (induction n arbitrary: t tw s)
  case 0
  then show ?case by (cases dd) (simp_all add: walk_ends_put)
next
  case (Suc n)
  show ?case
  proof (cases "blk s t")
    case None
    then show ?thesis using Suc.prems by (simp add: Let_def walk_ends_put)
  next
    case (Some w)
    let ?l = "wlock s w"
    obtain t' w' s1 where s1: "chain_requeue t w ?l s = Some (t', w', s1)" "rtm_ok s1" "same_places s s1" "w' \<in> set (wl s ?l)"
      using chain_requeue_ok[OF Suc.prems Some refl] by blast
    have "set (wl s1 ?l) \<noteq> {}" using s1(3,4) by (auto simp: same_places_def)
    then have tw': "rt_mutex_top_waiter ?l s1 = Some (hd (wl s1 ?l))" using s1(2) rt_mutex_top_waiter_ok by (simp add: rtm_ok_def)
    have go: "walk_ends s dd (adjust_prio_chain n t' (Some (hd (wl s1 ?l))) dd orig_lock orig_waiter tt s1)"
      "walk_ends s dd (Some (0, put_task t' s1))" using walk_ends_trans[OF s1(3)] Suc.IH s1(2) walk_ends_put(1) by auto
    show ?thesis unfolding adjust_prio_chain.simps Let_def Some s1(1) option.case prod.case tw'
      using go walk_ends_put[OF Suc.prems] by (cases dd) simp_all
  qed
qed

lemma walk_ok: "rtm_ok s \<Longrightarrow> walk_ends s dd (rt_mutex_adjust_prio_chain t dd orig_lock orig_waiter tt s)"
  unfolding rt_mutex_adjust_prio_chain_def by (rule adjust_prio_chain_ok)

end
