(* ===== verification/Rtmutex_Ops.thy ===== *)
theory Rtmutex_Ops
  imports Rtmutex_Walk
begin

text \<open>
  Taking and stealing a lock, joining and leaving its queue, handing it over, and changing a priority: each of these
  operations returns, keeps the invariant, and changes owners and queues in the way stated here. The passes of
  \<open>rt_mutex_slowlock\<close> are put together from them.
\<close>

subsection \<open>Taking a lock\<close>

text \<open>Changing the owner of a lock: the lists of the old and the new owner follow.\<close>

lemma pi_views:
  "wl (pi_del w t s) l = wl s l" "own (pi_del w t s) l = own s l" "rt_waiters (pi_del w t s) = rt_waiters s"
  "blk (pi_del w t s) r = blk s r" "piw (pi_del w t s) r = (if r = t then remove1 w (piw s t) else piw s r)"
  "lk_pending (rt_locks (pi_del w t s) l) = lk_pending (rt_locks s l)"
  "wl (pi_add w t s) l = wl s l" "own (pi_add w t s) l = own s l" "rt_waiters (pi_add w t s) = rt_waiters s"
  "blk (pi_add w t s) r = blk s r" "piw (pi_add w t s) r = (if r = t then insert_prio (piprio s) w (piw s t) else piw s r)"
  "lk_pending (rt_locks (pi_add w t s) l) = lk_pending (rt_locks s l)"
  by (simp_all add: pi_del_def pi_add_def upd_defs)

lemma owner_views:
  "wl (rt_mutex_set_owner k t p s) l = wl s l" "own (rt_mutex_set_owner k t p s) l = (if l = k then t else own s l)"
  "rt_waiters (rt_mutex_set_owner k t p s) = rt_waiters s" "rt_tasks (rt_mutex_set_owner k t p s) = rt_tasks s"
  "lk_pending (rt_locks (rt_mutex_set_owner k t p s) l) = (if l = k then p else lk_pending (rt_locks s l))"
  by (simp_all add: rt_mutex_set_owner_def upd_defs)

lemma list_removed: "inherits_ok s \<Longrightarrow> distinct (remove1 w (piw s t)) \<and> sorted (map (piprio s) (remove1 w (piw s t)))"
  using inherits_okD(1,2)[of s t] by (simp add: sorted_map_remove1)

lemma list_inserted:
  "distinct xs \<Longrightarrow> sorted (map p xs) \<Longrightarrow> w \<notin> set xs \<Longrightarrow> distinct (insert_prio p w xs) \<and> sorted (map p (insert_prio p w xs))"
  by (simp add: insert_prio_distinct insert_prio_sorted)

text \<open>A lock changes hands or loses its first waiter \<open>w\<close>: the old owner no longer inherits from \<open>w\<close>, and the new one inherits from the
  waiter that is first now, or from none.\<close>

lemma passed_on:
  assumes I: "inherits_ok s" and o: "own s l = Some old" and w: "w = hd (wl s l)"
    and fr: "\<And>k. k \<noteq> l \<Longrightarrow> wl s' k = wl s k \<and> own s' k = own s k" "\<And>x. wlock s' x = wlock s x" "\<And>x. piprio s' x = piprio s x"
    and piw: "\<And>r. piw s' r = (if r = new \<and> c then insert_prio (piprio s) (hd (wl s' l)) (if r = old then remove1 w (piw s old) else piw s r)
      else if r = old then remove1 w (piw s old) else piw s r)"
    and n: "c \<Longrightarrow> own s' l = Some new \<and> wl s' l \<noteq> [] \<and> wlock s (hd (wl s' l)) = l"
  shows "inherits_ok s'"
proof (rule relink[OF I, of l])
  let ?b = "\<lambda>r. if r = old then remove1 w (piw s old) else piw s r"
  have b: "x \<in> set (piw s r) \<and> wlock s x \<noteq> l" if "x \<in> set (?b r)" for x r
  proof (cases "r = old")
    case True
    then show ?thesis using that removed_top[OF I, of x l old] w by simp
  next
    case False
    then show ?thesis using that from_lock[OF I, of x r l] o by auto
  qed
  have l: "distinct (?b r) \<and> sorted (map (piprio s) (?b r))" for r using list_removed[OF I, of w old] inherits_okD(1,2)[OF I, of r] by simp
  show "distinct (piw s' r) \<and> sorted (map (piprio s') (piw s' r))" for r
  proof (cases "r = new \<and> c")
    case True
    then have "hd (wl s' l) \<notin> set (?b r)" using b[of "hd (wl s' l)" r] n by blast
    with True l[of r] show ?thesis unfolding piw fr(3) using list_inserted by simp
  next
    case False
    then show ?thesis using l[of r] by (simp only: piw fr(3) if_False)
  qed
  show "(x \<in> set (piw s r) \<and> wlock s x \<noteq> l \<and> wlock s' x = wlock s x) \<or>
      (own s' l = Some r \<and> wlock s' x = l \<and> wl s' l \<noteq> [] \<and> x = hd (wl s' l))" if "x \<in> set (piw s' r)" for r x
  proof (cases "x \<in> set (?b r)")
    case True
    then show ?thesis using b[OF True] fr(2) by blast
  next
    case False
    then have "r = new" "c" "x = hd (wl s' l)" using that by (auto simp: piw insert_prio_set split: if_splits)
    then show ?thesis using n fr(2) by simp
  qed
qed (use fr in auto)

text \<open>Nobody inherits through a lock without waiters.\<close>

lemma unqueued_inherits:
  assumes I: "inherits_ok s" and e: "wl s l = []"
    and fr: "\<And>k. wl s' k = wl s k" "\<And>k. k \<noteq> l \<Longrightarrow> own s' k = own s k" "\<And>r. piw s' r = piw s r" "rt_waiters s' = rt_waiters s"
  shows "inherits_ok s'"
proof (rule relink[OF I, of l])
  show "(x \<in> set (piw s t) \<and> wlock s x \<noteq> l \<and> wlock s' x = wlock s x) \<or> (own s' l = Some t \<and> wlock s' x = l \<and> wl s' l \<noteq> [] \<and> x = hd (wl s' l))"
    if "x \<in> set (piw s' t)" for t x using that inherits_okD(3)[OF I, of x t] e by (auto simp: fr)
qed (use inherits_okD(1,2)[OF I] in \<open>simp_all add: fr\<close>)

text \<open>What stays when a task takes a lock: queues and blocked tasks, and all of the other locks.\<close>

definition only_owner :: "nat \<Rightarrow> rtm \<Rightarrow> rtm \<Rightarrow> bool" where
  "only_owner l s s' \<longleftrightarrow> rt_waiters s' = rt_waiters s \<and> (\<forall>k. wl s' k = wl s k) \<and> (\<forall>t. blk s' t = blk s t) \<and>
     (\<forall>k. k \<noteq> l \<longrightarrow> own s' k = own s k \<and> lk_pending (rt_locks s' k) = lk_pending (rt_locks s k))"

lemma only_owner_ok:
  assumes ok: "rtm_ok s" and o: "only_owner l s s'" and t: "own s' l = Some t" and i: "inherits_ok s'"
  shows "rtm_ok s'"
proof -
  have W: "waiters_ok s" using ok by (simp add: rtm_ok_def)
  have e: "wl s' k = wl s k" "rt_waiters s' = rt_waiters s" "blk s' r = blk s r" for k r using o by (auto simp: only_owner_def)
  have "own s' k \<noteq> None" if "wl s k \<noteq> []" for k using that waiters_okD(3)[OF W, of k] o t by (cases "k = l") (auto simp: only_owner_def)
  then have "waiters_ok s'" using W unfolding waiters_ok_def e by blast
  moreover have "own s' k \<noteq> None" if "lk_pending (rt_locks s' k)" for k
    using that ok o t unfolding rtm_ok_def only_owner_def by (cases "k = l") auto
  ultimately show ?thesis using i by (auto simp: rtm_ok_def)
qed

lemma steal_ok:
  assumes ok: "rtm_ok s" and p: "lk_pending (rt_locks s l)" and o: "own s l = Some po" "po \<noteq> cur"
    and lt: "rt_prio (rt_tasks s cur) < rt_prio (rt_tasks s po)"
  shows "\<exists>s'. try_to_steal_lock cur l s = Some (True, s') \<and> only_owner l s (rt_mutex_set_owner l (Some cur) False s') \<and>
    inherits_ok (rt_mutex_set_owner l (Some cur) False s') \<and> (\<forall>w. wtask s w = Some cur \<longrightarrow> w \<in> set (wl s l) \<longrightarrow> w \<notin> set (piw s' cur))"
proof -
  have W: "waiters_ok s" and I: "inherits_ok s" using ok by (auto simp: rtm_ok_def)
  have cl: "x \<in> set (piw s r) \<Longrightarrow> r \<noteq> po \<Longrightarrow> wlock s x \<noteq> l" for x r using from_lock[OF I] o(1) by fastforce
  have start: "try_to_steal_lock cur l s = (if wl s l = [] then Some (True, s) else do {
      nxt \<leftarrow> rt_mutex_top_waiter l s;
      let s = rt_mutex_adjust_prio po (pi_del nxt po s);
      if w_task (rt_waiters s nxt) \<noteq> Some cur then Some (True, rt_mutex_adjust_prio cur (pi_add nxt cur s)) else Some (True, s) })"
    using p o lt by (simp add: try_to_steal_lock_def rt_mutex_owner_pending_def rt_mutex_owner_def rt_mutex_has_waiters_def)
  show ?thesis
  proof (cases "wl s l = []")
    case True
    have "inherits_ok (rt_mutex_set_owner l (Some cur) False s)" by (rule unqueued_inherits[OF I True]) (simp_all add: owner_views)
    then show ?thesis using True start by (simp add: only_owner_def owner_views)
  next
    case False
    let ?n = "hd (wl s l)"
    have nl: "wlock s ?n = l" using waiters_okD(4)[OF W] False by simp
    define s1 where "s1 = rt_mutex_adjust_prio po (pi_del ?n po s)"
    define s2 where "s2 = (if wtask s ?n \<noteq> Some cur then rt_mutex_adjust_prio cur (pi_add ?n cur s1) else s1)"
    have w1: "rt_waiters s1 = rt_waiters s" by (simp add: s1_def pi_views)
    have v1: "piw s1 r = (if r = po then remove1 ?n (piw s po) else piw s r)" for r by (simp add: s1_def pi_views)
    have v2: "piw s2 r = (if r = cur \<and> wtask s ?n \<noteq> Some cur then insert_prio (piprio s) ?n (piw s cur) else piw s1 r)" for r
      using o(2) by (simp add: s2_def pi_views w1 v1)
    have o2: "rt_waiters s2 = rt_waiters s" "wl s2 k = wl s k" "own s2 k = own s k" "blk s2 r = blk s r"
        "lk_pending (rt_locks s2 k) = lk_pending (rt_locks s k)" for k r
      by (simp_all add: s2_def s1_def pi_views)
    have run: "try_to_steal_lock cur l s = Some (True, s2)"
      using start False rt_mutex_top_waiter_ok[OF W False] by (simp add: Let_def s2_def w1 pi_views flip: s1_def)
    let ?s = "rt_mutex_set_owner l (Some cur) False s2"
    have "inherits_ok ?s"
      by (rule passed_on[OF I o(1) refl, where new = cur and c = "wtask s ?n \<noteq> Some cur"])
        (use o(2) False nl in \<open>auto simp: owner_views o2 v2 v1\<close>)
    moreover have "w \<notin> set (piw s2 cur)" if "wtask s w = Some cur" "w \<in> set (wl s l)" for w
      using cl[of w cur] waiters_okD(4)[OF W that(2)] that(1) o(2) by (auto simp: v2 v1 insert_prio_set split: if_splits)
    ultimately show ?thesis using run by (simp add: only_owner_def owner_views o2)
  qed
qed

text \<open>Taking succeeds for a lock without an owner or with one that has not taken it yet, and then the task is
  the owner; otherwise only the bit for waiters is set.\<close>

definition took :: "nat \<Rightarrow> nat \<Rightarrow> bool \<Rightarrow> rtm \<Rightarrow> rtm \<Rightarrow> bool" where
  "took cur l b s s' \<longleftrightarrow> only_owner l s s' \<and>
    (if b then own s' l = Some cur \<and> \<not> pend s' l \<and> (own s l = None \<or> pend s l) \<and>
        (\<forall>w. wtask s w = Some cur \<longrightarrow> w \<in> set (wl s l) \<longrightarrow> w \<notin> set (piw s' cur))
     else same_queues s s' \<and> own s l \<noteq> None \<and> (pend s l \<longrightarrow> own s l \<noteq> Some cur))"

lemma try_to_take_ok:
  assumes ok: "rtm_ok s" and pd: "pend s l \<Longrightarrow> own s l = Some cur \<Longrightarrow> blk s cur = None"
  shows "\<exists>b s'. try_to_take_rt_mutex cur l s = Some (b, s') \<and> rtm_ok s' \<and> took cur l b s s'"
proof -
  define m where "m = mark_rt_mutex_waiters l s"
  have mq: "same_queues s m" and okm: "rtm_ok m" using ok by (simp_all add: m_def)
  have W: "waiters_ok m" and I: "inherits_ok m" using okm by (auto simp: rtm_ok_def)
  note mv = same_queues_views[OF mq]
  have mo: "only_owner l s s'" if "only_owner l m s'" for s' using that by (simp add: only_owner_def mv)
  have run: "try_to_take_rt_mutex cur l s = (if own s l = None then Some (True, rt_mutex_set_owner l (Some cur) False m)
      else do { (ok, s) \<leftarrow> try_to_steal_lock cur l m;
        if \<not> ok then Some (False, s) else Some (True, rt_mutex_set_owner l (Some cur) False s) })"
    by (simp add: try_to_take_rt_mutex_def Let_def rt_mutex_owner_def mv flip: m_def)
  let ?s = "\<lambda>x. rt_mutex_set_owner l (Some cur) False x"
  consider (free) "own s l = None" | (held) t where "own s l = Some t" "\<not> lk_pending (rt_locks s l)"
    | (mine) "own s l = Some cur" "lk_pending (rt_locks s l)"
    | (urgent) t where "own s l = Some t" "t \<noteq> cur" "lk_pending (rt_locks s l)" "rt_prio (rt_tasks m cur) < rt_prio (rt_tasks m t)"
    | (less) t where "own s l = Some t" "t \<noteq> cur" "lk_pending (rt_locks s l)" "rt_prio (rt_tasks m cur) \<ge> rt_prio (rt_tasks m t)"
    by (metis not_le option.exhaust)
  then show ?thesis
  proof cases
    case free
    then have e: "wl m l = []" using waiters_okD(3)[OF W, of l] by (auto simp: mv)
    have i: "inherits_ok (?s m)" by (rule unqueued_inherits[OF I e]) (simp_all add: owner_views)
    have "only_owner l m (?s m)" by (simp add: only_owner_def owner_views)
    then show ?thesis using free run only_owner_ok[OF okm _ _ i, of l cur] mo e by (intro exI[of _ True]) (simp add: took_def owner_views mv)
  next
    case (held t)
    then have "try_to_steal_lock cur l m = Some (False, m)" by (simp add: try_to_steal_lock_def rt_mutex_owner_pending_def mv)
    then show ?thesis using held run okm mq by (intro exI[of _ False]) (simp add: took_def only_owner_def mv)
  next
    case mine
    then have t: "try_to_steal_lock cur l m = Some (True, m)"
      by (simp add: try_to_steal_lock_def rt_mutex_owner_pending_def rt_mutex_owner_def mv)
    have e: "own (?s m) k = own m k" for k using mine by (simp add: owner_views mv)
    have i: "inherits_ok (?s m)" using I unfolding inherits_ok_def e by (simp add: owner_views)
    have "only_owner l m (?s m)" by (simp add: only_owner_def owner_views)
    moreover have "\<not> (wtask s w = Some cur \<and> w \<in> set (wl s l))" for w
      using waiters_okD(4)[OF W, of w l] pd mine by (auto simp: mv)
    ultimately show ?thesis using mine t run only_owner_ok[OF okm _ _ i, of l cur] mo by (intro exI[of _ True]) (auto simp: took_def owner_views mv)
  next
    case (urgent t)
    then obtain s' where s': "try_to_steal_lock cur l m = Some (True, s')" "only_owner l m (?s s')" "inherits_ok (?s s')"
      "\<forall>w. wtask m w = Some cur \<longrightarrow> w \<in> set (wl m l) \<longrightarrow> w \<notin> set (piw s' cur)"
      using steal_ok[OF okm, of l t cur] by (auto simp: mv)
    then show ?thesis using urgent run only_owner_ok[OF okm s'(2) _ s'(3)] mo by (intro exI[of _ True]) (simp add: took_def owner_views mv)
  next
    case (less t)
    then have "try_to_steal_lock cur l m = Some (False, m)"
      by (simp add: try_to_steal_lock_def rt_mutex_owner_pending_def rt_mutex_owner_def mv)
    then show ?thesis using less run okm mq by (intro exI[of _ False]) (simp add: took_def only_owner_def mv)
  qed
qed

subsection \<open>Leaving a queue\<close>

lemma dequeue_waiters:
  assumes W: "waiters_ok s" and b: "blk s t = Some w" and l: "l = wlock s w"
    and s': "\<And>k. wl s' k = (if k = l then remove1 w (wl s l) else wl s k)" "\<And>x. wtask s' x = (if x = w then None else wtask s x)"
      "\<And>x. wlock s' x = wlock s x" "\<And>x. lprio s' x = lprio s x" "\<And>r. blk s' r = (if r = t then None else blk s r)"
    and o: "\<And>k. wl s' k \<noteq> [] \<Longrightarrow> own s' k \<noteq> None"
  shows "waiters_ok s'"
proof -
  have w: "wtask s w = Some t" "w \<in> set (wl s l)" using waiters_okD(5)[OF W b] l by auto
  note d = waiters_okD(1)[OF W]
  have sub: "x \<in> set (wl s k) \<and> x \<noteq> w" if "x \<in> set (wl s' k)" for x k
    using that d[of l] waiters_okD(4)[OF W, of w k] l by (auto simp: s' split: if_splits)
  have "distinct (wl s' k)" for k using d by (simp add: s')
  moreover have "sorted (map (lprio s') (wl s' k))" for k
    using waiters_okD(2)[OF W] by (simp add: s' sorted_map_remove1)
  moreover have "wlock s' x = k \<and> (\<exists>r. wtask s' x = Some r \<and> blk s' r = Some x)" if x: "x \<in> set (wl s' k)" for x k
  proof -
    obtain r where r: "wlock s x = k" "wtask s x = Some r" "blk s r = Some x" using waiters_okD(4)[OF W, of x k] sub[OF x] by auto
    then have "r \<noteq> t" using b sub[OF x] by auto
    then show ?thesis using r sub[OF x] by (simp add: s')
  qed
  moreover have "wtask s' x = Some r \<and> x \<in> set (wl s' (wlock s' x))" if "blk s' r = Some x" for x r
  proof -
    have r: "r \<noteq> t" "blk s r = Some x" using that by (auto simp: s' split: if_splits)
    then have x: "wtask s x = Some r" "x \<in> set (wl s (wlock s x))" using waiters_okD(5)[OF W] by auto
    then have "x \<noteq> w" using w(1) r(1) by auto
    then show ?thesis using x by (auto simp: s')
  qed
  ultimately show ?thesis using o unfolding waiters_ok_def by blast
qed

text \<open>The waiter who gets the lock: it leaves the queue, and what the old owner inherited from it goes; the
  new owner inherits from the next in the queue.\<close>

lemma wakeup_ok:
  assumes ok: "rtm_ok s" and o: "own s l = Some cur" and ne: "wl s l \<noteq> []"
  shows "\<exists>t s'. wakeup_next_waiter cur l s = Some (t, s') \<and> rtm_ok s' \<and> blk s t = Some (hd (wl s l)) \<and>
    (\<forall>r. blk s' r = (if r = t then None else blk s r)) \<and> (\<forall>x. wtask s' x = (if x = hd (wl s l) then None else wtask s x)) \<and>
    (\<forall>x. wlock s' x = wlock s x) \<and> own s' l = Some t \<and> lk_pending (rt_locks s' l) \<and>
    (\<forall>k. k \<noteq> l \<longrightarrow> own s' k = own s k \<and> lk_pending (rt_locks s' k) = lk_pending (rt_locks s k))"
proof -
  have W: "waiters_ok s" and I: "inherits_ok s" and P: "\<And>k. lk_pending (rt_locks s k) \<Longrightarrow> own s k \<noteq> None" using ok by (auto simp: rtm_ok_def)
  let ?w = "hd (wl s l)"
  obtain t where t: "wtask s ?w = Some t" "blk s t = Some ?w" "wlock s ?w = l" using waiters_okD(4)[OF W, of ?w l] ne by auto
  define s3 where "s3 = upd_task t (\<lambda>k. k\<lparr>pi_blocked_on := None\<rparr>)
    (rt_mutex_set_owner l (Some t) True (upd_waiter ?w (\<lambda>k. k\<lparr>w_task := None\<rparr>) (pi_del ?w cur (wait_del ?w l s))))"
  have v: "wl s3 k = (if k = l then remove1 ?w (wl s l) else wl s k)" "wtask s3 x = (if x = ?w then None else wtask s x)"
    "wlock s3 x = wlock s x" "lprio s3 x = lprio s x" "piprio s3 x = piprio s x" "blk s3 r = (if r = t then None else blk s r)"
    "own s3 k = (if k = l then Some t else own s k)" "lk_pending (rt_locks s3 k) = (if k = l then True else lk_pending (rt_locks s k))"
    "piw s3 r = (if r = cur then remove1 ?w (piw s cur) else piw s r)" for k x r
    by (simp_all add: s3_def rt_mutex_set_owner_def pi_del_def wait_del_def upd_defs)
  have W3: "waiters_ok s3" by (rule dequeue_waiters[OF W t(2), of l]) (use t(3) waiters_okD(3)[OF W] v in auto)
  define s4 where "s4 = (if wl s3 l \<noteq> [] then pi_add (hd (wl s3 l)) t s3 else s3)"
  have "wtask (pi_del ?w cur (wait_del ?w l s)) ?w = Some t" by (simp add: pi_del_def wait_del_def upd_defs t)
  then have run: "wakeup_next_waiter cur l s = Some (t, s4)"
    using rt_mutex_top_waiter_ok[OF W ne] rt_mutex_top_waiter_ok[OF W3, of l]
    by (simp add: wakeup_next_waiter_def Let_def rt_mutex_has_waiters_def s4_def flip: s3_def)
  have v4: "wl s4 k = wl s3 k" "rt_waiters s4 = rt_waiters s3" "own s4 k = own s3 k" "blk s4 r = blk s3 r"
    "lk_pending (rt_locks s4 k) = lk_pending (rt_locks s3 k)"
    "piw s4 r = (if r = t \<and> wl s3 l \<noteq> [] then insert_prio (piprio s) (hd (wl s3 l)) (piw s3 t) else piw s3 r)" for k r
    by (simp_all add: s4_def pi_views v)
  have W4: "waiters_ok s4" using W3 waiters_ok_cong[of s4 s3] by (simp add: v4)
  have "inherits_ok s4"
    by (rule passed_on[OF I o refl, where new = t and c = "wl s3 l \<noteq> []"])
      (use waiters_okD(4)[OF W3, of "hd (wl s3 l)" l] in \<open>auto simp: v4 v\<close>)
  then have "rtm_ok s4" using W4 P by (auto simp: rtm_ok_def v4 v split: if_splits)
  then show ?thesis using run t by (simp add: v4 v)
qed

text \<open>A waiter who gives up, or who took the lock while it was still in the queue.\<close>

definition left_queue :: "nat \<Rightarrow> nat \<Rightarrow> rtm \<Rightarrow> rtm \<Rightarrow> bool" where
  "left_queue t w s s' \<longleftrightarrow> (\<forall>r. blk s' r = (if r = t then None else blk s r)) \<and> (\<forall>x. wtask s' x = (if x = w then None else wtask s x)) \<and>
    (\<forall>x. wlock s' x = wlock s x) \<and> (\<forall>k. own s' k = own s k \<and> lk_pending (rt_locks s' k) = lk_pending (rt_locks s k))"

lemma left_queue_places: "left_queue t w s s1 \<Longrightarrow> same_places s1 s' \<Longrightarrow> left_queue t w s s'"
  by (simp add: left_queue_def same_places_def)

definition dequeue :: "nat \<Rightarrow> nat \<Rightarrow> nat \<Rightarrow> rtm \<Rightarrow> rtm" where
  "dequeue cur l w s = upd_task cur (\<lambda>k. k\<lparr>pi_blocked_on := None\<rparr>) (upd_waiter w (\<lambda>k. k\<lparr>w_task := None\<rparr>) (wait_del w l s))"

lemma dequeue_views:
  "wl (dequeue cur l w s) k = (if k = l then remove1 w (wl s l) else wl s k)" "wtask (dequeue cur l w s) x = (if x = w then None else wtask s x)"
  "wlock (dequeue cur l w s) x = wlock s x" "lprio (dequeue cur l w s) x = lprio s x" "piprio (dequeue cur l w s) x = piprio s x"
  "blk (dequeue cur l w s) r = (if r = cur then None else blk s r)" "own (dequeue cur l w s) k = own s k"
  "pend (dequeue cur l w s) k = pend s k" "piw (dequeue cur l w s) r = piw s r"
  by (simp_all add: dequeue_def wait_del_def upd_defs)

lemma dequeue_ok:
  assumes W: "waiters_ok s" and b: "blk s cur = Some w" and l: "wlock s w = l"
  shows "waiters_ok (dequeue cur l w s)" "left_queue cur w s (dequeue cur l w s)"
proof -
  have "own (dequeue cur l w s) k \<noteq> None" if "wl (dequeue cur l w s) k \<noteq> []" for k
    using that waiters_okD(3)[OF W, of k] by (cases "wl s k = []") (auto simp: dequeue_views split: if_splits)
  then show "waiters_ok (dequeue cur l w s)" by (rule dequeue_waiters[OF W b, of l, rotated 6]) (use l in \<open>auto simp: dequeue_views\<close>)
  show "left_queue cur w s (dequeue cur l w s)" by (simp add: left_queue_def dequeue_views)
qed

lemma remove_quietly:
  assumes ok: "rtm_ok s" and b: "blk s cur = Some w" and l: "wlock s w = l" and n: "\<And>r. w \<notin> set (piw s r)"
  shows "rtm_ok (dequeue cur l w s)"
proof -
  have W: "waiters_ok s" and I: "inherits_ok s" using ok by (auto simp: rtm_ok_def)
  have "inherits_ok (dequeue cur l w s)"
    unfolding inherits_ok_def
  proof (intro allI conjI ballI)
    fix r x assume x: "x \<in> set (piw (dequeue cur l w s) r)"
    then have p: "own s (wlock s x) = Some r" "wl s (wlock s x) \<noteq> []" "hd (wl s (wlock s x)) = x" "x \<noteq> w"
      using inherits_okD(3)[OF I, of x r] n[of r] by (auto simp: dequeue_views)
    then show "own (dequeue cur l w s) (wlock (dequeue cur l w s) x) = Some r" by (simp add: dequeue_views)
    show "wl (dequeue cur l w s) (wlock (dequeue cur l w s) x) \<noteq> []" "hd (wl (dequeue cur l w s) (wlock (dequeue cur l w s) x)) = x"
      using p by (cases "wl s (wlock s x)"; auto simp: dequeue_views)+
  qed (use inherits_okD(1,2)[OF I] in \<open>simp_all add: dequeue_views\<close>)
  then show ?thesis using dequeue_ok(1)[OF W b l] ok by (simp add: rtm_ok_def dequeue_views)
qed

text \<open>The owner loses the first waiter and inherits from the next.\<close>

definition next_first :: "nat \<Rightarrow> nat \<Rightarrow> nat \<Rightarrow> rtm \<Rightarrow> rtm" where
  "next_first ow l w s = (let s = pi_del w ow s in rt_mutex_adjust_prio ow (if wl s l \<noteq> [] then pi_add (hd (wl s l)) ow s else s))"

lemma next_first_views:
  "wl (next_first ow l w s) k = wl s k" "rt_waiters (next_first ow l w s) = rt_waiters s" "own (next_first ow l w s) k = own s k"
  "blk (next_first ow l w s) r = blk s r" "pend (next_first ow l w s) k = pend s k"
  "piw (next_first ow l w s) r = (if r = ow \<and> wl s l \<noteq> [] then insert_prio (piprio s) (hd (wl s l)) (remove1 w (piw s ow))
     else if r = ow then remove1 w (piw s ow) else piw s r)"
  by (auto simp: next_first_def Let_def pi_views)

lemma next_first_ok:
  assumes ok: "rtm_ok s" and b: "blk s cur = Some w" and l: "wlock s w = l" and o: "own s l = Some ow" and w: "w = hd (wl s l)"
  shows "rtm_ok (next_first ow l w (dequeue cur l w s))"
proof -
  have W: "waiters_ok s" and I: "inherits_ok s" using ok by (auto simp: rtm_ok_def)
  note W3 = dequeue_ok(1)[OF W b l]
  let ?s3 = "dequeue cur l w s" and ?s = "next_first ow l w (dequeue cur l w s)"
  have "inherits_ok ?s"
    by (rule passed_on[OF I o w, where new = ow and c = "wl ?s3 l \<noteq> []"])
      (use waiters_okD(4)[OF W3, of "hd (wl ?s3 l)" l] o in \<open>auto simp: next_first_views dequeue_views\<close>)
  moreover have "waiters_ok ?s" using W3 waiters_ok_cong[of ?s ?s3] by (simp add: next_first_views)
  ultimately show ?thesis using ok by (simp add: rtm_ok_def next_first_views dequeue_views)
qed

lemma remove_run:
  assumes W: "waiters_ok s" and b: "blk s cur = Some w" and l: "wlock s w = l" and o: "own s l = Some ow"
  defines "q \<equiv> next_first ow l w (dequeue cur l w s)"
  shows "remove_waiter cur l w s = (if w = hd (wl s l) \<and> ow \<noteq> cur then
      (if blk q ow = None then Some q else map_option snd (rt_mutex_adjust_prio_chain ow False (Some l) None cur (get_task ow q)))
    else Some (dequeue cur l w s))"
proof -
  have ne: "wl s l \<noteq> []" using waiters_okD(5)[OF W b] l by auto
  define h where "h = hd (wl s l)"
  let ?d = "pi_del w ow (dequeue cur l w s)"
  have "waiters_ok ?d" using dequeue_ok(1)[OF W b l] waiters_ok_cong[of ?d "dequeue cur l w s"] by (simp add: pi_views)
  then have t: "rt_mutex_top_waiter l s = Some h" "wl ?d l \<noteq> [] \<Longrightarrow> rt_mutex_top_waiter l ?d = Some (hd (wl ?d l))"
    using rt_mutex_top_waiter_ok[OF W ne] rt_mutex_top_waiter_ok[of ?d l] by (simp_all add: h_def)
  show ?thesis unfolding h_def[symmetric] using t o
    by (cases "h = w") (auto simp: remove_waiter_def Let_def rt_mutex_owner_def rt_mutex_has_waiters_def q_def next_first_def simp flip: dequeue_def)
qed

lemma remove_ok:
  assumes ok: "rtm_ok s" and b: "blk s cur = Some w" and l: "wlock s w = l"
    and mine: "own s l = Some cur \<Longrightarrow> w \<notin> set (piw s cur)"
  shows "\<exists>s'. remove_waiter cur l w s = Some s' \<and> rtm_ok s' \<and> left_queue cur w s s'"
proof -
  have W: "waiters_ok s" and I: "inherits_ok s" using ok by (auto simp: rtm_ok_def)
  have "wl s l \<noteq> []" using waiters_okD(5)[OF W b] l by auto
  then obtain ow where o: "own s l = Some ow" using waiters_okD(3)[OF W] by blast
  note run = remove_run[OF W b l o] and lq = dequeue_ok(2)[OF W b l]
  show ?thesis
  proof (cases "w = hd (wl s l) \<and> ow \<noteq> cur")
    case False
    then have "w \<notin> set (piw s r)" for r using from_lock[OF I, of w r l] l o mine by auto
    then show ?thesis using False run remove_quietly[OF ok b l] lq by auto
  next
    case True
    let ?q = "next_first ow l w (dequeue cur l w s)"
    have okq: "rtm_ok ?q" using next_first_ok[OF ok b l o] True by blast
    have lqq: "left_queue cur w s ?q" "left_queue cur w s (get_task ow ?q)" using lq by (simp_all add: left_queue_def next_first_views)
    from walk_ok[of "get_task ow ?q" False ow "Some l" None cur] okq lqq left_queue_places[OF lqq(2)]
    show ?thesis using run True by (cases "blk ?q ow = None") (auto simp: walk_ends_def)
  qed
qed

subsection \<open>Joining a queue\<close>

definition joined_queue :: "nat \<Rightarrow> nat \<Rightarrow> nat \<Rightarrow> rtm \<Rightarrow> rtm \<Rightarrow> bool" where
  "joined_queue t w l s s' \<longleftrightarrow> (\<forall>r. blk s' r = (if r = t then Some w else blk s r)) \<and> (\<forall>x. wtask s' x = (if x = w then Some t else wtask s x)) \<and>
    (\<forall>x. wlock s' x = (if x = w then l else wlock s x)) \<and> (\<forall>k. own s' k = own s k \<and> lk_pending (rt_locks s' k) = lk_pending (rt_locks s k))"

lemma joined_queue_places: "joined_queue t w l s s1 \<Longrightarrow> same_places s1 s' \<Longrightarrow> joined_queue t w l s s'"
  by (simp add: joined_queue_def same_places_def)

lemma idle_waiter: "rtm_ok s \<Longrightarrow> wtask s w = None \<Longrightarrow> w \<notin> set (wl s l)"
  using waiters_okD(4)[of s w l] by (auto simp: rtm_ok_def)

lemma idle_upd:
  assumes ok: "rtm_ok s" and w: "\<And>k. w \<notin> set (wl s k)"
    and s': "\<And>k. wl s' k = wl s k" "\<And>k. own s' k = own s k" "\<And>r. piw s' r = piw s r" "\<And>r. blk s' r = blk s r"
      "\<And>x. x \<noteq> w \<Longrightarrow> rt_waiters s' x = rt_waiters s x" "\<And>k. lk_pending (rt_locks s' k) = lk_pending (rt_locks s k)"
  shows "rtm_ok s'"
proof -
  have W: "waiters_ok s" and I: "inherits_ok s" using ok by (auto simp: rtm_ok_def)
  have "w \<notin> set (piw s r)" for r using inherits_okD(3)[OF I, of w r] w[of "wlock s w"] by (metis hd_in_set)
  then have x: "x \<in> set (wl s k) \<Longrightarrow> rt_waiters s' x = rt_waiters s x" "x \<in> set (piw s r) \<Longrightarrow> rt_waiters s' x = rt_waiters s x"
      "blk s r = Some x \<Longrightarrow> rt_waiters s' x = rt_waiters s x" for x k r
    using w waiters_okD(5)[OF W, of r x] s'(5)[of x] by auto
  have "sorted (map (lprio s') (wl s k))" for k by (rule sorted_map_same[OF _ waiters_okD(2)[OF W]]) (use x in auto)
  moreover have "sorted (map (piprio s') (piw s r))" for r by (rule sorted_map_same[OF _ inherits_okD(2)[OF I]]) (use x in auto)
  ultimately show ?thesis using ok unfolding rtm_ok_def waiters_ok_def inherits_ok_def s' using x by (simp del: not_None_eq)
qed

text \<open>The waiter gets its task, its lock and the task's priority, and joins the queue.\<close>

definition prepare :: "nat \<Rightarrow> nat \<Rightarrow> nat \<Rightarrow> rtm \<Rightarrow> rtm" where
  "prepare cur l w s = (let s = rt_mutex_adjust_prio cur s; p = rt_prio (rt_tasks s cur)
     in upd_waiter w (\<lambda>k. k\<lparr>w_task := Some cur, w_lock := l, w_prio := p, w_pi_prio := p\<rparr>) s)"

lemma adjusted_prio: "rt_prio (rt_tasks (rt_mutex_adjust_prio t s) r) = (if r = t then rt_mutex_getprio t s else rt_prio (rt_tasks s r))"
  by (simp add: rt_mutex_adjust_prio_def rt_setprio_def upd_task_def Let_def)

lemma prepare_views:
  "wl (prepare cur l w s) k = wl s k" "own (prepare cur l w s) k = own s k" "piw (prepare cur l w s) r = piw s r"
  "blk (prepare cur l w s) r = blk s r" "lk_pending (rt_locks (prepare cur l w s) k) = lk_pending (rt_locks s k)"
  "x \<noteq> w \<Longrightarrow> rt_waiters (prepare cur l w s) x = rt_waiters s x" "wtask (prepare cur l w s) w = Some cur" "wlock (prepare cur l w s) w = l"
  "lprio (prepare cur l w s) w = rt_mutex_getprio cur s" "piprio (prepare cur l w s) w = rt_mutex_getprio cur s"
  "rt_prio (rt_tasks (prepare cur l w s) r) = (if r = cur then rt_mutex_getprio cur s else rt_prio (rt_tasks s r))"
  by (simp_all add: prepare_def upd_waiter_def Let_def adjusted_prio)

lemma prepare_ok: "rtm_ok s \<Longrightarrow> wtask s w = None \<Longrightarrow> rtm_ok (prepare cur l w s)"
  by (rule idle_upd[of s w]) (simp_all add: prepare_views idle_waiter)

definition enqueue :: "nat \<Rightarrow> nat \<Rightarrow> nat \<Rightarrow> rtm \<Rightarrow> rtm" where
  "enqueue cur l w s = upd_task cur (\<lambda>k. k\<lparr>pi_blocked_on := Some w\<rparr>) (wait_add w l s)"

lemma enqueue_views:
  "wl (enqueue cur l w s) k = (if k = l then insert_prio (lprio s) w (wl s l) else wl s k)" "rt_waiters (enqueue cur l w s) = rt_waiters s"
  "own (enqueue cur l w s) k = own s k" "piw (enqueue cur l w s) r = piw s r" "blk (enqueue cur l w s) r = (if r = cur then Some w else blk s r)"
  "lk_pending (rt_locks (enqueue cur l w s) k) = lk_pending (rt_locks s k)" "rt_prio (rt_tasks (enqueue cur l w s) r) = rt_prio (rt_tasks s r)"
  by (simp_all add: enqueue_def wait_add_def upd_defs)

lemma enqueue_waiters:
  assumes W: "waiters_ok s" and w: "\<And>k. w \<notin> set (wl s k)" "wtask s w = Some cur" "wlock s w = l" and b: "blk s cur = None" and o: "own s l \<noteq> None"
  shows "waiters_ok (enqueue cur l w s)"
  unfolding waiters_ok_def enqueue_views(2)
proof (intro conjI allI impI ballI)
  let ?s = "enqueue cur l w s"
  note v = enqueue_views
  fix k
  show "distinct (wl ?s k)" "sorted (map (lprio s) (wl ?s k))"
    using waiters_okD(1,2)[OF W] w(1) by (auto simp: v insert_prio_distinct insert_prio_sorted)
  show "wl ?s k \<noteq> [] \<Longrightarrow> own ?s k \<noteq> None" using waiters_okD(3)[OF W, of k] o by (cases "k = l") (auto simp: v)
  fix x assume "x \<in> set (wl ?s k)"
  then consider "x = w" "k = l" | t where "wlock s x = k" "wtask s x = Some t" "blk s t = Some x"
    using waiters_okD(4)[OF W, of x k] by (auto simp: v insert_prio_set split: if_splits)
  then have "wlock s x = k \<and> (\<exists>t. wtask s x = Some t \<and> blk ?s t = Some x)"
  proof cases
    case (2 t)
    then have "t \<noteq> cur" using b by auto
    then have "blk ?s t = Some x" using 2 by (simp add: v)
    then show ?thesis using 2 by auto
  qed (simp add: v w)
  then show "wlock s x = k" "\<exists>t. wtask s x = Some t \<and> blk ?s t = Some x" by auto
next
  let ?s = "enqueue cur l w s"
  fix t x assume "blk ?s t = Some x"
  then consider "t = cur" "x = w" | "t \<noteq> cur" "blk s t = Some x" by (auto simp: enqueue_views split: if_splits)
  then have "wtask s x = Some t \<and> x \<in> set (wl ?s (wlock s x))"
    using waiters_okD(5)[OF W, of t x] by cases (auto simp: w enqueue_views insert_prio_set)
  then show "wtask s x = Some t" "x \<in> set (wl ?s (wlock s x))" by auto
qed

text \<open>When the waiter is the first one, the owner inherits from it and no longer from the one it has passed.\<close>

definition boost :: "nat \<Rightarrow> nat \<Rightarrow> nat \<Rightarrow> nat \<Rightarrow> rtm \<Rightarrow> rtm" where
  "boost ow l w u s = (if w = hd (wl s l) then rt_mutex_adjust_prio ow (follow u w ow s) else s)"

definition queued :: "nat \<Rightarrow> nat \<Rightarrow> nat \<Rightarrow> nat \<Rightarrow> rtm \<Rightarrow> rtm" where
  "queued ow cur l w s = (let s2 = prepare cur l w s in
     boost ow l w (if wl s2 l \<noteq> [] then hd (wl s2 l) else w) (enqueue cur l w s2))"

lemma boost_views:
  "wl (boost ow l w u s) k = wl s k" "own (boost ow l w u s) k = own s k" "blk (boost ow l w u s) r = blk s r"
  "wtask (boost ow l w u s) x = wtask s x" "wlock (boost ow l w u s) x = wlock s x" "lprio (boost ow l w u s) x = lprio s x"
  "lk_pending (rt_locks (boost ow l w u s) k) = lk_pending (rt_locks s k)"
  by (simp_all add: boost_def follow_views)

lemma queued_views:
  "wl (queued ow cur l w s) k = (if k = l then insert_prio (lprio (prepare cur l w s)) w (wl s l) else wl s k)"
  "own (queued ow cur l w s) k = own s k" "blk (queued ow cur l w s) r = (if r = cur then Some w else blk s r)"
  "lk_pending (rt_locks (queued ow cur l w s) k) = lk_pending (rt_locks s k)"
  "wtask (queued ow cur l w s) x = (if x = w then Some cur else wtask s x)" "wlock (queued ow cur l w s) x = (if x = w then l else wlock s x)"
  by (simp_all add: queued_def Let_def boost_views enqueue_views prepare_views)

lemma queued_ok:
  assumes ok: "rtm_ok s" and b: "blk s cur = None" and w: "wtask s w = None" and o: "own s l = Some ow"
  shows "rtm_ok (queued ow cur l w s)" "waiters_ok (prepare cur l w s)" "waiters_ok (enqueue cur l w (prepare cur l w s))"
proof -
  let ?s2 = "prepare cur l w s"
  let ?s3 = "enqueue cur l w ?s2"
  have W: "waiters_ok ?s2" and I: "inherits_ok ?s2" and P: "\<And>k. lk_pending (rt_locks s k) \<Longrightarrow> own s k \<noteq> None"
    using prepare_ok[OF ok w] ok by (auto simp: rtm_ok_def)
  have W3: "waiters_ok ?s3" by (rule enqueue_waiters[OF W]) (use idle_waiter[OF ok w] b o in \<open>simp_all add: prepare_views\<close>)
  show "waiters_ok ?s2" "waiters_ok ?s3" by fact+
  define u where "u = (if wl ?s2 l \<noteq> [] then hd (wl ?s2 l) else w)"
  have q: "queued ow cur l w s = boost ow l w u ?s3" by (simp add: queued_def Let_def u_def)
  have "inherits_ok (boost ow l w u ?s3)"
  proof (cases "w = hd (wl ?s3 l)")
    case True
    have "inherits_ok (follow u (hd (wl ?s3 l)) ow ?s3)"
      by (rule follow_ok[OF I W3, where l = l]) (use o in \<open>auto simp: enqueue_views prepare_views(1-5) u_def\<close>)
    then show ?thesis using True by (simp add: boost_def inherits_ok_def)
  next
    case False
    then have "wl ?s2 l \<noteq> []" "hd (wl ?s3 l) = hd (wl ?s2 l)" by (auto simp: enqueue_views insert_prio_hd split: if_splits)
    then have e: "wl ?s3 k = [] \<longleftrightarrow> wl ?s2 k = []" "hd (wl ?s3 k) = hd (wl ?s2 k)" for k by (cases "k = l"; simp add: enqueue_views)+
    have "inherits_ok ?s3" using I unfolding inherits_ok_def e by (simp add: enqueue_views(2-4))
    then show ?thesis using False by (simp add: boost_def)
  qed
  moreover have "waiters_ok (boost ow l w u ?s3)" using W3 waiters_ok_cong[of "boost ow l w u ?s3" ?s3] by (simp add: boost_views)
  ultimately show "rtm_ok (queued ow cur l w s)" unfolding q using P by (simp add: rtm_ok_def boost_views enqueue_views prepare_views)
qed

lemma block_run:
  assumes ok: "rtm_ok s" and b: "blk s cur = None" and w: "wtask s w = None" and o: "own s l = Some ow"
  defines "q \<equiv> queued ow cur l w s"
  shows "task_blocks_on_rt_mutex cur l w dd s = (if w = hd (wl q l) \<and> blk q ow = None then Some (0, q)
    else rt_mutex_adjust_prio_chain ow dd (Some l) (Some w) cur (get_task ow q))"
proof -
  define s2 s3 where "s2 = prepare cur l w s" and "s3 = enqueue cur l w s2"
  define u where "u = (if wl s2 l \<noteq> [] then hd (wl s2 l) else w)"
  define h where "h = hd (wl s3 l)"
  note W = queued_ok(2,3)[OF ok b w o, folded s2_def, folded s3_def]
  have tops: "(if rt_mutex_has_waiters l s2 then rt_mutex_top_waiter l s2 else Some w) = Some u" "rt_mutex_top_waiter l s3 = Some h"
    using rt_mutex_top_waiter_ok[OF W(1), of l] rt_mutex_top_waiter_ok[OF W(2), of l]
    by (simp_all add: rt_mutex_has_waiters_def u_def h_def s3_def enqueue_views)
  have q: "q = boost ow l w u s3" by (simp add: q_def queued_def s2_def s3_def u_def Let_def)
  have "(rt_waiters s3)(w := rt_waiters s3 w\<lparr>w_pi_prio := lprio s3 w\<rparr>) = rt_waiters s3"
    by (simp add: fun_upd_idem_iff s3_def s2_def enqueue_views prepare_views)
  then have "upd_waiter w (\<lambda>k. k\<lparr>w_pi_prio := w_prio k\<rparr>) (pi_del u ow s3) = pi_del u ow s3"
    by (simp add: upd_waiter_def pi_views pi_del_def upd_task_def)
  then have fl: "pi_add w ow (pi_del u ow s3) = follow u w ow s3" by (simp add: follow_def)
  have "task_blocks_on_rt_mutex cur l w dd s = do {
      tw' \<leftarrow> rt_mutex_top_waiter l s3;
      let (walk, s) = (if w = tw' then
          let s = rt_mutex_adjust_prio ow (pi_add w ow (pi_del u ow s3)) in (pi_blocked_on (rt_tasks s ow) \<noteq> None, s) else (True, s3));
      if \<not> walk then Some (0, s) else rt_mutex_adjust_prio_chain ow dd (Some l) (Some w) cur (get_task ow s) }"
    unfolding task_blocks_on_rt_mutex_def rt_mutex_owner_def o Let_def Option.bind.bind_lunit
      prepare_def[unfolded Let_def, symmetric] s2_def[symmetric] tops(1) enqueue_def[symmetric] s3_def[symmetric] ..
  moreover have "hd (wl q l) = h" "q = (if w = h then rt_mutex_adjust_prio ow (follow u w ow s3) else s3)"
    by (simp_all add: q boost_views h_def) (simp add: boost_def)
  ultimately show ?thesis unfolding tops(2) fl by (cases "h = w") (auto simp: Let_def)
qed

lemma block_ok:
  assumes ok: "rtm_ok s" and b: "blk s cur = None" and w: "wtask s w = None" and o: "own s l = Some ow"
  shows "\<exists>r s'. task_blocks_on_rt_mutex cur l w dd s = Some (r, s') \<and> rtm_ok s' \<and> joined_queue cur w l s s' \<and> (r = 0 \<or> dd \<and> r = - EDEADLK)"
proof -
  let ?q = "queued ow cur l w s"
  have j: "joined_queue cur w l s ?q" "joined_queue cur w l s (get_task ow ?q)" by (simp_all add: joined_queue_def queued_views)
  from walk_ok[of "get_task ow ?q" dd ow "Some l" "Some w" cur] queued_ok(1)[OF assms] j block_run[OF assms, of dd] joined_queue_places[OF j(2)]
  show ?thesis by (cases "w = hd (wl ?q l) \<and> blk ?q ow = None") (auto simp: walk_ends_def)
qed

subsection \<open>Locking and unlocking\<close>

lemma slowlock_end_ok:
  assumes ok: "rtm_ok s" and st: "(blk s cur = None \<and> wtask s w = None) \<or> (blk s cur = Some w \<and> wlock s w = l)"
    and mine: "own s l = Some cur \<Longrightarrow> blk s cur = Some w \<Longrightarrow> w \<notin> set (piw s cur)"
  shows "\<exists>s'. slowlock_end cur l w ret s = Some (Returns ret, s') \<and> rtm_ok s' \<and> left_queue cur w s s'"
proof -
  have "\<exists>s1. (if wtask s w \<noteq> None then remove_waiter cur l w s else Some s) = Some s1 \<and> rtm_ok s1 \<and> left_queue cur w s s1"
  proof (cases "blk s cur")
    case None
    then show ?thesis using st ok by (auto simp: left_queue_def)
  next
    case (Some x)
    then have b: "blk s cur = Some w" "wlock s w = l" using st by auto
    then have "wtask s w \<noteq> None" using waiters_okD(5)[of s cur w] ok by (simp add: rtm_ok_def)
    then show ?thesis using remove_ok[OF ok b] mine b by auto
  qed
  then obtain s1 where s1: "(if wtask s w \<noteq> None then remove_waiter cur l w s else Some s) = Some s1" "rtm_ok s1" "left_queue cur w s s1" by blast
  let ?f = "fixup_rt_mutex_waiters l s1"
  let ?s = "if ret \<noteq> 0 then rt_mutex_adjust_prio cur ?f else ?f"
  have "same_queues s1 ?s" by (auto intro: same_queues_trans[of s1 ?f])
  then have "rtm_ok ?s" "left_queue cur w s ?s" using s1(2,3) same_queues_ok left_queue_places same_queues_places by auto
  then show ?thesis using s1(1) by (auto simp: slowlock_end_def Let_def)
qed

text \<open>What a pass of the loop leaves. Only the task, its waiter and the lock have changed; the task has the lock, or
  it has given up and left the queue, or it is in the queue.\<close>

definition pass_frame :: "nat \<Rightarrow> nat \<Rightarrow> nat \<Rightarrow> rtm \<Rightarrow> rtm \<Rightarrow> bool" where
  "pass_frame cur l w s s' \<longleftrightarrow> (\<forall>r. r \<noteq> cur \<longrightarrow> blk s' r = blk s r) \<and> (\<forall>x. x \<noteq> w \<longrightarrow> wtask s' x = wtask s x \<and> wlock s' x = wlock s x) \<and>
     (\<forall>k. k \<noteq> l \<longrightarrow> own s' k = own s k \<and> pend s' k = pend s k)"

definition pass_done :: "pass \<Rightarrow> nat \<Rightarrow> nat \<Rightarrow> nat \<Rightarrow> rtm \<Rightarrow> rtm \<Rightarrow> bool" where
  "pass_done r cur l w s s' \<longleftrightarrow> pass_frame cur l w s s' \<and>
     (if r = Returns 0 then own s' l = Some cur \<and> \<not> pend s' l \<and> (own s l = None \<or> pend s l)
      else own s' l = own s l \<and> pend s' l = pend s l \<and> own s l \<noteq> Some cur) \<and>
     (case r of Returns e \<Rightarrow> blk s' cur = None \<and> wtask s' w = None
      | Sleeps \<Rightarrow> blk s' cur = Some w \<and> wtask s' w = Some cur \<and> wlock s' w = l
      | Again \<Rightarrow> False)"

lemma pass_done_start: "same_queues s s0 \<Longrightarrow> pass_done r cur l w s0 s' \<Longrightarrow> pass_done r cur l w s s'"
  by (simp add: pass_done_def pass_frame_def same_queues_def cong: if_cong)

lemma errnos_nonzero [simp]: "EDEADLK \<noteq> 0" "EINTR \<noteq> 0" "ETIMEDOUT \<noteq> 0"
  by (simp_all add: EDEADLK_def EINTR_def ETIMEDOUT_def)

lemma give_up_ok:
  assumes q: "same_queues s s1" "own s l \<noteq> Some cur" and st: "(blk s1 cur = None \<and> wtask s1 w = None) \<or> (blk s1 cur = Some w \<and> wlock s1 w = l)"
    and r: "ret \<noteq> 0" and s2: "rtm_ok s2" "s2 = s1 \<or> joined_queue cur w l s1 s2"
  shows "\<exists>r s'. slowlock_end cur l w ret s2 = Some (r, s') \<and> rtm_ok s' \<and> pass_done r cur l w s s'"
proof -
  have o2: "own s2 k = own s k" "pend s2 k = pend s k" "r \<noteq> cur \<Longrightarrow> blk s2 r = blk s r" "x \<noteq> w \<Longrightarrow> wtask s2 x = wtask s x"
    "x \<noteq> w \<Longrightarrow> wlock s2 x = wlock s x" for k r x
    using s2(2) same_queues_views[OF q(1)] by (auto simp: joined_queue_def)
  have "(blk s2 cur = None \<and> wtask s2 w = None) \<or> (blk s2 cur = Some w \<and> wlock s2 w = l)" using s2(2) st by (auto simp: joined_queue_def)
  from slowlock_end_ok[OF s2(1) this, of ret] q(2) obtain s' where s': "slowlock_end cur l w ret s2 = Some (Returns ret, s')" "rtm_ok s'"
    "left_queue cur w s2 s'" by (auto simp: o2)
  then show ?thesis using r q(2) by (auto simp: pass_done_def pass_frame_def left_queue_def o2)
qed

text \<open>The pass after the lock could not be taken.\<close>

definition wait_pass :: "nat \<Rightarrow> nat \<Rightarrow> nat \<Rightarrow> int \<Rightarrow> bool \<Rightarrow> rtm \<Rightarrow> (pass \<times> rtm) option" where
  "wait_pass cur l w ret dd s =
     (if ret \<noteq> 0 then slowlock_end cur l w ret s
      else if w_task (rt_waiters s w) = None then do {
        (ret, s) \<leftarrow> task_blocks_on_rt_mutex cur l w dd s;
        if w_task (rt_waiters s w) = None then Some (Again, s)
        else if ret \<noteq> 0 then slowlock_end cur l w ret s
        else Some (Sleeps, s) }
      else Some (Sleeps, s))"

lemma wait_pass_ok:
  assumes ok: "rtm_ok s1" and q: "same_queues s s1" "own s l \<noteq> None" "own s l \<noteq> Some cur"
    and st: "(blk s1 cur = None \<and> wtask s1 w = None) \<or> (blk s1 cur = Some w \<and> wlock s1 w = l)"
  shows "\<exists>r s'. wait_pass cur l w ret dd s1 = Some (r, s') \<and> rtm_ok s' \<and> pass_done r cur l w s s'"
proof -
  note leave = give_up_ok[OF q(1,3) st] and e = same_queues_views[OF q(1)]
  obtain ow where ow: "own s1 l = Some ow" using q(2) e(2) by auto
  consider (err) "ret \<noteq> 0" | (in_queue) "ret = 0" "blk s1 cur = Some w" "wlock s1 w = l" | (joins) "ret = 0" "blk s1 cur = None" "wtask s1 w = None"
    using st by metis
  then show ?thesis
  proof cases
    case err
    then show ?thesis using leave[OF err ok] by (simp add: wait_pass_def)
  next
    case in_queue
    have "wtask s1 w = Some cur" using waiters_okD(5)[of s1 cur w] ok in_queue by (simp add: rtm_ok_def)
    then show ?thesis using ok in_queue q e by (simp add: wait_pass_def pass_done_def pass_frame_def)
  next
    case joins
    obtain r s2 where s2: "task_blocks_on_rt_mutex cur l w dd s1 = Some (r, s2)" "rtm_ok s2" "joined_queue cur w l s1 s2"
      using block_ok[OF ok joins(2,3) ow] by blast
    then have "wtask s2 w = Some cur" by (simp add: joined_queue_def)
    then have run: "wait_pass cur l w ret dd s1 = (if r \<noteq> 0 then slowlock_end cur l w r s2 else Some (Sleeps, s2))"
      using joins s2(1) by (simp add: wait_pass_def)
    show ?thesis
    proof (cases "r = 0")
      case True
      then show ?thesis using run s2(2,3) q e by (simp add: pass_done_def pass_frame_def joined_queue_def)
    qed (use run leave[OF _ s2(2)] s2(3) in simp)
  qed
qed

lemma slowlock_pass_ok:
  assumes ok: "rtm_ok s" and st: "(blk s cur = None \<and> wtask s w = None) \<or> (blk s cur = Some w \<and> wlock s w = l)"
    and pd: "pend s l \<Longrightarrow> own s l = Some cur \<Longrightarrow> blk s cur = None" and np: "own s l = Some cur \<Longrightarrow> pend s l"
  shows "\<exists>r s'. slowlock_pass cur l w intr signal expired dd s = Some (r, s') \<and> rtm_ok s' \<and> pass_done r cur l w s s'"
proof -
  obtain b s1 where t: "try_to_take_rt_mutex cur l s = Some (b, s1)" "rtm_ok s1" "took cur l b s s1" using try_to_take_ok[OF ok pd] by blast
  have e: "blk s1 r = blk s r" "rt_waiters s1 = rt_waiters s" for r using t(3) by (auto simp: took_def only_owner_def)
  have st1: "(blk s1 cur = None \<and> wtask s1 w = None) \<or> (blk s1 cur = Some w \<and> wlock s1 w = l)" using st by (simp add: e)
  show ?thesis
  proof (cases b)
    case True
    have "w \<notin> set (piw s1 cur)" if "blk s1 cur = Some w"
      using that t(3) True waiters_okD(5)[of s cur w] st1 ok by (simp add: e rtm_ok_def took_def)
    from slowlock_end_ok[OF t(2) st1 this] obtain s' where s': "slowlock_end cur l w 0 s1 = Some (Returns 0, s')" "rtm_ok s'" "left_queue cur w s1 s'"
      by blast
    have "pass_done (Returns 0) cur l w s s'"
      using s'(3) t(3) True by (simp add: pass_done_def pass_frame_def left_queue_def only_owner_def took_def)
    then show ?thesis using s' True t(1) by (simp add: slowlock_pass_def)
  next
    case False
    have "slowlock_pass cur l w intr signal expired dd s =
        wait_pass cur l w (if intr then if expired then - ETIMEDOUT else if signal then - EINTR else 0 else 0) dd s1"
      using False t(1) by (simp only: slowlock_pass_def wait_pass_def Let_def Option.bind.bind_lunit prod.case if_False simp_thms)
    then show ?thesis using wait_pass_ok[OF t(2) _ _ _ st1, of s] False t(3) np by (auto simp: took_def)
  qed
qed

lemma slowlock_ok:
  assumes ok: "rtm_ok s" and b: "blk s cur = None" and w: "\<And>k. w \<notin> set (wl s k)" and np: "own s l \<noteq> Some cur"
  shows "\<exists>r s'. rt_mutex_slowlock cur l w intr signal expired dd s = Some (r, s') \<and> rtm_ok s' \<and> pass_done r cur l w s s'"
proof -
  define s0 where "s0 = upd_waiter w (\<lambda>k. k\<lparr>w_task := None\<rparr>) s"
  have v: "wl s0 k = wl s k" "own s0 k = own s k" "piw s0 r = piw s r" "blk s0 r = blk s r" "pend s0 k = pend s k"
    "x \<noteq> w \<Longrightarrow> rt_waiters s0 x = rt_waiters s x" "wtask s0 w = None" for k r x by (simp_all add: s0_def upd_waiter_def)
  have ok0: "rtm_ok s0" by (rule idle_upd[OF ok w]) (simp_all add: v)
  have from_s0: "pass_done r cur l w s s'" if "pass_done r cur l w s0 s'" for r s' using that by (auto simp: pass_done_def pass_frame_def v)
  have pd: "pend s0 l \<Longrightarrow> own s0 l = Some cur \<Longrightarrow> blk s0 cur = None" using b by (simp add: v)
  obtain c s1 where t: "try_to_take_rt_mutex cur l s0 = Some (c, s1)" "rtm_ok s1" "took cur l c s0 s1" using try_to_take_ok[OF ok0 pd] by blast
  have run: "rt_mutex_slowlock cur l w intr signal expired dd s = (if c then Some (Returns 0, s1) else slowlock_pass cur l w intr signal expired dd s1)"
    using t(1) by (simp add: rt_mutex_slowlock_def Let_def flip: s0_def)
  show ?thesis
  proof (cases c)
    case True
    then have "pass_done (Returns 0) cur l w s0 s1" using t(3) b by (simp add: pass_done_def pass_frame_def took_def only_owner_def v)
    then show ?thesis using True run t(2) from_s0 by simp
  next
    case False
    then have q: "same_queues s0 s1" using t(3) by (simp add: took_def)
    have "\<exists>r s'. slowlock_pass cur l w intr signal expired dd s1 = Some (r, s') \<and> rtm_ok s' \<and> pass_done r cur l w s1 s'"
      by (rule slowlock_pass_ok[OF t(2)]) (use b np in \<open>simp_all add: same_queues_views[OF q] v\<close>)
    then show ?thesis using False run pass_done_start[OF q] from_s0 by auto
  qed
qed

lemma trylock_ok:
  assumes ok: "rtm_ok s"
  shows "\<exists>c s'. rt_mutex_slowtrylock cur l s = Some (c, s') \<and> rtm_ok s' \<and> only_owner l s s' \<and>
    (if c then own s' l = Some cur \<and> \<not> pend s' l \<and> (own s l = None \<or> pend s l) else own s' l = own s l \<and> pend s' l = pend s l \<and> own s l \<noteq> None)"
proof (cases "own s l = Some cur")
  case True
  then show ?thesis using ok by (intro exI[of _ False]) (simp add: rt_mutex_slowtrylock_def rt_mutex_owner_def only_owner_def)
next
  case False
  have pd: "pend s l \<Longrightarrow> own s l = Some cur \<Longrightarrow> blk s cur = None" using False by simp
  from try_to_take_ok[OF ok pd] obtain c s1 where t: "try_to_take_rt_mutex cur l s = Some (c, s1)" "rtm_ok s1" "took cur l c s s1" by blast
  let ?s = "fixup_rt_mutex_waiters l s1"
  have run: "rt_mutex_slowtrylock cur l s = Some (c, ?s)" using False t(1) by (simp add: rt_mutex_slowtrylock_def rt_mutex_owner_def)
  have o: "only_owner l s ?s" using t(3) by (simp add: took_def only_owner_def)
  have "if c then own ?s l = Some cur \<and> \<not> pend ?s l \<and> (own s l = None \<or> pend s l) else own ?s l = own s l \<and> pend ?s l = pend s l \<and> own s l \<noteq> None"
    using t(3) same_queues_views(2,6)[of s s1] by (cases c) (simp_all add: took_def)
  then show ?thesis using run t(2) o by simp
qed

lemma unqueued_ok:
  assumes ok: "rtm_ok s" and e: "wl s l = []" "pend s' l \<Longrightarrow> own s' l \<noteq> None"
    and fr: "\<And>k. wl s' k = wl s k" "\<And>k. k \<noteq> l \<Longrightarrow> own s' k = own s k \<and> pend s' k = pend s k" "rt_tasks s' = rt_tasks s" "rt_waiters s' = rt_waiters s"
  shows "rtm_ok s'"
proof -
  have W: "waiters_ok s" and I: "inherits_ok s" and P: "\<And>k. pend s k \<Longrightarrow> own s k \<noteq> None" using ok by (auto simp: rtm_ok_def)
  have "own s' k \<noteq> None" if "wl s k \<noteq> []" for k using that waiters_okD(3)[OF W, of k] e(1) fr(2)[of k] by (cases "k = l") auto
  then have "waiters_ok s'" using W unfolding waiters_ok_def fr(1,3,4) by blast
  moreover have "inherits_ok s'" by (rule unqueued_inherits[OF I e(1)]) (use fr in auto)
  moreover have "own s' k \<noteq> None" if "pend s' k" for k using that e(2) fr(2)[of k] P[of k] by (cases "k = l") auto
  ultimately show ?thesis by (simp add: rtm_ok_def)
qed

text \<open>What unlocking leaves: the lock is free when nobody waits for it; otherwise it belongs to the first waiter's task, which has
  yet to take it.\<close>

definition handed_over :: "nat \<Rightarrow> nat option \<Rightarrow> rtm \<Rightarrow> rtm \<Rightarrow> bool" where
  "handed_over l u s s' \<longleftrightarrow> (\<forall>k. k \<noteq> l \<longrightarrow> own s' k = own s k \<and> pend s' k = pend s k) \<and> own s' l = u \<and> (\<forall>x. wlock s' x = wlock s x) \<and>
     (case u of
        None \<Rightarrow> wl s l = [] \<and> \<not> pend s' l \<and> (\<forall>r. blk s' r = blk s r) \<and> (\<forall>x. wtask s' x = wtask s x)
      | Some t \<Rightarrow> wl s l \<noteq> [] \<and> blk s t = Some (hd (wl s l)) \<and> pend s' l \<and> (\<forall>r. blk s' r = (if r = t then None else blk s r)) \<and>
          (\<forall>x. wtask s' x = (if x = hd (wl s l) then None else wtask s x)))"

lemma unlock_ok:
  assumes ok: "rtm_ok s" and o: "own s l = Some cur"
  shows "\<exists>u s'. rt_mutex_slowunlock cur l s = Some (u, s') \<and> rtm_ok s' \<and> handed_over l u s s'"
proof (cases "wl s l = []")
  case True
  define s' where "s' = upd_lock l (\<lambda>k. k\<lparr>lk_owner := None, lk_pending := False, lk_has_waiters := False\<rparr>) s"
  have run: "rt_mutex_slowunlock cur l s = Some (None, s')" using True by (simp add: rt_mutex_slowunlock_def rt_mutex_has_waiters_def s'_def)
  have v: "wl s' k = wl s k" "own s' k = (if k = l then None else own s k)" "pend s' k = (if k = l then False else pend s k)"
    "rt_waiters s' = rt_waiters s" "rt_tasks s' = rt_tasks s" for k by (simp_all add: s'_def upd_lock_def)
  have "rtm_ok s'" by (rule unqueued_ok[OF ok True]) (simp_all add: v)
  then show ?thesis using run True by (simp add: handed_over_def v)
next
  case False
  from wakeup_ok[OF ok o False] obtain t s1 where t: "wakeup_next_waiter cur l s = Some (t, s1)" "rtm_ok s1" "blk s t = Some (hd (wl s l))"
    "\<forall>r. blk s1 r = (if r = t then None else blk s r)" "\<forall>x. wtask s1 x = (if x = hd (wl s l) then None else wtask s x)"
    "\<forall>x. wlock s1 x = wlock s x" "own s1 l = Some t" "pend s1 l"
    "\<forall>k. k \<noteq> l \<longrightarrow> own s1 k = own s k \<and> pend s1 k = pend s k" by blast
  then have "rt_mutex_slowunlock cur l s = Some (Some t, rt_mutex_adjust_prio cur s1)"
    using False by (simp add: rt_mutex_slowunlock_def rt_mutex_has_waiters_def)
  then show ?thesis using t False by (simp add: handed_over_def)
qed

lemma set_normal_prio_ok:
  assumes ok: "rtm_ok s"
  shows "\<exists>s'. set_normal_prio t p s = Some s' \<and> rtm_ok s' \<and> same_places s s'"
proof -
  define s1 where "s1 = (let s = upd_task t (\<lambda>k. k\<lparr>rt_normal_prio := p\<rparr>) s in upd_task t (\<lambda>k. k\<lparr>rt_prio := rt_mutex_getprio t s\<rparr>) s)"
  have v: "rt_waiters s1 = rt_waiters s" "rt_locks s1 = rt_locks s" "piw s1 r = piw s r" "blk s1 r = blk s r" for r
    by (simp_all add: s1_def Let_def upd_task_def)
  have ok1: "rtm_ok s1" using ok by (simp add: rtm_ok_def waiters_ok_def inherits_ok_def v)
  have pl: "same_places s s1" by (simp add: same_places_def v)
  have run: "set_normal_prio t p s = rt_mutex_adjust_pi t s1" by (simp add: set_normal_prio_def s1_def Let_def)
  show ?thesis
  proof (cases "rt_mutex_adjust_pi t s1 = Some s1")
    case True
    then show ?thesis using run ok1 pl by simp
  next
    case False
    then have r: "rt_mutex_adjust_pi t s1 = map_option snd (rt_mutex_adjust_prio_chain t False None None t (get_task t s1))"
      by (auto simp: rt_mutex_adjust_pi_def split: option.splits if_splits)
    have "same_places s (get_task t s1)" using pl by (simp add: same_places_def)
    from walk_ends_trans[OF this walk_ok[of "get_task t s1" False t None None t]] show ?thesis
      using ok1 run r by (auto simp: walk_ends_def)
  qed
qed

subsection \<open>Locks on behalf of another task\<close>

text \<open>A lock nobody waits for may be set up anew, locked for another task or released for it.\<close>

lemma proxy_ok:
  assumes "rtm_ok s" "wl s l = []"
  shows "rtm_ok (rt_mutex_init l s)" "rtm_ok (rt_mutex_init_proxy_locked l t s)" "rtm_ok (rt_mutex_proxy_unlock l s)"
proof -
  show "rtm_ok (rt_mutex_init l s)" by (rule unqueued_ok[OF assms]) (use assms(2) in \<open>simp_all add: rt_mutex_init_def upd_lock_def\<close>)
  show "rtm_ok (rt_mutex_init_proxy_locked l t s)"
    by (rule unqueued_ok[OF assms])
      (use assms(2) in \<open>simp_all add: rt_mutex_init_proxy_locked_def rt_mutex_set_owner_def rt_mutex_init_def upd_lock_def\<close>)
  show "rtm_ok (rt_mutex_proxy_unlock l s)"
    by (rule unqueued_ok[OF assms]) (simp_all add: rt_mutex_proxy_unlock_def rt_mutex_set_owner_def upd_lock_def)
qed

lemma next_owner_ok:
  assumes "rtm_ok s" "rt_mutex_slowunlock cur l s = Some (u, s')" "own s l = Some cur"
  shows "rt_mutex_next_owner l s = Some u"
proof -
  have "handed_over l u s s'" using unlock_ok[OF assms(1,3)] assms(2) by auto
  then show ?thesis using assms(1) rt_mutex_top_waiter_ok[of s l] waiters_okD(5)[of s _ "hd (wl s l)"]
    by (cases u) (auto simp: handed_over_def rt_mutex_next_owner_def rt_mutex_has_waiters_def rtm_ok_def)
qed

end
