(* ===== verification/Rtmutex_Boost.thy ===== *)
theory Rtmutex_Boost
  imports Rtmutex_Ops
begin

text \<open>
  Priority inheritance: a task that joins a queue as its first waiter leaves the owner of the lock with at least its
  priority, also when the walk goes on along the chain of locks the owner is blocked on.
\<close>

subsection \<open>The owner inherits the priority of a task that blocks\<close>

lemma getprio_le:
  assumes "inherits_ok s" "w \<in> set (piw s t)"
  shows "rt_mutex_getprio t s \<le> piprio s w"
proof -
  obtain v vs where v: "piw s t = v # vs" using assms(2) by (cases "piw s t") auto
  have "piprio s v \<le> piprio s w" using inherits_okD(2)[OF assms(1), of t] assms(2) v by auto
  then show ?thesis by (simp add: rt_mutex_getprio_def v)
qed

text \<open>What the walk keeps after the waiter \<open>w\<close> of \<open>cur\<close> has joined the queue \<open>q\<close> of the lock \<open>l\<close>: the queue, the priority of
  \<open>cur\<close>, and the boost of the owner when the waiter is the first.\<close>

definition boosted :: "nat \<Rightarrow> nat \<Rightarrow> nat \<Rightarrow> nat \<Rightarrow> nat list \<Rightarrow> rtm \<Rightarrow> bool" where
  "boosted cur ow l w q s \<longleftrightarrow> wl s l = q \<and> wlock s w = l \<and>
     (w = hd q \<longrightarrow> w \<in> set (piw s ow) \<and> piprio s w = rt_prio (rt_tasks s cur) \<and> rt_prio (rt_tasks s ow) \<le> rt_prio (rt_tasks s cur))"

lemma counted_prio [simp]:
  "rt_prio (rt_tasks (get_task t s) r) = rt_prio (rt_tasks s r)" "rt_prio (rt_tasks (put_task t s) r) = rt_prio (rt_tasks s r)"
  by (simp_all add: get_task_def put_task_def upd_task_def)

lemma boosted_counts [simp]: "boosted cur ow l w q (put_task t s) = boosted cur ow l w q s" "boosted cur ow l w q (get_task t s) = boosted cur ow l w q s"
  by (simp_all add: boosted_def)

lemma top_waiter_lock: "rt_mutex_top_waiter l s = Some w \<Longrightarrow> wlock s w = l"
  by (auto simp: rt_mutex_top_waiter_def split: list.splits if_splits)

lemma follow_boosted:
  assumes b: "boosted cur ow l w q g" and ok: "inherits_ok (follow u x t g)" and k: "wlock g u = k" "wlock g x = k" "k \<noteq> l" and t: "t \<noteq> cur"
  shows "boosted cur ow l w q (rt_mutex_adjust_prio t (follow u x t g))"
proof -
  have pr: "rt_prio (rt_tasks (follow u x t g) r) = rt_prio (rt_tasks g r)" for r by (simp add: follow_def pi_add_def pi_del_def upd_defs)
  have w: "w \<noteq> u" "w \<noteq> x" using b k by (auto simp: boosted_def)
  have "w \<in> set (piw (follow u x t g) ow)" if "w \<in> set (piw g ow)" using that w by (auto simp: follow_views insert_prio_set)
  moreover have "rt_mutex_getprio t (follow u x t g) \<le> piprio g w" if "w \<in> set (piw g ow)" "ow = t"
    using getprio_le[OF ok, of w t] calculation that w by (simp add: follow_prio)
  ultimately show ?thesis using b t w by (auto simp: boosted_def adjusted_prio pr follow_views follow_prio)
qed

lemma chain_requeue_boosted:
  assumes ok: "rtm_ok s" and v: "blk s t = Some v" "wlock s v = k" and r: "chain_requeue t v k s = Some (t', v', s')"
    and b: "boosted cur ow l w q s" and k: "k \<noteq> l" "own s k \<noteq> Some cur"
  shows "boosted cur ow l w q s'"
proof -
  define g where "g = get_task t' (put_task t (requeue t v k s))"
  have c: "own s k = Some t'" "rtm_ok s'" using chain_requeue_ok[OF ok v(1) v(2)[symmetric]] r by auto
  have run: "chain_requeue t v k s = do {
      u \<leftarrow> rt_mutex_top_waiter k s;
      x \<leftarrow> rt_mutex_top_waiter k g;
      Some (if v = x then (t', v, rt_mutex_adjust_prio t' (follow u v t' g))
        else if u = v then (t', x, rt_mutex_adjust_prio t' (follow v x t' g)) else (t', v, g)) }"
    unfolding chain_requeue_eq c Option.bind.bind_lunit Let_def g_def[symmetric] ..
  obtain x u where x: "rt_mutex_top_waiter k s = Some u" "rt_mutex_top_waiter k g = Some x"
    "s' = (if v = x then rt_mutex_adjust_prio t' (follow u v t' g) else if u = v then rt_mutex_adjust_prio t' (follow v x t' g) else g)"
    using r unfolding run by (auto simp: bind_eq_Some_conv split: if_splits)
  have e: "wlock g y = wlock s y" "piprio g y = piprio s y" "wl g l = wl s l" "piw g y = piw s y" "rt_prio (rt_tasks g y) = rt_prio (rt_tasks s y)" for y
    using k(1) by (simp_all add: g_def requeue_views)
  have bg: "boosted cur ow l w q g" using b by (simp add: boosted_def e)
  have locks: "wlock g u = k" "wlock g x = k" "wlock g v = k" using top_waiter_lock[OF x(1)] top_waiter_lock[OF x(2)] v(2) by (simp_all add: e)
  have "inherits_ok (follow a c t' g)" if "s' = rt_mutex_adjust_prio t' (follow a c t' g)" for a c
    using c(2) that by (simp add: rtm_ok_def inherits_ok_def)
  then show ?thesis using x(3) bg follow_boosted[OF bg _ _ _ k(1)] locks k(2) c(1) by (simp split: if_splits)
qed

lemma walk_boosted:
  "rtm_ok s \<Longrightarrow> boosted cur ow l w q s \<Longrightarrow> adjust_prio_chain n t tw dd (Some l) orig_waiter cur s = Some (r, s') \<Longrightarrow> boosted cur ow l w q s'"
proof (induction n arbitrary: t tw s)
  case (Suc n)
  show ?case
  proof (cases "blk s t")
    case (Some v)
    let ?k = "wlock s v"
    obtain t' v' s1 where s1: "chain_requeue t v ?k s = Some (t', v', s1)" "rtm_ok s1" using chain_requeue_ok[OF Suc.prems(1) Some refl] by blast
    have b1: "boosted cur ow l w q s1" if "?k \<noteq> l" "own s ?k \<noteq> Some cur"
      using chain_requeue_boosted[OF Suc.prems(1) Some refl s1(1) Suc.prems(2)] that by simp
    show ?thesis using Suc.prems Suc.IH[OF s1(2) b1] b1
      by (auto simp: Let_def Some s1(1) rt_mutex_owner_def split: if_splits option.splits)
  qed (use Suc.prems in auto)
qed auto

lemma block_boosts:
  assumes ok: "rtm_ok s" and b: "blk s cur = None" and w: "wtask s w = None" and o: "own s l = Some ow" "ow \<noteq> cur"
    and r: "task_blocks_on_rt_mutex cur l w dd s = Some (r, s')" and hd: "hd (wl s' l) = w"
  shows "rt_prio (rt_tasks s' ow) \<le> rt_prio (rt_tasks s' cur)"
proof -
  let ?q = "queued ow cur l w s"
  have pr: "rt_prio (rt_tasks (follow a c t g) x) = rt_prio (rt_tasks g x)" for a c t g x by (simp add: follow_def pi_add_def pi_del_def upd_defs)
  have okq: "rtm_ok ?q" using queued_ok(1)[OF ok b w o(1)] .
  have "boosted cur ow l w (wl ?q l) ?q"
  proof -
    have "w \<in> set (piw ?q ow) \<and> piprio ?q w = rt_prio (rt_tasks ?q cur) \<and> rt_prio (rt_tasks ?q ow) \<le> rt_prio (rt_tasks ?q cur)" if h: "w = hd (wl ?q l)"
    proof -
      obtain u where q: "?q = rt_mutex_adjust_prio ow (follow u w ow (enqueue cur l w (prepare cur l w s)))"
        using h by (auto simp: queued_def Let_def boost_def boost_views split: if_splits)
      let ?f = "follow u w ow (enqueue cur l w (prepare cur l w s))"
      have i: "inherits_ok ?f" using okq by (simp add: q rtm_ok_def inherits_ok_def)
      have m: "w \<in> set (piw ?f ow)" "piprio ?f w = rt_mutex_getprio cur s" by (simp_all add: follow_views(9) follow_prio insert_prio_set enqueue_views prepare_views)
      then show ?thesis using getprio_le[OF i m(1)] o(2) by (simp add: q adjusted_prio pr enqueue_views prepare_views)
    qed
    then show ?thesis by (simp add: boosted_def queued_views)
  qed
  then have "boosted cur ow l w (wl ?q l) s'"
    using r walk_boosted[of "get_task ow ?q"] okq unfolding block_run[OF ok b w o(1)] rt_mutex_adjust_prio_chain_def by (auto split: if_splits)
  then show ?thesis using hd by (auto simp: boosted_def)
qed

end
