(* ===== verification/Rtmutex_Prio.thy ===== *)
theory Rtmutex_Prio
  imports Rtmutex_Boost
begin

text \<open>
  The priorities of the real-time mutexes stay in range, so that the \<^verbatim>\<open>BUG_ON\<close> of \<^verbatim>\<open>rt_mutex_setprio\<close> is never met: a task
  gets its own priority or that of a waiter, and a waiter that of a task. The invariant speaks of the waiters that are in a
  queue, on a task's list or named by a blocked task; the others are stack memory with any contents.
\<close>

definition valid_prio :: "int \<Rightarrow> bool" where
  "valid_prio p \<longleftrightarrow> 0 \<le> p \<and> p < MAX_PRIO"

definition prios_ok :: "rtm \<Rightarrow> bool" where
  "prios_ok s \<longleftrightarrow> \<not> rt_bug s \<and>
     (\<forall>t. valid_prio (rt_prio (rt_tasks s t)) \<and> valid_prio (rt_normal_prio (rt_tasks s t))) \<and>
     (\<forall>l. \<forall>w\<in>set (wl s l). valid_prio (lprio s w) \<and> valid_prio (piprio s w)) \<and>
     (\<forall>t. \<forall>w\<in>set (piw s t). valid_prio (piprio s w)) \<and>
     (\<forall>t w. blk s t = Some w \<longrightarrow> valid_prio (piprio s w))"

lemma prios_okD:
  assumes "prios_ok s"
  shows "\<not> rt_bug s" "valid_prio (rt_prio (rt_tasks s t))" "valid_prio (rt_normal_prio (rt_tasks s t))"
    "w \<in> set (wl s l) \<Longrightarrow> valid_prio (lprio s w)" "w \<in> set (wl s l) \<Longrightarrow> valid_prio (piprio s w)"
    "w \<in> set (piw s t) \<Longrightarrow> valid_prio (piprio s w)" "blk s t = Some w \<Longrightarrow> valid_prio (piprio s w)"
  using assms unfolding prios_ok_def by blast+

lemma set_remove1_in: "x \<in> set (remove1 w ws) \<Longrightarrow> x \<in> set ws"
  using notin_set_remove1[of x ws w] by blast

lemma getprio_valid: "prios_ok s \<Longrightarrow> valid_prio (rt_mutex_getprio t s)"
  using prios_okD(3)[of s t] prios_okD(6)[of s _ t] by (auto simp: rt_mutex_getprio_def min_def split: list.split)

named_theorems prios "what keeps the priorities in range"

lemma prios_adjust [prios]: "prios_ok s \<Longrightarrow> prios_ok (rt_mutex_adjust_prio t s)"
proof -
  assume p: "prios_ok s"
  have "valid_prio (rt_mutex_getprio t s)" by (rule getprio_valid[OF p])
  then show ?thesis using p by (auto simp: prios_ok_def rt_mutex_adjust_prio_def rt_setprio_def upd_task_def Let_def valid_prio_def)
qed

lemma prios_simple [prios]:
  assumes "prios_ok s"
  shows "prios_ok (wait_del w l s)" "prios_ok (pi_del w t s)" "prios_ok (get_task t s)" "prios_ok (put_task t s)"
    "prios_ok (mark_rt_mutex_waiters l s)" "prios_ok (fixup_rt_mutex_waiters l s)" "prios_ok (rt_mutex_set_owner l a b s)"
    "prios_ok (upd_waiter w (\<lambda>k. k\<lparr>w_task := x\<rparr>) s)" "prios_ok (upd_task t (\<lambda>k. k\<lparr>pi_blocked_on := None\<rparr>) s)"
    "prios_ok (upd_lock l (\<lambda>k. k\<lparr>lk_owner := a, lk_pending := b, lk_has_waiters := c\<rparr>) s)"
  using assms
  by (auto simp: prios_ok_def wait_del_def pi_del_def get_task_def put_task_def mark_rt_mutex_waiters_def fixup_rt_mutex_waiters_def
      clear_rt_mutex_waiters_def rt_mutex_set_owner_def upd_task_def upd_lock_def upd_waiter_def dest!: set_remove1_in)

lemma prios_wait_add [prios]: "prios_ok s \<Longrightarrow> valid_prio (lprio s w) \<Longrightarrow> valid_prio (piprio s w) \<Longrightarrow> prios_ok (wait_add w l s)"
  by (auto simp: prios_ok_def wait_add_def upd_lock_def insert_prio_set)

lemma prios_pi_add [prios]: "prios_ok s \<Longrightarrow> valid_prio (piprio s w) \<Longrightarrow> prios_ok (pi_add w t s)"
  by (auto simp: prios_ok_def pi_add_def upd_task_def insert_prio_set)

lemma prios_lprio [prios]: "prios_ok s \<Longrightarrow> valid_prio p \<Longrightarrow> prios_ok (upd_waiter w (\<lambda>k. k\<lparr>w_prio := p\<rparr>) s)"
  by (auto simp: prios_ok_def upd_waiter_def)

lemma prios_piprio [prios]: "prios_ok s \<Longrightarrow> valid_prio (lprio s w) \<Longrightarrow> prios_ok (upd_waiter w (\<lambda>k. k\<lparr>w_pi_prio := w_prio k\<rparr>) s)"
  by (auto simp: prios_ok_def upd_waiter_def)

lemma prios_prio: "prios_ok s \<Longrightarrow> valid_prio p \<Longrightarrow> prios_ok (upd_task t (\<lambda>k. k\<lparr>rt_prio := p\<rparr>) s)"
  by (auto simp: prios_ok_def upd_task_def)

lemma top_waiter_in: "rt_mutex_top_waiter l s = Some w \<Longrightarrow> w \<in> set (wl s l)"
  by (auto simp: rt_mutex_top_waiter_def split: list.splits if_splits)

lemma piprio_upd: "piprio (upd_waiter w (\<lambda>k. k\<lparr>w_pi_prio := w_prio k\<rparr>) s) w = lprio s w"
  by (simp add: upd_waiter_def)

subsection \<open>The walk\<close>

lemma chain_requeue_prios:
  assumes p: "prios_ok s" and w: "valid_prio (piprio s w)" and c: "chain_requeue t w l s = Some (ow, x, s')"
  shows "prios_ok s'"
proof -
  let ?a = "upd_waiter w (\<lambda>k. k\<lparr>w_prio := rt_prio (rt_tasks (wait_del w l s) t)\<rparr>) (wait_del w l s)"
  let ?b = "put_task t (wait_add w l ?a)"
  have a: "prios_ok ?a" using prios_okD(2)[OF prios_simple(1)[OF p]] p by (intro prios) auto
  have "valid_prio (lprio ?a w)" "valid_prio (piprio ?a w)"
    using w prios_okD(2)[OF prios_simple(1)[OF p]] by (simp_all add: upd_waiter_def wait_del_def upd_lock_def)
  then have b: "prios_ok ?b" using a by (intro prios_simple prios_wait_add)
  obtain b where b': "b = ?b" by blast
  let ?f = "\<lambda>v u ow. rt_mutex_adjust_prio ow (pi_add u ow (upd_waiter u (\<lambda>k. k\<lparr>w_pi_prio := w_prio k\<rparr>) (pi_del v ow (get_task ow b))))"
  have eq: "chain_requeue t w l s = do {
      tw \<leftarrow> rt_mutex_top_waiter l s;
      ow \<leftarrow> rt_mutex_owner l b;
      tw' \<leftarrow> rt_mutex_top_waiter l (get_task ow b);
      if w = tw' then Some (ow, w, ?f tw w ow) else if tw = w then Some (ow, tw', ?f w tw' ow) else Some (ow, w, get_task ow b) }"
    by (simp only: chain_requeue_def Let_def b')
  have g: "prios_ok (get_task ow b)" for ow using prios_simple(3)[OF b] by (simp only: b')
  have f: "prios_ok (?f v u ow)" if "rt_mutex_top_waiter l (get_task ow b) = Some u" for v u ow
  proof -
    have v: "valid_prio (lprio (pi_del v ow (get_task ow b)) u)"
      using prios_okD(4)[OF g top_waiter_in[OF that]] by (simp add: pi_del_def upd_task_def)
    show ?thesis by (intro prios_adjust prios_pi_add prios_piprio prios_simple(2) g v) (simp only: piprio_upd v)
  qed
  show ?thesis using c[unfolded eq] f g by (auto simp: bind_eq_Some_conv split: if_splits)
qed

lemma chain_prios: "adjust_prio_chain n t tw dd ol ow tt s = Some (r, s') \<Longrightarrow> prios_ok s \<Longrightarrow> prios_ok s'"
proof (induction n arbitrary: t tw s)
  case (Suc n)
  show ?case
  proof (cases "pi_blocked_on (rt_tasks s t)")
    case None then show ?thesis using Suc.prems by (auto intro: prios)
  next
    case (Some w)
    have req: "prios_ok s1" if "chain_requeue t w (w_lock (rt_waiters s w)) s = Some (a, b, s1)" for a b s1
      using chain_requeue_prios[OF Suc.prems(2) _ that] prios_okD(7)[OF Suc.prems(2) Some] by blast
    show ?thesis using Suc.prems Some req Suc.IH
      by (auto simp: Let_def intro: prios split: if_splits option.splits prod.splits)
  qed
qed (auto intro: prios)

lemma adjust_prio_chain_prios: "rt_mutex_adjust_prio_chain t dd ol ow tt s = Some (r, s') \<Longrightarrow> prios_ok s \<Longrightarrow> prios_ok s'"
  unfolding rt_mutex_adjust_prio_chain_def by (rule chain_prios)

subsection \<open>The operations\<close>

lemma steal_prios:
  assumes p: "prios_ok s" and r: "try_to_steal_lock cur l s = Some (ok, s')"
  shows "prios_ok s'"
proof -
  have "prios_ok (rt_mutex_adjust_prio cur (pi_add w cur (rt_mutex_adjust_prio po (pi_del w po s))))"
    if "rt_mutex_top_waiter l s = Some w" for w po
  proof -
    have v: "valid_prio (piprio (rt_mutex_adjust_prio po (pi_del w po s)) w)"
      using prios_okD(5)[OF p top_waiter_in[OF that]]
      by (simp add: rt_mutex_adjust_prio_def rt_setprio_def pi_del_def upd_task_def Let_def)
    show ?thesis by (intro prios_adjust prios_pi_add prios_simple p v)
  qed
  moreover have "prios_ok (rt_mutex_adjust_prio po (pi_del w po s))" for w po by (intro prios_adjust prios_simple p)
  ultimately show ?thesis
    using r p by (auto simp: try_to_steal_lock_def Let_def bind_eq_Some_conv split: if_splits option.splits)
qed

lemma take_prios: "try_to_take_rt_mutex cur l s = Some (ok, s') \<Longrightarrow> prios_ok s \<Longrightarrow> prios_ok s'"
  using steal_prios[OF prios_simple(5)] prios_simple(5,7)
  by (auto simp: try_to_take_rt_mutex_def Let_def bind_eq_Some_conv split: if_splits)

lemma blocks_prios:
  assumes p: "prios_ok s" and r: "task_blocks_on_rt_mutex cur l w dd s = Some (ret, s')"
  shows "prios_ok s'"
proof -
  let ?a = "rt_mutex_adjust_prio cur s"
  let ?p = "rt_prio (rt_tasks ?a cur)"
  let ?b = "upd_waiter w (\<lambda>k. k\<lparr>w_task := Some cur, w_lock := l, w_prio := ?p, w_pi_prio := ?p\<rparr>) ?a"
  let ?c = "upd_task cur (\<lambda>k. k\<lparr>pi_blocked_on := Some w\<rparr>) (wait_add w l ?b)"
  have a: "prios_ok ?a" by (rule prios_adjust[OF p])
  have vp: "valid_prio ?p" by (rule prios_okD(2)[OF a])
  have b: "prios_ok ?b" using a vp by (auto simp: prios_ok_def upd_waiter_def)
  have vb: "lprio ?b w = ?p" "piprio ?b w = ?p" by (simp_all add: upd_waiter_def)
  have "prios_ok (wait_add w l ?b)" by (rule prios_wait_add[OF b]) (simp_all only: vb vp)
  moreover have pc: "piprio (wait_add w l ?b) w = ?p" using vb(2) by (simp add: wait_add_def upd_lock_def)
  ultimately have c: "prios_ok ?c" using vp by (auto simp: prios_ok_def upd_task_def)
  have pw: "valid_prio (piprio (pi_del v ow ?c) w)" for v ow using pc vp by (simp add: pi_del_def upd_task_def)
  have d: "prios_ok (rt_mutex_adjust_prio ow (pi_add w ow (pi_del v ow ?c)))" for v ow
    by (intro prios_adjust prios_pi_add prios_simple c pw)
  have chain: "prios_ok x'" if "rt_mutex_adjust_prio_chain ow dd (Some l) (Some w) cur (get_task ow x) = Some (k, x')" "prios_ok x" for ow x k x'
    using adjust_prio_chain_prios[OF that(1)] that(2) prios_simple(3) by blast
  obtain b' c' where bc: "b' = ?b" "c' = ?c" by blast
  have eq: "task_blocks_on_rt_mutex cur l w dd s = do {
      ow \<leftarrow> rt_mutex_owner l s;
      tw \<leftarrow> (if rt_mutex_has_waiters l b' then rt_mutex_top_waiter l b' else Some w);
      tw' \<leftarrow> rt_mutex_top_waiter l c';
      let x = rt_mutex_adjust_prio ow (pi_add w ow (pi_del tw ow c'));
      if w = tw' then if blk x ow = None then Some (0, x) else rt_mutex_adjust_prio_chain ow dd (Some l) (Some w) cur (get_task ow x)
      else rt_mutex_adjust_prio_chain ow dd (Some l) (Some w) cur (get_task ow c') }"
    unfolding task_blocks_on_rt_mutex_def Let_def bc by (intro Option.bind_cong refl) simp
  have "prios_ok c'" "prios_ok (rt_mutex_adjust_prio ow (pi_add w ow (pi_del v ow c')))" for v ow using c d by (simp_all add: bc)
  then show ?thesis using r[unfolded eq Let_def] chain by (auto simp: bind_eq_Some_conv split: if_splits)
qed

lemma wakeup_prios:
  assumes p: "prios_ok s" and r: "wakeup_next_waiter cur l s = Some (t, s')"
  shows "prios_ok s'"
proof -
  have add: "prios_ok (pi_add v u x)" if "rt_mutex_top_waiter l x = Some v" "prios_ok x" for v u x
    using prios_okD(5)[OF that(2) top_waiter_in[OF that(1)]] that(2) by (rule prios_pi_add[rotated])
  show ?thesis using r by (auto simp: wakeup_next_waiter_def Let_def bind_eq_Some_conv intro!: add prios_simple p split: if_splits)
qed

lemma remove_prios:
  assumes p: "prios_ok s" and r: "remove_waiter cur l w s = Some s'"
  shows "prios_ok s'"
proof -
  let ?d = "upd_task cur (\<lambda>k. k\<lparr>pi_blocked_on := None\<rparr>) (upd_waiter w (\<lambda>k. k\<lparr>w_task := None\<rparr>) (wait_del w l s))"
  have d: "prios_ok ?d" by (intro prios_simple p)
  have add: "prios_ok (pi_add v u x)" if "rt_mutex_top_waiter l x = Some v" "prios_ok x" for v u x
    using prios_okD(5)[OF that(2) top_waiter_in[OF that(1)]] that(2) by (rule prios_pi_add[rotated])
  have chain: "prios_ok x'" if "rt_mutex_adjust_prio_chain u False (Some l) None cur (get_task u x) = Some (k, x')" "prios_ok x" for u x k x'
    using adjust_prio_chain_prios[OF that(1)] that(2) prios_simple(3) by blast
  obtain d where dd: "d = ?d" by blast
  obtain n where n: "n = (\<lambda>ow. if rt_mutex_has_waiters l (pi_del w ow d) then do { nxt \<leftarrow> rt_mutex_top_waiter l (pi_del w ow d); Some (pi_add nxt ow (pi_del w ow d)) }
      else Some (pi_del w ow d))" by blast
  have eq: "remove_waiter cur l w s = do {
      tw \<leftarrow> rt_mutex_top_waiter l s;
      if w = tw \<and> rt_mutex_owner l s \<noteq> Some cur then do {
        ow \<leftarrow> rt_mutex_owner l s;
        x \<leftarrow> n ow;
        if blk (rt_mutex_adjust_prio ow x) ow = None then Some (rt_mutex_adjust_prio ow x)
        else map_option snd (rt_mutex_adjust_prio_chain ow False (Some l) None cur (get_task ow (rt_mutex_adjust_prio ow x))) }
      else Some d }" by (simp only: remove_waiter_def Let_def dd n)
  have pd: "prios_ok d" "prios_ok (pi_del w ow d)" for ow using prios_simple(2)[OF d] d by (simp_all add: dd)
  have one: "prios_ok (rt_mutex_adjust_prio ow x)" if "n ow = Some x" for ow x
    by (rule prios_adjust) (use that pd(2)[of ow] add in \<open>auto simp: n bind_eq_Some_conv split: if_splits\<close>)
  show ?thesis using r[unfolded eq] pd(1) one chain[OF _ one] by (auto simp: bind_eq_Some_conv split: if_split_asm)
qed

lemma adjust_pi_prios: "rt_mutex_adjust_pi t s = Some s' \<Longrightarrow> prios_ok s \<Longrightarrow> prios_ok s'"
  using adjust_prio_chain_prios prios_simple(3) by (auto simp: rt_mutex_adjust_pi_def split: option.splits if_splits)

lemma end_prios: "slowlock_end cur l w ret s = Some (r, s') \<Longrightarrow> prios_ok s \<Longrightarrow> prios_ok s'"
  using prios_simple(6) prios_adjust[OF prios_simple(6)] remove_prios[of s cur l w]
  by (auto simp: slowlock_end_def Let_def bind_eq_Some_conv split: if_splits)

lemma pass_prios:
  assumes p: "prios_ok s" and r: "slowlock_pass cur l w i sg ex dd s = Some (r, s')"
  shows "prios_ok s'"
proof -
  obtain ok s1 where t: "try_to_take_rt_mutex cur l s = Some (ok, s1)" and
    rest: "(if ok then slowlock_end cur l w 0 s1
     else let ret = (if i then if ex then - ETIMEDOUT else if sg then - EINTR else 0 else 0)
     in if ret \<noteq> 0 then slowlock_end cur l w ret s1
     else if w_task (rt_waiters s1 w) = None then do {
       (ret, s) \<leftarrow> task_blocks_on_rt_mutex cur l w dd s1;
       if w_task (rt_waiters s w) = None then Some (Again, s)
       else if ret \<noteq> 0 then slowlock_end cur l w ret s
       else Some (Sleeps, s) }
     else Some (Sleeps, s1)) = Some (r, s')"
    using r by (auto simp: slowlock_pass_def bind_eq_Some_conv)
  have p1: "prios_ok s1" by (rule take_prios[OF t p])
  show ?thesis
    using rest p1 blocks_prios[OF p1] end_prios
    by (auto simp: Let_def bind_eq_Some_conv split: if_splits)
qed

lemma slowlock_prios:
  assumes p: "prios_ok s" and r: "rt_mutex_slowlock cur l w i sg ex dd s = Some (r, s')"
  shows "prios_ok s'"
proof -
  obtain ok s1 where t: "try_to_take_rt_mutex cur l (upd_waiter w (\<lambda>k. k\<lparr>w_task := None\<rparr>) s) = Some (ok, s1)"
    "(if ok then Some (Returns 0, s1) else slowlock_pass cur l w i sg ex dd s1) = Some (r, s')"
    using r by (auto simp: rt_mutex_slowlock_def Let_def bind_eq_Some_conv)
  have "prios_ok s1" by (rule take_prios[OF t(1) prios_simple(8)[OF p]])
  then show ?thesis using t(2) pass_prios by (auto split: if_splits)
qed

lemma trylock_prios: "rt_mutex_slowtrylock cur l s = Some (r, s') \<Longrightarrow> prios_ok s \<Longrightarrow> prios_ok s'"
  using take_prios prios_simple(6) by (auto simp: rt_mutex_slowtrylock_def bind_eq_Some_conv split: if_splits)

lemma unlock_prios: "rt_mutex_slowunlock cur l s = Some (r, s') \<Longrightarrow> prios_ok s \<Longrightarrow> prios_ok s'"
  using wakeup_prios prios_adjust prios_simple(10) by (auto simp: rt_mutex_slowunlock_def bind_eq_Some_conv split: if_splits)

lemma set_normal_prio_prios:
  assumes p: "prios_ok s" and v: "valid_prio q" and r: "set_normal_prio t q s = Some s'"
  shows "prios_ok s'"
proof -
  let ?a = "upd_task t (\<lambda>k. k\<lparr>rt_normal_prio := q\<rparr>) s"
  have a: "prios_ok ?a" using p v by (auto simp: prios_ok_def upd_task_def)
  have "prios_ok (upd_task t (\<lambda>k. k\<lparr>rt_prio := rt_mutex_getprio t ?a\<rparr>) ?a)"
    by (rule prios_prio[OF a getprio_valid[OF a]])
  then show ?thesis using r adjust_pi_prios by (simp add: set_normal_prio_def Let_def)
qed

end
