(* ===== verification/Rtmutex_System.thy ===== *)
theory Rtmutex_System
  imports Rtmutex_Prio
begin

text \<open>
  Any number of tasks that lock, try and unlock real-time mutexes, with signals, timeouts, stray wakeups and changes of
  priority at any time. The reachable states are consistent, locks exclude each other's holders, and blocking boosts the
  owner; two runs show where the code loses a boost and where it leaves a pointer to a dead variable.
\<close>

subsection \<open>Tasks that lock and unlock\<close>

text \<open>A call of \<^verbatim>\<open>rt_mutex_slowlock\<close> that sleeps: the lock, the waiter on the task's stack, and how it waits.\<close>

record rt_wait =
  rw_lock :: nat
  rw_waiter :: nat
  rw_intr :: bool
  rw_detect :: bool

text \<open>Of every task: where it sleeps, and the locks it got and has not given back.\<close>

record rt_system =
  rts :: rtm
  pc :: "nat \<Rightarrow> rt_wait option"
  holds :: "nat \<Rightarrow> nat list"

datatype rt_event = Lock nat rt_wait bool bool | Resume nat bool bool | Trylock nat nat | Unlock nat nat | Setprio nat int

definition after_pass :: "nat \<Rightarrow> rt_wait \<Rightarrow> rt_system \<Rightarrow> pass \<times> rtm \<Rightarrow> rt_system" where
  "after_pass t p y = (\<lambda>(r, s). y\<lparr>rts := s, pc := (pc y)(t := case r of Returns _ \<Rightarrow> None | _ \<Rightarrow> Some p),
     holds := (holds y)(t := if r = Returns 0 then rw_lock p # holds y t else holds y t)\<rparr>)"

definition rt_lock_call :: "nat \<Rightarrow> rt_wait \<Rightarrow> bool \<Rightarrow> bool \<Rightarrow> rtm \<Rightarrow> (pass \<times> rtm) option" where
  "rt_lock_call t p signal expired s =
     (if rw_intr p then rt_mutex_timed_lock t (rw_lock p) (rw_waiter p) signal expired (rw_detect p) s
      else rt_mutex_lock t (rw_lock p) (rw_waiter p) s)"

lemma rt_lock_call_slow: "\<exists>i sg ex dd. rt_lock_call t p signal expired s = rt_mutex_slowlock t (rw_lock p) (rw_waiter p) i sg ex dd s"
  by (auto simp: rt_lock_call_def rt_mutex_timed_lock_def rt_mutex_lock_def)

text \<open>\<open>None\<close> is again a \<^verbatim>\<open>BUG_ON\<close> or a null pointer. A sleeping task may be woken at any time, with or without a signal or
  the end of its timer.\<close>

fun rt_call :: "rt_event \<Rightarrow> rt_system \<Rightarrow> rt_system option" where
  "rt_call (Lock t p signal expired) y =
     map_option (after_pass t p y) (rt_lock_call t p signal expired (rts y))"
| "rt_call (Resume t signal expired) y = (case pc y t of
     None \<Rightarrow> Some y
   | Some p \<Rightarrow> map_option (after_pass t p y) (slowlock_pass t (rw_lock p) (rw_waiter p) (rw_intr p) signal expired (rw_detect p) (rts y)))"
| "rt_call (Trylock t l) y =
     map_option (\<lambda>(b, s). y\<lparr>rts := s, holds := (holds y)(t := if b then l # holds y t else holds y t)\<rparr>) (rt_mutex_trylock t l (rts y))"
| "rt_call (Unlock t l) y = map_option (\<lambda>(_, s). y\<lparr>rts := s, holds := (holds y)(t := remove1 l (holds y t))\<rparr>) (rt_mutex_unlock t l (rts y))"
| "rt_call (Setprio t p) y = map_option (\<lambda>s. y\<lparr>rts := s\<rparr>) (set_normal_prio t p (rts y))"

text \<open>The \<^verbatim>\<open>BUG_ON\<close> of \<^verbatim>\<open>rt_mutex_setprio\<close> anywhere in a call ends it too.\<close>

definition rt_step :: "rt_event \<Rightarrow> rt_system \<Rightarrow> rt_system option" where
  "rt_step e y = Option.bind (rt_call e y) (\<lambda>y'. if rt_bug (rts y') then None else Some y')"

lemma rt_step_Some: "rt_step e y = Some y' \<longleftrightarrow> rt_call e y = Some y' \<and> \<not> rt_bug (rts y')"
  by (auto simp: rt_step_def bind_eq_Some_conv split: if_splits)

text \<open>What callers keep to: a task that sleeps does nothing else, does not lock what it holds, unlocks only that, and its waiter
  is not a waiter of another sleeping task. A task's own priority is one that \<^verbatim>\<open>normal_prio\<close> computes, between 0 and
  \<^verbatim>\<open>MAX_PRIO - 1\<close>: \<^verbatim>\<open>sched_setscheduler\<close> refuses real-time priorities above \<^verbatim>\<open>MAX_RT_PRIO - 1\<close>.\<close>

fun rt_guard :: "rt_event \<Rightarrow> rt_system \<Rightarrow> bool" where
  "rt_guard (Lock t p signal expired) y \<longleftrightarrow> pc y t = None \<and> rw_lock p \<notin> set (holds y t) \<and> (rw_intr p \<or> \<not> rw_detect p)"
| "rt_guard (Resume t signal expired) y \<longleftrightarrow> pc y t \<noteq> None"
| "rt_guard (Trylock t l) y \<longleftrightarrow> pc y t = None"
| "rt_guard (Unlock t l) y \<longleftrightarrow> pc y t = None \<and> l \<in> set (holds y t)"
| "rt_guard (Setprio t p) y \<longleftrightarrow> valid_prio p"

definition rt_allowed :: "rt_event \<Rightarrow> rt_system \<Rightarrow> bool" where
  "rt_allowed e y \<longleftrightarrow> rt_guard e y \<and>
     (\<forall>t p signal expired u q. e = Lock t p signal expired \<longrightarrow> pc y u = Some q \<longrightarrow> rw_waiter q \<noteq> rw_waiter p)"

definition rt_start :: "(nat \<Rightarrow> int) \<Rightarrow> (nat \<Rightarrow> rt_mutex_waiter) \<Rightarrow> rt_system" where
  "rt_start prio stack = \<lparr>rts = \<lparr>
       rt_tasks = (\<lambda>t. \<lparr>rt_prio = prio t, rt_normal_prio = prio t, pi_waiters = [], pi_blocked_on = None, rt_usage = 1\<rparr>),
       rt_locks = (\<lambda>l. \<lparr>lk_owner = None, lk_pending = False, lk_has_waiters = False, wait_list = []\<rparr>), rt_waiters = stack,
       rt_bug = False\<rparr>,
     pc = (\<lambda>t. None), holds = (\<lambda>t. [])\<rparr>"

inductive rt_reachable :: "rt_system \<Rightarrow> bool" where
  start: "\<forall>t. valid_prio (prio t) \<Longrightarrow> rt_reachable (rt_start prio stack)"
| step: "rt_reachable y \<Longrightarrow> rt_allowed e y \<Longrightarrow> rt_step e y = Some y' \<Longrightarrow> rt_reachable y'"

definition rt_system_ok :: "rt_system \<Rightarrow> bool" where
  "rt_system_ok y \<longleftrightarrow> rtm_ok (rts y) \<and>
     (\<forall>t w. blk (rts y) t = Some w \<longrightarrow> (\<exists>p. pc y t = Some p \<and> rw_waiter p = w \<and> wlock (rts y) w = rw_lock p)) \<and>
     (\<forall>t p. pc y t = Some p \<longrightarrow> rw_lock p \<notin> set (holds y t) \<and> (blk (rts y) t = None \<longrightarrow> wtask (rts y) (rw_waiter p) = None)) \<and>
     (\<forall>t u p q. pc y t = Some p \<longrightarrow> pc y u = Some q \<longrightarrow> rw_waiter p = rw_waiter q \<longrightarrow> t = u) \<and>
     (\<forall>l t. own (rts y) l = Some t \<longrightarrow> pend (rts y) l \<longrightarrow> blk (rts y) t = None \<and> (\<exists>p. pc y t = Some p \<and> rw_lock p = l)) \<and>
     (\<forall>l t. l \<in> set (holds y t) \<longleftrightarrow> own (rts y) l = Some t \<and> \<not> pend (rts y) l) \<and> (\<forall>t. distinct (holds y t))"

lemma rt_system_okD:
  assumes "rt_system_ok y"
  shows "rtm_ok (rts y)" "blk (rts y) t = Some w \<Longrightarrow> \<exists>p. pc y t = Some p \<and> rw_waiter p = w \<and> wlock (rts y) w = rw_lock p"
    "pc y t = Some p \<Longrightarrow> rw_lock p \<notin> set (holds y t)" "pc y t = Some p \<Longrightarrow> blk (rts y) t = None \<Longrightarrow> wtask (rts y) (rw_waiter p) = None"
    "pc y t = Some p \<Longrightarrow> pc y u = Some q \<Longrightarrow> rw_waiter p = rw_waiter q \<Longrightarrow> t = u"
    "own (rts y) l = Some t \<Longrightarrow> pend (rts y) l \<Longrightarrow> blk (rts y) t = None \<and> (\<exists>p. pc y t = Some p \<and> rw_lock p = l)"
    "l \<in> set (holds y t) \<longleftrightarrow> own (rts y) l = Some t \<and> \<not> pend (rts y) l" "distinct (holds y t)"
  using assms unfolding rt_system_ok_def by blast+

lemma after_pass_views:
  "rts (after_pass t p y (r, s)) = s" "pc (after_pass t p y (r, s)) u = (if u = t then case r of Returns _ \<Rightarrow> None | _ \<Rightarrow> Some p else pc y u)"
  "holds (after_pass t p y (r, s)) u = (if u = t \<and> r = Returns 0 then rw_lock p # holds y t else holds y u)"
  by (simp_all add: after_pass_def)

lemma after_pass_sleeps: "pc (after_pass t p y (r, s)) t = Some q \<Longrightarrow> q = p \<and> (r = Sleeps \<or> r = Again)"
  by (cases r) (auto simp: after_pass_views)

lemma after_pass_ok:
  assumes ok: "rt_system_ok y" and s': "rtm_ok s'" "pass_done r t (rw_lock p) (rw_waiter p) (rts y) s'"
    and p: "pc y t = None \<or> pc y t = Some p" "rw_lock p \<notin> set (holds y t)" and new: "\<And>u q. u \<noteq> t \<Longrightarrow> pc y u = Some q \<Longrightarrow> rw_waiter q \<noteq> rw_waiter p"
  shows "rt_system_ok (after_pass t p y (r, s'))"
proof -
  note D = rt_system_okD[OF ok]
  let ?y = "after_pass t p y (r, s')" and ?l = "rw_lock p" and ?w = "rw_waiter p"
  note v = after_pass_views
  have f: "u \<noteq> t \<Longrightarrow> blk s' u = blk (rts y) u" "x \<noteq> ?w \<Longrightarrow> wtask s' x = wtask (rts y) x" "x \<noteq> ?w \<Longrightarrow> wlock s' x = wlock (rts y) x"
    "k \<noteq> ?l \<Longrightarrow> own s' k = own (rts y) k" "k \<noteq> ?l \<Longrightarrow> pend s' k = pend (rts y) k" for u x k
    using s'(2) by (auto simp: pass_done_def pass_frame_def)
  have E: "if r = Returns 0 then own s' ?l = Some t \<and> \<not> pend s' ?l \<and> (own (rts y) ?l = None \<or> pend (rts y) ?l)
      else own s' ?l = own (rts y) ?l \<and> pend s' ?l = pend (rts y) ?l \<and> own (rts y) ?l \<noteq> Some t"
    "case r of Returns e \<Rightarrow> blk s' t = None \<and> wtask s' ?w = None | Sleeps \<Rightarrow> blk s' t = Some ?w \<and> wtask s' ?w = Some t \<and> wlock s' ?w = ?l
      | Again \<Rightarrow> False"
    using s'(2) by (auto simp: pass_done_def)
  have pcs: "u = t \<and> q = p \<or> u \<noteq> t \<and> pc y u = Some q" if "pc ?y u = Some q" for u q
    using that by (cases r) (auto simp: v split: if_splits)
  show ?thesis
    unfolding rt_system_ok_def v(1)
  proof (intro conjI allI impI)
    show "\<exists>q. pc ?y u = Some q \<and> rw_waiter q = w \<and> wlock s' w = rw_lock q" if "blk s' u = Some w" for u w
    proof (cases "u = t")
      case True
      then show ?thesis using that E(2) by (cases r) (auto simp: v)
    next
      case False
      then show ?thesis using that D(2)[of u w] new f by (auto simp: v)
    qed
    fix u q assume q: "pc ?y u = Some q"
    show "rw_lock q \<notin> set (holds ?y u)" using q D(3)[of u q] p(2) by (cases r) (auto simp: v split: if_splits)
    show "wtask s' (rw_waiter q) = None" if "blk s' u = None"
    proof (cases "u = t")
      case True
      then show ?thesis using that E(2) q by (cases r) (auto simp: v)
    next
      case False
      then show ?thesis using that D(4)[of u q] new[of u q] f(1,2) q by (simp add: v)
    qed
    fix u' q' assume "pc ?y u' = Some q'" "rw_waiter q = rw_waiter q'"
    then show "u = u'" using pcs[OF q] pcs[of u' q'] new[of u q] new[of u' q'] D(5)[of u q u' q'] by metis
  next
    fix k u assume k: "own s' k = Some u" "pend s' k"
    have "own (rts y) k = Some u \<and> pend (rts y) k \<and> (k = ?l \<longrightarrow> u \<noteq> t)" using k E(1) f(4,5)[of k] by (cases "k = ?l") (auto split: if_splits)
    then have d: "blk (rts y) u = None" "\<exists>q. pc y u = Some q \<and> rw_lock q = k" "u \<noteq> t" using D(6)[of k u] p(1) by auto
    then show "blk s' u = None" "\<exists>q. pc ?y u = Some q \<and> rw_lock q = k" by (simp_all add: v f)
  next
    fix k u
    show "k \<in> set (holds ?y u) \<longleftrightarrow> own s' k = Some u \<and> \<not> pend s' k"
      using D(7)[of k u] E(1) f(4,5)[of k] by (cases "k = ?l") (auto simp: v split: if_splits)
  qed (use s'(1) D(8) p(2) v in auto)
qed

text \<open>A step that moves no task between sleeping and running, and changes at most the owner of one lock.\<close>

lemma owner_step_ok:
  assumes ok: "rt_system_ok y" and s': "rtm_ok s'" and b: "\<And>u. blk s' u = blk (rts y) u" and w: "\<And>x. wtask s' x = wtask (rts y) x" "\<And>x. wlock s' x = wlock (rts y) x"
    and o: "\<And>k u. own s' k = Some u \<Longrightarrow> pend s' k \<Longrightarrow> own (rts y) k = Some u \<and> pend (rts y) k"
    and h: "\<And>k u. k \<in> set (h u) \<longleftrightarrow> own s' k = Some u \<and> \<not> pend s' k" "\<And>u. distinct (h u)"
    and p: "\<And>u q. pc y u = Some q \<Longrightarrow> h u = holds y u"
  shows "rt_system_ok (y\<lparr>rts := s', holds := h\<rparr>)"
  unfolding rt_system_ok_def using rt_system_okD[OF ok] s' o h p by (simp add: b w) metis

lemma trylock_step_ok:
  assumes ok: "rt_system_ok y" and n: "pc y t = None"
  shows "\<exists>y'. rt_call (Trylock t l) y = Some y' \<and> rt_system_ok y'"
proof -
  note D = rt_system_okD[OF ok]
  obtain c s' where s': "rt_mutex_trylock t l (rts y) = Some (c, s')" "rtm_ok s'" "only_owner l (rts y) s'"
    "if c then own s' l = Some t \<and> \<not> pend s' l \<and> (own (rts y) l = None \<or> pend (rts y) l)
     else own s' l = own (rts y) l \<and> pend s' l = pend (rts y) l \<and> own (rts y) l \<noteq> None" using trylock_ok[OF D(1)] by (fastforce simp: rt_mutex_trylock_def)
  have f: "k \<noteq> l \<Longrightarrow> own s' k = own (rts y) k" "k \<noteq> l \<Longrightarrow> pend s' k = pend (rts y) k" "blk s' u = blk (rts y) u" "rt_waiters s' = rt_waiters (rts y)" for k u
    using s'(3) by (auto simp: only_owner_def)
  let ?h = "(holds y)(t := if c then l # holds y t else holds y t)"
  have "rt_system_ok (y\<lparr>rts := s', holds := ?h\<rparr>)"
  proof (rule owner_step_ok[OF ok s'(2)])
    show "own s' k = Some u \<Longrightarrow> pend s' k \<Longrightarrow> own (rts y) k = Some u \<and> pend (rts y) k" for k u
      using s'(4) f(1,2)[of k] by (cases "k = l") (auto split: if_splits)
    show "k \<in> set (?h u) \<longleftrightarrow> own s' k = Some u \<and> \<not> pend s' k" for k u
      using D(7)[of k u] s'(4) f(1,2)[of k] by (cases "k = l") (auto split: if_splits)
    show "distinct (?h u)" for u using D(8)[of u] D(7)[of l t] s'(4) by (auto split: if_splits)
  qed (use f n in auto)
  then show ?thesis using s'(1) by simp
qed

lemma unlock_step_ok:
  assumes ok: "rt_system_ok y" and l: "pc y t = None" "l \<in> set (holds y t)" and s': "rtm_ok s'" "handed_over l u (rts y) s'"
  shows "rt_system_ok (y\<lparr>rts := s', holds := (holds y)(t := remove1 l (holds y t))\<rparr>)"
proof -
  note D = rt_system_okD[OF ok]
  let ?s = "rts y" and ?h = "(holds y)(t := remove1 l (holds y t))"
  have ot: "own ?s l = Some t" "\<not> pend ?s l" using D(7)[of l t] l(2) by auto
  have f: "k \<noteq> l \<Longrightarrow> own s' k = own ?s k" "k \<noteq> l \<Longrightarrow> pend s' k = pend ?s k" "own s' l = u" "wlock s' x = wlock ?s x" for k x
    using s'(2) by (auto simp: handed_over_def)
  have hl: "k \<in> set (?h r) \<longleftrightarrow> k \<noteq> l \<and> own ?s k = Some r \<and> \<not> pend ?s k" for k r
    using D(7)[of k r] D(8)[of t] ot by auto
  have notl: "k \<in> set (?h r) \<longleftrightarrow> own s' k = Some r \<and> \<not> pend s' k" if "u = None \<or> pend s' l" for k r
    unfolding hl using that f(1,2)[of k] f(3) by (cases "k = l") auto
  have dh: "distinct (?h r)" for r using D(8) by simp
  show ?thesis
  proof (cases u)
    case None
    then have e: "blk s' r = blk ?s r" "wtask s' x = wtask ?s x" "\<not> pend s' l" for r x using s'(2) by (auto simp: handed_over_def)
    show ?thesis
    proof (rule owner_step_ok[OF ok s'(1)])
      show "own s' k = Some r \<Longrightarrow> pend s' k \<Longrightarrow> own ?s k = Some r \<and> pend ?s k" for k r using e(3) f(1,2)[of k] by (cases "k = l") auto
      show "k \<in> set (?h r) \<longleftrightarrow> own s' k = Some r \<and> \<not> pend s' k" for k r using notl None by simp
    qed (use e f dh l(1) in auto)
  next
    case (Some a)
    let ?w = "hd (wl ?s l)"
    have a: "wl ?s l \<noteq> []" "blk ?s a = Some ?w" "pend s' l" "blk s' r = (if r = a then None else blk ?s r)"
      "wtask s' x = (if x = ?w then None else wtask ?s x)" for r x using s'(2) Some by (auto simp: handed_over_def)
    have wl: "wlock ?s ?w = l" using waiters_okD(4)[of ?s ?w l] D(1) a(1) by (simp add: rtm_ok_def)
    obtain p where p: "pc y a = Some p" "rw_waiter p = ?w" "rw_lock p = l" using D(2)[OF a(2)] wl by auto
    let ?y = "y\<lparr>rts := s', holds := ?h\<rparr>"
    have v: "rts ?y = s'" "pc ?y = pc y" "holds ?y = ?h" by simp_all
    show ?thesis
      unfolding rt_system_ok_def v
    proof (intro conjI allI impI)
      show "\<exists>p. pc y r = Some p \<and> rw_waiter p = x \<and> wlock s' x = rw_lock p" if "blk s' r = Some x" for r x
        using that D(2)[of r x] by (simp add: a f split: if_splits)
      fix r q assume q: "pc y r = Some q"
      show "rw_lock q \<notin> set (?h r)" using D(3)[OF q] notin_set_remove1[of "rw_lock q" "holds y t" l] by auto
      show "wtask s' (rw_waiter q) = None" if "blk s' r = None" using that D(4)[OF q] D(5)[OF q p(1)] q p by (auto simp: a split: if_splits)
      show "r = r'" if "pc y r' = Some q'" "rw_waiter q = rw_waiter q'" for r' q' using D(5)[OF q] that by blast
    next
      fix k r assume k: "own s' k = Some r" "pend s' k"
      show "blk s' r = None" "\<exists>p. pc y r = Some p \<and> rw_lock p = k" using k D(6)[of k r] Some p f(1,2)[of k] f(3) by (cases "k = l"; auto simp: a)+
    next
      fix k r
      show "k \<in> set (?h r) \<longleftrightarrow> own s' k = Some r \<and> \<not> pend s' k" using notl[of k r] a(3) by blast
    qed (use s'(1) D(8) in auto)
  qed
qed

lemma lock_ready:
  assumes ok: "rt_system_ok y" and e: "rt_allowed (Lock t p signal expired) y"
  shows "blk (rts y) t = None" "rw_waiter p \<notin> set (wl (rts y) k)" "own (rts y) (rw_lock p) \<noteq> Some t"
proof -
  note D = rt_system_okD[OF ok]
  have a: "pc y t = None" "rw_lock p \<notin> set (holds y t)" "\<And>u q. pc y u = Some q \<Longrightarrow> rw_waiter q \<noteq> rw_waiter p" using e by (auto simp: rt_allowed_def)
  show "blk (rts y) t = None" using D(2)[of t] a(1) by (cases "blk (rts y) t") auto
  show "rw_waiter p \<notin> set (wl (rts y) k)"
    using waiters_okD(4)[of "rts y" "rw_waiter p" k] D(1) D(2)[of _ "rw_waiter p"] a(3) by (fastforce simp: rtm_ok_def)
  show "own (rts y) (rw_lock p) \<noteq> Some t" using D(6,7)[of "rw_lock p" t] a(1,2) by auto
qed

lemma sleeper_pass:
  assumes ok: "rt_system_ok y" and p: "pc y t = Some p"
  shows "\<exists>r s'. slowlock_pass t (rw_lock p) (rw_waiter p) (rw_intr p) signal expired (rw_detect p) (rts y) = Some (r, s') \<and> rtm_ok s' \<and>
    pass_done r t (rw_lock p) (rw_waiter p) (rts y) s'"
proof -
  note D = rt_system_okD[OF ok]
  have st: "(blk (rts y) t = None \<and> wtask (rts y) (rw_waiter p) = None) \<or> (blk (rts y) t = Some (rw_waiter p) \<and> wlock (rts y) (rw_waiter p) = rw_lock p)"
    using D(2)[of t] D(4)[OF p] p by (cases "blk (rts y) t") auto
  have np: "pend (rts y) (rw_lock p)" if "own (rts y) (rw_lock p) = Some t" using D(3)[OF p] D(7)[of "rw_lock p" t] that by auto
  have pd: "blk (rts y) t = None" if "pend (rts y) (rw_lock p)" "own (rts y) (rw_lock p) = Some t" using D(6) that by blast
  show ?thesis using slowlock_pass_ok[OF D(1) st pd np] by blast
qed

lemma rt_call_ok:
  assumes ok: "rt_system_ok y" and e: "rt_allowed e y"
  shows "\<exists>y'. rt_call e y = Some y' \<and> rt_system_ok y'"
proof -
  note D = rt_system_okD[OF ok]
  show ?thesis
  proof (cases e)
    case (Lock t p signal expired)
    then have a: "pc y t = None" "rw_lock p \<notin> set (holds y t)" "\<And>u q. pc y u = Some q \<Longrightarrow> rw_waiter q \<noteq> rw_waiter p" using e by (auto simp: rt_allowed_def)
    note R = lock_ready[OF ok e[unfolded Lock]]
    obtain r s' where s': "rt_lock_call t p signal expired (rts y) = Some (r, s')" "rtm_ok s'"
      "pass_done r t (rw_lock p) (rw_waiter p) (rts y) s'" using slowlock_ok[OF D(1) R] rt_lock_call_slow[of t p signal expired "rts y"] by metis
    then show ?thesis using Lock after_pass_ok[OF ok s'(2,3)] a by simp
  next
    case (Resume t signal expired)
    then obtain p where p: "pc y t = Some p" using e by (auto simp: rt_allowed_def)
    obtain r s' where s': "slowlock_pass t (rw_lock p) (rw_waiter p) (rw_intr p) signal expired (rw_detect p) (rts y) = Some (r, s')" "rtm_ok s'"
      "pass_done r t (rw_lock p) (rw_waiter p) (rts y) s'" using sleeper_pass[OF ok p] by blast
    have "rw_waiter q \<noteq> rw_waiter p" if "u \<noteq> t" "pc y u = Some q" for u q using D(5)[OF p that(2)] that(1) by metis
    then have "rt_system_ok (after_pass t p y (r, s'))" using after_pass_ok[OF ok s'(2,3) _ D(3)[OF p]] p by blast
    then show ?thesis using Resume p s'(1) by simp
  next
    case (Trylock t l)
    then show ?thesis using trylock_step_ok[OF ok] e by (simp add: rt_allowed_def)
  next
    case (Unlock t l)
    then have a: "pc y t = None" "l \<in> set (holds y t)" using e by (auto simp: rt_allowed_def)
    then have "own (rts y) l = Some t" using D(7) by blast
    from unlock_ok[OF D(1) this] obtain u s' where "rt_mutex_slowunlock t l (rts y) = Some (u, s')" "rtm_ok s'" "handed_over l u (rts y) s'" by blast
    then show ?thesis using Unlock unlock_step_ok[OF ok a] by (simp add: rt_mutex_unlock_def)
  next
    case (Setprio t p)
    obtain s' where s': "set_normal_prio t p (rts y) = Some s'" "rtm_ok s'" "same_places (rts y) s'" using set_normal_prio_ok[OF D(1)] by blast
    have "rt_system_ok (y\<lparr>rts := s', holds := holds y\<rparr>)"
      by (rule owner_step_ok[OF ok s'(2)]) (use s'(3) D(7,8) in \<open>auto simp: same_places_def\<close>)
    then show ?thesis using Setprio s'(1) by simp
  qed
qed

lemma rt_start_ok: "rt_system_ok (rt_start prio stack)"
  by (simp add: rt_system_ok_def rt_start_def rtm_ok_def waiters_ok_def inherits_ok_def)

lemma rt_reachable_ok: "rt_reachable y \<Longrightarrow> rt_system_ok y"
proof (induction rule: rt_reachable.induct)
  case (step y e y')
  then show ?case using rt_call_ok[of y e] by (auto simp: rt_step_Some)
qed (rule rt_start_ok)

lemma rt_call_prios:
  assumes p: "prios_ok (rts y)" and e: "rt_allowed e y" and c: "rt_call e y = Some y'"
  shows "prios_ok (rts y')"
proof (cases e)
  case (Lock t q signal expired)
  then obtain r s' where "rt_lock_call t q signal expired (rts y) = Some (r, s')" "rts y' = s'"
    using c by (auto simp: after_pass_views)
  then show ?thesis using slowlock_prios[OF p] rt_lock_call_slow[of t q signal expired "rts y"] by metis
next
  case (Resume t signal expired)
  then show ?thesis using c p pass_prios[OF p] by (auto simp: after_pass_views split: option.splits)
next
  case (Trylock t l)
  then show ?thesis using c trylock_prios[OF _ p] by (auto simp: rt_mutex_trylock_def)
next
  case (Unlock t l)
  then show ?thesis using c unlock_prios[OF _ p] by (auto simp: rt_mutex_unlock_def)
next
  case (Setprio t q)
  then have "valid_prio q" using e by (simp add: rt_allowed_def)
  then show ?thesis using c set_normal_prio_prios[OF p] Setprio by auto
qed

lemma rt_start_prios: "\<forall>t. valid_prio (prio t) \<Longrightarrow> prios_ok (rts (rt_start prio stack))"
  by (simp add: prios_ok_def rt_start_def)

lemma rt_reachable_prios: "rt_reachable y \<Longrightarrow> prios_ok (rts y)"
proof (induction rule: rt_reachable.induct)
  case (step y e y')
  then show ?case using rt_call_prios[of y e y'] by (simp add: rt_step_Some)
qed (rule rt_start_prios)

lemma rt_step_total:
  assumes y: "rt_reachable y" and e: "rt_allowed e y"
  shows "\<exists>y'. rt_step e y = Some y'"
proof -
  obtain y' where y': "rt_call e y = Some y'" using rt_call_ok[OF rt_reachable_ok[OF y] e] by blast
  then show ?thesis using prios_okD(1)[OF rt_call_prios[OF rt_reachable_prios[OF y] e y']] by (auto simp: rt_step_Some)
qed

text \<open>Runs in which the waiter of a task has the task's name.\<close>

fun own_waiter :: "rt_event \<Rightarrow> bool" where
  "own_waiter (Lock t p signal expired) \<longleftrightarrow> rw_waiter p = t"
| "own_waiter e \<longleftrightarrow> True"

fun rt_run :: "rt_event list \<Rightarrow> rt_system \<Rightarrow> rt_system option" where
  "rt_run [] y = Some y"
| "rt_run (e # es) y = (if rt_guard e y \<and> own_waiter e then Option.bind (rt_step e y) (rt_run es) else None)"

lemma step_keeps_waiters:
  assumes y: "\<forall>u q. pc y u = Some q \<longrightarrow> rw_waiter q = u" and e: "own_waiter e" and s: "rt_step e y = Some y'"
  shows "\<forall>u q. pc y' u = Some q \<longrightarrow> rw_waiter q = u"
proof -
  have "rw_waiter q = u" if "pc (after_pass t p y (r, s)) u = Some q" "rw_waiter p = t" for t p r s u q
    using that y by (cases r) (auto simp: after_pass_views split: if_splits)
  then show ?thesis using y e s[unfolded rt_step_Some] by (cases e) (auto split: option.splits)
qed

lemma guard_allowed: "rt_guard e y \<Longrightarrow> own_waiter e \<Longrightarrow> \<forall>u q. pc y u = Some q \<longrightarrow> rw_waiter q = u \<Longrightarrow> rt_allowed e y"
  by (cases e) (auto simp: rt_allowed_def)

lemma rt_run_reachable:
  "rt_run es y = Some y' \<Longrightarrow> rt_reachable y \<Longrightarrow> \<forall>u q. pc y u = Some q \<longrightarrow> rw_waiter q = u \<Longrightarrow>
    rt_reachable y' \<and> (\<forall>u q. pc y' u = Some q \<longrightarrow> rw_waiter q = u)"
proof (induction es arbitrary: y)
  case (Cons e es)
  then obtain y1 where y1: "rt_guard e y" "own_waiter e" "rt_step e y = Some y1" "rt_run es y1 = Some y'"
    by (auto simp: bind_eq_Some_conv split: if_splits)
  then show ?case
    using Cons.IH[OF y1(4)] rt_reachable.step[OF Cons.prems(2) guard_allowed[OF y1(1,2) Cons.prems(3)] y1(3)]
      step_keeps_waiters[OF Cons.prems(3) y1(2,3)] by blast
qed simp

definition inversion_prio :: "nat \<Rightarrow> int" where
  "inversion_prio t = (if t = 0 then 120 else if t = 1 then 100 else if t = 2 then 50 else if t = 5 then 10 else if t = 6 then 40 else 110)"

lemma inversion_valid: "\<forall>t. valid_prio (inversion_prio t)"
  by (simp add: inversion_prio_def valid_prio_def MAX_PRIO_def)

lemma rt_run_start:
  assumes "rt_run es (rt_start inversion_prio stack) = Some y"
  shows "rt_reachable y" "rt_guard e y \<Longrightarrow> own_waiter e \<Longrightarrow> rt_allowed e y"
proof -
  have "\<forall>u q. pc (rt_start inversion_prio stack) u = Some q \<longrightarrow> rw_waiter q = u" by (simp add: rt_start_def)
  from rt_run_reachable[OF assms rt_reachable.start[OF inversion_valid] this]
  show "rt_reachable y" "rt_guard e y \<Longrightarrow> own_waiter e \<Longrightarrow> rt_allowed e y" using guard_allowed by blast+
qed

definition plain :: "nat \<Rightarrow> nat \<Rightarrow> rt_event" where
  "plain t l = Lock t \<lparr>rw_lock = l, rw_waiter = t, rw_intr = False, rw_detect = False\<rparr> False False"

definition junk :: "nat \<Rightarrow> rt_mutex_waiter" where
  "junk w = \<lparr>w_prio = 0, w_pi_prio = 0, w_task = Some 7, w_lock = 9\<rparr>"

text \<open>Where a pass of the loop of a call of lock may leave its task.\<close>

definition at_rest :: "nat \<Rightarrow> nat \<Rightarrow> pass \<Rightarrow> rtm \<Rightarrow> bool" where
  "at_rest t w r s \<longleftrightarrow> (case r of Returns e \<Rightarrow> pi_blocked_on (rt_tasks s t) = None
     | Sleeps \<Rightarrow> pi_blocked_on (rt_tasks s t) = Some w \<and> w_task (rt_waiters s w) = Some t | Again \<Rightarrow> False)"

lemma slowlock_sleeps:
  assumes ok: "rtm_ok s" and b: "blk s cur = None" and w: "\<And>k. w \<notin> set (wl s k)" and np: "own s l \<noteq> Some cur"
    and r: "rt_mutex_slowlock cur l w intr signal expired dd s = Some (Sleeps, s')"
  shows "\<exists>s1 ow. rtm_ok s1 \<and> blk s1 cur = None \<and> wtask s1 w = None \<and> own s1 l = Some ow \<and> ow \<noteq> cur \<and>
    task_blocks_on_rt_mutex cur l w dd s1 = Some (0, s')"
proof -
  let ?u = "upd_waiter w (\<lambda>k. k\<lparr>w_task := None\<rparr>) s"
  have u: "wl ?u k = wl s k" "own ?u k = own s k" "piw ?u r = piw s r" "blk ?u r = blk s r" "pend ?u k = pend s k"
    "x \<noteq> w \<Longrightarrow> rt_waiters ?u x = rt_waiters s x" "wtask ?u w = None" for k r x by (simp_all add: upd_waiter_def)
  have ok0: "rtm_ok ?u" by (rule idle_upd[OF ok w]) (simp_all add: u)
  have fails: "rtm_ok x' \<and> same_queues x x' \<and> own x l \<noteq> None"
    if "rtm_ok x" "blk x cur = None" "try_to_take_rt_mutex cur l x = Some (False, x')" for x x'
    using try_to_take_ok[OF that(1), of l cur] that(2,3) by (auto simp: took_def)
  obtain s1 where s1: "try_to_take_rt_mutex cur l ?u = Some (False, s1)" "slowlock_pass cur l w intr signal expired dd s1 = Some (Sleeps, s')"
    using r by (auto simp: rt_mutex_slowlock_def Let_def bind_eq_Some_conv split: if_splits)
  from fails[OF ok0 _ s1(1)] b have f1: "rtm_ok s1" "same_queues ?u s1" by (auto simp: u)
  note e1 = same_queues_views[OF f1(2)]
  obtain s2 where s2: "try_to_take_rt_mutex cur l s1 = Some (False, s2)"
    using s1(2) by (auto simp: slowlock_pass_def slowlock_end_def Let_def bind_eq_Some_conv split: if_splits)
  from fails[OF f1(1) _ s2] b have f2: "rtm_ok s2" "same_queues s1 s2" "own s1 l \<noteq> None" by (auto simp: e1 u)
  note e2 = same_queues_views[OF f2(2)]
  have w2: "wtask s2 w = None" by (simp add: e2 e1 u)
  then have "task_blocks_on_rt_mutex cur l w dd s2 = Some (0, s')"
    using s1(2) s2 by (auto simp: slowlock_pass_def slowlock_end_def Let_def bind_eq_Some_conv split: if_splits)
  then show ?thesis using f2(1,3) w2 b np by (auto simp: e2 e1 u)
qed

lemma pass_rests: "pass_done r t l w s s' \<Longrightarrow> at_rest t w r s'"
  by (cases r) (auto simp: pass_done_def at_rest_def)

lemma rests:
  assumes ok: "rt_system_ok y"
  shows "rt_allowed (Lock t p signal expired) y \<Longrightarrow> \<exists>r s'. rt_lock_call t p signal expired (rts y) = Some (r, s') \<and> at_rest t (rw_waiter p) r s'"
    "pc y t = Some p \<Longrightarrow> \<exists>r s'. slowlock_pass t (rw_lock p) (rw_waiter p) (rw_intr p) signal expired (rw_detect p) (rts y) = Some (r, s') \<and>
       at_rest t (rw_waiter p) r s'"
proof -
  note D = rt_system_okD[OF ok]
  assume "rt_allowed (Lock t p signal expired) y"
  from slowlock_ok[OF D(1) lock_ready[OF ok this]] rt_lock_call_slow[of t p signal expired "rts y"]
  show "\<exists>r s'. rt_lock_call t p signal expired (rts y) = Some (r, s') \<and> at_rest t (rw_waiter p) r s'" using pass_rests by metis
next
  assume p: "pc y t = Some p"
  show "\<exists>r s'. slowlock_pass t (rw_lock p) (rw_waiter p) (rw_intr p) signal expired (rw_detect p) (rts y) = Some (r, s') \<and>
       at_rest t (rw_waiter p) r s'" using sleeper_pass[OF ok p] pass_rests by blast
qed

text \<open>C13: In every state that calls of lock, unlock, trylock and changes of priority can reach, with signals, timeouts and wakeups at any
  time, the queues are consistent: waiters and blocked tasks belong together, a lock somebody waits for has an owner, and a task
  inherits only from the first waiters of locks it owns; and every task's priority is between 0 and \<^verbatim>\<open>MAX_PRIO - 1\<close>. No call that
  respects the rules for callers meets a \<^verbatim>\<open>BUG_ON\<close>, that of \<^verbatim>\<open>rt_mutex_setprio\<close> included, or a null pointer. A call of lock, and
  a task that is woken inside one, returns with the task blocked on nothing or goes to sleep with the task blocked on the call's
  waiter; it does not go round the loop.\<close>

theorem rt_mutex_reachable_consistent:
  assumes "rt_reachable y"
  shows "rtm_ok (rts y) \<and> (\<forall>t. 0 \<le> rt_prio (rt_tasks (rts y) t) \<and> rt_prio (rt_tasks (rts y) t) < MAX_PRIO) \<and>
    (\<forall>e. rt_allowed e y \<longrightarrow> rt_step e y \<noteq> None) \<and>
    (\<forall>t p signal expired. rt_allowed (Lock t p signal expired) y \<longrightarrow>
       (\<exists>r s'. rt_lock_call t p signal expired (rts y) = Some (r, s') \<and> at_rest t (rw_waiter p) r s')) \<and>
    (\<forall>t p signal expired. pc y t = Some p \<longrightarrow>
       (\<exists>r s'. slowlock_pass t (rw_lock p) (rw_waiter p) (rw_intr p) signal expired (rw_detect p) (rts y) = Some (r, s') \<and>
          at_rest t (rw_waiter p) r s'))"
proof (intro conjI allI impI)
  note ok = rt_reachable_ok[OF assms]
  show "rtm_ok (rts y)" by (rule rt_system_okD(1)[OF ok])
  show "0 \<le> rt_prio (rt_tasks (rts y) t)" "rt_prio (rt_tasks (rts y) t) < MAX_PRIO" for t
    using prios_okD(2)[OF rt_reachable_prios[OF assms], of t] by (simp_all add: valid_prio_def)
qed (use rt_step_total[OF assms] rests[OF rt_reachable_ok[OF assms]] in auto)

definition demo_events :: "rt_event list" where
  "demo_events = [plain 0 2, plain 1 3, plain 5 3, plain 1 2, plain 2 4, plain 2 2, plain 6 4, Unlock 0 2, Resume 1 False False]"

lemma demo_run: "map_option (\<lambda>y. (holds y 1, pc y 1)) (rt_run demo_events (rt_start inversion_prio junk)) = Some ([2, 3], None)"
  "map_option (\<lambda>y. pc y 2) (rt_run demo_events (rt_start inversion_prio junk)) =
   Some (Some \<lparr>rw_lock = 2, rw_waiter = 2, rw_intr = False, rw_detect = False\<rparr>)"
  by code_simp+

theorem rt_mutex_reachable_consistent_witness:
  "\<exists>y r s'. rt_run demo_events (rt_start inversion_prio junk) = Some y \<and> rtm_ok (rts y) \<and> rt_prio (rt_tasks (rts y) 1) < MAX_PRIO \<and>
     rt_allowed (Unlock 1 3) y \<and> rt_step (Unlock 1 3) y \<noteq> None \<and>
     slowlock_pass 2 2 2 False False False False (rts y) = Some (r, s') \<and> at_rest 2 2 r s'"
proof -
  obtain y where y: "rt_run demo_events (rt_start inversion_prio junk) = Some y" "holds y 1 = [2, 3]" "pc y 1 = None"
    "pc y 2 = Some \<lparr>rw_lock = 2, rw_waiter = 2, rw_intr = False, rw_detect = False\<rparr>" using demo_run by auto
  have a: "rt_allowed (Unlock 1 3) y" using rt_run_start(2)[OF y(1), of "Unlock 1 3"] y by simp
  note c = rt_mutex_reachable_consistent[OF rt_run_start(1)[OF y(1)]]
  have "\<exists>r s'. slowlock_pass 2 2 2 False False False False (rts y) = Some (r, s') \<and> at_rest 2 2 r s'"
    using c[THEN conjunct2, THEN conjunct2, THEN conjunct2, THEN conjunct2, rule_format, OF y(4), of False False] by simp
  then show ?thesis using c y(1) a by blast
qed

text \<open>The rule for priorities is needed: a waiter that got a negative one would take the owner of its lock into the \<^verbatim>\<open>BUG_ON\<close>.\<close>

theorem rt_mutex_setprio_bug:
  "map_option (\<lambda>y. rt_step (Setprio 1 (- 7)) y = None) (rt_run [plain 0 2, plain 1 2] (rt_start inversion_prio junk)) = Some True"
  by code_simp

text \<open>C28: Two tasks never hold a lock at the same time, and who holds it is its owner.\<close>

theorem rt_mutex_excludes:
  assumes "rt_reachable y" "l \<in> set (holds y t)" "l \<in> set (holds y u)"
  shows "t = u \<and> rt_mutex_owner l (rts y) = Some t"
  using rt_system_okD(7)[OF rt_reachable_ok[OF assms(1)]] assms(2,3) by (auto simp: rt_mutex_owner_def)

theorem rt_mutex_excludes_witness:
  "\<exists>y. rt_run demo_events (rt_start inversion_prio junk) = Some y \<and> 2 \<in> set (holds y 1) \<and> rt_mutex_owner 2 (rts y) = Some 1"
proof -
  obtain y where y: "rt_run demo_events (rt_start inversion_prio junk) = Some y" "holds y 1 = [2, 3]" using demo_run by auto
  from rt_mutex_excludes[OF rt_run_start(1)[OF y(1)], of 2 1 1] y show ?thesis by simp
qed

text \<open>C4: When a call of lock finds the lock taken and its task goes to sleep for the first time, straight from the call, and is then the
  first in the queue, the owner of the lock runs with at least its priority, whatever chain of locks the owner is blocked on. Nothing
  is said of a task that was woken inside the call and goes back to sleep: by then the boost may be stale, as \<open>rt_mutex_stale_boost\<close>
  shows.\<close>

theorem rt_mutex_lock_boosts_owner:
  assumes y: "rt_reachable y" and e: "rt_allowed (Lock t p signal expired) y" "rt_step (Lock t p signal expired) y = Some y'" "pc y' t = Some p"
    and o: "rt_mutex_owner (rw_lock p) (rts y') = Some ow" "rt_mutex_top_waiter (rw_lock p) (rts y') = Some (rw_waiter p)"
  shows "rt_prio (rt_tasks (rts y') ow) \<le> rt_prio (rt_tasks (rts y') t)"
proof -
  note ok = rt_reachable_ok[OF y]
  note R = lock_ready[OF ok e(1)]
  let ?l = "rw_lock p" and ?w = "rw_waiter p"
  obtain r s' i sg ex dd where s': "rt_mutex_slowlock t ?l ?w i sg ex dd (rts y) = Some (r, s')" "y' = after_pass t p y (r, s')"
  proof -
    obtain i sg ex dd where c: "rt_lock_call t p signal expired (rts y) = rt_mutex_slowlock t ?l ?w i sg ex dd (rts y)" using rt_lock_call_slow by blast
    show ?thesis using e(2) that[of i sg ex dd] by (auto simp: c rt_step_Some)
  qed
  have "pass_done r t ?l ?w (rts y) s'" using slowlock_ok[OF rt_system_okD(1)[OF ok] R, of i sg ex dd] s'(1) by auto
  then have "r = Sleeps" using after_pass_sleeps[of t p y r s' p] e(3) by (auto simp: s'(2) pass_done_def)
  then obtain s1 ow1 where s1: "rtm_ok s1" "blk s1 t = None" "wtask s1 ?w = None" "own s1 ?l = Some ow1" "ow1 \<noteq> t"
    "task_blocks_on_rt_mutex t ?l ?w dd s1 = Some (0, s')"
    using slowlock_sleeps[OF rt_system_okD(1)[OF ok] R] s'(1) by blast
  have "own s' ?l = own s1 ?l" using block_ok[OF s1(1-4), of dd] s1(6) by (auto simp: joined_queue_def)
  moreover have "hd (wl s' ?l) = ?w" using o(2) by (auto simp: s'(2) after_pass_views rt_mutex_top_waiter_def split: list.splits if_splits)
  ultimately show ?thesis using block_boosts[OF s1] s1(4) o(1) by (simp add: s'(2) after_pass_views rt_mutex_owner_def)
qed

lemma boost_run:
  "map_option (\<lambda>y. (holds y 5, pc y 5))
     (rt_run [plain 0 2, plain 1 3, plain 1 2] (rt_start inversion_prio junk)) = Some ([], None)"
  "map_option (\<lambda>y. (map_option rw_waiter (pc y 5), rt_mutex_owner 3 (rts y), rt_mutex_top_waiter 3 (rts y)))
     (Option.bind (rt_run [plain 0 2, plain 1 3, plain 1 2] (rt_start inversion_prio junk)) (rt_step (plain 5 3))) =
   Some (Some 5, Some 1, Some 5)"
  by code_simp+

theorem rt_mutex_lock_boosts_owner_witness:
  "\<exists>y y'. rt_run [plain 0 2, plain 1 3, plain 1 2] (rt_start inversion_prio junk) = Some y \<and> rt_step (plain 5 3) y = Some y' \<and>
     rt_mutex_owner 3 (rts y') = Some 1 \<and> rt_prio (rt_tasks (rts y') 1) \<le> rt_prio (rt_tasks (rts y') 5)"
proof -
  obtain y y' where y: "rt_run [plain 0 2, plain 1 3, plain 1 2] (rt_start inversion_prio junk) = Some y" "holds y 5 = []" "pc y 5 = None"
    "rt_step (plain 5 3) y = Some y'" "pc y' 5 \<noteq> None" "rt_mutex_owner 3 (rts y') = Some 1" "rt_mutex_top_waiter 3 (rts y') = Some 5"
    using boost_run by (auto simp: bind_eq_Some_conv)
  let ?p = "\<lparr>rw_lock = 3, rw_waiter = 5, rw_intr = False, rw_detect = False\<rparr>"
  have a: "rt_allowed (Lock 5 ?p False False) y" using rt_run_start(2)[OF y(1), of "plain 5 3"] y(2,3) by (simp add: plain_def)
  have p: "pc y' 5 = Some ?p" using y(4,5) after_pass_sleeps[of 5 ?p y] by (auto simp: plain_def rt_step_Some)
  have "rt_prio (rt_tasks (rts y') 1) \<le> rt_prio (rt_tasks (rts y') 5)"
    by (rule rt_mutex_lock_boosts_owner[OF rt_run_start(1)[OF y(1)] a _ p]) (use y(4,6,7) in \<open>simp_all only: plain_def rt_wait.simps\<close>)
  then show ?thesis using y(1,4,6) by blast
qed

text \<open>The boost can be lost later. When a lock is handed over, the next waiter is put on the list of the new owner with the priority
  it had when it was last there, not with the one it has in the queue.\<close>

theorem rt_mutex_stale_boost:
  "\<exists>y. rt_reachable y \<and> rt_mutex_owner 2 (rts y) = Some 1 \<and> 2 \<in> set (holds y 1) \<and> blk (rts y) 2 = Some 2 \<and> wlock (rts y) 2 = 2 \<and>
     rt_prio (rt_tasks (rts y) 2) < rt_prio (rt_tasks (rts y) 1)"
proof -
  have "map_option (\<lambda>y. (rt_mutex_owner 2 (rts y), holds y 1, blk (rts y) 2, wlock (rts y) 2, rt_prio (rt_tasks (rts y) 2), rt_prio (rt_tasks (rts y) 1)))
     (rt_run (demo_events @ [Unlock 1 3]) (rt_start inversion_prio junk)) = Some (Some 1, [2], Some 2, 2, 40, 50)" by code_simp
  then obtain y where "rt_run (demo_events @ [Unlock 1 3]) (rt_start inversion_prio junk) = Some y" "rt_mutex_owner 2 (rts y) = Some 1" "holds y 1 = [2]"
    "blk (rts y) 2 = Some 2" "wlock (rts y) 2 = 2" "rt_prio (rt_tasks (rts y) 2) = 40" "rt_prio (rt_tasks (rts y) 1) = 50" by auto
  then show ?thesis using rt_run_start(1) by (intro exI[of _ y]) auto
qed

text \<open>A task that asks with deadlock detection for a lock it holds is refused, but its waiter, a variable of the function that returns,
  stays on its own list.\<close>

theorem rt_mutex_self_deadlock_dangles:
  "map_option (\<lambda>(r, s). (r, piw s 0, wtask s 0, blk s 0))
     (Option.bind (rt_run [plain 0 0] (rt_start inversion_prio junk)) (\<lambda>y. rt_mutex_slowlock 0 0 0 True False False True (rts y))) =
   Some (Returns (- EDEADLK), [0], None, None)"
  by code_simp

end
