(* ===== verification/Mailbox.thy ===== *)
theory Mailbox
  imports KList
begin

text \<open>
  The message passing system calls of \<^verbatim>\<open>ipc/mailbox.c\<close>: a hash table of 128 list heads, each a
  circular list of messages, protected by one semaphore.

  The heads live at the addresses \<open>0 .. 127\<close> (the static array \<open>mailbox.message_lists\<close>); an index
  outside the array gives no address. A message and its embedded \<open>message_list\<close> cell share one
  address. What \<^verbatim>\<open>kmalloc\<close>, \<^verbatim>\<open>copy_from_user\<close> and \<^verbatim>\<open>copy_to_user\<close> answer is an argument: the
  address of the new message (\<open>None\<close> for NULL), whether the text buffer was allocated, and the
  number of bytes that were not copied. \<^verbatim>\<open>sys_mysend\<close> is split at the points where other tasks can
  run, so that interleavings can be stated.
\<close>

subsection \<open>State\<close>

record message_struct =
  sender :: s32
  receiver :: s32
  message :: "u8 list"
  msg_length :: s32

record mailbox =
  message_cells :: lheap
  messages :: "addr \<rightharpoonup> message_struct"
  mb_lock :: int

definition MAILBOX_NUMBER_BUCKETS :: nat where
  "MAILBOX_NUMBER_BUCKETS = 128"

text \<open>The semaphore, as the two entry points use it: \<open>None\<close> is a task that sleeps.\<close>

definition mb_down :: "mailbox \<Rightarrow> mailbox option" where
  "mb_down m = (if 0 < mb_lock m then Some (m\<lparr>mb_lock := mb_lock m - 1\<rparr>) else None)"

definition mb_up :: "mailbox \<Rightarrow> mailbox" where
  "mb_up m = m\<lparr>mb_lock := mb_lock m + 1\<rparr>"

definition init_mailbox :: "mailbox \<Rightarrow> mailbox option" where
  "init_mailbox m = do {
     h \<leftarrow> foldM INIT_LIST_HEAD [0..<MAILBOX_NUMBER_BUCKETS] (message_cells m);
     Some (m\<lparr>message_cells := h, mb_lock := 1\<rparr>) }"

text \<open>The result is a \<open>size_t\<close>: a negative remainder becomes a huge index.\<close>

definition mailbox_hash :: "s32 \<Rightarrow> u64" where
  "mailbox_hash pid = word_of_int (c_rem (sint pid) (int MAILBOX_NUMBER_BUCKETS))"

definition bucket :: "u64 \<Rightarrow> addr option" where
  "bucket box = (if unat box < MAILBOX_NUMBER_BUCKETS then Some (unat box) else None)"

subsection \<open>Sending\<close>

text \<open>The kernel's copy of the user's text; bytes that could not be read are cleared.\<close>

definition copy_from_user :: "u8 list \<Rightarrow> u64 \<Rightarrow> u32 \<Rightarrow> u8 list" where
  "copy_from_user ubuf n uncopied =
     take (unat n - unat uncopied) ubuf @ replicate (unat uncopied) 0"

definition mysend_prepare ::
  "s32 \<Rightarrow> s32 \<Rightarrow> u8 list \<Rightarrow> u64 \<Rightarrow> u32 \<Rightarrow> addr option \<Rightarrow> bool \<Rightarrow> mailbox \<Rightarrow> (addr \<times> mailbox) option"
where
  "mysend_prepare cur pid ubuf n uncopied kmsg kbuf m = do {
     a \<leftarrow> kmsg;
     guard_opt kbuf;
     h \<leftarrow> INIT_LIST_HEAD a ((message_cells m)(a \<mapsto> \<lparr>lnext = 0, lprev = 0\<rparr>));
     Some (a, m\<lparr>message_cells := h,
       messages := (messages m)(a \<mapsto> \<lparr>sender = cur, receiver = pid,
         message = copy_from_user ubuf n uncopied,
         msg_length = ucast (n - ucast uncopied)\<rparr>)\<rparr>) }"

text \<open>The critical section. The arguments of \<open>list_add_tail\<close> are in the order the source has.\<close>

definition mysend_enqueue :: "s32 \<Rightarrow> addr \<Rightarrow> mailbox \<Rightarrow> mailbox option" where
  "mysend_enqueue pid a m = do {
     m \<leftarrow> mb_down m;
     b \<leftarrow> bucket (mailbox_hash pid);
     h \<leftarrow> list_add_tail b a (message_cells m);
     Some (mb_up (m\<lparr>message_cells := h\<rparr>)) }"

text \<open>The result is read from the message after the semaphore was released.\<close>

definition mysend_return :: "addr \<Rightarrow> mailbox \<Rightarrow> s64 option" where
  "mysend_return a m = map_option (\<lambda>msg. scast (msg_length msg)) (messages m a)"

definition sys_mysend ::
  "s32 \<Rightarrow> s32 \<Rightarrow> u8 list \<Rightarrow> u64 \<Rightarrow> u32 \<Rightarrow> addr option \<Rightarrow> bool \<Rightarrow> mailbox \<Rightarrow> (s64 \<times> mailbox) option"
where
  "sys_mysend cur pid ubuf n uncopied kmsg kbuf m = do {
     (a, m) \<leftarrow> mysend_prepare cur pid ubuf n uncopied kmsg kbuf m;
     m \<leftarrow> mysend_enqueue pid a m;
     r \<leftarrow> mysend_return a m;
     Some (r, m) }"

subsection \<open>Receiving\<close>

definition wanted :: "s32 \<Rightarrow> s32 \<Rightarrow> message_struct \<Rightarrow> bool" where
  "wanted cur pid msg \<longleftrightarrow> receiver msg = cur \<and> (pid <s 0 \<or> sender msg = pid)"

text \<open>The loop \<open>list_for_each_entry_safe\<close>: \<open>pos\<close> is the cursor, \<open>n\<close> its saved successor.\<close>

partial_function (option) scan_bucket ::
  "(message_struct \<Rightarrow> bool) \<Rightarrow> addr \<Rightarrow> addr \<Rightarrow> addr \<Rightarrow> mailbox \<Rightarrow> addr option option"
where
  "scan_bucket P head pos n m =
     (if pos = head then Some None
      else do {
        msg \<leftarrow> messages m pos;
        if P msg then Some (Some pos)
        else do {
          n' \<leftarrow> get_next n (message_cells m);
          scan_bucket P head n n' m } })"

definition find_message :: "(message_struct \<Rightarrow> bool) \<Rightarrow> addr \<Rightarrow> mailbox \<Rightarrow> addr option option" where
  "find_message P head m = do {
     pos \<leftarrow> get_next head (message_cells m);
     n \<leftarrow> get_next pos (message_cells m);
     scan_bucket P head pos n m }"

definition kfree_message :: "addr \<Rightarrow> mailbox \<Rightarrow> mailbox" where
  "kfree_message a m = m\<lparr>message_cells := (message_cells m)(a := None),
     messages := (messages m)(a := None)\<rparr>"

definition sys_myreceive ::
  "s32 \<Rightarrow> s32 \<Rightarrow> u64 \<Rightarrow> u32 \<Rightarrow> mailbox \<Rightarrow> (s64 \<times> u8 list \<times> mailbox) option"
where
  "sys_myreceive cur pid n uncopied m = do {
     m \<leftarrow> mb_down m;
     b \<leftarrow> bucket (mailbox_hash cur);
     found \<leftarrow> find_message (wanted cur pid) b m;
     (case found of
        None \<Rightarrow> Some (0, [], mb_up m)
      | Some a \<Rightarrow> do {
          h \<leftarrow> list_del a (message_cells m);
          let m = mb_up (m\<lparr>message_cells := h\<rparr>);
          msg \<leftarrow> messages m a;
          let minimum = (if n < scast (msg_length msg) then n else scast (msg_length msg));
          guard_opt (unat minimum \<le> length (message msg));
          Some (minimum - ucast uncopied,
                take (unat minimum - unat uncopied) (message msg),
                kfree_message a m) }) }"

subsection \<open>Hashing\<close>

lemma mailbox_hash_nonneg:
  assumes "0 \<le> sint pid"
  shows "bucket (mailbox_hash pid) = Some (nat (sint pid mod 128))"
proof -
  have "sint pid mod 128 < 128" "0 \<le> sint pid mod 128" by simp_all
  then have "unat (word_of_int (sint pid mod 128) :: u64) = nat (sint pid mod 128)"
    by (simp add: unat_eq_nat_uint uint_word_of_int)
  with assms show ?thesis
    by (simp add: bucket_def mailbox_hash_def MAILBOX_NUMBER_BUCKETS_def nat_less_iff)
qed

lemma bucket_lt: "bucket x = Some b \<Longrightarrow> b < 128"
  by (auto simp: bucket_def MAILBOX_NUMBER_BUCKETS_def split: if_splits)

subsection \<open>The invariant\<close>

text \<open>
  Every bucket is a consistent ring with at most one message; the message is live and addressed
  to a receiver of that bucket.
\<close>

definition bucket_inv :: "mailbox \<Rightarrow> addr \<Rightarrow> bool" where
  "bucket_inv m b \<longleftrightarrow> (\<exists>xs. ring (message_cells m) b xs \<and> length xs \<le> 1 \<and>
     (\<forall>a \<in> set xs. 128 \<le> a \<and>
        (\<exists>msg. messages m a = Some msg \<and> bucket (mailbox_hash (receiver msg)) = Some b)))"

definition mailbox_inv :: "mailbox \<Rightarrow> bool" where
  "mailbox_inv m \<longleftrightarrow> mb_lock m = 1 \<and> (\<forall>b < 128. bucket_inv m b)"

lemma bucket_invE:
  assumes "bucket_inv m b"
  obtains "ring (message_cells m) b []"
  | a msg where "ring (message_cells m) b [a]" "128 \<le> a" "messages m a = Some msg"
      "bucket (mailbox_hash (receiver msg)) = Some b"
proof -
  from assms obtain xs where "ring (message_cells m) b xs" "length xs \<le> Suc 0" and
    xs: "\<forall>a \<in> set xs. 128 \<le> a \<and>
        (\<exists>msg. messages m a = Some msg \<and> bucket (mailbox_hash (receiver msg)) = Some b)"
    by (auto simp: bucket_inv_def)
  then show thesis by (cases xs) (auto intro: that)
qed

lemma bucket_invI_empty: "ring (message_cells m) b [] \<Longrightarrow> bucket_inv m b"
  unfolding bucket_inv_def by (rule exI[of _ "[]"]) simp

lemma bucket_invI_single:
  "ring (message_cells m) b [a] \<Longrightarrow> 128 \<le> a \<Longrightarrow> messages m a = Some msg \<Longrightarrow>
   bucket (mailbox_hash (receiver msg)) = Some b \<Longrightarrow> bucket_inv m b"
  unfolding bucket_inv_def by (rule exI[of _ "[a]"]) simp

lemma bucket_inv_frame:
  assumes "bucket_inv m b"
    and "\<And>x. x = b \<or> (128 \<le> x \<and> (\<exists>msg. messages m x = Some msg \<and>
           bucket (mailbox_hash (receiver msg)) = Some b)) \<Longrightarrow>
         same_links (message_cells m) (message_cells m') x \<and> messages m' x = messages m x"
  shows "bucket_inv m' b"
  using assms(1)
proof (cases rule: bucket_invE)
  case 1
  have "ring (message_cells m') b [] = ring (message_cells m) b []"
    by (rule ring_frame) (use assms(2) in simp)
  with 1 show ?thesis by (simp add: bucket_invI_empty)
next
  case (2 a msg)
  have "ring (message_cells m') b [a] = ring (message_cells m) b [a]"
    by (rule ring_frame) (use assms(2) 2 in auto)
  with 2 assms(2) show ?thesis by (intro bucket_invI_single[of m' b a msg]) auto
qed

lemma bucket_inv_dom: "bucket_inv m b \<Longrightarrow> b \<in> dom (message_cells m)"
  by (auto simp: bucket_inv_def dest!: ring_dom)

lemma same_links_upd: "x \<noteq> a \<Longrightarrow> same_links h (h(a := c)) x"
  by (simp add: same_links_def get_next_def get_prev_def)

lemma same_links_trans: "same_links h h1 x \<Longrightarrow> same_links h1 h2 x \<Longrightarrow> same_links h h2 x"
  by (simp add: same_links_def)

subsection \<open>What the operations do\<close>

definition new_message :: "s32 \<Rightarrow> s32 \<Rightarrow> u8 list \<Rightarrow> u64 \<Rightarrow> u32 \<Rightarrow> message_struct" where
  "new_message cur pid ubuf n uncopied = \<lparr>sender = cur, receiver = pid,
     message = copy_from_user ubuf n uncopied, msg_length = ucast (n - ucast uncopied)\<rparr>"

lemma mysend_prepare_effect:
  obtains h where "mysend_prepare cur pid ubuf n uncopied (Some a) True m =
      Some (a, m\<lparr>message_cells := h,
        messages := (messages m)(a \<mapsto> new_message cur pid ubuf n uncopied)\<rparr>)"
    and "ring h a []" and "dom h = insert a (dom (message_cells m))"
    and "\<And>x. x \<noteq> a \<Longrightarrow> same_links (message_cells m) h x"
proof -
  let ?h = "(message_cells m)(a \<mapsto> \<lparr>lnext = 0, lprev = 0\<rparr>)"
  obtain h where h: "INIT_LIST_HEAD a ?h = Some h" "ring h a []" "dom h = dom ?h"
    "\<And>x. x \<noteq> a \<Longrightarrow> same_links ?h h x"
    by (rule ring_INIT_LIST_HEAD[of a ?h]) auto
  show thesis
  proof (rule that[of h])
    show "mysend_prepare cur pid ubuf n uncopied (Some a) True m =
      Some (a, m\<lparr>message_cells := h,
        messages := (messages m)(a \<mapsto> new_message cur pid ubuf n uncopied)\<rparr>)"
      by (simp add: mysend_prepare_def h(1) new_message_def)
    show "same_links (message_cells m) h x" if "x \<noteq> a" for x
      using that h(4) same_links_upd same_links_trans by blast
  qed (use h in auto)
qed

lemma mysend_enqueue_effect:
  assumes "mb_lock m = 1" "bucket (mailbox_hash pid) = Some b" "ring (message_cells m) a []"
    "b \<in> dom (message_cells m)" "a \<noteq> b"
  obtains h where "mysend_enqueue pid a m = Some (m\<lparr>message_cells := h\<rparr>)"
    and "ring h b [a]" and "dom h = dom (message_cells m)"
    and "\<And>x. x \<noteq> a \<Longrightarrow> x \<noteq> b \<Longrightarrow> same_links (message_cells m) h x"
proof -
  obtain h where h: "list_add_tail b a (message_cells m) = Some h" "ring h a ([] @ [b])"
    "dom h = dom (message_cells m)"
    "\<And>x. x \<notin> set [b, a] \<Longrightarrow> same_links (message_cells m) h x"
    by (rule ring_list_add_tail[OF assms(3), of b]) (use assms in auto)
  have "mysend_enqueue pid a m = Some (m\<lparr>message_cells := h\<rparr>)"
    using assms(1,2) h(1) by (simp add: mysend_enqueue_def mb_down_def mb_up_def)
  with h show thesis by (intro that[of h]) (auto simp: ring_single_swap[of h b a])
qed

text \<open>One send, on a mailbox in a good state and to a receiver with a bucket.\<close>

lemma sys_mysend_effect:
  assumes inv: "mailbox_inv m" and b: "bucket (mailbox_hash pid) = Some b"
    and fresh: "a \<notin> dom (message_cells m)"
  obtains h where "sys_mysend cur pid ubuf n uncopied (Some a) True m =
      Some (scast (ucast (n - ucast uncopied) :: s32),
        m\<lparr>message_cells := h,
          messages := (messages m)(a \<mapsto> new_message cur pid ubuf n uncopied)\<rparr>)"
    and "ring h b [a]" and "dom h = insert a (dom (message_cells m))"
    and "\<And>x. x \<noteq> a \<Longrightarrow> x \<noteq> b \<Longrightarrow> same_links (message_cells m) h x"
proof -
  have bd: "b \<in> dom (message_cells m)"
    using inv bucket_lt[OF b] bucket_inv_dom[of m b] by (simp add: mailbox_inv_def)
  then have ab: "a \<noteq> b" using fresh by auto
  obtain h1 where 1: "mysend_prepare cur pid ubuf n uncopied (Some a) True m =
      Some (a, m\<lparr>message_cells := h1,
        messages := (messages m)(a \<mapsto> new_message cur pid ubuf n uncopied)\<rparr>)" (is "_ = Some (a, ?m1)")
    "ring h1 a []" "dom h1 = insert a (dom (message_cells m))"
    "\<And>x. x \<noteq> a \<Longrightarrow> same_links (message_cells m) h1 x"
    by (rule mysend_prepare_effect[of cur pid ubuf n uncopied a m]) simp_all
  obtain h2 where 2: "mysend_enqueue pid a ?m1 = Some (?m1\<lparr>message_cells := h2\<rparr>)"
    "ring h2 b [a]" "dom h2 = dom (message_cells ?m1)"
    "\<And>x. x \<noteq> a \<Longrightarrow> x \<noteq> b \<Longrightarrow> same_links (message_cells ?m1) h2 x"
    by (rule mysend_enqueue_effect[of ?m1 pid b a])
      (use inv b 1 bd ab in \<open>auto simp: mailbox_inv_def\<close>)
  show thesis
  proof (rule that[of h2])
    show "sys_mysend cur pid ubuf n uncopied (Some a) True m =
      Some (scast (ucast (n - ucast uncopied) :: s32),
        m\<lparr>message_cells := h2,
          messages := (messages m)(a \<mapsto> new_message cur pid ubuf n uncopied)\<rparr>)"
      using 1(1) 2(1) by (simp add: sys_mysend_def mysend_return_def new_message_def)
    show "same_links (message_cells m) h2 x" if "x \<noteq> a" "x \<noteq> b" for x
      using same_links_trans[of "message_cells m" h1 x h2] 1(4) 2(4) that by simp
  qed (use 1 2 in auto)
qed

lemma sys_mysend_ex:
  assumes "mailbox_inv m" and "bucket (mailbox_hash pid) = Some b" and "a \<notin> dom (message_cells m)"
  shows "\<exists>h. sys_mysend cur pid ubuf n uncopied (Some a) True m =
      Some (scast (ucast (n - ucast uncopied) :: s32),
        m\<lparr>message_cells := h,
          messages := (messages m)(a \<mapsto> new_message cur pid ubuf n uncopied)\<rparr>) \<and>
      ring h b [a] \<and> (\<forall>x. x \<noteq> a \<longrightarrow> x \<noteq> b \<longrightarrow> same_links (message_cells m) h x)"
  by (rule sys_mysend_effect[OF assms, of cur ubuf n uncopied]) blast

lemma sys_mysend_inv:
  assumes inv: "mailbox_inv m" and b: "bucket (mailbox_hash pid) = Some b"
    and fresh: "a \<notin> dom (message_cells m)" "a \<notin> dom (messages m)" "128 \<le> a"
    and "sys_mysend cur pid ubuf n uncopied (Some a) True m = Some (r, m')"
  shows "mailbox_inv m'"
proof -
  obtain h where h: "m' = m\<lparr>message_cells := h,
          messages := (messages m)(a \<mapsto> new_message cur pid ubuf n uncopied)\<rparr>"
    "ring h b [a]" "\<And>x. x \<noteq> a \<Longrightarrow> x \<noteq> b \<Longrightarrow> same_links (message_cells m) h x"
    using sys_mysend_ex[OF inv b fresh(1), of cur ubuf n uncopied] assms(6) by auto
  have "bucket_inv m' c" if "c < 128" for c
  proof (cases "c = b")
    case True
    then show ?thesis
      using h b fresh(3) by (intro bucket_invI_single[of m' c a]) (auto simp: new_message_def)
  next
    case False
    show ?thesis
    proof (rule bucket_inv_frame[of m])
      show "bucket_inv m c" using inv that by (simp add: mailbox_inv_def)
    qed (use h False fresh that bucket_lt[OF b] in auto)
  qed
  with inv h(1) show ?thesis by (auto simp: mailbox_inv_def)
qed

lemma find_message_empty:
  "ring (message_cells m) b [] \<Longrightarrow> find_message P b m = Some None"
  by (simp add: find_message_def ring_def scan_bucket.simps)

lemma find_message_single:
  assumes "ring (message_cells m) b [a]" "messages m a = Some msg"
  shows "find_message P b m = Some (if P msg then Some a else None)"
  using assms by (auto simp: find_message_def ring_def scan_bucket.simps)

text \<open>The two ways a receive can go on a mailbox in a good state.\<close>

lemma sys_myreceive_none:
  assumes inv: "mailbox_inv m" and b: "bucket (mailbox_hash cur) = Some b"
    and none: "\<And>a msg. ring (message_cells m) b [a] \<Longrightarrow> messages m a = Some msg \<Longrightarrow>
                 \<not> wanted cur pid msg"
  shows "sys_myreceive cur pid n uncopied m = Some (0, [], m)"
proof -
  let ?m = "m\<lparr>mb_lock := 0\<rparr>"
  have "bucket_inv m b" using inv bucket_lt[OF b] by (simp add: mailbox_inv_def)
  then have "find_message (wanted cur pid) b ?m = Some None"
  proof (cases rule: bucket_invE)
    case 1
    then show ?thesis by (simp add: find_message_empty)
  next
    case (2 a msg)
    then show ?thesis using none[of a msg] by (simp add: find_message_single[of ?m b a msg])
  qed
  with inv b show ?thesis
    by (simp add: sys_myreceive_def mb_down_def mb_up_def mailbox_inv_def)
qed

lemma sys_myreceive_some:
  assumes lock: "mb_lock m = 1" and b: "bucket (mailbox_hash cur) = Some b"
    and r: "ring (message_cells m) b [a]" and msg: "messages m a = Some msg"
    and w: "wanted cur pid msg"
    and min: "minimum = (if n < scast (msg_length msg) then n else scast (msg_length msg))"
    and bound: "unat minimum \<le> length (message msg)"
  obtains h where "sys_myreceive cur pid n uncopied m =
      Some (minimum - ucast uncopied, take (unat minimum - unat uncopied) (message msg),
        m\<lparr>message_cells := h, messages := (messages m)(a := None)\<rparr>)"
    and "ring h b []" and "dom h = dom (message_cells m) - {a}"
    and "\<And>x. x \<noteq> a \<Longrightarrow> x \<noteq> b \<Longrightarrow> same_links (message_cells m) h x"
proof -
  let ?m = "m\<lparr>mb_lock := 0\<rparr>"
  have f: "find_message (wanted cur pid) b ?m = Some (Some a)"
    using r msg w by (simp add: find_message_single[of ?m b a msg])
  obtain h where h: "list_del a (message_cells m) = Some h" "ring h b ([] @ [])"
    "dom h = dom (message_cells m)"
    "\<And>y. y \<notin> set (b # [] @ a # []) \<Longrightarrow> same_links (message_cells m) h y"
    by (rule ring_list_del[of "message_cells m" b "[]" a "[]"]) (use r in auto)
  have ab: "a \<noteq> b" using r by (auto simp: ring_def)
  show thesis
  proof (rule that[of "h(a := None)"])
    show "sys_myreceive cur pid n uncopied m =
      Some (minimum - ucast uncopied, take (unat minimum - unat uncopied) (message msg),
        m\<lparr>message_cells := h(a := None), messages := (messages m)(a := None)\<rparr>)"
      using lock b f h(1) msg bound
      by (simp add: sys_myreceive_def mb_down_def mb_up_def kfree_message_def Let_def min)
    show "ring (h(a := None)) b []"
      using h(2) ab ring_frame[of b "[]" h "h(a := None)"] by (simp add: same_links_upd)
    show "dom (h(a := None)) = dom (message_cells m) - {a}" using h(3) by auto
    show "same_links (message_cells m) (h(a := None)) x" if "x \<noteq> a" "x \<noteq> b" for x
      by (rule same_links_trans[of _ h]) (use h(4) that in \<open>auto intro: same_links_upd\<close>)
  qed
qed

lemma sys_myreceive_ex:
  assumes "mb_lock m = 1" and "bucket (mailbox_hash cur) = Some b"
    and "ring (message_cells m) b [a]" and "messages m a = Some msg" and "wanted cur pid msg"
    and "minimum = (if n < scast (msg_length msg) then n else scast (msg_length msg))"
    and "unat minimum \<le> length (message msg)"
  shows "\<exists>h. sys_myreceive cur pid n uncopied m =
      Some (minimum - ucast uncopied, take (unat minimum - unat uncopied) (message msg),
        m\<lparr>message_cells := h, messages := (messages m)(a := None)\<rparr>) \<and> ring h b [] \<and>
      (\<forall>x. x \<noteq> a \<longrightarrow> x \<noteq> b \<longrightarrow> same_links (message_cells m) h x)"
  by (rule sys_myreceive_some[OF assms, of uncopied]) blast

lemma sys_myreceive_inv:
  assumes inv: "mailbox_inv m" and b: "bucket (mailbox_hash cur) = Some b"
    and eq: "sys_myreceive cur pid n uncopied m = Some (r, bs, m')"
  shows "mailbox_inv m'"
proof (cases "\<exists>a msg. ring (message_cells m) b [a] \<and> messages m a = Some msg \<and> wanted cur pid msg")
  case False
  then have "sys_myreceive cur pid n uncopied m = Some (0, [], m)"
    by (intro sys_myreceive_none[OF inv b]) auto
  with eq inv show ?thesis by simp
next
  case True
  then obtain a msg where a: "ring (message_cells m) b [a]" "messages m a = Some msg"
    "wanted cur pid msg" by auto
  have l: "mb_lock m = 1" using inv by (simp add: mailbox_inv_def)
  let ?min = "(if n < scast (msg_length msg) then n else scast (msg_length msg)) :: u64"
  have "unat ?min \<le> length (message msg)"
    using eq a b l by (auto simp: sys_myreceive_def mb_down_def mb_up_def Let_def
        find_message_single[of "m\<lparr>mb_lock := 0\<rparr>" b a msg] bind_eq_Some_conv split: if_splits)
  then obtain h where h: "m' = m\<lparr>message_cells := h, messages := (messages m)(a := None)\<rparr>"
    "ring h b []" "\<And>x. x \<noteq> a \<Longrightarrow> x \<noteq> b \<Longrightarrow> same_links (message_cells m) h x"
    using sys_myreceive_ex[OF l b a refl, of n uncopied] eq by auto
  obtain c where c: "receiver msg = c" "bucket (mailbox_hash c) = Some b" "128 \<le> a"
  proof (rule bucket_invE[of m b])
    show "bucket_inv m b" using inv bucket_lt[OF b] by (simp add: mailbox_inv_def)
  qed (use a that ring_unique in fastforce)+
  have "bucket_inv m' d" if "d < 128" for d
  proof (cases "d = b")
    case True
    then show ?thesis using h by (simp add: bucket_invI_empty)
  next
    case False
    show ?thesis
    proof (rule bucket_inv_frame[of m])
      show "bucket_inv m d" using inv that by (simp add: mailbox_inv_def)
    qed (use h False that c a bucket_lt[OF b] in auto)
  qed
  with l h(1) show ?thesis by (auto simp: mailbox_inv_def)
qed

lemma init_mailbox_inv:
  assumes "{0..<128} \<subseteq> dom (message_cells m)"
  obtains m' where "init_mailbox m = Some m'" and "mailbox_inv m'"
    and "\<And>b. b < 128 \<Longrightarrow> ring (message_cells m') b []" and "messages m' = messages m"
    and "dom (message_cells m') = dom (message_cells m)"
proof -
  have loop: "\<exists>h'. foldM INIT_LIST_HEAD [0..<k] h = Some h' \<and> dom h' = dom h \<and>
      (\<forall>b < k. ring h' b [])" if "{0..<k} \<subseteq> dom h" for k h
    using that
  proof (induction k)
    case 0
    then show ?case by simp
  next
    case (Suc k)
    have "{0..<k} \<subseteq> dom h" using Suc.prems by (rule order_trans[rotated]) auto
    with Suc.IH obtain h1 where 1: "foldM INIT_LIST_HEAD [0..<k] h = Some h1" "dom h1 = dom h"
      "\<forall>b < k. ring h1 b []" by blast
    have "k \<in> dom h1" using Suc.prems 1 by auto
    from kq.init_law[OF this] obtain h2 where 2: "INIT_LIST_HEAD k h1 = Some h2" "ring h2 k []"
      "dom h2 = dom h1" "\<And>b ys. ring h1 b ys \<Longrightarrow> k \<notin> set (b # ys) \<Longrightarrow> ring h2 b ys" by auto
    with 1 show ?case by (auto simp: foldM_append less_Suc_eq)
  qed
  obtain h where h: "foldM INIT_LIST_HEAD [0..<128] (message_cells m) = Some h"
    "dom h = dom (message_cells m)" "\<forall>b < 128. ring h b []" using loop[OF assms] by auto
  show thesis
    by (rule that[of "m\<lparr>message_cells := h, mb_lock := 1\<rparr>"])
      (use h in \<open>auto simp: init_mailbox_def MAILBOX_NUMBER_BUCKETS_def mailbox_inv_def
         simp del: upt_rec_numeral intro: bucket_invI_empty\<close>)
qed

subsection \<open>Runs of the mailbox\<close>

text \<open>
  The text of a message covers its recorded length. The allocator hands out at most
  \<open>KMALLOC_MAX\<close> bytes, which keeps the recorded length from being cut to 32 bits.
\<close>

definition KMALLOC_MAX :: nat where
  "KMALLOC_MAX = 2 ^ 25"

definition msg_ok :: "message_struct \<Rightarrow> bool" where
  "msg_ok msg \<longleftrightarrow> unat (scast (msg_length msg) :: u64) \<le> length (message msg)"

definition send_args_ok :: "u8 list \<Rightarrow> u64 \<Rightarrow> u32 \<Rightarrow> addr \<Rightarrow> mailbox \<Rightarrow> bool" where
  "send_args_ok ubuf n uncopied a m \<longleftrightarrow> length ubuf = unat n \<and> unat n \<le> KMALLOC_MAX \<and>
     unat uncopied \<le> unat n \<and> 128 \<le> a \<and> a \<notin> dom (message_cells m) \<and> a \<notin> dom (messages m)"

inductive mailbox_reach :: "mailbox \<Rightarrow> bool" where
  boot: "{0..<128} \<subseteq> dom (message_cells m) \<Longrightarrow> messages m = Map.empty \<Longrightarrow>
     init_mailbox m = Some m' \<Longrightarrow> mailbox_reach m'"
| send: "mailbox_reach m \<Longrightarrow> send_args_ok ubuf n uncopied a m \<Longrightarrow>
     sys_mysend cur pid ubuf n uncopied (Some a) True m = Some (r, m') \<Longrightarrow> mailbox_reach m'"
| receive: "mailbox_reach m \<Longrightarrow>
     sys_myreceive cur pid n uncopied m = Some (r, bs, m') \<Longrightarrow> mailbox_reach m'"

lemma sys_mysend_bucket:
  assumes "sys_mysend cur pid ubuf n uncopied (Some a) True m = Some (r, m')"
  obtains b where "bucket (mailbox_hash pid) = Some b"
  using assms by (auto simp: sys_mysend_def mysend_enqueue_def bind_eq_Some_conv)

lemma sys_myreceive_bucket:
  assumes "sys_myreceive cur pid n uncopied m = Some (r, bs, m')"
  obtains b where "bucket (mailbox_hash cur) = Some b"
  using assms by (auto simp: sys_myreceive_def bind_eq_Some_conv)

lemma copied_length:
  fixes n :: u64
  assumes "unat n \<le> KMALLOC_MAX" "unat uncopied \<le> unat n"
  shows "unat (scast (ucast (n - ucast uncopied) :: s32) :: u64) = unat n - unat (uncopied :: u32)"
proof -
  have u: "unat (ucast uncopied :: u64) = unat uncopied"
    by (rule unat_ucast_small, rule less_le_trans, rule unsigned_less) simp
  then have d: "unat (n - ucast uncopied) = unat n - unat uncopied"
    using assms by (simp add: unat_sub word_le_nat_alt)
  let ?w = "ucast (n - ucast uncopied) :: s32"
  have lt: "unat (n - ucast uncopied) < 2 ^ 31" using assms by (simp add: d KMALLOC_MAX_def)
  then have w: "unat ?w = unat (n - ucast uncopied)" by (intro unat_ucast_small) simp
  have "unat (scast ?w :: u64) = unat ?w"
    using lt w by (intro unat_scast_small) simp_all
  then show ?thesis using w d by simp
qed

lemma msg_ok_new:
  assumes "send_args_ok ubuf n uncopied a m"
  shows "msg_ok (new_message cur pid ubuf n uncopied)"
  using assms copied_length[of n uncopied]
  by (simp add: msg_ok_def new_message_def send_args_ok_def copy_from_user_def)

definition mailbox_good :: "mailbox \<Rightarrow> bool" where
  "mailbox_good m \<longleftrightarrow> mailbox_inv m \<and> (\<forall>a msg. messages m a = Some msg \<longrightarrow> msg_ok msg)"

lemma sys_myreceive_total:
  assumes good: "mailbox_good m" and b: "bucket (mailbox_hash cur) = Some b"
  shows "\<exists>r bs m'. sys_myreceive cur pid n uncopied m = Some (r, bs, m') \<and> messages m' \<subseteq>\<^sub>m messages m"
proof (cases "\<exists>a msg. ring (message_cells m) b [a] \<and> messages m a = Some msg \<and> wanted cur pid msg")
  case False
  then have "sys_myreceive cur pid n uncopied m = Some (0, [], m)"
    using good by (intro sys_myreceive_none[OF _ b]) (auto simp: mailbox_good_def)
  then show ?thesis by simp
next
  case True
  then obtain a msg where a: "ring (message_cells m) b [a]" "messages m a = Some msg"
    "wanted cur pid msg" by auto
  have l: "mb_lock m = 1" using good by (simp add: mailbox_good_def mailbox_inv_def)
  let ?min = "(if n < scast (msg_length msg) then n else scast (msg_length msg)) :: u64"
  have "unat ?min \<le> unat (scast (msg_length msg) :: u64)" by (simp add: word_less_nat_alt)
  also have "\<dots> \<le> length (message msg)" using good a by (auto simp: mailbox_good_def msg_ok_def)
  finally have bound: "unat ?min \<le> length (message msg)" .
  obtain h where "sys_myreceive cur pid n uncopied m =
      Some (?min - ucast uncopied, take (unat ?min - unat uncopied) (message msg),
        m\<lparr>message_cells := h, messages := (messages m)(a := None)\<rparr>)"
    by (rule sys_myreceive_some[OF l b a refl bound, of uncopied]) (rule that)
  then show ?thesis by (simp add: map_le_def)
qed

lemma mailbox_reach_good: "mailbox_reach m \<Longrightarrow> mailbox_good m"
proof (induction rule: mailbox_reach.induct)
  case (boot m m')
  obtain m1 where "init_mailbox m = Some m1" "mailbox_inv m1" "messages m1 = messages m"
    by (rule init_mailbox_inv[OF boot(1)]) (rule that)
  with boot show ?case by (simp add: mailbox_good_def)
next
  case (send m ubuf n uncopied a cur pid r m')
  obtain b where b: "bucket (mailbox_hash pid) = Some b"
    using send.hyps(3) by (rule sys_mysend_bucket)
  have inv: "mailbox_inv m" using send.IH by (simp add: mailbox_good_def)
  have "mailbox_inv m'"
    by (rule sys_mysend_inv[OF inv b _ _ _ send.hyps(3)])
      (use send.hyps(2) in \<open>auto simp: send_args_ok_def\<close>)
  moreover have "messages m' = (messages m)(a \<mapsto> new_message cur pid ubuf n uncopied)"
    using sys_mysend_ex[OF inv b, of a cur ubuf n uncopied] send.hyps
    by (auto simp: send_args_ok_def)
  ultimately show ?case
    using send.IH msg_ok_new[OF send.hyps(2)] by (auto simp: mailbox_good_def)
next
  case (receive m cur pid n uncopied r bs m')
  obtain b where b: "bucket (mailbox_hash cur) = Some b"
    using receive.hyps(2) by (rule sys_myreceive_bucket)
  have "messages m' \<subseteq>\<^sub>m messages m"
    using sys_myreceive_total[OF receive.IH b, of pid n uncopied] receive.hyps by auto
  moreover have "mailbox_inv m'"
    using sys_myreceive_inv[OF _ b receive.hyps(2)] receive.IH by (simp add: mailbox_good_def)
  ultimately show ?case
    using receive.IH by (fastforce simp: mailbox_good_def map_le_def dom_def)
qed

text \<open>What may come after a state: more sends and receives, by anybody.\<close>

inductive mailbox_later :: "mailbox \<Rightarrow> mailbox \<Rightarrow> bool" for m0 where
  now: "mailbox_later m0 m0"
| send: "mailbox_later m0 m \<Longrightarrow> send_args_ok ubuf n uncopied a m \<Longrightarrow>
     sys_mysend cur pid ubuf n uncopied (Some a) True m = Some (r, m') \<Longrightarrow> mailbox_later m0 m'"
| receive: "mailbox_later m0 m \<Longrightarrow>
     sys_myreceive cur pid n uncopied m = Some (r, bs, m') \<Longrightarrow> mailbox_later m0 m'"

text \<open>A message that is allocated but on no list.\<close>

definition lost :: "addr \<Rightarrow> message_struct \<Rightarrow> mailbox \<Rightarrow> bool" where
  "lost x msg m \<longleftrightarrow> mailbox_good m \<and> messages m x = Some msg \<and> 128 \<le> x \<and>
     (\<forall>c < 128. \<not> ring (message_cells m) c [x])"

lemma lost_unlisted:
  assumes "lost x msg m" "c < 128" "ring (message_cells m) c xs"
  shows "x \<notin> set xs"
proof -
  have b: "bucket_inv m c" using assms(1,2) by (simp add: lost_def mailbox_good_def mailbox_inv_def)
  show ?thesis using b
  proof (cases rule: bucket_invE)
    case 1 then show ?thesis using assms(3) ring_unique[of "message_cells m" c "[]" xs] by auto
  next
    case (2 a msg')
    then have "xs = [a]" using assms(3) ring_unique by blast
    then show ?thesis using assms 2 by (auto simp: lost_def)
  qed
qed

text \<open>Changing the links of one bucket and one message does not put another message on a list.\<close>

lemma ring_frame_other:
  assumes "ring h c [x]" "\<And>y. y \<noteq> a \<Longrightarrow> y \<noteq> b \<Longrightarrow> same_links h0 h y" "c < 128" "b < 128" "128 \<le> a" "128 \<le> x" "x \<noteq> a" "c \<noteq> b"
  shows "ring h0 c [x]"
proof -
  have "ring h c [x] = ring h0 c [x]" by (rule ring_frame) (use assms in auto)
  then show ?thesis using assms(1) by simp
qed

lemma lost_send:
  assumes l: "lost x msg m" and ok: "send_args_ok ubuf n uncopied a m"
    and s: "sys_mysend cur pid ubuf n uncopied (Some a) True m = Some (r, m')"
  shows "lost x msg m'"
proof -
  obtain b where b: "bucket (mailbox_hash pid) = Some b" using s by (rule sys_mysend_bucket)
  have g: "mailbox_good m" and inv: "mailbox_inv m" and x: "messages m x = Some msg" "128 \<le> x"
    using l by (auto simp: lost_def mailbox_good_def)
  have fresh: "a \<notin> dom (message_cells m)" "a \<notin> dom (messages m)" "128 \<le> a" using ok by (auto simp: send_args_ok_def)
  obtain h where h: "m' = m\<lparr>message_cells := h, messages := (messages m)(a \<mapsto> new_message cur pid ubuf n uncopied)\<rparr>"
    "ring h b [a]" "\<And>y. y \<noteq> a \<Longrightarrow> y \<noteq> b \<Longrightarrow> same_links (message_cells m) h y"
    using sys_mysend_ex[OF inv b fresh(1), of cur ubuf n uncopied] s by auto
  have xa: "x \<noteq> a" using x fresh by auto
  have "\<not> ring h c [x]" if c: "c < 128" for c
  proof (cases "c = b")
    case True then show ?thesis using h(2) ring_unique[of h b "[a]" "[x]"] xa by auto
  next
    case False
    then show ?thesis
      using ring_frame_other[OF _ h(3) c bucket_lt[OF b] fresh(3) x(2) xa] l c by (auto simp: lost_def)
  qed
  moreover have "mailbox_good m'"
    using sys_mysend_inv[OF inv b fresh s] g h(1) msg_ok_new[OF ok] by (auto simp: mailbox_good_def)
  ultimately show ?thesis using h(1) x xa by (simp add: lost_def)
qed

lemma lost_receive:
  assumes l: "lost x msg m" and r: "sys_myreceive cur pid n uncopied m = Some (r, bs, m')"
  shows "lost x msg m'"
proof -
  obtain b where b: "bucket (mailbox_hash cur) = Some b" using r by (rule sys_myreceive_bucket)
  have g: "mailbox_good m" and inv: "mailbox_inv m" and x: "messages m x = Some msg" "128 \<le> x"
    using l by (auto simp: lost_def mailbox_good_def)
  have b128: "b < 128" using b by (rule bucket_lt)
  show ?thesis
  proof (cases "\<exists>a msg. ring (message_cells m) b [a] \<and> messages m a = Some msg \<and> wanted cur pid msg")
    case False
    then have "sys_myreceive cur pid n uncopied m = Some (0, [], m)" by (intro sys_myreceive_none[OF inv b]) auto
    then show ?thesis using r l by simp
  next
    case True
    then obtain a msg' where a: "ring (message_cells m) b [a]" "messages m a = Some msg'" "wanted cur pid msg'" by auto
    have xa: "x \<noteq> a" using a(1) l b128 by (auto simp: lost_def)
    have a128: "128 \<le> a" using inv b128 a(1) ring_unique by (fastforce simp: mailbox_inv_def bucket_inv_def)
    have lock: "mb_lock m = 1" using inv by (simp add: mailbox_inv_def)
    let ?min = "(if n < scast (msg_length msg') then n else scast (msg_length msg')) :: u64"
    have "unat ?min \<le> unat (scast (msg_length msg') :: u64)" by (simp add: word_less_nat_alt)
    also have "\<dots> \<le> length (message msg')" using g a by (auto simp: mailbox_good_def msg_ok_def)
    finally obtain h where h: "m' = m\<lparr>message_cells := h, messages := (messages m)(a := None)\<rparr>"
      "ring h b []" "\<And>y. y \<noteq> a \<Longrightarrow> y \<noteq> b \<Longrightarrow> same_links (message_cells m) h y"
      using sys_myreceive_ex[OF lock b a refl, of n uncopied] r by auto
    have "\<not> ring h c [x]" if c: "c < 128" for c
    proof (cases "c = b")
      case True then show ?thesis using h(2) ring_unique[of h b "[]" "[x]"] by auto
    next
      case False
      then show ?thesis using ring_frame_other[OF _ h(3) c b128 a128 x(2) xa] l c by (auto simp: lost_def)
    qed
    moreover have "mailbox_good m'" using sys_myreceive_inv[OF inv b r] g h(1) by (auto simp: mailbox_good_def split: if_splits)
    ultimately show ?thesis using h(1) x xa by (simp add: lost_def)
  qed
qed

lemma lost_for_ever: "mailbox_later m0 m \<Longrightarrow> lost x msg m0 \<Longrightarrow> lost x msg m"
  by (induction rule: mailbox_later.induct) (auto intro: lost_send lost_receive)

subsection \<open>Properties\<close>

text \<open>A concrete mailbox, as the kernel has it right after \<^verbatim>\<open>init_mailbox\<close>.\<close>

definition boot_mailbox :: mailbox where
  "boot_mailbox = \<lparr>message_cells = (\<lambda>a. if a < 128 then Some \<lparr>lnext = a, lprev = a\<rparr> else None),
     messages = Map.empty, mb_lock = 1\<rparr>"

lemma boot_ring: "b < 128 \<Longrightarrow> ring (message_cells boot_mailbox) b []"
  by (simp add: boot_mailbox_def ring_def get_next_def get_prev_def)

lemma boot_good: "mailbox_good boot_mailbox"
  using boot_ring bucket_invI_empty
  by (auto simp: mailbox_good_def mailbox_inv_def boot_mailbox_def)

lemma boot_fresh:
  "128 \<le> a \<Longrightarrow> a \<notin> dom (message_cells boot_mailbox) \<and> a \<notin> dom (messages boot_mailbox)"
  by (simp add: boot_mailbox_def dom_def)

text \<open>C1: every state the mailbox can reach from boot by \<^verbatim>\<open>sys_mysend\<close> and \<^verbatim>\<open>sys_myreceive\<close> has, in
  each of its 128 buckets, a consistent circular list with at most one live message that is
  addressed to a receiver of that bucket. In each such state a send to a task with a non-negative
  pid, with memory at hand, returns the number of bytes copied, and a receive by a task with a
  non-negative pid returns: the list walk ends, no dead memory is touched, and the state it leaves
  is again one of these.\<close>

theorem mailbox_reachable_safe:
  assumes "mailbox_reach m"
  shows "(\<forall>b < 128. bucket_inv m b) \<and> mb_lock m = 1 \<and>
    (\<forall>cur pid ubuf n uncopied a. 0 \<le> sint pid \<and> send_args_ok ubuf n uncopied a m \<longrightarrow>
       (\<exists>r m'. sys_mysend cur pid ubuf n uncopied (Some a) True m = Some (r, m') \<and>
          unat r = unat n - unat uncopied \<and> mailbox_reach m')) \<and>
    (\<forall>cur pid n uncopied. 0 \<le> sint cur \<longrightarrow>
       (\<exists>r bs m'. sys_myreceive cur pid n uncopied m = Some (r, bs, m') \<and> mailbox_reach m'))"
proof (intro conjI allI impI)
  have g: "mailbox_good m" using assms by (rule mailbox_reach_good)
  then have inv: "mailbox_inv m" by (simp add: mailbox_good_def)
  then show "mb_lock m = 1" and "\<And>b. b < 128 \<Longrightarrow> bucket_inv m b" by (auto simp: mailbox_inv_def)
  show "\<exists>r bs m'. sys_myreceive cur pid n uncopied m = Some (r, bs, m') \<and> mailbox_reach m'" if "0 \<le> sint cur" for cur pid n uncopied
    using sys_myreceive_total[OF g mailbox_hash_nonneg[OF that], of pid n uncopied] mailbox_reach.receive[OF assms] by blast
  show "\<exists>r m'. sys_mysend cur pid ubuf n uncopied (Some a) True m = Some (r, m') \<and>
      unat r = unat n - unat uncopied \<and> mailbox_reach m'"
    if p: "0 \<le> sint pid \<and> send_args_ok ubuf n uncopied a m" for cur pid ubuf n uncopied a
  proof -
    have "a \<notin> dom (message_cells m)" using p by (simp add: send_args_ok_def)
    then obtain m' where "sys_mysend cur pid ubuf n uncopied (Some a) True m =
        Some (scast (ucast (n - ucast uncopied) :: s32), m')"
      using sys_mysend_ex[OF inv mailbox_hash_nonneg, of pid a cur ubuf n uncopied] p by auto
    then show ?thesis
      using mailbox_reach.send[OF assms, of ubuf n uncopied a cur pid] copied_length[of n uncopied] p
      by (auto simp: send_args_ok_def)
  qed
qed

lemma boot_reach: "mailbox_reach boot_mailbox"
proof -
  have id: "INIT_LIST_HEAD b (message_cells boot_mailbox) = Some (message_cells boot_mailbox)" if "b < 128" for b
    using that by (auto simp: INIT_LIST_HEAD_def boot_mailbox_def fun_eq_iff set_next_def set_prev_def)
  have "foldM INIT_LIST_HEAD [0..<k] (message_cells boot_mailbox) = Some (message_cells boot_mailbox)" if "k \<le> 128" for k
    using that by (induction k) (auto simp: foldM_append id)
  then have "init_mailbox boot_mailbox = Some boot_mailbox"
    by (simp add: init_mailbox_def MAILBOX_NUMBER_BUCKETS_def boot_mailbox_def del: upt_rec_numeral)
  then show ?thesis by (intro mailbox_reach.boot[of boot_mailbox]) (auto simp: boot_mailbox_def dom_def)
qed

text \<open>From boot, a send to task 300; then one more to the same task, and a receive by it.\<close>

theorem mailbox_reachable_safe_witness:
  "\<exists>m1 m2 r bs m3. sys_mysend 7 300 [104, 105] 2 0 (Some 500) True boot_mailbox = Some (2, m1) \<and>
     (\<exists>msg. ring (message_cells m1) 44 [500] \<and> messages m1 500 = Some msg) \<and> bucket_inv m1 44 \<and>
     sys_mysend 7 300 [111] 1 0 (Some 600) True m1 = Some (1, m2) \<and>
     sys_myreceive 300 7 80 0 m2 = Some (r, bs, m3) \<and> mailbox_reach m3"
proof -
  have ok: "send_args_ok [104, 105] 2 0 500 boot_mailbox"
    using boot_fresh[of 500] by (simp add: send_args_ok_def KMALLOC_MAX_def)
  have b: "bucket (mailbox_hash 300) = Some 44" by (simp add: mailbox_hash_nonneg)
  obtain h where 1: "sys_mysend 7 300 [104, 105] 2 0 (Some 500) True boot_mailbox =
      Some (2, boot_mailbox\<lparr>message_cells := h, messages := [500 \<mapsto> new_message 7 300 [104, 105] 2 0]\<rparr>)"
    (is "_ = Some (2, ?m1)") "ring h 44 [500]" "dom h = insert 500 (dom (message_cells boot_mailbox))"
    by (rule sys_mysend_effect[OF _ b, of boot_mailbox 500 7 "[104, 105]" 2 0])
      (use boot_fresh[of 500] boot_good in \<open>auto simp: boot_mailbox_def mailbox_good_def\<close>)
  note r1 = mailbox_reach.send[OF boot_reach ok 1(1)]
  have ok1: "send_args_ok [111] 1 0 600 ?m1"
    using 1(3) by (simp add: send_args_ok_def KMALLOC_MAX_def boot_mailbox_def dom_def)
  have "0 \<le> sint (300 :: s32) \<and> send_args_ok [111] 1 0 600 ?m1" using ok1 by simp
  then obtain r2 m2 where 2: "sys_mysend 7 300 [111] 1 0 (Some 600) True ?m1 = Some (r2, m2)"
      "unat r2 = unat (1 :: u64) - unat (0 :: u32)" "mailbox_reach m2"
    using mailbox_reachable_safe[OF r1] by blast
  have "r2 = 1" using 2(2) by (simp add: word_unat_eq_iff)
  moreover have "0 \<le> sint (300 :: s32)" by simp
  then obtain r3 bs m3 where "sys_myreceive 300 7 80 0 m2 = Some (r3, bs, m3)" "mailbox_reach m3"
    using mailbox_reachable_safe[OF 2(3)] by blast
  moreover have "bucket_inv ?m1 44" using mailbox_reachable_safe[OF r1] by simp
  ultimately show ?thesis using 1 2(1) by auto
qed

lemma send_then_receive:
  assumes "mailbox_good m" and "0 \<le> sint pid" and "src <s 0 \<or> src = cur"
    and "send_args_ok ubuf n 0 a m"
  shows "\<exists>m1 m2. sys_mysend cur pid ubuf n 0 (Some a) True m = Some (n, m1) \<and>
     sys_myreceive pid src k 0 m1 = Some (min k n, take (unat (min k n)) ubuf, m2) \<and>
     messages m2 = messages m \<and> mailbox_good m2"
proof -
  note b = mailbox_hash_nonneg[OF assms(2)]
  let ?b = "nat (sint pid mod 128)"
  have inv: "mailbox_inv m" and fresh: "a \<notin> dom (message_cells m)" "a \<notin> dom (messages m)" "128 \<le> a"
    and n: "unat n \<le> KMALLOC_MAX" "length ubuf = unat n"
    using assms(1,4) by (auto simp: mailbox_good_def send_args_ok_def)
  let ?msg = "new_message cur pid ubuf n 0"
  have len: "scast (msg_length ?msg) = n"
    using copied_length[OF n(1), of 0] by (simp add: new_message_def unsigned_word_eqI)
  obtain h where h: "sys_mysend cur pid ubuf n 0 (Some a) True m = Some (n,
      m\<lparr>message_cells := h, messages := (messages m)(a \<mapsto> ?msg)\<rparr>)" "ring h ?b [a]"
    using sys_mysend_ex[OF inv b fresh(1), of cur ubuf n 0] len
    by (auto simp: new_message_def)
  let ?m1 = "m\<lparr>message_cells := h, messages := (messages m)(a \<mapsto> ?msg)\<rparr>"
  have inv1: "mailbox_inv ?m1" by (rule sys_mysend_inv[OF inv b fresh h(1)])
  have w: "wanted pid src ?msg" using assms(3) by (auto simp: wanted_def new_message_def)
  have min: "min k n = (if k < scast (msg_length ?msg) then k else scast (msg_length ?msg))"
    by (simp add: len min_def order_le_less)
  have body: "message ?msg = ubuf" by (simp add: new_message_def copy_from_user_def n)
  have bound: "unat (min k n) \<le> length (message ?msg)"
    unfolding body n(2) by (simp add: min_def word_le_nat_alt)
  obtain h2 where h2: "sys_myreceive pid src k 0 ?m1 = Some (min k n - ucast (0::u32),
      take (unat (min k n) - unat (0::u32)) (message ?msg),
      ?m1\<lparr>message_cells := h2, messages := (messages ?m1)(a := None)\<rparr>)"
    using sys_myreceive_ex[of ?m1 pid ?b a ?msg src, OF _ b _ _ w min bound, of 0] inv1 h(2)
    by (auto simp: mailbox_inv_def)
  have "mailbox_inv (?m1\<lparr>message_cells := h2, messages := (messages ?m1)(a := None)\<rparr>)"
    by (rule sys_myreceive_inv[OF inv1 b h2])
  moreover have "(messages ?m1)(a := None) = messages m" using fresh(2) by (auto simp: fun_eq_iff)
  ultimately show ?thesis using h(1) h2 body assms(1) by (auto simp: mailbox_good_def)
qed

text \<open>C2: what one task sends, the addressed task receives. A message whose text was copied
  completely, sent to a task with a non-negative pid, is returned by that task's next
  \<^verbatim>\<open>sys_myreceive\<close> (from any sender, or from this sender): it gets the first bytes of the text, as
  many as its buffer takes, and the message is gone afterwards.\<close>

theorem mailbox_send_receive:
  assumes "mailbox_good m" and "0 \<le> sint pid" and "src <s 0 \<or> src = cur"
    and "send_args_ok ubuf n 0 a m"
  shows "\<exists>m1 m2. sys_mysend cur pid ubuf n 0 (Some a) True m = Some (n, m1) \<and>
     sys_myreceive pid src k 0 m1 = Some (min k n, take (unat (min k n)) ubuf, m2) \<and>
     messages m2 = messages m \<and> mailbox_good m2"
  using assms by (rule send_then_receive)

theorem mailbox_send_receive_witness:
  "\<exists>m1 m2. sys_mysend 7 300 [104, 105] 2 0 (Some 500) True boot_mailbox = Some (2, m1) \<and>
     sys_myreceive 300 7 80 0 m1 = Some (2, [104, 105], m2)"
proof -
  have "send_args_ok [104, 105] 2 0 500 boot_mailbox"
    using boot_fresh[of 500] by (simp add: send_args_ok_def KMALLOC_MAX_def)
  then show ?thesis
    using mailbox_send_receive[OF boot_good, of 300 7 7 "[104, 105]" 2 500 80]
    by (auto simp: min_def)
qed

text \<open>C3: a send empties its bucket. Whatever message the bucket of the receiver held, for the same
  receiver or another one with the same hash, after the send the bucket holds the new message alone.
  The earlier message is lost for ever: in every later state, whatever is sent and received, it is
  still allocated and on no list, so no receive delivers or frees it; and if it was for another
  task, that task's next receive gets nothing. (The two arguments of \<^verbatim>\<open>list_add_tail\<close> are swapped in
  \<^verbatim>\<open>sys_mysend\<close>: the head is put on the ring of the message.)\<close>

theorem mailbox_send_loses_earlier:
  assumes "mailbox_good m" and "0 \<le> sint pid"
    and "ring (message_cells m) (nat (sint pid mod 128)) [old]"
    and "messages m old = Some msg"
    and "send_args_ok ubuf n uncopied a m"
    and "sys_mysend cur pid ubuf n uncopied (Some a) True m = Some (r, m')"
  shows "ring (message_cells m') (nat (sint pid mod 128)) [a] \<and>
     (receiver msg \<noteq> pid \<longrightarrow> (\<forall>src k u. sys_myreceive (receiver msg) src k u m' = Some (0, [], m'))) \<and>
     (\<forall>m''. mailbox_later m' m'' \<longrightarrow> messages m'' old = Some msg \<and>
        (\<forall>c < 128. \<forall>xs. ring (message_cells m'') c xs \<longrightarrow> old \<notin> set xs))"
proof -
  let ?b = "nat (sint pid mod 128)"
  note b = mailbox_hash_nonneg[OF assms(2)]
  have inv: "mailbox_inv m" and fresh: "a \<notin> dom (message_cells m)" "a \<notin> dom (messages m)" "128 \<le> a"
    using assms(1,5) by (auto simp: mailbox_good_def send_args_ok_def)
  obtain h where h: "m' = m\<lparr>message_cells := h, messages := (messages m)(a \<mapsto> new_message cur pid ubuf n uncopied)\<rparr>"
    "ring h ?b [a]" "\<And>y. y \<noteq> a \<Longrightarrow> y \<noteq> ?b \<Longrightarrow> same_links (message_cells m) h y"
    using sys_mysend_ex[OF inv b fresh(1), of cur ubuf n uncopied] assms(6) by auto
  have inv': "mailbox_inv m'" by (rule sys_mysend_inv[OF inv b fresh assms(6)])
  have oldb: "128 \<le> old" "bucket (mailbox_hash (receiver msg)) = Some c" if "c < 128" "ring (message_cells m) c [old]" for c
    using inv that assms(4) ring_unique by (fastforce simp: mailbox_inv_def bucket_inv_def)+
  note old = oldb[OF bucket_lt[OF b] assms(3)]
  have ne: "old \<noteq> a" using assms(4) fresh(2) by auto
  have "\<not> ring h c [old]" if c: "c < 128" for c
  proof (cases "c = ?b")
    case True then show ?thesis using h(2) ring_unique[of h ?b "[a]" "[old]"] ne by auto
  next
    case False
    then show ?thesis
      using ring_frame_other[OF _ h(3) c bucket_lt[OF b] fresh(3) old(1) ne] oldb(2)[OF c] old(2) by auto
  qed
  then have lost: "lost old msg m'"
    using inv' assms(1,4) msg_ok_new[OF assms(5)] h(1) ne old(1) by (auto simp: lost_def mailbox_good_def)
  have l: "messages m'' old = Some msg \<and> (\<forall>c < 128. \<forall>xs. ring (message_cells m'') c xs \<longrightarrow> old \<notin> set xs)"
    if "mailbox_later m' m''" for m''
  proof -
    have "lost old msg m''" by (rule lost_for_ever[OF that lost])
    then show ?thesis using lost_unlisted[of old msg m''] by (auto simp: lost_def)
  qed
  have "sys_myreceive (receiver msg) src k u m' = Some (0, [], m')" if "receiver msg \<noteq> pid" for src k u
    by (rule sys_myreceive_none[OF inv' old(2)])
      (use h ring_unique that in \<open>fastforce simp: wanted_def new_message_def\<close>)
  with h l show ?thesis by simp
qed

text \<open>Two messages to task 300 before it receives: it gets the second, then nothing, and the first
  is still allocated.\<close>

theorem mailbox_send_loses_earlier_witness:
  "\<exists>m1 m2 m3. sys_mysend 7 300 [104, 105] 2 0 (Some 500) True boot_mailbox = Some (2, m1) \<and>
     sys_mysend 7 300 [111] 1 0 (Some 600) True m1 = Some (1, m2) \<and>
     sys_myreceive 300 7 80 0 m2 = Some (1, [111], m3) \<and>
     sys_myreceive 300 7 80 0 m3 = Some (0, [], m3) \<and>
     messages m3 500 = Some (new_message 7 300 [104, 105] 2 0)"
proof -
  have ok: "send_args_ok [104, 105] 2 0 500 boot_mailbox"
    using boot_fresh[of 500] by (simp add: send_args_ok_def KMALLOC_MAX_def)
  have inv: "mailbox_inv boot_mailbox" using boot_good by (simp add: mailbox_good_def)
  have b: "bucket (mailbox_hash 300) = Some 44" by (simp add: mailbox_hash_nonneg)
  obtain h where 1: "sys_mysend 7 300 [104, 105] 2 0 (Some 500) True boot_mailbox =
      Some (2, boot_mailbox\<lparr>message_cells := h, messages := [500 \<mapsto> new_message 7 300 [104, 105] 2 0]\<rparr>)"
    (is "_ = Some (2, ?m1)") "ring h 44 [500]" "dom h = insert 500 (dom (message_cells boot_mailbox))"
    by (rule sys_mysend_effect[OF inv b, of 500 7 "[104, 105]" 2 0])
      (use boot_fresh[of 500] in \<open>auto simp: boot_mailbox_def\<close>)
  have g1: "mailbox_good ?m1"
    using sys_mysend_inv[OF inv b _ _ _ 1(1)] boot_fresh[of 500] msg_ok_new[OF ok] by (auto simp: mailbox_good_def)
  have ok1: "send_args_ok [111] 1 0 600 ?m1"
    using 1(3) by (simp add: send_args_ok_def KMALLOC_MAX_def boot_mailbox_def dom_def)
  obtain m2 m3 where 2: "sys_mysend 7 300 [111] 1 0 (Some 600) True ?m1 = Some (1, m2)"
    "sys_myreceive 300 7 80 0 m2 = Some (1, [111], m3)" "messages m3 = messages ?m1" "mailbox_good m3"
    using send_then_receive[OF g1 _ _ ok1, of 300 7 7 80] by (auto simp: min_def word_le_nat_alt)
  have "mailbox_later m2 m3" by (rule mailbox_later.receive[OF mailbox_later.now 2(2)])
  then have "messages m3 500 = Some (new_message 7 300 [104, 105] 2 0) \<and>
      (\<forall>c < 128. \<forall>xs. ring (message_cells m3) c xs \<longrightarrow> 500 \<notin> set xs)"
    using mailbox_send_loses_earlier[OF g1 _ _ _ ok1 2(1), of 500 "new_message 7 300 [104, 105] 2 0"] 1(2) by simp
  moreover have "(44 :: nat) < 128" by simp
  ultimately have lost: "messages m3 500 = Some (new_message 7 300 [104, 105] 2 0)"
      "\<And>xs. ring (message_cells m3) 44 xs \<Longrightarrow> 500 \<notin> set xs" by blast+
  have "sys_myreceive 300 7 80 0 m3 = Some (0, [], m3)"
    by (rule sys_myreceive_none[OF _ b])
      (use 2(3,4) lost(2)[of "[500]"] in \<open>auto simp: mailbox_good_def split: if_splits\<close>)
  then show ?thesis using 1(1) 2 lost(1) by auto
qed

lemma uint_neg_small: "0 < k \<Longrightarrow> k < 128 \<Longrightarrow> uint (word_of_int (- k) :: u64) = 2 ^ 64 - k"
  by (subst uint_word_of_int) (simp add: zmod_zminus1_eq_if)

text \<open>A send to a negative pid runs outside the bucket array, unless the pid is a multiple of
  128: the remainder is negative, the index becomes a huge \<open>size_t\<close>, and there is no list head
  to add to.\<close>

theorem mailbox_negative_pid_faults:
  assumes "sint pid < 0" and "\<not> 128 dvd sint pid"
  shows "sys_mysend cur pid ubuf n uncopied (Some a) True m = None"
proof -
  let ?k = "(- sint pid) mod 128"
  have k: "0 < ?k" "?k < 128"
    using assms(2) by (auto simp: order_le_less dvd_eq_mod_eq_0 zmod_zminus1_eq_if)
  have "uint (mailbox_hash pid) = 2 ^ 64 - ?k"
    using uint_neg_small[OF k] assms(1)
    by (simp only: mailbox_hash_def c_rem_neg MAILBOX_NUMBER_BUCKETS_def of_nat_numeral)
  then have "\<not> int (unat (mailbox_hash pid)) < 128" using k(2) by simp
  then have "bucket (mailbox_hash pid) = None"
    by (simp add: bucket_def MAILBOX_NUMBER_BUCKETS_def del: of_nat_unat)
  then show ?thesis
    by (cases "mysend_prepare cur pid ubuf n uncopied (Some a) True m")
      (auto simp: sys_mysend_def mysend_enqueue_def mb_down_def split: bind_splits)
qed

theorem mailbox_negative_pid_faults_witness:
  "sys_mysend 7 (-5) [104] 1 0 (Some 500) True boot_mailbox = None"
  by (rule mailbox_negative_pid_faults) simp_all

text \<open>C5: \<^verbatim>\<open>sys_mysend\<close> reads the message once more after it released the semaphore. If the receiver
  runs in between, it frees the message, and the sender reads freed memory: the interleaving
  exists from every good state.\<close>

theorem mailbox_send_use_after_free:
  assumes "mailbox_good m" and "0 \<le> sint pid" and "send_args_ok ubuf n 0 a m"
  shows "\<exists>m1 m2 m3 bs. mysend_prepare cur pid ubuf n 0 (Some a) True m = Some (a, m1) \<and>
     mysend_enqueue pid a m1 = Some m2 \<and> sys_myreceive pid (-1) k 0 m2 = Some (min k n, bs, m3) \<and>
     mysend_return a m3 = None"
proof -
  obtain m2 m3 where m: "sys_mysend cur pid ubuf n 0 (Some a) True m = Some (n, m2)"
    "sys_myreceive pid (-1) k 0 m2 = Some (min k n, take (unat (min k n)) ubuf, m3)"
    "messages m3 = messages m"
    using send_then_receive[OF assms(1,2) _ assms(3), of "-1" cur k] by auto
  then obtain m1 where "mysend_prepare cur pid ubuf n 0 (Some a) True m = Some (a, m1)"
    "mysend_enqueue pid a m1 = Some m2"
    by (auto simp: sys_mysend_def mysend_prepare_def bind_eq_Some_conv)
  moreover have "mysend_return a m3 = None"
    using m(3) assms(3) by (auto simp: mysend_return_def send_args_ok_def)
  ultimately show ?thesis using m(2) by blast
qed

theorem mailbox_send_use_after_free_witness:
  "\<exists>m1 m2 m3 bs. mysend_prepare 7 300 [104] 1 0 (Some 500) True boot_mailbox = Some (500, m1) \<and>
     mysend_enqueue 300 500 m1 = Some m2 \<and> sys_myreceive 300 (-1) 80 0 m2 = Some (1, bs, m3) \<and>
     mysend_return 500 m3 = None"
proof -
  have "send_args_ok [104] 1 0 500 boot_mailbox"
    using boot_fresh[of 500] by (simp add: send_args_ok_def KMALLOC_MAX_def)
  then show ?thesis
    using mailbox_send_use_after_free[OF boot_good, of 300 "[104]" 1 500 7 80]
    by (simp add: min_def word_le_nat_alt)
qed

end
