(* ===== verification/Syscalls.thy ===== *)
theory Syscalls
  imports Prelude
begin

text \<open>
  The process-manipulating system calls added at the end of \<^verbatim>\<open>kernel/sched.c\<close>: \<^verbatim>\<open>sys_mygetpid\<close>,
  \<^verbatim>\<open>sys_steal\<close>, \<^verbatim>\<open>sys_quad\<close>, \<^verbatim>\<open>sys_swipe\<close> and \<^verbatim>\<open>sys_zombify\<close>. (\<^verbatim>\<open>sys_myjoin\<close> blocks and is in
  \<open>Join\<close>.) The state is the task table, as \<^verbatim>\<open>find_task_by_pid\<close> sees it; a task carries the fields
  these calls read and write. Results are \<open>long\<close>: \<open>-1\<close> where no task has the pid.

  The loop of \<^verbatim>\<open>sys_swipe\<close> walks the victim's list of children through the member \<open>children\<close> where
  the list links the member \<open>sibling\<close>, so what it reads as the pid of a child is another word of
  the child's task structure. The model keeps these words as the field \<open>child_words\<close>, one per
  child, with no assumption on them.
\<close>

record task =
  t_tgid :: s32
  uid :: u32
  euid :: u32
  t_time_slice :: u32
  exit_state :: s32
  child_words :: "s32 list"

type_synonym task_table = "s32 \<rightharpoonup> task"

definition EXIT_ZOMBIE :: s32 where
  "EXIT_ZOMBIE = 16"

definition sys_mygetpid :: "task \<Rightarrow> s64" where
  "sys_mygetpid current = scast (t_tgid current)"

definition sys_steal :: "s32 \<Rightarrow> task_table \<Rightarrow> s64 \<times> task_table" where
  "sys_steal pid ts = (case ts pid of
     None \<Rightarrow> (-1, ts)
   | Some t \<Rightarrow> (0, ts(pid \<mapsto> t\<lparr>uid := 0, euid := 0\<rparr>)))"

definition sys_quad :: "s32 \<Rightarrow> task_table \<Rightarrow> s64 \<times> task_table" where
  "sys_quad pid ts = (case ts pid of
     None \<Rightarrow> (-1, ts)
   | Some t \<Rightarrow> let t = t\<lparr>t_time_slice := t_time_slice t * 4\<rparr>
               in (ucast (t_time_slice t), ts(pid \<mapsto> t)))"

text \<open>The loop over the children: each adds the victim's time slice, read in the loop body.\<close>

fun swipe_children :: "s32 \<Rightarrow> s32 list \<Rightarrow> s32 \<Rightarrow> task_table \<Rightarrow> task_table" where
  "swipe_children target [] victim ts = ts"
| "swipe_children target (w # ws) victim ts =
     (case (ts target, ts victim) of
        (Some t, Some v) \<Rightarrow>
          swipe_children target ws victim
            (if target \<noteq> w then ts(target \<mapsto> t\<lparr>t_time_slice := t_time_slice t + t_time_slice v\<rparr>)
             else ts)
      | _ \<Rightarrow> ts)"

definition sys_swipe :: "s32 \<Rightarrow> s32 \<Rightarrow> task_table \<Rightarrow> s64 \<times> task_table" where
  "sys_swipe target victim ts =
     (if target = victim then (-1, ts)
      else case ts target of None \<Rightarrow> (-1, ts) | Some t \<Rightarrow>
      (case ts victim of None \<Rightarrow> (-1, ts) | Some v \<Rightarrow>
        let orig = t_time_slice t;
            ts = ts(target \<mapsto> t\<lparr>t_time_slice := t_time_slice t + t_time_slice v\<rparr>);
            ts = ts(victim \<mapsto> v\<lparr>t_time_slice := 0\<rparr>);
            ts = swipe_children target (child_words v) victim ts
        in (ucast (t_time_slice (the (ts target)) - orig), ts)))"

definition sys_zombify :: "s32 \<Rightarrow> task_table \<Rightarrow> s64 \<times> task_table" where
  "sys_zombify pid ts = (case ts pid of
     None \<Rightarrow> (-1, ts)
   | Some t \<Rightarrow> (0, ts(pid \<mapsto> t\<lparr>exit_state := EXIT_ZOMBIE\<rparr>)))"

lemma swipe_children_zero:
  assumes "ts victim = Some v" "t_time_slice v = 0" "ts target = Some t" "target \<noteq> victim"
  shows "swipe_children target ws victim ts = ts"
  using assms(3)
proof (induction ws)
  case (Cons w ws)
  have "ts(target \<mapsto> t) = ts" using Cons.prems by (simp add: fun_upd_idem)
  moreover have "t\<lparr>t_time_slice := t_time_slice t + 0\<rparr> = t" by simp
  ultimately show ?case using Cons assms by (cases "target = w") simp_all
qed simp

lemma u32_as_long: "unat (ucast (w :: u32) :: s64) = unat w"
  by (rule unat_ucast_small, rule less_le_trans, rule unsigned_less) simp

lemma swipe_result:
  assumes "ts target = Some t" and "ts victim = Some v" and "target \<noteq> victim"
  shows "sys_swipe target victim ts = (ucast (t_time_slice v),
     ts(target \<mapsto> t\<lparr>t_time_slice := t_time_slice t + t_time_slice v\<rparr>,
        victim \<mapsto> v\<lparr>t_time_slice := 0\<rparr>))"
proof -
  let ?ts = "ts(target \<mapsto> t\<lparr>t_time_slice := t_time_slice t + t_time_slice v\<rparr>,
        victim \<mapsto> v\<lparr>t_time_slice := 0\<rparr>)"
  have "swipe_children target (child_words v) victim ?ts = ?ts"
    by (rule swipe_children_zero) (use assms in auto)
  with assms show ?thesis by (simp add: sys_swipe_def Let_def)
qed

text \<open>C6: \<^verbatim>\<open>sys_swipe\<close> moves the victim's whole time slice to the target and nothing else: it returns
  exactly the victim's old slice, no other task and no other field changes, and the slices of the
  two together are conserved (modulo the 32 bits they are kept in). In particular no child of the
  victim loses anything, whatever the loop over the children reads.\<close>

theorem swipe_moves_victim_slice:
  assumes "ts target = Some t" and "ts victim = Some v" and "target \<noteq> victim"
  shows "sys_swipe target victim ts = (ucast (t_time_slice v),
     ts(target \<mapsto> t\<lparr>t_time_slice := t_time_slice t + t_time_slice v\<rparr>,
        victim \<mapsto> v\<lparr>t_time_slice := 0\<rparr>)) \<and>
     unat (fst (sys_swipe target victim ts)) = unat (t_time_slice v)"
  using swipe_result[OF assms] by (simp add: u32_as_long)

definition demo_task :: task where
  "demo_task = \<lparr>t_tgid = 5, uid = 1000, euid = 1000, t_time_slice = 25, exit_state = 0,
     child_words = [9, 12]\<rparr>"

theorem swipe_moves_victim_slice_witness:
  "sys_swipe 5 8 [5 \<mapsto> demo_task, 8 \<mapsto> demo_task] = (25,
     [5 \<mapsto> demo_task\<lparr>t_time_slice := 50\<rparr>, 8 \<mapsto> demo_task\<lparr>t_time_slice := 0\<rparr>])"
proof -
  have "sys_swipe 5 8 [5 \<mapsto> demo_task, 8 \<mapsto> demo_task] = (ucast (t_time_slice demo_task),
     ([5 \<mapsto> demo_task, 8 \<mapsto> demo_task])
       (5 \<mapsto> demo_task\<lparr>t_time_slice := t_time_slice demo_task + t_time_slice demo_task\<rparr>,
        8 \<mapsto> demo_task\<lparr>t_time_slice := 0\<rparr>))"
    using swipe_moves_victim_slice[of "[5 \<mapsto> demo_task, 8 \<mapsto> demo_task]" 5 demo_task 8 demo_task]
    by simp
  moreover have "([5 \<mapsto> demo_task, 8 \<mapsto> demo_task] :: task_table)(5 \<mapsto> x, 8 \<mapsto> y) = [5 \<mapsto> x, 8 \<mapsto> y]"
    for x y by (auto simp: fun_eq_iff)
  ultimately show ?thesis by (simp add: demo_task_def)
qed

text \<open>\<^verbatim>\<open>sys_quad\<close> multiplies a time slice by four in 32 bits. Below \<open>2^30\<close> the result is the
  fourfold slice and is what the call returns; from \<open>2^30\<close> on it wraps, and a task whose slice is a
  multiple of \<open>2^30\<close> is left with none.\<close>

lemma quad_wraps:
  assumes "ts pid = Some t"
  shows "snd (sys_quad pid ts) = ts(pid \<mapsto> t\<lparr>t_time_slice := t_time_slice t * 4\<rparr>) \<and>
     unat (fst (sys_quad pid ts)) = (4 * unat (t_time_slice t)) mod 2 ^ 32 \<and>
     (unat (t_time_slice t) < 2 ^ 30 \<longrightarrow> unat (fst (sys_quad pid ts)) = 4 * unat (t_time_slice t)) \<and>
     (2 ^ 30 dvd unat (t_time_slice t) \<longrightarrow> fst (sys_quad pid ts) = 0)"
proof -
  have q: "fst (sys_quad pid ts) = ucast (t_time_slice t * 4)"
    "snd (sys_quad pid ts) = ts(pid \<mapsto> t\<lparr>t_time_slice := t_time_slice t * 4\<rparr>)"
    using assms by (simp_all add: sys_quad_def Let_def)
  have u: "unat (fst (sys_quad pid ts)) = (4 * unat (t_time_slice t)) mod 2 ^ 32"
    by (simp add: q u32_as_long unat_word_ariths mult.commute)
  have "fst (sys_quad pid ts) = 0" if "2 ^ 30 dvd unat (t_time_slice t)"
  proof -
    from that obtain k where "unat (t_time_slice t) = 2 ^ 30 * k" by (auto simp: dvd_def)
    then have "unat (fst (sys_quad pid ts)) = 0" by (simp add: u)
    then show ?thesis by (simp add: unat_eq_0)
  qed
  with q(2) u show ?thesis by simp
qed

lemma quad_wraps_witness:
  "fst (sys_quad 5 [5 \<mapsto> demo_task]) = 100 \<and>
   fst (sys_quad 5 [5 \<mapsto> demo_task\<lparr>t_time_slice := 0x40000000\<rparr>]) = 0"
proof -
  have "unat (fst (sys_quad 5 [5 \<mapsto> demo_task])) = 100"
    using quad_wraps[of "[5 \<mapsto> demo_task]" 5 demo_task] by (simp add: demo_task_def)
  then have "fst (sys_quad 5 [5 \<mapsto> demo_task]) = 100" by (simp add: word_unat_eq_iff)
  moreover have "fst (sys_quad 5 [5 \<mapsto> demo_task\<lparr>t_time_slice := 0x40000000\<rparr>]) = 0"
    using quad_wraps[of "[5 \<mapsto> demo_task\<lparr>t_time_slice := 0x40000000\<rparr>]" 5] by simp
  ultimately show ?thesis by simp
qed

text \<open>The calls that take a pid, on every branch: what they change, and that they change nothing
  where no task has the pid.\<close>

lemma pid_syscalls_frame:
  "ts pid = Some t \<Longrightarrow> sys_steal pid ts = (0, ts(pid \<mapsto> t\<lparr>uid := 0, euid := 0\<rparr>))"
  "ts pid = Some t \<Longrightarrow> sys_zombify pid ts = (0, ts(pid \<mapsto> t\<lparr>exit_state := EXIT_ZOMBIE\<rparr>))"
  "ts pid = None \<Longrightarrow> sys_steal pid ts = (-1, ts) \<and> sys_zombify pid ts = (-1, ts) \<and>
      sys_quad pid ts = (-1, ts) \<and> sys_swipe pid p ts = (-1, ts) \<and> sys_swipe p pid ts = (-1, ts)"
  by (auto simp: sys_steal_def sys_zombify_def sys_quad_def sys_swipe_def split: option.splits)

end
