(* ===== verification/Join.thy ===== *)
theory Join
  imports Prelude
begin

text \<open>
  Waiting for a task to exit: \<^verbatim>\<open>sys_myjoin\<close> of \<^verbatim>\<open>kernel/sched.c\<close> against the lines added to \<^verbatim>\<open>do_exit\<close>
  (\<^verbatim>\<open>kernel/exit.c\<close>) and to \<^verbatim>\<open>copy_process\<close> (\<^verbatim>\<open>kernel/fork.c\<close>), for one target task and any number
  of joining tasks, numbered by \<open>nat\<close>. Each task moves one statement at a time in any order: the
  steps of a joiner and of the exiting target are functions that give \<open>None\<close> while the task cannot
  move (it spins on \<open>pi_lock\<close>, sleeps on \<open>join_semaphore\<close>, or has returned), and \<open>jstep\<close> lets
  anyone move. The semaphore is used through its count: \<open>down\<close> sleeps while it is zero.
  \<open>joined_processes\<close> (a \<^verbatim>\<open>size_t\<close>) and the count stay below the number of tasks.

  \<^verbatim>\<open>sys_myjoin\<close> takes no reference to the task structure it works on, and that structure does not live for
  ever: \<open>tlife\<close> says whether the target can be found, has been unhashed by \<^verbatim>\<open>release_task\<close>, or has been
  freed. \<open>jreach\<close> are the states while the target can be found; \<open>jrun\<close> are those of its whole life, where
  a joiner that touches a freed structure goes to \<open>JFault\<close> and moves no more.
\<close>

subsection \<open>State\<close>

datatype owner = Joiner nat | Exiter

datatype jpc =
    JIdle      \<comment> \<open>has not called\<close>
  | JLock      \<comment> \<open>at \<open>spin_lock_irq\<close>\<close>
  | JCheck     \<comment> \<open>at the test of \<open>PF_EXITING\<close>\<close>
  | JCount     \<comment> \<open>at \<open>joined_processes++\<close>\<close>
  | JUnlock    \<comment> \<open>at \<open>spin_unlock_irq\<close>\<close>
  | JDown      \<comment> \<open>at \<open>down\<close>\<close>
  | JOk        \<comment> \<open>returned \<open>0\<close>\<close>
  | JErr       \<comment> \<open>returned \<open>-1\<close> from inside the lock\<close>
  | JGone      \<comment> \<open>returned \<open>-1\<close>: no such task\<close>
  | JFault     \<comment> \<open>has touched a freed task structure\<close>

datatype xpc =
    XRun       \<comment> \<open>at \<open>spin_lock_irq\<close>\<close>
  | XFlag      \<comment> \<open>at the setting of \<open>PF_EXITING\<close>\<close>
  | XUps nat   \<comment> \<open>in the loop, with its counter\<close>
  | XZero      \<comment> \<open>at \<open>joined_processes = 0\<close>\<close>
  | XUnlock    \<comment> \<open>at \<open>spin_unlock_irq\<close>\<close>
  | XDone      \<comment> \<open>past it\<close>

text \<open>The life of the task structure: in the hash table; unhashed, with the reference of the RCU callback
  left; freed.\<close>

datatype life = Hashed | Unhashed | Freed

record join_state =
  pi_lock :: "owner option"
  pf_exiting :: bool
  joined_processes :: nat
  join_semaphore :: nat
  jpcs :: "nat \<Rightarrow> jpc"
  xpc :: xpc
  tlife :: life

text \<open>The state \<^verbatim>\<open>copy_process\<close> leaves a new task in.\<close>

definition fork_init :: join_state where
  "fork_init = \<lparr>pi_lock = None, pf_exiting = False, joined_processes = 0, join_semaphore = 0,
     jpcs = (\<lambda>_. JIdle), xpc = XRun, tlife = Hashed\<rparr>"

subsection \<open>Steps\<close>

definition goto :: "nat \<Rightarrow> jpc \<Rightarrow> join_state \<Rightarrow> join_state" where
  "goto i p s = s\<lparr>jpcs := (jpcs s)(i := p)\<rparr>"

definition myjoin_step :: "nat \<Rightarrow> join_state \<Rightarrow> join_state option" where
  "myjoin_step i s = (case jpcs s i of
     JIdle \<Rightarrow> Some (goto i JLock s)
   | JLock \<Rightarrow> if pi_lock s = None then Some (goto i JCheck (s\<lparr>pi_lock := Some (Joiner i)\<rparr>)) else None
   | JCheck \<Rightarrow> if pf_exiting s then Some (goto i JErr s) else Some (goto i JCount s)
   | JCount \<Rightarrow> Some (goto i JUnlock (s\<lparr>joined_processes := joined_processes s + 1\<rparr>))
   | JUnlock \<Rightarrow> Some (goto i JDown (s\<lparr>pi_lock := None\<rparr>))
   | JDown \<Rightarrow> if 0 < join_semaphore s
       then Some (goto i JOk (s\<lparr>join_semaphore := join_semaphore s - 1\<rparr>)) else None
   | JOk \<Rightarrow> None
   | JErr \<Rightarrow> None
   | JGone \<Rightarrow> None
   | JFault \<Rightarrow> None)"

definition exit_step :: "join_state \<Rightarrow> join_state option" where
  "exit_step s = (case xpc s of
     XRun \<Rightarrow> if pi_lock s = None then Some (s\<lparr>pi_lock := Some Exiter, xpc := XFlag\<rparr>) else None
   | XFlag \<Rightarrow> Some (s\<lparr>pf_exiting := True, xpc := XUps 0\<rparr>)
   | XUps k \<Rightarrow> if k < joined_processes s
       then Some (s\<lparr>join_semaphore := join_semaphore s + 1, xpc := XUps (k + 1)\<rparr>)
       else Some (s\<lparr>xpc := XZero\<rparr>)
   | XZero \<Rightarrow> Some (s\<lparr>joined_processes := 0, xpc := XUnlock\<rparr>)
   | XUnlock \<Rightarrow> Some (s\<lparr>pi_lock := None, xpc := XDone\<rparr>)
   | XDone \<Rightarrow> None)"

inductive jstep :: "join_state \<Rightarrow> join_state \<Rightarrow> bool" where
  joiner: "myjoin_step i s = Some s' \<Longrightarrow> jstep s s'"
| exiter: "exit_step s = Some s' \<Longrightarrow> jstep s s'"

inductive jreach :: "join_state \<Rightarrow> bool" where
  init: "jreach fork_init"
| step: "jreach s \<Longrightarrow> jstep s s' \<Longrightarrow> jreach s'"

inductive_cases jstepE: "jstep s s'"

text \<open>A joiner over the whole life of the target. The lookup finds the target as long as it is hashed; every
  other step reads or writes the structure.\<close>

definition sys_myjoin_step :: "nat \<Rightarrow> join_state \<Rightarrow> join_state option" where
  "sys_myjoin_step i s = (if jpcs s i = JIdle
     then if tlife s = Hashed then myjoin_step i s else Some (goto i JGone s)
     else if jpcs s i \<in> {JOk, JErr, JGone, JFault} then None
     else if tlife s = Freed then Some (goto i JFault s) else myjoin_step i s)"

text \<open>\<^verbatim>\<open>release_task\<close> by whoever reaps the target, and the RCU callback that drops the last reference. Neither
  looks at the joiners.\<close>

definition release_step :: "join_state \<Rightarrow> join_state option" where
  "release_step s = (case tlife s of
     Hashed \<Rightarrow> if xpc s = XDone then Some (s\<lparr>tlife := Unhashed\<rparr>) else None
   | Unhashed \<Rightarrow> Some (s\<lparr>tlife := Freed\<rparr>)
   | Freed \<Rightarrow> None)"

inductive life_step :: "join_state \<Rightarrow> join_state \<Rightarrow> bool" where
  joiner: "sys_myjoin_step i s = Some s' \<Longrightarrow> life_step s s'"
| exiter: "exit_step s = Some s' \<Longrightarrow> life_step s s'"
| release: "release_step s = Some s' \<Longrightarrow> life_step s s'"

inductive jrun :: "join_state \<Rightarrow> bool" where
  fork: "jrun fork_init"
| step: "jrun s \<Longrightarrow> life_step s s' \<Longrightarrow> jrun s'"

subsection \<open>The invariant\<close>

definition waiting :: "join_state \<Rightarrow> nat set" where
  "waiting s = {i. jpcs s i \<in> {JUnlock, JDown}}"

text \<open>The lock is held by whoever is inside a critical section, or returned from inside one.\<close>

fun joiner_inside :: "jpc \<Rightarrow> bool" where
  "joiner_inside JCheck = True"
| "joiner_inside JCount = True"
| "joiner_inside JUnlock = True"
| "joiner_inside JErr = True"
| "joiner_inside _ = False"

fun exiter_inside :: "xpc \<Rightarrow> bool" where
  "exiter_inside XRun = False"
| "exiter_inside XDone = False"
| "exiter_inside _ = True"

definition lock_inv :: "join_state \<Rightarrow> bool" where
  "lock_inv s \<longleftrightarrow> (\<forall>i. joiner_inside (jpcs s i) = (pi_lock s = Some (Joiner i))) \<and>
     exiter_inside (xpc s) = (pi_lock s = Some Exiter)"

definition flag_inv :: "join_state \<Rightarrow> bool" where
  "flag_inv s \<longleftrightarrow> (pf_exiting s \<longleftrightarrow> xpc s \<notin> {XRun, XFlag}) \<and>
     (\<forall>i. jpcs s i \<in> {JCount, JUnlock} \<longrightarrow> \<not> pf_exiting s) \<and>
     (\<forall>i. jpcs s i = JOk \<longrightarrow> pf_exiting s) \<and> (\<forall>i. jpcs s i = JErr \<longrightarrow> pf_exiting s)"

text \<open>Every waiting joiner has its \<open>up\<close> still to come or already in the semaphore.\<close>

definition count_inv :: "join_state \<Rightarrow> bool" where
  "count_inv s \<longleftrightarrow> finite (waiting s) \<and> (case xpc s of
     XRun \<Rightarrow> join_semaphore s = 0 \<and> joined_processes s = card (waiting s)
   | XFlag \<Rightarrow> join_semaphore s = 0 \<and> joined_processes s = card (waiting s)
   | XUps k \<Rightarrow> k \<le> joined_processes s \<and>
       card (waiting s) + k = joined_processes s + join_semaphore s
   | _ \<Rightarrow> join_semaphore s = card (waiting s))"

definition join_inv :: "join_state \<Rightarrow> bool" where
  "join_inv s \<longleftrightarrow> lock_inv s \<and> flag_inv s \<and> count_inv s"

lemma goto_simps [simp]:
  "jpcs (goto i p s) = (jpcs s)(i := p)" "pi_lock (goto i p s) = pi_lock s"
  "pf_exiting (goto i p s) = pf_exiting s" "joined_processes (goto i p s) = joined_processes s"
  "join_semaphore (goto i p s) = join_semaphore s" "xpc (goto i p s) = xpc s" "tlife (goto i p s) = tlife s"
  by (simp_all add: goto_def)

lemma waiting_goto:
  "waiting (goto i p s) =
     (if p \<in> {JUnlock, JDown} then insert i (waiting s) else waiting s - {i})"
  by (auto simp: waiting_def)

lemma waiting_frame: "jpcs s' = jpcs s \<Longrightarrow> waiting s' = waiting s"
  by (simp add: waiting_def)

lemma lock_inv_upd:
  assumes "lock_inv s" and "jpcs s' = (jpcs s)(i := jpcs s' i)" and "xpc s' = xpc s"
    and "if joiner_inside (jpcs s' i)
         then pi_lock s' = Some (Joiner i) \<and> pi_lock s \<in> {None, Some (Joiner i)}
         else pi_lock s' = (if joiner_inside (jpcs s i) then None else pi_lock s)"
  shows "lock_inv s'"
proof -
  have "joiner_inside (jpcs s' j) = (pi_lock s' = Some (Joiner j))" for j
  proof (cases "j = i")
    case True
    then show ?thesis using assms(1,4) by (auto simp: lock_inv_def split: if_splits)
  next
    case False
    then have "jpcs s' j = jpcs s j" by (subst assms(2)) simp
    with False show ?thesis using assms(1,4) by (auto simp: lock_inv_def split: if_splits)
  qed
  with assms(1,3,4) show ?thesis by (auto simp: lock_inv_def split: if_splits)
qed

lemma lock_invD: "lock_inv s \<Longrightarrow> (pi_lock s = Some (Joiner j)) = joiner_inside (jpcs s j)"
  by (simp add: lock_inv_def)

lemma myjoin_step_lock:
  assumes st: "myjoin_step i s = Some s'" and "lock_inv s"
  shows "lock_inv s'"
proof (rule lock_inv_upd[OF assms(2)])
  have l: "joiner_inside (jpcs s i) = (pi_lock s = Some (Joiner i))"
    using assms(2) by (simp add: lock_inv_def)
  show "jpcs s' = (jpcs s)(i := jpcs s' i)" "xpc s' = xpc s"
    using st by (auto simp: myjoin_step_def split: jpc.splits if_splits)
  show "if joiner_inside (jpcs s' i)
         then pi_lock s' = Some (Joiner i) \<and> pi_lock s \<in> {None, Some (Joiner i)}
         else pi_lock s' = (if joiner_inside (jpcs s i) then None else pi_lock s)"
    using st l by (auto simp: myjoin_step_def split: jpc.splits if_splits)
qed

lemma exit_step_lock: "exit_step s = Some s' \<Longrightarrow> lock_inv s \<Longrightarrow> lock_inv s'"
  by (cases "xpc s") (auto simp: exit_step_def lock_inv_def split: if_splits)

lemma myjoin_step_flag:
  assumes st: "myjoin_step i s = Some s'" and "lock_inv s" "flag_inv s" "count_inv s"
  shows "flag_inv s'"
proof -
  have "pf_exiting s" if "jpcs s i = JDown" "0 < join_semaphore s"
    using that assms(3,4) by (cases "xpc s") (auto simp: count_inv_def flag_inv_def)
  with st assms(3) show ?thesis
    by (cases "jpcs s i") (auto simp: myjoin_step_def flag_inv_def split: if_splits)
qed

lemma exit_step_flag:
  assumes st: "exit_step s = Some s'" and l: "lock_inv s" and f: "flag_inv s"
  shows "flag_inv s'"
proof (cases "xpc s = XFlag")
  case True
  have n: "jpcs s i \<noteq> JCount" "jpcs s i \<noteq> JUnlock" for i
  proof -
    have "exiter_inside (xpc s) = (pi_lock s = Some Exiter)"
      "joiner_inside (jpcs s i) = (pi_lock s = Some (Joiner i))"
      using l unfolding lock_inv_def by blast+
    with True show "jpcs s i \<noteq> JCount" "jpcs s i \<noteq> JUnlock" by auto
  qed
  from True st have "s' = s\<lparr>pf_exiting := True, xpc := XUps 0\<rparr>" by (simp add: exit_step_def)
  then show ?thesis by (simp add: flag_inv_def n)
next
  case False
  with st f show ?thesis by (cases "xpc s") (auto simp: exit_step_def flag_inv_def split: if_splits)
qed

lemma waiting_JDown: "jpcs s i = JDown \<Longrightarrow> i \<in> waiting s"
  by (simp add: waiting_def)

lemma myjoin_step_same:
  assumes "myjoin_step i s = Some s'" and "jpcs s i \<noteq> JCount" and "jpcs s i \<noteq> JDown"
  shows "waiting s' = waiting s" "join_semaphore s' = join_semaphore s"
    "joined_processes s' = joined_processes s" "xpc s' = xpc s"
  using assms
  by (cases "jpcs s i"; auto simp: myjoin_step_def waiting_def split: if_splits)+

lemma myjoin_step_count:
  assumes st: "myjoin_step i s = Some s'" and f: "flag_inv s" and c: "count_inv s"
  shows "count_inv s'"
proof -
  have fin: "finite (waiting s)" using c by (simp add: count_inv_def)
  consider (same) "waiting s' = waiting s" "join_semaphore s' = join_semaphore s"
      "joined_processes s' = joined_processes s" "xpc s' = xpc s"
    | (count) "jpcs s i = JCount" "s' = goto i JUnlock (s\<lparr>joined_processes := joined_processes s + 1\<rparr>)"
    | (down) "jpcs s i = JDown" "0 < join_semaphore s"
        "s' = goto i JOk (s\<lparr>join_semaphore := join_semaphore s - 1\<rparr>)"
  proof (cases "jpcs s i = JCount \<or> jpcs s i = JDown")
    case True
    with st that(2,3) show ?thesis by (auto simp: myjoin_step_def split: if_splits)
  next
    case False
    with that(1) myjoin_step_same[OF st] show ?thesis by blast
  qed
  then show ?thesis
  proof cases
    case same
    with c show ?thesis by (auto simp: count_inv_def split: xpc.splits)
  next
    case count
    have "i \<notin> waiting s" using count by (simp add: waiting_def)
    moreover have "xpc s \<in> {XRun, XFlag}" using count f by (auto simp: flag_inv_def)
    moreover have "waiting s' = insert i (waiting s)" using count by (auto simp: waiting_def)
    ultimately show ?thesis using c fin count by (auto simp: count_inv_def)
  next
    case down
    have i: "i \<in> waiting s" using down(1) by (rule waiting_JDown)
    have w: "waiting s' = waiting s - {i}" using down by (auto simp: waiting_def)
    have "0 < card (waiting s)" using i fin by (auto simp: card_gt_0_iff)
    then show ?thesis
      using c fin down i w by (cases "xpc s") (auto simp: count_inv_def card_Diff_singleton)
  qed
qed

lemma exit_step_count: "exit_step s = Some s' \<Longrightarrow> count_inv s \<Longrightarrow> count_inv s'"
  by (cases "xpc s") (auto simp: exit_step_def count_inv_def waiting_def split: if_splits)

lemma jreach_inv: "jreach s \<Longrightarrow> join_inv s"
proof (induction rule: jreach.induct)
  case init
  show ?case
    by (simp add: join_inv_def lock_inv_def flag_inv_def count_inv_def fork_init_def waiting_def)
next
  case (step s s')
  from step.hyps(2) step.IH show ?case
    by (cases rule: jstepE)
      (auto simp: join_inv_def intro: myjoin_step_lock exit_step_lock myjoin_step_flag
        exit_step_flag myjoin_step_count exit_step_count)
qed

subsection \<open>The whole life of the target\<close>

lemma myjoin_step_inv: "myjoin_step i s = Some s' \<Longrightarrow> join_inv s \<Longrightarrow> join_inv s'"
  by (auto simp: join_inv_def intro: myjoin_step_lock myjoin_step_flag myjoin_step_count)

lemma exit_step_inv: "exit_step s = Some s' \<Longrightarrow> join_inv s \<Longrightarrow> join_inv s'"
  by (auto simp: join_inv_def intro: exit_step_lock exit_step_flag exit_step_count)

lemma step_tlife: "myjoin_step i s = Some s' \<Longrightarrow> tlife s' = tlife s" "exit_step s = Some s' \<Longrightarrow> tlife s' = tlife s"
  by (auto simp: myjoin_step_def exit_step_def split: jpc.splits xpc.splits if_splits)

lemma myjoin_step_xpc: "myjoin_step i s = Some s' \<Longrightarrow> xpc s' = xpc s"
  by (auto simp: myjoin_step_def split: jpc.splits if_splits)

lemma join_inv_tlife: "join_inv (s\<lparr>tlife := l\<rparr>) = join_inv s"
proof -
  have "lock_inv (s\<lparr>tlife := l\<rparr>) = lock_inv s" by (simp add: lock_inv_def)
  moreover have "flag_inv (s\<lparr>tlife := l\<rparr>) = flag_inv s" by (simp add: flag_inv_def)
  moreover have "waiting (s\<lparr>tlife := l\<rparr>) = waiting s" by (simp add: waiting_def)
  then have "count_inv (s\<lparr>tlife := l\<rparr>) = count_inv s" by (cases "xpc s") (simp_all add: count_inv_def)
  ultimately show ?thesis by (simp add: join_inv_def)
qed

lemma join_inv_gone:
  assumes "join_inv s" "jpcs s i = JIdle"
  shows "join_inv (goto i JGone s)"
proof -
  have "waiting (goto i JGone s) = waiting s" using assms(2) by (auto simp: waiting_def)
  then have "count_inv (goto i JGone s)" using assms(1) by (cases "xpc s") (simp_all add: join_inv_def count_inv_def)
  moreover have "lock_inv (goto i JGone s)" by (rule lock_inv_upd[of s _ i]) (use assms in \<open>simp_all add: join_inv_def\<close>)
  moreover have "flag_inv s" using assms(1) by (simp add: join_inv_def)
  then have "flag_inv (goto i JGone s)" by (auto simp: flag_inv_def)
  ultimately show ?thesis by (simp add: join_inv_def)
qed

text \<open>Until the structure is freed the invariant holds; it is only unhashed once the target is done.\<close>

definition life_inv :: "join_state \<Rightarrow> bool" where
  "life_inv s \<longleftrightarrow> (tlife s \<noteq> Freed \<longrightarrow> join_inv s \<and> (\<forall>i. jpcs s i \<noteq> JFault)) \<and>
     (tlife s \<noteq> Hashed \<longrightarrow> xpc s = XDone) \<and> (\<forall>i. jpcs s i = JOk \<longrightarrow> pf_exiting s)"

lemma myjoin_step_nofault: "myjoin_step i s = Some s' \<Longrightarrow> jpcs s' j = JFault \<longleftrightarrow> jpcs s j = JFault"
  by (auto simp: myjoin_step_def split: jpc.splits if_splits)

lemma join_inv_ok: "join_inv s \<Longrightarrow> jpcs s i = JOk \<Longrightarrow> pf_exiting s"
  unfolding join_inv_def flag_inv_def by blast

lemma life_invD:
  assumes "life_inv s"
  shows "tlife s \<noteq> Freed \<Longrightarrow> join_inv s" "tlife s \<noteq> Freed \<Longrightarrow> jpcs s i \<noteq> JFault" "tlife s \<noteq> Hashed \<Longrightarrow> xpc s = XDone"
    "jpcs s i = JOk \<Longrightarrow> pf_exiting s"
  using assms unfolding life_inv_def by blast+

lemma life_invI:
  assumes "tlife s \<noteq> Freed \<Longrightarrow> join_inv s" "\<And>i. tlife s \<noteq> Freed \<Longrightarrow> jpcs s i \<noteq> JFault" "tlife s \<noteq> Hashed \<Longrightarrow> xpc s = XDone"
    "\<And>i. jpcs s i = JOk \<Longrightarrow> pf_exiting s"
  shows "life_inv s"
  using assms unfolding life_inv_def by blast

lemma life_inv_joiner:
  assumes i: "life_inv s" and st: "sys_myjoin_step i s = Some s'"
  shows "life_inv s'"
proof -
  consider (real) "myjoin_step i s = Some s'" "tlife s \<noteq> Freed" | (gone) "s' = goto i JGone s" "jpcs s i = JIdle"
    | (fault) "s' = goto i JFault s" "tlife s = Freed"
  proof (cases "jpcs s i = JIdle")
    case True then show ?thesis using st that(1,2) by (cases "tlife s = Hashed") (simp_all add: sys_myjoin_step_def)
  next
    case False
    then show ?thesis using st that(1,3)
      by (cases "jpcs s i \<in> {JOk, JErr, JGone, JFault}"; cases "tlife s = Freed") (simp_all add: sys_myjoin_step_def)
  qed
  then show ?thesis
  proof cases
    case real
    then have "join_inv s'" using life_invD(1)[OF i] myjoin_step_inv by blast
    then show ?thesis
      using real life_invD(2,3)[OF i] join_inv_ok myjoin_step_nofault[OF real(1)] step_tlife(1)[OF real(1)] myjoin_step_xpc[OF real(1)]
      by (intro life_invI) auto
  next
    case gone
    then show ?thesis using life_invD[OF i] join_inv_gone[of s i] by (intro life_invI) (auto split: if_splits)
  next
    case fault
    then show ?thesis using life_invD(3,4)[OF i] by (intro life_invI) (auto split: if_splits)
  qed
qed

lemma life_inv_exiter:
  assumes i: "life_inv s" and st: "exit_step s = Some s'"
  shows "life_inv s'"
proof -
  have "xpc s \<noteq> XDone" using st by (auto simp: exit_step_def)
  then have h: "tlife s = Hashed" using life_invD(3)[OF i] by blast
  have j: "jpcs s' = jpcs s" using st by (auto simp: exit_step_def split: xpc.splits if_splits)
  have "join_inv s'" using h life_invD(1)[OF i] exit_step_inv[OF st] by simp
  then show ?thesis using life_invD(2)[OF i] h j step_tlife(2)[OF st] join_inv_ok by (intro life_invI) auto
qed

lemma life_inv_release: "life_inv s \<Longrightarrow> release_step s = Some s' \<Longrightarrow> life_inv s'"
  by (auto simp: life_inv_def release_step_def join_inv_tlife split: life.splits if_splits)

lemma jrun_inv: "jrun s \<Longrightarrow> life_inv s"
proof (induction rule: jrun.induct)
  case fork
  show ?case using jreach_inv[OF jreach.init] by (simp add: life_inv_def) (simp add: fork_init_def)
next
  case (step s s')
  from step.hyps(2) step.IH show ?case
    by cases (auto intro: life_inv_joiner life_inv_exiter life_inv_release)
qed

text \<open>The states of \<open>jreach\<close> are states of the whole life.\<close>

lemma jreach_jrun: "jreach s \<Longrightarrow> jrun s \<and> tlife s = Hashed"
proof (induction rule: jreach.induct)
  case init show ?case by (simp add: jrun.fork) (simp add: fork_init_def)
next
  case (step s s')
  have "sys_myjoin_step i s = Some s'" if "myjoin_step i s = Some s'" for i
    using step.IH that by (auto simp: sys_myjoin_step_def myjoin_step_def)
  then have "life_step s s' \<and> tlife s' = tlife s"
    using step.hyps(2) by (auto elim!: jstepE intro: life_step.intros simp: step_tlife)
  then show ?case using step.IH jrun.step by auto
qed

lemma freed_under_joiner:
  assumes "xpc s = XDone" "jpcs s i = JDown"
  shows "\<exists>s'. life_step\<^sup>*\<^sup>* s s' \<and> jpcs s' i = JFault"
proof -
  let ?u = "s\<lparr>tlife := Unhashed\<rparr>" and ?f = "s\<lparr>tlife := Freed\<rparr>"
  have u: "life_step ?u ?f" by (rule life_step.release) (simp add: release_step_def)
  have "life_step\<^sup>*\<^sup>* s ?f"
  proof (cases "tlife s")
    case Hashed
    then have "life_step s ?u" using assms by (intro life_step.release) (simp add: release_step_def)
    then show ?thesis using u by (simp add: converse_rtranclp_into_rtranclp)
  next
    case Unhashed
    then have "?u = s" by simp
    then show ?thesis using u by simp
  next
    case Freed then have "?f = s" by simp
    then show ?thesis by simp
  qed
  moreover have "life_step ?f (goto i JFault ?f)" by (rule life_step.joiner[of i]) (use assms in \<open>simp add: sys_myjoin_step_def\<close>)
  ultimately have "life_step\<^sup>*\<^sup>* s (goto i JFault ?f)" by (rule rtranclp.rtrancl_into_rtrancl)
  then show ?thesis by (rule_tac exI[of _ "goto i JFault ?f"]) simp
qed

subsection \<open>Properties\<close>

text \<open>C8: no wake-up is lost as long as the target's task structure exists. In every state of the target's
  life, once the target has finished its part of \<^verbatim>\<open>do_exit\<close> and until its structure is freed, the
  semaphore holds exactly one unit for each joiner that is still waiting, and each of them can complete its
  \<^verbatim>\<open>down\<close> and return 0; no joiner returns 0 before the target was marked as exiting; and no joiner touches
  freed memory before the structure is freed. Nothing makes the structure wait for the joiners, though: from
  every state in which one of them has still to take its unit, there is a continuation in which it
  touches the freed structure.\<close>

theorem join_no_lost_wakeup:
  assumes r: "jrun s"
  shows "(xpc s = XDone \<and> tlife s \<noteq> Freed \<longrightarrow> join_semaphore s = card {i. jpcs s i = JDown} \<and>
            (\<forall>i. jpcs s i = JDown \<longrightarrow> (\<exists>s'. sys_myjoin_step i s = Some s' \<and> jpcs s' i = JOk))) \<and>
         (\<forall>i. jpcs s i = JOk \<longrightarrow> pf_exiting s) \<and> (\<forall>i. jpcs s i = JFault \<longrightarrow> tlife s = Freed) \<and>
         (\<forall>i. xpc s = XDone \<and> jpcs s i = JDown \<longrightarrow>
            (\<exists>s'. life_step\<^sup>*\<^sup>* s s' \<and> jpcs s' i = JFault))"
proof (intro conjI allI impI)
  have l: "life_inv s" using r by (rule jrun_inv)
  show "pf_exiting s" if "jpcs s i = JOk" for i using l that unfolding life_inv_def by blast
  show "tlife s = Freed" if "jpcs s i = JFault" for i using l that unfolding life_inv_def by blast
  {
    assume d: "xpc s = XDone \<and> tlife s \<noteq> Freed"
    then have inv: "flag_inv s" "count_inv s" using l by (auto simp: life_inv_def join_inv_def)
    have "waiting s = {i. jpcs s i = JDown}" using inv(1) d by (auto simp: flag_inv_def waiting_def)
    then show w: "join_semaphore s = card {i. jpcs s i = JDown}" using inv(2) d by (auto simp: count_inv_def)
    have fin: "finite {i. jpcs s i = JDown}"
      using inv(2) by (rule_tac finite_subset[of _ "waiting s"]) (auto simp: count_inv_def waiting_def)
    show "\<exists>s'. sys_myjoin_step i s = Some s' \<and> jpcs s' i = JOk" if "jpcs s i = JDown" for i
    proof -
      have "0 < join_semaphore s" using w that fin by (auto simp: card_gt_0_iff)
      with that d show ?thesis by (simp add: sys_myjoin_step_def myjoin_step_def)
    qed
  }
  show "\<exists>s'. life_step\<^sup>*\<^sup>* s s' \<and> jpcs s' i = JFault" if "xpc s = XDone \<and> jpcs s i = JDown" for i
    using freed_under_joiner that by blast
qed

text \<open>A run: joiner 0 registers and waits, the target exits.\<close>

definition run_join :: "nat \<Rightarrow> join_state \<Rightarrow> join_state" where
  "run_join i s = (case myjoin_step i s of Some s' \<Rightarrow> s' | None \<Rightarrow> s)"

definition run_exit :: "join_state \<Rightarrow> join_state" where
  "run_exit s = (case exit_step s of Some s' \<Rightarrow> s' | None \<Rightarrow> s)"

lemma run_reach: "jreach s \<Longrightarrow> jreach (run_join i s)" "jreach s \<Longrightarrow> jreach (run_exit s)"
  by (auto simp: run_join_def run_exit_def intro: jreach.step jstep.intros split: option.splits)

definition demo_exited :: join_state where
  "demo_exited = (run_exit ^^ 6) ((run_join 0 ^^ 5) fork_init)"

lemma demo_exited_reach: "jreach demo_exited"
  by (simp add: demo_exited_def eval_nat_numeral run_reach jreach.init)

lemmas run_simps = run_join_def run_exit_def myjoin_step_def exit_step_def fork_init_def goto_def

lemma demo_exited_state:
  "xpc demo_exited = XDone" "jpcs demo_exited = (\<lambda>_. JIdle)(0 := JDown)" "pf_exiting demo_exited"
  by (simp_all add: demo_exited_def eval_nat_numeral run_simps)

theorem join_no_lost_wakeup_witness:
  "xpc demo_exited = XDone \<and> jpcs demo_exited 0 = JDown \<and> join_semaphore demo_exited = 1 \<and>
   (\<exists>s'. sys_myjoin_step 0 demo_exited = Some s' \<and> jpcs s' 0 = JOk) \<and>
   (\<exists>s'. life_step\<^sup>*\<^sup>* demo_exited s' \<and> jpcs s' 0 = JFault)"
proof -
  have j: "jrun demo_exited" "tlife demo_exited = Hashed" using jreach_jrun[OF demo_exited_reach] by auto
  have w: "{i. jpcs demo_exited i = JDown} = {0}" by (auto simp: demo_exited_state split: if_splits)
  have p: "xpc demo_exited = XDone \<and> tlife demo_exited \<noteq> Freed" "xpc demo_exited = XDone \<and> jpcs demo_exited 0 = JDown"
    using demo_exited_state j by simp_all
  from join_no_lost_wakeup[OF j(1)] p have
    "join_semaphore demo_exited = card {i. jpcs demo_exited i = JDown}"
    "\<exists>s'. sys_myjoin_step 0 demo_exited = Some s' \<and> jpcs s' 0 = JOk" "\<exists>s'. life_step\<^sup>*\<^sup>* demo_exited s' \<and> jpcs s' 0 = JFault"
    by blast+
  then show ?thesis using p w by simp
qed

lemma stuck_step:
  assumes "jstep s s'" and "lock_inv s" and "xpc s = XDone" and "jpcs s i = JErr"
  shows "lock_inv s' \<and> xpc s' = XDone \<and> jpcs s' i = JErr \<and> pi_lock s' = Some (Joiner i) \<and>
    (\<forall>j. jpcs s j = JLock \<longrightarrow> jpcs s' j = JLock)"
proof -
  have lk: "pi_lock s = Some (Joiner i)" using lock_invD[OF assms(2), of i] assms(4) by simp
  have only: "joiner_inside (jpcs s j) \<Longrightarrow> j = i" for j
    using lock_invD[OF assms(2), of j] lk by simp
  consider (1) j where "myjoin_step j s = Some s'" | (2) "exit_step s = Some s'"
    using assms(1) by (auto elim: jstepE)
  then show ?thesis
  proof cases
    case (1 j)
    then have ne: "j \<noteq> i" using assms(4) by (auto simp: myjoin_step_def)
    then have out: "\<not> joiner_inside (jpcs s j)" using only by blast
    show ?thesis
      using 1 ne out lk assms(2-4) myjoin_step_lock[OF 1 assms(2)]
      by (cases "jpcs s j") (auto simp: myjoin_step_def split: if_splits)
  next
    case 2
    then show ?thesis using assms(3) by (simp add: exit_step_def)
  qed
qed

lemma stuck_steps:
  assumes "jstep\<^sup>*\<^sup>* s s'" and "lock_inv s" and "xpc s = XDone" and "jpcs s i = JErr"
  shows "lock_inv s' \<and> xpc s' = XDone \<and> jpcs s' i = JErr \<and>
    (\<forall>j. jpcs s j = JLock \<longrightarrow> jpcs s' j = JLock)"
  using assms
proof (induction rule: rtranclp_induct)
  case base
  then show ?case by simp
next
  case (step t u)
  then show ?case using stuck_step[of t u i] by auto
qed

text \<open>C9: a failed join leaves the target's \<open>pi_lock\<close> locked (with interrupts off) for ever. Once a
  joiner has returned \<open>-1\<close>, in every later state the lock is still held by it, and every other
  task that is at the lock of the same target stays there.\<close>

theorem join_failure_leaks_lock:
  assumes "jreach s" and "jpcs s i = JErr" and "jstep\<^sup>*\<^sup>* s s'"
  shows "pi_lock s' = Some (Joiner i) \<and> (\<forall>j. jpcs s j = JLock \<longrightarrow> jpcs s' j = JLock)"
proof -
  have inv: "lock_inv s" "flag_inv s" using jreach_inv[OF assms(1)] by (simp_all add: join_inv_def)
  have lk: "pi_lock s = Some (Joiner i)" using lock_invD[OF inv(1), of i] assms(2) by simp
  have ex: "pf_exiting s" using inv(2) assms(2) by (simp add: flag_inv_def) blast
  have "\<not> exiter_inside (xpc s)" "xpc s \<noteq> XRun"
    using inv lk ex by (auto simp: lock_inv_def flag_inv_def)
  then have "xpc s = XDone" by (cases "xpc s") auto
  from stuck_steps[OF assms(3) inv(1) this assms(2)]
  have "lock_inv s'" "jpcs s' i = JErr" "\<forall>j. jpcs s j = JLock \<longrightarrow> jpcs s' j = JLock" by auto
  then show ?thesis using lock_invD[of s' i] by simp
qed

definition demo_leak :: join_state where
  "demo_leak = run_join 2 ((run_join 1 ^^ 3) demo_exited)"

lemma demo_leak_reach: "jreach demo_leak"
  by (simp add: demo_leak_def eval_nat_numeral run_reach demo_exited_reach)

lemma demo_leak_state: "jpcs demo_leak 1 = JErr" "jpcs demo_leak 2 = JLock"
  by (simp_all add: demo_leak_def demo_exited_def eval_nat_numeral run_simps)

lemma run_steps: "jstep\<^sup>*\<^sup>* s (run_join i s)"
  by (auto simp: run_join_def intro: jstep.intros split: option.splits)

theorem join_failure_leaks_lock_witness:
  "jpcs demo_leak 1 = JErr \<and> jpcs demo_leak 2 = JLock \<and>
   pi_lock (run_join 2 demo_leak) = Some (Joiner 1) \<and> jpcs (run_join 2 demo_leak) 2 = JLock"
  using join_failure_leaks_lock[OF demo_leak_reach demo_leak_state(1) run_steps[of demo_leak 2]]
    demo_leak_state by blast

end
