(* ===== verification/ReadWrite.thy ===== *)
theory ReadWrite
  imports Prelude
begin

text \<open>
  Reading and writing files, \<^verbatim>\<open>fs/read_write.c\<close>: seeking, the checks common to all transfers, the
  plain, positioned and vectored calls, and \<^verbatim>\<open>sys_forcewrite\<close>, which was added beside \<^verbatim>\<open>sys_write\<close>.

  A file is a record of the fields this code uses; the operations a file system supplies in
  \<open>f_op\<close> are functions of that record (of a control block that holds it, for the asynchronous ones) over
  the state \<open>'w\<close> of that file system, which has whatever else they keep about the file. What the rest of the kernel answers
  (address checks, the security hook, mandatory locks, waiting for an asynchronous request) comes
  in a record \<open>env\<close> of functions. The world pairs the file system with the task's I/O accounting
  and the notifications that were sent. A transfer gives \<open>None\<close> when it never returns: the retry
  loop of the synchronous wrappers has no bound.
\<close>

subsection \<open>Data\<close>

definition EBADF :: s64 where "EBADF = 9"
definition ENOMEM :: s64 where "ENOMEM = 12"
definition EFAULT :: s64 where "EFAULT = 14"
definition EINVAL :: s64 where "EINVAL = 22"
definition ESPIPE :: s64 where "ESPIPE = 29"
definition EOVERFLOW :: s64 where "EOVERFLOW = 75"
definition EIOCBQUEUED :: s64 where "EIOCBQUEUED = 529"
definition EIOCBRETRY :: s64 where "EIOCBRETRY = 530"

definition FMODE_READ :: u32 where "FMODE_READ = 1"
definition FMODE_WRITE :: u32 where "FMODE_WRITE = 2"
definition FMODE_LSEEK :: u32 where "FMODE_LSEEK = 4"
definition FMODE_PREAD :: u32 where "FMODE_PREAD = 8"
definition FMODE_PWRITE :: u32 where "FMODE_PWRITE = FMODE_PREAD"

definition SEEK_CUR :: u32 where "SEEK_CUR = 1"
definition SEEK_END :: u32 where "SEEK_END = 2"
definition SEEK_MAX :: u32 where "SEEK_MAX = SEEK_END"

definition MAY_WRITE :: u32 where "MAY_WRITE = 2"
definition MAY_READ :: u32 where "MAY_READ = 4"

definition MAX_RW_COUNT :: s32 where "MAX_RW_COUNT = 0x7fffffff AND 0xfffff000"

lemmas errno_defs = EBADF_def ENOMEM_def EFAULT_def EINVAL_def ESPIPE_def EOVERFLOW_def
  EIOCBQUEUED_def EIOCBRETRY_def

datatype direction = READ | WRITE

record iovec =
  iov_base :: u64
  iov_len :: u64

record fil =
  f_id :: nat
  f_mode :: u32
  f_pos :: s64
  f_version :: u64
  i_size :: s64
  s_maxbytes :: u64
  mandatory :: bool

record kiocb =
  ki_filp :: fil
  ki_pos :: s64
  ki_left :: u64

type_synonym 'w io_fn = "fil \<Rightarrow> u64 \<Rightarrow> u64 \<Rightarrow> s64 \<Rightarrow> 'w \<Rightarrow> s64 \<times> s64 \<times> 'w"
type_synonym 'w aio_fn = "kiocb \<Rightarrow> iovec list \<Rightarrow> s64 \<Rightarrow> 'w \<Rightarrow> s64 \<times> kiocb \<times> 'w"

record 'w file_operations =
  op_llseek :: "(fil \<Rightarrow> s64 \<Rightarrow> u32 \<Rightarrow> s64 \<times> fil) option"
  op_read :: "'w io_fn option"
  op_write :: "'w io_fn option"
  op_aio_read :: "'w aio_fn option"
  op_aio_write :: "'w aio_fn option"

record 'w open_file =
  inner :: fil
  f_op :: "'w file_operations option"

record 'w env =
  access_ok :: "direction \<Rightarrow> u64 \<Rightarrow> u64 \<Rightarrow> bool"
  security_file_permission :: "nat \<Rightarrow> u32 \<Rightarrow> s32"
  locks_mandatory_area :: "direction \<Rightarrow> nat \<Rightarrow> s64 \<Rightarrow> u64 \<Rightarrow> s32"
  wait_on_retry :: "kiocb \<Rightarrow> 'w \<Rightarrow> kiocb \<times> 'w"
  wait_on_sync :: "kiocb \<Rightarrow> 'w \<Rightarrow> s64 \<times> kiocb \<times> 'w"

record 'w world =
  fsys :: 'w
  rchar :: u64
  wchar :: u64
  syscr :: u64
  syscw :: u64
  notified :: "(nat \<times> direction) list"

type_synonym 'w files = "u32 \<rightharpoonup> 'w open_file"
type_synonym 'w outcome = "(s64 \<times> s64 \<times> 'w world) option"

subsection \<open>Seeking\<close>

definition seek_base :: "fil \<Rightarrow> s64 \<Rightarrow> u32 \<Rightarrow> s64" where
  "seek_base f offset origin =
     (if origin = SEEK_END then offset + i_size f
      else if origin = SEEK_CUR then offset + f_pos f
      else offset)"

definition set_f_pos :: "fil \<Rightarrow> s64 \<Rightarrow> fil" where
  "set_f_pos f offset = (if offset \<noteq> f_pos f then f\<lparr>f_pos := offset, f_version := 0\<rparr> else f)"

definition generic_file_llseek :: "fil \<Rightarrow> s64 \<Rightarrow> u32 \<Rightarrow> s64 \<times> fil" where
  "generic_file_llseek f offset origin =
     (let offset = seek_base f offset origin
      in if 0 \<le>s offset \<and> offset \<le> s_maxbytes f then (offset, set_f_pos f offset)
         else (- EINVAL, f))"

definition remote_llseek :: "fil \<Rightarrow> s64 \<Rightarrow> u32 \<Rightarrow> s64 \<times> fil" where
  "remote_llseek f offset origin =
     (let offset = seek_base f offset origin
      in if 0 \<le>s offset \<and> offset \<le> s_maxbytes f then (offset, set_f_pos f offset)
         else (- EINVAL, f))"

definition no_llseek :: "fil \<Rightarrow> s64 \<Rightarrow> u32 \<Rightarrow> s64 \<times> fil" where
  "no_llseek f offset origin = (- ESPIPE, f)"

definition default_llseek :: "fil \<Rightarrow> s64 \<Rightarrow> u32 \<Rightarrow> s64 \<times> fil" where
  "default_llseek f offset origin =
     (let offset = seek_base f offset origin
      in if 0 \<le>s offset then (offset, set_f_pos f offset) else (- EINVAL, f))"

definition vfs_llseek :: "'w open_file \<Rightarrow> s64 \<Rightarrow> u32 \<Rightarrow> s64 \<times> fil" where
  "vfs_llseek file offset origin =
     (let fn = (if f_mode (inner file) AND FMODE_LSEEK \<noteq> 0
                then (case f_op file of
                        None \<Rightarrow> default_llseek
                      | Some ops \<Rightarrow> (case op_llseek ops of None \<Rightarrow> default_llseek | Some g \<Rightarrow> g))
                else no_llseek)
      in fn (inner file) offset origin)"

text \<open>\<^verbatim>\<open>off_t\<close> and \<^verbatim>\<open>loff_t\<close> have the same width here, so the overflow check never fires.\<close>

definition sys_lseek :: "u32 \<Rightarrow> s64 \<Rightarrow> u32 \<Rightarrow> 'w files \<Rightarrow> s64 \<times> 'w files" where
  "sys_lseek fd offset origin fs = (case fs fd of
     None \<Rightarrow> (- EBADF, fs)
   | Some file \<Rightarrow>
       (if origin \<le> SEEK_MAX
        then (let (res, f) = vfs_llseek file offset origin;
                  retval = res
              in (if res \<noteq> retval then - EOVERFLOW else retval, fs(fd \<mapsto> file\<lparr>inner := f\<rparr>)))
        else (- EINVAL, fs)))"

text \<open>\<^verbatim>\<open>user_ok\<close>: whether the result could be stored at the user's address; the value stored there.\<close>

definition sys_llseek ::
  "u32 \<Rightarrow> u64 \<Rightarrow> u64 \<Rightarrow> bool \<Rightarrow> u32 \<Rightarrow> 'w files \<Rightarrow> s32 \<times> s64 option \<times> 'w files"
where
  "sys_llseek fd offset_high offset_low user_ok origin fs = (case fs fd of
     None \<Rightarrow> (ucast (- EBADF), None, fs)
   | Some file \<Rightarrow>
       (if SEEK_MAX < origin then (ucast (- EINVAL), None, fs)
        else (let (offset, f) = vfs_llseek file (push_bit 32 offset_high OR offset_low) origin;
                  fs' = fs(fd \<mapsto> file\<lparr>inner := f\<rparr>)
              in if 0 \<le>s offset
                 then (if user_ok then (0, Some offset, fs') else (ucast (- EFAULT), None, fs'))
                 else (ucast offset, None, fs'))))"

subsection \<open>The check before a transfer\<close>

definition rw_verify_area :: "'w env \<Rightarrow> direction \<Rightarrow> fil \<Rightarrow> s64 \<Rightarrow> u64 \<Rightarrow> s32" where
  "rw_verify_area e dir f pos count =
     (if count <s 0 then ucast (- EINVAL)
      else if pos <s 0 \<or> pos + count <s 0 then ucast (- EINVAL)
      else let lim = (if scast MAX_RW_COUNT < count then MAX_RW_COUNT else ucast count)
           in if mandatory f
              then (let retval = locks_mandatory_area e dir (f_id f) pos count
                    in if retval <s 0 then retval else lim)
              else lim)"

subsection \<open>Synchronous transfers through the asynchronous operations\<close>

partial_function (option) retry_loop ::
  "(kiocb \<Rightarrow> 'w \<Rightarrow> kiocb \<times> 'w) \<Rightarrow> 'w aio_fn \<Rightarrow> iovec list \<Rightarrow> kiocb \<Rightarrow> 'w
     \<Rightarrow> (s64 \<times> kiocb \<times> 'w) option"
where
  "retry_loop wait fn iov k w =
     (let (ret, k', w') = fn k iov (ki_pos k) w
      in if ret \<noteq> - EIOCBRETRY then Some (ret, k', w')
         else let (k'', w'') = wait k' w' in retry_loop wait fn iov k'' w'')"

definition do_sync_readv_writev ::
  "'w env \<Rightarrow> 'w aio_fn \<Rightarrow> fil \<Rightarrow> iovec list \<Rightarrow> u64 \<Rightarrow> s64 \<Rightarrow> 'w \<Rightarrow> (s64 \<times> s64 \<times> 'w) option"
where
  "do_sync_readv_writev e fn filp iov len pos w = do {
     (ret, k, w) \<leftarrow> retry_loop (wait_on_retry e) fn iov \<lparr>ki_filp = filp, ki_pos = pos, ki_left = len\<rparr> w;
     let (ret, k, w) = (if ret = - EIOCBQUEUED then wait_on_sync e k w else (ret, k, w));
     Some (ret, ki_pos k, w) }"

definition do_sync_read ::
  "'w env \<Rightarrow> 'w aio_fn \<Rightarrow> fil \<Rightarrow> u64 \<Rightarrow> u64 \<Rightarrow> s64 \<Rightarrow> 'w \<Rightarrow> (s64 \<times> s64 \<times> 'w) option"
where
  "do_sync_read e aio_read filp buf len pos w =
     do_sync_readv_writev e aio_read filp [\<lparr>iov_base = buf, iov_len = len\<rparr>] len pos w"

definition do_sync_write ::
  "'w env \<Rightarrow> 'w aio_fn \<Rightarrow> fil \<Rightarrow> u64 \<Rightarrow> u64 \<Rightarrow> s64 \<Rightarrow> 'w \<Rightarrow> (s64 \<times> s64 \<times> 'w) option"
where
  "do_sync_write e aio_write filp buf len pos w =
     do_sync_readv_writev e aio_write filp [\<lparr>iov_base = buf, iov_len = len\<rparr>] len pos w"

subsection \<open>Plain transfers\<close>

definition add_rchar :: "s64 \<Rightarrow> 'w world \<Rightarrow> 'w world" where
  "add_rchar n W = W\<lparr>rchar := rchar W + n\<rparr>"

definition add_wchar :: "s64 \<Rightarrow> 'w world \<Rightarrow> 'w world" where
  "add_wchar n W = W\<lparr>wchar := wchar W + n\<rparr>"

definition inc_syscr :: "'w world \<Rightarrow> 'w world" where
  "inc_syscr W = W\<lparr>syscr := syscr W + 1\<rparr>"

definition inc_syscw :: "'w world \<Rightarrow> 'w world" where
  "inc_syscw W = W\<lparr>syscw := syscw W + 1\<rparr>"

definition notify :: "fil \<Rightarrow> direction \<Rightarrow> 'w world \<Rightarrow> 'w world" where
  "notify f dir W = W\<lparr>notified := notified W @ [(f_id f, dir)]\<rparr>"

definition vfs_read ::
  "'w env \<Rightarrow> 'w open_file \<Rightarrow> u64 \<Rightarrow> u64 \<Rightarrow> s64 \<Rightarrow> 'w world \<Rightarrow> 'w outcome"
where
  "vfs_read e file buf count pos W =
     (let f = inner file in
      if f_mode f AND FMODE_READ = 0 then Some (- EBADF, pos, W)
      else case f_op file of
        None \<Rightarrow> Some (- EINVAL, pos, W)
      | Some ops \<Rightarrow>
        if op_read ops = None \<and> op_aio_read ops = None then Some (- EINVAL, pos, W)
        else if \<not> access_ok e WRITE buf count then Some (- EFAULT, pos, W)
        else let ret = scast (rw_verify_area e READ f pos count) :: s64 in
        if ret <s 0 then Some (ret, pos, W)
        else let count = ret; ret = scast (security_file_permission e (f_id f) MAY_READ) :: s64 in
        if ret \<noteq> 0 then Some (ret, pos, W)
        else do {
          (ret, pos, w) \<leftarrow> (case op_read ops of
              Some rd \<Rightarrow> Some (rd f buf count pos (fsys W))
            | None \<Rightarrow> do_sync_read e (the (op_aio_read ops)) f buf count pos (fsys W));
          let W = W\<lparr>fsys := w\<rparr>;
          let W = (if 0 <s ret then add_rchar ret (notify f READ W) else W);
          Some (ret, pos, inc_syscr W) })"

definition vfs_write ::
  "'w env \<Rightarrow> 'w open_file \<Rightarrow> u64 \<Rightarrow> u64 \<Rightarrow> s64 \<Rightarrow> 'w world \<Rightarrow> 'w outcome"
where
  "vfs_write e file buf count pos W =
     (let f = inner file in
      if f_mode f AND FMODE_WRITE = 0 then Some (- EBADF, pos, W)
      else case f_op file of
        None \<Rightarrow> Some (- EINVAL, pos, W)
      | Some ops \<Rightarrow>
        if op_write ops = None \<and> op_aio_write ops = None then Some (- EINVAL, pos, W)
        else if \<not> access_ok e READ buf count then Some (- EFAULT, pos, W)
        else let ret = scast (rw_verify_area e WRITE f pos count) :: s64 in
        if ret <s 0 then Some (ret, pos, W)
        else let count = ret; ret = scast (security_file_permission e (f_id f) MAY_WRITE) :: s64 in
        if ret \<noteq> 0 then Some (ret, pos, W)
        else do {
          (ret, pos, w) \<leftarrow> (case op_write ops of
              Some wr \<Rightarrow> Some (wr f buf count pos (fsys W))
            | None \<Rightarrow> do_sync_write e (the (op_aio_write ops)) f buf count pos (fsys W));
          let W = W\<lparr>fsys := w\<rparr>;
          let W = (if 0 <s ret then add_wchar ret (notify f WRITE W) else W);
          Some (ret, pos, inc_syscw W) })"

definition vfs_forcewrite ::
  "'w env \<Rightarrow> 'w open_file \<Rightarrow> u64 \<Rightarrow> u64 \<Rightarrow> s64 \<Rightarrow> 'w world \<Rightarrow> 'w outcome"
where
  "vfs_forcewrite e file buff count pos W =
     (let f = inner file in
      case f_op file of
        None \<Rightarrow> Some (- EINVAL, pos, W)
      | Some ops \<Rightarrow>
        if op_write ops = None \<and> op_aio_write ops = None then Some (- EINVAL, pos, W)
        else if \<not> access_ok e READ buff count then Some (- EFAULT, pos, W)
        else let ret = scast (rw_verify_area e WRITE f pos count) :: s64 in
        if ret <s 0 then Some (ret, pos, W)
        else let count = ret in
        do {
          (ret, pos, w) \<leftarrow> (case op_write ops of
              Some wr \<Rightarrow> Some (wr f buff count pos (fsys W))
            | None \<Rightarrow> do_sync_write e (the (op_aio_write ops)) f buff count pos (fsys W));
          let W = W\<lparr>fsys := w\<rparr>;
          let W = (if 0 <s ret then add_wchar ret (notify f WRITE W) else W);
          Some (ret, pos, inc_syscw W) })"

definition file_pos_read :: "'w open_file \<Rightarrow> s64" where
  "file_pos_read file = f_pos (inner file)"

definition file_pos_write :: "'w open_file \<Rightarrow> s64 \<Rightarrow> 'w open_file" where
  "file_pos_write file pos = file\<lparr>inner := (inner file)\<lparr>f_pos := pos\<rparr>\<rparr>"

text \<open>A call that runs a transfer at the file's position and stores the new one.\<close>

definition at_file_pos ::
  "('w open_file \<Rightarrow> s64 \<Rightarrow> 'w world \<Rightarrow> 'w outcome) \<Rightarrow> u32 \<Rightarrow> 'w files \<Rightarrow> 'w world
     \<Rightarrow> (s64 \<times> 'w files \<times> 'w world) option"
where
  "at_file_pos xfer fd fs W = (case fs fd of
     None \<Rightarrow> Some (- EBADF, fs, W)
   | Some file \<Rightarrow> do {
       (ret, pos, W) \<leftarrow> xfer file (file_pos_read file) W;
       Some (ret, fs(fd \<mapsto> file_pos_write file pos), W) })"

definition sys_read where
  "sys_read e fd buf count fs W = at_file_pos (\<lambda>file. vfs_read e file buf count) fd fs W"

definition sys_write where
  "sys_write e fd buf count fs W = at_file_pos (\<lambda>file. vfs_write e file buf count) fd fs W"

definition sys_forcewrite where
  "sys_forcewrite e fd buff count fs W = at_file_pos (\<lambda>file. vfs_forcewrite e file buff count) fd fs W"

definition sys_pread64 ::
  "'w env \<Rightarrow> u32 \<Rightarrow> u64 \<Rightarrow> u64 \<Rightarrow> s64 \<Rightarrow> 'w files \<Rightarrow> 'w world \<Rightarrow> (s64 \<times> 'w world) option"
where
  "sys_pread64 e fd buf count pos fs W =
     (if pos <s 0 then Some (- EINVAL, W)
      else case fs fd of
        None \<Rightarrow> Some (- EBADF, W)
      | Some file \<Rightarrow>
          (if f_mode (inner file) AND FMODE_PREAD \<noteq> 0
           then do { (ret, pos, W) \<leftarrow> vfs_read e file buf count pos W; Some (ret, W) }
           else Some (- ESPIPE, W)))"

definition sys_pwrite64 ::
  "'w env \<Rightarrow> u32 \<Rightarrow> u64 \<Rightarrow> u64 \<Rightarrow> s64 \<Rightarrow> 'w files \<Rightarrow> 'w world \<Rightarrow> (s64 \<times> 'w world) option"
where
  "sys_pwrite64 e fd buf count pos fs W =
     (if pos <s 0 then Some (- EINVAL, W)
      else case fs fd of
        None \<Rightarrow> Some (- EBADF, W)
      | Some file \<Rightarrow>
          (if f_mode (inner file) AND FMODE_PWRITE \<noteq> 0
           then do { (ret, pos, W) \<leftarrow> vfs_write e file buf count pos W; Some (ret, W) }
           else Some (- ESPIPE, W)))"

subsection \<open>Vectored transfers\<close>

definition UIO_MAXIOV :: u64 where "UIO_MAXIOV = 1024"
definition UIO_FASTIOV :: u64 where "UIO_FASTIOV = 8"

text \<open>The loop of \<^verbatim>\<open>iov_shorten\<close>, with the bytes of the segments passed so far: the vector it leaves
  behind and the number of segments to use.\<close>

fun iov_shorten_from :: "u64 \<Rightarrow> u64 \<Rightarrow> iovec list \<Rightarrow> nat \<Rightarrow> nat \<times> iovec list" where
  "iov_shorten_from to len iov 0 = (0, iov)"
| "iov_shorten_from to len [] (Suc n) = (0, [])"
| "iov_shorten_from to len (v # vs) (Suc n) =
     (if to \<le> len + iov_len v then (1, v\<lparr>iov_len := to - len\<rparr> # vs)
      else let (seg, vs') = iov_shorten_from to (len + iov_len v) vs n in (seg + 1, v # vs'))"

definition iov_shorten :: "iovec list \<Rightarrow> nat \<Rightarrow> u64 \<Rightarrow> nat \<times> iovec list" where
  "iov_shorten iov nr_segs to = iov_shorten_from to 0 iov nr_segs"

text \<open>\<^verbatim>\<open>do_loop_readv_writev\<close>: one call per segment, until one fails or is short.\<close>

fun loop_segments :: "'w io_fn \<Rightarrow> fil \<Rightarrow> iovec list \<Rightarrow> s64 \<Rightarrow> s64 \<Rightarrow> 'w \<Rightarrow> s64 \<times> s64 \<times> 'w" where
  "loop_segments fn filp [] ret pos w = (ret, pos, w)"
| "loop_segments fn filp (v # vs) ret pos w =
     (let (nr, pos, w) = fn filp (iov_base v) (iov_len v) pos w
      in if nr <s 0 then (if ret = 0 then nr else ret, pos, w)
         else let ret = ret + nr
              in if nr \<noteq> iov_len v then (ret, pos, w) else loop_segments fn filp vs ret pos w)"

definition do_loop_readv_writev :: "'w io_fn \<Rightarrow> fil \<Rightarrow> iovec list \<Rightarrow> s64 \<Rightarrow> 'w \<Rightarrow> s64 \<times> s64 \<times> 'w" where
  "do_loop_readv_writev fn filp iov pos w = loop_segments fn filp iov 0 pos w"

definition vrfy_dir :: "direction \<Rightarrow> direction" where
  "vrfy_dir dir = (case dir of READ \<Rightarrow> WRITE | WRITE \<Rightarrow> READ)"

fun check_segments :: "'w env \<Rightarrow> direction \<Rightarrow> iovec list \<Rightarrow> s64 \<Rightarrow> s64" where
  "check_segments e dir [] ret = ret"
| "check_segments e dir (v # vs) ret =
     (let len = iov_len v
      in if len <s 0 \<or> ret + len <s ret then - EINVAL
         else if \<not> access_ok e (vrfy_dir dir) (iov_base v) len then - EFAULT
         else check_segments e dir vs (ret + len))"

text \<open>\<open>uvector\<close> is the user's vector, \<open>None\<close> where it cannot be read; \<open>kmalloc_ok\<close> says whether a
  vector longer than the one on the stack could be allocated.\<close>

definition rw_copy_check_uvector ::
  "'w env \<Rightarrow> direction \<Rightarrow> iovec list option \<Rightarrow> u64 \<Rightarrow> u64 \<Rightarrow> bool \<Rightarrow> s64 \<times> iovec list"
where
  "rw_copy_check_uvector e dir uvector nr_segs fast_segs kmalloc_ok =
     (if nr_segs = 0 then (0, [])
      else if UIO_MAXIOV < nr_segs then (- EINVAL, [])
      else if fast_segs < nr_segs \<and> \<not> kmalloc_ok then (- ENOMEM, [])
      else case uvector of
        None \<Rightarrow> (- EFAULT, [])
      | Some iov \<Rightarrow> (check_segments e dir iov 0, iov))"

definition do_readv_writev ::
  "'w env \<Rightarrow> direction \<Rightarrow> 'w open_file \<Rightarrow> iovec list option \<Rightarrow> u64 \<Rightarrow> bool \<Rightarrow> s64 \<Rightarrow> 'w world
     \<Rightarrow> 'w outcome"
where
  "do_readv_writev e dir file uvector nr_segs kmalloc_ok pos W = do {
     let f = inner file;
     (ret, pos, W) \<leftarrow> (case f_op file of
         None \<Rightarrow> Some (- EINVAL, pos, W)
       | Some ops \<Rightarrow>
         let (ret, iov) = rw_copy_check_uvector e dir uvector nr_segs UIO_FASTIOV kmalloc_ok in
         if ret \<le>s 0 then Some (ret, pos, W)
         else let tot_len = ret; ret = scast (rw_verify_area e dir f pos tot_len) :: s64 in
         if ret <s 0 then Some (ret, pos, W)
         else let ret = scast (security_file_permission e (f_id f)
                (if dir = READ then MAY_READ else MAY_WRITE)) :: s64 in
         if ret \<noteq> 0 then Some (ret, pos, W)
         else let fn = (if dir = READ then op_read ops else op_write ops);
                  fnv = (if dir = READ then op_aio_read ops else op_aio_write ops) in
         do {
           (ret, pos, w) \<leftarrow> (case fnv of
               Some g \<Rightarrow> do_sync_readv_writev e g f iov tot_len pos (fsys W)
             | None \<Rightarrow> map_option (\<lambda>g. do_loop_readv_writev g f iov pos (fsys W)) fn);
           Some (ret, pos, W\<lparr>fsys := w\<rparr>) });
     let W = (if 0 <s ret + (if dir = READ then 1 else 0) then notify f dir W else W);
     Some (ret, pos, W) }"

definition vfs_readv where
  "vfs_readv e file vec vlen kmalloc_ok pos W =
     (if f_mode (inner file) AND FMODE_READ = 0 then Some (- EBADF, pos, W)
      else case f_op file of
        None \<Rightarrow> Some (- EINVAL, pos, W)
      | Some ops \<Rightarrow>
        if op_aio_read ops = None \<and> op_read ops = None then Some (- EINVAL, pos, W)
        else do_readv_writev e READ file vec vlen kmalloc_ok pos W)"

definition vfs_writev where
  "vfs_writev e file vec vlen kmalloc_ok pos W =
     (if f_mode (inner file) AND FMODE_WRITE = 0 then Some (- EBADF, pos, W)
      else case f_op file of
        None \<Rightarrow> Some (- EINVAL, pos, W)
      | Some ops \<Rightarrow>
        if op_aio_write ops = None \<and> op_write ops = None then Some (- EINVAL, pos, W)
        else do_readv_writev e WRITE file vec vlen kmalloc_ok pos W)"

definition sys_readv where
  "sys_readv e fd vec vlen kmalloc_ok fs W = do {
     (ret, fs, W) \<leftarrow> at_file_pos (\<lambda>file. vfs_readv e file vec vlen kmalloc_ok) fd fs W;
     let W = (if 0 <s ret then add_rchar ret W else W);
     Some (ret, fs, inc_syscr W) }"

definition sys_writev where
  "sys_writev e fd vec vlen kmalloc_ok fs W = do {
     (ret, fs, W) \<leftarrow> at_file_pos (\<lambda>file. vfs_writev e file vec vlen kmalloc_ok) fd fs W;
     let W = (if 0 <s ret then add_wchar ret W else W);
     Some (ret, fs, inc_syscw W) }"

subsection \<open>Bounds of the check\<close>

lemma unat_lim:
  fixes count :: u64
  shows "unat (if scast MAX_RW_COUNT < count then MAX_RW_COUNT else ucast count :: s32)
     = min (unat count) (unat MAX_RW_COUNT)"
proof -
  have m: "unat (scast MAX_RW_COUNT :: u64) = unat MAX_RW_COUNT"
    by (rule unat_scast_small) (simp_all add: MAX_RW_COUNT_def)
  show ?thesis
  proof (cases "scast MAX_RW_COUNT < count")
    case True
    then have "unat MAX_RW_COUNT < unat count" using m by (simp add: word_less_nat_alt)
    with True show ?thesis by simp
  next
    case False
    then have le: "unat count \<le> unat MAX_RW_COUNT" using m by (simp add: word_less_nat_alt)
    then have "unat (ucast count :: s32) = unat count"
      by (intro unat_ucast_small) (simp add: MAX_RW_COUNT_def)
    with False le show ?thesis by simp
  qed
qed

lemma rw_verify_area_nonneg:
  assumes "0 \<le>s rw_verify_area e dir f pos count"
  shows "unat (rw_verify_area e dir f pos count) = min (unat count) (unat MAX_RW_COUNT)"
    and "unat pos + unat count < 2 ^ 63"
proof -
  have e: "\<not> 0 \<le>s (ucast (- EINVAL) :: s32)" by (simp add: EINVAL_def sle_0_iff)
  have c: "\<not> count <s 0" and p: "\<not> pos <s 0" and pc: "\<not> pos + count <s 0"
    using assms e by (auto simp: rw_verify_area_def split: if_splits)
  have "unat pos < 2 ^ 63" "unat count < 2 ^ 63" using c p by (simp_all add: sless_0_iff)
  then have "unat (pos + count) = unat pos + unat count" by (simp add: unat_word_ariths)
  then show "unat pos + unat count < 2 ^ 63" using pc by (simp add: sless_0_iff)
  show "unat (rw_verify_area e dir f pos count) = min (unat count) (unat MAX_RW_COUNT)"
    using assms c p pc
    by (simp add: rw_verify_area_def Let_def unat_lim sless_0_iff sle_0_iff split: if_splits)
qed

subsection \<open>Properties\<close>

lemma do_sync_write_hook:
  "do_sync_write (e\<lparr>security_file_permission := g\<rparr>) = do_sync_write e"
  by (simp add: do_sync_write_def do_sync_readv_writev_def fun_eq_iff cong: if_cong)

lemma rw_verify_area_hook:
  "rw_verify_area (e\<lparr>security_file_permission := g\<rparr>) dir f pos count = rw_verify_area e dir f pos count"
  by (simp add: rw_verify_area_def)

lemma vfs_forcewrite_hook:
  "vfs_forcewrite (e\<lparr>security_file_permission := g\<rparr>) file buf count pos W = vfs_forcewrite e file buf count pos W"
  by (simp add: vfs_forcewrite_def rw_verify_area_hook do_sync_write_hook Let_def cong: option.case_cong if_cong)

lemma vfs_forcewrite_writable:
  assumes "f_mode (inner file) AND FMODE_WRITE \<noteq> 0"
  shows "vfs_forcewrite e file buf count pos W =
    vfs_write (e\<lparr>security_file_permission := (\<lambda>_ _. 0)\<rparr>) file buf count pos W"
  using assms
  by (simp add: vfs_forcewrite_def vfs_write_def rw_verify_area_hook do_sync_write_hook Let_def
      cong: option.case_cong if_cong)

text \<open>The transfer a write comes down to: the file system's \<open>write\<close>, or else its asynchronous one.\<close>

definition write_op :: "'w env \<Rightarrow> 'w file_operations \<Rightarrow> fil \<Rightarrow> u64 \<Rightarrow> u64 \<Rightarrow> s64 \<Rightarrow> 'w \<Rightarrow> (s64 \<times> s64 \<times> 'w) option" where
  "write_op e ops f buf count pos w = (case op_write ops of
     Some wr \<Rightarrow> Some (wr f buf count pos w)
   | None \<Rightarrow> (case op_aio_write ops of Some g \<Rightarrow> do_sync_write e g f buf count pos w | None \<Rightarrow> None))"

lemma vfs_forcewrite_transfer:
  assumes "f_op file = Some ops" "access_ok e READ buf count"
    and "0 \<le>s rw_verify_area e WRITE (inner file) pos count"
    and "write_op e ops (inner file) buf (scast (rw_verify_area e WRITE (inner file) pos count)) pos (fsys W) = Some (ret, pos', w)"
  shows "vfs_forcewrite e file buf count pos W = Some (ret, pos', inc_syscw
      (if 0 <s ret then add_wchar ret (notify (inner file) WRITE (W\<lparr>fsys := w\<rparr>)) else W\<lparr>fsys := w\<rparr>))"
proof -
  let ?r = "rw_verify_area e WRITE (inner file) pos count"
  have "unat ?r < 2 ^ 31" using assms(3) by (simp add: sle_0_iff)
  then have "unat (scast ?r :: s64) < 2 ^ 63" by (subst unat_scast_small) simp_all
  then have "\<not> (scast ?r :: s64) <s 0" by (simp add: sless_0_iff)
  then show ?thesis
    using assms(1,2,4) by (auto simp: vfs_forcewrite_def write_op_def Let_def split: option.splits)
qed

text \<open>C10: \<^verbatim>\<open>sys_forcewrite\<close> is \<^verbatim>\<open>sys_write\<close> with both permission checks switched off. On an open file,
  (1) if the file was opened for writing, it does exactly what \<^verbatim>\<open>sys_write\<close> does under a security policy that
  grants everything; (2) if not, \<^verbatim>\<open>sys_write\<close> fails and changes nothing; (3) but, whatever the mode the
  file was opened with, once the buffer and the area are accepted \<^verbatim>\<open>sys_forcewrite\<close> runs the file system's
  write on that file with the accepted count, stores the new position in the file, and accounts and
  notifies as a write does; (4) the security hook plays no part in it (the comment in the code only
  speaks of the mode).\<close>

theorem forcewrite_is_unchecked_write:
  assumes f: "fs fd = Some file"
  shows "(f_mode (inner file) AND FMODE_WRITE \<noteq> 0 \<longrightarrow>
      sys_forcewrite e fd buf count fs W = sys_write (e\<lparr>security_file_permission := (\<lambda>_ _. 0)\<rparr>) fd buf count fs W) \<and>
    (f_mode (inner file) AND FMODE_WRITE = 0 \<longrightarrow> sys_write e fd buf count fs W = Some (- EBADF, fs, W)) \<and>
    (\<forall>ops ret pos' w. f_op file = Some ops \<and> access_ok e READ buf count \<and>
      0 \<le>s rw_verify_area e WRITE (inner file) (f_pos (inner file)) count \<and>
      write_op e ops (inner file) buf (scast (rw_verify_area e WRITE (inner file) (f_pos (inner file)) count))
        (f_pos (inner file)) (fsys W) = Some (ret, pos', w) \<longrightarrow>
      sys_forcewrite e fd buf count fs W = Some (ret, fs(fd \<mapsto> file\<lparr>inner := (inner file)\<lparr>f_pos := pos'\<rparr>\<rparr>), inc_syscw
        (if 0 <s ret then add_wchar ret (notify (inner file) WRITE (W\<lparr>fsys := w\<rparr>)) else W\<lparr>fsys := w\<rparr>))) \<and>
    (\<forall>g. sys_forcewrite (e\<lparr>security_file_permission := g\<rparr>) fd buf count fs W = sys_forcewrite e fd buf count fs W)"
proof (intro conjI allI impI)
  note at = sys_forcewrite_def sys_write_def at_file_pos_def f file_pos_read_def file_pos_write_def
  show "sys_forcewrite e fd buf count fs W = sys_write (e\<lparr>security_file_permission := (\<lambda>_ _. 0)\<rparr>) fd buf count fs W"
    if "f_mode (inner file) AND FMODE_WRITE \<noteq> 0" using vfs_forcewrite_writable[OF that] by (simp add: at)
  show "sys_write e fd buf count fs W = Some (- EBADF, fs, W)" if "f_mode (inner file) AND FMODE_WRITE = 0"
    using that f by (auto simp: at vfs_write_def Let_def fun_eq_iff)
  show "sys_forcewrite (e\<lparr>security_file_permission := g\<rparr>) fd buf count fs W = sys_forcewrite e fd buf count fs W" for g
    by (simp add: at vfs_forcewrite_hook)
  fix ops ret pos' w
  assume "f_op file = Some ops \<and> access_ok e READ buf count \<and>
      0 \<le>s rw_verify_area e WRITE (inner file) (f_pos (inner file)) count \<and>
      write_op e ops (inner file) buf (scast (rw_verify_area e WRITE (inner file) (f_pos (inner file)) count))
        (f_pos (inner file)) (fsys W) = Some (ret, pos', w)"
  then have "vfs_forcewrite e file buf count (f_pos (inner file)) W = Some (ret, pos', inc_syscw
        (if 0 <s ret then add_wchar ret (notify (inner file) WRITE (W\<lparr>fsys := w\<rparr>)) else W\<lparr>fsys := w\<rparr>))"
    by (intro vfs_forcewrite_transfer) blast+
  then show "sys_forcewrite e fd buf count fs W = Some (ret, fs(fd \<mapsto> file\<lparr>inner := (inner file)\<lparr>f_pos := pos'\<rparr>\<rparr>), inc_syscw
        (if 0 <s ret then add_wchar ret (notify (inner file) WRITE (W\<lparr>fsys := w\<rparr>)) else W\<lparr>fsys := w\<rparr>))"
    by (simp add: at)
qed

text \<open>A file system whose contents are a byte counter, for the witnesses.\<close>

definition demo_file :: "nat open_file" where
  "demo_file = \<lparr>inner = \<lparr>f_id = 1, f_mode = FMODE_READ, f_pos = 0, f_version = 0, i_size = 10,
       s_maxbytes = 0x7fffffffffffffff, mandatory = False\<rparr>,
     f_op = Some \<lparr>op_llseek = None, op_read = None,
       op_write = Some (\<lambda>f buf n pos w. (n, pos + n, w + unat n)), op_aio_read = None,
       op_aio_write = None\<rparr>\<rparr>"

definition demo_env :: "nat env" where
  "demo_env = \<lparr>access_ok = (\<lambda>_ _ _. True), security_file_permission = (\<lambda>_ _. - 13),
     locks_mandatory_area = (\<lambda>_ _ _ _. 0), wait_on_retry = (\<lambda>k w. (k, w)),
     wait_on_sync = (\<lambda>k w. (0, k, w))\<rparr>"

definition demo_world :: "nat world" where
  "demo_world = \<lparr>fsys = 0, rchar = 0, wchar = 0, syscr = 0, syscw = 0, notified = []\<rparr>"

text \<open>A file opened for reading, under a policy that refuses: the ordinary write fails, the forced one writes
  19 bytes and moves the position; the same file opened for writing.\<close>

theorem forcewrite_is_unchecked_write_witness:
  "sys_write demo_env 3 0 19 [3 \<mapsto> demo_file] demo_world = Some (- EBADF, [3 \<mapsto> demo_file], demo_world) \<and>
   sys_forcewrite demo_env 3 0 19 [3 \<mapsto> demo_file] demo_world =
     Some (19, [3 \<mapsto> demo_file\<lparr>inner := (inner demo_file)\<lparr>f_pos := 19\<rparr>\<rparr>],
       \<lparr>fsys = 19, rchar = 0, wchar = 19, syscr = 0, syscw = 1, notified = [(1, WRITE)]\<rparr>)"
proof -
  have ro: "f_mode (inner demo_file) AND FMODE_WRITE = 0"
    by (simp add: demo_file_def FMODE_READ_def FMODE_WRITE_def)
  have v: "rw_verify_area demo_env WRITE (inner demo_file) (f_pos (inner demo_file)) 19 = 19"
    by (simp add: rw_verify_area_def demo_file_def MAX_RW_COUNT_def Let_def sless_0_iff)
  obtain ops where ops: "f_op demo_file = Some ops" "op_write ops = Some (\<lambda>f buf n pos w. (n, pos + n, w + unat n))"
    by (simp add: demo_file_def)
  have p: "f_op demo_file = Some ops \<and> access_ok demo_env READ 0 19 \<and>
      0 \<le>s rw_verify_area demo_env WRITE (inner demo_file) (f_pos (inner demo_file)) 19 \<and>
      write_op demo_env ops (inner demo_file) 0 (scast (rw_verify_area demo_env WRITE (inner demo_file) (f_pos (inner demo_file)) 19))
        (f_pos (inner demo_file)) (fsys demo_world) = Some (19, 19, 19)"
    using ops by (simp add: v write_op_def sle_0_iff) (simp add: demo_env_def demo_file_def demo_world_def)
  have "sys_forcewrite demo_env 3 0 19 [3 \<mapsto> demo_file] demo_world =
      Some (19, [3 \<mapsto> demo_file, 3 \<mapsto> demo_file\<lparr>inner := (inner demo_file)\<lparr>f_pos := 19\<rparr>\<rparr>], inc_syscw
        (if 0 <s (19 :: s64) then add_wchar 19 (notify (inner demo_file) WRITE (demo_world\<lparr>fsys := 19\<rparr>)) else demo_world\<lparr>fsys := 19\<rparr>))"
    using forcewrite_is_unchecked_write[of "[3 \<mapsto> demo_file]" 3 demo_file demo_env 0 19 demo_world] p by fastforce
  moreover have "sys_write demo_env 3 0 19 [3 \<mapsto> demo_file] demo_world = Some (- EBADF, [3 \<mapsto> demo_file], demo_world)"
    using forcewrite_is_unchecked_write[of "[3 \<mapsto> demo_file]" 3 demo_file demo_env 0 19 demo_world] ro by simp
  moreover have "(0 :: s64) <s 19" by (simp add: word_sless_alt)
  ultimately show ?thesis
    by (simp add: inc_syscw_def add_wchar_def notify_def demo_world_def) (simp add: demo_file_def)
qed

text \<open>C11: the area check. When \<^verbatim>\<open>rw_verify_area\<close> lets a transfer through, the byte count it returns is
  the requested one cut to \<open>MAX_RW_COUNT\<close> (so it fits a non-negative \<open>int\<close>), and the transfer, even
  of the whole requested length, ends inside the range of file positions: no later addition of the
  count to the position can overflow.\<close>

theorem rw_verify_area_bounds:
  assumes "0 \<le>s rw_verify_area e dir f pos count"
  shows "unat (rw_verify_area e dir f pos count) = min (unat count) 0x7ffff000 \<and>
    unat pos + unat count < 2 ^ 63 \<and>
    unat (pos + scast (rw_verify_area e dir f pos count)) =
      unat pos + unat (rw_verify_area e dir f pos count)"
proof -
  note v = rw_verify_area_nonneg[OF assms]
  let ?r = "rw_verify_area e dir f pos count"
  have m: "unat MAX_RW_COUNT = 0x7ffff000" by (simp add: MAX_RW_COUNT_def)
  have "unat (scast ?r :: u64) = unat ?r"
    by (rule unat_scast_small) (simp_all add: v(1) m)
  moreover have "unat pos + unat ?r < 2 ^ 64" using v m by simp
  ultimately show ?thesis using v m by (simp add: unat_word_ariths)
qed

theorem rw_verify_area_bounds_witness:
  "unat (rw_verify_area demo_env WRITE (inner demo_file) 100 0xffffffff) = 0x7ffff000"
proof -
  have "0 \<le>s rw_verify_area demo_env WRITE (inner demo_file) 100 0xffffffff"
    by (simp add: rw_verify_area_def demo_file_def MAX_RW_COUNT_def Let_def sless_0_iff sle_0_iff)
  then show ?thesis
    using rw_verify_area_bounds[of demo_env WRITE "inner demo_file" 100 "0xffffffff"] by simp
qed

text \<open>Seeking. On a file whose position and size are non-negative, \<^verbatim>\<open>generic_file_llseek\<close> either
  answers \<open>-EINVAL\<close> and leaves the file as it was, or sets the position to the mathematically exact
  target (an overflow of the sum never passes as success), within the file system's limit.\<close>

theorem llseek_exact:
  assumes "0 \<le>s f_pos f" and "0 \<le>s i_size f"
  shows "let (r, f') = generic_file_llseek f offset origin;
             base = (if origin = SEEK_END then i_size f else if origin = SEEK_CUR then f_pos f else 0)
         in (r = - EINVAL \<and> f' = f) \<or>
            (sint r = sint offset + sint base \<and> 0 \<le> sint r \<and> r \<le> s_maxbytes f \<and> f_pos f' = r \<and>
             i_size f' = i_size f \<and> s_maxbytes f' = s_maxbytes f)"
proof -
  define base where "base = (if origin = SEEK_END then i_size f else if origin = SEEK_CUR then f_pos f else 0)"
  have b: "seek_base f offset origin = offset + base" by (simp add: seek_base_def base_def)
  have bn: "0 \<le> sint base" using assms by (simp add: base_def word_sle_eq)
  have exact: "sint (offset + base) = sint offset + sint base" if nn: "0 \<le> sint (offset + base)"
  proof -
    have r: "- (2 ^ 63) \<le> sint offset" "sint offset < 2 ^ 63" "sint base < 2 ^ 63"
      using sint_greater_eq[of offset] sint_less[of offset] sint_less[of base] by simp_all
    have a: "sint (offset + base) = signed_take_bit 63 (sint offset + sint base)"
      by (simp add: sint_word_add)
    show ?thesis
    proof (cases "sint offset + sint base < 2 ^ 63")
      case True
      then show ?thesis using a r bn by (simp add: signed_take_bit_int_eq_self)
    next
      case False
      let ?x = "sint offset + sint base"
      have "(?x + 2 ^ 63) mod 2 ^ 64 = ((?x - 2 ^ 63) + 2 ^ 64) mod 2 ^ 64"
        by (simp add: algebra_simps)
      also have "\<dots> = ?x - 2 ^ 63"
        using False r by (simp only: mod_add_self2) (simp add: mod_pos_pos_trivial)
      finally have "sint (offset + base) < 0"
        using a r by (simp add: signed_take_bit_eq_take_bit_shift take_bit_eq_mod)
      with nn show ?thesis by simp
    qed
  qed
  show ?thesis
    using exact by (auto simp: generic_file_llseek_def b set_f_pos_def Let_def word_sle_eq
        simp flip: base_def)
qed

theorem llseek_exact_witness:
  "generic_file_llseek (inner demo_file) 5 SEEK_END = (15, (inner demo_file)\<lparr>f_pos := 15\<rparr>) \<and>
   sint (fst (generic_file_llseek (inner demo_file) 5 SEEK_END)) = 5 + 10"
proof -
  have "generic_file_llseek (inner demo_file) 5 SEEK_END = (15, (inner demo_file)\<lparr>f_pos := 15\<rparr>)"
    by (simp add: generic_file_llseek_def seek_base_def set_f_pos_def demo_file_def SEEK_END_def
        word_sle_eq word_le_nat_alt)
  then show ?thesis
    using llseek_exact[of "inner demo_file" 5 SEEK_END]
    by (simp add: demo_file_def EINVAL_def word_sle_eq)
qed

lemma check_segments_sum:
  assumes "0 \<le>s check_segments e dir vs ret" and "0 \<le>s ret"
  shows "unat (check_segments e dir vs ret) = unat ret + sum_list (map (\<lambda>v. unat (iov_len v)) vs) \<and>
    (\<forall>v \<in> set vs. access_ok e (vrfy_dir dir) (iov_base v) (iov_len v))"
  using assms
proof (induction vs arbitrary: ret)
  case Nil
  then show ?case by simp
next
  case (Cons v vs)
  let ?l = "iov_len v"
  have e: "\<not> 0 \<le>s - EINVAL" "\<not> 0 \<le>s - EFAULT" by (simp_all add: EINVAL_def EFAULT_def sle_0_iff)
  have l: "\<not> ?l <s 0" and s: "\<not> ret + ?l <s ret"
    and a: "access_ok e (vrfy_dir dir) (iov_base v) ?l"
    and rest: "0 \<le>s check_segments e dir vs (ret + ?l)"
    using Cons.prems(1) e by (auto simp: Let_def split: if_splits)
  have lt: "unat ?l < 2 ^ 63" "unat ret < 2 ^ 63"
    using l Cons.prems(2) by (simp_all add: sless_0_iff sle_0_iff)
  then have sum: "unat (ret + ?l) = unat ret + unat ?l" by (simp add: unat_word_ariths)
  have nn: "0 \<le>s ret + ?l"
  proof -
    have "sint ret \<le> sint (ret + ?l)" using s by (simp add: word_sless_alt)
    moreover have "0 \<le> sint ret" using Cons.prems(2) by (simp add: word_sle_eq)
    ultimately show ?thesis by (simp add: word_sle_eq)
  qed
  show ?case using Cons.IH[OF rest nn] l s a sum by (simp add: Let_def)
qed

text \<open>The length of a vector. When \<^verbatim>\<open>rw_copy_check_uvector\<close> accepts a user's vector, the total it
  returns is the exact sum of the segment lengths (which is therefore below \<open>2^63\<close>, with no
  wrap-around on the way), and the address range of every segment has been checked.\<close>

theorem uvector_total_exact:
  assumes "rw_copy_check_uvector e dir (Some iov) nr_segs fast kmalloc_ok = (ret, iov')"
    and "0 <s ret"
  shows "iov' = iov \<and> unat ret = sum_list (map (\<lambda>v. unat (iov_len v)) iov) \<and> unat ret < 2 ^ 63 \<and>
    (\<forall>v \<in> set iov. access_ok e (vrfy_dir dir) (iov_base v) (iov_len v))"
proof -
  have nn: "0 \<le>s ret" and r0: "ret \<noteq> 0" using assms(2) by (auto simp: word_sless_alt word_sle_eq)
  have e: "\<not> 0 \<le>s - EINVAL" "\<not> 0 \<le>s - ENOMEM"
    by (simp_all add: EINVAL_def ENOMEM_def sle_0_iff)
  have eq: "ret = check_segments e dir iov 0" "iov' = iov"
    using assms(1) e nn r0 by (auto simp: rw_copy_check_uvector_def split: if_splits)
  have "unat ret = unat (0::s64) + sum_list (map (\<lambda>v. unat (iov_len v)) iov) \<and>
    (\<forall>v \<in> set iov. access_ok e (vrfy_dir dir) (iov_base v) (iov_len v))"
    using check_segments_sum[of e dir iov 0] nn eq by simp
  with eq nn show ?thesis by (simp add: sle_0_iff)
qed

theorem uvector_total_exact_witness:
  "unat (fst (rw_copy_check_uvector demo_env WRITE
      (Some [\<lparr>iov_base = 0, iov_len = 3\<rparr>, \<lparr>iov_base = 64, iov_len = 4\<rparr>]) 2 8 False)) = 3 + 4"
proof -
  let ?v = "[\<lparr>iov_base = 0, iov_len = 3\<rparr>, \<lparr>iov_base = 64, iov_len = 4\<rparr>]"
  have "rw_copy_check_uvector demo_env WRITE (Some ?v) 2 8 False = (7, ?v)"
    by (simp add: rw_copy_check_uvector_def UIO_MAXIOV_def demo_env_def Let_def sless_0_iff)
  then show ?thesis
    using uvector_total_exact[of demo_env WRITE ?v 2 8 False 7 ?v] by simp
qed

lemma iov_shorten_from_sum:
  fixes len to :: u64
  assumes "iov_shorten_from to len iov n = (seg, iov')" and "n \<le> length iov"
    and "len \<le> to" and "unat len + sum_list (map (\<lambda>v. unat (iov_len v)) (take n iov)) < 2 ^ 64"
    and "unat to \<le> unat len + sum_list (map (\<lambda>v. unat (iov_len v)) (take n iov))" and "0 < n"
  shows "0 < seg \<and> seg \<le> n \<and> length iov' = length iov \<and>
     unat len + sum_list (map (\<lambda>v. unat (iov_len v)) (take seg iov')) = unat to"
  using assms
proof (induction to len iov n arbitrary: seg iov' rule: iov_shorten_from.induct)
  case (1 to len iov)
  then show ?case by simp
next
  case (2 to len n)
  then show ?case by simp
next
  case (3 to len v vs n)
  have add: "unat (len + iov_len v) = unat len + unat (iov_len v)"
    using "3.prems"(4) by (simp add: unat_word_ariths)
  show ?case
  proof (cases "to \<le> len + iov_len v")
    case True
    have "unat (to - len) = unat to - unat len" using "3.prems"(3) by (simp add: unat_sub)
    moreover have "unat len \<le> unat to" using "3.prems"(3) by (simp add: word_le_nat_alt)
    ultimately show ?thesis using True "3.prems"(1) by auto
  next
    case False
    then obtain seg' vs' where rec: "iov_shorten_from to (len + iov_len v) vs n = (seg', vs')"
      "seg = seg' + 1" "iov' = v # vs'"
      using "3.prems"(1) by (auto split: prod.splits)
    have lt: "unat (len + iov_len v) < unat to" using False by (simp add: word_le_nat_alt)
    then have n0: "0 < n" using "3.prems"(5) add by (cases n) auto
    have "0 < seg' \<and> seg' \<le> n \<and> length vs' = length vs \<and>
       unat (len + iov_len v) + sum_list (map (\<lambda>v. unat (iov_len v)) (take seg' vs')) = unat to"
      by (rule "3.IH"[OF False rec(1)]) (use "3.prems" add lt n0 in \<open>auto simp: word_le_nat_alt\<close>)
    with rec add show ?thesis by simp
  qed
qed

text \<open>\<^verbatim>\<open>iov_shorten\<close> cuts a vector to an exact length. For a non-empty vector whose total does not
  wrap and is at least \<open>to\<close>, the segments it tells the caller to use hold exactly \<open>to\<close> bytes.\<close>

theorem iov_shorten_exact:
  assumes "iov_shorten iov n to = (seg, iov')" and "0 < n" and "n \<le> length iov"
    and "sum_list (map (\<lambda>v. unat (iov_len v)) (take n iov)) < 2 ^ 64"
    and "unat to \<le> sum_list (map (\<lambda>v. unat (iov_len v)) (take n iov))"
  shows "0 < seg \<and> seg \<le> n \<and> sum_list (map (\<lambda>v. unat (iov_len v)) (take seg iov')) = unat to"
  using iov_shorten_from_sum[of to 0 iov n seg iov'] assms by (simp add: iov_shorten_def)

lemma iov_shorten_from_numeral [simp]:
  "iov_shorten_from to len (v # vs) (numeral k) =
     (if to \<le> len + iov_len v then (1, v\<lparr>iov_len := to - len\<rparr> # vs)
      else let (seg, vs') = iov_shorten_from to (len + iov_len v) vs (pred_numeral k) in (seg + 1, v # vs'))"
  by (simp add: numeral_eq_Suc)

theorem iov_shorten_exact_witness:
  "sum_list (map (\<lambda>v. unat (iov_len v)) (take 2
     (snd (iov_shorten [\<lparr>iov_base = 0, iov_len = 3\<rparr>, \<lparr>iov_base = 64, iov_len = 4\<rparr>] 2 5)))) = 5"
proof -
  let ?v = "[\<lparr>iov_base = 0, iov_len = 3\<rparr>, \<lparr>iov_base = 64, iov_len = 4\<rparr>]"
  have "iov_shorten ?v 2 5 = (2, [\<lparr>iov_base = 0, iov_len = 3\<rparr>, \<lparr>iov_base = 64, iov_len = 2\<rparr>])"
    by (simp add: iov_shorten_def)
  then show ?thesis
    using iov_shorten_exact[of ?v 2 5 2] by simp
qed

end
