(* ===== verification/Sendfile.thy ===== *)
theory Sendfile
  imports ReadWrite
begin

text \<open>
  Copying between two open files, \<^verbatim>\<open>do_sendfile\<close> and its two entry points in \<^verbatim>\<open>fs/read_write.c\<close>. An
  open file gains the operations this code asks for; the position is that of the input file unless
  the caller passes one.
\<close>

subsection \<open>Data\<close>

record 'w sfile =
  base :: "'w open_file"
  has_inode :: bool
  op_sendfile :: "(s64 \<Rightarrow> u64 \<Rightarrow> nat \<Rightarrow> 'w \<Rightarrow> s64 \<times> s64 \<times> 'w) option"
  has_sendpage :: bool

type_synonym 'w sfiles = "u32 \<rightharpoonup> 'w sfile"

definition MAX_NON_LFS :: s64 where "MAX_NON_LFS = push_bit 31 1 - 1"

subsection \<open>The checks\<close>

text \<open>All that happens before the transfer: the error, or the two files, the position, the number of
  bytes to ask for and the limit. \<open>pos + count\<close> is computed and compared unsigned.\<close>

definition sendfile_check ::
  "'w env \<Rightarrow> u32 \<Rightarrow> u32 \<Rightarrow> s64 option \<Rightarrow> u64 \<Rightarrow> s64 \<Rightarrow> 'w sfiles \<Rightarrow> s64 + ('w sfile \<times> 'w sfile \<times> s64 \<times> u64 \<times> s64)"
where
  "sendfile_check e out_fd in_fd ppos count lim fs = (case fs in_fd of
     None \<Rightarrow> Inl (- EBADF)
   | Some in_file \<Rightarrow>
     let f = inner (base in_file); pos = (case ppos of None \<Rightarrow> f_pos f | Some p \<Rightarrow> p) in
     if f_mode f AND FMODE_READ = 0 then Inl (- EBADF)
     else if \<not> has_inode in_file then Inl (- EINVAL)
     else if f_op (base in_file) = None \<or> op_sendfile in_file = None then Inl (- EINVAL)
     else if ppos \<noteq> None \<and> f_mode f AND FMODE_PREAD = 0 then Inl (- ESPIPE)
     else let retval = scast (rw_verify_area e READ f pos count) :: s64 in
     if retval <s 0 then Inl retval
     else let count = retval; retval = scast (security_file_permission e (f_id f) MAY_READ) :: s64 in
     if retval \<noteq> 0 then Inl retval
     else case fs out_fd of
       None \<Rightarrow> Inl (- EBADF)
     | Some out_file \<Rightarrow>
       let g = inner (base out_file) in
       if f_mode g AND FMODE_WRITE = 0 then Inl (- EBADF)
       else if f_op (base out_file) = None \<or> \<not> has_sendpage out_file then Inl (- EINVAL)
       else let retval = scast (rw_verify_area e WRITE g (f_pos g) count) :: s64 in
       if retval <s 0 then Inl retval
       else let count = retval; retval = scast (security_file_permission e (f_id g) MAY_WRITE) :: s64 in
       if retval \<noteq> 0 then Inl retval
       else let lim = (if lim = 0 then min (s_maxbytes f) (s_maxbytes g) else lim) in
       if pos <s 0 then Inl (- EINVAL)
       else if pos + count > lim
       then if lim \<le>s pos then Inl (- EOVERFLOW) else Inr (in_file, out_file, pos, lim - pos, lim)
       else Inr (in_file, out_file, pos, count, lim))"

subsection \<open>The calls\<close>

text \<open>The result, the position afterwards, the files and the world.\<close>

definition do_sendfile ::
  "'w env \<Rightarrow> u32 \<Rightarrow> u32 \<Rightarrow> s64 option \<Rightarrow> u64 \<Rightarrow> s64 \<Rightarrow> 'w sfiles \<Rightarrow> 'w world \<Rightarrow> s64 \<times> s64 option \<times> 'w sfiles \<times> 'w world"
where
  "do_sendfile e out_fd in_fd ppos count lim fs W =
     (case sendfile_check e out_fd in_fd ppos count lim fs of
        Inl err \<Rightarrow> (err, ppos, fs, W)
      | Inr (in_file, out_file, pos, count, lim) \<Rightarrow>
        let (retval, pos, w) = the (op_sendfile in_file) pos count (f_id (inner (base out_file))) (fsys W);
            W = W\<lparr>fsys := w\<rparr>;
            W = (if 0 <s retval then add_wchar retval (add_rchar retval W) else W);
            W = inc_syscw (inc_syscr W);
            retval = (if lim <s pos then - EOVERFLOW else retval)
        in case ppos of
             None \<Rightarrow> (retval, None,
               fs(in_fd \<mapsto> in_file\<lparr>base := (base in_file)\<lparr>inner := (inner (base in_file))\<lparr>f_pos := pos\<rparr>\<rparr>\<rparr>), W)
           | Some _ \<Rightarrow> (retval, Some pos, fs, W))"

text \<open>The user's offset is \<open>None\<close> for a null pointer and \<open>Some None\<close> if it cannot be read; \<open>put_ok\<close> says
  whether it can be written.\<close>

definition sendfile_with ::
  "s64 \<Rightarrow> 'w env \<Rightarrow> u32 \<Rightarrow> u32 \<Rightarrow> s64 option option \<Rightarrow> bool \<Rightarrow> u64 \<Rightarrow> 'w sfiles \<Rightarrow> 'w world \<Rightarrow>
     s64 \<times> s64 option \<times> 'w sfiles \<times> 'w world"
where
  "sendfile_with lim e out_fd in_fd offset put_ok count fs W = (case offset of
     None \<Rightarrow> do_sendfile e out_fd in_fd None count 0 fs W
   | Some None \<Rightarrow> (- EFAULT, None, fs, W)
   | Some (Some pos) \<Rightarrow>
       let (ret, pos', fs, W) = do_sendfile e out_fd in_fd (Some pos) count lim fs W
       in if put_ok then (ret, pos', fs, W) else (- EFAULT, Some pos, fs, W))"

definition sys_sendfile where "sys_sendfile = sendfile_with MAX_NON_LFS"
definition sys_sendfile64 where "sys_sendfile64 = sendfile_with 0"

subsection \<open>Limits\<close>

lemma sint_scast_up:
  assumes "LENGTH('a) \<le> LENGTH('b)"
  shows "sint (scast (w :: 'a::len word) :: 'b::len word) = sint w"
proof -
  have p: "(2 ^ (LENGTH('a) - Suc 0) :: int) \<le> 2 ^ (LENGTH('b) - Suc 0)"
    using assms by (simp add: power_increasing)
  have "- (2 ^ (LENGTH('b) - Suc 0)) \<le> sint w" "sint w < 2 ^ (LENGTH('b) - Suc 0)"
    using sint_greater_eq[of w] sint_less[of w] p unfolding One_nat_def by linarith+
  then have "signed_take_bit (LENGTH('b) - Suc 0) (sint w) = sint w" by (intro signed_take_bit_int_eq_self)
  then show ?thesis by (simp add: signed_scast_eq)
qed

lemma rw_verify_area_count:
  assumes "\<not> (scast (rw_verify_area e dir f pos count) :: s64) <s 0"
  shows "unat (scast (rw_verify_area e dir f pos count) :: s64) \<le> unat count"
    and "unat (scast (rw_verify_area e dir f pos count) :: s64) \<le> 0x7ffff000"
proof -
  let ?r = "rw_verify_area e dir f pos count"
  have "0 \<le>s ?r" using assms by (simp add: word_sless_alt word_sle_eq sint_scast_up)
  from rw_verify_area_nonneg[OF this]
  have r: "unat ?r = min (unat count) 0x7ffff000" by (simp add: MAX_RW_COUNT_def)
  have "unat (scast ?r :: s64) = unat ?r" by (rule unat_scast_small) (simp_all add: r)
  then show "unat (scast ?r :: s64) \<le> unat count" "unat (scast ?r :: s64) \<le> 0x7ffff000" using r by simp_all
qed

text \<open>What the transfer is asked to do. Once all checks are passed, the input was opened for reading
  and the output for writing, the position is not negative, and the number of bytes asked for is at
  most what the caller wanted and \<open>MAX_RW_COUNT\<close>, and ends within the limit (the smaller of the two
  file systems' limits when the caller gives none).\<close>

theorem sendfile_within_limit:
  assumes "sendfile_check e out_fd in_fd ppos count lim fs = Inr (in_file, out_file, pos, n, m)" and "0 \<le>s m"
  shows "fs in_fd = Some in_file \<and> fs out_fd = Some out_file \<and>
     f_mode (inner (base in_file)) AND FMODE_READ \<noteq> 0 \<and> f_mode (inner (base out_file)) AND FMODE_WRITE \<noteq> 0 \<and>
     m = (if lim = 0 then min (s_maxbytes (inner (base in_file))) (s_maxbytes (inner (base out_file))) else lim) \<and>
     0 \<le>s pos \<and> unat n \<le> min (unat count) 0x7ffff000 \<and> unat pos + unat n \<le> unat m"
proof -
  define c1 where "c1 = (scast (rw_verify_area e READ (inner (base in_file)) pos count) :: s64)"
  define c2 where "c2 = (scast (rw_verify_area e WRITE (inner (base out_file)) (f_pos (inner (base out_file))) c1) :: s64)"
  have m: "m = (if lim = 0 then min (s_maxbytes (inner (base in_file))) (s_maxbytes (inner (base out_file))) else lim)"
    and io: "fs in_fd = Some in_file" "fs out_fd = Some out_file" "f_mode (inner (base in_file)) AND FMODE_READ \<noteq> 0"
      "f_mode (inner (base out_file)) AND FMODE_WRITE \<noteq> 0"
    and c: "\<not> c1 <s 0" "\<not> c2 <s 0" "\<not> pos <s 0"
    and n: "n = (if pos + c2 > m then m - pos else c2)" "pos + c2 > m \<Longrightarrow> \<not> m \<le>s pos"
    using assms(1) unfolding c1_def c2_def
    by (auto simp: sendfile_check_def Let_def split: option.splits if_splits)
  have c2: "unat c2 \<le> min (unat count) 0x7ffff000"
    using rw_verify_area_count[OF c(1)[unfolded c1_def]] rw_verify_area_count[OF c(2)[unfolded c2_def]]
    by (fold c1_def c2_def) (simp add: c2_def[symmetric] c1_def[symmetric])
  have pos: "unat pos < 2 ^ 63" using c(3) by (simp add: sless_0_iff)
  have mm: "unat m < 2 ^ 63" using assms(2) by (simp add: sle_0_iff)
  have sum: "unat (pos + c2) = unat pos + unat c2" using pos c2 by (simp add: unat_word_ariths)
  have "unat n \<le> unat c2 \<and> unat pos + unat n \<le> unat m"
  proof (cases "pos + c2 > m")
    case True
    then have lt: "unat m < unat pos + unat c2" using sum by (simp add: word_less_nat_alt)
    have "\<not> sint m \<le> sint pos" using n(2)[OF True] by (simp add: word_sle_eq)
    moreover have "sint m = int (unat m)" "sint pos = int (unat pos)" using sint_small[of m] sint_small[of pos] pos mm by simp_all
    ultimately have "unat pos < unat m" by (simp only: of_nat_le_iff not_le)
    then have "unat (m - pos) = unat m - unat pos" by (simp add: unat_sub word_le_nat_alt)
    with True lt n(1) \<open>unat pos < unat m\<close> show ?thesis by simp
  next
    case False
    then show ?thesis using n(1) sum by (simp add: word_less_nat_alt)
  qed
  moreover have "0 \<le>s pos" using pos by (simp add: sle_0_iff)
  ultimately show ?thesis using m io c2 by auto
qed

text \<open>A file of ten bytes' limit sent to another.\<close>

definition demo_sfile :: "u32 \<Rightarrow> nat sfile" where
  "demo_sfile mode = \<lparr>base = demo_file\<lparr>inner := (inner demo_file)\<lparr>f_mode := mode, s_maxbytes := 10\<rparr>\<rparr>, has_inode = True,
     op_sendfile = Some (\<lambda>pos n out w. (n, pos + n, w + unat n)), has_sendpage = True\<rparr>"

theorem sendfile_within_limit_witness:
  "sendfile_check (demo_env\<lparr>security_file_permission := \<lambda>_ _. 0\<rparr>) 4 3 (Some 6) 100 0
     [3 \<mapsto> demo_sfile (FMODE_READ OR FMODE_PREAD), 4 \<mapsto> demo_sfile FMODE_WRITE] =
     Inr (demo_sfile (FMODE_READ OR FMODE_PREAD), demo_sfile FMODE_WRITE, 6, 4, 10) \<and> 6 + unat (4 :: u64) \<le> unat (10 :: u64)"
proof -
  have c: "sendfile_check (demo_env\<lparr>security_file_permission := \<lambda>_ _. 0\<rparr>) 4 3 (Some 6) 100 0
     [3 \<mapsto> demo_sfile (FMODE_READ OR FMODE_PREAD), 4 \<mapsto> demo_sfile FMODE_WRITE] =
     Inr (demo_sfile (FMODE_READ OR FMODE_PREAD), demo_sfile FMODE_WRITE, 6, 4, 10)"
    by (simp add: sendfile_check_def demo_sfile_def demo_file_def demo_env_def FMODE_READ_def FMODE_PREAD_def
        FMODE_WRITE_def rw_verify_area_def MAX_RW_COUNT_def Let_def sless_0_iff word_sle_eq)
  have "0 \<le>s (10 :: s64)" by (simp add: sle_0_iff)
  from sendfile_within_limit[OF c this] c show ?thesis by simp
qed

end
