(* ===== verification/Wrappers.thy ===== *)
theory Wrappers
  imports Syscalls Join ReadWrite
begin

text \<open>
  The command line programs of \<^verbatim>\<open>wrappers/\<close>, one per added system call. Each \<open>main\<close> takes the
  argument vector and the kernel state its call works on, and gives its exit status, what it
  printed and the new state. From the C library: \<open>atol\<close> (saturating at the bounds of \<open>long\<close>),
  \<open>syscall\<close> (results from \<open>-4095\<close> to \<open>-1\<close> become \<open>-1\<close> with \<open>errno\<close> set), \<open>printf\<close> and \<open>perror\<close>,
  which is recorded with the value of \<open>errno\<close> it would describe.

  All programs but \<^verbatim>\<open>swipe.c\<close> call \<open>syscall\<close> without including \<^verbatim>\<open>unistd.h\<close>; the undeclared function
  is taken to return \<open>int\<close>, so that its result goes through 32 bits. The call \<^verbatim>\<open>sys_myjoin\<close> may
  sleep: the program \<^verbatim>\<open>myjoin\<close> is modelled from the state of the joiner it is, and has no result
  (\<open>None\<close>) while the call has not returned.
\<close>

subsection \<open>The C library\<close>

datatype out_line = Stdout string | Perror string s64

definition newline_char :: char where
  "newline_char = CHR 0x0A"

definition is_space :: "char \<Rightarrow> bool" where
  "is_space c = (of_char c = (32 :: nat) \<or> (9 \<le> (of_char c :: nat) \<and> of_char c \<le> (13 :: nat)))"

definition is_digit :: "char \<Rightarrow> bool" where
  "is_digit c = (48 \<le> (of_char c :: nat) \<and> of_char c \<le> (57 :: nat))"

definition digits_value :: "string \<Rightarrow> nat" where
  "digits_value s = foldl (\<lambda>n c. 10 * n + (of_char c - 48)) 0 (takeWhile is_digit s)"

definition atol_int :: "string \<Rightarrow> int" where
  "atol_int s = (case dropWhile is_space s of
     [] \<Rightarrow> 0
   | c # r \<Rightarrow>
       if c = CHR ''-'' then - int (digits_value r)
       else if c = CHR ''+'' then int (digits_value r)
       else int (digits_value (c # r)))"

text \<open>The result of \<open>atol\<close> and the value it leaves in \<open>errno\<close> (\<open>ERANGE\<close>, or unchanged).\<close>

definition atol :: "string \<Rightarrow> s64 \<Rightarrow> s64 \<times> s64" where
  "atol s errno = (let v = atol_int s in
     if v < - (2 ^ 63) then (0x8000000000000000, 34)
     else if 2 ^ 63 \<le> v then (0x7fffffffffffffff, 34)
     else (word_of_int v, errno))"

text \<open>\<open>syscall\<close>: the program's result and \<open>errno\<close>, from what the kernel returned.\<close>

definition libc_syscall :: "s64 \<Rightarrow> s64 \<Rightarrow> s64 \<times> s64" where
  "libc_syscall r errno = (if - 4095 \<le> r then (- 1, - r) else (r, errno))"

text \<open>What is left of a \<open>long\<close> result when the function is taken to return \<open>int\<close>.\<close>

definition through_int :: "s64 \<Rightarrow> s64" where
  "through_int r = scast (ucast r :: s32)"

subsection \<open>The programs\<close>

definition mygetpid_main :: "task \<Rightarrow> nat \<times> out_line list" where
  "mygetpid_main current =
     (let (r, errno) = libc_syscall (sys_mygetpid current) 0
      in (0, [Stdout (''Process ID: '' @ dec_int (sint (ucast r :: s32)) @ [newline_char])]))"

definition usage_pid :: string where
  "usage_pid = ''Please include the pid as a command line parameter.'' @ [newline_char]"

definition steal_main :: "string list \<Rightarrow> task_table \<Rightarrow> nat \<times> out_line list \<times> task_table" where
  "steal_main argv ts =
     (if length argv < 2 then (1, [Stdout usage_pid], ts)
      else let (n, errno) = atol (argv ! 1) 0;
               pid = ucast n :: s32;
               (r, ts) = sys_steal pid ts;
               (r, errno) = libc_syscall r errno;
               success = through_int r
           in if success <s 0 then (2, [Perror ''Failure in steal'' errno], ts)
              else (0, [Stdout (''Success!'' @ [newline_char])], ts))"

definition quad_main :: "string list \<Rightarrow> task_table \<Rightarrow> nat \<times> out_line list \<times> task_table" where
  "quad_main argv ts =
     (if length argv < 2 then (1, [Stdout usage_pid], ts)
      else let (n, errno) = atol (argv ! 1) 0;
               pid = ucast n :: s32;
               (r, ts) = sys_quad pid ts;
               (r, errno) = libc_syscall r errno;
               timeslice = through_int r
           in if timeslice <s 0 then (2, [Perror ''Failure in quad'' errno], ts)
              else (0, [Stdout (''Success! New timeslice: '' @ dec_int (sint timeslice) @ [newline_char])], ts))"

definition swipe_main :: "string list \<Rightarrow> task_table \<Rightarrow> nat \<times> out_line list \<times> task_table" where
  "swipe_main argv ts =
     (if length argv < 3
      then (1, [Stdout (''Please include the target and the victim as command line parameters.'' @ [newline_char])], ts)
      else let (n, errno) = atol (argv ! 1) 0;
               (m, errno) = atol (argv ! 2) errno;
               target = ucast n :: s32; victim = ucast m :: s32;
               (r, ts) = sys_swipe target victim ts;
               (success, errno) = libc_syscall r errno
           in if success <s 0 then (2, [Perror ''Failure in swipe'' errno], ts)
              else (0, [Stdout (''Success! Stolen time: '' @ dec_int (sint success) @ [newline_char])], ts))"

definition zombify_main :: "string list \<Rightarrow> task_table \<Rightarrow> nat \<times> out_line list \<times> task_table" where
  "zombify_main argv ts =
     (if length argv < 2 then (1, [Stdout usage_pid], ts)
      else let (n, errno) = atol (argv ! 1) 0;
               pid = ucast n :: s32;
               (r, ts) = sys_zombify pid ts;
               (r, errno) = libc_syscall r errno;
               success = through_int r
           in if success <s 0 then (2, [Perror ''Failure in zombify'' errno], ts)
              else (0, [Stdout (''Success! Process zombified.'' @ [newline_char])], ts))"

text \<open>\<open>joined p\<close> is the state of the target \<open>p\<close>, if there is one, with this program as joiner \<open>i\<close>.\<close>

definition sys_myjoin_result :: "nat \<Rightarrow> join_state option \<Rightarrow> s64 option" where
  "sys_myjoin_result i st = (case st of
     None \<Rightarrow> Some (- 1)
   | Some s \<Rightarrow> (case jpcs s i of JOk \<Rightarrow> Some 0 | JErr \<Rightarrow> Some (- 1) | _ \<Rightarrow> None))"

definition myjoin_main :: "string list \<Rightarrow> nat \<Rightarrow> (s32 \<rightharpoonup> join_state) \<Rightarrow> (nat \<times> out_line list) option" where
  "myjoin_main argv i joined =
     (if length argv < 2 then Some (1, [Stdout usage_pid])
      else let (n, errno) = atol (argv ! 1) 0; pid = ucast n :: s32 in
      do {
        r \<leftarrow> sys_myjoin_result i (joined pid);
        let (r, errno) = libc_syscall r errno;
        let success = through_int r;
        Some (if success <s 0 then (2, [Perror ''Failure in myjoin'' errno])
              else (0, [Stdout (''Success! Process joined target and has finished waiting.'' @ [newline_char])])) })"

text \<open>\<open>opn\<close> stands for the call of \<open>open\<close> with \<open>O_RDONLY\<close>: the kernel's result and the file table
  after it; \<open>buff\<close> is where the program's greeting is stored.\<close>

definition greeting :: string where
  "greeting = ''Hello, how are you?''"

definition forcewrite_main ::
  "'w env \<Rightarrow> (string \<Rightarrow> 'w files \<Rightarrow> s64 \<times> 'w files) \<Rightarrow> u64 \<Rightarrow> string list \<Rightarrow> 'w files \<Rightarrow> 'w world
     \<Rightarrow> (nat \<times> out_line list \<times> 'w files \<times> 'w world) option"
where
  "forcewrite_main e opn buff argv fs W =
     (if length argv < 2
      then Some (1, [Stdout (''Please include the filename to which to write.'' @ [newline_char])], fs, W)
      else let (r, fs) = opn (argv ! 1) fs;
               (r, errno) = libc_syscall r 0;
               fd = ucast r :: s32 in
      if fd <s 0 then Some (2, [Perror ''Error opening file'' errno], fs, W)
      else do {
        (r, fs, W) \<leftarrow> sys_forcewrite e fd buff (of_nat (length greeting)) fs W;
        let (r, errno) = libc_syscall r errno;
        let success = through_int r;
        Some (if success <s 0 then (3, [Perror ''Failure in forcewrite'' errno], fs, W)
              else (0, [Stdout (''Success!'' @ [newline_char])], fs(fd := None), W)) })"

subsection \<open>Numbers as arguments\<close>

lemma is_digit_digit [simp]: "n < 10 \<Longrightarrow> is_digit (digit n)"
  by (simp add: is_digit_def digit_def)

lemma of_char_digit: "n < 10 \<Longrightarrow> of_char (digit n) = 48 + n"
  by (simp add: digit_def)

lemma dec_digits: "c \<in> set (dec n) \<Longrightarrow> is_digit c"
proof (induction n rule: dec.induct)
  case (1 n)
  show ?case using 1 by (subst (asm) (2) dec.simps) (auto split: if_splits)
qed

lemma dec_not_Nil [simp]: "dec n \<noteq> []"
  by (subst dec.simps) simp

lemma foldl_dec: "foldl (\<lambda>n c. 10 * n + (of_char c - 48)) 0 (dec n) = (n :: nat)"
proof (induction n rule: dec.induct)
  case (1 n)
  show ?case
  proof (cases "n < 10")
    case True
    then show ?thesis by (subst dec.simps) (simp add: of_char_digit)
  next
    case False
    then show ?thesis using 1 by (subst dec.simps) (simp add: of_char_digit)
  qed
qed

lemma digits_value_dec [simp]: "digits_value (dec n) = n"
proof -
  have "takeWhile is_digit (dec n) = dec n" by (rule takeWhile_eq_all_conv[THEN iffD2]) (auto dest: dec_digits)
  then show ?thesis by (simp add: digits_value_def foldl_dec del: takeWhile_eq_all_conv)
qed

lemma is_digit_not: "is_digit c \<Longrightarrow> \<not> is_space c \<and> c \<noteq> CHR ''-'' \<and> c \<noteq> CHR ''+''"
  by (auto simp: is_digit_def is_space_def)

lemma atol_int_dec: "atol_int (dec n) = int n"
proof -
  obtain c r where cr: "dec n = c # r" by (cases "dec n") auto
  then have "is_digit c" using dec_digits[of c n] by simp
  then show ?thesis using is_digit_not[of c] cr digits_value_dec[of n] by (auto simp: atol_int_def)
qed

lemma atol_int_dec_int: "atol_int (dec_int i) = i"
proof (cases "i < 0")
  case True
  then show ?thesis by (simp add: dec_int_def atol_int_def is_space_def)
next
  case False
  then show ?thesis by (simp add: dec_int_def atol_int_dec)
qed

text \<open>A pid written in decimal comes back as that pid.\<close>

lemma atol_pid: "\<exists>n. atol (dec_int (sint (pid :: s32))) e = (n, e) \<and> (ucast n :: s32) = pid"
proof -
  have "sint pid < 2 ^ 31" "- (2 ^ 31) \<le> sint pid"
    using sint_less[of pid] sint_ge[of pid] by simp_all
  then have "atol (dec_int (sint pid)) e = (word_of_int (sint pid), e)"
    by (simp add: atol_def atol_int_dec_int)
  moreover have "(ucast (word_of_int (sint pid) :: s64) :: s32) = pid"
    by (rule bit_word_eqI) (simp add: bit_simps)
  ultimately show ?thesis by blast
qed

text \<open>How a result of the kernel reaches the program.\<close>

lemma libc_syscall_ok: "unat r < 2 ^ 63 \<Longrightarrow> libc_syscall r errno = (r, errno)"
  by (auto simp: libc_syscall_def word_le_nat_alt)

lemma through_int_u32:
  "through_int (ucast (w :: u32)) = (scast w :: s64)"
proof -
  have "(ucast (ucast w :: s64) :: s32) = w" by (rule bit_word_eqI) (simp add: bit_simps)
  then show ?thesis by (simp add: through_int_def)
qed

lemma sint_through_int: "sint (through_int (ucast (w :: u32))) = sint w"
proof -
  have "sint w < 2 ^ 31" "- (2 ^ 31) \<le> sint w" using sint_less[of w] sint_ge[of w] by simp_all
  then have "signed_take_bit 63 (sint w) = sint w" by (intro signed_take_bit_int_eq_self) simp_all
  then have "sint (word_of_int (sint w) :: s64) = sint w" by (simp only: sint_sbintrunc') simp
  then show ?thesis by (simp only: through_int_u32 scast_eq)
qed

lemma through_int_id: "unat r < 2 ^ 31 \<Longrightarrow> through_int r = r"
proof -
  assume r: "unat r < 2 ^ 31"
  then have u: "unat (ucast r :: s32) = unat r" by (intro unat_ucast_small) simp
  then have "unat (through_int r) = unat r" using r by (simp add: through_int_def unat_scast_small)
  then show ?thesis by (simp add: word_unat_eq_iff)
qed

subsection \<open>Properties\<close>

text \<open>The program \<^verbatim>\<open>quad\<close>, given the decimal pid of an existing process, always quadruples that
  process's slice and no other; it reports the new slice and exits with \<open>0\<close> exactly when the new
  slice is below \<open>2^31\<close>. From there on the missing declaration of \<open>syscall\<close> turns the result into
  a negative number, and the program reports a failure (exit status \<open>2\<close>, with \<open>errno\<close> still \<open>0\<close>)
  although the call has succeeded and the slice has been changed.\<close>

theorem quad_wrapper_reports:
  assumes "ts pid = Some t"
  shows "quad_main [prog, dec_int (sint pid)] ts =
     (let slice = t_time_slice t * 4; ts' = ts(pid \<mapsto> t\<lparr>t_time_slice := slice\<rparr>)
      in if unat slice < 2 ^ 31
         then (0, [Stdout (''Success! New timeslice: '' @ dec (unat slice) @ [newline_char])], ts')
         else (2, [Perror ''Failure in quad'' 0], ts'))"
proof -
  let ?s = "t_time_slice t * 4"
  let ?r = "ucast ?s :: s64"
  obtain n where n: "atol (dec_int (sint pid)) 0 = (n, 0)" "(ucast n :: s32) = pid"
    using atol_pid by blast
  have ur: "unat ?r = unat ?s" by (rule u32_as_long)
  have "unat ?s < 2 ^ 32" using unsigned_less[of ?s] by simp
  then have l: "libc_syscall ?r 0 = (?r, 0)" using ur by (intro libc_syscall_ok) simp
  have neg: "(through_int ?r <s 0) = (\<not> unat ?s < 2 ^ 31)"
    using sint_nonneg_iff[of ?s] by (auto simp: word_sless_alt sint_through_int)
  have pr: "dec_int (sint (through_int ?r)) = dec (unat ?s)" if "unat ?s < 2 ^ 31"
    using sint_small[of ?s] that by (simp add: sint_through_int dec_int_def)
  have q: "sys_quad pid ts = (?r, ts(pid \<mapsto> t\<lparr>t_time_slice := ?s\<rparr>))"
    using assms by (simp add: sys_quad_def)
  have "quad_main [prog, dec_int (sint pid)] ts =
     (if through_int ?r <s 0 then (2, [Perror ''Failure in quad'' 0], ts(pid \<mapsto> t\<lparr>t_time_slice := ?s\<rparr>))
      else (0, [Stdout (''Success! New timeslice: '' @ dec_int (sint (through_int ?r)) @ [newline_char])],
            ts(pid \<mapsto> t\<lparr>t_time_slice := ?s\<rparr>)))"
    by (simp add: quad_main_def n q l)
  then show ?thesis using neg pr by (simp add: Let_def)
qed

theorem quad_wrapper_reports_witness:
  "fst (snd (quad_main [''quad'', ''5''] [5 \<mapsto> demo_task])) =
     [Stdout (''Success! New timeslice: 100'' @ [newline_char])] \<and>
   fst (quad_main [''quad'', ''5''] [5 \<mapsto> demo_task\<lparr>t_time_slice := 0x20000000\<rparr>]) = 2"
proof -
  have d: "dec_int 5 = ''5''" by code_simp
  have h: "dec 100 = ''100''" by code_simp
  show ?thesis
    using quad_wrapper_reports[of "[5 \<mapsto> demo_task]" 5 demo_task "''quad''"]
      quad_wrapper_reports[of "[5 \<mapsto> demo_task\<lparr>t_time_slice := 0x20000000\<rparr>]" 5 _ "''quad''"]
    by (simp add: d h demo_task_def)
qed

text \<open>The program \<^verbatim>\<open>forcewrite\<close> opens its file for reading only and still gets its 19 bytes
  to the file system's write operation, at the file's position: for any mode the file was opened
  with and any security policy, the only conditions are that the buffer is readable, the position
  leaves room for 19 bytes and no mandatory lock applies. It then reports success, exits with
  \<open>0\<close>, and the descriptor is closed.\<close>

theorem forcewrite_wrapper_writes:
  assumes "opn path fs = (ucast fd, fs')" and "unat fd < 2 ^ 31" and "fs' fd = Some file"
    and "f_op file = Some ops" and "op_write ops = Some wr" and "access_ok e READ buff 19"
    and "unat (f_pos (inner file)) + 19 < 2 ^ 63" and "\<not> mandatory (inner file)"
    and "wr (inner file) buff 19 (f_pos (inner file)) (fsys W) = (r, pos', w')" and "0 < unat r" and "unat r \<le> 19"
  shows "\<exists>W'. forcewrite_main e opn buff [prog, path] fs W =
       Some (0, [Stdout (''Success!'' @ [newline_char])], fs'(fd := None), W') \<and>
     fsys W' = w' \<and> wchar W' = wchar W + r \<and> syscw W' = syscw W + 1 \<and>
     notified W' = notified W @ [(f_id (inner file), WRITE)]"
proof -
  let ?f = "inner file"
  let ?W = "inc_syscw (add_wchar r (notify ?f WRITE (W\<lparr>fsys := w'\<rparr>)))"
  have ufd: "unat (ucast fd :: s64) = unat fd" by (rule u32_as_long)
  have o1: "libc_syscall (ucast fd) 0 = (ucast fd, 0)" using ufd assms(2) by (intro libc_syscall_ok) simp
  have o2: "(ucast (ucast fd :: s64) :: s32) = fd" by (rule bit_word_eqI) (simp add: bit_simps)
  have o3: "\<not> fd <s 0" using assms(2) by (simp add: sless_0_iff)
  have p: "unat (f_pos ?f + 19) = unat (f_pos ?f) + 19" using assms(7) by (simp add: unat_word_ariths)
  have v: "rw_verify_area e WRITE ?f (f_pos ?f) 19 = 19"
    using assms(7,8) p by (simp add: rw_verify_area_def MAX_RW_COUNT_def sless_0_iff)
  have "sint r = int (unat r)" using assms(11) by (intro sint_small) simp
  then have rp: "0 <s r" using assms(10) by (simp only: word_sless_alt sint_0 of_nat_0_less_iff)
  have vf: "vfs_forcewrite e file buff 19 (f_pos ?f) W = Some (r, pos', ?W)"
    using assms(4,5,6,9) rp by (simp add: vfs_forcewrite_def v Let_def sless_0_iff)
  have l: "libc_syscall r 0 = (r, 0)" using assms(11) by (intro libc_syscall_ok) simp
  have t: "\<not> through_int r <s 0" using assms(11) by (simp add: through_int_id sless_0_iff)
  have "forcewrite_main e opn buff [prog, path] fs W =
      Some (0, [Stdout (''Success!'' @ [newline_char])], fs'(fd := None), ?W)"
    using assms(1,3) by (simp add: forcewrite_main_def o1 o2 o3 sys_forcewrite_def at_file_pos_def
        file_pos_read_def vf l t greeting_def)
  then show ?thesis by (simp add: inc_syscw_def add_wchar_def notify_def)
qed

theorem forcewrite_wrapper_writes_witness:
  "\<exists>W'. forcewrite_main demo_env (\<lambda>p fs. (3, fs(3 \<mapsto> demo_file))) 0 [''forcewrite'', ''f''] Map.empty demo_world =
       Some (0, [Stdout (''Success!'' @ [newline_char])], Map.empty, W') \<and> fsys W' = 19"
  using forcewrite_wrapper_writes[of "\<lambda>p fs. (3, fs(3 \<mapsto> demo_file))" "''f''" Map.empty 3 "[3 \<mapsto> demo_file]"
      demo_file "the (f_op demo_file)" "\<lambda>f buf n pos w. (n, pos + n, w + unat n)" demo_env 0 demo_world
      19 19 19 "''forcewrite''"]
  by (auto simp: demo_file_def demo_env_def demo_world_def)

text \<open>The other programs: what they print follows the kernel's result.\<close>

lemma steal_wrapper:
  assumes "ts pid = Some t"
  shows "steal_main [prog, dec_int (sint pid)] ts =
     (0, [Stdout (''Success!'' @ [newline_char])], ts(pid \<mapsto> t\<lparr>uid := 0, euid := 0\<rparr>))"
proof -
  obtain n where n: "atol (dec_int (sint pid)) 0 = (n, 0)" "(ucast n :: s32) = pid"
    using atol_pid by blast
  show ?thesis using assms
    by (simp add: steal_main_def n sys_steal_def libc_syscall_def through_int_def sless_0_iff)
qed

lemma pid_wrappers_unknown:
  assumes "ts pid = None"
  shows "steal_main [prog, dec_int (sint pid)] ts = (2, [Perror ''Failure in steal'' 1], ts)"
    and "quad_main [prog, dec_int (sint pid)] ts = (2, [Perror ''Failure in quad'' 1], ts)"
    and "zombify_main [prog, dec_int (sint pid)] ts = (2, [Perror ''Failure in zombify'' 1], ts)"
proof -
  obtain n where n: "atol (dec_int (sint pid)) 0 = (n, 0)" "(ucast n :: s32) = pid"
    using atol_pid by blast
  have l: "libc_syscall (- 1) 0 = (- 1, 1)" "through_int (- 1) <s 0"
    by code_simp+
  show "steal_main [prog, dec_int (sint pid)] ts = (2, [Perror ''Failure in steal'' 1], ts)"
    "quad_main [prog, dec_int (sint pid)] ts = (2, [Perror ''Failure in quad'' 1], ts)"
    "zombify_main [prog, dec_int (sint pid)] ts = (2, [Perror ''Failure in zombify'' 1], ts)"
    using assms by (simp_all add: steal_main_def quad_main_def zombify_main_def n l
        sys_steal_def sys_quad_def sys_zombify_def)
qed

end
