(* ===== verification/Fat12.thy ===== *)
theory Fat12
  imports Prelude
begin

text \<open>
  The FAT12 reader, \<^verbatim>\<open>FAT12/src/fat12.c\<close> with the declarations of \<^verbatim>\<open>fat12.h\<close>: reading the boot
  sector, the allocation table and the root directory. The listing and extraction parts are in
  the theories \<open>Fat12_Print\<close> and \<open>Fat12_Extract\<close>.

  The input file is a \<open>disk\<close>: its bytes, the positions at which \<^verbatim>\<open>read\<close> reports an error, what
  uninitialised memory holds, and for which sizes \<^verbatim>\<open>malloc\<close> succeeds. A reading function maps the
  file position to an outcome: \<open>None\<close> if it writes outside an allocated object, \<open>Failure\<close> if the C
  function returns \<open>0\<close>, and otherwise the value it stored and the new position. \<^verbatim>\<open>read\<close> near the end
  of the file delivers fewer bytes than asked for and is no failure for \<^verbatim>\<open>bool_read\<close>: the rest of
  the destination keeps what it held. All destinations are uninitialised before their only read.
  Signed 32-bit arithmetic wraps, as in the code the build's compiler makes of it.
\<close>

subsection \<open>Data\<close>

record boot_t =
  jmp_boot :: "u8 list"
  oem_name :: "u8 list"
  bytes_per_sector :: u16
  sectors_per_cluster :: u8
  reserved_sectors :: u16
  fat_copies :: u8
  max_root_dir_entries :: u16
  total_sectors :: u16
  media_type :: u8
  sectors_per_fat :: u16
  sectors_per_track :: u16
  num_heads :: u16
  num_hidden :: u16
  bootstrap :: "u8 list"
  signature :: "u8 list"

record direntry_t =
  filename :: "u8 list"
  extension :: "u8 list"
  attributes :: u8
  reserved_bytes :: "u8 list"
  time :: u16
  date :: u16
  start_cluster :: u16
  filesize :: u32

text \<open>The pointers of \<^verbatim>\<open>fat12_t\<close> become the arrays they point to: the table entries, the directory
  entries that were read, and the index of the volume label, if one was found.\<close>

record fat12_t =
  boot :: boot_t
  media_descriptor :: u8
  eof_marker :: u16
  fat_entries :: "u16 list"
  root_dir_entries :: "direntry_t list"
  volume_label :: "nat option"

record disk =
  image :: "u8 list"
  read_error :: "nat \<Rightarrow> bool"
  stale :: "nat \<Rightarrow> nat \<Rightarrow> u8"
  malloc_ok :: "nat \<Rightarrow> bool"

datatype 'a attempt = Failure | Success 'a nat

type_synonym 'a rd = "disk \<Rightarrow> nat \<Rightarrow> 'a attempt option"

definition BOOT_MEMBER_SIZE :: nat where "BOOT_MEMBER_SIZE = 512"
definition DIR_ENTRY_MEMBER_SIZE :: nat where "DIR_ENTRY_MEMBER_SIZE = 32"
definition MAX_FILE_NAME :: nat where "MAX_FILE_NAME = 8"
definition MAX_EXTENSION :: nat where "MAX_EXTENSION = 3"
definition FILE_DELETED :: u8 where "FILE_DELETED = 0xe5"
definition ENTRY_FREE :: u8 where "ENTRY_FREE = 0"
definition READ_ONLY :: u8 where "READ_ONLY = 1"
definition VOLUME_LABEL :: u8 where "VOLUME_LABEL = 8"

text \<open>Sequencing: the C functions are chained with \<open>&&\<close>.\<close>

definition rreturn :: "'a \<Rightarrow> 'a rd" where
  "rreturn x d pos = Some (Success x pos)"

definition rbind :: "'a rd \<Rightarrow> ('a \<Rightarrow> 'b rd) \<Rightarrow> 'b rd" where
  "rbind m f d pos = (case m d pos of
     None \<Rightarrow> None
   | Some Failure \<Rightarrow> Some Failure
   | Some (Success x pos) \<Rightarrow> f x d pos)"

definition rfail :: "'a rd" where
  "rfail d pos = Some Failure"

definition rfault :: "'a rd" where
  "rfault d pos = None"

text \<open>Little-endian integers in memory.\<close>

primrec word_of_le :: "u8 list \<Rightarrow> 'a::len word" where
  "word_of_le [] = 0"
| "word_of_le (b # bs) = ucast b OR push_bit 8 (word_of_le bs)"

subsection \<open>Reading helper functions\<close>

definition bool_read :: "nat \<Rightarrow> u8 list rd" where
  "bool_read n d pos =
     (if read_error d pos then Some Failure
      else let got = take n (drop pos (image d))
           in Some (Success (got @ map (stale d pos) [length got..<n]) (pos + length got)))"

definition bool_seek :: "u64 \<Rightarrow> unit rd" where
  "bool_seek n d pos =
     (let new = int pos + sint n
      in if 0 \<le> new \<and> new < 2 ^ 63 then Some (Success () (nat new)) else Some Failure)"

definition read_uint8 :: "u8 rd" where
  "read_uint8 = rbind (bool_read 1) (\<lambda>bs. rreturn (word_of_le bs))"

definition read_uint16_little_endian :: "u16 rd" where
  "read_uint16_little_endian = rbind (bool_read 2) (\<lambda>bs. rreturn (word_of_le bs))"

definition read_uint32_little_endian :: "u32 rd" where
  "read_uint32_little_endian = rbind (bool_read 4) (\<lambda>bs. rreturn (word_of_le bs))"

definition read_twelve_bits_twice :: "(u16 \<times> u16) rd" where
  "read_twelve_bits_twice = rbind (bool_read 3) (\<lambda>tmp. rreturn
     (push_bit 8 (ucast (tmp ! 1) AND 0x0f) OR ucast (tmp ! 0),
      push_bit 4 (ucast (tmp ! 2)) OR drop_bit 4 (ucast (tmp ! 1) AND 0xf0)))"

subsection \<open>Boot sector functions\<close>

definition skip_remaining_boot_sector :: "boot_t \<Rightarrow> unit rd" where
  "skip_remaining_boot_sector b =
     (let boot_sector_remaining = word_of_int (uint (bytes_per_sector b) - int BOOT_MEMBER_SIZE)
      in bool_seek boot_sector_remaining)"

definition read_boot_sector :: "boot_t rd" where
  "read_boot_sector =
     rbind (bool_read 3) (\<lambda>jmp.
     rbind (bool_read 8) (\<lambda>oem.
     rbind read_uint16_little_endian (\<lambda>bps.
     rbind read_uint8 (\<lambda>spc.
     rbind read_uint16_little_endian (\<lambda>res.
     rbind read_uint8 (\<lambda>copies.
     rbind read_uint16_little_endian (\<lambda>maxroot.
     rbind read_uint16_little_endian (\<lambda>total.
     rbind read_uint8 (\<lambda>media.
     rbind read_uint16_little_endian (\<lambda>spf.
     rbind read_uint16_little_endian (\<lambda>spt.
     rbind read_uint16_little_endian (\<lambda>heads.
     rbind read_uint16_little_endian (\<lambda>hidden.
     rbind (bool_read 480) (\<lambda>strap.
     rbind (bool_read 2) (\<lambda>sig.
     let b = \<lparr>jmp_boot = jmp, oem_name = oem, bytes_per_sector = bps, sectors_per_cluster = spc,
          reserved_sectors = res, fat_copies = copies, max_root_dir_entries = maxroot,
          total_sectors = total, media_type = media, sectors_per_fat = spf,
          sectors_per_track = spt, num_heads = heads, num_hidden = hidden,
          bootstrap = strap, signature = sig\<rparr>
     in rbind (skip_remaining_boot_sector b) (\<lambda>_. rreturn b))))))))))))))))"

definition skip_reserved_sectors :: "boot_t \<Rightarrow> unit rd" where
  "skip_reserved_sectors b =
     (let reserved_sector_bytes =
            (ucast (reserved_sectors b) - 1) * ucast (bytes_per_sector b) :: u32
      in bool_seek (ucast reserved_sector_bytes))"

subsection \<open>Directory entry functions\<close>

definition is_volume_label :: "direntry_t \<Rightarrow> bool" where
  "is_volume_label e \<longleftrightarrow> attributes e AND VOLUME_LABEL \<noteq> 0"

definition is_entry_free :: "direntry_t \<Rightarrow> bool" where
  "is_entry_free e \<longleftrightarrow> filename e ! 0 = ENTRY_FREE"

definition is_entry_deleted :: "direntry_t \<Rightarrow> bool" where
  "is_entry_deleted e \<longleftrightarrow> filename e ! 0 = FILE_DELETED"

definition is_regular_entry :: "direntry_t \<Rightarrow> bool" where
  "is_regular_entry e \<longleftrightarrow> \<not> is_volume_label e \<and> \<not> is_entry_deleted e"

definition read_directory_entry :: "direntry_t rd" where
  "read_directory_entry =
     rbind (bool_read MAX_FILE_NAME) (\<lambda>name.
     rbind (bool_read MAX_EXTENSION) (\<lambda>ext.
     rbind read_uint8 (\<lambda>attr.
     rbind (bool_read 10) (\<lambda>res.
     rbind read_uint16_little_endian (\<lambda>tm.
     rbind read_uint16_little_endian (\<lambda>dt.
     rbind read_uint16_little_endian (\<lambda>start.
     rbind read_uint32_little_endian (\<lambda>size.
     rreturn \<lparr>filename = name, extension = ext, attributes = attr, reserved_bytes = res,
       time = tm, date = dt, start_cluster = start, filesize = size\<rparr>))))))))"

text \<open>The loop of \<^verbatim>\<open>read_root_directory\<close>: \<open>n\<close> entries to go, \<open>es\<close> those read, \<open>label\<close> the volume
  label so far.\<close>

fun read_entries :: "nat \<Rightarrow> direntry_t list \<Rightarrow> nat option \<Rightarrow> (direntry_t list \<times> nat option) rd" where
  "read_entries 0 es label = rreturn (es, label)"
| "read_entries (Suc n) es label =
     rbind read_directory_entry (\<lambda>e.
       if is_entry_free e then rreturn (es @ [e], label)
       else read_entries n (es @ [e]) (if is_volume_label e then Some (length es) else label))"

text \<open>The structure has \<open>32\<close> bytes in memory: its members are aligned without padding.\<close>

definition SIZEOF_DIRENTRY :: nat where "SIZEOF_DIRENTRY = 32"

definition read_root_directory :: "boot_t \<Rightarrow> (direntry_t list \<times> nat option) rd" where
  "read_root_directory b d =
     (if malloc_ok d (unat (max_root_dir_entries b) * SIZEOF_DIRENTRY)
      then read_entries (unat (max_root_dir_entries b)) [] None d
      else rfail d)"

subsection \<open>The allocation table\<close>

definition bytes_per_fat :: "boot_t \<Rightarrow> u32" where
  "bytes_per_fat b = ucast (sectors_per_fat b) * ucast (bytes_per_sector b)"

definition num_fat_entries :: "boot_t \<Rightarrow> u32" where
  "num_fat_entries b = bytes_per_fat b * 2 div 3 - 2"

text \<open>The loop: \<open>i\<close> is \<open>length acc\<close>, a signed 32-bit integer. Both results of a step are stored into
  the array of \<open>num\<close> entries.\<close>

function read_fat_entries :: "nat \<Rightarrow> nat \<Rightarrow> u16 list \<Rightarrow> u16 list rd" where
  "read_fat_entries num i acc =
     (if i < num
      then rbind read_twelve_bits_twice (\<lambda>(a, b).
             if i + 1 < num \<and> i + 2 < 2 ^ 31 then read_fat_entries num (i + 2) (acc @ [a, b]) else rfault)
      else rreturn acc)"
  by pat_completeness auto
termination by (relation "measure (\<lambda>(num, i, _). num - i)") auto

declare read_fat_entries.simps [simp del]

definition read_file_allocation_tables :: "boot_t \<Rightarrow> (u8 \<times> u16 \<times> u16 list) rd" where
  "read_file_allocation_tables b =
     rbind read_twelve_bits_twice (\<lambda>(media, eof).
       let num = unat (num_fat_entries b)
       in (\<lambda>d. if malloc_ok d (num * 2)
            then rbind (read_fat_entries num 0 []) (\<lambda>fat.
                 rbind (bool_seek (ucast ((ucast (fat_copies b) - 1) * bytes_per_fat b))) (\<lambda>_.
                   rreturn (ucast media, eof, fat))) d
            else rfail d))"

definition read_fat12 :: "fat12_t rd" where
  "read_fat12 =
     rbind read_boot_sector (\<lambda>b.
     rbind (skip_reserved_sectors b) (\<lambda>_.
     rbind (read_file_allocation_tables b) (\<lambda>(media, eof, fat).
     rbind (read_root_directory b) (\<lambda>(entries, label).
     rreturn \<lparr>boot = b, media_descriptor = media, eof_marker = eof, fat_entries = fat,
       root_dir_entries = entries, volume_label = label\<rparr>))))"

subsection \<open>Images: what the bytes of a file system are\<close>

text \<open>The inverse of the reading functions, from the layout documented in \<^verbatim>\<open>fat12.h\<close>.\<close>

primrec le_bytes :: "nat \<Rightarrow> 'a::len word \<Rightarrow> u8 list" where
  "le_bytes 0 w = []"
| "le_bytes (Suc n) w = ucast w # le_bytes n (drop_bit 8 w)"

definition enc12 :: "u16 \<Rightarrow> u16 \<Rightarrow> u8 list" where
  "enc12 a b = [ucast a, ucast (drop_bit 8 a) OR push_bit 4 (ucast b), ucast (drop_bit 4 b)]"

fun enc12s :: "u16 list \<Rightarrow> u8 list" where
  "enc12s (a # b # es) = enc12 a b @ enc12s es"
| "enc12s _ = []"

definition enc_boot :: "boot_t \<Rightarrow> u8 list" where
  "enc_boot b = jmp_boot b @ oem_name b @ le_bytes 2 (bytes_per_sector b) @
     le_bytes 1 (sectors_per_cluster b) @ le_bytes 2 (reserved_sectors b) @
     le_bytes 1 (fat_copies b) @ le_bytes 2 (max_root_dir_entries b) @
     le_bytes 2 (total_sectors b) @ le_bytes 1 (media_type b) @ le_bytes 2 (sectors_per_fat b) @
     le_bytes 2 (sectors_per_track b) @ le_bytes 2 (num_heads b) @ le_bytes 2 (num_hidden b) @
     bootstrap b @ signature b"

definition boot_ok :: "boot_t \<Rightarrow> bool" where
  "boot_ok b \<longleftrightarrow> length (jmp_boot b) = 3 \<and> length (oem_name b) = 8 \<and> length (bootstrap b) = 480 \<and>
     length (signature b) = 2"

definition enc_direntry :: "direntry_t \<Rightarrow> u8 list" where
  "enc_direntry e = filename e @ extension e @ le_bytes 1 (attributes e) @ reserved_bytes e @
     le_bytes 2 (time e) @ le_bytes 2 (date e) @ le_bytes 2 (start_cluster e) @
     le_bytes 4 (filesize e)"

definition direntry_ok :: "direntry_t \<Rightarrow> bool" where
  "direntry_ok e \<longleftrightarrow> length (filename e) = MAX_FILE_NAME \<and> length (extension e) = MAX_EXTENSION \<and>
     length (reserved_bytes e) = 10"

text \<open>A directory as it is read: free entries mark its end, and the last label counts.\<close>

definition dir_ok :: "nat \<Rightarrow> direntry_t list \<Rightarrow> bool" where
  "dir_ok n es \<longleftrightarrow> (\<forall>e \<in> set es. direntry_ok e) \<and>
     ((length es = n \<and> (\<forall>e \<in> set es. \<not> is_entry_free e)) \<or>
      (\<exists>es' e. es = es' @ [e] \<and> length es \<le> n \<and> is_entry_free e \<and> (\<forall>e \<in> set es'. \<not> is_entry_free e)))"

definition label_of :: "direntry_t list \<Rightarrow> nat option" where
  "label_of es =
     (let ls = filter (\<lambda>i. is_volume_label (es ! i) \<and> \<not> is_entry_free (es ! i)) [0..<length es]
      in if ls = [] then None else Some (last ls))"

text \<open>A disk without errors, and the bytes at a position of it.\<close>

definition usable :: "disk \<Rightarrow> bool" where
  "usable d \<longleftrightarrow> (\<forall>p. \<not> read_error d p) \<and> (\<forall>n. malloc_ok d n) \<and> length (image d) < 2 ^ 63"

definition holds_at :: "disk \<Rightarrow> nat \<Rightarrow> u8 list \<Rightarrow> bool" where
  "holds_at d pos bs \<longleftrightarrow>
     pos + length bs \<le> length (image d) \<and> take (length bs) (drop pos (image d)) = bs"

text \<open>\<open>reads m bs x\<close>: reading function \<open>m\<close> consumes exactly the bytes \<open>bs\<close> and yields \<open>x\<close>.\<close>

definition reads :: "'a rd \<Rightarrow> u8 list \<Rightarrow> 'a \<Rightarrow> bool" where
  "reads m bs x \<longleftrightarrow> (\<forall>d pos. usable d \<and> holds_at d pos bs \<longrightarrow> m d pos = Some (Success x (pos + length bs)))"

named_theorems reads_intros \<open>which bytes a reading function consumes\<close>

subsection \<open>Decoding is the inverse of the layout\<close>

lemma length_le_bytes [simp]: "length (le_bytes n w) = n"
  by (induction n arbitrary: w) auto

lemma word_of_le_le_bytes: "word_of_le (le_bytes n w) = take_bit (8 * n) w"
proof (induction n arbitrary: w)
  case (Suc n)
  show ?case
    by (rule bit_eqI)
       (auto simp: Suc bit_or_iff bit_push_bit_iff bit_take_bit_iff bit_drop_bit_eq bit_unsigned_iff
         dest: bit_imp_le_length)
qed simp

lemma word_of_le_le_bytes_id [simp]: "LENGTH('a) \<le> 8 * n \<Longrightarrow> word_of_le (le_bytes n w) = (w :: 'a::len word)"
  by (simp add: word_of_le_le_bytes take_bit_word_eq_self)

lemma length_enc12 [simp]: "length (enc12 a b) = 3"
  by (simp add: enc12_def)

lemma length_enc12s: "even (length es) \<Longrightarrow> length (enc12s es) = 3 * (length es div 2)"
  by (induction es rule: enc12s.induct) auto

lemma holds_at_append:
  "holds_at d pos (bs @ cs) \<longleftrightarrow> holds_at d pos bs \<and> holds_at d (pos + length bs) cs"
proof
  assume h: "holds_at d pos (bs @ cs)"
  let ?r = "drop pos (image d)"
  have e: "take (length bs + length cs) ?r = bs @ cs" and le: "pos + (length bs + length cs) \<le> length (image d)"
    using h by (simp_all add: holds_at_def)
  have "take (length bs) ?r = take (length bs) (take (length bs + length cs) ?r)" by simp
  then have 1: "take (length bs) ?r = bs" using e by simp
  have "drop (length bs) (take (length bs + length cs) ?r) = cs" using e by simp
  then have "take (length cs) (drop (length bs) ?r) = cs" by (simp add: drop_take)
  with 1 show "holds_at d pos bs \<and> holds_at d (pos + length bs) cs"
    using le by (simp add: holds_at_def add.commute)
next
  assume "holds_at d pos bs \<and> holds_at d (pos + length bs) cs"
  then show "holds_at d pos (bs @ cs)" by (auto simp: holds_at_def take_add ac_simps)
qed

subsection \<open>A calculus of reading functions\<close>

lemma reads_bind [reads_intros]:
  assumes "reads m bs x" and "reads (f x) cs y"
  shows "reads (rbind m f) (bs @ cs) y"
  using assms by (simp add: reads_def rbind_def holds_at_append add.assoc)

lemma reads_return [reads_intros]: "reads (rreturn x) [] x"
  by (simp add: reads_def rreturn_def)

lemma reads_bind_last: "reads m bs x \<Longrightarrow> reads (f x) [] y \<Longrightarrow> reads (rbind m f) bs y"
  using reads_bind[of m bs x f "[]" y] by simp

lemma reads_bind_return: "reads m bs x \<Longrightarrow> reads (rbind m (\<lambda>x. rreturn (f x))) bs (f x)"
  by (erule reads_bind_last) (rule reads_return)

lemma reads_bool_read [reads_intros]: "n = length bs \<Longrightarrow> reads (bool_read n) bs bs"
  by (auto simp: reads_def bool_read_def usable_def holds_at_def)

lemma reads_uint [reads_intros]:
  "reads read_uint8 (le_bytes 1 w8) w8"
  "reads read_uint16_little_endian (le_bytes 2 w16) w16"
  "reads read_uint32_little_endian (le_bytes 4 w32) w32"
  unfolding read_uint8_def read_uint16_little_endian_def read_uint32_little_endian_def
  using reads_bind_return[OF reads_bool_read[OF refl], of "le_bytes 1 w8" "word_of_le :: _ \<Rightarrow> u8"]
    reads_bind_return[OF reads_bool_read[OF refl], of "le_bytes 2 w16" "word_of_le :: _ \<Rightarrow> u16"]
    reads_bind_return[OF reads_bool_read[OF refl], of "le_bytes 4 w32" "word_of_le :: _ \<Rightarrow> u32"]
  by simp_all

lemma dec12:
  fixes a b :: u16
  assumes "take_bit 12 a = a" "take_bit 12 b = b"
  shows "push_bit 8 (ucast (ucast (drop_bit 8 a) OR push_bit 4 (ucast b) :: u8) AND 0x0f) OR ucast (ucast a :: u8) = a"
    and "push_bit 4 (ucast (ucast (drop_bit 4 b) :: u8)) OR
      drop_bit 4 (ucast (ucast (drop_bit 8 a) OR push_bit 4 (ucast b) :: u8) AND 0xf0) = b"
proof -
  have m: "(0x0f :: u16) = mask 4" "(0xf0 :: u16) = push_bit 4 (mask 4)"
    by (simp_all add: mask_eq_exp_minus_1 push_bit_eq_mult)
  have a: "bit a i \<Longrightarrow> i < 12" and b: "bit b i \<Longrightarrow> i < 12" for i
    using assms by (metis bit_take_bit_iff)+
  have a': "\<not> bit a (12 + n)" for n using a[of "12 + n"] by auto
  show "push_bit 8 (ucast (ucast (drop_bit 8 a) OR push_bit 4 (ucast b) :: u8) AND 0x0f) OR ucast (ucast a :: u8) = a"
    unfolding m
    by (rule bit_eqI) (auto simp: bit_simps dest: a)
  show "push_bit 4 (ucast (ucast (drop_bit 4 b) :: u8)) OR
      drop_bit 4 (ucast (ucast (drop_bit 8 a) OR push_bit 4 (ucast b) :: u8) AND 0xf0) = b"
    unfolding m
  proof (rule bit_eqI)
    fix n
    show "bit (push_bit 4 (ucast (ucast (drop_bit 4 b) :: u8)) OR
      drop_bit 4 (ucast (ucast (drop_bit 8 a) OR push_bit 4 (ucast b) :: u8) AND push_bit 4 (mask 4)) :: u16) n = bit b n"
      by (cases "n < 4") (auto simp: bit_simps a' dest: b)
  qed
qed

lemma reads_twelve [reads_intros]:
  assumes "take_bit 12 a = a" "take_bit 12 b = b"
  shows "reads read_twelve_bits_twice (enc12 a b) (a, b)"
proof -
  let ?f = "\<lambda>tmp :: u8 list. (push_bit 8 (ucast (tmp ! 1) AND 0x0f) OR ucast (tmp ! 0) :: u16,
      push_bit 4 (ucast (tmp ! 2)) OR drop_bit 4 (ucast (tmp ! 1) AND 0xf0) :: u16)"
  have "?f (enc12 a b) = (a, b)" using dec12[OF assms] by (simp add: enc12_def)
  then show ?thesis
    unfolding read_twelve_bits_twice_def
    using reads_bind_return[OF reads_bool_read[of 3 "enc12 a b"], of ?f] by simp
qed

lemma reads_seek [reads_intros]:
  assumes "unat n = length bs"
  shows "reads (bool_seek n) bs ()"
  unfolding reads_def
proof (intro allI impI)
  fix d pos
  assume "usable d \<and> holds_at d pos bs"
  then have "pos + length bs < 2 ^ 63" by (auto simp: usable_def holds_at_def)
  moreover from this have "sint n = int (length bs)" using assms by (subst sint_small) auto
  ultimately show "bool_seek n d pos = Some (Success () (pos + length bs))"
    by (simp add: bool_seek_def flip: of_nat_add)
qed

lemma boot_t_eta [simp]:
  "\<lparr>jmp_boot = jmp_boot b, oem_name = oem_name b, bytes_per_sector = bytes_per_sector b,
    sectors_per_cluster = sectors_per_cluster b, reserved_sectors = reserved_sectors b,
    fat_copies = fat_copies b, max_root_dir_entries = max_root_dir_entries b,
    total_sectors = total_sectors b, media_type = media_type b, sectors_per_fat = sectors_per_fat b,
    sectors_per_track = sectors_per_track b, num_heads = num_heads b, num_hidden = num_hidden b,
    bootstrap = bootstrap b, signature = signature b\<rparr> = b"
  by (cases b) simp

lemma direntry_t_eta [simp]:
  "\<lparr>filename = filename e, extension = extension e, attributes = attributes e,
    reserved_bytes = reserved_bytes e, time = time e, date = date e,
    start_cluster = start_cluster e, filesize = filesize e\<rparr> = e"
  by (cases e) simp

lemma reads_boot_sector:
  assumes "boot_ok b" and "512 \<le> unat (bytes_per_sector b)" and "length pad = unat (bytes_per_sector b) - 512"
  shows "reads read_boot_sector (enc_boot b @ pad) b"
proof -
  have lt: "unat (bytes_per_sector b) < 65536" using unsigned_less[of "bytes_per_sector b", where 'a = nat] by simp
  have "uint (bytes_per_sector b) - 512 = int (length pad)" using assms(2,3) by simp
  then have skip: "reads (skip_remaining_boot_sector b) pad ()"
    unfolding skip_remaining_boot_sector_def BOOT_MEMBER_SIZE_def Let_def
    using lt assms(3) by (intro reads_seek) (simp add: take_bit_nat_eq_self_iff unsigned_of_nat)
  have "reads read_boot_sector (enc_boot b @ pad @ []) b"
    unfolding read_boot_sector_def enc_boot_def append_assoc
    by (rule reads_bind reads_uint | rule reads_bool_read, use assms(1) in \<open>simp add: boot_ok_def\<close>)+
       (simp add: Let_def, rule reads_bind_return[OF skip, of "\<lambda>_. b"])
  then show ?thesis by simp
qed

lemma reads_directory_entry [reads_intros]:
  assumes "direntry_ok e"
  shows "reads read_directory_entry (enc_direntry e) e"
proof -
  have "reads read_directory_entry (enc_direntry e @ []) e"
    unfolding read_directory_entry_def enc_direntry_def append_assoc
    by (rule reads_bind reads_uint | rule reads_bool_read, use assms in \<open>simp add: direntry_ok_def\<close>)+
       (simp add: reads_return)
  then show ?thesis by simp
qed

text \<open>The directory loop, with the accumulated entries.\<close>

definition labels_from :: "nat \<Rightarrow> direntry_t list \<Rightarrow> nat list" where
  "labels_from k es = filter (\<lambda>i. is_volume_label (es ! i) \<and> \<not> is_entry_free (es ! i)) [k..<length es]"

lemma labels_from_step:
  assumes "\<not> is_entry_free e"
  shows "labels_from (length acc) (acc @ e # es) =
     (if is_volume_label e then [length acc] else []) @ labels_from (length (acc @ [e])) ((acc @ [e]) @ es)"
proof -
  have "[length acc..<length (acc @ e # es)] = length acc # [length (acc @ [e])..<length ((acc @ [e]) @ es)]"
    by (subst upt_conv_Cons) simp_all
  then show ?thesis unfolding labels_from_def using assms by simp
qed

lemma reads_entries:
  assumes "dir_ok n es"
  shows "reads (read_entries n acc label) (concat (map enc_direntry es))
     (acc @ es, let ls = labels_from (length acc) (acc @ es) in if ls = [] then label else Some (last ls))"
  using assms
proof (induction es arbitrary: n acc label)
  case Nil
  then have "n = 0" by (simp add: dir_ok_def)
  then show ?case by (simp add: labels_from_def reads_return)
next
  case (Cons e es)
  then obtain m where n: "n = Suc m" by (cases n) (auto simp: dir_ok_def)
  have ok: "direntry_ok e" using Cons.prems by (simp add: dir_ok_def)
  show ?case
  proof (cases "is_entry_free e")
    case True
    then have [simp]: "es = []" using Cons.prems by (auto simp: dir_ok_def Cons_eq_append_conv)
    have "labels_from (length acc) (acc @ [e]) = []" using True by (simp add: labels_from_def)
    then have "reads (rbind read_directory_entry (\<lambda>e.
        if is_entry_free e then rreturn (acc @ [e], label)
        else read_entries m (acc @ [e]) (if is_volume_label e then Some (length acc) else label)))
       (enc_direntry e @ []) (acc @ [e], label)"
      using True by (intro reads_bind[OF reads_directory_entry[OF ok]]) (simp add: reads_return)
    then show ?thesis using \<open>labels_from (length acc) (acc @ [e]) = []\<close> n by simp
  next
    case False
    have "dir_ok m es" using Cons.prems False n by (auto simp: dir_ok_def Cons_eq_append_conv)
    from Cons.IH[OF this, of "acc @ [e]" "if is_volume_label e then Some (length acc) else label"] False
    show ?thesis
      unfolding n read_entries.simps labels_from_step[OF False] list.map concat.simps
      by (intro reads_bind[OF reads_directory_entry[OF ok]]) (auto simp: Let_def split: if_splits)
  qed
qed

lemma reads_fat_entries:
  assumes "\<forall>a \<in> set es. take_bit 12 a = a" and "even (length es)" and "num = i + length es" and "num < 2 ^ 31"
  shows "reads (read_fat_entries num i acc) (enc12s es) (acc @ es)"
  using assms
proof (induction es arbitrary: i acc rule: enc12s.induct)
  case (1 a b es)
  have "reads (read_fat_entries num (i + 2) (acc @ [a, b])) (enc12s es) ((acc @ [a, b]) @ es)"
    using 1 by (intro "1.IH") auto
  moreover have "reads read_twelve_bits_twice (enc12 a b) (a, b)"
    using 1 by (intro reads_twelve) auto
  ultimately show ?case
    using 1 by (subst read_fat_entries.simps) (auto intro!: reads_bind)
qed (auto simp: read_fat_entries.simps reads_return)

text \<open>The size of the table, as the code computes it.\<close>

lemma unat_bytes_per_fat:
  assumes "unat (sectors_per_fat b) * unat (bytes_per_sector b) < 2 ^ 32"
  shows "unat (bytes_per_fat b) = unat (sectors_per_fat b) * unat (bytes_per_sector b)"
proof -
  have "unat (ucast (sectors_per_fat b) :: u32) = unat (sectors_per_fat b)"
    "unat (ucast (bytes_per_sector b) :: u32) = unat (bytes_per_sector b)"
    using unsigned_less[of "sectors_per_fat b", where 'a = nat] unsigned_less[of "bytes_per_sector b", where 'a = nat]
    by (simp_all add: unat_ucast_small)
  then show ?thesis using assms by (simp add: bytes_per_fat_def unat_word_ariths)
qed

lemma unat_num_fat_entries:
  assumes "3 \<le> unat (bytes_per_fat b)" and "unat (bytes_per_fat b) < 2 ^ 31"
  shows "unat (num_fat_entries b) = unat (bytes_per_fat b) * 2 div 3 - 2"
proof -
  let ?w = "bytes_per_fat b * 2 div 3 :: u32"
  have w: "unat ?w = unat (bytes_per_fat b) * 2 div 3"
    using assms(2) by (simp add: unat_word_ariths unat_div)
  have "2 \<le> ?w" unfolding word_le_nat_alt w using assms(1) by simp
  then show ?thesis by (simp add: num_fat_entries_def unat_sub w)
qed

lemma unat_copies_skip:
  assumes "1 \<le> unat (fat_copies b)" and "(unat (fat_copies b) - 1) * unat (bytes_per_fat b) < 2 ^ 32"
  shows "unat (ucast ((ucast (fat_copies b) - 1) * bytes_per_fat b :: u32) :: u64) =
    (unat (fat_copies b) - 1) * unat (bytes_per_fat b)"
proof -
  let ?c = "ucast (fat_copies b) :: u32"
  have c: "unat ?c = unat (fat_copies b)"
    using unsigned_less[of "fat_copies b", where 'a = nat] by (simp add: unat_ucast_small)
  have "1 \<le> ?c" unfolding word_le_nat_alt c using assms(1) by simp
  then have "unat (?c - 1) = unat (fat_copies b) - 1" by (simp add: unat_sub c)
  then have "unat ((?c - 1) * bytes_per_fat b) = (unat (fat_copies b) - 1) * unat (bytes_per_fat b)"
    using assms(2) by (simp add: unat_word_ariths)
  then show ?thesis using assms(2) by (simp add: unat_ucast_small)
qed

lemma unat_reserved_skip:
  assumes "1 \<le> unat (reserved_sectors b)"
  shows "unat (ucast ((ucast (reserved_sectors b) - 1) * ucast (bytes_per_sector b) :: u32) :: u64) =
    (unat (reserved_sectors b) - 1) * unat (bytes_per_sector b)"
proof -
  let ?r = "ucast (reserved_sectors b) :: u32" and ?s = "ucast (bytes_per_sector b) :: u32"
  have lt: "unat (reserved_sectors b) < 2 ^ 16" "unat (bytes_per_sector b) < 2 ^ 16"
    using unsigned_less[of "reserved_sectors b", where 'a = nat] unsigned_less[of "bytes_per_sector b", where 'a = nat]
    by simp_all
  have r: "unat ?r = unat (reserved_sectors b)" "unat ?s = unat (bytes_per_sector b)"
    using lt by (simp_all add: unat_ucast_small)
  have "1 \<le> ?r" unfolding word_le_nat_alt r using assms by simp
  then have r1: "unat (?r - 1) = unat (reserved_sectors b) - 1" by (simp add: unat_sub r)
  have "(unat (reserved_sectors b) - 1) * unat (bytes_per_sector b) \<le> 2 ^ 16 * (2 ^ 16 - 1)"
    using lt by (intro mult_le_mono) auto
  then have p: "(unat (reserved_sectors b) - 1) * unat (bytes_per_sector b) < 2 ^ 32" by simp
  then have "unat ((?r - 1) * ?s) = (unat (reserved_sectors b) - 1) * unat (bytes_per_sector b)"
    by (simp add: unat_word_ariths r r1)
  then show ?thesis using p by (simp add: unat_ucast_small)
qed

lemma reads_skip_reserved:
  assumes "1 \<le> unat (reserved_sectors b)"
    and "length bs = (unat (reserved_sectors b) - 1) * unat (bytes_per_sector b)"
  shows "reads (skip_reserved_sectors b) bs ()"
  unfolding skip_reserved_sectors_def Let_def
  by (intro reads_seek) (simp only: unat_reserved_skip[OF assms(1)] assms(2))

lemma reads_with_malloc:
  assumes "reads m bs x"
  shows "reads (\<lambda>d. if malloc_ok d n then m d else rfail d) bs x"
  using assms by (simp add: reads_def usable_def)

lemma reads_root_directory:
  assumes "dir_ok (unat (max_root_dir_entries b)) es"
  shows "reads (read_root_directory b) (concat (map enc_direntry es)) (es, label_of es)"
proof -
  have "reads (read_entries (unat (max_root_dir_entries b)) [] None) (concat (map enc_direntry es)) (es, label_of es)"
    using reads_entries[OF assms, of "[]" None] by (simp add: label_of_def labels_from_def)
  then show ?thesis
    unfolding read_root_directory_def by (rule reads_with_malloc)
qed

lemma reads_allocation_tables:
  assumes ok: "\<forall>a \<in> set (m # eof # fat). take_bit 12 a = a"
    and num: "length fat = unat (num_fat_entries b)" "even (length fat)" "length fat < 2 ^ 31"
    and skip: "length bs = (unat (fat_copies b) - 1) * unat (bytes_per_fat b)" "1 \<le> unat (fat_copies b)"
      "(unat (fat_copies b) - 1) * unat (bytes_per_fat b) < 2 ^ 32"
  shows "reads (read_file_allocation_tables b) (enc12s (m # eof # fat) @ bs) (ucast m, eof, fat)"
proof -
  have sk: "reads (bool_seek (ucast ((ucast (fat_copies b) - 1) * bytes_per_fat b :: u32))) bs ()"
    by (intro reads_seek) (simp only: unat_copies_skip[OF skip(2,3)] skip(1))
  have fe: "reads (read_fat_entries (unat (num_fat_entries b)) 0 []) (enc12s fat) fat"
  proof (rule reads_fat_entries[of fat "unat (num_fat_entries b)" 0 "[]", unfolded append_Nil])
    show "\<forall>a \<in> set fat. take_bit 12 a = a" using ok by (meson list.set_intros(2))
    show "unat (num_fat_entries b) < 2 ^ 31" using num(1,3) by metis
  qed (use num(1,2) in simp_all)
  have "reads (rbind (read_fat_entries (unat (num_fat_entries b)) 0 []) (\<lambda>fat.
       rbind (bool_seek (ucast ((ucast (fat_copies b) - 1) * bytes_per_fat b :: u32))) (\<lambda>_.
         rreturn (ucast m :: u8, eof, fat)))) (enc12s fat @ bs) (ucast m, eof, fat)"
    by (rule reads_bind[OF fe], rule reads_bind_return[OF sk, of "\<lambda>_. (ucast m, eof, fat)"])
  note tail = this[THEN reads_with_malloc, of "unat (num_fat_entries b) * 2"]
  have tw: "reads read_twelve_bits_twice (enc12 m eof) (m, eof)" using ok by (intro reads_twelve) auto
  show ?thesis
    unfolding read_file_allocation_tables_def enc12s.simps append_assoc
    by (rule reads_bind[OF tw]) (unfold prod.case Let_def, rule tail)
qed

text \<open>C15: Reading inverts the on-disk layout. Take an image that consists of a boot sector, reserved
  sectors, as many copies of the allocation table as the boot sector says and a root directory,
  laid out as \<^verbatim>\<open>fat12.h\<close> documents, with a table size that is a multiple of three bytes. On an
  error-free device \<^verbatim>\<open>read_fat12\<close> then returns exactly these data: every boot field, the media
  descriptor and end marker, every 12-bit table entry, the directory entries up to the first free
  one, and the index of the last volume label.\<close>

theorem read_fat12_roundtrip:
  assumes "usable d" and "boot_ok b"
    and "image d = enc_boot b @ pad @ reserved @ enc12s (m # eof # fat) @ copies @ concat (map enc_direntry es) @ rest"
    and "512 \<le> unat (bytes_per_sector b)" and "length pad = unat (bytes_per_sector b) - 512"
    and "1 \<le> unat (reserved_sectors b)" and "length reserved = (unat (reserved_sectors b) - 1) * unat (bytes_per_sector b)"
    and "\<forall>a \<in> set (m # eof # fat). take_bit 12 a = a"
    and "unat (bytes_per_fat b) = 3 * (k + 1)" and "k < 2 ^ 29" and "length fat = 2 * k"
    and "1 \<le> unat (fat_copies b)" and "length copies = (unat (fat_copies b) - 1) * unat (bytes_per_fat b)"
    and "(unat (fat_copies b) - 1) * unat (bytes_per_fat b) < 2 ^ 32"
    and "dir_ok (unat (max_root_dir_entries b)) es"
  shows "\<exists>pos. read_fat12 d 0 = Some (Success \<lparr>boot = b, media_descriptor = ucast m, eof_marker = eof,
     fat_entries = fat, root_dir_entries = es, volume_label = label_of es\<rparr> pos)"
proof -
  let ?bs = "(enc_boot b @ pad) @ reserved @ (enc12s (m # eof # fat) @ copies) @ concat (map enc_direntry es)"
  have n: "unat (num_fat_entries b) = 2 * k" using assms(9,10) by (subst unat_num_fat_entries) auto
  have "reads read_fat12 ?bs \<lparr>boot = b, media_descriptor = ucast m, eof_marker = eof,
     fat_entries = fat, root_dir_entries = es, volume_label = label_of es\<rparr>"
    unfolding read_fat12_def
  proof (rule reads_bind[OF reads_boot_sector[OF assms(2,4,5)]],
      rule reads_bind[OF reads_skip_reserved[OF assms(6,7)]])
    show "reads (rbind (read_file_allocation_tables b) (\<lambda>(media, eof, fat).
        rbind (read_root_directory b) (\<lambda>(entries, label).
        rreturn \<lparr>boot = b, media_descriptor = media, eof_marker = eof, fat_entries = fat,
          root_dir_entries = entries, volume_label = label\<rparr>)))
      ((enc12s (m # eof # fat) @ copies) @ concat (map enc_direntry es))
      \<lparr>boot = b, media_descriptor = ucast m, eof_marker = eof,
        fat_entries = fat, root_dir_entries = es, volume_label = label_of es\<rparr>"
      by (rule reads_bind[OF reads_allocation_tables[OF assms(8)]])
         (use assms(10-14) n in simp_all, rule reads_bind_last[OF reads_root_directory[OF assms(15)]],
          simp add: reads_return)
  qed
  moreover have "holds_at d 0 ?bs" unfolding holds_at_def assms(3) by simp
  ultimately show ?thesis using assms(1) by (auto simp: reads_def)
qed

text \<open>A 1.44 MB style layout in miniature: sectors of 512 bytes, one table of three sectors.\<close>

definition demo_boot :: boot_t where
  "demo_boot = \<lparr>jmp_boot = [0xeb, 0x3c, 0x90], oem_name = replicate 8 0x20, bytes_per_sector = 512,
     sectors_per_cluster = 1, reserved_sectors = 1, fat_copies = 1, max_root_dir_entries = 2,
     total_sectors = 16, media_type = 0xf0, sectors_per_fat = 3, sectors_per_track = 18, num_heads = 2,
     num_hidden = 0, bootstrap = replicate 480 0, signature = [0x55, 0xaa]\<rparr>"

definition demo_entry :: "u8 list \<Rightarrow> u8 \<Rightarrow> direntry_t" where
  "demo_entry name attr = \<lparr>filename = name, extension = [0x54, 0x58, 0x54], attributes = attr,
     reserved_bytes = replicate 10 0, time = 0, date = 0, start_cluster = 2, filesize = 700\<rparr>"

definition demo_file_entry :: direntry_t where
  "demo_file_entry = demo_entry [0x42, 0x20, 0x20, 0x20, 0x20, 0x20, 0x20, 0x20] 0"

definition demo_dir :: "direntry_t list" where
  "demo_dir = [demo_entry (replicate 8 0x41) 8, demo_file_entry]"

definition demo_disk :: disk where
  "demo_disk = \<lparr>image = enc_boot demo_boot @ enc12s (0xff0 # 0xfff # 3 # 0xfff # replicate 1020 0) @
       concat (map enc_direntry demo_dir) @ replicate 1024 0x61,
     read_error = (\<lambda>_. False), stale = (\<lambda>_ _. 0), malloc_ok = (\<lambda>_. True)\<rparr>"

lemma demo_boot_ok: "boot_ok demo_boot"
  by (simp add: boot_ok_def demo_boot_def)

lemma demo_dir_ok: "dir_ok 2 demo_dir"
  by (simp add: dir_ok_def demo_dir_def demo_file_entry_def demo_entry_def direntry_ok_def MAX_FILE_NAME_def
    MAX_EXTENSION_def is_entry_free_def ENTRY_FREE_def)

lemma length_enc_boot: "boot_ok b \<Longrightarrow> length (enc_boot b) = 512"
  by (simp add: enc_boot_def boot_ok_def)

lemma length_enc_direntry: "direntry_ok e \<Longrightarrow> length (enc_direntry e) = 32"
  by (simp add: enc_direntry_def direntry_ok_def MAX_FILE_NAME_def MAX_EXTENSION_def)

lemma demo_usable: "usable demo_disk"
proof -
  have "length (concat (map enc_direntry demo_dir)) = 64"
    using demo_dir_ok by (simp add: dir_ok_def demo_dir_def length_enc_direntry)
  then show ?thesis
    by (simp add: usable_def demo_disk_def length_enc_boot[OF demo_boot_ok] length_enc12s)
qed

lemma demo_boot_fields [simp]:
  "unat (bytes_per_sector demo_boot) = 512" "unat (reserved_sectors demo_boot) = 1"
  "unat (fat_copies demo_boot) = 1" "unat (max_root_dir_entries demo_boot) = 2"
  "unat (bytes_per_fat demo_boot) = 1536"
  by (simp_all add: bytes_per_fat_def) (simp_all add: demo_boot_def)

theorem read_fat12_roundtrip_witness:
  "\<exists>pos. read_fat12 demo_disk 0 = Some (Success \<lparr>boot = demo_boot, media_descriptor = ucast (0xff0 :: u16),
     eof_marker = 0xfff, fat_entries = 3 # 0xfff # replicate 1020 0, root_dir_entries = demo_dir,
     volume_label = label_of demo_dir\<rparr> pos)"
  by (rule read_fat12_roundtrip[OF demo_usable demo_boot_ok, of "[]" "[]" _ _ _ "[]" _ "replicate 1024 0x61" 511])
     (use demo_dir_ok in \<open>auto simp: demo_disk_def\<close>)

subsection \<open>Where the table ends\<close>

lemma table_size_div:
  fixes n :: nat
  shows "n mod 3 < 2 \<Longrightarrow> n * 2 div 3 - 2 = 2 * (n div 3 - 1)"
    and "n mod 3 = 2 \<Longrightarrow> 3 \<le> n \<Longrightarrow> n * 2 div 3 - 2 = 2 * (n div 3 - 1) + 1"
proof -
  have "n * 2 = 2 * (n mod 3) + 3 * (2 * (n div 3))" by presburger
  then have e: "n * 2 div 3 = 2 * (n mod 3) div 3 + 2 * (n div 3)"
    by (metis div_mult_self2 add.commute zero_neq_numeral)
  show "n mod 3 < 2 \<Longrightarrow> n * 2 div 3 - 2 = 2 * (n div 3 - 1)" unfolding e by (simp add: diff_mult_distrib2)
  show "n mod 3 = 2 \<Longrightarrow> 3 \<le> n \<Longrightarrow> n * 2 div 3 - 2 = 2 * (n div 3 - 1) + 1"
    unfolding e by (cases "n div 3") auto
qed

lemma bool_read_within:
  assumes "usable d" and "pos + n \<le> length (image d)"
  shows "\<exists>bs. length bs = n \<and> bool_read n d pos = Some (Success bs (pos + n))"
  using assms by (simp add: bool_read_def usable_def Let_def)

lemma read_twelve_within:
  assumes "usable d" and "pos + 3 \<le> length (image d)"
  shows "\<exists>p. read_twelve_bits_twice d pos = Some (Success p (pos + 3))"
  using bool_read_within[OF assms] by (auto simp: read_twelve_bits_twice_def rbind_def rreturn_def)

lemma read_fat_entries_even:
  assumes "usable d" and "num = i + 2 * k" and "num < 2 ^ 31" and "pos + 3 * k \<le> length (image d)"
  shows "\<exists>fat. read_fat_entries num i acc d pos = Some (Success fat (pos + 3 * k))"
  using assms
proof (induction k arbitrary: i acc pos)
  case 0
  then show ?case by (simp add: read_fat_entries.simps rreturn_def)
next
  case (Suc k)
  obtain a b where "read_twelve_bits_twice d pos = Some (Success (a, b) (pos + 3))"
    using read_twelve_within[of d pos] Suc.prems by fastforce
  moreover obtain fat where "read_fat_entries num (i + 2) (acc @ [a, b]) d (pos + 3) = Some (Success fat (pos + 3 + 3 * k))"
    using Suc.IH[of "i + 2" "pos + 3" "acc @ [a, b]"] Suc.prems by auto
  ultimately show ?case
    using Suc.prems by (subst read_fat_entries.simps) (simp add: rbind_def)
qed

lemma read_fat_entries_odd:
  assumes "usable d" and "num = i + 2 * k + 1" and "pos + 3 * k + 3 \<le> length (image d)"
  shows "read_fat_entries num i acc d pos = None"
  using assms
proof (induction k arbitrary: i acc pos)
  case 0
  then show ?case
    using read_twelve_within[of d pos]
    by (subst read_fat_entries.simps) (auto simp: rbind_def rfault_def)
next
  case (Suc k)
  obtain a b where "read_twelve_bits_twice d pos = Some (Success (a, b) (pos + 3))"
    using read_twelve_within[of d pos] Suc.prems by fastforce
  moreover have "read_fat_entries num (i + 2) (acc @ [a, b]) d (pos + 3) = None"
    using Suc.IH[of "i + 2" "pos + 3" "acc @ [a, b]"] Suc.prems by auto
  ultimately show ?case
    using Suc.prems by (subst read_fat_entries.simps) (simp add: rbind_def rfault_def)
qed

text \<open>C16: Where reading the allocation tables leaves the file position depends on the table size
  modulo three. If it is a multiple of three the position is at the end of the last copy; if one
  byte is left over, that byte is not skipped and the root directory is read one byte early; if
  two are left over, the last pair of entries is stored one entry past the end of the array.\<close>

theorem fat_table_alignment:
  assumes "usable d" and "3 \<le> unat (bytes_per_fat b)" and "unat (bytes_per_fat b) < 2 ^ 31"
    and "1 \<le> unat (fat_copies b)" and "(unat (fat_copies b) - 1) * unat (bytes_per_fat b) < 2 ^ 32"
    and "pos + unat (fat_copies b) * unat (bytes_per_fat b) + 1 \<le> length (image d)"
  shows "(unat (bytes_per_fat b) mod 3 = 0 \<longrightarrow> (\<exists>x. read_file_allocation_tables b d pos =
            Some (Success x (pos + unat (fat_copies b) * unat (bytes_per_fat b))))) \<and>
     (unat (bytes_per_fat b) mod 3 = 1 \<longrightarrow> (\<exists>x. read_file_allocation_tables b d pos =
            Some (Success x (pos + unat (fat_copies b) * unat (bytes_per_fat b) - 1)))) \<and>
     (unat (bytes_per_fat b) mod 3 = 2 \<longrightarrow> read_file_allocation_tables b d pos = None)"
proof -
  define n where "n = unat (bytes_per_fat b)"
  define skip where "skip = (unat (fat_copies b) - 1) * n"
  let ?num = "unat (num_fat_entries b)"
  define k where "k = n div 3 - 1"
  have n3: "3 \<le> n" "n < 2 ^ 31" using assms(2,3) by (simp_all only: n_def)
  then have n: "n = 3 * (k + 1) + n mod 3" by (simp add: k_def)
  then have n4: "3 * (k + 1) \<le> n" by (metis le_add1)
  have end_eq: "unat (fat_copies b) * unat (bytes_per_fat b) = n + skip"
    using assms(4) by (cases "unat (fat_copies b)") (auto simp: skip_def n_def)
  have lim: "pos + n + skip + 1 \<le> length (image d)" using assms(6) unfolding end_eq by simp
  have num: "?num = n * 2 div 3 - 2" unfolding n_def by (rule unat_num_fat_entries[OF assms(2,3)])
  obtain m e where tw: "read_twelve_bits_twice d pos = Some (Success (m, e) (pos + 3))"
    using read_twelve_within[of d pos] assms(1) lim n3 by fastforce
  have u: "unat (ucast ((ucast (fat_copies b) - 1) * bytes_per_fat b :: u32) :: u64) = skip"
    unfolding skip_def n_def by (rule unat_copies_skip[OF assms(4,5)])
  have seek: "bool_seek (ucast ((ucast (fat_copies b) - 1) * bytes_per_fat b :: u32)) d p =
      Some (Success () (p + skip))" if "p + skip \<le> length (image d)" for p
    using reads_seek[of "ucast ((ucast (fat_copies b) - 1) * bytes_per_fat b :: u32)"
        "take skip (drop p (image d))"] assms(1) that u by (auto simp: reads_def holds_at_def)
  have even: "\<exists>x. read_file_allocation_tables b d pos = Some (Success x (pos + 3 * (k + 1) + skip))"
    if "n mod 3 < 2"
  proof -
    have "?num = 2 * k" using table_size_div(1)[OF that] num by (simp add: k_def)
    moreover have le: "pos + 3 + 3 * k + skip \<le> length (image d)" using lim n4 by presburger
    moreover have "2 * k < 2 ^ 31" using n3 n4 by presburger
    ultimately obtain fat where "read_fat_entries ?num 0 [] d (pos + 3) = Some (Success fat (pos + 3 + 3 * k))"
      using read_fat_entries_even[of d ?num 0 k "pos + 3" "[]"] assms(1) by auto
    then show ?thesis
      using assms(1) tw seek[OF le]
      by (auto simp: read_file_allocation_tables_def rbind_def rreturn_def usable_def Let_def)
  qed
  have odd: "read_file_allocation_tables b d pos = None" if "n mod 3 = 2"
  proof -
    have "?num = 2 * k + 1" using table_size_div(2)[OF that n3(1)] num by (simp add: k_def)
    moreover have "pos + 3 + 3 * k + 3 \<le> length (image d)" using lim n that by presburger
    ultimately have "read_fat_entries ?num 0 [] d (pos + 3) = None"
      using read_fat_entries_odd[of d ?num 0 k "pos + 3" "[]"] assms(1) by auto
    then show ?thesis
      using tw assms(1) by (simp add: read_file_allocation_tables_def rbind_def usable_def Let_def)
  qed
  have "n mod 3 = 0 \<Longrightarrow> pos + (n + skip) = pos + 3 * (k + 1) + skip"
    "n mod 3 = 1 \<Longrightarrow> pos + (n + skip) - 1 = pos + 3 * (k + 1) + skip" using n by presburger+
  then show ?thesis unfolding end_eq using even odd by (auto simp flip: n_def)
qed

theorem fat_table_alignment_witness:
  "(\<exists>x. read_file_allocation_tables demo_boot demo_disk 512 = Some (Success x 2048)) \<and>
   (\<exists>x. read_file_allocation_tables (demo_boot\<lparr>sectors_per_fat := 2\<rparr>) demo_disk 512 = Some (Success x 1535)) \<and>
   read_file_allocation_tables (demo_boot\<lparr>sectors_per_fat := 1\<rparr>) demo_disk 512 = None"
proof -
  have f: "unat (bytes_per_fat (demo_boot\<lparr>sectors_per_fat := 2\<rparr>)) = 1024"
    "unat (bytes_per_fat (demo_boot\<lparr>sectors_per_fat := 1\<rparr>)) = 512"
    by (simp_all add: bytes_per_fat_def) (simp_all add: demo_boot_def)
  have l: "length (image demo_disk) = 3136"
    using demo_dir_ok length_enc_boot[OF demo_boot_ok]
    by (simp add: demo_disk_def length_enc12s dir_ok_def demo_dir_def length_enc_direntry)
  show ?thesis
    using fat_table_alignment[OF demo_usable, of demo_boot 512]
      fat_table_alignment[OF demo_usable, of "demo_boot\<lparr>sectors_per_fat := 2\<rparr>" 512]
      fat_table_alignment[OF demo_usable, of "demo_boot\<lparr>sectors_per_fat := 1\<rparr>" 512]
    by (simp add: f l)
qed

end
