(* ===== verification/Fat12_Extract.thy ===== *)
theory Fat12_Extract
  imports Fat12
begin

text \<open>
  Extracting files, \<^verbatim>\<open>extract_files\<close>, \<^verbatim>\<open>extract_single_file\<close> and \<^verbatim>\<open>write_cluster\<close> of
  \<^verbatim>\<open>FAT12/src/fat12.c\<close>, and the program \<^verbatim>\<open>msdosextr.c\<close>.

  The host side is a record: the files by path with their permission bits and contents, which
  paths can be opened for writing, and what was printed. The path buffer is a byte list of its
  allocated length; writing outside it, indexing outside an array, dividing by zero and following
  a cluster chain that never ends all give \<open>None\<close>.
\<close>

subsection \<open>The host\<close>

record ofile =
  perm :: nat
  content :: "u8 list"

record host =
  files :: "u8 list \<rightharpoonup> ofile"
  open_ok :: "u8 list \<Rightarrow> bool"
  stdout :: string

definition printf :: "string \<Rightarrow> host \<Rightarrow> host" where
  "printf s h = h\<lparr>stdout := stdout h @ s\<rparr>"

definition chars :: "u8 list \<Rightarrow> string" where
  "chars bs = map (\<lambda>b. char_of (unat b)) bs"

definition c_string :: "u8 list \<Rightarrow> u8 list" where
  "c_string bs = takeWhile (\<lambda>b. b \<noteq> 0) bs"

text \<open>\<^verbatim>\<open>open\<close> with \<open>O_CREAT | O_TRUNC | O_WRONLY\<close>: the mode applies to a new file only.\<close>

definition open_trunc :: "u8 list \<Rightarrow> nat \<Rightarrow> host \<Rightarrow> host option" where
  "open_trunc path mode h =
     (if open_ok h path
      then Some (h\<lparr>files := (files h)(path \<mapsto>
        (case files h path of None \<Rightarrow> \<lparr>perm = mode, content = []\<rparr> | Some f \<Rightarrow> f\<lparr>content := []\<rparr>))\<rparr>)
      else None)"

definition append_to :: "u8 list \<Rightarrow> u8 list \<Rightarrow> host \<Rightarrow> host" where
  "append_to path bs h =
     h\<lparr>files := (files h)(path := map_option (\<lambda>f. f\<lparr>content := content f @ bs\<rparr>) (files h path))\<rparr>"

text \<open>\<^verbatim>\<open>memcpy\<close> of \<open>bs\<close> to offset \<open>i\<close> of a buffer.\<close>

definition poke :: "nat \<Rightarrow> u8 list \<Rightarrow> u8 list \<Rightarrow> u8 list option" where
  "poke i bs buf =
     (if i + length bs \<le> length buf then Some (take i buf @ bs @ drop (i + length bs) buf) else None)"

definition nth_opt :: "'a list \<Rightarrow> nat \<Rightarrow> 'a option" where
  "nth_opt xs i = (if i < length xs then Some (xs ! i) else None)"

subsection \<open>One cluster\<close>

text \<open>What the cluster buffer holds when it is written out; a failed \<^verbatim>\<open>malloc\<close> makes both the read
  and the write fail.\<close>

definition write_cluster :: "disk \<Rightarrow> u32 \<Rightarrow> u16 \<Rightarrow> u32 \<Rightarrow> u32 \<Rightarrow> u8 list" where
  "write_cluster d base_address cluster cluster_size write_size =
     (let pos = unat (base_address + cluster_size * (ucast cluster - 2));
          buff = (case bool_read (unat cluster_size) d pos of
                    Some (Success bs _) \<Rightarrow> bs
                  | _ \<Rightarrow> map (stale d pos) [0..<unat cluster_size])
      in if malloc_ok d (unat cluster_size) then take (unat write_size) buff else [])"

definition base_address :: "boot_t \<Rightarrow> u32" where
  "base_address b =
     (ucast (reserved_sectors b) + ucast (sectors_per_fat b) * ucast (fat_copies b)) * ucast (bytes_per_sector b) +
     ucast (max_root_dir_entries b) * of_nat DIR_ENTRY_MEMBER_SIZE"

definition cluster_size :: "boot_t \<Rightarrow> u32" where
  "cluster_size b = ucast (bytes_per_sector b) * ucast (sectors_per_cluster b)"

text \<open>\<open>fat->fat_entries[cluster - 2]\<close>\<close>

definition next_of :: "fat12_t \<Rightarrow> u16 \<Rightarrow> u16 option" where
  "next_of fat cluster = (if unat cluster < 2 then None else nth_opt (fat_entries fat) (unat cluster - 2))"

text \<open>The do-while loop over the chain, with the bytes written so far.\<close>

partial_function (option) copy_chain :: "disk \<Rightarrow> fat12_t \<Rightarrow> u32 \<Rightarrow> u16 \<Rightarrow> u8 list \<Rightarrow> u8 list option" where
  "copy_chain d fat fsize cluster out = do {
     next_cluster \<leftarrow> next_of fat cluster;
     let csz = cluster_size (boot fat);
     write_size \<leftarrow> (if next_cluster = eof_marker fat then (if csz = 0 then None else Some (fsize mod csz))
                    else Some csz);
     let out = out @ write_cluster d (base_address (boot fat)) cluster csz write_size;
     if next_cluster = eof_marker fat then Some out else copy_chain d fat fsize next_cluster out }"

subsection \<open>One file\<close>

text \<open>The loop that looks for the last character that is not a space; \<open>last_nonspace + 1\<close> is its
  argument. Its counter is unsigned, so that a name of spaces only runs off the front.\<close>

fun nospace_size :: "u8 list \<Rightarrow> nat \<Rightarrow> nat option" where
  "nospace_size name 0 = None"
| "nospace_size name (Suc n) = (if name ! n = 0x20 then nospace_size name n else Some (Suc n))"

definition build_name :: "direntry_t \<Rightarrow> nat \<Rightarrow> u8 list \<Rightarrow> u8 list option" where
  "build_name e dirlen full_name = do {
     n \<leftarrow> nospace_size (filename e) MAX_FILE_NAME;
     full_name \<leftarrow> poke dirlen (take n (filename e)) full_name;
     if extension e \<noteq> replicate MAX_EXTENSION 0x20
     then do {
       full_name \<leftarrow> poke (dirlen + n) [0x2e] full_name;
       full_name \<leftarrow> poke (dirlen + n + 1) (extension e) full_name;
       poke (dirlen + n + 1 + MAX_EXTENSION) [0] full_name }
     else poke (dirlen + n) [0] full_name }"

text \<open>The permissions are octal \<open>0444\<close> and \<open>0644\<close>.\<close>

definition extract_single_file ::
    "disk \<Rightarrow> fat12_t \<Rightarrow> direntry_t \<Rightarrow> u8 list \<Rightarrow> nat \<Rightarrow> host \<Rightarrow> (u8 list \<times> host) option" where
  "extract_single_file d fat e full_name dirlen h = do {
     let permissions = (if attributes e AND READ_ONLY \<noteq> 0 then 292 else 420);
     full_name \<leftarrow> build_name e dirlen full_name;
     let path = c_string full_name;
     case open_trunc path permissions h of
       None \<Rightarrow> Some (full_name, printf (''Could not create file with name '' @ chars path @ [CHR 0x0A]) h)
     | Some h \<Rightarrow>
         if start_cluster e \<noteq> 0
         then do { bs \<leftarrow> copy_chain d fat (filesize e) (start_cluster e) [];
                   Some (full_name, append_to path bs h) }
         else Some (full_name, h) }"

subsection \<open>All files\<close>

text \<open>The loop runs until it finds a free entry; the list is what is left of the entries that were
  read, and there is none beyond them.\<close>

fun extract_entries ::
    "disk \<Rightarrow> fat12_t \<Rightarrow> direntry_t list \<Rightarrow> u8 list \<Rightarrow> nat \<Rightarrow> host \<Rightarrow> host option" where
  "extract_entries d fat [] full_name dirlen h = None"
| "extract_entries d fat (e # es) full_name dirlen h =
     (if is_entry_free e then Some h
      else if is_regular_entry e
      then do { (full_name, h) \<leftarrow> extract_single_file d fat e full_name dirlen h;
                extract_entries d fat es full_name dirlen h }
      else extract_entries d fat es full_name dirlen h)"

definition extract_files :: "disk \<Rightarrow> fat12_t \<Rightarrow> u8 list \<Rightarrow> host \<Rightarrow> host option" where
  "extract_files d fat out_dir h =
     (let dir_len = length out_dir + 1;
          full_len = dir_len + MAX_FILE_NAME + 1 + MAX_EXTENSION + 1
      in if \<not> malloc_ok d full_len then Some (printf (''Could not allocate memory.'' @ [CHR 0x0A]) h)
         else do {
           full_name \<leftarrow> poke 0 (out_dir @ [0]) (map (stale d 0) [0..<full_len]);
           full_name \<leftarrow> poke (dir_len - 1) [0x2f] full_name;
           full_name \<leftarrow> poke dir_len [0] full_name;
           if max_root_dir_entries (boot fat) = 0 then Some h
           else extract_entries d fat (root_dir_entries fat) full_name dir_len h })"

text \<open>\<^verbatim>\<open>msdosextr.c\<close>: the exit status and the host afterwards. The input is \<open>None\<close> when it cannot be
  opened.\<close>

definition USER_ERROR :: nat where "USER_ERROR = 1"
definition SYSTEM_ERROR :: nat where "SYSTEM_ERROR = 2"

definition msdosextr_main :: "u8 list list \<Rightarrow> disk option \<Rightarrow> host \<Rightarrow> (nat \<times> host) option" where
  "msdosextr_main argv input h =
     (if length argv < 3
      then Some (USER_ERROR, printf (''Please include the input file and output directories as command line arguments.'' @ [CHR 0x0A]) h)
      else case input of
        None \<Rightarrow> Some (SYSTEM_ERROR, h)
      | Some d \<Rightarrow> (case read_fat12 d 0 of
          None \<Rightarrow> None
        | Some Failure \<Rightarrow> Some (SYSTEM_ERROR, h)
        | Some (Success fat _) \<Rightarrow> do { h \<leftarrow> extract_files d fat (argv ! 2) h; Some (0, h) }))"

subsection \<open>Cluster chains\<close>

fun chain :: "fat12_t \<Rightarrow> u16 \<Rightarrow> u16 list \<Rightarrow> bool" where
  "chain fat c [] \<longleftrightarrow> False"
| "chain fat c [x] \<longleftrightarrow> x = c \<and> next_of fat c = Some (eof_marker fat)"
| "chain fat c (x # y # ys) \<longleftrightarrow>
     x = c \<and> next_of fat c = Some y \<and> y \<noteq> eof_marker fat \<and> chain fat y (y # ys)"

definition cluster_bytes :: "disk \<Rightarrow> fat12_t \<Rightarrow> u16 \<Rightarrow> u8 list" where
  "cluster_bytes d fat c =
     write_cluster d (base_address (boot fat)) c (cluster_size (boot fat)) (cluster_size (boot fat))"

definition chain_bytes :: "disk \<Rightarrow> fat12_t \<Rightarrow> u32 \<Rightarrow> u16 list \<Rightarrow> u8 list" where
  "chain_bytes d fat fsize cs = concat (map (cluster_bytes d fat) (butlast cs)) @
     take (unat (fsize mod cluster_size (boot fat))) (cluster_bytes d fat (last cs))"

lemma write_cluster_length: "length (write_cluster d base c csz wsz) \<le> unat csz"
  by (auto simp: write_cluster_def Let_def bool_read_def split: option.splits attempt.splits)

lemma write_cluster_take:
  assumes "wsz \<le> csz"
  shows "write_cluster d base c csz wsz = take (unat wsz) (write_cluster d base c csz csz)"
  using assms by (simp add: write_cluster_def Let_def word_le_nat_alt min_absorb1)

lemma chain_fun: "chain fat c cs \<Longrightarrow> chain fat c cs' \<Longrightarrow> cs = cs'"
proof (induction fat c cs arbitrary: cs' rule: chain.induct)
  case (2 fat c x)
  then show ?case by (cases "(fat, c, cs')" rule: chain.cases) auto
next
  case (3 fat c x y ys)
  then show ?case by (cases "(fat, c, cs')" rule: chain.cases) auto
qed simp

lemma copy_chain_run:
  assumes "chain fat c cs" and "cluster_size (boot fat) \<noteq> 0"
  shows "copy_chain d fat fsize c out = Some (out @ chain_bytes d fat fsize cs)"
  using assms
proof (induction fat c cs arbitrary: out rule: chain.induct)
  case (2 fat c x)
  have "fsize mod cluster_size (boot fat) \<le> cluster_size (boot fat)"
    using "2.prems"(2) by (simp add: word_mod_less_divisor word_greater_zero_iff less_imp_le)
  then show ?case
    using 2 write_cluster_take[of "fsize mod cluster_size (boot fat)" "cluster_size (boot fat)"]
    by (subst copy_chain.simps) (simp add: chain_bytes_def cluster_bytes_def Let_def)
next
  case (3 fat c x y ys)
  then have "copy_chain d fat fsize y (out @ cluster_bytes d fat c) =
     Some ((out @ cluster_bytes d fat c) @ chain_bytes d fat fsize (y # ys))" by simp
  with 3 show ?case
    by (subst copy_chain.simps) (simp add: chain_bytes_def cluster_bytes_def Let_def)
qed simp

lemma copy_chain_chain:
  assumes "copy_chain d fat fsize c out = Some r"
  shows "\<exists>cs. chain fat c cs \<and> cluster_size (boot fat) \<noteq> 0"
proof -
  have "copy_chain d fat fsize c out = Some r \<Longrightarrow> \<exists>cs. chain fat c cs \<and> cluster_size (boot fat) \<noteq> 0"
  proof (induction rule: copy_chain.raw_induct[rotated 1, consumes 1])
    case (1 f d fat fsize c out r)
    obtain y where y: "next_of fat c = Some y" using 1(2) by (cases "next_of fat c") auto
    show ?case
    proof (cases "y = eof_marker fat")
      case True
      then have "chain fat c [c]" using y by simp
      moreover have "cluster_size (boot fat) \<noteq> 0" using 1(2) y True by (auto simp: Let_def split: if_splits)
      ultimately show ?thesis by blast
    next
      case False
      then have "f d fat fsize y (out @ write_cluster d (base_address (boot fat)) c
          (cluster_size (boot fat)) (cluster_size (boot fat))) = Some r" using 1(2) y by (simp add: Let_def)
      from 1(1)[OF this] obtain cs where cs: "chain fat y cs" "cluster_size (boot fat) \<noteq> 0" by blast
      then have "chain fat c (c # cs)" using y False by (cases "(fat, y, cs)" rule: chain.cases) auto
      with cs show ?thesis by blast
    qed
  qed
  then show ?thesis using assms by blast
qed

lemma copy_chain_returns_iff:
  "(\<exists>r. copy_chain d fat fsize c out = Some r) \<longleftrightarrow> (\<exists>cs. chain fat c cs) \<and> cluster_size (boot fat) \<noteq> 0"
  using copy_chain_run copy_chain_chain by blast

text \<open>C17: The extraction loop, on every input. It returns exactly when the chain that starts at the
  cluster reaches the end marker inside the table and clusters have a size; a chain with a cycle,
  one that leaves the table and a cluster size of zero do not come back. What it then writes is
  every cluster but the last in full and, of the last, the file size modulo the cluster size.\<close>

theorem copy_chain_iff:
  "copy_chain d fat fsize c out = Some r \<longleftrightarrow>
     (\<exists>cs. chain fat c cs \<and> cluster_size (boot fat) \<noteq> 0 \<and> r = out @ chain_bytes d fat fsize cs)"
  using copy_chain_run copy_chain_chain by (metis option.inject)

subsection \<open>The contents of an extracted file\<close>

definition cluster_data :: "disk \<Rightarrow> fat12_t \<Rightarrow> u16 \<Rightarrow> u8 list" where
  "cluster_data d fat c =
     take (unat (cluster_size (boot fat)))
       (drop (unat (base_address (boot fat)) + unat (cluster_size (boot fat)) * (unat c - 2)) (image d))"

definition cluster_inside :: "disk \<Rightarrow> fat12_t \<Rightarrow> u16 \<Rightarrow> bool" where
  "cluster_inside d fat c \<longleftrightarrow> 2 \<le> unat c \<and>
     unat (base_address (boot fat)) + unat (cluster_size (boot fat)) * (unat c - 2) +
       unat (cluster_size (boot fat)) \<le> length (image d)"

lemma cluster_position:
  assumes "2 \<le> unat c" and "unat base + unat csz * (unat (c::u16) - 2) < 2 ^ 32"
  shows "unat (base + csz * (ucast c - 2 :: u32)) = unat base + unat csz * (unat c - 2)"
proof -
  have c: "unat (ucast c :: u32) = unat c"
    using unsigned_less[of c, where 'a = nat] by (simp add: unat_ucast_small)
  have "(2 :: u32) \<le> ucast c" unfolding word_le_nat_alt c using assms(1) by simp
  then have d: "unat (ucast c - 2 :: u32) = unat c - 2" by (simp add: unat_sub c)
  then have "unat (csz * (ucast c - 2)) = unat csz * (unat c - 2)"
    using assms(2) by (simp add: unat_word_ariths)
  then show ?thesis using assms(2) by (simp add: unat_word_ariths)
qed

lemma cluster_bytes_data:
  assumes "usable d" and "length (image d) \<le> 2 ^ 32" and "cluster_inside d fat c"
    and "cluster_size (boot fat) \<noteq> 0"
  shows "cluster_bytes d fat c = cluster_data d fat c"
    and "length (cluster_data d fat c) = unat (cluster_size (boot fat))"
proof -
  let ?b = "unat (base_address (boot fat))" and ?s = "unat (cluster_size (boot fat))"
  have s: "0 < ?s" using assms(4) by (simp add: unat_gt_0)
  have pos: "unat (base_address (boot fat) + cluster_size (boot fat) * (ucast c - 2)) = ?b + ?s * (unat c - 2)"
    using assms(2,3) s by (intro cluster_position) (auto simp: cluster_inside_def)
  have le: "?s \<le> length (image d) - (?b + ?s * (unat c - 2))"
    using assms(3) unfolding cluster_inside_def by (metis add.commute add_le_imp_le_diff)
  then show "cluster_bytes d fat c = cluster_data d fat c"
    using assms(1) unfolding cluster_bytes_def write_cluster_def cluster_data_def pos
    by (simp add: bool_read_def usable_def Let_def min_absorb2)
  show "length (cluster_data d fat c) = ?s"
    using le by (simp add: cluster_data_def)
qed

lemma length_concat_const: "\<forall>x \<in> set xs. length (f x) = n \<Longrightarrow> length (concat (map f xs)) = length xs * n"
  by (induction xs) auto

lemma chain_bytes_data:
  assumes "usable d" and "length (image d) \<le> 2 ^ 32" and "\<forall>c \<in> set cs. cluster_inside d fat c"
    and "cluster_size (boot fat) \<noteq> 0" and "cs \<noteq> []"
  shows "chain_bytes d fat fsize cs =
    take ((length cs - 1) * unat (cluster_size (boot fat)) + unat fsize mod unat (cluster_size (boot fat)))
      (concat (map (cluster_data d fat) cs))"
proof -
  let ?s = "unat (cluster_size (boot fat))" and ?f = "cluster_data d fat"
  note cd = cluster_bytes_data[OF assms(1,2) _ assms(4)]
  have split: "concat (map ?f cs) = concat (map ?f (butlast cs)) @ ?f (last cs)"
    using assms(5) by (cases cs rule: rev_cases) simp_all
  have "length (concat (map ?f (butlast cs))) = (length cs - 1) * ?s"
    using cd(2) assms(3) by (subst length_concat_const[of _ _ ?s]) (auto dest: in_set_butlastD)
  moreover have "map (cluster_bytes d fat) (butlast cs) = map ?f (butlast cs)"
    using cd(1) assms(3) by (auto dest: in_set_butlastD)
  moreover have "cluster_bytes d fat (last cs) = ?f (last cs)" using cd(1) assms(3,5) by simp
  ultimately show ?thesis by (simp add: chain_bytes_def split unat_mod cong: map_cong)
qed

text \<open>C18: What a file on an intact volume is extracted to. Let the file have a positive size, a chain
  of as many clusters as the size needs, and all of them inside the image. Then the extracted bytes
  are the first \<open>filesize\<close> bytes of its clusters, unless the size is a multiple of the cluster size:
  then the whole last cluster is missing.\<close>

theorem extract_contents:
  assumes "usable d" and "length (image d) \<le> 2 ^ 32" and "chain fat c cs"
    and "\<forall>c \<in> set cs. cluster_inside d fat c" and "cluster_size (boot fat) \<noteq> 0" and "0 < unat fsize"
    and "(length cs - 1) * unat (cluster_size (boot fat)) < unat fsize"
    and "unat fsize \<le> length cs * unat (cluster_size (boot fat))"
  shows "copy_chain d fat fsize c [] = Some (take
     (if unat fsize mod unat (cluster_size (boot fat)) = 0 then unat fsize - unat (cluster_size (boot fat)) else unat fsize)
     (concat (map (cluster_data d fat) cs)))"
proof -
  define k where "k = length cs - 1"
  define sz where "sz = unat (cluster_size (boot fat))"
  define n where "n = unat fsize"
  have ne: "cs \<noteq> []" using assms(3) by auto
  then have len: "length cs = k + 1" by (cases cs) (auto simp: k_def)
  have sz: "0 < sz" using assms(5) by (simp add: sz_def unat_gt_0)
  have n: "k * sz < n" "n \<le> (k + 1) * sz"
    using assms(7,8) unfolding len by (simp_all add: sz_def n_def)
  have "k * sz + n mod sz = (if n mod sz = 0 then n - sz else n)"
  proof (cases "n = (k + 1) * sz")
    case True
    then show ?thesis by simp
  next
    case False
    then have "n < k * sz + sz" using n by simp
    then have "n - k * sz < sz" "n = k * sz + (n - k * sz)" using n by simp_all
    then have "n mod sz = n - k * sz" by (metis mod_less mod_mult_self3)
    then show ?thesis using n by simp
  qed
  then show ?thesis
    using copy_chain_run[OF assms(3,5), of d fsize "[]"] chain_bytes_data[OF assms(1,2,4,5) ne, of fsize]
    by (simp add: sz_def n_def k_def)
qed

text \<open>The volume of the image \<open>demo_disk\<close>, with a file in the clusters 2 and 3.\<close>

definition demo_fat :: fat12_t where
  "demo_fat = \<lparr>boot = demo_boot, media_descriptor = 0xf0, eof_marker = 0xfff, fat_entries = [3, 0xfff],
     root_dir_entries = demo_dir, volume_label = Some 0\<rparr>"

lemma demo_geometry:
  "unat (base_address demo_boot) = 2112" "cluster_size demo_boot = 512"
  by (simp_all add: base_address_def cluster_size_def DIR_ENTRY_MEMBER_SIZE_def demo_boot_def)

lemma demo_chain: "chain demo_fat 2 [2, 3]"
  by (simp add: next_of_def nth_opt_def demo_fat_def)

lemma demo_image:
  obtains pre where "image demo_disk = pre @ replicate 1024 0x61" "length pre = 2112"
proof
  let ?pre = "enc_boot demo_boot @ enc12s (0xff0 # 0xfff # 3 # 0xfff # replicate 1020 0) @ concat (map enc_direntry demo_dir)"
  show "image demo_disk = ?pre @ replicate 1024 0x61" by (simp add: demo_disk_def)
  show "length ?pre = 2112"
    using demo_dir_ok length_enc_boot[OF demo_boot_ok]
    by (simp add: length_enc12s dir_ok_def demo_dir_def length_enc_direntry)
qed

lemma demo_clusters:
  "cluster_data demo_disk demo_fat 2 = replicate 512 0x61" "cluster_data demo_disk demo_fat 3 = replicate 512 0x61"
  "cluster_inside demo_disk demo_fat 2" "cluster_inside demo_disk demo_fat 3"
  by (rule demo_image; simp add: cluster_data_def cluster_inside_def demo_fat_def demo_geometry)+

lemma demo_copy: "copy_chain demo_disk demo_fat 700 2 [] = Some (replicate 700 0x61)"
proof -
  have sz: "cluster_size (boot demo_fat) = 512" by (simp add: demo_fat_def demo_geometry)
  have len: "length (image demo_disk) \<le> 2 ^ 32" by (rule demo_image) simp
  show ?thesis
    using copy_chain_run[OF demo_chain, of demo_disk 700 "[]"]
      chain_bytes_data[OF demo_usable len, of "[2, 3]" demo_fat 700]
    by (simp add: sz demo_clusters flip: replicate_add)
qed

theorem extract_contents_witness:
  "copy_chain demo_disk demo_fat 700 2 [] = Some (replicate 700 0x61) \<and>
   copy_chain demo_disk demo_fat 1024 2 [] = Some (replicate 512 0x61)"
proof -
  have sz: "cluster_size (boot demo_fat) = 512" by (simp add: demo_fat_def demo_geometry)
  have len: "length (image demo_disk) \<le> 2 ^ 32" by (rule demo_image) simp
  show ?thesis
    using extract_contents[OF demo_usable len demo_chain, of 700] extract_contents[OF demo_usable len demo_chain, of 1024]
    by (simp add: sz demo_clusters flip: replicate_add)
qed

subsection \<open>The path of an extracted file\<close>

definition trim :: "u8 list \<Rightarrow> u8 list" where
  "trim bs = rev (dropWhile (\<lambda>b. b = 0x20) (rev bs))"

definition dos_name :: "direntry_t \<Rightarrow> u8 list" where
  "dos_name e = trim (filename e) @
     (if extension e = replicate MAX_EXTENSION 0x20 then [] else 0x2e # extension e)"

lemma nospace_size_append: "n \<le> length xs \<Longrightarrow> nospace_size (xs @ ys) n = nospace_size xs n"
  by (induction n) (auto simp: nth_append)

lemma nospace_size_trim:
  "nospace_size name (length name) = (if trim name = [] then None else Some (length (trim name)))"
  by (induction name rule: rev_induct) (auto simp: trim_def nospace_size_append nth_append)

lemma trim_prefix: "take (length (trim name)) name = trim name" "length (trim name) \<le> length name"
proof -
  have e: "trim name @ rev (takeWhile (\<lambda>b. b = 0x20) (rev name)) = name"
    unfolding trim_def rev_append[symmetric] takeWhile_dropWhile_id by simp
  show "take (length (trim name)) name = trim name" using e by (metis append_eq_conv_conj)
  show "length (trim name) \<le> length name" using e by (metis length_append le_add1)
qed

lemma poke_shift: "poke (length p + i) bs (p @ t) = map_option ((@) p) (poke i bs t)"
  by (simp add: poke_def)

lemma poke_at: "length t' = length bs \<Longrightarrow> poke (length p) bs (p @ t' @ t) = Some (p @ bs @ t)"
  by (simp add: poke_def)

lemma split_at:
  assumes "n \<le> length t"
  obtains u v where "t = u @ v" "length u = n"
  using assms by (metis append_take_drop_id length_take min_absorb2)

text \<open>Whatever the buffer held behind the directory, the name is put there with a terminator.\<close>

lemma build_name_spec:
  assumes "direntry_ok e" and "trim (filename e) \<noteq> []" and "length t = 13"
  shows "\<exists>t'. build_name e (length p) (p @ t) = Some (p @ dos_name e @ 0 # t') \<and> length (dos_name e @ 0 # t') = 13"
proof -
  let ?n = "length (trim (filename e))"
  have len: "length (filename e) = 8" "length (extension e) = 3"
    using assms(1) by (simp_all add: direntry_ok_def MAX_FILE_NAME_def MAX_EXTENSION_def)
  have n8: "?n \<le> 8" using trim_prefix(2)[of "filename e"] len by simp
  have ns: "nospace_size (filename e) MAX_FILE_NAME = Some ?n"
    using nospace_size_trim[of "filename e"] len assms(2) by (simp add: MAX_FILE_NAME_def)
  obtain u v where uv: "t = u @ v" "length u = ?n" by (rule split_at[of ?n t]) (use n8 assms(3) in auto)
  have lv: "length v = 13 - ?n" using uv assms(3) by simp
  have p1: "poke (length p) (take ?n (filename e)) (p @ t) = Some (p @ trim (filename e) @ v)"
    unfolding uv(1) trim_prefix(1) by (rule poke_at) (rule uv(2))
  show ?thesis
  proof (cases "extension e = replicate MAX_EXTENSION 0x20")
    case True
    obtain w x where w: "v = w # x" using lv n8 by (cases v) auto
    have "poke (length p + ?n) [0] (p @ trim (filename e) @ v) = Some (p @ trim (filename e) @ 0 # x)"
      using poke_at[of "[w]" "[0]" "p @ trim (filename e)" x] by (simp add: w)
    then show ?thesis using True p1 ns w lv n8 by (simp add: build_name_def dos_name_def)
  next
    case False
    obtain a b c where v: "v = a # b @ c" "length b = 3"
    proof -
      obtain a v' where a: "v = a # v'" using lv n8 by (cases v) auto
      obtain b c where "v' = b @ c" "length b = 3" by (rule split_at[of 3 v']) (use a lv n8 in auto)
      with a show ?thesis using that by blast
    qed
    obtain x c' where c: "c = x # c'" using v lv n8 by (cases c) auto
    have p2: "poke (length p + ?n) [0x2e] (p @ trim (filename e) @ v) = Some (p @ trim (filename e) @ 0x2e # b @ c)"
      using poke_at[of "[a]" "[0x2e]" "p @ trim (filename e)" "b @ c"] by (simp add: v)
    have p3: "poke (length p + ?n + 1) (extension e) (p @ trim (filename e) @ 0x2e # b @ c) =
        Some (p @ trim (filename e) @ 0x2e # extension e @ c)"
      using poke_at[of b "extension e" "p @ trim (filename e) @ [0x2e]" c] v(2) len by simp
    have p4: "poke (length p + ?n + 1 + MAX_EXTENSION) [0] (p @ trim (filename e) @ 0x2e # extension e @ c) =
        Some (p @ trim (filename e) @ 0x2e # extension e @ 0 # c')"
      using poke_at[of "[x]" "[0]" "p @ trim (filename e) @ 0x2e # extension e" c'] len c
      by (simp add: MAX_EXTENSION_def ac_simps)
    have "build_name e (length p) (p @ t) = Some (p @ trim (filename e) @ 0x2e # extension e @ 0 # c')"
      using False by (simp only: build_name_def ns bind.bind_lunit p1 p2 p3 p4 not_False_eq_True if_True)
    moreover have "?n + length c' = 8" using lv n8 v c by simp
    ultimately show ?thesis using False len by (simp add: dos_name_def)
  qed
qed

lemma build_name_blank: "direntry_ok e \<Longrightarrow> trim (filename e) = [] \<Longrightarrow> build_name e n buf = None"
  using nospace_size_trim[of "filename e"] by (simp add: build_name_def direntry_ok_def)

lemma c_string_app: "0 \<notin> set bs \<Longrightarrow> c_string (bs @ 0 # t) = bs"
  unfolding c_string_def by (subst takeWhile_append2) auto

text \<open>C19: Extracting one entry. If its name is not all spaces, the path buffer, whatever it still
  holds from earlier files, becomes the directory, the name without trailing spaces and, unless the
  extension is blank, a dot and the extension with its spaces; nothing is written outside the 13
  bytes reserved for it. The file of that path, and no other, then holds the bytes of the chain.\<close>

theorem extract_single_file_path:
  assumes "direntry_ok e" and "trim (filename e) \<noteq> []" and "length t = 13"
    and "0 \<notin> set p" and "0 \<notin> set (dos_name e)" and "open_ok h (p @ dos_name e)" and "files h (p @ dos_name e) = None"
    and "start_cluster e \<noteq> 0 \<longrightarrow> copy_chain d fat (filesize e) (start_cluster e) [] = Some bs"
  shows "\<exists>t' h'. extract_single_file d fat e (p @ t) (length p) h = Some (p @ t', h') \<and> length t' = 13 \<and>
     files h' = (files h)(p @ dos_name e \<mapsto>
       \<lparr>perm = (if attributes e AND READ_ONLY \<noteq> 0 then 292 else 420),
        content = (if start_cluster e = 0 then [] else bs)\<rparr>) \<and>
     open_ok h' = open_ok h \<and> stdout h' = stdout h"
proof -
  obtain t' where bn: "build_name e (length p) (p @ t) = Some (p @ dos_name e @ 0 # t')"
    and len: "length (dos_name e @ 0 # t') = 13"
    using build_name_spec[OF assms(1-3)] by blast
  have cs: "c_string (p @ dos_name e @ 0 # t') = p @ dos_name e"
    using c_string_app[of "p @ dos_name e"] assms(4,5) by simp
  show ?thesis
    by (rule exI[of _ "dos_name e @ 0 # t'"])
       (use assms(6-8) len in \<open>auto simp: extract_single_file_def bn cs open_trunc_def append_to_def Let_def\<close>)
qed

definition demo_host :: host where
  "demo_host = \<lparr>files = Map.empty, open_ok = (\<lambda>_. True), stdout = []\<rparr>"

theorem extract_single_file_path_witness:
  "\<exists>t' h'. extract_single_file demo_disk demo_fat demo_file_entry ([0x6f, 0x2f] @ replicate 13 0) (Suc (Suc 0)) demo_host =
       Some ([0x6f, 0x2f] @ t', h') \<and> length t' = 13 \<and>
     files h' = [[0x6f, 0x2f, 0x42, 0x2e, 0x54, 0x58, 0x54] \<mapsto> \<lparr>perm = 420, content = replicate 700 0x61\<rparr>]"
proof -
  let ?e = demo_file_entry
  have t: "trim (filename ?e) = [0x42]" by (simp add: trim_def demo_file_entry_def demo_entry_def)
  have n: "dos_name ?e = [0x42, 0x2e, 0x54, 0x58, 0x54]"
    using t by (simp add: dos_name_def demo_file_entry_def demo_entry_def MAX_EXTENSION_def numeral_3_eq_3)
  have ok: "direntry_ok ?e" using demo_dir_ok by (simp add: dir_ok_def demo_dir_def)
  have f: "attributes ?e = 0" "start_cluster ?e = 2" "filesize ?e = 700"
    by (simp_all add: demo_file_entry_def demo_entry_def)
  show ?thesis
    using extract_single_file_path[of ?e "replicate 13 0" "[0x6f, 0x2f]" demo_host demo_disk demo_fat "replicate 700 0x61"]
    by (simp add: t n ok f demo_copy demo_host_def) blast
qed

subsection \<open>When extraction comes back\<close>

definition extractable :: "fat12_t \<Rightarrow> direntry_t \<Rightarrow> bool" where
  "extractable fat e \<longleftrightarrow> trim (filename e) \<noteq> [] \<and>
     (start_cluster e \<noteq> 0 \<longrightarrow> (\<exists>cs. chain fat (start_cluster e) cs) \<and> cluster_size (boot fat) \<noteq> 0)"

lemma extract_single_file_iff:
  assumes "direntry_ok e" and "length t = 13" and "\<forall>q. open_ok h q"
  shows "(\<exists>r. extract_single_file d fat e (p @ t) (length p) h = Some r) \<longleftrightarrow> extractable fat e"
proof (cases "trim (filename e) = []")
  case True
  then show ?thesis
    using build_name_blank[OF assms(1)] by (simp add: extract_single_file_def extractable_def)
next
  case False
  then obtain t' where "build_name e (length p) (p @ t) = Some (p @ dos_name e @ 0 # t')"
    using build_name_spec[OF assms(1) _ assms(2)] by blast
  then show ?thesis
    using False assms(3) copy_chain_returns_iff[of d fat "filesize e" "start_cluster e" "[]"]
    by (auto simp: extract_single_file_def extractable_def open_trunc_def Let_def split: bind_splits)
qed

lemma extract_single_file_frame:
  assumes "extract_single_file d fat e (p @ t) (length p) h = Some (buf, h')"
    and "direntry_ok e" and "length t = 13"
  shows "\<exists>t'. buf = p @ t' \<and> length t' = 13" and "open_ok h' = open_ok h"
proof -
  have ne: "trim (filename e) \<noteq> []"
    using assms(1) build_name_blank[OF assms(2)] by (auto simp: extract_single_file_def)
  then obtain t' where "build_name e (length p) (p @ t) = Some (p @ dos_name e @ 0 # t')"
    "length (dos_name e @ 0 # t') = 13"
    using build_name_spec[OF assms(2) _ assms(3)] by blast
  then have "buf = p @ dos_name e @ 0 # t' \<and> open_ok h' = open_ok h"
    using assms(1)
    by (auto simp: extract_single_file_def open_trunc_def append_to_def printf_def Let_def
        split: if_splits bind_splits)
  then show "\<exists>t'. buf = p @ t' \<and> length t' = 13" "open_ok h' = open_ok h"
    using \<open>length (dos_name e @ 0 # t') = 13\<close> by auto
qed

lemma extract_entries_iff:
  assumes "\<forall>e \<in> set es. direntry_ok e" and "length t = 13" and "\<forall>q. open_ok h q"
  shows "(\<exists>h'. extract_entries d fat es (p @ t) (length p) h = Some h') \<longleftrightarrow>
     (\<exists>e \<in> set es. is_entry_free e) \<and>
     (\<forall>e \<in> set (takeWhile (\<lambda>e. \<not> is_entry_free e) es). is_regular_entry e \<longrightarrow> extractable fat e)"
  using assms
proof (induction es arbitrary: t h)
  case (Cons e es)
  show ?case
  proof (cases "is_entry_free e \<or> \<not> is_regular_entry e")
    case True
    then show ?thesis using Cons by auto
  next
    case False
    note iff = extract_single_file_iff[of e t h d fat p]
    show ?thesis
    proof (cases "extract_single_file d fat e (p @ t) (length p) h")
      case None
      then show ?thesis using False iff Cons.prems by simp
    next
      case (Some r)
      then obtain buf h' where r: "extract_single_file d fat e (p @ t) (length p) h = Some (buf, h')"
        by (cases r) auto
      from extract_single_file_frame[OF this] Cons.prems obtain t' where
        t': "buf = p @ t'" "length t' = 13" "open_ok h' = open_ok h" by auto
      show ?thesis using False r t' iff Cons.IH[of t' h'] Cons.prems by auto
    qed
  qed
qed simp

text \<open>C20: When extraction comes back. For a directory that was read from the disk, when every
  allocation and every opening of an output file succeeds, \<^verbatim>\<open>extract_files\<close> returns exactly if some entry is free (the loop has no other
  bound, so a completely filled root directory is overrun) and every regular entry before it has
  a name that is not blank and, when it has clusters, a chain that reaches the end marker.\<close>

theorem extract_files_returns:
  assumes "\<forall>e \<in> set (root_dir_entries fat). direntry_ok e" and "max_root_dir_entries (boot fat) \<noteq> 0"
    and "\<forall>n. malloc_ok d n" and "\<forall>q. open_ok h q"
  shows "(\<exists>h'. extract_files d fat out_dir h = Some h') \<longleftrightarrow>
     (\<exists>e \<in> set (root_dir_entries fat). is_entry_free e) \<and>
     (\<forall>e \<in> set (takeWhile (\<lambda>e. \<not> is_entry_free e) (root_dir_entries fat)).
        is_regular_entry e \<longrightarrow> extractable fat e)"
proof -
  let ?p = "out_dir @ [0x2f]"
  obtain t where t: "length t = 13" "extract_files d fat out_dir h =
      extract_entries d fat (root_dir_entries fat) (?p @ t) (length ?p) h"
  proof -
    define junk where "junk = map (stale d 0) [0..<14 + length out_dir]"
    obtain a b where ab: "junk = a @ b" "length a = length out_dir"
      by (rule split_at[of "length out_dir" junk]) (auto simp: junk_def)
    have "length junk = length out_dir + 14" by (simp add: junk_def)
    then have "length b = 14" unfolding ab(1) using ab(2) by simp
    then obtain x y c where b: "b = x # y # c" "length c = 12" by (auto simp: length_Suc_conv eval_nat_numeral)
    have "poke 0 (out_dir @ [0]) junk = Some (out_dir @ 0 # y # c)" using ab b by (simp add: poke_def)
    moreover have "poke (length out_dir) [0x2f] (out_dir @ 0 # y # c) = Some (out_dir @ 0x2f # y # c)"
      using poke_at[of "[0]" "[0x2f]" out_dir "y # c"] by simp
    moreover have "poke (Suc (length out_dir)) [0] (out_dir @ 0x2f # y # c) = Some (out_dir @ 0x2f # 0 # c)"
      using poke_at[of "[y]" "[0]" "out_dir @ [0x2f]" c] by simp
    ultimately show ?thesis
      using assms(2,3) b(2)
      by (intro that[of "0 # c"])
         (simp_all add: extract_files_def MAX_FILE_NAME_def MAX_EXTENSION_def Let_def junk_def[symmetric])
  qed
  show ?thesis unfolding t(2) by (rule extract_entries_iff[OF assms(1) t(1) assms(4)])
qed

theorem extract_files_returns_witness:
  "(\<exists>h'. extract_files demo_disk (demo_fat\<lparr>root_dir_entries := demo_dir @ [demo_entry (replicate 8 0) 0]\<rparr>)
      [0x6f] demo_host = Some h') \<and>
   extract_files demo_disk demo_fat [0x6f] demo_host = None"
proof -
  let ?fat = "demo_fat\<lparr>root_dir_entries := demo_dir @ [demo_entry (replicate 8 0) 0]\<rparr>"
  let ?used = "\<lambda>e. \<not> is_entry_free e"
  have free: "is_entry_free (demo_entry (replicate 8 0) 0)"
    by (simp add: demo_entry_def is_entry_free_def ENTRY_FREE_def)
  have used: "\<forall>e \<in> set demo_dir. ?used e"
    by (simp add: demo_entry_def demo_dir_def demo_file_entry_def is_entry_free_def ENTRY_FREE_def)
  have ok: "\<forall>e \<in> set (demo_dir @ [demo_entry (replicate 8 0) 0]). direntry_ok e"
    using demo_dir_ok by (auto simp: dir_ok_def demo_entry_def direntry_ok_def MAX_FILE_NAME_def MAX_EXTENSION_def)
  have sz: "cluster_size (boot demo_fat) \<noteq> 0" by (simp add: demo_fat_def demo_geometry)
  have "chain ?fat 2 [2, 3]" by (simp add: next_of_def nth_opt_def demo_fat_def)
  then have "\<exists>cs. chain ?fat 2 cs" by (rule exI)
  moreover have "trim (filename e) \<noteq> [] \<and> start_cluster e = 2" if "e \<in> set demo_dir" for e
    using that by (auto simp: demo_dir_def demo_file_entry_def demo_entry_def trim_def)
  ultimately have ex: "extractable ?fat e" if "e \<in> set demo_dir" for e
    using that sz by (auto simp: extractable_def)
  have max: "max_root_dir_entries demo_boot \<noteq> 0" by (simp add: demo_boot_def)
  have m: "\<forall>n. malloc_ok demo_disk n" "\<forall>q. open_ok demo_host q"
    by (simp_all add: demo_disk_def demo_host_def)
  have "takeWhile ?used (demo_dir @ [demo_entry (replicate 8 0) 0]) = demo_dir"
    using used free by (simp add: takeWhile_append2)
  then have "\<exists>h'. extract_files demo_disk ?fat [0x6f] demo_host = Some h'"
    using extract_files_returns[of ?fat demo_disk demo_host "[0x6f]"] ok ex free max m
    by (simp add: demo_fat_def)
  moreover have "\<not> (\<exists>h'. extract_files demo_disk demo_fat [0x6f] demo_host = Some h')"
    using extract_files_returns[of demo_fat demo_disk demo_host "[0x6f]"] ok used max m
    by (simp add: demo_fat_def)
  ultimately show ?thesis by simp
qed

end
