(* ===== verification/Fat12_Print.thy ===== *)
theory Fat12_Print
  imports Fat12_Extract
begin

text \<open>
  Listing a volume, the printing functions of \<^verbatim>\<open>FAT12/src/fat12.c\<close> and the program \<^verbatim>\<open>msdosdir.c\<close>. What
  is printed is a string; \<open>None\<close> stands for reading through the volume label pointer when no label
  was found, or reading an entry that was never filled in.
\<close>

subsection \<open>Formatting\<close>

definition pad_left :: "char \<Rightarrow> nat \<Rightarrow> string \<Rightarrow> string" where
  "pad_left c n s = replicate (n - length s) c @ s"

definition newline :: string where
  "newline = [CHR 0x0A]"

text \<open>\<open>"%.*s"\<close> with the array's size: at most the whole array, up to a zero byte.\<close>

definition PRINT_ARRAY :: "u8 list \<Rightarrow> string" where
  "PRINT_ARRAY bs = chars (c_string bs)"

definition two_digits :: "nat \<Rightarrow> string" where
  "two_digits n = pad_left (CHR ''0'') 2 (dec n)"

subsection \<open>Dates and times\<close>

definition SECONDS_MASK :: u16 where "SECONDS_MASK = 0x1f"
definition MINUTES_MASK :: u16 where "MINUTES_MASK = push_bit 5 0x2f"
definition HOURS_MASK :: u16 where "HOURS_MASK = push_bit 11 0x1f"
definition DAY_MASK :: u16 where "DAY_MASK = 0x1f"
definition MONTH_MASK :: u16 where "MONTH_MASK = push_bit 5 0xf"
definition YEAR_MASK :: u16 where "YEAR_MASK = push_bit 9 0x3f"
definition BASE_YEAR :: nat where "BASE_YEAR = 1980"

definition MASK_AND_SHIFT :: "u16 \<Rightarrow> u16 \<Rightarrow> nat \<Rightarrow> u16" where
  "MASK_AND_SHIFT expr field_mask bits_to_right = drop_bit bits_to_right (expr AND field_mask)"

definition seconds_of :: "u16 \<Rightarrow> u16" where "seconds_of t = MASK_AND_SHIFT t SECONDS_MASK 0"
definition minutes_of :: "u16 \<Rightarrow> u16" where "minutes_of t = MASK_AND_SHIFT t MINUTES_MASK 5"
definition hours_of :: "u16 \<Rightarrow> u16" where "hours_of t = MASK_AND_SHIFT t HOURS_MASK 11"
definition day_of :: "u16 \<Rightarrow> u16" where "day_of d = MASK_AND_SHIFT d DAY_MASK 0"
definition month_of :: "u16 \<Rightarrow> u16" where "month_of d = MASK_AND_SHIFT d MONTH_MASK 5"
definition year_of :: "u16 \<Rightarrow> u16" where "year_of d = MASK_AND_SHIFT d YEAR_MASK 9"

subsection \<open>The listing\<close>

definition print_single_file_data :: "direntry_t \<Rightarrow> string" where
  "print_single_file_data e =
     PRINT_ARRAY (filename e) @ ''.'' @ PRINT_ARRAY (extension e) @
     '' '' @ pad_left (CHR '' '') 10 (dec (unat (filesize e))) @
     '' '' @ two_digits (unat (month_of (date e))) @ ''-'' @ two_digits (unat (day_of (date e))) @
     ''-'' @ two_digits (unat (year_of (date e)) + BASE_YEAR) @
     '' '' @ two_digits (unat (hours_of (time e))) @ '':'' @ two_digits (unat (minutes_of (time e))) @
     '':'' @ two_digits (unat (seconds_of (time e))) @ newline"

text \<open>The loop: \<open>n\<close> is how far \<open>i\<close> is from \<open>max_root_dir_entries\<close>.\<close>

fun print_entries :: "direntry_t list \<Rightarrow> nat \<Rightarrow> string \<Rightarrow> u32 \<Rightarrow> u32 \<Rightarrow> (string \<times> u32 \<times> u32) option" where
  "print_entries es 0 out total_files total_size = Some (out, total_files, total_size)"
| "print_entries [] (Suc n) out total_files total_size = None"
| "print_entries (e # es) (Suc n) out total_files total_size =
     (if is_entry_free e then Some (out, total_files, total_size)
      else if is_regular_entry e
      then print_entries es n (out @ print_single_file_data e) (total_files + 1) (total_size + filesize e)
      else print_entries es n out total_files total_size)"

definition print_file_data :: "fat12_t \<Rightarrow> string option" where
  "print_file_data fat = do {
     (out, total_files, total_size) \<leftarrow>
       print_entries (root_dir_entries fat) (unat (max_root_dir_entries (boot fat))) [] 0 0;
     Some (out @ newline @ dec (unat total_files) @ '' file(s), '' @ dec (unat total_size) @ '' bytes'' @ newline) }"

definition print_volume_data :: "fat12_t \<Rightarrow> string option" where
  "print_volume_data fat = do {
     i \<leftarrow> volume_label fat;
     e \<leftarrow> nth_opt (root_dir_entries fat) i;
     Some (''Volume name is '' @ PRINT_ARRAY (filename e) @ PRINT_ARRAY (extension e) @ newline) }"

definition print_fat12 :: "fat12_t \<Rightarrow> string option" where
  "print_fat12 fat = do {
     vol \<leftarrow> print_volume_data fat;
     list \<leftarrow> print_file_data fat;
     Some (vol @ newline @ list) }"

text \<open>\<^verbatim>\<open>msdosdir.c\<close>\<close>

definition msdosdir_main :: "u8 list list \<Rightarrow> disk option \<Rightarrow> (nat \<times> string) option" where
  "msdosdir_main argv input =
     (if length argv < 2
      then Some (USER_ERROR, ''Please include the input file as a command line argument.'' @ newline)
      else case input of
        None \<Rightarrow> Some (SYSTEM_ERROR, [])
      | Some d \<Rightarrow> (case read_fat12 d 0 of
          None \<Rightarrow> None
        | Some Failure \<Rightarrow> Some (SYSTEM_ERROR, [])
        | Some (Success fat _) \<Rightarrow> do { out \<leftarrow> print_fat12 fat; Some (0, out) }))"

subsection \<open>What is listed\<close>

definition listed :: "direntry_t list \<Rightarrow> direntry_t list" where
  "listed es = filter is_regular_entry (takeWhile (\<lambda>e. \<not> is_entry_free e) es)"

lemma print_entries_listed:
  assumes "dir_ok n es"
  shows "print_entries es n out k s =
    Some (out @ concat (map print_single_file_data (listed es)), k + of_nat (length (listed es)),
      s + sum_list (map filesize (listed es)))"
  using assms
proof (induction es arbitrary: n out k s)
  case Nil
  then show ?case by (simp add: dir_ok_def listed_def)
next
  case (Cons e es)
  then obtain m where n: "n = Suc m" by (cases n) (auto simp: dir_ok_def)
  have "dir_ok m es" if "\<not> is_entry_free e"
    using Cons.prems that n by (auto simp: dir_ok_def Cons_eq_append_conv)
  then show ?case using Cons.IH[of m] n by (auto simp: listed_def)
qed

text \<open>C21: The listing of a directory that was read from the disk has one line for every regular entry
  before the first free one, in order, and then the number of these entries and the sum of their
  sizes, the latter modulo \<open>2^32\<close>. It never looks at an entry that was not read.\<close>

theorem print_file_data_listing:
  assumes "dir_ok (unat (max_root_dir_entries (boot fat))) (root_dir_entries fat)"
  shows "print_file_data fat = Some (concat (map print_single_file_data (listed (root_dir_entries fat))) @
     newline @ dec (length (listed (root_dir_entries fat))) @ '' file(s), '' @
     dec (sum_list (map (\<lambda>e. unat (filesize e)) (listed (root_dir_entries fat))) mod 2 ^ 32) @ '' bytes'' @ newline)"
proof -
  let ?l = "listed (root_dir_entries fat)"
  have "length ?l \<le> length (root_dir_entries fat)"
    unfolding listed_def by (meson length_filter_le length_takeWhile_le order_trans)
  also have "\<dots> \<le> unat (max_root_dir_entries (boot fat))" using assms by (auto simp: dir_ok_def)
  also have "\<dots> < 2 ^ 16" using unsigned_less[of "max_root_dir_entries (boot fat)", where 'a = nat] by simp
  finally have "unat (of_nat (length ?l) :: u32) = length ?l" by (simp add: unsigned_of_nat take_bit_nat_eq_self)
  moreover have "unat (sum_list (map filesize es)) = sum_list (map (\<lambda>e. unat (filesize e)) es) mod 2 ^ 32"
    for es :: "direntry_t list"
    by (induction es) (simp_all add: unat_word_ariths mod_simps)
  ultimately show ?thesis by (simp add: print_file_data_def print_entries_listed[OF assms])
qed

lemma demo_listed: "listed demo_dir = [demo_file_entry]"
  by (simp add: listed_def demo_dir_def demo_file_entry_def demo_entry_def is_entry_free_def ENTRY_FREE_def
    is_regular_entry_def is_volume_label_def is_entry_deleted_def VOLUME_LABEL_def FILE_DELETED_def)

theorem print_file_data_listing_witness:
  "print_file_data demo_fat = Some (print_single_file_data demo_file_entry @ newline @ dec 1 @ '' file(s), '' @
     dec 700 @ '' bytes'' @ newline)"
  using print_file_data_listing[of demo_fat] demo_dir_ok
  by (simp add: demo_fat_def demo_listed) (simp add: demo_file_entry_def demo_entry_def)

subsection \<open>Timestamps\<close>

text \<open>The fields of a FAT time and date, packed as the format defines them.\<close>

definition pack_time :: "u16 \<Rightarrow> u16 \<Rightarrow> u16 \<Rightarrow> u16" where
  "pack_time h m s = push_bit 11 h OR push_bit 5 m OR s"

definition pack_date :: "u16 \<Rightarrow> u16 \<Rightarrow> u16 \<Rightarrow> u16" where
  "pack_date y m d = push_bit 9 y OR push_bit 5 m OR d"

lemmas time_defs = seconds_of_def minutes_of_def hours_of_def day_of_def month_of_def year_of_def
  MASK_AND_SHIFT_def SECONDS_MASK_def MINUTES_MASK_def HOURS_MASK_def DAY_MASK_def MONTH_MASK_def
  YEAR_MASK_def pack_time_def pack_date_def

text \<open>C22: Decoding a timestamp gives back the hours, the seconds field, the day and the month that were
  packed. The minutes lose bit 4 (the mask is \<open>0x2f\<close>, not \<open>0x3f\<close>), and the years since 1980 lose
  bit 6 (the mask has six bits, the field seven).\<close>

theorem timestamp_fields:
  assumes "take_bit 5 h = h" "take_bit 6 m = m" "take_bit 5 s = s"
    and "take_bit 7 y = y" "take_bit 4 mo = mo" "take_bit 5 dd = dd"
  shows "hours_of (pack_time h m s) = h \<and> seconds_of (pack_time h m s) = s \<and>
    minutes_of (pack_time h m s) = m AND 0x2f \<and>
    day_of (pack_date y mo dd) = dd \<and> month_of (pack_date y mo dd) = mo \<and>
    year_of (pack_date y mo dd) = take_bit 6 y"
proof -
  have m: "(0x1f :: u16) = mask 5" "(0xf :: u16) = mask 4" "(0x3f :: u16) = mask 6"
    "(0x2f :: u16) = mask 4 OR push_bit 5 1"
    by (simp_all add: mask_eq_exp_minus_1)
  have lt: "bit h n \<Longrightarrow> n < 5" "bit m n \<Longrightarrow> n < 6" "bit s n \<Longrightarrow> n < 5"
    "bit y n \<Longrightarrow> n < 7" "bit mo n \<Longrightarrow> n < 4" "bit dd n \<Longrightarrow> n < 5" for n
    using assms by (metis bit_take_bit_iff)+
  have out: "\<not> bit s (5 + n)" "\<not> bit s (11 + n)" "\<not> bit m (6 + n)" "\<not> bit mo (4 + n)" "\<not> bit dd (5 + n)"
    "\<not> bit dd (9 + n)" for n
    using lt(2,3,5,6)[of "11 + n"] lt(3,6)[of "5 + n"] lt(2)[of "6 + n"] lt(5)[of "4 + n"] lt(6)[of "9 + n"] by auto
  have b32: "bit (32 :: int) n \<longleftrightarrow> n = 5" "bit (32 :: u16) n \<longleftrightarrow> n = 5" for n
    using bit_push_bit_iff[of 5 "1 :: int" n] bit_push_bit_iff[of 5 "1 :: u16" n] by (auto simp: bit_1_iff)
  have "hours_of (pack_time h m s) = h"
    unfolding time_defs m by (rule bit_eqI) (auto simp: bit_simps out dest: lt)
  moreover have "seconds_of (pack_time h m s) = s"
    unfolding time_defs m by (rule bit_eqI) (auto simp: bit_simps out dest: lt)
  moreover have "minutes_of (pack_time h m s) = m AND 0x2f"
    unfolding time_defs m by (rule bit_eqI) (auto simp: bit_simps out b32 dest: lt)
  moreover have "day_of (pack_date y mo dd) = dd"
    unfolding time_defs m by (rule bit_eqI) (auto simp: bit_simps out dest: lt)
  moreover have "month_of (pack_date y mo dd) = mo"
    unfolding time_defs m by (rule bit_eqI) (auto simp: bit_simps out dest: lt)
  moreover have "year_of (pack_date y mo dd) = take_bit 6 y"
    unfolding time_defs m by (rule bit_eqI) (auto simp: bit_simps out dest: lt)
  ultimately show ?thesis by blast
qed

theorem timestamp_fields_witness:
  "minutes_of (pack_time 13 37 12) = 37 \<and> minutes_of (pack_time 13 59 12) = 43 \<and>
   year_of (pack_date 35 6 1) = 35 \<and> year_of (pack_date 70 6 1) = 6"
  using timestamp_fields[of 13 37 12 35 6 1] timestamp_fields[of 13 59 12 70 6 1] by simp

end
