(* ===== verification/Lex.thy ===== *)
theory Lex
  imports Prelude
begin

text \<open>
  The lexer of the assembler, \<^verbatim>\<open>CS720/parser\<close>: tokens (\<^verbatim>\<open>tok.c\<close>), the reserved words (\<^verbatim>\<open>resmap.c\<close>), the
  lexer itself (\<^verbatim>\<open>lex.c\<close>) and the program that prints the tokens of a file (\<^verbatim>\<open>main.c\<close>).

  A stream is the list of bytes still to be read. \<^verbatim>\<open>getc\<close> delivers a \<^verbatim>\<open>char\<close>, so the end of the
  stream and the byte \<open>0xff\<close> look alike, and \<^verbatim>\<open>ungetc\<close> of that value pushes nothing back. Characters
  are classified as in the C locale. The string library \<^verbatim>\<open>string_t\<close> and the map generator \<^verbatim>\<open>map.h\<close> are
  not part of the sources: the operations the lexer calls come in a record \<open>lib\<close>, over types \<open>'s\<close>
  of strings and \<open>'m\<close> of maps, and what the lexer relies on is the predicate \<open>lib_laws\<close>. What
  allocations deliver is an argument. \<open>None\<close> is a call that does not come back: the loops over a
  comment have no test for the end of the stream, and a token whose string could not be allocated
  is used all the same.
\<close>

subsection \<open>Data\<close>

datatype status_t = SUCCESS | OUT_OF_MEM | UNEXPECTED_CHAR | CMD_ARGS | FILE_OPEN_ERROR

datatype tok_type_t = TOK_EOF | NEWLINE | LPAREN | RPAREN | COLON | COMMA | PLUS
  | HEXI | DECI | IDENT | REGISTER
  | NOP | HALT | FRM | DIS | CLR | INC | DEC | ALM | ADD | SUB | MUL | DIV | MOV
  | AND' | OR' | XOR' | CMP | JEQ | JGT | JLT | JLE | JGE

datatype map_status_t = MAP_SUCCESS | MAP_ERROR

record ('s, 'm) lib =
  string_push_back :: "'s \<Rightarrow> u8 \<Rightarrow> 's"
  string_length :: "'s \<Rightarrow> nat"
  string_get :: "'s \<Rightarrow> nat \<Rightarrow> u8"
  string_c_str :: "'s \<Rightarrow> u8 list"
  string_assign_from_char_array :: "'s \<Rightarrow> u8 list \<Rightarrow> 's"
  string_compare :: "'s \<Rightarrow> 's \<Rightarrow> s32"
  string_concatenate :: "'s \<Rightarrow> 's \<Rightarrow> 's"
  resmap_put :: "'m \<Rightarrow> 's \<Rightarrow> tok_type_t \<Rightarrow> map_status_t \<times> 'm"
  resmap_get :: "'m \<Rightarrow> 's \<Rightarrow> map_status_t \<times> tok_type_t"

text \<open>A token's type is not set until it is known, and its string is \<open>None\<close> for a null pointer.\<close>

record 's tok_t =
  tok_type :: "tok_type_t option"
  tok_value :: "'s option"

record 'm lex_t =
  stream :: "u8 list"
  next_char :: u8
  reserved :: 'm

subsection \<open>Streams and characters\<close>

definition EOF :: u8 where "EOF = 0xff"

fun getc :: "u8 list \<Rightarrow> u8 \<times> u8 list" where
  "getc [] = (EOF, [])"
| "getc (b # bs) = (b, bs)"

definition ungetc :: "u8 \<Rightarrow> u8 list \<Rightarrow> u8 list" where
  "ungetc c s = (if c = EOF then s else c # s)"

abbreviation NL :: u8 where "NL \<equiv> 0x0a"

definition in_range :: "u8 \<Rightarrow> u8 \<Rightarrow> u8 \<Rightarrow> bool" where
  "in_range c lo hi \<longleftrightarrow> lo \<le>s c \<and> c \<le>s hi"

definition isdigit :: "u8 \<Rightarrow> bool" where "isdigit c \<longleftrightarrow> 0x30 \<le> c \<and> c \<le> 0x39"
definition isalpha :: "u8 \<Rightarrow> bool" where
  "isalpha c \<longleftrightarrow> (0x41 \<le> c \<and> c \<le> 0x5a) \<or> (0x61 \<le> c \<and> c \<le> 0x7a)"
definition isalnum :: "u8 \<Rightarrow> bool" where "isalnum c \<longleftrightarrow> isalpha c \<or> isdigit c"
definition isspace :: "u8 \<Rightarrow> bool" where "isspace c \<longleftrightarrow> c = 0x20 \<or> (0x09 \<le> c \<and> c \<le> 0x0d)"

definition is_hexi_digit :: "u8 \<Rightarrow> bool" where
  "is_hexi_digit c \<longleftrightarrow> isdigit c \<or> in_range c 0x41 0x46"

text \<open>\<^verbatim>\<open>atoi\<close>, on a string that starts with digits.\<close>

definition atoi :: "u8 list \<Rightarrow> nat" where
  "atoi s = foldl (\<lambda>n c. 10 * n + (unat c - 0x30)) 0 (takeWhile isdigit s)"

definition bytes :: "string \<Rightarrow> u8 list" where
  "bytes s = map (\<lambda>c. of_nat (of_char c)) s"

subsection \<open>Tokens\<close>

text \<open>\<open>mem\<close> is what the two allocations give: \<open>None\<close> if \<^verbatim>\<open>malloc\<close> fails, and else the result of
  \<^verbatim>\<open>string_initialize\<close>.\<close>

definition tok_initialize :: "'s option option \<Rightarrow> 's tok_t option" where
  "tok_initialize mem = (case mem of None \<Rightarrow> None | Some v \<Rightarrow> Some \<lparr>tok_type = None, tok_value = v\<rparr>)"

definition tok_get_type :: "'s tok_t \<Rightarrow> tok_type_t option" where
  "tok_get_type tok = tok_type tok"

definition tok_set_type :: "'s tok_t \<Rightarrow> tok_type_t \<Rightarrow> 's tok_t" where
  "tok_set_type tok t = tok\<lparr>tok_type := Some t\<rparr>"

definition tok_get_value :: "'s tok_t \<Rightarrow> 's option" where
  "tok_get_value tok = tok_value tok"

definition tok_value_append :: "('s, 'm) lib \<Rightarrow> 's tok_t \<Rightarrow> u8 \<Rightarrow> 's tok_t option" where
  "tok_value_append L tok c = do {
     s \<leftarrow> tok_value tok;
     Some (tok\<lparr>tok_value := Some (string_push_back L s c)\<rparr>) }"

definition type_name :: "tok_type_t option \<Rightarrow> string" where
  "type_name t = (case t of
     Some NEWLINE \<Rightarrow> ''NEWLINE'' | Some LPAREN \<Rightarrow> ''LPAREN'' | Some RPAREN \<Rightarrow> ''RPAREN''
   | Some COLON \<Rightarrow> ''COLON'' | Some COMMA \<Rightarrow> ''COMMA'' | Some PLUS \<Rightarrow> ''PLUS''
   | Some IDENT \<Rightarrow> ''IDENT'' | Some HEXI \<Rightarrow> ''HEXI'' | Some DECI \<Rightarrow> ''DECI''
   | Some REGISTER \<Rightarrow> ''REGISTER'' | Some NOP \<Rightarrow> ''NOP'' | Some HALT \<Rightarrow> ''HALT''
   | Some FRM \<Rightarrow> ''FRM'' | Some DIS \<Rightarrow> ''DIS'' | Some CLR \<Rightarrow> ''CLR'' | Some INC \<Rightarrow> ''INC''
   | Some DEC \<Rightarrow> ''DEC'' | Some ALM \<Rightarrow> ''ALM'' | Some ADD \<Rightarrow> ''ADD'' | Some SUB \<Rightarrow> ''SUB''
   | Some MUL \<Rightarrow> ''MUL'' | Some DIV \<Rightarrow> ''DIV'' | Some MOV \<Rightarrow> ''MOV'' | Some AND' \<Rightarrow> ''AND''
   | Some OR' \<Rightarrow> ''OR'' | Some XOR' \<Rightarrow> ''XOR'' | Some CMP \<Rightarrow> ''CMP'' | Some JEQ \<Rightarrow> ''JEQ''
   | Some JGT \<Rightarrow> ''JGT'' | Some JLT \<Rightarrow> ''JLT'' | Some JLE \<Rightarrow> ''JLE'' | Some JGE \<Rightarrow> ''JGE''
   | Some TOK_EOF \<Rightarrow> ''TOK_EOF'' | None \<Rightarrow> ''Unknown'')"

definition tok_print :: "('s, 'm) lib \<Rightarrow> 's tok_t \<Rightarrow> u8 list option" where
  "tok_print L tok = do {
     s \<leftarrow> tok_value tok;
     Some (bytes (type_name (tok_type tok)) @ bytes '', '' @ string_c_str L s @ [NL]) }"

subsection \<open>Reserved words\<close>

definition reserved_words :: "string list" where
  "reserved_words = [''nop'', ''halt'', ''clr'', ''inc'', ''dec'', ''frm'', ''dis'', ''alm'', ''add'',
     ''sub'', ''mul'', ''div'', ''mov'', ''and'', ''or'', ''xor'', ''cmp'', ''jeq'', ''jgt'', ''jlt'',
     ''jge'', ''jle'']"

definition reserved_types :: "tok_type_t list" where
  "reserved_types = [NOP, HALT, CLR, INC, DEC, FRM, DIS, ALM, ADD, SUB, MUL, DIV, MOV, AND', OR', XOR',
     CMP, JEQ, JGT, JLT, JGE, JLE]"

text \<open>The key operations \<^verbatim>\<open>resmap.c\<close> hands to the map generator.\<close>

definition str_copy :: "('s, 'm) lib \<Rightarrow> 's \<Rightarrow> 's \<Rightarrow> 's" where
  "str_copy L s1 s2 = string_concatenate L s1 s2"

definition str_equal :: "('s, 'm) lib \<Rightarrow> 's \<Rightarrow> 's \<Rightarrow> bool" where
  "str_equal L s1 s2 \<longleftrightarrow> string_compare L s1 s2 = 0"

fun hash_loop :: "u8 list \<Rightarrow> u64 \<Rightarrow> u64" where
  "hash_loop [] hash_val = hash_val"
| "hash_loop (c # key) hash_val =
     (if c = 0 then hash_val else hash_loop key ((push_bit 5 hash_val + hash_val) + scast c))"

definition str_hash :: "('s, 'm) lib \<Rightarrow> 's \<Rightarrow> u64" where
  "str_hash L str = hash_loop (string_c_str L str) 5381"

fun put_all :: "('s, 'm) lib \<Rightarrow> 's \<Rightarrow> (string \<times> tok_type_t) list \<Rightarrow> 'm \<Rightarrow> 'm option" where
  "put_all L str [] m = Some m"
| "put_all L str ((w, t) # ws) m =
     (let str = string_assign_from_char_array L str (bytes w)
      in case resmap_put L m str t of
           (MAP_SUCCESS, m) \<Rightarrow> put_all L str ws m
         | (MAP_ERROR, m) \<Rightarrow> None)"

text \<open>The result is \<open>None\<close> for a null pointer; \<open>ok\<close>, \<open>m\<close> and \<open>str\<close> are the results of \<^verbatim>\<open>malloc\<close>,
  \<^verbatim>\<open>resmap_initialize\<close> and \<^verbatim>\<open>string_initialize\<close>.\<close>

definition lex_initialize :: "('s, 'm) lib \<Rightarrow> bool \<Rightarrow> 'm option \<Rightarrow> 's option \<Rightarrow> u8 list \<Rightarrow> 'm lex_t option" where
  "lex_initialize L ok m str file =
     (if \<not> ok then None
      else case m of None \<Rightarrow> None
      | Some m \<Rightarrow> (case str of None \<Rightarrow> None
        | Some str \<Rightarrow> (case put_all L str (zip reserved_words reserved_types) m of
            None \<Rightarrow> None
          | Some m \<Rightarrow> Some \<lparr>stream = file, next_char = 0, reserved = m\<rparr>)))"

subsection \<open>Skipping\<close>

definition lex_is_next_separator :: "u8 list \<Rightarrow> bool \<times> u8 list" where
  "lex_is_next_separator s =
     (let (next, s) = getc s;
          sep = (isspace next \<or> next = 0x3b \<or> next = 0x3a \<or> next = 0x2c \<or> next = 0x29 \<or> next = 0x2b)
      in (sep, ungetc next s))"

text \<open>\<open>while (isspace(next) && next != '\n')\<close> and \<open>while (isspace(next))\<close>: the first argument says
  whether a newline stops the loop.\<close>

function skip_spaces :: "bool \<Rightarrow> u8 \<Rightarrow> u8 list \<Rightarrow> u8 \<times> u8 list" where
  "skip_spaces stop_nl next s =
     (if isspace next \<and> \<not> (stop_nl \<and> next = NL)
      then let (next, s) = getc s in skip_spaces stop_nl next s
      else (next, s))"
  by pat_completeness auto
termination
proof (relation "measure (\<lambda>(b, c, s). 2 * length s + (if isspace c then 1 else 0))")
  fix b c s x and c' :: u8 and s' :: "u8 list"
  assume "isspace c \<and> \<not> (b \<and> c = NL)" "x = getc s" "(c', s') = x"
  then show "((b, c', s'), b, c, s) \<in> measure (\<lambda>(b, c, s). 2 * length s + (if isspace c then 1 else 0))"
    by (cases s) (auto simp: EOF_def isspace_def)
qed simp

declare skip_spaces.simps [simp del]

text \<open>\<open>do next = getc(stream); while (next != '\n');\<close>\<close>

partial_function (option) skip_comment :: "u8 list \<Rightarrow> (u8 \<times> u8 list) option" where
  "skip_comment s = (let (next, s) = getc s in if next \<noteq> NL then skip_comment s else Some (next, s))"

definition lex_skip_insignificant :: "u8 list \<Rightarrow> u8 list option" where
  "lex_skip_insignificant s = do {
     let (next, s) = getc s;
     let (next, s) = skip_spaces True next s;
     (next, s) \<leftarrow> (if next = 0x3b then skip_comment s else Some (next, s));
     Some (ungetc next s) }"

partial_function (option) newline_loop :: "u8 \<Rightarrow> u8 list \<Rightarrow> (u8 \<times> u8 list) option" where
  "newline_loop next s =
     (let (next, s) = skip_spaces False next s
      in if next = 0x3b then do { (next, s) \<leftarrow> skip_comment s; newline_loop next s }
         else Some (next, s))"

definition skip_lines :: "u8 list \<Rightarrow> u8 list option" where
  "skip_lines s = do {
     let (next, s) = getc s;
     (next, s) \<leftarrow> newline_loop next s;
     Some (ungetc next s) }"

subsection \<open>The kinds of tokens\<close>

definition is_register :: "('s, 'm) lib \<Rightarrow> 's \<Rightarrow> bool" where
  "is_register L s \<longleftrightarrow> string_length L s = 2 \<and> string_get L s 0 = 0x52 \<and> in_range (string_get L s 1) 0x30 0x37"

definition lex_get_character_tok ::
    "('s, 'm) lib \<Rightarrow> 'm lex_t \<Rightarrow> 's tok_t \<Rightarrow> tok_type_t \<Rightarrow> 's tok_t option" where
  "lex_get_character_tok L lx tok t = tok_value_append L (tok_set_type tok t) (next_char lx)"

text \<open>A single character followed by what may be skipped; the functions for the parentheses, the
  colon, the comma and the plus sign differ in the type only.\<close>

definition lex_get_punct ::
    "('s, 'm) lib \<Rightarrow> tok_type_t \<Rightarrow> 'm lex_t \<Rightarrow> 's tok_t \<Rightarrow> ('s tok_t \<times> 'm lex_t) option" where
  "lex_get_punct L t lx tok = do {
     tok \<leftarrow> lex_get_character_tok L lx tok t;
     s \<leftarrow> lex_skip_insignificant (stream lx);
     Some (tok, lx\<lparr>stream := s\<rparr>) }"

definition lex_get_lparen where "lex_get_lparen L = lex_get_punct L LPAREN"
definition lex_get_rparen where "lex_get_rparen L = lex_get_punct L RPAREN"
definition lex_get_colon where "lex_get_colon L = lex_get_punct L COLON"
definition lex_get_comma where "lex_get_comma L = lex_get_punct L COMMA"
definition lex_get_plus where "lex_get_plus L = lex_get_punct L PLUS"

definition lex_get_eof ::
    "('s, 'm) lib \<Rightarrow> 'm lex_t \<Rightarrow> 's tok_t \<Rightarrow> ('s tok_t \<times> 'm lex_t) option" where
  "lex_get_eof L lx tok = do {
     tok \<leftarrow> lex_get_character_tok L lx tok TOK_EOF;
     Some (tok, lx) }"

definition lex_get_newline ::
    "('s, 'm) lib \<Rightarrow> 'm lex_t \<Rightarrow> 's tok_t \<Rightarrow> ('s tok_t \<times> 'm lex_t) option" where
  "lex_get_newline L lx tok = do {
     tok \<leftarrow> lex_get_character_tok L lx tok NEWLINE;
     s \<leftarrow> skip_lines (stream lx);
     Some (tok, lx\<lparr>stream := s\<rparr>) }"

text \<open>The digit loops: \<open>n\<close> digits to go. The result says whether all were digits.\<close>

fun get_digits ::
    "('s, 'm) lib \<Rightarrow> (u8 \<Rightarrow> bool) \<Rightarrow> nat \<Rightarrow> 'm lex_t \<Rightarrow> 's tok_t \<Rightarrow> (bool \<times> 's tok_t \<times> 'm lex_t) option" where
  "get_digits L P 0 lx tok = Some (True, tok, lx)"
| "get_digits L P (Suc n) lx tok =
     (let (c, s) = getc (stream lx); lx = lx\<lparr>stream := s, next_char := c\<rparr>
      in if \<not> P c then Some (False, tok, lx)
         else do { tok \<leftarrow> tok_value_append L tok c; get_digits L P n lx tok })"

text \<open>The common end of the literals and identifiers: a separator must follow.\<close>

definition finish_token ::
    "'m lex_t \<Rightarrow> 's tok_t \<Rightarrow> (status_t \<times> 's tok_t \<times> 'm lex_t) option" where
  "finish_token lx tok =
     (let (sep, s) = lex_is_next_separator (stream lx)
      in if \<not> sep then Some (UNEXPECTED_CHAR, tok, lx\<lparr>stream := s\<rparr>)
         else do { s \<leftarrow> lex_skip_insignificant s; Some (SUCCESS, tok, lx\<lparr>stream := s\<rparr>) })"

definition lex_get_hexi ::
    "('s, 'm) lib \<Rightarrow> 'm lex_t \<Rightarrow> 's tok_t \<Rightarrow> (status_t \<times> 's tok_t \<times> 'm lex_t) option" where
  "lex_get_hexi L lx tok = do {
     (ok, tok, lx) \<leftarrow> get_digits L is_hexi_digit 4 lx (tok_set_type tok HEXI);
     if \<not> ok then Some (UNEXPECTED_CHAR, tok, lx) else finish_token lx tok }"

definition lex_get_deci ::
    "('s, 'm) lib \<Rightarrow> 'm lex_t \<Rightarrow> 's tok_t \<Rightarrow> (status_t \<times> 's tok_t \<times> 'm lex_t) option" where
  "lex_get_deci L lx tok = do {
     (ok, tok, lx) \<leftarrow> get_digits L isdigit 5 lx (tok_set_type tok DECI);
     if \<not> ok then Some (UNEXPECTED_CHAR, tok, lx)
     else do {
       v \<leftarrow> tok_get_value tok;
       if 2 ^ 16 \<le> atoi (string_c_str L v) then Some (UNEXPECTED_CHAR, tok, lx) else finish_token lx tok } }"

text \<open>The loop over the characters of a word; it stops at the end of the stream at the latest.\<close>

fun word_loop :: "('s, 'm) lib \<Rightarrow> u8 list \<Rightarrow> 's \<Rightarrow> 's \<times> u8 \<times> u8 list" where
  "word_loop L [] v = (v, EOF, [])"
| "word_loop L (c # s) v = (if isalnum c \<or> c = 0x5f then word_loop L s (string_push_back L v c) else (v, c, s))"

definition lex_get_ident_like ::
    "('s, 'm) lib \<Rightarrow> 'm lex_t \<Rightarrow> 's tok_t \<Rightarrow> (status_t \<times> 's tok_t \<times> 'm lex_t) option" where
  "lex_get_ident_like L lx tok = do {
     tok \<leftarrow> tok_value_append L tok (next_char lx);
     v \<leftarrow> tok_get_value tok;
     let (v, c, s) = word_loop L (stream lx) v;
     let tok = tok\<lparr>tok_value := Some v\<rparr>;
     let lx = lx\<lparr>next_char := c\<rparr>;
     let (sep, s) = lex_is_next_separator (ungetc c s);
     let lx = lx\<lparr>stream := s\<rparr>;
     if \<not> sep then Some (UNEXPECTED_CHAR, tok, lx)
     else do {
       let t = (if is_register L v then REGISTER
                else case resmap_get L (reserved lx) v of (MAP_SUCCESS, t) \<Rightarrow> t | (MAP_ERROR, _) \<Rightarrow> IDENT);
       s \<leftarrow> lex_skip_insignificant s;
       Some (SUCCESS, tok_set_type tok t, lx\<lparr>stream := s\<rparr>) } }"

subsection \<open>The next token\<close>

text \<open>The token is \<open>None\<close> when it was released again because of an error.\<close>

definition lex_get_next_token ::
    "('s, 'm) lib \<Rightarrow> 's option option \<Rightarrow> 'm lex_t \<Rightarrow> (status_t \<times> 's tok_t option \<times> 'm lex_t) option" where
  "lex_get_next_token L mem lx = (case tok_initialize mem of
     None \<Rightarrow> Some (OUT_OF_MEM, None, lx)
   | Some tok \<Rightarrow>
     (let (c, s) = getc (stream lx); lx = lx\<lparr>stream := s, next_char := c\<rparr>;
          done = map_option (\<lambda>(tok, lx). (SUCCESS, Some tok, lx));
          checked = map_option (\<lambda>(error, tok, lx). (error, if error = SUCCESS then Some tok else None, lx))
      in if c = EOF then done (lex_get_eof L lx tok)
         else if c = NL then done (lex_get_newline L lx tok)
         else if c = 0x28 then done (lex_get_lparen L lx tok)
         else if c = 0x29 then done (lex_get_rparen L lx tok)
         else if c = 0x3a then done (lex_get_colon L lx tok)
         else if c = 0x2c then done (lex_get_comma L lx tok)
         else if c = 0x2b then done (lex_get_plus L lx tok)
         else if c = 0x23 then checked (lex_get_hexi L lx tok)
         else if c = 0x24 then checked (lex_get_deci L lx tok)
         else if isalpha c \<or> c = 0x5f then checked (lex_get_ident_like L lx tok)
         else Some (UNEXPECTED_CHAR, None, lx)))"

text \<open>The loop of \<^verbatim>\<open>main\<close>: \<open>mem k\<close> serves the \<open>k\<close>-th call. The result is the exit status and what was
  printed.\<close>

partial_function (option) main_loop ::
    "('s, 'm) lib \<Rightarrow> (nat \<Rightarrow> 's option option) \<Rightarrow> nat \<Rightarrow> 'm lex_t \<Rightarrow> u8 list \<Rightarrow> (status_t \<times> u8 list) option" where
  "main_loop L mem k lx out = do {
     (error, tok, lx) \<leftarrow> lex_get_next_token L (mem k) lx;
     case tok of
       None \<Rightarrow> Some (error, out)
     | Some tok \<Rightarrow>
         if tok_get_type tok = Some TOK_EOF then Some (error, out)
         else do { line \<leftarrow> tok_print L tok; main_loop L mem (k + 1) lx (out @ line) } }"

definition lex_main ::
    "('s, 'm) lib \<Rightarrow> (nat \<Rightarrow> 's option option) \<Rightarrow> bool \<Rightarrow> 'm option \<Rightarrow> 's option \<Rightarrow> nat \<Rightarrow> u8 list option \<Rightarrow>
      (status_t \<times> u8 list) option" where
  "lex_main L mem ok m str argc file =
     (if argc \<noteq> 2 then Some (CMD_ARGS, [])
      else case file of
        None \<Rightarrow> Some (FILE_OPEN_ERROR, [])
      | Some s \<Rightarrow> (case lex_initialize L ok m str s of
          None \<Rightarrow> Some (OUT_OF_MEM, [])
        | Some lx \<Rightarrow> main_loop L mem 0 lx []))"

subsection \<open>What the lexer relies on\<close>

text \<open>\<open>contents\<close> reads a string as the bytes it holds and \<open>entries\<close> a map as a partial function: pushing
  appends, length and access are those of the contents, and a successful put is seen by every later
  get of an equal key.\<close>

definition lib_laws :: "('s, 'm) lib \<Rightarrow> ('s \<Rightarrow> u8 list) \<Rightarrow> ('m \<Rightarrow> u8 list \<rightharpoonup> tok_type_t) \<Rightarrow> bool" where
  "lib_laws L contents entries \<longleftrightarrow>
     (\<forall>s c. contents (string_push_back L s c) = contents s @ [c]) \<and>
     (\<forall>s. string_length L s = length (contents s)) \<and>
     (\<forall>s i. i < length (contents s) \<longrightarrow> string_get L s i = contents s ! i) \<and>
     (\<forall>s. 0 \<notin> set (contents s) \<longrightarrow> string_c_str L s = contents s) \<and>
     (\<forall>s bs. 0 \<notin> set bs \<longrightarrow> contents (string_assign_from_char_array L s bs) = bs) \<and>
     (\<forall>m s t m'. resmap_put L m s t = (MAP_SUCCESS, m') \<longrightarrow> entries m' = (entries m)(contents s \<mapsto> t)) \<and>
     (\<forall>m s t. entries m (contents s) = Some t \<longrightarrow> resmap_get L m s = (MAP_SUCCESS, t)) \<and>
     (\<forall>m s. entries m (contents s) = None \<longrightarrow> fst (resmap_get L m s) = MAP_ERROR)"

lemma lib_lawsD:
  assumes "lib_laws L contents entries"
  shows "contents (string_push_back L s c) = contents s @ [c]"
    and "string_length L s = length (contents s)"
    and "i < length (contents s) \<Longrightarrow> string_get L s i = contents s ! i"
    and "0 \<notin> set (contents s) \<Longrightarrow> string_c_str L s = contents s"
    and "0 \<notin> set bs \<Longrightarrow> contents (string_assign_from_char_array L s bs) = bs"
    and "resmap_put L m s t = (MAP_SUCCESS, m') \<Longrightarrow> entries m' = (entries m)(contents s \<mapsto> t)"
    and "entries m (contents s) = Some t \<Longrightarrow> resmap_get L m s = (MAP_SUCCESS, t)"
    and "entries m (contents s) = None \<Longrightarrow> fst (resmap_get L m s) = MAP_ERROR"
  using assms unfolding lib_laws_def by blast+

subsection \<open>The loops\<close>

definition blank :: "u8 \<Rightarrow> bool" where
  "blank c \<longleftrightarrow> isspace c \<and> c \<noteq> NL"

lemma EOF_not_space [simp]: "\<not> isspace EOF" "\<not> blank EOF"
  by (simp_all add: isspace_def EOF_def blank_def)

lemma getc_simps: "s \<noteq> [] \<Longrightarrow> getc s = (hd s, tl s)"
  by (cases s) auto

lemma skip_spaces_blank: "skip_spaces True (fst (getc s)) (snd (getc s)) = getc (dropWhile blank s)"
proof (induction s)
  case (Cons c s)
  then show ?case by (subst skip_spaces.simps) (simp add: case_prod_beta Let_def blank_def[of c])
qed (simp add: skip_spaces.simps)

lemma skip_spaces_space: "skip_spaces False (fst (getc s)) (snd (getc s)) = getc (dropWhile isspace s)"
proof (induction s)
  case (Cons c s)
  then show ?case by (subst skip_spaces.simps) (auto simp: case_prod_beta Let_def)
qed (simp add: skip_spaces.simps)

lemma skip_comment_run:
  assumes "NL \<in> set s"
  shows "skip_comment s = Some (getc (dropWhile (\<lambda>c. c \<noteq> NL) s))"
  using assms
proof (induction s)
  case (Cons c s)
  then show ?case by (subst skip_comment.simps) auto
qed simp

lemma skip_comment_newline:
  assumes "skip_comment s = Some r"
  shows "NL \<in> set s"
proof -
  have "skip_comment s = Some r \<Longrightarrow> NL \<in> set s"
  proof (induction rule: skip_comment.raw_induct[rotated 1, consumes 1])
    case (1 f s r)
    obtain c t where r: "r = (c, t)" by (cases r)
    from 1 show ?case
    proof (cases s)
      case Nil
      then have "f [] = Some (c, t)" using 1(2) r by (simp add: EOF_def)
      from 1(1)[OF this] show ?thesis by simp
    next
      case (Cons a list)
      then show ?thesis using 1(2) r by (auto split: if_splits dest: 1(1))
    qed
  qed
  then show ?thesis using assms .
qed

lemma skip_comment_iff: "skip_comment s = (if NL \<in> set s then Some (getc (dropWhile (\<lambda>c. c \<noteq> NL) s)) else None)"
  using skip_comment_run[of s] skip_comment_newline[of s] by (cases "skip_comment s") auto

lemma ungetc_getc: "EOF \<notin> set s \<Longrightarrow> ungetc (fst (getc s)) (snd (getc s)) = s"
  by (cases s) (auto simp: ungetc_def)

text \<open>Skipping on text, that is, without the byte \<open>0xff\<close>.\<close>

definition after_comment :: "u8 list \<Rightarrow> u8 list" where
  "after_comment t = dropWhile (\<lambda>c. c \<noteq> NL) t"

lemma text_dropWhile: "EOF \<notin> set xs \<Longrightarrow> EOF \<notin> set (dropWhile P xs)"
  using set_dropWhileD by fastforce

lemma not_semicolon [simp]: "EOF \<noteq> 0x3b" by (simp add: EOF_def)

lemma lex_skip_insignificant_text:
  assumes "EOF \<notin> set s"
  shows "lex_skip_insignificant s =
    (case dropWhile blank s of
       c # t \<Rightarrow> if c = 0x3b then if NL \<in> set t then Some (after_comment t) else None else Some (c # t)
     | [] \<Rightarrow> Some [])"
proof (cases "dropWhile blank s")
  case Nil
  then show ?thesis
    unfolding lex_skip_insignificant_def using skip_spaces_blank[of s]
    by (simp add: case_prod_beta Let_def ungetc_def del: dropWhile_eq_Nil_conv)
next
  case (Cons c t)
  then have "c \<noteq> EOF" "EOF \<notin> set t" using text_dropWhile[OF assms, of blank] by auto
  then show ?thesis
    unfolding lex_skip_insignificant_def using Cons skip_spaces_blank[of s]
    by (simp add: case_prod_beta Let_def skip_comment_iff ungetc_getc text_dropWhile ungetc_def[of c] after_comment_def)
qed

lemma newline_loop_step:
  "newline_loop (fst (getc s)) (snd (getc s)) =
     (case dropWhile isspace s of
        c # t \<Rightarrow> if c = 0x3b then if NL \<in> set t then newline_loop (fst (getc (after_comment t))) (snd (getc (after_comment t)))
                                 else None
                else Some (c, t)
      | [] \<Rightarrow> Some (EOF, []))"
  by (subst newline_loop.simps)
     (simp add: skip_spaces_space case_prod_beta Let_def skip_comment_iff after_comment_def
       split: list.splits del: dropWhile_eq_Nil_conv)

lemma skip_lines_text:
  assumes "EOF \<notin> set s"
  shows "skip_lines s =
    (case dropWhile isspace s of
       c # t \<Rightarrow> if c = 0x3b then if NL \<in> set t then skip_lines (after_comment t) else None else Some (c # t)
     | [] \<Rightarrow> Some [])"
proof (cases "dropWhile isspace s")
  case Nil
  then show ?thesis
    unfolding skip_lines_def using newline_loop_step[of s]
    by (simp add: case_prod_beta Let_def ungetc_def del: dropWhile_eq_Nil_conv)
next
  case (Cons c t)
  then have "c \<noteq> EOF" "EOF \<notin> set t" using text_dropWhile[OF assms, of isspace] by auto
  then show ?thesis
    unfolding skip_lines_def using Cons newline_loop_step[of s]
    by (simp add: case_prod_beta Let_def ungetc_def)
qed

subsection \<open>What is skipped\<close>

definition line_gap :: "u8 list \<Rightarrow> bool" where
  "line_gap g \<longleftrightarrow> (\<exists>b c. g = b @ c \<and> (\<forall>x \<in> set b. blank x) \<and> (c = [] \<or> (\<exists>t. c = 0x3b # t \<and> NL \<notin> set t)))"

inductive white_lines :: "u8 list \<Rightarrow> bool" where
  spaces: "\<forall>x \<in> set w. isspace x \<Longrightarrow> white_lines w"
| comment: "\<forall>x \<in> set w. isspace x \<Longrightarrow> NL \<notin> set t \<Longrightarrow> white_lines (NL # g) \<Longrightarrow> white_lines (w @ 0x3b # t @ NL # g)"

text \<open>Text in which every comment is ended by a newline.\<close>

definition comments_closed :: "u8 list \<Rightarrow> bool" where
  "comments_closed s \<longleftrightarrow> (\<forall>a b. s = a @ 0x3b # b \<longrightarrow> NL \<in> set b)"

lemma comments_closed_suffix: "comments_closed (a @ b) \<Longrightarrow> comments_closed b"
  unfolding comments_closed_def by (metis append.assoc)

lemma after_comment_split: "NL \<in> set t \<Longrightarrow> \<exists>u r. t = u @ NL # r \<and> NL \<notin> set u \<and> after_comment t = NL # r"
proof -
  assume "NL \<in> set t"
  from split_list_first[OF this] obtain u r where u: "t = u @ NL # r" "NL \<notin> set u" by blast
  have "after_comment t = NL # r" unfolding after_comment_def u(1) using u(2) by (subst dropWhile_append2) auto
  with u show ?thesis by blast
qed

lemma skip_insignificant_gap:
  assumes "lex_skip_insignificant s = Some s'" and "EOF \<notin> set s"
  shows "\<exists>g. s = g @ s' \<and> line_gap g"
proof -
  obtain b where b: "s = b @ dropWhile blank s" "\<forall>x \<in> set b. blank x"
    by (metis set_takeWhileD takeWhile_dropWhile_id)
  show ?thesis
  proof (cases "dropWhile blank s")
    case Nil
    then show ?thesis using assms b lex_skip_insignificant_text[OF assms(2)]
      by (intro exI[of _ b]) (auto simp: line_gap_def simp del: dropWhile_eq_Nil_conv)
  next
    case (Cons c t)
    show ?thesis
    proof (cases "c = 0x3b")
      case True
      then have nl: "NL \<in> set t" and s': "s' = after_comment t"
        using assms Cons lex_skip_insignificant_text[OF assms(2)] by (auto split: if_splits)
      from after_comment_split[OF nl] obtain u r where u: "t = u @ NL # r" "NL \<notin> set u" "after_comment t = NL # r" by blast
      have "s = (b @ 0x3b # u) @ s'" using b(1) Cons True u s' by simp
      moreover have "line_gap (b @ 0x3b # u)" unfolding line_gap_def using b(2) u(2) by blast
      ultimately show ?thesis by blast
    next
      case False
      then have "s' = c # t" using assms Cons lex_skip_insignificant_text[OF assms(2)] by simp
      then show ?thesis using b Cons by (intro exI[of _ b]) (auto simp: line_gap_def)
    qed
  qed
qed

lemma skip_insignificant_closed:
  assumes "EOF \<notin> set s" and "comments_closed s"
  shows "\<exists>s'. lex_skip_insignificant s = Some s'"
proof (cases "dropWhile blank s")
  case Nil
  then show ?thesis using lex_skip_insignificant_text[OF assms(1)] by (simp del: dropWhile_eq_Nil_conv)
next
  case (Cons c t)
  then have "s = takeWhile blank s @ c # t" by (metis takeWhile_dropWhile_id)
  then have "c = 0x3b \<Longrightarrow> NL \<in> set t" using assms(2) unfolding comments_closed_def by blast
  then show ?thesis using lex_skip_insignificant_text[OF assms(1)] Cons by simp
qed

lemma skip_lines_gap:
  assumes "skip_lines s = Some s'" and "EOF \<notin> set s"
  shows "\<exists>g. s = g @ s' \<and> white_lines g \<and> (s' = [] \<or> \<not> isspace (hd s'))"
  using assms
proof (induction "length s" arbitrary: s rule: less_induct)
  case less
  obtain b where b: "s = b @ dropWhile isspace s" "\<forall>x \<in> set b. isspace x"
    by (metis set_takeWhileD takeWhile_dropWhile_id)
  note eq = skip_lines_text[OF less.prems(2)]
  show ?case
  proof (cases "dropWhile isspace s")
    case Nil
    then show ?thesis using less.prems b eq
      by (intro exI[of _ b]) (auto intro: white_lines.spaces simp del: dropWhile_eq_Nil_conv)
  next
    case (Cons c t)
    show ?thesis
    proof (cases "c = 0x3b")
      case True
      then have nl: "NL \<in> set t" and s': "skip_lines (after_comment t) = Some s'"
        using less.prems Cons eq by (auto split: if_splits)
      from after_comment_split[OF nl] obtain u r where u: "t = u @ NL # r" "NL \<notin> set u" "after_comment t = NL # r" by blast
      have s: "s = b @ 0x3b # u @ NL # r" using b(1) Cons True u by simp
      have "skip_lines (NL # r) = Some s'" "EOF \<notin> set (NL # r)" using s' u less.prems(2) s by auto
      from less.hyps[OF _ this] obtain g where g: "NL # r = g @ s'" "white_lines g"
        "s' = [] \<or> \<not> isspace (hd s')" using s by auto
      have "isspace NL" by (simp add: isspace_def)
      then have "g \<noteq> []" using g by (cases g) auto
      then obtain g' where "g = NL # g'" using g(1) by (cases g) auto
      then show ?thesis using s g white_lines.comment[OF b(2) u(2)] by (intro exI[of _ "b @ 0x3b # u @ g"]) auto
    next
      case False
      then have "s' = c # t" using less.prems Cons eq by simp
      moreover have "\<not> isspace c" using Cons hd_dropWhile[of isspace s] by simp
      ultimately show ?thesis using b Cons by (intro exI[of _ b]) (auto intro: white_lines.spaces)
    qed
  qed
qed

lemma skip_lines_closed:
  assumes "EOF \<notin> set s" and "comments_closed s"
  shows "\<exists>s'. skip_lines s = Some s'"
  using assms
proof (induction "length s" arbitrary: s rule: less_induct)
  case less
  show ?case
  proof (cases "dropWhile isspace s")
    case Nil
    then show ?thesis using skip_lines_text[OF less.prems(1)] by (simp del: dropWhile_eq_Nil_conv)
  next
    case (Cons c t)
    then have s: "s = takeWhile isspace s @ c # t" by (metis takeWhile_dropWhile_id)
    show ?thesis
    proof (cases "c = 0x3b")
      case True
      then have nl: "NL \<in> set t" using s less.prems(2) unfolding comments_closed_def by blast
      from after_comment_split[OF nl] obtain u r where u: "t = u @ NL # r" "after_comment t = NL # r" by blast
      have split: "s = (takeWhile isspace s @ c # u) @ NL # r" using s u by simp
      then have "EOF \<notin> set (NL # r)" using less.prems(1) by (metis Un_iff set_append)
      moreover have "comments_closed (NL # r)" using less.prems(2) split comments_closed_suffix by metis
      moreover have "length (NL # r) < length s" by (subst split) simp
      ultimately obtain s' where "skip_lines (NL # r) = Some s'" using less.hyps by blast
      then show ?thesis using skip_lines_text[OF less.prems(1)] Cons True nl u by simp
    next
      case False
      then show ?thesis using skip_lines_text[OF less.prems(1)] Cons by simp
    qed
  qed
qed

text \<open>C23: The comment loop at the end of a file. Skipping after a token fails to return exactly when
  the next thing on the line is a comment with no newline after it.\<close>

theorem skip_insignificant_diverges_iff:
  assumes "EOF \<notin> set s"
  shows "lex_skip_insignificant s = None \<longleftrightarrow>
    (\<exists>b t. s = b @ 0x3b # t \<and> (\<forall>x \<in> set b. blank x) \<and> NL \<notin> set t)"
proof
  assume "lex_skip_insignificant s = None"
  then obtain t where "dropWhile blank s = 0x3b # t" "NL \<notin> set t"
    using lex_skip_insignificant_text[OF assms] by (auto split: list.splits if_splits)
  then show "\<exists>b t. s = b @ 0x3b # t \<and> (\<forall>x \<in> set b. blank x) \<and> NL \<notin> set t"
    by (metis set_takeWhileD takeWhile_dropWhile_id)
next
  assume "\<exists>b t. s = b @ 0x3b # t \<and> (\<forall>x \<in> set b. blank x) \<and> NL \<notin> set t"
  then obtain b t where s: "s = b @ 0x3b # t" "\<forall>x \<in> set b. blank x" "NL \<notin> set t" by blast
  have "\<not> blank 0x3b" by (simp add: blank_def isspace_def)
  then have "dropWhile blank s = 0x3b # t" using s by (simp add: dropWhile_append2)
  then show "lex_skip_insignificant s = None" using lex_skip_insignificant_text[OF assms] s(3) by simp
qed

theorem skip_insignificant_diverges_iff_witness:
  "lex_skip_insignificant (bytes '' ; the end'') = None"
proof -
  let ?t = "bytes '' the end''"
  have "EOF \<notin> set (bytes '' ; the end'')" by (simp add: bytes_def EOF_def)
  moreover have "bytes '' ; the end'' = [0x20] @ 0x3b # ?t" by (simp add: bytes_def)
  moreover have "blank 0x20" "NL \<notin> set ?t" by (simp_all add: bytes_def blank_def isspace_def)
  ultimately show ?thesis
    using skip_insignificant_diverges_iff[of "bytes '' ; the end''"]
    by (metis empty_iff list.set(1) set_ConsD)
qed

end
