(* ===== verification/Lex_Correct.thy ===== *)
theory Lex_Correct
  imports Lex
begin

text \<open>
  Correctness of the lexer of \<^verbatim>\<open>CS720/parser\<close>: the texts it recognises as tokens (\<open>token_ok\<close>, read off the
  code), that it finds exactly such texts, that it comes to an end, and that it reads back what is
  written in them. How these texts relate to the grammar that \<^verbatim>\<open>parse.h\<close> documents is the subject of
  \<open>Lex_Grammar\<close>.
\<close>

subsection \<open>The tokens the code recognises\<close>

definition wordchar :: "u8 \<Rightarrow> bool" where
  "wordchar c \<longleftrightarrow> isalnum c \<or> c = 0x5f"

definition punct :: "(tok_type_t \<times> u8) list" where
  "punct = [(LPAREN, 0x28), (RPAREN, 0x29), (COLON, 0x3a), (COMMA, 0x2c), (PLUS, 0x2b)]"

definition classify :: "(u8 list \<rightharpoonup> tok_type_t) \<Rightarrow> u8 list \<Rightarrow> tok_type_t" where
  "classify res w =
     (if length w = 2 \<and> w ! 0 = 0x52 \<and> in_range (w ! 1) 0x30 0x37 then REGISTER
      else case res w of Some t \<Rightarrow> t | None \<Rightarrow> IDENT)"

text \<open>\<open>token_ok res t v l\<close>: the text \<open>l\<close> is a token of type \<open>t\<close> with value \<open>v\<close>, as the code sees it: a register
  is \<open>R0\<close> to \<open>R7\<close>, and the reserved words are those of the table.\<close>

definition token_ok :: "(u8 list \<rightharpoonup> tok_type_t) \<Rightarrow> tok_type_t \<Rightarrow> u8 list \<Rightarrow> u8 list \<Rightarrow> bool" where
  "token_ok res t v l \<longleftrightarrow>
     (\<exists>c. (t, c) \<in> set punct \<and> v = [c] \<and> l = [c]) \<or>
     (t = HEXI \<and> l = 0x23 # v \<and> length v = 4 \<and> (\<forall>x \<in> set v. is_hexi_digit x)) \<or>
     (t = DECI \<and> l = 0x24 # v \<and> length v = 5 \<and> (\<forall>x \<in> set v. isdigit x) \<and> atoi v < 2 ^ 16) \<or>
     (\<exists>c w. v = c # w \<and> l = v \<and> (isalpha c \<or> c = 0x5f) \<and> (\<forall>x \<in> set w. wordchar x) \<and> t = classify res v)"

definition separator :: "u8 \<Rightarrow> bool" where
  "separator c \<longleftrightarrow> isspace c \<or> c = 0x3b \<or> c = 0x3a \<or> c = 0x2c \<or> c = 0x29 \<or> c = 0x2b"

lemma EOF_class [simp]: "\<not> isdigit EOF" "\<not> is_hexi_digit EOF" "\<not> wordchar EOF" "\<not> separator EOF" "\<not> isalpha EOF"
  by (simp_all add: isdigit_def is_hexi_digit_def in_range_def isalnum_def isalpha_def wordchar_def
    separator_def EOF_def isspace_def word_sle_eq)

lemma digit_nonzero: "isdigit c \<Longrightarrow> c \<noteq> 0" "wordchar c \<Longrightarrow> c \<noteq> 0" "is_hexi_digit c \<Longrightarrow> c \<noteq> 0"
  by (auto simp: isdigit_def wordchar_def isalnum_def isalpha_def is_hexi_digit_def in_range_def word_sle_eq)

subsection \<open>Its parts\<close>

lemma is_next_separator_eq:
  assumes "EOF \<notin> set s"
  shows "lex_is_next_separator s = (s \<noteq> [] \<and> separator (hd s), s)"
proof (cases s)
  case Nil
  then show ?thesis
    using EOF_class(4) by (simp add: lex_is_next_separator_def ungetc_def separator_def)
next
  case (Cons c t)
  then have "c \<noteq> EOF" using assms by auto
  with Cons show ?thesis by (simp add: lex_is_next_separator_def ungetc_def separator_def)
qed

lemma get_digits_ok:
  assumes "lib_laws L contents entries" and "tok_value tok = Some v"
    and "stream lx = ds @ rest" and "\<forall>x \<in> set ds. P x"
  shows "\<exists>tok' lx' v'. get_digits L P (length ds) lx tok = Some (True, tok', lx') \<and>
    reserved lx' = reserved lx \<and> stream lx' = rest \<and> tok_type tok' = tok_type tok \<and>
    tok_value tok' = Some v' \<and> contents v' = contents v @ ds"
  using assms(2-4)
proof (induction ds arbitrary: lx tok v)
  case (Cons c ds)
  let ?lx = "lx\<lparr>stream := ds @ rest, next_char := c\<rparr>"
  let ?tok = "tok\<lparr>tok_value := Some (string_push_back L v c)\<rparr>"
  from Cons.IH[of ?tok "string_push_back L v c" ?lx] Cons.prems obtain tok' lx' v' where
    "get_digits L P (length ds) ?lx ?tok = Some (True, tok', lx')" "reserved lx' = reserved lx"
    "stream lx' = rest" "tok_type tok' = tok_type tok" "tok_value tok' = Some v'"
    "contents v' = contents (string_push_back L v c) @ ds"
    by auto
  then show ?case using Cons.prems lib_lawsD(1)[OF assms(1)] by (simp add: tok_value_append_def)
qed simp

lemma get_digits_bad:
  assumes "tok_value tok = Some v" and "\<not> P EOF"
    and "\<not> (\<exists>ds rest. stream lx = ds @ rest \<and> length ds = n \<and> (\<forall>x \<in> set ds. P x))"
  shows "\<exists>tok' lx'. get_digits L P n lx tok = Some (False, tok', lx')"
  using assms(1,3)
proof (induction n arbitrary: lx tok v)
  case 0
  then show ?case by simp
next
  case (Suc n)
  show ?case
  proof (cases "stream lx")
    case Nil
    then show ?thesis using assms(2) by simp
  next
    case (Cons c s)
    let ?lx = "lx\<lparr>stream := s, next_char := c\<rparr>"
    let ?tok = "tok\<lparr>tok_value := Some (string_push_back L v c)\<rparr>"
    have "\<not> (\<exists>ds rest. s = ds @ rest \<and> length ds = n \<and> (\<forall>x \<in> set ds. P x))" if "P c"
    proof
      assume "\<exists>ds rest. s = ds @ rest \<and> length ds = n \<and> (\<forall>x \<in> set ds. P x)"
      then obtain ds rest where "s = ds @ rest" "length ds = n" "\<forall>x \<in> set ds. P x" by blast
      then have "stream lx = (c # ds) @ rest \<and> length (c # ds) = Suc n \<and> (\<forall>x \<in> set (c # ds). P x)"
        using Cons that by simp
      then show False using Suc.prems(2) by blast
    qed
    then show ?thesis
      using Suc.IH[of ?tok _ ?lx] Cons Suc.prems(1) by (cases "P c") (simp_all add: tok_value_append_def Let_def)
  qed
qed

lemma word_loop_spec:
  assumes "lib_laws L contents entries"
  shows "word_loop L s v = (v', c, s') \<Longrightarrow> EOF \<notin> set s \<Longrightarrow>
    contents v' = contents v @ takeWhile wordchar s \<and> ungetc c s' = dropWhile wordchar s"
proof (induction s arbitrary: v)
  case Nil
  then show ?case by (simp add: ungetc_def)
next
  case (Cons a s)
  then show ?case using lib_lawsD(1)[OF assms]
    by (auto simp: wordchar_def ungetc_def split: if_splits)
qed

lemma is_register_eq:
  assumes "lib_laws L contents entries"
  shows "is_register L v \<longleftrightarrow> length (contents v) = 2 \<and> contents v ! 0 = 0x52 \<and> in_range (contents v ! 1) 0x30 0x37"
  using lib_lawsD(2,3)[OF assms] by (auto simp: is_register_def)

lemma classify_eq:
  assumes "lib_laws L contents entries"
  shows "(if is_register L v then REGISTER
      else case resmap_get L m v of (MAP_SUCCESS, t) \<Rightarrow> t | (MAP_ERROR, _) \<Rightarrow> IDENT) =
    classify (entries m) (contents v)"
proof (cases "entries m (contents v)")
  case None
  then have "fst (resmap_get L m v) = MAP_ERROR" by (rule lib_lawsD(8)[OF assms])
  with None show ?thesis
    by (cases "resmap_get L m v") (simp add: classify_def is_register_eq[OF assms])
next
  case (Some t)
  from lib_lawsD(7)[OF assms Some] Some show ?thesis
    by (simp add: classify_def is_register_eq[OF assms])
qed

subsection \<open>One token\<close>

text \<open>What a successful call has found: \<open>found res lx t v lx'\<close>.\<close>

definition found :: "(u8 list \<rightharpoonup> tok_type_t) \<Rightarrow> u8 list \<Rightarrow> tok_type_t \<Rightarrow> u8 list \<Rightarrow> u8 list \<Rightarrow> bool" where
  "found res s t v s' \<longleftrightarrow>
     (t = TOK_EOF \<and> s = [] \<and> s' = []) \<or>
     (t = NEWLINE \<and> v = [NL] \<and> (\<exists>g. s = NL # g @ s' \<and> white_lines g)) \<or>
     (\<exists>l g. token_ok res t v l \<and> s = l @ g @ s' \<and> line_gap g)"

text \<open>The result of a token function on a fresh token: an error, or a token that \<open>Q\<close> holds of.\<close>

definition outcome_ok ::
    "('s \<Rightarrow> u8 list) \<Rightarrow> 'm \<Rightarrow> (tok_type_t \<Rightarrow> u8 list \<Rightarrow> u8 list \<Rightarrow> bool) \<Rightarrow>
     (status_t \<times> 's tok_t \<times> 'm lex_t) option \<Rightarrow> bool" where
  "outcome_ok contents m Q r \<longleftrightarrow> (case r of
     None \<Rightarrow> True
   | Some (st, tok, lx') \<Rightarrow> st = UNEXPECTED_CHAR \<or>
       (st = SUCCESS \<and> reserved lx' = m \<and>
        (\<exists>t v. tok_type tok = Some t \<and> tok_value tok = Some v \<and> Q t (contents v) (stream lx'))))"

lemma finish_token_ok:
  assumes "EOF \<notin> set (stream lx)" and "tok_type tok = Some t" and "tok_value tok = Some v"
  shows "outcome_ok contents (reserved lx)
    (\<lambda>t' w s'. t' = t \<and> w = contents v \<and> (\<exists>g. stream lx = g @ s' \<and> line_gap g)) (finish_token lx tok)"
  using assms skip_insignificant_gap[of "stream lx"]
  by (auto simp: outcome_ok_def finish_token_def is_next_separator_eq split: option.splits bind_splits)

lemma outcome_ok_mono:
  "outcome_ok contents m Q r \<Longrightarrow> (\<And>t v s'. Q t v s' \<Longrightarrow> Q' t v s') \<Longrightarrow> outcome_ok contents m Q' r"
  unfolding outcome_ok_def by (auto split: option.splits)

text \<open>Literals: enough digits, then a separator.\<close>

lemma literal_ok:
  assumes laws: "lib_laws L contents entries" and tok: "tok_value tok = Some e" "contents e = []" "tok_type tok = Some t"
    and asc: "EOF \<notin> set (stream lx)" "\<not> P EOF"
    and r: "r = do { (ok, tok, lx) \<leftarrow> get_digits L P n lx tok;
       if \<not> ok then Some (UNEXPECTED_CHAR, tok, lx) else f tok lx }"
    and f: "\<And>tok' lx' v'. tok_type tok' = Some t \<Longrightarrow> tok_value tok' = Some v' \<Longrightarrow> length (contents v') = n \<Longrightarrow>
       (\<forall>x \<in> set (contents v'). P x) \<Longrightarrow> f tok' lx' = (if B (contents v') then finish_token lx' tok' else Some (UNEXPECTED_CHAR, tok', lx'))"
  shows "outcome_ok contents (reserved lx)
    (\<lambda>t' v s'. t' = t \<and> length v = n \<and> (\<forall>x \<in> set v. P x) \<and> B v \<and> (\<exists>g. stream lx = v @ g @ s' \<and> line_gap g)) r"
proof (cases "\<exists>ds rest. stream lx = ds @ rest \<and> length ds = n \<and> (\<forall>x \<in> set ds. P x)")
  case False
  from get_digits_bad[where L = L, OF tok(1) asc(2) False] show ?thesis by (auto simp: r outcome_ok_def)
next
  case True
  then obtain ds rest where ds: "stream lx = ds @ rest" "length ds = n" "\<forall>x \<in> set ds. P x" by blast
  from get_digits_ok[OF laws tok(1) ds(1,3)] obtain tok' lx' v' where
    g: "get_digits L P n lx tok = Some (True, tok', lx')" "reserved lx' = reserved lx" "stream lx' = rest"
      "tok_type tok' = Some t" "tok_value tok' = Some v'" "contents v' = ds"
    using ds(2) tok by auto
  have e: "r = (if B ds then finish_token lx' tok' else Some (UNEXPECTED_CHAR, tok', lx'))"
    using f[OF g(4,5)] g ds by (simp add: r)
  have "EOF \<notin> set (stream lx')" using asc ds g(3) by auto
  from finish_token_ok[OF this g(4,5), of contents] show ?thesis
    unfolding e using ds g by (auto simp: outcome_ok_def split: option.splits)
qed

lemma get_hexi_ok:
  assumes "lib_laws L contents entries" and "tok_value tok = Some e" "contents e = []"
    and "EOF \<notin> set (stream lx)"
  shows "outcome_ok contents (reserved lx)
    (\<lambda>t v s'. t = HEXI \<and> length v = 4 \<and> (\<forall>x \<in> set v. is_hexi_digit x) \<and> True \<and> (\<exists>g. stream lx = v @ g @ s' \<and> line_gap g))
    (lex_get_hexi L lx tok)"
  by (rule literal_ok[OF assms(1) _ assms(3) _ assms(4), where tok = "tok_set_type tok HEXI"])
     (auto simp: lex_get_hexi_def tok_set_type_def assms(2))

lemma get_deci_ok:
  assumes "lib_laws L contents entries" and "tok_value tok = Some e" "contents e = []"
    and "EOF \<notin> set (stream lx)"
  shows "outcome_ok contents (reserved lx)
    (\<lambda>t v s'. t = DECI \<and> length v = 5 \<and> (\<forall>x \<in> set v. isdigit x) \<and> atoi v < 2 ^ 16 \<and>
       (\<exists>g. stream lx = v @ g @ s' \<and> line_gap g))
    (lex_get_deci L lx tok)"
proof (rule literal_ok[where P = isdigit and tok = "tok_set_type tok DECI" and e = e and lx = lx and L = L
      and contents = contents and n = 5, OF assms(1) _ assms(3) _ assms(4) EOF_class(1), where
      f = "\<lambda>tok lx. do { v \<leftarrow> tok_get_value tok;
       if 2 ^ 16 \<le> atoi (string_c_str L v) then Some (UNEXPECTED_CHAR, tok, lx) else finish_token lx tok }"])
  fix tok' :: "'a tok_t" and lx' :: "'b lex_t" and v'
  assume v': "tok_value tok' = Some v'" "\<forall>x \<in> set (contents v'). isdigit x"
  then have "0 \<notin> set (contents v')" using digit_nonzero(1) by blast
  from lib_lawsD(4)[OF assms(1) this] v'(1)
  show "do { v \<leftarrow> tok_get_value tok';
       if 2 ^ 16 \<le> atoi (string_c_str L v) then Some (UNEXPECTED_CHAR, tok', lx') else finish_token lx' tok' } =
    (if atoi (contents v') < 2 ^ 16 then finish_token lx' tok' else Some (UNEXPECTED_CHAR, tok', lx'))"
    by (simp add: tok_get_value_def)
qed (auto simp: lex_get_deci_def tok_set_type_def assms(2))

lemma get_ident_ok:
  assumes laws: "lib_laws L contents entries" and tok: "tok_value tok = Some e" "contents e = []"
    and asc: "EOF \<notin> set (stream lx)"
  shows "outcome_ok contents (reserved lx)
    (\<lambda>t v s'. \<exists>w. v = next_char lx # w \<and> (\<forall>x \<in> set w. wordchar x) \<and> t = classify (entries (reserved lx)) v \<and>
       (\<exists>g. stream lx = w @ g @ s' \<and> line_gap g))
    (lex_get_ident_like L lx tok)"
proof -
  let ?s = "dropWhile wordchar (stream lx)" and ?w = "takeWhile wordchar (stream lx)"
  obtain v c s where wl: "word_loop L (stream lx) (string_push_back L e (next_char lx)) = (v, c, s)"
    by (metis prod.exhaust)
  from word_loop_spec[OF laws wl asc] lib_lawsD(1)[OF laws] tok
  have v: "contents v = next_char lx # ?w" and u: "ungetc c s = ?s" by auto
  have "EOF \<notin> set ?s" using asc by (rule text_dropWhile)
  note sep = is_next_separator_eq[OF this] and gap = skip_insignificant_gap[OF _ this]
  have w: "\<forall>x \<in> set ?w. wordchar x" by (auto dest: set_takeWhileD)
  have split: "stream lx = ?w @ g @ s'" if "?s = g @ s'" for g s' using that by (metis takeWhile_dropWhile_id)
  have gaps: "\<exists>g. stream lx = ?w @ g @ s' \<and> line_gap g" if "lex_skip_insignificant ?s = Some s'" for s'
    using gap[OF that] split by blast
  show ?thesis
    using tok v w gaps
    by (auto simp: lex_get_ident_like_def tok_value_append_def tok_get_value_def wl u sep classify_eq[OF laws]
        outcome_ok_def tok_set_type_def Let_def split: option.splits bind_splits)
qed

definition call_ok ::
    "('s \<Rightarrow> u8 list) \<Rightarrow> ('m \<Rightarrow> u8 list \<rightharpoonup> tok_type_t) \<Rightarrow> 'm lex_t \<Rightarrow> (status_t \<times> 's tok_t option \<times> 'm lex_t) option \<Rightarrow> bool" where
  "call_ok contents entries lx r \<longleftrightarrow> (case r of
     None \<Rightarrow> True
   | Some (st, tk, lx') \<Rightarrow> (st = UNEXPECTED_CHAR \<and> tk = None) \<or>
       (st = SUCCESS \<and> reserved lx' = reserved lx \<and>
        (\<exists>tok t v. tk = Some tok \<and> tok_type tok = Some t \<and> tok_value tok = Some v \<and>
           found (entries (reserved lx)) (stream lx) t (contents v) (stream lx'))))"

lemma checked_ok:
  assumes "outcome_ok contents (reserved lx) Q r"
    and "\<And>t v s'. Q t v s' \<Longrightarrow> found (entries (reserved lx)) (stream lx) t v s'"
  shows "call_ok contents entries lx (map_option (\<lambda>(error, tok, lx). (error, if error = SUCCESS then Some tok else None, lx)) r)"
  using assms by (cases r) (auto simp: outcome_ok_def call_ok_def)

lemma punct_ok:
  assumes laws: "lib_laws L contents entries" and e: "contents e = []"
    and s: "stream lx = c # s" "EOF \<notin> set s" and t: "(t, c) \<in> set punct"
  shows "call_ok contents entries lx (map_option (\<lambda>(tok, lx). (SUCCESS, Some tok, lx))
     (lex_get_punct L t (lx\<lparr>stream := s, next_char := c\<rparr>) \<lparr>tok_type = None, tok_value = Some e\<rparr>))"
proof (cases "lex_skip_insignificant s")
  case None
  then show ?thesis by (simp add: call_ok_def lex_get_punct_def lex_get_character_tok_def tok_value_append_def tok_set_type_def)
next
  case (Some s')
  from skip_insignificant_gap[OF Some s(2)] obtain g where g: "s = g @ s'" "line_gap g" by blast
  have "token_ok (entries (reserved lx)) t [c] [c]" unfolding token_ok_def using t by blast
  then have "found (entries (reserved lx)) (stream lx) t [c] s'" unfolding found_def using g s(1) by fastforce
  then show ?thesis using Some lib_lawsD(1)[OF laws] e
    by (simp add: call_ok_def lex_get_punct_def lex_get_character_tok_def tok_value_append_def tok_set_type_def)
qed

lemma if_rule: "(b \<Longrightarrow> P x) \<Longrightarrow> (\<not> b \<Longrightarrow> P y) \<Longrightarrow> P (if b then x else y)"
  by simp

lemma next_token_ok:
  assumes laws: "lib_laws L contents entries" and e: "contents e = []" and asc: "EOF \<notin> set (stream lx)"
  shows "call_ok contents entries lx (lex_get_next_token L (Some (Some e)) lx)"
proof (cases "stream lx")
  case Nil
  then show ?thesis using lib_lawsD(1)[OF laws] e
    by (simp add: call_ok_def lex_get_next_token_def tok_initialize_def lex_get_eof_def lex_get_character_tok_def
        tok_value_append_def tok_set_type_def found_def)
next
  case (Cons c s)
  then have c: "c \<noteq> EOF" and s: "EOF \<notin> set s" using asc by auto
  let ?lx = "lx\<lparr>stream := s, next_char := c\<rparr>" and ?tok = "\<lparr>tok_type = None, tok_value = Some e\<rparr>"
  let ?checked = "map_option (\<lambda>(error, tok, lx). (error, if error = SUCCESS then Some tok else None, lx))"
  have lx: "EOF \<notin> set (stream ?lx)" "reserved ?lx = reserved lx" "tok_value ?tok = Some e" using s by simp_all
  have nl: "call_ok contents entries lx (map_option (\<lambda>(tok, lx). (SUCCESS, Some tok, lx)) (lex_get_newline L ?lx ?tok))" if "c = NL"
  proof (cases "skip_lines s")
    case None
    then show ?thesis by (simp add: call_ok_def lex_get_newline_def lex_get_character_tok_def tok_value_append_def tok_set_type_def)
  next
    case (Some s')
    with skip_lines_gap[OF Some s] have "found (entries (reserved lx)) (stream lx) NEWLINE [NL] s'"
      unfolding found_def using Cons that by auto
    then show ?thesis using Some that lib_lawsD(1)[OF laws] e
      by (simp add: call_ok_def lex_get_newline_def lex_get_character_tok_def tok_value_append_def tok_set_type_def)
  qed
  have hexi: "call_ok contents entries lx (?checked (lex_get_hexi L ?lx ?tok))" if "c = 0x23"
    by (rule checked_ok[OF get_hexi_ok[OF laws lx(3) e lx(1), unfolded lx(2)]])
       (use Cons that in \<open>auto simp: found_def token_ok_def\<close>)
  have deci: "call_ok contents entries lx (?checked (lex_get_deci L ?lx ?tok))" if "c = 0x24"
    by (rule checked_ok[OF get_deci_ok[OF laws lx(3) e lx(1), unfolded lx(2)]])
       (use Cons that in \<open>auto simp: found_def token_ok_def\<close>)
  have ident: "call_ok contents entries lx (?checked (lex_get_ident_like L ?lx ?tok))" if "isalpha c \<or> c = 0x5f"
    by (rule checked_ok[OF get_ident_ok[OF laws lx(3) e lx(1), unfolded lx(2)]])
       (use Cons that in \<open>fastforce simp: found_def token_ok_def\<close>)
  have p: "call_ok contents entries lx (map_option (\<lambda>(tok, lx). (SUCCESS, Some tok, lx)) (lex_get_punct L t ?lx ?tok))"
    if "(t, c) \<in> set punct" for t by (rule punct_ok[OF laws e Cons s that])
  have ps: "c = 0x28 \<Longrightarrow> (LPAREN, c) \<in> set punct" "c = 0x29 \<Longrightarrow> (RPAREN, c) \<in> set punct"
    "c = 0x3a \<Longrightarrow> (COLON, c) \<in> set punct" "c = 0x2c \<Longrightarrow> (COMMA, c) \<in> set punct" "c = 0x2b \<Longrightarrow> (PLUS, c) \<in> set punct"
    by (simp_all add: punct_def)
  have bad: "call_ok contents entries lx (Some (UNEXPECTED_CHAR, None, ?lx))" by (simp add: call_ok_def)
  show ?thesis
    unfolding lex_get_next_token_def tok_initialize_def Cons option.case getc.simps prod.case Let_def
      lex_get_lparen_def lex_get_rparen_def lex_get_colon_def lex_get_comma_def lex_get_plus_def
    by (intro if_rule[where P = "call_ok contents entries lx"] nl hexi deci ident p ps bad; (assumption | use c in blast))
qed

subsection \<open>Coming to an end\<close>

lemma comments_closed_Cons: "comments_closed (c # s) \<Longrightarrow> comments_closed s"
  using comments_closed_suffix[of "[c]" s] by simp

lemma finish_token_returns:
  assumes "EOF \<notin> set (stream lx)" and "comments_closed (stream lx)"
  shows "\<exists>r. finish_token lx tok = Some r"
  using skip_insignificant_closed[OF assms] by (auto simp: finish_token_def is_next_separator_eq[OF assms(1)])

lemma literal_returns:
  assumes laws: "lib_laws L contents entries" and tok: "tok_value tok = Some e" "contents e = []" and "\<not> P EOF"
    and s: "EOF \<notin> set (stream lx)" "comments_closed (stream lx)"
    and f: "\<And>tok' lx' v'. tok_value tok' = Some v' \<Longrightarrow> EOF \<notin> set (stream lx') \<Longrightarrow> comments_closed (stream lx') \<Longrightarrow> \<exists>r. f tok' lx' = Some r"
  shows "\<exists>r. do { (ok, tok, lx) \<leftarrow> get_digits L P n lx tok;
       if \<not> ok then Some (UNEXPECTED_CHAR, tok, lx) else f tok lx } = Some r"
proof (cases "\<exists>ds rest. stream lx = ds @ rest \<and> length ds = n \<and> (\<forall>x \<in> set ds. P x)")
  case False
  from get_digits_bad[where L = L, OF tok(1) assms(4) False] show ?thesis by auto
next
  case True
  then obtain ds rest where ds: "stream lx = ds @ rest" "length ds = n" "\<forall>x \<in> set ds. P x" by blast
  from get_digits_ok[OF laws tok(1) ds(1,3)] obtain tok' lx' v' where
    g: "get_digits L P n lx tok = Some (True, tok', lx')" "stream lx' = rest" "tok_value tok' = Some v'"
    using ds(2) by auto
  have "comments_closed rest" using s(2) unfolding ds(1) by (rule comments_closed_suffix)
  then show ?thesis using f[OF g(3)] g s(1) ds(1) by auto
qed

lemma next_token_returns:
  assumes laws: "lib_laws L contents entries" and e: "contents e = []"
    and s: "EOF \<notin> set (stream lx)" "comments_closed (stream lx)"
  shows "\<exists>r. lex_get_next_token L (Some (Some e)) lx = Some r"
proof (cases "stream lx")
  case Nil
  then show ?thesis
    by (simp add: lex_get_next_token_def tok_initialize_def lex_get_eof_def lex_get_character_tok_def
        tok_value_append_def tok_set_type_def)
next
  case (Cons c t)
  let ?lx = "lx\<lparr>stream := t, next_char := c\<rparr>" and ?tok = "\<lparr>tok_type = None, tok_value = Some e\<rparr>"
  have t: "EOF \<notin> set (stream ?lx)" "comments_closed (stream ?lx)" using s Cons comments_closed_Cons by auto
  have punct: "\<exists>r. lex_get_punct L ty ?lx ?tok = Some r" for ty
    using skip_insignificant_closed[OF t]
    by (auto simp: lex_get_punct_def lex_get_character_tok_def tok_value_append_def tok_set_type_def)
  have nl: "\<exists>r. lex_get_newline L ?lx ?tok = Some r"
    using skip_lines_closed[OF t]
    by (auto simp: lex_get_newline_def lex_get_character_tok_def tok_value_append_def tok_set_type_def)
  have hexi: "\<exists>r. lex_get_hexi L ?lx ?tok = Some r"
    unfolding lex_get_hexi_def
    by (rule literal_returns[where P = is_hexi_digit and lx = ?lx and contents = contents and e = e, OF laws _ e EOF_class(2) t]) (simp_all add: tok_set_type_def finish_token_returns del: split_paired_Ex)
  have deci: "\<exists>r. lex_get_deci L ?lx ?tok = Some r"
    unfolding lex_get_deci_def
    by (rule literal_returns[where P = isdigit and lx = ?lx and contents = contents and e = e, OF laws _ e EOF_class(1) t]) (simp_all add: tok_set_type_def tok_get_value_def finish_token_returns del: split_paired_Ex)
  have ident: "\<exists>r. lex_get_ident_like L ?lx ?tok = Some r"
  proof -
    obtain v d u where wl: "word_loop L t (string_push_back L e c) = (v, d, u)" by (metis prod.exhaust)
    with word_loop_spec[OF laws wl] t(1) have u: "ungetc d u = dropWhile wordchar t" by simp
    have r: "EOF \<notin> set (dropWhile wordchar t)" "comments_closed (dropWhile wordchar t)"
      using t text_dropWhile comments_closed_suffix[of "takeWhile wordchar t" "dropWhile wordchar t"] by simp_all
    show ?thesis using skip_insignificant_closed[OF r] wl u
      by (auto simp: lex_get_ident_like_def tok_value_append_def tok_get_value_def is_next_separator_eq[OF r(1)] Let_def)
  qed
  have eof: "lex_get_eof L ?lx ?tok \<noteq> None"
    by (simp add: lex_get_eof_def lex_get_character_tok_def tok_value_append_def tok_set_type_def)
  have "lex_get_next_token L (Some (Some e)) lx \<noteq> None"
    unfolding lex_get_next_token_def tok_initialize_def Cons option.case getc.simps prod.case Let_def
      lex_get_lparen_def lex_get_rparen_def lex_get_colon_def lex_get_comma_def lex_get_plus_def
    by (intro if_rule[where P = "\<lambda>x. x \<noteq> None"]; (unfold option.map_disc_iff)?; use eof punct nl hexi deci ident in blast)
  then show ?thesis by blast
qed

lemma found_shorter:
  assumes "found res s t v s'" and "t \<noteq> TOK_EOF"
  shows "length s' < length s" and "\<exists>a. s = a @ s'"
proof -
  show "\<exists>a. s = a @ s'" using assms unfolding found_def by (metis append.assoc append_Cons)
  have "l \<noteq> []" if "token_ok res t v l" for l using that by (auto simp: token_ok_def)
  then show "length s' < length s" using assms unfolding found_def by fastforce
qed

lemma main_loop_returns:
  assumes laws: "lib_laws L contents entries"
    and mem: "\<forall>k. mem k \<noteq> Some None" "\<forall>k e. mem k = Some (Some e) \<longrightarrow> contents e = []"
    and s: "EOF \<notin> set (stream lx)" "comments_closed (stream lx)"
  shows "\<exists>r. main_loop L mem k lx out = Some r"
  using s
proof (induction "length (stream lx)" arbitrary: lx k out rule: less_induct)
  case less
  show ?case
  proof (cases "mem k")
    case None
    then show ?thesis by (subst main_loop.simps) (simp add: lex_get_next_token_def tok_initialize_def)
  next
    case (Some me)
    then obtain e where e: "mem k = Some (Some e)" "contents e = []" using mem by (cases me) auto
    from next_token_returns[OF laws e(2) less.prems] obtain st tk lx' where
      r: "lex_get_next_token L (Some (Some e)) lx = Some (st, tk, lx')" by auto
    note ok = next_token_ok[OF laws e(2) less.prems(1), unfolded r call_ok_def option.case prod.case]
    show ?thesis
    proof (cases tk)
      case None
      then show ?thesis by (subst main_loop.simps) (simp add: e r)
    next
      case (Some tok)
      with ok obtain t v where f: "tok_type tok = Some t" "tok_value tok = Some v"
        "found (entries (reserved lx)) (stream lx) t (contents v) (stream lx')" by auto
      show ?thesis
      proof (cases "t = TOK_EOF")
        case True
        then show ?thesis using f Some by (subst main_loop.simps) (simp add: e r tok_get_type_def)
      next
        case False
        note short = found_shorter[OF f(3) False]
        then obtain a where a: "stream lx = a @ stream lx'" by blast
        have "EOF \<notin> set (stream lx')" "comments_closed (stream lx')"
          using less.prems a comments_closed_suffix by auto
        from less.hyps[OF short(1) this] show ?thesis
          using f False Some by (subst main_loop.simps) (simp add: e r tok_get_type_def tok_print_def)
      qed
    qed
  qed
qed

text \<open>C25: The program comes to an end on every text file in which each comment is closed by a newline,
  whatever \<^verbatim>\<open>malloc\<close> does for the tokens, provided the strings of the tokens can be allocated.\<close>

theorem lex_main_returns:
  assumes "lib_laws L contents entries" and "\<forall>k. mem k \<noteq> Some None"
    and "\<forall>k e. mem k = Some (Some e) \<longrightarrow> contents e = []"
    and "EOF \<notin> set s" and "comments_closed s"
  shows "\<exists>r. lex_main L mem ok m str argc (Some s) = Some r"
proof (cases "lex_initialize L ok m str s")
  case None
  then show ?thesis by (simp add: lex_main_def)
next
  case (Some lx)
  then have "stream lx = s" by (auto simp: lex_initialize_def split: if_splits option.splits)
  with main_loop_returns[OF assms(1-3), of lx] assms(4,5) Some show ?thesis by (simp add: lex_main_def)
qed

subsection \<open>Reserved words\<close>

lemma bytes_inj: "bytes a = bytes b \<longleftrightarrow> a = b"
proof -
  have "inj (\<lambda>c :: char. of_nat (of_char c) :: u8)"
  proof (rule injI)
    fix x y :: char
    assume "(of_nat (of_char x) :: u8) = of_nat (of_char y)"
    then have "of_char x mod 256 = (of_char y mod 256 :: nat)"
      using word_unat_eq_iff[of "of_nat (of_char x) :: u8" "of_nat (of_char y)"]
      by (simp add: unsigned_of_nat take_bit_eq_mod)
    then show "x = y" by (simp add: of_char_mod_256)
  qed
  then show ?thesis unfolding bytes_def by (simp add: inj_map_eq_map)
qed

lemma put_all_entries:
  assumes "lib_laws L contents entries"
  shows "put_all L str ws m = Some m' \<Longrightarrow> \<forall>(w, t) \<in> set ws. 0 \<notin> set (bytes w) \<Longrightarrow>
    entries m' = entries m ++ map_of (rev (map (\<lambda>(w, t). (bytes w, t)) ws))"
proof (induction ws arbitrary: m str)
  case (Cons p ws)
  obtain w t where p: "p = (w, t)" by (cases p)
  let ?s = "string_assign_from_char_array L str (bytes w)"
  obtain m1 where m1: "resmap_put L m ?s t = (MAP_SUCCESS, m1)" "put_all L ?s ws m1 = Some m'"
    using Cons.prems(1) p by (auto simp: Let_def split: prod.splits map_status_t.splits)
  have "contents ?s = bytes w" using lib_lawsD(5)[OF assms] Cons.prems(2) p by auto
  then have "entries m1 = (entries m)(bytes w \<mapsto> t)" using lib_lawsD(6)[OF assms m1(1)] by simp
  with Cons.IH[OF m1(2)] Cons.prems(2) p show ?case by (simp add: map_add_def fun_eq_iff split: option.splits)
qed simp

lemma map_of_rev: "distinct (map fst xs) \<Longrightarrow> map_of (rev xs) = map_of xs"
proof (induction xs)
  case (Cons p xs)
  then have "map_of xs (fst p) = None" by (simp add: map_of_eq_None_iff)
  with Cons show ?case by (auto simp: fun_eq_iff map_add_def split: option.splits)
qed simp

lemma map_of_bytes: "map_of (map (\<lambda>(w, t). (bytes w, t)) ws) (bytes w) = map_of ws w"
  by (induction ws) (auto simp: bytes_inj)

lemma reserved_words_distinct: "distinct (map fst (zip reserved_words reserved_types))"
  by (simp add: reserved_words_def reserved_types_def)

lemma reserved_words_text: "\<forall>(w, t) \<in> set (zip reserved_words reserved_types). 0 \<notin> set (bytes w)"
  by (simp add: reserved_words_def reserved_types_def bytes_def)

lemma lex_initialize_entries:
  assumes "lib_laws L contents entries" and "entries m = Map.empty"
    and "lex_initialize L ok (Some m) (Some str) s = Some lx"
  shows "stream lx = s \<and> entries (reserved lx) (bytes w) = map_of (zip reserved_words reserved_types) w"
proof -
  obtain m' where m': "put_all L str (zip reserved_words reserved_types) m = Some m'"
    "lx = \<lparr>stream = s, next_char = 0, reserved = m'\<rparr>"
    using assms(3) by (auto simp: lex_initialize_def split: if_splits option.splits)
  let ?ws = "map (\<lambda>(w, t). (bytes w, t)) (zip reserved_words reserved_types)"
  have "inj_on bytes A" for A by (rule inj_onI) (simp add: bytes_inj)
  moreover have "map fst ?ws = map bytes (map fst (zip reserved_words reserved_types))"
    by (simp only: map_map) (simp add: comp_def case_prod_beta del: map_fst_zip)
  ultimately have "distinct (map fst ?ws)" using reserved_words_distinct by (simp only: distinct_map)
  then have "map_of (rev ?ws) = map_of ?ws" by (rule map_of_rev)
  then show ?thesis
    using put_all_entries[OF assms(1) m'(1) reserved_words_text] assms(2) m'(2) by (simp add: map_of_bytes)
qed

text \<open>A library: strings as byte lists and maps as partial functions.\<close>

definition list_lib :: "(u8 list, u8 list \<rightharpoonup> tok_type_t) lib" where
  "list_lib = \<lparr>
     string_push_back = (\<lambda>s c. s @ [c]),
     string_length = length,
     string_get = (\<lambda>s i. s ! i),
     string_c_str = takeWhile (\<lambda>c. c \<noteq> 0),
     string_assign_from_char_array = (\<lambda>s bs. takeWhile (\<lambda>c. c \<noteq> 0) bs),
     string_compare = (\<lambda>s t. if s = t then 0 else 1),
     string_concatenate = (@),
     resmap_put = (\<lambda>m s t. (MAP_SUCCESS, m(s \<mapsto> t))),
     resmap_get = (\<lambda>m s. case m s of Some t \<Rightarrow> (MAP_SUCCESS, t) | None \<Rightarrow> (MAP_ERROR, TOK_EOF))\<rparr>"

lemma list_lib_laws: "lib_laws list_lib (\<lambda>s. s) (\<lambda>m. m)"
proof -
  have "takeWhile (\<lambda>c. c \<noteq> 0) s = s" if "0 \<notin> set s" for s :: "u8 list"
    unfolding takeWhile_eq_all_conv using that by auto
  then show ?thesis by (auto simp: lib_laws_def list_lib_def)
qed

lemma put_list: "resmap_put list_lib m s t = (MAP_SUCCESS, m(s \<mapsto> t))"
  by (simp add: list_lib_def)

lemma put_all_list: "put_all list_lib str ws m \<noteq> None"
  by (induction ws arbitrary: str m) (auto simp: put_list Let_def)

lemma lex_initialize_list: "\<exists>lx. lex_initialize list_lib True (Some Map.empty) (Some []) s = Some lx"
  using put_all_list[of "[]" "zip reserved_words reserved_types" Map.empty]
  by (auto simp: lex_initialize_def)

lemma lex_initialize_demo:
  "\<exists>lx. lex_initialize list_lib True (Some Map.empty) (Some []) [] = Some lx \<and>
     reserved lx (bytes ''add'') = Some ADD \<and> reserved lx (bytes ''not'') = None"
proof -
  obtain lx where lx: "lex_initialize list_lib True (Some Map.empty) (Some []) [] = Some lx"
    using lex_initialize_list by blast
  note r = lex_initialize_entries[OF list_lib_laws refl lx]
  have "reserved lx (bytes ''add'') = Some ADD" "reserved lx (bytes ''not'') = None"
    using r[of "''add''"] r[of "''not''"] by (simp_all add: reserved_words_def reserved_types_def)
  with lx show ?thesis by blast
qed


definition demo_text :: "u8 list" where
  "demo_text = bytes ''add ; first'' @ [NL] @ bytes ''x''"

lemma demo_text_closed: "comments_closed demo_text" "EOF \<notin> set demo_text"
proof -
  have "NL \<in> set b" if "demo_text = a @ 0x3b # b" for a b
    using that by (auto simp: demo_text_def bytes_def Cons_eq_append_conv)
  then show "comments_closed demo_text" by (auto simp: comments_closed_def)
qed (simp add: demo_text_def bytes_def EOF_def)

theorem lex_main_returns_witness:
  "\<exists>r. lex_main list_lib (\<lambda>_. Some (Some [])) True (Some Map.empty) (Some []) 2 (Some demo_text) = Some r"
  by (rule lex_main_returns[OF list_lib_laws]) (simp_all add: demo_text_closed)

subsection \<open>Reading back what is written\<close>

definition spell :: "tok_type_t \<Rightarrow> u8 list \<Rightarrow> u8 list" where
  "spell t v = (if t = HEXI then [0x23] else if t = DECI then [0x24] else []) @ v"

text \<open>Tokens that can be written: those the lexer recognises, and newlines.\<close>

definition writable :: "(u8 list \<rightharpoonup> tok_type_t) \<Rightarrow> tok_type_t \<times> u8 list \<Rightarrow> bool" where
  "writable res p \<longleftrightarrow> (case p of (t, v) \<Rightarrow> t \<noteq> TOK_EOF \<and> (t = NEWLINE \<and> v = [NL] \<or> token_ok res t v (spell t v)))"

text \<open>A newline token takes the empty lines after it, so two of them in a row are one.\<close>

fun newlines_apart :: "(tok_type_t \<times> u8 list) list \<Rightarrow> bool" where
  "newlines_apart (p # q # ts) \<longleftrightarrow> \<not> (fst p = NEWLINE \<and> snd q = [NL]) \<and> newlines_apart (q # ts)"
| "newlines_apart _ \<longleftrightarrow> True"

definition starts_token :: "u8 list \<Rightarrow> bool" where
  "starts_token s \<longleftrightarrow> EOF \<notin> set s \<and> (s = [] \<or> (\<not> blank (hd s) \<and> hd s \<noteq> 0x3b))"

lemma skip_space_before_token:
  assumes "starts_token s"
  shows "lex_skip_insignificant (0x20 # s) = Some s"
proof -
  have b: "blank 0x20" by (simp add: blank_def isspace_def)
  have "EOF \<notin> set (0x20 # s)" using assms by (auto simp: starts_token_def EOF_def)
  from lex_skip_insignificant_text[OF this] show ?thesis
    using assms b by (cases s) (auto simp: starts_token_def)
qed

lemma separator_space: "separator 0x20"
  by (simp add: separator_def isspace_def)

lemma finish_before_token:
  assumes "starts_token s" and "stream lx = 0x20 # s"
  shows "finish_token lx tok = Some (SUCCESS, tok, lx\<lparr>stream := s\<rparr>)"
proof -
  have "EOF \<notin> set (0x20 # s)" using assms by (auto simp: starts_token_def EOF_def)
  from is_next_separator_eq[OF this] show ?thesis
    using skip_space_before_token[OF assms(1)] assms(2) separator_space by (simp add: finish_token_def)
qed

lemma word_start: "isalpha c \<or> c = 0x5f \<Longrightarrow> c \<noteq> EOF \<and> c \<noteq> NL \<and> c \<noteq> 0x28 \<and> c \<noteq> 0x29 \<and> c \<noteq> 0x3a \<and> c \<noteq> 0x2c \<and> c \<noteq> 0x2b \<and> c \<noteq> 0x23 \<and> c \<noteq> 0x24"
  by (auto simp: isalpha_def EOF_def)

text \<open>The call reads a token that is followed by one space.\<close>

definition reads_token :: "('s \<Rightarrow> u8 list) \<Rightarrow> ('s, 'm) lib \<Rightarrow> 's \<Rightarrow> 'm lex_t \<Rightarrow> tok_type_t \<Rightarrow> u8 list \<Rightarrow> u8 list \<Rightarrow> bool" where
  "reads_token contents L e lx t v s \<longleftrightarrow> (\<exists>tok w lx'. lex_get_next_token L (Some (Some e)) lx = Some (SUCCESS, Some tok, lx') \<and>
     tok_type tok = Some t \<and> tok_value tok = Some w \<and> contents w = v \<and> stream lx' = s \<and> reserved lx' = reserved lx)"

lemma reads_punct:
  assumes laws: "lib_laws L contents entries" and e: "contents e = []" and s: "starts_token s"
    and c: "(t, c) \<in> set punct" and lx: "stream lx = c # 0x20 # s"
  shows "reads_token contents L e lx t [c] s"
  using c lx skip_space_before_token[OF s] lib_lawsD(1)[OF laws] e
  by (auto simp: reads_token_def punct_def lex_get_next_token_def tok_initialize_def lex_get_punct_def
      lex_get_lparen_def lex_get_rparen_def lex_get_colon_def lex_get_comma_def lex_get_plus_def
      lex_get_character_tok_def tok_value_append_def tok_set_type_def EOF_def Let_def)

lemma reads_hexi:
  assumes laws: "lib_laws L contents entries" and e: "contents e = []" and s: "starts_token s"
    and v: "length v = 4" "\<forall>x \<in> set v. is_hexi_digit x" and lx: "stream lx = 0x23 # v @ 0x20 # s"
  shows "reads_token contents L e lx HEXI v s"
proof -
  let ?lx = "lx\<lparr>stream := v @ 0x20 # s, next_char := 0x23\<rparr>" and ?tok = "\<lparr>tok_type = Some HEXI, tok_value = Some e\<rparr>"
  from get_digits_ok[OF laws, of ?tok e ?lx v "0x20 # s" is_hexi_digit] v e obtain tok' lx' v' where
    g: "get_digits L is_hexi_digit 4 ?lx ?tok = Some (True, tok', lx')" "reserved lx' = reserved lx"
      "stream lx' = 0x20 # s" "tok_type tok' = Some HEXI" "tok_value tok' = Some v'" "contents v' = v" by auto
  show ?thesis
    using g lx finish_before_token[OF s g(3), of tok']
    by (simp add: reads_token_def lex_get_next_token_def tok_initialize_def lex_get_hexi_def tok_set_type_def EOF_def Let_def)
qed

lemma reads_deci:
  assumes laws: "lib_laws L contents entries" and e: "contents e = []" and s: "starts_token s"
    and v: "length v = 5" "\<forall>x \<in> set v. isdigit x" "atoi v < 2 ^ 16" and lx: "stream lx = 0x24 # v @ 0x20 # s"
  shows "reads_token contents L e lx DECI v s"
proof -
  let ?lx = "lx\<lparr>stream := v @ 0x20 # s, next_char := 0x24\<rparr>" and ?tok = "\<lparr>tok_type = Some DECI, tok_value = Some e\<rparr>"
  from get_digits_ok[OF laws, of ?tok e ?lx v "0x20 # s" isdigit] v e obtain tok' lx' v' where
    g: "get_digits L isdigit 5 ?lx ?tok = Some (True, tok', lx')" "reserved lx' = reserved lx"
      "stream lx' = 0x20 # s" "tok_type tok' = Some DECI" "tok_value tok' = Some v'" "contents v' = v" by auto
  have "0 \<notin> set (contents v')" using v(2) g(6) digit_nonzero(1) by blast
  then have "string_c_str L v' = v" using lib_lawsD(4)[OF laws] g(6) by simp
  then show ?thesis
    using g lx v(3) finish_before_token[OF s g(3), of tok']
    by (simp add: reads_token_def lex_get_next_token_def tok_initialize_def lex_get_deci_def tok_set_type_def
        tok_get_value_def EOF_def Let_def)
qed

lemma reads_word:
  assumes laws: "lib_laws L contents entries" and e: "contents e = []" and s: "starts_token s"
    and c: "isalpha c \<or> c = 0x5f" and w: "\<forall>x \<in> set w. wordchar x" and lx: "stream lx = c # w @ 0x20 # s"
  shows "reads_token contents L e lx (classify (entries (reserved lx)) (c # w)) (c # w) s"
proof -
  let ?s = "w @ 0x20 # s"
  have sp: "\<not> wordchar 0x20" by (simp add: wordchar_def isalnum_def isalpha_def isdigit_def)
  have tw: "takeWhile wordchar ?s = w" "dropWhile wordchar ?s = 0x20 # s"
    using w sp by (simp_all add: takeWhile_append2 dropWhile_append2)
  have asc: "EOF \<notin> set (0x20 # s)" using s by (auto simp: starts_token_def EOF_def)
  then have "EOF \<notin> set ?s" using w EOF_class(3) by auto
  obtain v d u where wl: "word_loop L ?s (string_push_back L e c) = (v, d, u)" by (metis prod.exhaust)
  from word_loop_spec[OF laws wl \<open>EOF \<notin> set ?s\<close>] have
    v: "contents v = c # w" and u: "ungetc d u = 0x20 # s" using lib_lawsD(1)[OF laws] e tw by simp_all
  show ?thesis
    using lx wl v u word_start[OF c] c skip_space_before_token[OF s] separator_space is_next_separator_eq[OF asc]
    by (simp add: reads_token_def lex_get_next_token_def tok_initialize_def lex_get_ident_like_def
        tok_value_append_def tok_get_value_def tok_set_type_def classify_eq[OF laws] Let_def)
qed

lemma reads_newline:
  assumes laws: "lib_laws L contents entries" and e: "contents e = []" and s: "starts_token s"
    and "s = [] \<or> hd s \<noteq> NL" and lx: "stream lx = NL # 0x20 # s"
  shows "reads_token contents L e lx NEWLINE [NL] s"
proof -
  have "EOF \<notin> set (0x20 # s)" using s by (auto simp: starts_token_def EOF_def)
  moreover have "isspace 0x20" "s \<noteq> [] \<longrightarrow> \<not> isspace (hd s)" using s assms(4) by (auto simp: starts_token_def blank_def isspace_def)
  ultimately have "skip_lines (0x20 # s) = Some s"
    using s skip_lines_text[of "0x20 # s"] by (cases s) (auto simp: starts_token_def)
  then show ?thesis
    using lx e lib_lawsD(1)[OF laws]
    by (simp add: reads_token_def lex_get_next_token_def tok_initialize_def lex_get_newline_def
        lex_get_character_tok_def tok_value_append_def tok_set_type_def EOF_def Let_def)
qed

lemma reads_writable:
  assumes "lib_laws L contents entries" and "contents e = []" and "starts_token s"
    and "token_ok (entries (reserved lx)) t v (spell t v)" and "stream lx = spell t v @ 0x20 # s"
  shows "reads_token contents L e lx t v s"
proof -
  note assms(4)
  then consider c where "(t, c) \<in> set punct" "v = [c]" "spell t v = [c]"
    | "t = HEXI" "spell t v = 0x23 # v" "length v = 4" "\<forall>x \<in> set v. is_hexi_digit x"
    | "t = DECI" "spell t v = 0x24 # v" "length v = 5" "\<forall>x \<in> set v. isdigit x" "atoi v < 2 ^ 16"
    | c w where "v = c # w" "spell t v = v" "isalpha c \<or> c = 0x5f" "\<forall>x \<in> set w. wordchar x"
        "t = classify (entries (reserved lx)) v"
    unfolding token_ok_def by blast
  then show ?thesis
  proof cases
    case 1
    then show ?thesis using reads_punct[OF assms(1-3)] assms(5) by simp
  next
    case 2
    then show ?thesis using reads_hexi[OF assms(1-3)] assms(5) by simp
  next
    case 3
    then show ?thesis using reads_deci[OF assms(1-3)] assms(5) by simp
  next
    case 4
    then show ?thesis using reads_word[OF assms(1-3)] assms(5) by simp
  qed
qed

definition write_tokens :: "(tok_type_t \<times> u8 list) list \<Rightarrow> u8 list" where
  "write_tokens ts = concat (map (\<lambda>(t, v). spell t v @ [0x20]) ts)"

definition token_line :: "tok_type_t \<times> u8 list \<Rightarrow> u8 list" where
  "token_line p = (case p of (t, v) \<Rightarrow> bytes (type_name (Some t)) @ bytes '', '' @ v @ [NL])"

lemma token_first:
  assumes "token_ok res t v l"
  shows "l \<noteq> [] \<and> \<not> blank (hd l) \<and> hd l \<noteq> 0x3b \<and> EOF \<notin> set l \<and> 0 \<notin> set v"
proof -
  have b: "\<not> blank c \<and> c \<noteq> 0x3b \<and> c \<noteq> EOF \<and> c \<noteq> 0" if "isalpha c \<or> c = 0x5f" for c
    using that by (auto simp: isalpha_def blank_def isspace_def EOF_def word_le_nat_alt)
  have p: "\<not> blank c \<and> c \<noteq> 0x3b \<and> c \<noteq> EOF \<and> c \<noteq> 0" if "(t, c) \<in> set punct" for c
    using that by (auto simp: punct_def blank_def isspace_def EOF_def)
  have h: "\<not> blank 0x23" "\<not> blank 0x24" "EOF \<noteq> 0x23" "EOF \<noteq> 0x24" by (simp_all add: blank_def isspace_def EOF_def)
  have d: "EOF \<notin> set v" if "\<forall>x \<in> set v. P x" "\<not> P EOF" for P using that by auto
  show ?thesis
    using assms b p h d[of is_hexi_digit] d[of isdigit] digit_nonzero EOF_class
    unfolding token_ok_def by (auto, blast+)
qed

lemma writable_first:
  assumes "writable res (t, v)"
  shows "spell t v \<noteq> [] \<and> \<not> blank (hd (spell t v)) \<and> hd (spell t v) \<noteq> 0x3b \<and> EOF \<notin> set (spell t v) \<and> 0 \<notin> set v \<and>
    (hd (spell t v) = NL \<longrightarrow> v = [NL])"
proof -
  have n: "spell NEWLINE [NL] = [NL]" "\<not> blank NL" "NL \<noteq> 0x3b" "EOF \<noteq> NL" "NL \<noteq> 0" by (simp_all add: spell_def blank_def EOF_def)
  have "hd (spell t v) \<noteq> NL" if "token_ok res t v (spell t v)"
  proof -
    have "isalpha c \<or> c = 0x5f \<Longrightarrow> c \<noteq> NL" for c using word_start by blast
    moreover have "(t, c) \<in> set punct \<Longrightarrow> c \<noteq> NL" for c by (auto simp: punct_def)
    ultimately show ?thesis using that unfolding token_ok_def by auto
  qed
  then show ?thesis using assms n token_first[of res t v "spell t v"] by (auto simp: writable_def)
qed

lemma starts_token_write:
  assumes "\<forall>p \<in> set ts. writable res p"
  shows "starts_token (write_tokens ts)"
proof -
  have "EOF \<notin> set (spell t v)" if "(t, v) \<in> set ts" for t v using assms that writable_first by blast
  then have "EOF \<notin> set (write_tokens ts)" by (auto simp: write_tokens_def EOF_def)
  moreover have "\<not> blank (hd (write_tokens ts)) \<and> hd (write_tokens ts) \<noteq> 0x3b" if ne: "ts \<noteq> []"
  proof -
    obtain t v ts' where ts: "ts = (t, v) # ts'" using ne by (cases ts) auto
    then have "writable res (t, v)" using assms by simp
    from writable_first[OF this] show ?thesis by (simp add: write_tokens_def ts)
  qed
  ultimately show ?thesis by (cases ts) (auto simp: starts_token_def write_tokens_def)
qed

lemma write_tokens_hd:
  assumes "writable res (t, v)" "hd (write_tokens ((t, v) # ts)) = NL"
  shows "v = [NL]"
  using writable_first[OF assms(1)] assms(2) by (simp add: write_tokens_def)

lemma main_loop_write:
  assumes laws: "lib_laws L contents entries" and mem: "\<forall>k. \<exists>e. mem k = Some (Some e) \<and> contents e = []"
  shows "stream lx = write_tokens ts \<Longrightarrow> \<forall>p \<in> set ts. writable (entries (reserved lx)) p \<Longrightarrow> newlines_apart ts \<Longrightarrow>
     main_loop L mem k lx out = Some (SUCCESS, out @ concat (map token_line ts))"
proof (induction ts arbitrary: k lx out)
  case Nil
  obtain e where e: "mem k = Some (Some e)" using mem by blast
  show ?case using Nil
    by (subst main_loop.simps)
       (simp add: e write_tokens_def lex_get_next_token_def tok_initialize_def lex_get_eof_def
         lex_get_character_tok_def tok_value_append_def tok_set_type_def tok_get_type_def)
next
  case (Cons p ts)
  obtain t v where p: "p = (t, v)" by (cases p)
  have wr: "writable (entries (reserved lx)) (t, v)" using Cons.prems(2) p by simp
  then have tk: "t \<noteq> TOK_EOF" "0 \<notin> set v" using writable_first[OF wr] by (simp_all add: writable_def)
  have s: "stream lx = spell t v @ 0x20 # write_tokens ts" using Cons.prems(1) p by (simp add: write_tokens_def)
  have st: "starts_token (write_tokens ts)" using starts_token_write Cons.prems(2) by (metis list.set_intros(2))
  obtain e where e: "mem k = Some (Some e)" "contents e = []" using mem by blast
  have "reads_token contents L e lx t v (write_tokens ts)"
  proof (cases "token_ok (entries (reserved lx)) t v (spell t v)")
    case True then show ?thesis by (rule reads_writable[OF laws e(2) st _ s])
  next
    case False
    then have nl: "t = NEWLINE" "v = [NL]" using wr by (auto simp: writable_def)
    have "write_tokens ts = [] \<or> hd (write_tokens ts) \<noteq> NL"
    proof (cases ts)
      case (Cons q ts')
      obtain u w where q: "q = (u, w)" by (cases q)
      have "writable (entries (reserved lx)) (u, w)" "w \<noteq> [NL]" using Cons.prems(2,3) Cons q p nl by auto
      then show ?thesis using write_tokens_hd Cons q by blast
    qed (simp add: write_tokens_def)
    then show ?thesis using reads_newline[OF laws e(2) st] s nl by (simp add: spell_def)
  qed
  then obtain tok w lx' where
    r: "lex_get_next_token L (Some (Some e)) lx = Some (SUCCESS, Some tok, lx')" "tok_type tok = Some t"
      "tok_value tok = Some w" "contents w = v" "stream lx' = write_tokens ts" "reserved lx' = reserved lx"
    unfolding reads_token_def by blast
  have "tok_print L tok = Some (token_line p)"
    using r tk lib_lawsD(4)[OF laws] p by (simp add: tok_print_def token_line_def)
  moreover have "newlines_apart ts" using Cons.prems(3) by (cases ts) auto
  then have "main_loop L mem (k + 1) lx' (out @ token_line p) =
      Some (SUCCESS, (out @ token_line p) @ concat (map token_line ts))"
    using Cons.IH[of lx'] r Cons.prems(2) by simp
  ultimately show ?case
    using tk r by (subst main_loop.simps) (simp add: e tok_get_type_def)
qed

lemma lex_main_write:
  assumes "lib_laws L contents entries" and "\<forall>k. \<exists>e. mem k = Some (Some e) \<and> contents e = []"
    and "lex_initialize L ok m str (write_tokens ts) = Some lx"
    and "\<forall>p \<in> set ts. writable (entries (reserved lx)) p" and "newlines_apart ts"
  shows "lex_main L mem ok m str 2 (Some (write_tokens ts)) = Some (SUCCESS, concat (map token_line ts))"
proof -
  have "stream lx = write_tokens ts"
    using assms(3) by (auto simp: lex_initialize_def split: if_splits option.splits)
  from main_loop_write[OF assms(1,2) this assms(4,5), of 0 "[]"] show ?thesis
    using assms(3) by (simp add: lex_main_def)
qed

lemma demo_reserved:
  "\<exists>lx. lex_initialize list_lib True (Some Map.empty) (Some []) s = Some lx \<and>
     (\<forall>w. reserved lx (bytes w) = map_of (zip reserved_words reserved_types) w)"
proof -
  obtain lx where lx: "lex_initialize list_lib True (Some Map.empty) (Some []) s = Some lx"
    using lex_initialize_list by blast
  have "reserved lx (bytes w) = map_of (zip reserved_words reserved_types) w" for w
    using lex_initialize_entries[OF list_lib_laws _ lx] by simp
  with lx show ?thesis by blast
qed

lemma length_bytes [simp]: "length (bytes w) = length w"
  by (simp add: bytes_def)

lemma classify_reserved:
  "length w \<noteq> 2 \<Longrightarrow> classify res (bytes w) = (case res (bytes w) of Some t \<Rightarrow> t | None \<Rightarrow> IDENT)"
  by (simp add: classify_def)

end
