(* ===== verification/Lex_Grammar.thy ===== *)
theory Lex_Grammar
  imports Lex_Correct
begin

text \<open>
  The tokens that the comment of \<^verbatim>\<open>CS720/parser/inc/parse.h\<close> documents, and how the lexer compares with
  them. The two agree except for three words: the comment has the registers \<open>R1\<close> to \<open>R8\<close> and an
  instruction \<open>not\<close>; the code takes \<open>R0\<close> to \<open>R7\<close> for registers, so that \<open>R0\<close> is one and \<open>R8\<close> is an identifier,
  and has no type for \<open>not\<close>, which is an identifier too. A token is named by its documented name, a string,
  because there is a name without a type.
\<close>

subsection \<open>The documented tokens\<close>

definition grammar_words :: "(string \<times> string) list" where
  "grammar_words = [(''nop'', ''NOP''), (''halt'', ''HALT''), (''clr'', ''CLR''), (''inc'', ''INC''), (''dec'', ''DEC''),
     (''frm'', ''FRM''), (''dis'', ''DIS''), (''alm'', ''ALM''), (''add'', ''ADD''), (''sub'', ''SUB''), (''mul'', ''MUL''),
     (''div'', ''DIV''), (''mov'', ''MOV''), (''and'', ''AND''), (''or'', ''OR''), (''not'', ''NOT''), (''xor'', ''XOR''),
     (''cmp'', ''CMP''), (''jeq'', ''JEQ''), (''jgt'', ''JGT''), (''jlt'', ''JLT''), (''jle'', ''JLE''), (''jge'', ''JGE'')]"

definition grammar_class :: "u8 list \<Rightarrow> string" where
  "grammar_class w =
     (if length w = 2 \<and> w ! 0 = 0x52 \<and> in_range (w ! 1) 0x31 0x38 then ''REGISTER''
      else case map_of (map (\<lambda>(s, n). (bytes s, n)) grammar_words) w of Some n \<Rightarrow> n | None \<Rightarrow> ''IDENT'')"

text \<open>\<open>grammar_token n v l\<close>: the text \<open>l\<close> is a token of the name \<open>n\<close> with value \<open>v\<close>.\<close>

definition grammar_token :: "string \<Rightarrow> u8 list \<Rightarrow> u8 list \<Rightarrow> bool" where
  "grammar_token n v l \<longleftrightarrow>
     (\<exists>t c. (t, c) \<in> set punct \<and> n = type_name (Some t) \<and> v = [c] \<and> l = [c]) \<or>
     (n = ''HEXI'' \<and> l = 0x23 # v \<and> length v = 4 \<and> (\<forall>x \<in> set v. is_hexi_digit x)) \<or>
     (n = ''DECI'' \<and> l = 0x24 # v \<and> length v = 5 \<and> (\<forall>x \<in> set v. isdigit x) \<and> atoi v < 2 ^ 16) \<or>
     (\<exists>c w. v = c # w \<and> l = v \<and> (isalpha c \<or> c = 0x5f) \<and> (\<forall>x \<in> set w. wordchar x) \<and> n = grammar_class v)"

definition deviant :: "u8 list \<Rightarrow> bool" where
  "deviant v \<longleftrightarrow> v \<in> {bytes ''R0'', bytes ''R8'', bytes ''not''}"

subsection \<open>The comparison\<close>

text \<open>The table of reserved words as \<^verbatim>\<open>lex_initialize\<close> leaves it.\<close>

definition reserved_table :: "u8 list \<rightharpoonup> tok_type_t" where
  "reserved_table = map_of (map (\<lambda>(w, t). (bytes w, t)) (zip reserved_words reserved_types))"

lemma bytes_surj: "\<exists>w. v = bytes w"
proof (rule exI)
  have "(of_nat (of_char (char_of (unat b))) :: u8) = b" for b :: u8
    using unsigned_less[of b, where 'a = nat] by (simp add: of_char_of)
  then show "v = bytes (map (\<lambda>b. char_of (unat b)) v)" by (simp add: bytes_def comp_def)
qed

lemma initialized_table:
  assumes "lib_laws L contents entries" "entries m = Map.empty" "lex_initialize L ok (Some m) (Some str) s = Some lx"
  shows "entries (reserved lx) = reserved_table"
proof
  fix v
  obtain w where w: "v = bytes w" using bytes_surj by blast
  show "entries (reserved lx) v = reserved_table v"
    using lex_initialize_entries[OF assms, of w] map_of_bytes[of "zip reserved_words reserved_types" w]
    by (simp add: w reserved_table_def)
qed

lemma same_class:
  assumes "\<not> deviant v"
  shows "type_name (Some (classify reserved_table v)) = grammar_class v"
proof (cases "length v = 2 \<and> v ! 0 = 0x52")
  case True
  then obtain c where v: "v = [0x52, c]" by (cases v; cases "tl v") auto
  have "c \<noteq> 0x30" "c \<noteq> 0x38" using assms by (auto simp: v deviant_def bytes_def)
  then have "sint c \<noteq> sint (0x30 :: u8)" "sint c \<noteq> sint (0x38 :: u8)" using signed_word_eqI by blast+
  then have "in_range c 0x30 0x37 \<longleftrightarrow> in_range c 0x31 0x38" by (auto simp: in_range_def word_sle_eq)
  then show ?thesis
    by (simp add: classify_def grammar_class_def v reserved_table_def reserved_words_def reserved_types_def grammar_words_def
        bytes_def type_name_def)
next
  case False
  show ?thesis
  proof (cases "v \<in> bytes ` set reserved_words")
    case True
    then show ?thesis
      unfolding reserved_words_def list.set image_insert image_empty insert_iff empty_iff
      by (elim disjE) (simp_all add: classify_def grammar_class_def reserved_table_def reserved_words_def reserved_types_def
          grammar_words_def bytes_def type_name_def)
  next
    case F2: False
    have "reserved_table v = None"
      using F2 by (simp add: reserved_table_def reserved_words_def reserved_types_def)
    moreover have "map_of (map (\<lambda>(s, n). (bytes s, n)) grammar_words) v = None"
      using F2 assms by (simp add: grammar_words_def reserved_words_def deviant_def)
    ultimately show ?thesis using False by (auto simp: classify_def grammar_class_def type_name_def)
  qed
qed

lemma deviant_class:
  "classify reserved_table (bytes ''R0'') = REGISTER" "classify reserved_table (bytes ''R8'') = IDENT"
  "classify reserved_table (bytes ''not'') = IDENT"
  "grammar_class (bytes ''R0'') = ''IDENT''" "grammar_class (bytes ''R8'') = ''REGISTER''" "grammar_class (bytes ''not'') = ''NOT''"
  by (simp_all add: classify_def grammar_class_def reserved_table_def reserved_words_def reserved_types_def
      grammar_words_def bytes_def in_range_def word_sle_eq)

lemma type_name_inj: "type_name (Some t) = type_name (Some t') \<Longrightarrow> t = t'"
  by (cases t; cases t'; simp add: type_name_def)

lemma type_names: "''HEXI'' = type_name (Some HEXI)" "''DECI'' = type_name (Some DECI)"
  by (simp_all add: type_name_def)

text \<open>The texts the lexer takes for tokens are the documented ones, but for the three words.\<close>

lemma token_ok_grammar:
  "token_ok reserved_table t v l \<longleftrightarrow>
     (if deviant v then l = v \<and> t = (if v = bytes ''R0'' then REGISTER else IDENT)
      else grammar_token (type_name (Some t)) v l)"
proof (cases "deviant v")
  case True
  have short: "length v = 2 \<or> length v = 3" using True by (auto simp: deviant_def)
  have word: "\<exists>c w. v = c # w \<and> (isalpha c \<or> c = 0x5f) \<and> (\<forall>x \<in> set w. wordchar x)"
    using True by (auto simp: deviant_def bytes_def isalpha_def wordchar_def isalnum_def isdigit_def)
  have "classify reserved_table v = (if v = bytes ''R0'' then REGISTER else IDENT)"
    using True deviant_class(1-3) by (auto simp: deviant_def)
  moreover have "token_ok reserved_table t v l \<longleftrightarrow> l = v \<and> t = classify reserved_table v"
    using short word unfolding token_ok_def by auto
  ultimately show ?thesis using True by simp
next
  case False
  have "token_ok reserved_table t v l \<longleftrightarrow> grammar_token (type_name (Some t)) v l"
    unfolding token_ok_def grammar_token_def type_names same_class[OF False, symmetric]
    using type_name_inj by blast
  then show ?thesis using False by simp
qed

subsection \<open>Properties\<close>

text \<open>C24: Whatever token the lexer delivers is a token of the grammar that \<^verbatim>\<open>parse.h\<close> documents, with three exceptions.
  With the reserved words of \<^verbatim>\<open>lex_initialize\<close> and on text, a call either reports an unexpected character and
  delivers nothing, or delivers a token that stands at the front of the input: the end of the file, a
  newline, or a text of the documented form of the token's type (a punctuation mark, a hexadecimal or decimal
  literal of the right length and range, a register, an instruction or another word), where the word \<open>R0\<close> is
  delivered as a register (documented: an identifier), \<open>R8\<close> as an identifier (documented: a register) and
  \<open>not\<close> as an identifier (documented: an instruction). What the call takes from the input beyond that text is
  white space and comments only.\<close>

theorem next_token_sound:
  assumes laws: "lib_laws L contents entries" and init: "entries m = Map.empty" "lex_initialize L ok (Some m) (Some str) s0 = Some lx0"
    and res: "reserved lx = reserved lx0" and e: "contents e = []" and asc: "EOF \<notin> set (stream lx)"
    and call: "lex_get_next_token L (Some (Some e)) lx = Some (st, tk, lx')"
  shows "(st = UNEXPECTED_CHAR \<and> tk = None) \<or>
     (st = SUCCESS \<and> reserved lx' = reserved lx \<and>
      (\<exists>tok t v. tk = Some tok \<and> tok_type tok = Some t \<and> tok_value tok = Some v \<and>
        (t = TOK_EOF \<and> stream lx = [] \<and> stream lx' = [] \<or>
         t = NEWLINE \<and> contents v = [NL] \<and> (\<exists>g. stream lx = NL # g @ stream lx' \<and> white_lines g) \<or>
         (\<exists>l g. stream lx = l @ g @ stream lx' \<and> line_gap g \<and>
            (if deviant (contents v) then l = contents v \<and> t = (if contents v = bytes ''R0'' then REGISTER else IDENT)
             else grammar_token (type_name (Some t)) (contents v) l)))))"
proof -
  have "entries (reserved lx) = reserved_table" using initialized_table[OF laws init] res by simp
  then show ?thesis
    using next_token_ok[OF laws e asc] call unfolding call_ok_def found_def token_ok_grammar[symmetric] by auto
qed

definition demo_source :: "u8 list" where
  "demo_source = bytes ''add R1 ''"

lemma demo_initialized:
  obtains lx where "lex_initialize list_lib True (Some Map.empty) (Some []) s = Some lx" "stream lx = s" "reserved lx = reserved_table"
proof -
  obtain lx where lx: "lex_initialize list_lib True (Some Map.empty) (Some []) s = Some lx" using lex_initialize_list by blast
  show thesis
    by (rule that[OF lx]) (use lex_initialize_entries[OF list_lib_laws refl lx] initialized_table[OF list_lib_laws refl lx] in auto)
qed

theorem next_token_sound_witness:
  "\<exists>lx tok lx'. lex_initialize list_lib True (Some Map.empty) (Some []) demo_source = Some lx \<and>
     lex_get_next_token list_lib (Some (Some [])) lx = Some (SUCCESS, Some tok, lx') \<and>
     tok_type tok = Some ADD \<and> tok_value tok = Some (bytes ''add'') \<and> stream lx' = bytes ''R1 '' \<and>
     (\<exists>l g. demo_source = l @ g @ bytes ''R1 '' \<and> grammar_token ''ADD'' (bytes ''add'') l)"
proof -
  obtain lx where lx: "lex_initialize list_lib True (Some Map.empty) (Some []) demo_source = Some lx"
    "stream lx = demo_source" "reserved lx = reserved_table" by (rule demo_initialized)
  have src: "demo_source = 0x61 # bytes ''dd'' @ 0x20 # bytes ''R1 ''" by (simp add: demo_source_def bytes_def)
  have "starts_token (bytes ''R1 '')" by (simp add: starts_token_def bytes_def EOF_def blank_def isspace_def)
  moreover have "(0x61 :: u8) # bytes ''dd'' = bytes ''add''" by (simp add: bytes_def)
  moreover have "classify reserved_table (bytes ''add'') = ADD"
    by (simp add: classify_def reserved_table_def reserved_words_def reserved_types_def bytes_def)
  moreover have "isalpha 0x61" "\<forall>x \<in> set (bytes ''dd''). wordchar x"
    by (simp_all add: isalpha_def bytes_def wordchar_def isalnum_def)
  ultimately have "reads_token (\<lambda>s. s) list_lib [] lx ADD (bytes ''add'') (bytes ''R1 '')"
    using reads_word[OF list_lib_laws refl, of "bytes ''R1 ''" "0x61" "bytes ''dd''" lx] lx src by simp
  then obtain tok lx' where r: "lex_get_next_token list_lib (Some (Some [])) lx = Some (SUCCESS, Some tok, lx')"
    "tok_type tok = Some ADD" "tok_value tok = Some (bytes ''add'')" "stream lx' = bytes ''R1 ''"
    by (auto simp: reads_token_def)
  have "EOF \<notin> set (stream lx)" by (simp add: lx(2) demo_source_def bytes_def EOF_def)
  from next_token_sound[OF list_lib_laws refl lx(1) refl refl this r(1)]
  have "\<exists>l g. demo_source = l @ g @ bytes ''R1 '' \<and>
      (if deviant (bytes ''add'') then l = bytes ''add'' \<and> ADD = (if bytes ''add'' = bytes ''R0'' then REGISTER else IDENT)
       else grammar_token (type_name (Some ADD)) (bytes ''add'') l)"
    using r lx(2) by auto
  moreover have "\<not> deviant (bytes ''add'')" by (simp add: deviant_def bytes_def)
  ultimately have "\<exists>l g. demo_source = l @ g @ bytes ''R1 '' \<and> grammar_token ''ADD'' (bytes ''add'') l"
    by (simp add: type_name_def)
  then show ?thesis using lx(1) r by blast
qed

text \<open>The documented tokens as pairs of type and value: newlines, and what the grammar calls by the type's name, without the
  three words.\<close>

definition documented :: "tok_type_t \<times> u8 list \<Rightarrow> bool" where
  "documented p \<longleftrightarrow> (case p of (t, v) \<Rightarrow> t = NEWLINE \<and> v = [NL] \<or>
     \<not> deviant v \<and> grammar_token (type_name (Some t)) v (spell t v))"

lemma grammar_class_not_eof: "grammar_class v \<noteq> ''TOK_EOF''"
proof -
  have "n \<noteq> ''TOK_EOF''" if "map_of (map (\<lambda>(s, n). (bytes s, n)) grammar_words) v = Some n" for n
    using map_of_SomeD[OF that] by (auto simp: grammar_words_def)
  then show ?thesis by (auto simp: grammar_class_def split: option.splits)
qed

lemma documented_writable: "documented p \<Longrightarrow> writable reserved_table p"
proof -
  assume d: "documented p"
  obtain t v where p: "p = (t, v)" by (cases p)
  have "t \<noteq> TOK_EOF" if "grammar_token (type_name (Some t)) v l" for l
    using that grammar_class_not_eof[of v] unfolding grammar_token_def by (auto simp: type_name_def punct_def)
  then show ?thesis using d token_ok_grammar[of t v "spell t v"] by (auto simp: p documented_def writable_def)
qed

text \<open>C27: Reading back. If a list of tokens of the documented grammar, newlines included but not two of them in a row,
  and without the words \<open>R0\<close>, \<open>R8\<close> and \<open>not\<close>, is written with one space after each, the program
  succeeds on that file and prints exactly these tokens, in order, with their types and values.\<close>

theorem lex_main_roundtrip:
  assumes laws: "lib_laws L contents entries" and mem: "\<forall>k. \<exists>e. mem k = Some (Some e) \<and> contents e = []"
    and init: "entries m = Map.empty" "lex_initialize L ok (Some m) (Some str) (write_tokens ts) = Some lx"
    and ts: "\<forall>p \<in> set ts. documented p" "newlines_apart ts"
  shows "lex_main L mem ok (Some m) (Some str) 2 (Some (write_tokens ts)) = Some (SUCCESS, concat (map token_line ts))"
  by (rule lex_main_write[OF laws mem init(2) _ ts(2)])
    (use ts(1) documented_writable initialized_table[OF laws init] in auto)

definition demo_tokens :: "(tok_type_t \<times> u8 list) list" where
  "demo_tokens = [(ADD, bytes ''add''), (REGISTER, bytes ''R1''), (COMMA, [0x2c]), (HEXI, bytes ''FF70''),
     (NEWLINE, [NL]), (IDENT, bytes ''loop''), (COLON, [0x3a])]"

theorem lex_main_roundtrip_witness:
  "lex_main list_lib (\<lambda>_. Some (Some [])) True (Some Map.empty) (Some []) 2 (Some (write_tokens demo_tokens)) =
     Some (SUCCESS, concat (map token_line demo_tokens))"
proof -
  obtain lx where lx: "lex_initialize list_lib True (Some Map.empty) (Some []) (write_tokens demo_tokens) = Some lx"
    by (rule demo_initialized)
  note word = documented_def deviant_def grammar_token_def spell_def type_name_def grammar_class_def grammar_words_def bytes_def
    isalpha_def wordchar_def isalnum_def isdigit_def in_range_def word_sle_eq
  have "documented (ADD, bytes ''add'')" "documented (REGISTER, bytes ''R1'')" "documented (IDENT, bytes ''loop'')"
    by (simp_all add: word)
  moreover have "documented (COMMA, [0x2c])" "documented (COLON, [0x3a])" "documented (NEWLINE, [NL])"
    by (simp_all add: word punct_def)
  moreover have "documented (HEXI, bytes ''FF70'')" by (simp add: word is_hexi_digit_def)
  ultimately have "\<forall>p \<in> set demo_tokens. documented p" by (simp add: demo_tokens_def)
  moreover have "newlines_apart demo_tokens" by (simp add: demo_tokens_def bytes_def)
  ultimately show ?thesis by (intro lex_main_roundtrip[OF list_lib_laws _ _ lx]) auto
qed

end
