(* ===== verification/KString.thy ===== *)
theory KString
  imports Prelude
begin

text \<open>
  The kernel's string routines, the portable versions of \<^verbatim>\<open>lib/string.c\<close>, with the character classes of
  \<^verbatim>\<open>lib/ctype.c\<close>. Memory is a partial map from addresses to bytes: an access outside it, or a loop
  that never ends, makes the result \<open>None\<close>. A routine that writes returns the new memory with its
  result; a null pointer result is \<open>None\<close> inside the outcome. Counts are natural numbers, except
  where the code lets one wrap around or cuts it to an \<open>int\<close>. A \<open>char\<close> is a signed byte.
\<close>

subsection \<open>Memory\<close>

type_synonym mem = "nat \<rightharpoonup> u8"

definition put :: "mem \<Rightarrow> nat \<Rightarrow> u8 \<Rightarrow> mem option" where
  "put m p v = (case m p of None \<Rightarrow> None | Some _ \<Rightarrow> Some (m(p \<mapsto> v)))"

subsection \<open>Character classes\<close>

definition ct_U :: u8 where "ct_U = 0x01"
definition ct_L :: u8 where "ct_L = 0x02"
definition ct_D :: u8 where "ct_D = 0x04"
definition ct_C :: u8 where "ct_C = 0x08"
definition ct_P :: u8 where "ct_P = 0x10"
definition ct_S :: u8 where "ct_S = 0x20"
definition ct_X :: u8 where "ct_X = 0x40"
definition ct_SP :: u8 where "ct_SP = 0x80"

definition ctype_table :: "u8 list" where
  "ctype_table =
     replicate 9 ct_C @ replicate 5 (ct_C OR ct_S) @ replicate 18 ct_C @
     (ct_S OR ct_SP) # replicate 15 ct_P @ replicate 10 ct_D @ replicate 7 ct_P @
     replicate 6 (ct_U OR ct_X) @ replicate 20 ct_U @ replicate 6 ct_P @
     replicate 6 (ct_L OR ct_X) @ replicate 20 ct_L @ replicate 4 ct_P @ ct_C # replicate 32 0 @
     (ct_S OR ct_SP) # replicate 31 ct_P @ replicate 23 ct_U @ ct_P # replicate 7 ct_U @
     replicate 24 ct_L @ ct_P # replicate 8 ct_L"

definition ismask :: "u8 \<Rightarrow> u8" where
  "ismask c = ctype_table ! unat c"

definition isspace :: "u8 \<Rightarrow> bool" where "isspace c = (ismask c AND ct_S \<noteq> 0)"
definition isupper :: "u8 \<Rightarrow> bool" where "isupper c = (ismask c AND ct_U \<noteq> 0)"

definition tolower :: "u8 \<Rightarrow> u8" where
  "tolower c = (if isupper c then c - (0x41 - 0x61) else c)"

subsection \<open>Lengths\<close>

partial_function (option) strlen_loop :: "mem \<Rightarrow> nat \<Rightarrow> nat option" where
  "strlen_loop m sc = do { c \<leftarrow> m sc; if c \<noteq> 0 then strlen_loop m (sc + 1) else Some sc }"

definition strlen :: "mem \<Rightarrow> nat \<Rightarrow> nat option" where
  "strlen m s = do { sc \<leftarrow> strlen_loop m s; Some (sc - s) }"

fun strnlen_loop :: "mem \<Rightarrow> nat \<Rightarrow> nat \<Rightarrow> nat option" where
  "strnlen_loop m sc 0 = Some sc"
| "strnlen_loop m sc (Suc count) = do { c \<leftarrow> m sc; if c \<noteq> 0 then strnlen_loop m (sc + 1) count else Some sc }"

definition strnlen :: "mem \<Rightarrow> nat \<Rightarrow> nat \<Rightarrow> nat option" where
  "strnlen m s count = do { sc \<leftarrow> strnlen_loop m s count; Some (sc - s) }"

subsection \<open>Areas of memory\<close>

fun memset_loop :: "mem \<Rightarrow> nat \<Rightarrow> u8 \<Rightarrow> nat \<Rightarrow> mem option" where
  "memset_loop m xs c 0 = Some m"
| "memset_loop m xs c (Suc count) = do { m \<leftarrow> put m xs c; memset_loop m (xs + 1) c count }"

definition memset :: "mem \<Rightarrow> nat \<Rightarrow> u8 \<Rightarrow> nat \<Rightarrow> (mem \<times> nat) option" where
  "memset m s c count = do { m \<leftarrow> memset_loop m s c count; Some (m, s) }"

fun copy_up :: "mem \<Rightarrow> nat \<Rightarrow> nat \<Rightarrow> nat \<Rightarrow> mem option" where
  "copy_up m tmp s 0 = Some m"
| "copy_up m tmp s (Suc count) = do { c \<leftarrow> m s; m \<leftarrow> put m tmp c; copy_up m (tmp + 1) (s + 1) count }"

fun copy_down :: "mem \<Rightarrow> nat \<Rightarrow> nat \<Rightarrow> nat \<Rightarrow> mem option" where
  "copy_down m tmp s 0 = Some m"
| "copy_down m tmp s (Suc count) =
     do { c \<leftarrow> m (s - 1); m \<leftarrow> put m (tmp - 1) c; copy_down m (tmp - 1) (s - 1) count }"

definition memcpy :: "mem \<Rightarrow> nat \<Rightarrow> nat \<Rightarrow> nat \<Rightarrow> (mem \<times> nat) option" where
  "memcpy m dest src count = do { m \<leftarrow> copy_up m dest src count; Some (m, dest) }"

definition memmove :: "mem \<Rightarrow> nat \<Rightarrow> nat \<Rightarrow> nat \<Rightarrow> (mem \<times> nat) option" where
  "memmove m dest src count = do {
     m \<leftarrow> (if dest \<le> src then copy_up m dest src count
           else copy_down m (dest + count) (src + count) count);
     Some (m, dest) }"

fun memcmp_loop :: "mem \<Rightarrow> nat \<Rightarrow> nat \<Rightarrow> int \<Rightarrow> nat \<Rightarrow> int option" where
  "memcmp_loop m su1 su2 res 0 = Some res"
| "memcmp_loop m su1 su2 res (Suc count) = do {
     a \<leftarrow> m su1; b \<leftarrow> m su2;
     let res = uint a - uint b;
     if res \<noteq> 0 then Some res else memcmp_loop m (su1 + 1) (su2 + 1) res count }"

definition memcmp :: "mem \<Rightarrow> nat \<Rightarrow> nat \<Rightarrow> nat \<Rightarrow> int option" where
  "memcmp m cs ct count = memcmp_loop m cs ct 0 count"

fun memscan :: "mem \<Rightarrow> nat \<Rightarrow> int \<Rightarrow> nat \<Rightarrow> nat option" where
  "memscan m p c 0 = Some p"
| "memscan m p c (Suc n) = do { x \<leftarrow> m p; if uint x = c then Some p else memscan m (p + 1) c n }"

fun memchr :: "mem \<Rightarrow> nat \<Rightarrow> int \<Rightarrow> nat \<Rightarrow> nat option option" where
  "memchr m p c 0 = Some None"
| "memchr m p c (Suc n) = do {
     x \<leftarrow> m p;
     if (word_of_int c :: u8) = x then Some (Some p) else memchr m (p + 1) c n }"

subsection \<open>Copying strings\<close>

partial_function (option) strcpy_loop :: "mem \<Rightarrow> nat \<Rightarrow> nat \<Rightarrow> mem option" where
  "strcpy_loop m dest src = do {
     c \<leftarrow> m src; m \<leftarrow> put m dest c;
     if c \<noteq> 0 then strcpy_loop m (dest + 1) (src + 1) else Some m }"

definition strcpy :: "mem \<Rightarrow> nat \<Rightarrow> nat \<Rightarrow> (mem \<times> nat) option" where
  "strcpy m dest src = do { m \<leftarrow> strcpy_loop m dest src; Some (m, dest) }"

fun strncpy_loop :: "mem \<Rightarrow> nat \<Rightarrow> nat \<Rightarrow> nat \<Rightarrow> mem option" where
  "strncpy_loop m tmp src 0 = Some m"
| "strncpy_loop m tmp src (Suc count) = do {
     c \<leftarrow> m src; m \<leftarrow> put m tmp c;
     strncpy_loop m (tmp + 1) (if c \<noteq> 0 then src + 1 else src) count }"

definition strncpy :: "mem \<Rightarrow> nat \<Rightarrow> nat \<Rightarrow> nat \<Rightarrow> (mem \<times> nat) option" where
  "strncpy m dest src count = do { m \<leftarrow> strncpy_loop m dest src count; Some (m, dest) }"

definition strlcpy :: "mem \<Rightarrow> nat \<Rightarrow> nat \<Rightarrow> nat \<Rightarrow> (mem \<times> nat) option" where
  "strlcpy m dest src bufsize = do {
     ret \<leftarrow> strlen m src;
     if bufsize \<noteq> 0 then do {
       let len = (if bufsize \<le> ret then bufsize - 1 else ret);
       (m, _) \<leftarrow> memcpy m dest src len;
       m \<leftarrow> put m (dest + len) 0;
       Some (m, ret) }
     else Some (m, ret) }"

definition strcat :: "mem \<Rightarrow> nat \<Rightarrow> nat \<Rightarrow> (mem \<times> nat) option" where
  "strcat m dest src = do {
     d \<leftarrow> strlen_loop m dest;
     m \<leftarrow> strcpy_loop m d src;
     Some (m, dest) }"

text \<open>The copying loop of \<^verbatim>\<open>strncat\<close>, entered with a positive count.\<close>

fun strncat_loop :: "mem \<Rightarrow> nat \<Rightarrow> nat \<Rightarrow> nat \<Rightarrow> mem option" where
  "strncat_loop m dest src 0 = Some m"
| "strncat_loop m dest src (Suc count) = do {
     c \<leftarrow> m src; m \<leftarrow> put m dest c;
     if c \<noteq> 0 then (if count = 0 then put m (dest + 1) 0 else strncat_loop m (dest + 1) (src + 1) count)
     else Some m }"

definition strncat :: "mem \<Rightarrow> nat \<Rightarrow> nat \<Rightarrow> nat \<Rightarrow> (mem \<times> nat) option" where
  "strncat m dest src count =
     (if count \<noteq> 0 then do {
        d \<leftarrow> strlen_loop m dest;
        m \<leftarrow> strncat_loop m d src count;
        Some (m, dest) }
      else Some (m, dest))"

text \<open>\<^verbatim>\<open>BUG_ON\<close> does not come back.\<close>

definition strlcat :: "mem \<Rightarrow> nat \<Rightarrow> nat \<Rightarrow> nat \<Rightarrow> (mem \<times> nat) option" where
  "strlcat m dest src count = do {
     dsize \<leftarrow> strlen m dest;
     len \<leftarrow> strlen m src;
     let res = dsize + len;
     guard_opt (\<not> count \<le> dsize);
     let dest = dest + dsize;
     let count = count - dsize;
     let len = (if count \<le> len then count - 1 else len);
     (m, _) \<leftarrow> memcpy m dest src len;
     m \<leftarrow> put m (dest + len) 0;
     Some (m, res) }"

subsection \<open>Comparing strings\<close>

text \<open>A pass of the loop of \<^verbatim>\<open>strnicmp\<close>; \<open>len\<close> passes are left after it.\<close>

fun strnicmp_loop :: "mem \<Rightarrow> nat \<Rightarrow> nat \<Rightarrow> nat \<Rightarrow> (u8 \<times> u8) option" where
  "strnicmp_loop m s1 s2 len = do {
     c1 \<leftarrow> m s1; c2 \<leftarrow> m s2;
     if c1 = 0 \<or> c2 = 0 then Some (c1, c2)
     else if c1 = c2
     then (case len of 0 \<Rightarrow> Some (c1, c2) | Suc len \<Rightarrow> strnicmp_loop m (s1 + 1) (s2 + 1) len)
     else let c1 = tolower c1; c2 = tolower c2 in
     if c1 \<noteq> c2 then Some (c1, c2)
     else (case len of 0 \<Rightarrow> Some (c1, c2) | Suc len \<Rightarrow> strnicmp_loop m (s1 + 1) (s2 + 1) len) }"

declare strnicmp_loop.simps [simp del]

definition strnicmp :: "mem \<Rightarrow> nat \<Rightarrow> nat \<Rightarrow> nat \<Rightarrow> int option" where
  "strnicmp m s1 s2 len = do {
     (c1, c2) \<leftarrow> (case len of 0 \<Rightarrow> Some (0, 0) | Suc len \<Rightarrow> strnicmp_loop m s1 s2 len);
     Some (uint c1 - uint c2) }"

partial_function (option) strcasecmp :: "mem \<Rightarrow> nat \<Rightarrow> nat \<Rightarrow> int option" where
  "strcasecmp m s1 s2 = do {
     a \<leftarrow> m s1; b \<leftarrow> m s2;
     let c1 = tolower a;
     let c2 = tolower b;
     if c1 = c2 \<and> c1 \<noteq> 0 then strcasecmp m (s1 + 1) (s2 + 1) else Some (uint c1 - uint c2) }"

text \<open>The count is decremented before it is tested: a count of zero wraps around.\<close>

partial_function (option) strncasecmp :: "mem \<Rightarrow> nat \<Rightarrow> nat \<Rightarrow> u64 \<Rightarrow> int option" where
  "strncasecmp m s1 s2 n = do {
     a \<leftarrow> m s1; b \<leftarrow> m s2;
     let c1 = tolower a;
     let c2 = tolower b;
     let n = n - 1;
     if 0 < n \<and> c1 = c2 \<and> c1 \<noteq> 0 then strncasecmp m (s1 + 1) (s2 + 1) n
     else Some (uint c1 - uint c2) }"

text \<open>The difference is kept in a signed byte.\<close>

partial_function (option) strcmp :: "mem \<Rightarrow> nat \<Rightarrow> nat \<Rightarrow> int option" where
  "strcmp m cs ct = do {
     a \<leftarrow> m cs; b \<leftarrow> m ct;
     let res = a - b;
     if res \<noteq> 0 \<or> a = 0 then Some (sint res) else strcmp m (cs + 1) (ct + 1) }"

fun strncmp_loop :: "mem \<Rightarrow> nat \<Rightarrow> nat \<Rightarrow> u8 \<Rightarrow> nat \<Rightarrow> int option" where
  "strncmp_loop m cs ct res 0 = Some (sint res)"
| "strncmp_loop m cs ct res (Suc count) = do {
     a \<leftarrow> m cs; b \<leftarrow> m ct;
     let res = a - b;
     if res \<noteq> 0 \<or> a = 0 then Some (sint res) else strncmp_loop m (cs + 1) (ct + 1) res count }"

definition strncmp :: "mem \<Rightarrow> nat \<Rightarrow> nat \<Rightarrow> nat \<Rightarrow> int option" where
  "strncmp m cs ct count = strncmp_loop m cs ct 0 count"

subsection \<open>Searching\<close>

partial_function (option) strchr :: "mem \<Rightarrow> nat \<Rightarrow> u8 \<Rightarrow> nat option option" where
  "strchr m s c = do {
     x \<leftarrow> m s;
     if x \<noteq> c then (if x = 0 then Some None else strchr m (s + 1) c) else Some (Some s) }"

text \<open>The pointer is \<open>s + n\<close>.\<close>

fun strrchr_loop :: "mem \<Rightarrow> nat \<Rightarrow> u8 \<Rightarrow> nat \<Rightarrow> nat option option" where
  "strrchr_loop m s c n = do {
     x \<leftarrow> m (s + n);
     if x = c then Some (Some (s + n))
     else (case n of 0 \<Rightarrow> Some None | Suc n \<Rightarrow> strrchr_loop m s c n) }"

declare strrchr_loop.simps [simp del]

definition strrchr :: "mem \<Rightarrow> nat \<Rightarrow> u8 \<Rightarrow> nat option option" where
  "strrchr m s c = do { n \<leftarrow> strlen m s; strrchr_loop m s c n }"

fun strnchr :: "mem \<Rightarrow> nat \<Rightarrow> nat \<Rightarrow> u8 \<Rightarrow> nat option option" where
  "strnchr m s 0 c = Some None"
| "strnchr m s (Suc count) c = do {
     x \<leftarrow> m s;
     if x \<noteq> 0 then (if x = c then Some (Some s) else strnchr m (s + 1) count c) else Some None }"

text \<open>The inner loops over the set: where the first one stops, and whether the second finds the byte.\<close>

partial_function (option) accept_loop :: "mem \<Rightarrow> u8 \<Rightarrow> nat \<Rightarrow> nat option" where
  "accept_loop m c a = do {
     x \<leftarrow> m a;
     if x \<noteq> 0 then (if c = x then Some a else accept_loop m c (a + 1)) else Some a }"

partial_function (option) reject_loop :: "mem \<Rightarrow> u8 \<Rightarrow> nat \<Rightarrow> bool option" where
  "reject_loop m c r = do {
     x \<leftarrow> m r;
     if x \<noteq> 0 then (if c = x then Some True else reject_loop m c (r + 1)) else Some False }"

partial_function (option) strspn_loop :: "mem \<Rightarrow> nat \<Rightarrow> nat \<Rightarrow> nat \<Rightarrow> nat option" where
  "strspn_loop m p accept count = do {
     c \<leftarrow> m p;
     if c \<noteq> 0 then do {
       a \<leftarrow> accept_loop m c accept;
       x \<leftarrow> m a;
       if x = 0 then Some count else strspn_loop m (p + 1) accept (count + 1) }
     else Some count }"

definition strspn :: "mem \<Rightarrow> nat \<Rightarrow> nat \<Rightarrow> nat option" where
  "strspn m s accept = strspn_loop m s accept 0"

partial_function (option) strcspn_loop :: "mem \<Rightarrow> nat \<Rightarrow> nat \<Rightarrow> nat \<Rightarrow> nat option" where
  "strcspn_loop m p reject count = do {
     c \<leftarrow> m p;
     if c \<noteq> 0 then do {
       found \<leftarrow> reject_loop m c reject;
       if found then Some count else strcspn_loop m (p + 1) reject (count + 1) }
     else Some count }"

definition strcspn :: "mem \<Rightarrow> nat \<Rightarrow> nat \<Rightarrow> nat option" where
  "strcspn m s reject = strcspn_loop m s reject 0"

partial_function (option) strpbrk :: "mem \<Rightarrow> nat \<Rightarrow> nat \<Rightarrow> nat option option" where
  "strpbrk m sc1 ct = do {
     c \<leftarrow> m sc1;
     if c \<noteq> 0 then do {
       found \<leftarrow> reject_loop m c ct;
       if found then Some (Some sc1) else strpbrk m (sc1 + 1) ct }
     else Some None }"

text \<open>The first component of the result is the token, the second what \<open>*s\<close> becomes.\<close>

definition strsep :: "mem \<Rightarrow> nat option \<Rightarrow> nat \<Rightarrow> (nat option \<times> nat option \<times> mem) option" where
  "strsep m s ct = (case s of
     None \<Rightarrow> Some (None, None, m)
   | Some sbegin \<Rightarrow> do {
       e \<leftarrow> strpbrk m sbegin ct;
       case e of
         None \<Rightarrow> Some (Some sbegin, None, m)
       | Some e \<Rightarrow> do { m \<leftarrow> put m e 0; Some (Some sbegin, Some (e + 1), m) } })"

text \<open>\<^verbatim>\<open>end + 1\<close> is \<open>s + n\<close>.\<close>

fun strip_end :: "mem \<Rightarrow> nat \<Rightarrow> nat \<Rightarrow> nat option" where
  "strip_end m s 0 = Some 0"
| "strip_end m s (Suc n) = do { c \<leftarrow> m (s + n); if isspace c then strip_end m s n else Some (Suc n) }"

partial_function (option) skip_spaces :: "mem \<Rightarrow> nat \<Rightarrow> nat option" where
  "skip_spaces m s = do { c \<leftarrow> m s; if c \<noteq> 0 \<and> isspace c then skip_spaces m (s + 1) else Some s }"

definition strstrip :: "mem \<Rightarrow> nat \<Rightarrow> (mem \<times> nat) option" where
  "strstrip m s = do {
     n \<leftarrow> strlen m s;
     if n = 0 then Some (m, s)
     else do {
       n \<leftarrow> strip_end m s n;
       m \<leftarrow> put m (s + n) 0;
       s \<leftarrow> skip_spaces m s;
       Some (m, s) } }"

text \<open>The lengths are kept in \<open>int\<close>s; a negative one is a huge count for \<^verbatim>\<open>memcmp\<close>.\<close>

definition as_int :: "nat \<Rightarrow> int" where
  "as_int n = sint (of_nat n :: s32)"

function strstr_loop :: "mem \<Rightarrow> nat \<Rightarrow> nat \<Rightarrow> int \<Rightarrow> int \<Rightarrow> nat option option" where
  "strstr_loop m s1 s2 l1 l2 =
     (if l2 \<le> l1 then do {
        r \<leftarrow> memcmp m s1 s2 (unat (word_of_int l2 :: u64));
        if r = 0 then Some (Some s1) else strstr_loop m (s1 + 1) s2 (l1 - 1) l2 }
      else Some None)"
  by pat_completeness auto
termination by (relation "measure (\<lambda>(m, s1, s2, l1, l2). nat (l1 - l2 + 1))") auto

declare strstr_loop.simps [simp del]

definition strstr :: "mem \<Rightarrow> nat \<Rightarrow> nat \<Rightarrow> nat option option" where
  "strstr m s1 s2 = do {
     n \<leftarrow> strlen m s2;
     let l2 = as_int n;
     if l2 = 0 then Some (Some s1)
     else do {
       n \<leftarrow> strlen m s1;
       strstr_loop m s1 s2 (as_int n) l2 } }"

end
