(* ===== verification/KString_Correct.thy ===== *)
theory KString_Correct
  imports KString "HOL-Library.Sublist"
begin

text \<open>
  What the string routines of \<open>KString\<close> do, in terms of the lists of bytes that lie in memory: the
  strings (\<open>str_at\<close>), the areas (\<open>bytes_at\<close>), and the memory after an area has been overwritten
  (\<open>put_bytes\<close>). The lemmas are equations, so they also say that the routines come back.
\<close>

subsection \<open>Bytes in memory\<close>

fun bytes_at :: "mem \<Rightarrow> nat \<Rightarrow> u8 list \<Rightarrow> bool" where
  "bytes_at m p [] = True"
| "bytes_at m p (b # bs) = (m p = Some b \<and> bytes_at m (p + 1) bs)"

fun str_at :: "mem \<Rightarrow> nat \<Rightarrow> u8 list \<Rightarrow> bool" where
  "str_at m p [] = (m p = Some 0)"
| "str_at m p (c # cs) = (m p = Some c \<and> c \<noteq> 0 \<and> str_at m (p + 1) cs)"

fun put_bytes :: "mem \<Rightarrow> nat \<Rightarrow> u8 list \<Rightarrow> mem" where
  "put_bytes m p [] = m"
| "put_bytes m p (b # bs) = put_bytes (m(p \<mapsto> b)) (p + 1) bs"

definition area :: "nat \<Rightarrow> nat \<Rightarrow> nat set" where
  "area p n = {p..<p + n}"

lemma area_simps [simp]: "area p 0 = {}" "area p (Suc n) = insert p (area (Suc p) n)"
  by (auto simp: area_def)

lemma bytes_at_iff: "bytes_at m p bs = (\<forall>i<length bs. m (p + i) = Some (bs ! i))"
proof (induction bs arbitrary: p)
  case (Cons b bs)
  show ?case
    by (auto simp: Cons less_Suc_eq_0_disj nth_Cons split: nat.splits)
qed simp

lemma str_at_iff: "str_at m p s = (bytes_at m p (s @ [0]) \<and> 0 \<notin> set s)"
  by (induction s arbitrary: p) auto

lemma bytes_at_append: "bytes_at m p (xs @ ys) = (bytes_at m p xs \<and> bytes_at m (p + length xs) ys)"
  by (induction xs arbitrary: p) auto

lemma bytes_at_take: "bytes_at m p bs \<Longrightarrow> bytes_at m p (take n bs)"
  using bytes_at_append[of m p "take n bs" "drop n bs"] by simp

lemma str_at_bytes: "str_at m p s \<Longrightarrow> bytes_at m p s"
  by (simp add: str_at_iff bytes_at_append)

lemma str_at_drop: "str_at m p s \<Longrightarrow> k \<le> length s \<Longrightarrow> str_at m (p + k) (drop k s)"
proof (induction s arbitrary: p k)
  case (Cons c s)
  then show ?case using Cons.IH[of "Suc p" "k - 1"] by (cases k) auto
qed simp

lemma str_at_unique: "str_at m p s \<Longrightarrow> str_at m p t \<Longrightarrow> s = t"
proof (induction s arbitrary: p t)
  case Nil
  then show ?case by (cases t) auto
next
  case (Cons c s)
  then show ?case by (cases t) auto
qed

lemma put_bytes_apply:
  "put_bytes m p bs a = (if p \<le> a \<and> a < p + length bs then Some (bs ! (a - p)) else m a)"
proof (induction bs arbitrary: m p a)
  case (Cons b bs)
  show ?case by (auto simp: Cons nth_Cons')
qed auto

lemma put_bytes_frame [simp]: "a \<notin> area p (length bs) \<Longrightarrow> put_bytes m p bs a = m a"
  by (auto simp: put_bytes_apply area_def)

lemma put_bytes_append: "put_bytes m p (xs @ ys) = put_bytes (put_bytes m p xs) (p + length xs) ys"
  by (induction xs arbitrary: m p) auto

lemma put_bytes_snoc: "put_bytes (m(p + length bs \<mapsto> c)) p bs = put_bytes m p (bs @ [c])"
  by (auto simp: put_bytes_apply nth_append fun_eq_iff)

lemma bytes_at_put_bytes: "bytes_at (put_bytes m p bs) p bs"
  by (simp add: bytes_at_iff put_bytes_apply)

lemma str_at_put_bytes: "0 \<notin> set s \<Longrightarrow> str_at (put_bytes m p (s @ [0])) p s"
  by (simp only: str_at_iff bytes_at_put_bytes) simp

lemma bytes_at_cong: "(\<And>a. a \<in> area p (length bs) \<Longrightarrow> m' a = m a) \<Longrightarrow> bytes_at m' p bs = bytes_at m p bs"
  by (auto simp: bytes_at_iff area_def)

lemma bytes_at_upd [simp]: "a \<notin> area p (length bs) \<Longrightarrow> bytes_at (m(a \<mapsto> v)) p bs = bytes_at m p bs"
  by (rule bytes_at_cong) auto

lemma put_ok: "p \<in> dom m \<Longrightarrow> put m p v = Some (m(p \<mapsto> v))"
  by (auto simp: put_def)

lemma area_sub_upd: "area p n \<subseteq> dom m \<Longrightarrow> area p n \<subseteq> dom (m(a \<mapsto> v))"
  by auto

lemma uint_eq_iff [simp]: "uint (x :: u8) = uint y \<longleftrightarrow> x = y"
  by (auto simp: word_uint_eqI)

subsection \<open>Areas\<close>

lemma copy_up_spec:
  assumes "bytes_at m s bs" and "area tmp (length bs) \<subseteq> dom m"
    and "tmp \<le> s \<or> s + length bs \<le> tmp"
  shows "copy_up m tmp s (length bs) = Some (put_bytes m tmp bs)"
  using assms
proof (induction bs arbitrary: m tmp s)
  case (Cons b bs)
  have "tmp \<notin> area (s + 1) (length bs)" using Cons.prems(3) by (auto simp: area_def)
  then have "bytes_at (m(tmp \<mapsto> b)) (s + 1) bs" using Cons.prems by simp
  then have "copy_up (m(tmp \<mapsto> b)) (tmp + 1) (s + 1) (length bs) =
      Some (put_bytes (m(tmp \<mapsto> b)) (tmp + 1) bs)"
    by (rule Cons.IH[OF _ area_sub_upd]) (use Cons.prems in auto)
  then show ?case using Cons.prems by (simp add: put_ok)
qed simp

lemma copy_down_spec:
  assumes "bytes_at m s bs" and "area tmp (length bs) \<subseteq> dom m" and "s \<le> tmp"
  shows "copy_down m (tmp + length bs) (s + length bs) (length bs) = Some (put_bytes m tmp bs)"
  using assms
proof (induction bs arbitrary: m rule: rev_induct)
  case (snoc b bs)
  let ?m = "m(tmp + length bs \<mapsto> b)"
  have a: "area tmp (length (bs @ [b])) = insert (tmp + length bs) (area tmp (length bs))"
    by (auto simp: area_def)
  have "tmp + length bs \<notin> area s (length bs)" using snoc.prems(3) by (auto simp: area_def)
  then have "bytes_at ?m s bs" using snoc.prems by (simp add: bytes_at_append)
  then have "copy_down ?m (tmp + length bs) (s + length bs) (length bs) = Some (put_bytes ?m tmp bs)"
    by (rule snoc.IH[OF _ area_sub_upd]) (use snoc.prems a in auto)
  moreover have "m (s + length bs) = Some b" "tmp + length bs \<in> dom m"
    using snoc.prems(1,2) unfolding a by (auto simp: bytes_at_append)
  ultimately show ?case by (simp add: put_ok put_bytes_snoc)
qed simp

lemma memcpy_spec:
  assumes "bytes_at m s bs" and "area dest (length bs) \<subseteq> dom m"
    and "dest \<le> s \<or> s + length bs \<le> dest"
  shows "memcpy m dest s (length bs) = Some (put_bytes m dest bs, dest)"
  using copy_up_spec[OF assms] by (simp add: memcpy_def)

lemma memset_spec:
  "area s n \<subseteq> dom m \<Longrightarrow> memset m s c n = Some (put_bytes m s (replicate n c), s)"
proof -
  assume "area s n \<subseteq> dom m"
  then have "memset_loop m s c n = Some (put_bytes m s (replicate n c))"
  proof (induction n arbitrary: m s)
    case (Suc n)
    then show ?case by (auto simp: put_ok intro!: Suc.IH)
  qed simp
  then show ?thesis by (simp add: memset_def)
qed

text \<open>C31: \<^verbatim>\<open>memmove\<close> copies correctly however the two areas overlap: if \<open>bs\<close> are the bytes of the
  source area before the call and the destination is mapped, then afterwards the destination holds
  exactly \<open>bs\<close>, no other byte has changed, and the result is the destination. A plain \<^verbatim>\<open>memcpy\<close> does
  the same when the destination does not start inside the source area.\<close>

theorem memmove_overlap:
  assumes "bytes_at m src bs" and "area dest (length bs) \<subseteq> dom m"
  shows "\<exists>m'. memmove m dest src (length bs) = Some (m', dest) \<and> bytes_at m' dest bs \<and>
     (\<forall>a. a \<notin> area dest (length bs) \<longrightarrow> m' a = m a) \<and>
     (dest \<le> src \<or> src + length bs \<le> dest \<longrightarrow> memcpy m dest src (length bs) = Some (m', dest))"
proof -
  have "memmove m dest src (length bs) = Some (put_bytes m dest bs, dest)"
    using copy_up_spec[OF assms] copy_down_spec[OF assms] by (simp add: memmove_def)
  then show ?thesis using assms by (auto simp: bytes_at_put_bytes memcpy_spec)
qed

definition demo_mem :: mem where
  "demo_mem a = map_of [(10, 1), (11, 2), (12, 3), (13, 4), (14, 0)] a"

theorem memmove_overlap_witness:
  "map_option (\<lambda>(m, p). (p, map m [10, 11, 12, 13, 14])) (memmove demo_mem 11 10 3) =
     Some (11, [Some 1, Some 1, Some 2, Some 3, Some 0])"
proof -
  have len3: "length [1, 2, 3 :: u8] = 3" by simp
  have ar: "area 11 3 = {11, 12, 13}" by (auto simp: area_def)
  have "bytes_at demo_mem 10 [1, 2, 3]" by (simp add: demo_mem_def)
  moreover have "area 11 (length [1, 2, 3 :: u8]) \<subseteq> dom demo_mem" by (simp add: ar demo_mem_def dom_def)
  ultimately have "\<exists>m'. memmove demo_mem 11 10 (length [1, 2, 3 :: u8]) = Some (m', 11) \<and>
      bytes_at m' 11 [1, 2, 3] \<and> (\<forall>a. a \<notin> area 11 (length [1, 2, 3 :: u8]) \<longrightarrow> m' a = demo_mem a)"
    using memmove_overlap[of demo_mem 10 "[1, 2, 3]" 11] by blast
  then obtain m where "memmove demo_mem 11 10 3 = Some (m, 11)" and "bytes_at m 11 [1, 2, 3]"
    and fr: "\<forall>a. a \<notin> area 11 3 \<longrightarrow> m a = demo_mem a" unfolding len3 by blast
  moreover have "m 10 = Some 1" "m 14 = Some 0"
    using fr by (simp_all add: area_def demo_mem_def)
  ultimately show ?thesis by simp
qed

lemma memcmp_zero:
  assumes "bytes_at m p xs" and "bytes_at m q ys" and "length xs = length ys"
  shows "\<exists>r. memcmp m p q (length xs) = Some r \<and> (r = 0 \<longleftrightarrow> xs = ys)"
proof -
  have "\<exists>r. memcmp_loop m p q 0 (length xs) = Some r \<and> (r = 0 \<longleftrightarrow> xs = ys)"
    using assms(3,1,2)
    by (induction xs ys arbitrary: p q rule: list_induct2) (auto simp: Let_def)
  then show ?thesis by (simp add: memcmp_def)
qed

lemma memchr_spec:
  "bytes_at m p bs \<Longrightarrow> memchr m p (uint c) (length bs) =
     Some (if c \<in> set bs then Some (p + length (takeWhile (\<lambda>x. x \<noteq> c) bs)) else None)"
  by (induction bs arbitrary: p) auto

lemma memscan_spec:
  "bytes_at m p bs \<Longrightarrow> memscan m p (uint c) (length bs) = Some (p + length (takeWhile (\<lambda>x. x \<noteq> c) bs))"
  by (induction bs arbitrary: p) auto

subsection \<open>Lengths and copies of strings\<close>

lemma str_at_upd [simp]: "a \<notin> area p (Suc (length s)) \<Longrightarrow> str_at (m(a \<mapsto> v)) p s = str_at m p s"
  by (simp add: str_at_iff del: area_simps)

lemma strlen_loop_spec: "str_at m p s \<Longrightarrow> strlen_loop m p = Some (p + length s)"
  by (induction s arbitrary: p) (subst strlen_loop.simps, simp)+

lemma strlen_spec: "str_at m p s \<Longrightarrow> strlen m p = Some (length s)"
  by (simp add: strlen_def strlen_loop_spec)

lemma strnlen_spec: "str_at m p s \<Longrightarrow> strnlen m p n = Some (min n (length s))"
proof -
  assume "str_at m p s"
  then have "strnlen_loop m p n = Some (p + min n (length s))"
  proof (induction s arbitrary: p n)
    case Nil
    then show ?case by (cases n) auto
  next
    case (Cons c s)
    then show ?case by (cases n) auto
  qed
  then show ?thesis by (simp add: strnlen_def)
qed

text \<open>Two areas apart.\<close>

definition apart :: "nat \<Rightarrow> nat \<Rightarrow> nat \<Rightarrow> nat \<Rightarrow> bool" where
  "apart p n q k = (p + n \<le> q \<or> q + k \<le> p)"

lemma strcpy_loop_spec:
  assumes "str_at m src s" and "area dest (Suc (length s)) \<subseteq> dom m"
    and "dest \<le> src \<or> src + length s < dest"
  shows "strcpy_loop m dest src = Some (put_bytes m dest (s @ [0]))"
  using assms
proof (induction s arbitrary: m dest src)
  case Nil
  then show ?case by (subst strcpy_loop.simps) (simp add: put_ok)
next
  case (Cons c s)
  have "dest \<notin> area (src + 1) (Suc (length s))" using Cons.prems(3) by (auto simp: area_def)
  then have "str_at (m(dest \<mapsto> c)) (src + 1) s" using Cons.prems by simp
  then have "strcpy_loop (m(dest \<mapsto> c)) (dest + 1) (src + 1) = Some (put_bytes (m(dest \<mapsto> c)) (dest + 1) (s @ [0]))"
    by (rule Cons.IH[OF _ area_sub_upd]) (use Cons.prems in auto)
  then show ?case using Cons.prems by (subst strcpy_loop.simps) (simp add: put_ok)
qed

lemma strcpy_spec:
  assumes "str_at m src s" and "area dest (Suc (length s)) \<subseteq> dom m"
    and "dest \<le> src \<or> src + length s < dest"
  shows "strcpy m dest src = Some (put_bytes m dest (s @ [0]), dest)"
  using strcpy_loop_spec[OF assms] by (simp add: strcpy_def)

lemma strncpy_spec:
  assumes "str_at m src s" and "area dest n \<subseteq> dom m" and "apart dest n src (Suc (length s))"
  shows "strncpy m dest src n = Some (put_bytes m dest (take n (s @ replicate n 0)), dest)"
proof -
  have "strncpy_loop m dest src n = Some (put_bytes m dest (take n (s @ replicate n 0)))"
    using assms
  proof (induction n arbitrary: m dest src s)
    case (Suc n)
    have ar: "area (dest + 1) n \<subseteq> dom m" "dest \<in> dom m" using Suc.prems(2) by auto
    have out: "dest \<notin> area src (Suc (length s))" using Suc.prems(3) by (auto simp: area_def apart_def)
    show ?case
    proof (cases s)
      case Nil
      have "str_at (m(dest \<mapsto> 0)) src []" using Suc.prems(1) Nil out by simp
      then have "strncpy_loop (m(dest \<mapsto> 0)) (dest + 1) src n =
          Some (put_bytes (m(dest \<mapsto> 0)) (dest + 1) (take n ([] @ replicate n 0)))"
        by (rule Suc.IH[OF _ area_sub_upd]) (use Suc.prems(3) ar Nil in \<open>auto simp: apart_def\<close>)
      then show ?thesis using Suc.prems ar Nil by (simp add: put_ok)
    next
      case (Cons c s')
      have "dest \<notin> area (src + 1) (Suc (length s'))" using out Cons by (auto simp: area_def)
      then have "str_at (m(dest \<mapsto> c)) (src + 1) s'" using Suc.prems(1) Cons by simp
      then have "strncpy_loop (m(dest \<mapsto> c)) (dest + 1) (src + 1) n =
          Some (put_bytes (m(dest \<mapsto> c)) (dest + 1) (take n (s' @ replicate n 0)))"
        by (rule Suc.IH[OF _ area_sub_upd]) (use Suc.prems(3) ar Cons in \<open>auto simp: apart_def\<close>)
      moreover have "take n (s' @ replicate (Suc n) 0) = take n (s' @ replicate n 0)"
        by (simp del: replicate_Suc add: min_def)
      ultimately show ?thesis using Suc.prems ar Cons by (simp add: put_ok del: replicate_Suc)
    qed
  qed simp
  then show ?thesis by (simp add: strncpy_def)
qed

text \<open>The end of \<^verbatim>\<open>strlcpy\<close> and \<^verbatim>\<open>strlcat\<close>: copy a prefix and terminate it.\<close>

lemma memcpy_terminate:
  assumes "str_at m src s" and "k \<le> length s" and "area dest (Suc k) \<subseteq> dom m"
    and "apart dest (Suc k) src (Suc (length s))"
  shows "memcpy m dest src k = Some (put_bytes m dest (take k s), dest)"
    and "put (put_bytes m dest (take k s)) (dest + k) 0 = Some (put_bytes m dest (take k s @ [0]))"
proof -
  have ar: "area dest (Suc k) = insert (dest + k) (area dest k)" by (auto simp: area_def)
  have l: "length (take k s) = k" using assms(2) by simp
  have b: "bytes_at m src (take k s)" using str_at_bytes[OF assms(1)] by (rule bytes_at_take)
  have "area dest k \<subseteq> dom m" using assms(3) unfolding ar by simp
  then have "memcpy m dest src (length (take k s)) = Some (put_bytes m dest (take k s), dest)"
    using assms(4) b l by (intro memcpy_spec) (auto simp: apart_def)
  then show "memcpy m dest src k = Some (put_bytes m dest (take k s), dest)" using l by simp
  have "put_bytes m dest (take k s) (dest + k) = m (dest + k)" using l by (simp add: area_def)
  moreover have "m (dest + k) \<noteq> None" using assms(3) unfolding ar by auto
  ultimately show "put (put_bytes m dest (take k s)) (dest + k) 0 = Some (put_bytes m dest (take k s @ [0]))"
    using l by (auto simp: put_def put_bytes_append)
qed

text \<open>The bounded copies never overrun and always terminate. Given strings \<open>s\<close> at \<open>src\<close> and \<open>d\<close>
  at \<open>dest\<close> in a mapped buffer of \<open>n\<close> bytes apart from \<open>src\<close>: \<^verbatim>\<open>strlcpy\<close> leaves the longest prefix of
  \<open>s\<close> that fits as a string in the buffer and returns the length of \<open>s\<close>; \<^verbatim>\<open>strlcat\<close>, if \<open>d\<close> fits,
  leaves \<open>d\<close> followed by the longest prefix of \<open>s\<close> that fits and returns the length it wanted;
  neither changes a byte outside the buffer.\<close>

theorem strlcpy_strlcat_bounded:
  assumes "str_at m src s" and "str_at m dest d" and "length d < n" and "area dest n \<subseteq> dom m"
    and "apart dest n src (Suc (length s))"
  shows "(\<exists>m'. strlcpy m dest src n = Some (m', length s) \<and> str_at m' dest (take (n - 1) s) \<and>
       (\<forall>a. a \<notin> area dest n \<longrightarrow> m' a = m a)) \<and>
     (\<exists>m'. strlcat m dest src n = Some (m', length d + length s) \<and>
       str_at m' dest (d @ take (n - 1 - length d) s) \<and> (\<forall>a. a \<notin> area dest n \<longrightarrow> m' a = m a))"
proof
  have z: "0 \<notin> set s" "0 \<notin> set d" using assms(1,2) by (simp_all add: str_at_iff)
  have sub: "area (dest + i) (Suc k) \<subseteq> area dest n" if "i + k < n" for i k using that by (auto simp: area_def)
  have fr: "put_bytes m (dest + i) (take k s @ [0]) a = m a"
    if "i + k < n" "k \<le> length s" "a \<notin> area dest n" for i k a
    using sub[OF that(1)] that by (intro put_bytes_frame) (auto simp del: area_simps)
  define k where "k = min (n - 1) (length s)"
  have k: "k \<le> length s" "0 + k < n" using assms(3) by (auto simp: k_def)
  note cp = memcpy_terminate[OF assms(1) k(1), of dest]
  have "strlcpy m dest src n = Some (put_bytes m dest (take k s @ [0]), length s)"
  proof -
    have "(if n \<le> length s then n - 1 else length s) = k" by (simp add: k_def)
    moreover have "area dest (Suc k) \<subseteq> dom m" using sub[OF k(2)] assms(4) by (simp del: area_simps)
    moreover have "apart dest (Suc k) src (Suc (length s))" using assms(5) k by (auto simp: apart_def)
    ultimately show ?thesis using assms(3) cp by (simp add: strlcpy_def strlen_spec[OF assms(1)])
  qed
  moreover have "str_at (put_bytes m dest (take k s @ [0])) dest (take k s)"
    using z(1) by (intro str_at_put_bytes) (auto dest: in_set_takeD)
  moreover have "take k s = take (n - 1) s" by (simp add: k_def min_def)
  ultimately show "\<exists>m'. strlcpy m dest src n = Some (m', length s) \<and> str_at m' dest (take (n - 1) s) \<and>
       (\<forall>a. a \<notin> area dest n \<longrightarrow> m' a = m a)"
    using fr[of 0 k] k by auto
  let ?d = "dest + length d"
  define j where "j = min (n - 1 - length d) (length s)"
  have j: "j \<le> length s" "length d + j < n" using assms(3) by (auto simp: j_def)
  let ?m = "put_bytes m ?d (take j s @ [0])"
  have "strlcat m dest src n = Some (?m, length d + length s)"
  proof -
    have "(if n - length d \<le> length s then n - length d - 1 else length s) = j" by (auto simp: j_def)
    moreover have "area ?d (Suc j) \<subseteq> dom m" using sub[OF j(2)] assms(4) by (simp del: area_simps)
    moreover have "apart ?d (Suc j) src (Suc (length s))" using assms(5) j by (auto simp: apart_def)
    ultimately show ?thesis using assms(3) memcpy_terminate[OF assms(1) j(1), of ?d]
      by (simp add: strlcat_def strlen_spec[OF assms(1)] strlen_spec[OF assms(2)] Let_def)
  qed
  moreover have "str_at ?m dest (d @ take j s)"
  proof -
    have "bytes_at ?m dest d = bytes_at m dest d" by (rule bytes_at_cong) (simp add: area_def)
    moreover have "bytes_at ?m ?d (take j s @ [0])" by (rule bytes_at_put_bytes)
    ultimately have "bytes_at ?m dest (d @ take j s @ [0])"
      using str_at_bytes[OF assms(2)] by (simp only: bytes_at_append)
    then show ?thesis using z by (auto simp: str_at_iff dest: in_set_takeD)
  qed
  moreover have "take j s = take (n - 1 - length d) s" by (simp add: j_def min_def)
  ultimately show "\<exists>m'. strlcat m dest src n = Some (m', length d + length s) \<and>
       str_at m' dest (d @ take (n - 1 - length d) s) \<and> (\<forall>a. a \<notin> area dest n \<longrightarrow> m' a = m a)"
    using fr[of "length d" j] j by auto
qed

definition demo_strs :: mem where
  "demo_strs a = map_of [(10, 65), (11, 0), (12, 9), (13, 9), (20, 66), (21, 67), (22, 68), (23, 0)] a"

theorem strlcpy_strlcat_bounded_witness:
  "(\<exists>m'. strlcpy demo_strs 10 20 3 = Some (m', 3) \<and> str_at m' 10 [66, 67]) \<and>
   (\<exists>m'. strlcat demo_strs 10 20 3 = Some (m', 4) \<and> str_at m' 10 [65, 66])"
proof -
  have "area 10 3 = {10, 11, 12}" by (auto simp: area_def)
  then have "area 10 3 \<subseteq> dom demo_strs" by (simp add: demo_strs_def dom_def)
  moreover have "str_at demo_strs 20 [66, 67, 68]" "str_at demo_strs 10 [65]"
    by (simp_all add: demo_strs_def)
  ultimately show ?thesis
    using strlcpy_strlcat_bounded[of demo_strs 20 "[66, 67, 68]" 10 "[65]" 3] by (auto simp: apart_def)
qed

lemma strcat_spec:
  assumes "str_at m src s" and "str_at m dest d"
    and "area dest (length d + Suc (length s)) \<subseteq> dom m"
    and "apart dest (length d + Suc (length s)) src (Suc (length s))"
  shows "strcat m dest src = Some (put_bytes m (dest + length d) (s @ [0]), dest)"
proof -
  have "area (dest + length d) (Suc (length s)) \<subseteq> area dest (length d + Suc (length s))"
    by (auto simp: area_def)
  then have "strcpy_loop m (dest + length d) src = Some (put_bytes m (dest + length d) (s @ [0]))"
    using assms by (intro strcpy_loop_spec) (auto simp: apart_def)
  then show ?thesis by (simp add: strcat_def strlen_loop_spec[OF assms(2)])
qed

subsection \<open>Searching\<close>

lemma strchr_spec:
  "str_at m p s \<Longrightarrow> c \<noteq> 0 \<Longrightarrow> strchr m p c =
     Some (if c \<in> set s then Some (p + length (takeWhile (\<lambda>x. x \<noteq> c) s)) else None)"
  by (induction s arbitrary: p) (subst strchr.simps, auto)+

lemma strnchr_spec:
  "str_at m p s \<Longrightarrow> c \<noteq> 0 \<Longrightarrow> strnchr m p n c =
     Some (if c \<in> set (take n s) then Some (p + length (takeWhile (\<lambda>x. x \<noteq> c) s)) else None)"
proof (induction s arbitrary: p n)
  case Nil
  then show ?case by (cases n) auto
next
  case (Cons b s)
  then show ?case by (cases n) auto
qed

lemma accept_loop_spec:
  "str_at m q d \<Longrightarrow> c \<noteq> 0 \<Longrightarrow>
     \<exists>a x. accept_loop m c q = Some a \<and> m a = Some x \<and> (x = 0 \<longleftrightarrow> c \<notin> set d)"
  by (induction d arbitrary: q) (subst accept_loop.simps, auto)+

lemma reject_loop_spec: "str_at m q d \<Longrightarrow> reject_loop m c q = Some (c \<in> set d)"
  by (induction d arbitrary: q) (subst reject_loop.simps, auto)+

lemma strspn_spec:
  assumes "str_at m p s" and "str_at m q d"
  shows "strspn m p q = Some (length (takeWhile (\<lambda>c. c \<in> set d) s))"
proof -
  have "strspn_loop m p q n = Some (n + length (takeWhile (\<lambda>c. c \<in> set d) s))" for n
    using assms(1)
  proof (induction s arbitrary: p n)
    case Nil
    then show ?case by (subst strspn_loop.simps) simp
  next
    case (Cons c s)
    obtain a x where "accept_loop m c q = Some a" "m a = Some x" "x = 0 \<longleftrightarrow> c \<notin> set d"
      using accept_loop_spec[OF assms(2)] Cons.prems by fastforce
    then show ?case using Cons by (subst strspn_loop.simps) auto
  qed
  then show ?thesis by (simp add: strspn_def)
qed

lemma strcspn_spec:
  assumes "str_at m p s" and "str_at m q d"
  shows "strcspn m p q = Some (length (takeWhile (\<lambda>c. c \<notin> set d) s))"
proof -
  have "strcspn_loop m p q n = Some (n + length (takeWhile (\<lambda>c. c \<notin> set d) s))" for n
    using assms(1)
    by (induction s arbitrary: p n)
      (subst strcspn_loop.simps, auto simp: reject_loop_spec[OF assms(2)])+
  then show ?thesis by (simp add: strcspn_def)
qed

lemma strpbrk_spec:
  assumes "str_at m p s" and "str_at m q d"
  shows "strpbrk m p q = Some (let n = length (takeWhile (\<lambda>c. c \<notin> set d) s)
     in if n < length s then Some (p + n) else None)"
  using assms(1)
  by (induction s arbitrary: p)
    (subst strpbrk.simps, auto simp: reject_loop_spec[OF assms(2)] Let_def)+

text \<open>\<^verbatim>\<open>strsep\<close> splits a string at the first byte that is in the set: the token is the longest
  prefix free of the set, the rest (what \<open>*s\<close> points to afterwards) is what follows that one
  byte, and the only byte of memory that changes is that one. Without such a byte the token is the
  whole string and the rest a null pointer.\<close>

theorem strsep_splits:
  assumes "str_at m p s" and "str_at m q d"
  shows "let t = takeWhile (\<lambda>c. c \<notin> set d) s in
     if t = s then strsep m (Some p) q = Some (Some p, None, m)
     else \<exists>m'. strsep m (Some p) q = Some (Some p, Some (p + length t + 1), m') \<and>
       str_at m' p t \<and> str_at m' (p + length t + 1) (drop (length t + 1) s) \<and>
       (\<forall>a. a \<noteq> p + length t \<longrightarrow> m' a = m a)"
proof -
  let ?t = "takeWhile (\<lambda>c. c \<notin> set d) s"
  let ?e = "p + length ?t"
  have len: "?t = s \<longleftrightarrow> \<not> length ?t < length s"
    by (metis le_antisym length_takeWhile_le linorder_not_less takeWhile_eq_take take_all_iff)
  show ?thesis
  proof (cases "?t = s")
    case True
    then show ?thesis using len by (simp add: strsep_def strpbrk_spec[OF assms] Let_def)
  next
    case False
    then have lt: "length ?t < length s" using len by blast
    have at: "str_at m (p + length ?t) (drop (length ?t) s)"
      using str_at_drop[OF assms(1)] lt by simp
    moreover obtain c r where cr: "drop (length ?t) s = c # r" using lt by (cases "drop (length ?t) s") auto
    ultimately have e: "m ?e = Some c" and r: "str_at m (?e + 1) r" by simp_all
    have dr: "drop (length ?t + 1) s = r"
      using cr by (metis Suc_eq_plus1 drop_Suc list.sel(3) tl_drop)
    have "strsep m (Some p) q = Some (Some p, Some (?e + 1), m(?e \<mapsto> 0))"
      using lt e by (simp add: strsep_def strpbrk_spec[OF assms] Let_def put_def)
    moreover have "bytes_at m p ?t"
      using bytes_at_take[OF str_at_bytes[OF assms(1)], of "length ?t"]
      by (simp only: takeWhile_eq_take[symmetric])
    then have "str_at (m(?e \<mapsto> 0)) p ?t"
      using assms(1) by (auto simp: str_at_iff bytes_at_append area_def dest: set_takeWhileD)
    moreover have "str_at (m(?e \<mapsto> 0)) (?e + 1) r" using r by (simp add: area_def del: area_simps)
    ultimately have "\<exists>m'. strsep m (Some p) q = Some (Some p, Some (?e + 1), m') \<and>
       str_at m' p ?t \<and> str_at m' (?e + 1) (drop (length ?t + 1) s) \<and> (\<forall>a. a \<noteq> ?e \<longrightarrow> m' a = m a)"
      unfolding dr by (intro exI[of _ "m(?e \<mapsto> 0)"]) simp
    then show ?thesis using False by (simp only: Let_def if_False)
  qed
qed

theorem strsep_splits_witness:
  "strsep demo_strs (Some 20) 10 = Some (Some 20, None, demo_strs) \<and>
   (\<exists>m'. strsep (demo_strs(10 \<mapsto> 67)) (Some 20) 10 = Some (Some 20, Some 22, m') \<and>
      str_at m' 20 [66] \<and> str_at m' 22 [68])"
proof -
  have a: "str_at demo_strs 20 [66, 67, 68]" "str_at (demo_strs(10 \<mapsto> 67)) 20 [66, 67, 68]"
    "str_at demo_strs 10 [65]" "str_at (demo_strs(10 \<mapsto> 67)) 10 [67]"
    by (simp_all add: demo_strs_def)
  show ?thesis using strsep_splits[OF a(1,3)] strsep_splits[OF a(2,4)]
    by (auto simp: Let_def simp del: str_at.simps fun_upd_apply)
qed

lemma as_int_small: "n < 2 ^ 31 \<Longrightarrow> as_int n = int n"
proof -
  assume n: "n < 2 ^ 31"
  then have u: "unat (of_nat n :: s32) = n" by (simp add: unat_of_nat)
  then show ?thesis using sint_small[of "of_nat n :: s32"] n by (simp only: as_int_def u) simp
qed

lemma strstr_loop_spec:
  assumes "str_at m p s" and "bytes_at m q t" and "t \<noteq> []" and "length t < 2 ^ 31"
  shows "\<exists>r. strstr_loop m p q (int (length s)) (int (length t)) = Some r \<and>
     (case r of None \<Rightarrow> \<not> sublist t s
      | Some a \<Rightarrow> \<exists>k \<le> length s. a = p + k \<and> prefix t (drop k s) \<and> (\<forall>j<k. \<not> prefix t (drop j s)))"
  using assms(1)
proof (induction s arbitrary: p)
  case Nil
  then show ?case using assms(3) by (subst strstr_loop.simps) simp
next
  case (Cons c s)
  have u: "unat (word_of_nat (length t) :: u64) = length t" using assms(4) by (simp add: unat_of_nat)
  show ?case
  proof (cases "length t \<le> length (c # s)")
    case False
    then have "\<not> sublist t (c # s)" using sublist_length_le by blast
    with False show ?thesis by (subst strstr_loop.simps) simp
  next
    case True
    let ?x = "take (length t) (c # s)"
    have lx: "length ?x = length t" using True by simp
    have pre: "prefix t (c # s) \<longleftrightarrow> ?x = t" by (metis append_eq_conv_conj prefix_def take_is_prefix)
    have "bytes_at m p ?x" using str_at_bytes[OF Cons.prems] by (rule bytes_at_take)
    from memcmp_zero[OF this assms(2) lx] obtain r where
      r: "memcmp m p q (length t) = Some r" "r = 0 \<longleftrightarrow> ?x = t" unfolding lx by blast
    have step: "strstr_loop m p q (int (length (c # s))) (int (length t)) =
        (if r = 0 then Some (Some p) else strstr_loop m (p + 1) q (int (length s)) (int (length t)))"
      using True r(1) by (subst strstr_loop.simps) (simp add: u)
    show ?thesis
    proof (cases "r = 0")
      case True
      then show ?thesis using step r(2) pre by auto
    next
      case False
      then have np: "\<not> prefix t (c # s)" using r(2) pre by simp
      obtain r' where r': "strstr_loop m (p + 1) q (int (length s)) (int (length t)) = Some r'"
        "case r' of None \<Rightarrow> \<not> sublist t s
          | Some a \<Rightarrow> \<exists>k \<le> length s. a = p + 1 + k \<and> prefix t (drop k s) \<and> (\<forall>j<k. \<not> prefix t (drop j s))"
        using Cons.IH[of "p + 1"] Cons.prems by auto
      have shift: "\<exists>k' \<le> length (c # s). p + 1 + k = p + k' \<and> prefix t (drop k' (c # s)) \<and>
          (\<forall>j<k'. \<not> prefix t (drop j (c # s)))"
        if "k \<le> length s" "prefix t (drop k s)" "\<forall>j<k. \<not> prefix t (drop j s)" for k
        using that np by (intro exI[of _ "Suc k"]) (auto simp: less_Suc_eq_0_disj)
      show ?thesis using step False r' np shift
        by (auto simp: sublist_Cons_right split: option.splits)
    qed
  qed
qed

text \<open>\<^verbatim>\<open>strstr\<close> finds the first occurrence of a string in another one: it comes back with a null
  pointer exactly when there is none. (Strings of \<open>2^31\<close> bytes or more do not have their lengths
  kept exactly.)\<close>

theorem strstr_first_occurrence:
  assumes "str_at m p s" and "str_at m q t" and "length s < 2 ^ 31" and "length t < 2 ^ 31"
  shows "\<exists>r. strstr m p q = Some r \<and>
     (case r of None \<Rightarrow> \<not> sublist t s
      | Some a \<Rightarrow> \<exists>k \<le> length s. a = p + k \<and> prefix t (drop k s) \<and> (\<forall>j<k. \<not> prefix t (drop j s)))"
proof (cases "t = []")
  case True
  then show ?thesis by (simp add: strstr_def strlen_spec[OF assms(2)] as_int_small)
next
  case False
  then have "strstr m p q = strstr_loop m p q (int (length s)) (int (length t))"
    using assms(3,4) by (simp add: strstr_def strlen_spec[OF assms(1)] strlen_spec[OF assms(2)] as_int_small Let_def)
  then show ?thesis using strstr_loop_spec[OF assms(1) str_at_bytes[OF assms(2)] False assms(4)] by simp
qed

theorem strstr_first_occurrence_witness:
  "strstr (demo_strs(10 \<mapsto> 67)) 20 10 = Some (Some 21) \<and> strstr demo_strs 20 10 = Some None"
proof
  show "strstr (demo_strs(10 \<mapsto> 67)) 20 10 = Some (Some 21)"
    using strstr_first_occurrence[of "demo_strs(10 \<mapsto> 67)" 20 "[66, 67, 68]" 10 "[67]"]
    by (auto simp: demo_strs_def sublist_Cons_right le_Suc_eq drop_Cons' split: option.splits if_splits)
  show "strstr demo_strs 20 10 = Some None"
    using strstr_first_occurrence[of demo_strs 20 "[66, 67, 68]" 10 "[65]"]
    by (auto simp: demo_strs_def le_Suc_eq drop_Cons' split: option.splits if_splits)
qed

subsection \<open>Comparing\<close>

lemma sint_diff_ascii: "a < 128 \<Longrightarrow> b < 128 \<Longrightarrow> sint (a - b :: u8) = uint a - uint b"
proof -
  assume "a < 128" "b < 128"
  then have "uint a < 128" "uint b < 128" by (simp_all add: word_less_def)
  moreover have "0 \<le> uint a" "0 \<le> uint b" by simp_all
  ultimately have "- 128 \<le> uint a - uint b" "uint a - uint b < 128" by linarith+
  then have "signed_take_bit 7 (uint a - uint b) = uint a - uint b"
    by (intro signed_take_bit_int_eq_self) simp_all
  moreover have "a - b = word_of_int (uint a - uint b)" by simp
  ultimately show ?thesis by (simp only: sint_sbintrunc') simp
qed

lemma sint_diff_0: "sint (a - b :: u8) = 0 \<longleftrightarrow> a = b"
proof
  assume "sint (a - b) = 0"
  then have "uint (a - b) = 0" using uint_sint[of "a - b"] by simp
  then show "a = b" by (simp add: uint_0_iff)
qed simp

lemma sint_diff_neg: "a < 128 \<Longrightarrow> b < 128 \<Longrightarrow> sint (a - b :: u8) < 0 \<longleftrightarrow> a < b"
  by (simp add: sint_diff_ascii word_less_def)

lemma uint_pos_iff [simp]: "0 < uint (x :: u8) \<longleftrightarrow> x \<noteq> 0" "uint (x :: u8) = 0 \<longleftrightarrow> x = 0"
  by (simp_all add: uint_0_iff less_le)

text \<open>\<^verbatim>\<open>strcmp\<close> comes back with \<open>0\<close> exactly for equal strings, and on strings of ASCII characters
  its sign is the lexicographic order. (The difference of two characters is kept in a signed byte;
  beyond ASCII the sign can be wrong, see below.)\<close>

theorem strcmp_order:
  assumes "str_at m p s" and "str_at m q t"
  shows "\<exists>r. strcmp m p q = Some r \<and> (r = 0 \<longleftrightarrow> s = t) \<and>
     ((\<forall>c \<in> set s \<union> set t. c < 128) \<longrightarrow> (r < 0 \<longleftrightarrow> ord_class.lexordp s t))"
  using assms
proof (induction s arbitrary: p q t)
  case Nil
  show ?case
  proof (cases t)
    case (Cons b t')
    then show ?thesis using Nil sint_diff_neg[of 0 b] sint_diff_0[of 0 b]
      by (subst strcmp.simps) (auto simp: Let_def word_neq_0_conv)
  qed (use Nil in \<open>subst strcmp.simps, simp\<close>)
next
  case (Cons a s)
  show ?case
  proof (cases t)
    case Nil
    then show ?thesis using Cons.prems sint_diff_neg[of a 0] sint_diff_0[of a 0]
      by (subst strcmp.simps) (auto simp: Let_def word_neq_0_conv)
  next
    case t: (Cons b t')
    show ?thesis
    proof (cases "a = b")
      case True
      then show ?thesis using Cons.IH[of "p + 1" "q + 1" t'] Cons.prems t
        by (subst strcmp.simps) auto
    next
      case False
      then show ?thesis using Cons.prems t sint_diff_neg[of a b] sint_diff_0[of a b]
        by (subst strcmp.simps) (auto simp: Let_def)
    qed
  qed
qed

theorem strcmp_order_witness:
  "\<exists>r. strcmp demo_strs 10 20 = Some r \<and> r < 0"
proof -
  have a: "str_at demo_strs 20 [66, 67, 68]" "str_at demo_strs 10 [65]"
    by (simp_all add: demo_strs_def)
  show ?thesis using strcmp_order[OF a(2,1)] by (auto simp del: str_at.simps)
qed

text \<open>Beyond ASCII the comparison is not an order: three strings can each be less than the next,
  in a circle.\<close>

definition circle_mem :: mem where
  "circle_mem a = map_of [(1, 1), (2, 0), (3, 86), (4, 0), (5, 171), (6, 0)] a"

lemma strcmp_circular:
  "\<exists>r1 r2 r3. strcmp circle_mem 1 3 = Some r1 \<and> strcmp circle_mem 3 5 = Some r2 \<and>
     strcmp circle_mem 5 1 = Some r3 \<and> r1 < 0 \<and> r2 < 0 \<and> r3 < 0"
proof -
  have "strcmp circle_mem 1 3 = Some (-85)" "strcmp circle_mem 3 5 = Some (-85)"
    "strcmp circle_mem 5 1 = Some (-86)"
    by (subst strcmp.simps, simp add: circle_mem_def Let_def)+
  then show ?thesis by simp
qed

lemma strncmp_zero:
  assumes "str_at m p s" and "str_at m q t"
  shows "\<exists>r. strncmp m p q n = Some r \<and> (r = 0 \<longleftrightarrow> take n s = take n t)"
proof -
  have "\<exists>r. strncmp_loop m p q 0 n = Some r \<and> (r = 0 \<longleftrightarrow> take n s = take n t)"
    using assms
  proof (induction n arbitrary: p q s t)
    case (Suc n)
    show ?case
    proof (cases s; cases t)
      fix a s' b t' assume c: "s = a # s'" "t = b # t'"
      then show ?thesis using Suc.IH[of "p + 1" s' "q + 1" t'] Suc.prems sint_diff_0[of a b]
        by (cases "a = b") (auto simp: Let_def)
    qed (use Suc.prems sint_diff_0[of 0] sint_diff_0[of _ 0] in \<open>auto simp: Let_def\<close>)
  qed simp
  then show ?thesis by (simp add: strncmp_def)
qed

lemma ctype_length: "length ctype_table = 256"
  by (simp add: ctype_table_def)

lemma all_u8: "(\<forall>n \<in> set [0..<256]. P (of_nat n)) \<Longrightarrow> P (c :: u8)"
proof -
  assume a: "\<forall>n \<in> set [0..<256]. P (of_nat n)"
  have "unat c < 256" using unsigned_less[of c] by simp
  then have "P (of_nat (unat c))" using a by (intro bspec[OF a]) simp
  then show "P c" by simp
qed

lemma tolower_0_iff: "tolower c = 0 \<longleftrightarrow> c = 0"
  by (rule all_u8) code_simp

lemma tolower_0: "tolower 0 = 0"
  by (simp add: tolower_0_iff)

lemma strcasecmp_zero:
  assumes "str_at m p s" and "str_at m q t"
  shows "\<exists>r. strcasecmp m p q = Some r \<and> (r = 0 \<longleftrightarrow> map tolower s = map tolower t)"
  using assms
proof (induction s arbitrary: p q t)
  case Nil
  then show ?case
    by (cases t) (subst strcasecmp.simps, simp add: Let_def tolower_0_iff tolower_0)+
next
  case (Cons a s)
  show ?case
  proof (cases t)
    case Nil
    then show ?thesis using Cons.prems
      by (subst strcasecmp.simps) (simp add: Let_def tolower_0_iff tolower_0)
  next
    case (Cons b t')
    then show ?thesis using Cons.IH[of "p + 1" "q + 1" t'] Cons.prems
      by (subst strcasecmp.simps) (auto simp: Let_def tolower_0_iff)
  qed
qed

end
