(* ===== verification/KFifo.thy ===== *)
theory KFifo
  imports Prelude
begin

text \<open>
  The kernel's byte queues, \<^verbatim>\<open>kernel/kfifo.c\<close> with the inline functions of \<^verbatim>\<open>include/linux/kfifo.h\<close>: a ring
  buffer whose 32-bit indices run freely and wrap around. Both the queue's buffer and the caller's
  are lists of bytes; copying outside one is \<open>None\<close>, as is \<open>BUG_ON\<close>. The spin lock makes the locked
  operations indivisible; the unlocked ones are also modelled in pieces, to let one reader and one
  writer interleave.
\<close>

subsection \<open>State and operations\<close>

record kfifo =
  buffer :: "u8 list"
  fsize :: u32
  fin :: u32
  fout :: u32

definition memcpy_at :: "u8 list \<Rightarrow> nat \<Rightarrow> u8 list \<Rightarrow> nat \<Rightarrow> nat \<Rightarrow> u8 list option" where
  "memcpy_at dst doff src soff n =
     (if doff + n \<le> length dst \<and> soff + n \<le> length src
      then Some (take doff dst @ take n (drop soff src) @ drop (doff + n) dst) else None)"

text \<open>\<open>alloc\<close> says whether \<open>kmalloc\<close> gives memory for the structure; the error is \<open>-ENOMEM\<close>.\<close>

definition kfifo_init :: "u8 list \<Rightarrow> u32 \<Rightarrow> bool \<Rightarrow> (s32 + kfifo) option" where
  "kfifo_init buf sz alloc = do {
     guard_opt (\<not> (sz AND (sz - 1) \<noteq> 0));
     Some (if \<not> alloc then Inl (- 12)
           else Inr \<lparr>buffer = buf, fsize = sz, fin = 0, fout = 0\<rparr>) }"

text \<open>\<open>fls\<close>: the number of the highest bit set, counted from one.\<close>

fun fls :: "nat \<Rightarrow> nat" where
  "fls n = (if n = 0 then 0 else Suc (fls (n div 2)))"

declare fls.simps [simp del]

definition roundup_pow_of_two :: "u32 \<Rightarrow> u32" where
  "roundup_pow_of_two n = ucast (push_bit (fls (unat (n - 1))) (1 :: u64))"

text \<open>\<open>kmalloc n\<close> is the buffer the allocator hands out, if any. Freeing leaves nothing to model.\<close>

definition kfifo_alloc :: "u32 \<Rightarrow> (nat \<Rightarrow> u8 list option) \<Rightarrow> bool \<Rightarrow> (s32 + kfifo) option" where
  "kfifo_alloc sz kmalloc alloc = do {
     sz \<leftarrow> (if sz AND (sz - 1) \<noteq> 0
            then do { guard_opt (\<not> 0x80000000 < sz); Some (roundup_pow_of_two sz) }
            else Some sz);
     case kmalloc (unat sz) of
       None \<Rightarrow> Some (Inl (- 12))
     | Some buf \<Rightarrow> kfifo_init buf sz alloc }"

definition kfifo_put_unlocked :: "kfifo \<Rightarrow> u8 list \<Rightarrow> u32 \<Rightarrow> (u32 \<times> kfifo) option" where
  "kfifo_put_unlocked f data len = do {
     let len = min len (fsize f - fin f + fout f);
     let l = min len (fsize f - (fin f AND (fsize f - 1)));
     b \<leftarrow> memcpy_at (buffer f) (unat (fin f AND (fsize f - 1))) data 0 (unat l);
     b \<leftarrow> memcpy_at b 0 data (unat l) (unat (len - l));
     Some (len, f\<lparr>buffer := b, fin := fin f + len\<rparr>) }"

definition kfifo_get_unlocked :: "kfifo \<Rightarrow> u8 list \<Rightarrow> u32 \<Rightarrow> (u32 \<times> u8 list \<times> kfifo) option" where
  "kfifo_get_unlocked f dst len = do {
     let len = min len (fin f - fout f);
     let l = min len (fsize f - (fout f AND (fsize f - 1)));
     d \<leftarrow> memcpy_at dst 0 (buffer f) (unat (fout f AND (fsize f - 1))) (unat l);
     d \<leftarrow> memcpy_at d (unat l) (buffer f) 0 (unat (len - l));
     Some (len, d, f\<lparr>fout := fout f + len\<rparr>) }"

definition kfifo_reset :: "kfifo \<Rightarrow> kfifo" where
  "kfifo_reset f = f\<lparr>fin := 0, fout := 0\<rparr>"

definition kfifo_len :: "kfifo \<Rightarrow> u32" where
  "kfifo_len f = fin f - fout f"

definition kfifo_put :: "kfifo \<Rightarrow> u8 list \<Rightarrow> u32 \<Rightarrow> (u32 \<times> kfifo) option" where
  "kfifo_put f data len = kfifo_put_unlocked f data len"

definition kfifo_get :: "kfifo \<Rightarrow> u8 list \<Rightarrow> u32 \<Rightarrow> (u32 \<times> u8 list \<times> kfifo) option" where
  "kfifo_get f dst len = do {
     (ret, d, f) \<leftarrow> kfifo_get_unlocked f dst len;
     Some (ret, d, if fin f = fout f then f\<lparr>fin := 0, fout := 0\<rparr> else f) }"

subsection \<open>Rings\<close>

text \<open>The bytes at \<open>n\<close> positions from \<open>p\<close>, around a ring of \<open>s\<close> bytes.\<close>

definition around :: "u8 list \<Rightarrow> nat \<Rightarrow> nat \<Rightarrow> nat \<Rightarrow> u8 list" where
  "around b s p n = map (\<lambda>j. b ! ((p + j) mod s)) [0..<n]"

lemma ring_length [simp]: "length (around b s p n) = n"
  by (simp add: around_def)

lemma ring_nth [simp]: "j < n \<Longrightarrow> around b s p n ! j = b ! ((p + j) mod s)"
  by (simp add: around_def)

lemma ring_append: "around b s p (n + k) = around b s p n @ around b s (p + n) k"
  by (rule nth_equalityI) (auto simp: nth_append add.assoc)

lemma ring_take: "k \<le> n \<Longrightarrow> take k (around b s p n) = around b s p k"
  by (rule nth_equalityI) auto

lemma ring_drop: "k \<le> n \<Longrightarrow> drop k (around b s p n) = around b s (p + k) (n - k)"
  by (rule nth_equalityI) (auto simp: add.assoc)

lemma ring_mod: "around b s (p mod s) n = around b s p n"
  by (rule nth_equalityI) (auto simp: mod_add_left_eq)

lemma byte_ring_cong:
  "(\<And>j. j < n \<Longrightarrow> b' ! ((p + j) mod s) = b ! ((p + j) mod s)) \<Longrightarrow> around b' s p n = around b s p n"
  by (rule nth_equalityI) auto

text \<open>Positions around a ring: before the end, then from the beginning; and all different.\<close>

lemma ring_pos:
  assumes "j < (s :: nat)"
  shows "(p + j) mod s = (if j < s - p mod s then p mod s + j else j - (s - p mod s))"
proof -
  define q where "q = p mod s"
  have lt: "q < s" using assms by (simp add: q_def)
  have "(p + j) mod s = (q + j) mod s" by (simp add: q_def mod_add_left_eq)
  also have "\<dots> = (if j < s - q then q + j else j - (s - q))"
  proof (cases "j < s - q")
    case False
    then have "q + j = s + (j - (s - q))" using lt by simp
    then have "(q + j) mod s = (s + (j - (s - q))) mod s" by (rule arg_cong)
    also have "\<dots> = j - (s - q)" using assms lt by simp
    finally show ?thesis using False by simp
  qed simp
  finally show ?thesis by (simp add: q_def)
qed

lemma ring_pos_inj:
  assumes "(p + i) mod s = (p + j) mod s" and "i < s" and "j < (s :: nat)"
  shows "i = j"
proof -
  have "p mod s < s" using assms(2) by simp
  then show ?thesis using assms ring_pos[OF assms(2), of p] ring_pos[OF assms(3), of p]
    by (auto split: if_splits)
qed

text \<open>A copy in two pieces out of a ring reads around it.\<close>

lemma ring_two_pieces:
  assumes "length b = s" and "n \<le> s" and "l = min n (s - p mod s)" and "0 < s"
  shows "take l (drop (p mod s) b) @ take (n - l) b = around b s p n"
proof (rule nth_equalityI)
  have lt: "p mod s < s" using assms(4) by simp
  then show len: "length (take l (drop (p mod s) b) @ take (n - l) b) = length (around b s p n)"
    using assms by auto
  fix j assume "j < length (take l (drop (p mod s) b) @ take (n - l) b)"
  then have j: "j < n" using len by simp
  then show "(take l (drop (p mod s) b) @ take (n - l) b) ! j = around b s p n ! j"
    using assms lt ring_pos[of j s p] by (auto simp: nth_append min_def split: if_splits)
qed

text \<open>A copy in two pieces into a ring writes around it.\<close>

lemma memcpy_at_nth:
  assumes "memcpy_at d doff src soff n = Some d'"
  shows "length d' = length d"
    and "i < length d \<Longrightarrow> d' ! i = (if doff \<le> i \<and> i < doff + n then src ! (soff + (i - doff)) else d ! i)"
proof -
  have d': "d' = take doff d @ take n (drop soff src) @ drop (doff + n) d"
    and le: "doff + n \<le> length d" "soff + n \<le> length src"
    using assms by (auto simp: memcpy_at_def split: if_splits)
  then show "length d' = length d" by simp
  show "i < length d \<Longrightarrow> d' ! i = (if doff \<le> i \<and> i < doff + n then src ! (soff + (i - doff)) else d ! i)"
    using le by (auto simp: d' nth_append)
qed

lemma ring_write:
  assumes s: "length b = s" "0 < s" and n: "n \<le> s" "n \<le> length data" and l: "l = min n (s - p mod s)"
  obtains b1 b2 where "memcpy_at b (p mod s) data 0 l = Some b1"
    and "memcpy_at b1 0 data l (n - l) = Some b2" and "length b1 = s" and "length b2 = s"
    and "\<And>j. j < s \<Longrightarrow> b1 ! ((p + j) mod s) = (if j < l then data ! j else b ! ((p + j) mod s))"
    and "\<And>j. j < s \<Longrightarrow> b2 ! ((p + j) mod s) = (if j < n then data ! j else b ! ((p + j) mod s))"
proof -
  have lt: "p mod s < s" using s by simp
  obtain b1 where b1: "memcpy_at b (p mod s) data 0 l = Some b1"
  proof -
    have "p mod s + l \<le> s" "l \<le> length data" using n l lt by auto
    then show thesis using that s by (simp add: memcpy_at_def)
  qed
  note n1 = memcpy_at_nth[OF b1]
  obtain b2 where b2: "memcpy_at b1 0 data l (n - l) = Some b2"
  proof -
    have "n - l \<le> s" "l + (n - l) \<le> length data" using n l by auto
    then show thesis using that s n1(1) by (simp add: memcpy_at_def)
  qed
  note n2 = memcpy_at_nth[OF b2]
  have split: "\<exists>i. i < s \<and> (p + j) mod s = i \<and> (j < s - p mod s \<and> i = p mod s + j \<or>
      s - p mod s \<le> j \<and> i + (s - p mod s) = j \<and> i < p mod s)" if "j < s" for j
  proof (cases "j < s - p mod s")
    case True
    then show ?thesis using ring_pos[OF that, of p] lt by auto
  next
    case False
    let ?i = "j - (s - p mod s)"
    have "(p + j) mod s = ?i" using ring_pos[OF that, of p] False by (simp only: if_False)
    moreover have "?i < s" "?i < p mod s" "?i + (s - p mod s) = j" "s - p mod s \<le> j"
      using lt that False by linarith+
    ultimately show ?thesis by (intro exI[of _ ?i]) (simp only: simp_thms)
  qed
  have p1: "b1 ! ((p + j) mod s) = (if j < l then data ! j else b ! ((p + j) mod s))" if j: "j < s" for j
    using split[OF j] n1(2) s(1) l by auto
  have p2: "b2 ! ((p + j) mod s) = (if j < n then data ! j else b ! ((p + j) mod s))" if j: "j < s" for j
  proof -
    obtain i where i: "i < s" "(p + j) mod s = i" "j < s - p mod s \<and> i = p mod s + j \<or>
      s - p mod s \<le> j \<and> i + (s - p mod s) = j \<and> i < p mod s" using split[OF j] by blast
    have "b2 ! i = (if i < n - l then data ! (i + l) else b1 ! i)"
      using n2(2)[of i] n1(1) i(1) s(1) by (simp add: add.commute)
    moreover have "i < n - l \<Longrightarrow> i + l = j \<and> j < n" "\<not> i < n - l \<Longrightarrow> j < n \<Longrightarrow> j < l"
      using i(1,3) l n lt by linarith+
    moreover have "j < l \<Longrightarrow> j < n" using l by simp
    ultimately show ?thesis using p1[OF j] unfolding i(2) by (cases "i < n - l") auto
  qed
  show thesis by (rule that[OF b1 b2 _ _ p1 p2]) (use n1(1) n2(1) s in auto)
qed

subsection \<open>Sizes and masks\<close>

lemma pow2_nat: "0 < n \<Longrightarrow> n AND (n - 1) = 0 \<Longrightarrow> \<exists>k. n = (2::nat) ^ k"
proof (induction n rule: less_induct)
  case (less n)
  show ?case
  proof (cases "odd n")
    case True
    then obtain a where a: "n = 2 * a + 1" by (elim oddE)
    then have "n AND (n - 1) = 2 * a" by (subst and_rec) simp
    then show ?thesis using less.prems a by (intro exI[of _ 0]) simp
  next
    case False
    then obtain a where a: "n = 2 * a" by auto
    have pos: "0 < a" using less.prems(1) a by simp
    have "(n - 1) div 2 = a - 1" using a pos by simp
    then have "n AND (n - 1) = 2 * (a AND (a - 1))" using a by (subst and_rec) simp
    then obtain k where "a = 2 ^ k" using less.IH[of a] less.prems(2) pos a by auto
    then show ?thesis using a by (intro exI[of _ "Suc k"]) simp
  qed
qed

lemma unat_and: "unat (x AND y :: u32) = unat x AND unat y"
  by (simp add: unsigned_and_eq)

lemma size_pow2:
  assumes "sz \<noteq> (0 :: u32)" and "sz AND (sz - 1) = 0"
  obtains k where "unat sz = 2 ^ k" and "k < 32"
proof -
  have "unat sz AND (unat sz - 1) = 0"
    using assms unat_and[of sz "sz - 1"] by (simp add: unat_minus_one)
  moreover have "0 < unat sz" using assms(1) by (simp add: unat_gt_0)
  ultimately obtain k where k: "unat sz = 2 ^ k" using pow2_nat by blast
  moreover have "k < 32"
  proof (rule ccontr)
    assume "\<not> k < 32"
    then have "(2::nat) ^ 32 \<le> 2 ^ k" by (intro power_increasing) auto
    moreover have "unat sz < 2 ^ 32" by (rule less_le_trans[OF unsigned_less]) simp
    ultimately show False using k by simp
  qed
  ultimately show thesis by (rule that)
qed

lemma unat_index:
  assumes "unat (sz :: u32) = 2 ^ k"
  shows "unat (p AND (sz - 1)) = unat p mod unat sz"
proof -
  have "sz \<noteq> 0" using assms by auto
  then have "unat (sz - 1) = mask k" using assms by (simp add: unat_minus_one mask_eq_exp_minus_1)
  then have "unat (p AND (sz - 1)) = take_bit k (unat p)" by (simp add: unat_and take_bit_eq_mask)
  then show ?thesis using assms by (simp add: take_bit_eq_mod)
qed

text \<open>A free-running index: adding wraps at \<open>2^32\<close>, which the size of the ring divides.\<close>

lemma unat_add_mod:
  assumes "unat (sz :: u32) = 2 ^ k" and "k < 32"
  shows "unat (p + q :: u32) mod unat sz = (unat p + unat q) mod unat sz"
proof -
  have "(2::nat) ^ k dvd 2 ^ 32" using assms(2) by (intro le_imp_power_dvd) simp
  then show ?thesis using assms(1) by (simp add: unat_word_ariths mod_mod_cancel)
qed

subsection \<open>The invariant and the contents\<close>

definition fifo_inv :: "kfifo \<Rightarrow> bool" where
  "fifo_inv f = (fsize f \<noteq> 0 \<and> fsize f AND (fsize f - 1) = 0 \<and>
     length (buffer f) = unat (fsize f) \<and> fin f - fout f \<le> fsize f)"

definition contents :: "kfifo \<Rightarrow> u8 list" where
  "contents f = around (buffer f) (unat (fsize f)) (unat (fout f)) (unat (fin f - fout f))"

definition capacity :: "kfifo \<Rightarrow> nat" where
  "capacity f = unat (fsize f)"

lemma contents_length: "length (contents f) = unat (fin f - fout f)"
  by (simp add: contents_def)

text \<open>What \<^verbatim>\<open>len\<close> and \<^verbatim>\<open>l\<close> come to in the two transfers.\<close>

lemma unat_min: "unat (min a b :: u32) = min (unat a) (unat b)"
  by (simp add: min_def word_le_nat_alt)

lemma free_space:
  assumes "fifo_inv f"
  shows "unat (fsize f - fin f + fout f) = capacity f - length (contents f)"
proof -
  have "fsize f - fin f + fout f = fsize f - (fin f - fout f)" by simp
  moreover have "fin f - fout f \<le> fsize f" using assms by (simp add: fifo_inv_def)
  ultimately show ?thesis by (simp only: unat_sub contents_length capacity_def)
qed

lemma first_piece:
  assumes "unat (sz :: u32) = 2 ^ k" and "k < 32"
  shows "unat (min n (sz - (p AND (sz - 1)))) = min (unat n) (unat sz - unat p mod unat sz)"
    and "unat (n - min n (sz - (p AND (sz - 1)))) = unat n - min (unat n) (unat sz - unat p mod unat sz)"
proof -
  have i: "unat (p AND (sz - 1)) = unat p mod unat sz" by (rule unat_index[OF assms(1)])
  have "unat p mod unat sz \<le> unat sz" using assms(1) by (simp add: less_imp_le)
  then have "unat (sz - (p AND (sz - 1))) = unat sz - unat p mod unat sz"
    using i by (simp add: unat_sub word_le_nat_alt)
  then show m: "unat (min n (sz - (p AND (sz - 1)))) = min (unat n) (unat sz - unat p mod unat sz)"
    by (simp add: unat_min)
  have "min n (sz - (p AND (sz - 1))) \<le> n" by simp
  then show "unat (n - min n (sz - (p AND (sz - 1)))) = unat n - min (unat n) (unat sz - unat p mod unat sz)"
    using m by (simp add: unat_sub)
qed

subsection \<open>Writing behind the contents\<close>

text \<open>A ring of \<open>s\<close> bytes holds \<open>u\<close> bytes from \<open>q\<close> on; \<open>p\<close> is where they end.\<close>

lemma ring_end_add:
  assumes "(q + u) mod s = p mod (s :: nat)"
  shows "(q + (u + j)) mod s = (p + j) mod s"
  using assms by (metis add.assoc mod_add_left_eq)

lemma ring_preserved:
  assumes pq: "(q + u) mod s = p mod s" and fit: "u + n \<le> s" and "0 < s"
    and same: "\<And>j. n \<le> j \<Longrightarrow> j < s \<Longrightarrow> b' ! ((p + j) mod s) = b ! ((p + j) mod s)"
  shows "around b' s q u = around b s q u"
proof (rule byte_ring_cong)
  fix j assume j: "j < u"
  have "(p + (s - u + j)) mod s = (q + (u + (s - u + j))) mod s" by (rule ring_end_add[OF pq, symmetric])
  also have "u + (s - u + j) = s + j" using fit by simp
  also have "(q + (s + j)) mod s = (q + j) mod s" by (metis add.left_commute mod_add_self1)
  finally have "(p + (s - u + j)) mod s = (q + j) mod s" .
  moreover have "n \<le> s - u + j" "s - u + j < s" using fit j by linarith+
  ultimately show "b' ! ((q + j) mod s) = b ! ((q + j) mod s)" using same[of "s - u + j"] by simp
qed

lemma ring_new:
  assumes "\<And>j. j < n \<Longrightarrow> b' ! ((p + j) mod s) = data ! j" and "n \<le> length data"
  shows "around b' s p n = take n data"
  by (rule nth_equalityI) (use assms in auto)

lemma ring_shift: "p mod s = p' mod s \<Longrightarrow> around b s p n = around b s p' n"
  by (metis ring_mod)

lemma in_after_out:
  assumes "unat (fsize f) = 2 ^ k" and "k < 32"
  shows "(unat (fout f) + unat (fin f - fout f)) mod unat (fsize f) = unat (fin f) mod unat (fsize f)"
proof -
  have "fout f + (fin f - fout f) = fin f" by simp
  then show ?thesis using unat_add_mod[OF assms, of "fout f" "fin f - fout f"] by simp
qed

lemma fifo_invE:
  assumes "fifo_inv f"
  obtains k where "unat (fsize f) = 2 ^ k" and "k < 32" and "length (buffer f) = unat (fsize f)"
    and "0 < unat (fsize f)" and "unat (fin f - fout f) \<le> unat (fsize f)"
proof -
  have nz: "fsize f \<noteq> 0" "fsize f AND (fsize f - 1) = 0"
    and rest: "length (buffer f) = unat (fsize f)" "unat (fin f - fout f) \<le> unat (fsize f)"
    using assms by (auto simp: fifo_inv_def word_le_nat_alt)
  obtain k where k: "unat (fsize f) = 2 ^ k" "k < 32" by (rule size_pow2[OF nz])
  moreover have "0 < unat (fsize f)" using k(1) by simp
  ultimately show thesis using rest that by blast
qed

text \<open>The two copies of a put that takes \<open>n\<close> bytes, for which there is room.\<close>

lemma put_copies:
  assumes "fifo_inv f" and "unat n + unat (fin f - fout f) \<le> unat (fsize f)" and "unat n \<le> length data"
    and l: "l = min n (fsize f - (fin f AND (fsize f - 1)))"
  obtains b1 b2 where
    "memcpy_at (buffer f) (unat (fin f AND (fsize f - 1))) data 0 (unat l) = Some b1"
    and "memcpy_at b1 0 data (unat l) (unat (n - l)) = Some b2"
    and "length b1 = unat (fsize f)" and "length b2 = unat (fsize f)"
    and "contents (f\<lparr>buffer := b1\<rparr>) = contents f" and "contents (f\<lparr>buffer := b2\<rparr>) = contents f"
    and "around b2 (unat (fsize f)) (unat (fin f)) (unat n) = take (unat n) data"
proof -
  obtain k where k: "unat (fsize f) = 2 ^ k" "k < 32" and lb: "length (buffer f) = unat (fsize f)"
    "0 < unat (fsize f)" and used: "unat (fin f - fout f) \<le> unat (fsize f)" by (rule fifo_invE[OF assms(1)])
  define s where "s = unat (fsize f)"
  define p where "p = unat (fin f)"
  define u where "u = unat (fin f - fout f)"
  define q where "q = unat (fout f)"
  have pq: "(q + u) mod s = p mod s" using in_after_out[OF k] by (simp add: p_def q_def s_def u_def)
  have fit: "u + unat n \<le> s" "0 < s" using assms(2) lb by (simp_all add: s_def u_def)
  have ul: "unat l = min (unat n) (s - p mod s)" "unat (n - l) = unat n - unat l"
    using first_piece[OF k, of n "fin f"] by (simp_all add: l s_def p_def)
  obtain b1 b2 where b: "memcpy_at (buffer f) (p mod s) data 0 (unat l) = Some b1"
    "memcpy_at b1 0 data (unat l) (unat n - unat l) = Some b2" "length b1 = s" "length b2 = s"
    and w1: "\<And>j. j < s \<Longrightarrow> b1 ! ((p + j) mod s) = (if j < unat l then data ! j else buffer f ! ((p + j) mod s))"
    and w2: "\<And>j. j < s \<Longrightarrow> b2 ! ((p + j) mod s) = (if j < unat n then data ! j else buffer f ! ((p + j) mod s))"
    by (rule ring_write[OF lb(1)[folded s_def] fit(2) _ assms(3) ul(1)]) (use fit in simp_all)
  have "unat l \<le> unat n" using ul(1) by simp
  then have c1: "around b1 s q u = around (buffer f) s q u"
    using w1 by (intro ring_preserved[OF pq fit]) auto
  have c2: "around b2 s q u = around (buffer f) s q u"
    using w2 by (intro ring_preserved[OF pq fit]) auto
  have nw: "around b2 s p (unat n) = take (unat n) data"
    using w2 fit assms(3) by (intro ring_new) auto
  show thesis
    by (rule that[of b1 b2])
      (use b c1 c2 nw unat_index[OF k(1)] ul(2) in \<open>simp_all add: contents_def s_def p_def q_def u_def\<close>)
qed

text \<open>The two copies of a get that takes \<open>n\<close> bytes, which are there.\<close>

lemma get_copies:
  assumes "fifo_inv f" and "unat n \<le> unat (fin f - fout f)" and "unat n \<le> length dst"
    and l: "l = min n (fsize f - (fout f AND (fsize f - 1)))"
  obtains d1 d2 where
    "memcpy_at dst 0 (buffer f) (unat (fout f AND (fsize f - 1))) (unat l) = Some d1"
    and "memcpy_at d1 (unat l) (buffer f) 0 (unat (n - l)) = Some d2"
    and "d1 = take (unat l) (contents f) @ drop (unat l) dst"
    and "d2 = take (unat n) (contents f) @ drop (unat n) dst"
proof -
  obtain k where k: "unat (fsize f) = 2 ^ k" "k < 32" and lb: "length (buffer f) = unat (fsize f)"
    "0 < unat (fsize f)" and used: "unat (fin f - fout f) \<le> unat (fsize f)" by (rule fifo_invE[OF assms(1)])
  define s where "s = unat (fsize f)"
  define q where "q = unat (fout f)"
  have ul: "unat l = min (unat n) (s - q mod s)" "unat (n - l) = unat n - unat l"
    using first_piece[OF k, of n "fout f"] by (simp_all add: l s_def q_def)
  have ln: "unat l \<le> unat n" and nb: "unat n \<le> s" and s0: "0 < s"
    using ul(1) assms(2) used lb by (auto simp: s_def)
  have "q mod s < s" using s0 by simp
  then have qs: "q mod s + unat l \<le> s" "0 < s" using ul(1) s0 by linarith+
  have tk: "take (unat n) (contents f) = around (buffer f) s q (unat n)"
    using assms(2) by (simp add: contents_def ring_take s_def q_def)
  have two: "take (unat l) (drop (q mod s) (buffer f)) @ take (unat n - unat l) (buffer f) =
      around (buffer f) s q (unat n)"
    using lb by (intro ring_two_pieces[OF _ nb ul(1) qs(2)]) (simp add: s_def)
  have len1: "length (take (unat l) (drop (q mod s) (buffer f))) = unat l" using lb qs by (simp add: s_def)
  let ?d1 = "take (unat l) (drop (q mod s) (buffer f)) @ drop (unat l) dst"
  have m1: "memcpy_at dst 0 (buffer f) (q mod s) (unat l) = Some ?d1"
    using ln assms(3) qs lb by (simp add: memcpy_at_def s_def)
  have m2: "memcpy_at ?d1 (unat l) (buffer f) 0 (unat n - unat l) =
      Some (take (unat n) (contents f) @ drop (unat n) dst)"
  proof -
    have n2: "unat n - unat l \<le> length (buffer f)" using nb lb by (simp add: s_def)
    then show ?thesis unfolding tk two[symmetric] using ln assms(3) len1 by (simp add: memcpy_at_def)
  qed
  have "take (unat l) (take (unat n) (contents f)) = take (unat l) (drop (q mod s) (buffer f))"
    unfolding tk two[symmetric] using len1 by simp
  then have "take (unat l) (contents f) = take (unat l) (drop (q mod s) (buffer f))"
    using ln by (simp add: min_def)
  then show thesis
    using that[of ?d1] m1 m2 ul(2) unat_index[OF k(1)] by (simp add: s_def q_def)
qed

subsection \<open>The operations on the contents\<close>

lemma contents_buffer_eq:
  "contents (f\<lparr>buffer := b, fin := i\<rparr>) =
     around b (unat (fsize f)) (unat (fout f)) (unat (i - fout f))"
  by (simp add: contents_def)

text \<open>What advancing the two indices does.\<close>

lemma advance_in:
  assumes inv: "fifo_inv f" and room: "unat n + unat (fin f - fout f) \<le> unat (fsize f)"
  shows "fifo_inv (f\<lparr>fin := fin f + n\<rparr>)"
    and "contents (f\<lparr>fin := fin f + n\<rparr>) =
      contents f @ around (buffer f) (unat (fsize f)) (unat (fin f)) (unat n)"
proof -
  obtain k where k: "unat (fsize f) = 2 ^ k" "k < 32" and rest: "length (buffer f) = unat (fsize f)"
    "0 < unat (fsize f)" "unat (fin f - fout f) \<le> unat (fsize f)" by (rule fifo_invE[OF inv])
  have "(2::nat) ^ k < 2 ^ 32" using k(2) by (intro power_strict_increasing) auto
  then have lt: "unat (fin f - fout f) + unat n < 2 ^ 32" using room k(1) by simp
  have e: "fin f + n - fout f = (fin f - fout f) + n" by simp
  have u: "unat (fin f + n - fout f) = unat (fin f - fout f) + unat n"
    unfolding e using lt by (simp add: unat_word_ariths)
  show "fifo_inv (f\<lparr>fin := fin f + n\<rparr>)" using inv room u by (simp add: fifo_inv_def word_le_nat_alt)
  show "contents (f\<lparr>fin := fin f + n\<rparr>) =
      contents f @ around (buffer f) (unat (fsize f)) (unat (fin f)) (unat n)"
    using ring_shift[OF in_after_out[OF k]] by (simp add: contents_def u ring_append)
qed

lemma advance_out:
  assumes inv: "fifo_inv f" and there: "unat n \<le> unat (fin f - fout f)"
  shows "fifo_inv (f\<lparr>fout := fout f + n\<rparr>)"
    and "contents (f\<lparr>fout := fout f + n\<rparr>) = drop (unat n) (contents f)"
proof -
  obtain k where k: "unat (fsize f) = 2 ^ k" "k < 32" and rest: "length (buffer f) = unat (fsize f)"
    "0 < unat (fsize f)" "unat (fin f - fout f) \<le> unat (fsize f)" by (rule fifo_invE[OF inv])
  have e: "fin f - (fout f + n) = (fin f - fout f) - n" by simp
  have u: "unat (fin f - (fout f + n)) = unat (fin f - fout f) - unat n"
    unfolding e using there by (simp add: unat_sub word_le_nat_alt)
  show "fifo_inv (f\<lparr>fout := fout f + n\<rparr>)" using inv u rest(3) by (simp add: fifo_inv_def word_le_nat_alt)
  have "unat (fout f + n) mod unat (fsize f) = (unat (fout f) + unat n) mod unat (fsize f)"
    by (rule unat_add_mod[OF k])
  from ring_shift[OF this] show "contents (f\<lparr>fout := fout f + n\<rparr>) = drop (unat n) (contents f)"
    using there by (simp add: contents_def u ring_drop)
qed

lemma fifo_inv_buffer: "fifo_inv f \<Longrightarrow> length b = unat (fsize f) \<Longrightarrow> fifo_inv (f\<lparr>buffer := b\<rparr>)"
  by (simp add: fifo_inv_def)

lemma kfifo_put_unlocked_spec:
  assumes "fifo_inv f" and "unat len \<le> length data"
  shows "\<exists>n f'. kfifo_put_unlocked f data len = Some (n, f') \<and> fifo_inv f' \<and> capacity f' = capacity f \<and>
     unat n = min (unat len) (capacity f - length (contents f)) \<and>
     contents f' = contents f @ take (unat n) data"
proof -
  define n where "n = min len (fsize f - fin f + fout f)"
  define l where "l = min n (fsize f - (fin f AND (fsize f - 1)))"
  have un: "unat n = min (unat len) (capacity f - length (contents f))"
    by (simp add: n_def unat_min free_space[OF assms(1)])
  have used: "unat (fin f - fout f) \<le> unat (fsize f)" by (rule fifo_invE[OF assms(1)])
  have room: "unat n + unat (fin f - fout f) \<le> unat (fsize f)" and nd: "unat n \<le> length data"
    using un used assms(2) by (simp_all add: contents_length capacity_def)
  obtain b1 b2 where b: "memcpy_at (buffer f) (unat (fin f AND (fsize f - 1))) data 0 (unat l) = Some b1"
      "memcpy_at b1 0 data (unat l) (unat (n - l)) = Some b2"
    and len: "length b1 = unat (fsize f)" "length b2 = unat (fsize f)"
    and c: "contents (f\<lparr>buffer := b1\<rparr>) = contents f" "contents (f\<lparr>buffer := b2\<rparr>) = contents f"
      "around b2 (unat (fsize f)) (unat (fin f)) (unat n) = take (unat n) data"
    by (rule put_copies[OF assms(1) room nd l_def])
  let ?f = "f\<lparr>buffer := b2, fin := fin f + n\<rparr>"
  have "kfifo_put_unlocked f data len = Some (n, ?f)"
    by (simp add: kfifo_put_unlocked_def Let_def b flip: n_def l_def)
  moreover have "fifo_inv (f\<lparr>buffer := b2\<rparr>)" by (rule fifo_inv_buffer[OF assms(1) len(2)])
  from advance_in[OF this, of n] have "fifo_inv ?f" "contents ?f = contents f @ take (unat n) data"
    using room c by simp_all
  ultimately show ?thesis using un by (auto simp: capacity_def)
qed

lemma kfifo_get_unlocked_spec:
  assumes "fifo_inv f" and "unat len \<le> length dst"
  shows "\<exists>n d f'. kfifo_get_unlocked f dst len = Some (n, d, f') \<and> fifo_inv f' \<and> capacity f' = capacity f \<and>
     unat n = min (unat len) (length (contents f)) \<and>
     d = take (unat n) (contents f) @ drop (unat n) dst \<and> contents f' = drop (unat n) (contents f)"
proof -
  define n where "n = min len (fin f - fout f)"
  define l where "l = min n (fsize f - (fout f AND (fsize f - 1)))"
  have un: "unat n = min (unat len) (length (contents f))" by (simp add: n_def unat_min contents_length)
  have there: "unat n \<le> unat (fin f - fout f)" and nd: "unat n \<le> length dst"
    using un assms(2) by (simp_all add: contents_length)
  obtain d1 d2 where d: "memcpy_at dst 0 (buffer f) (unat (fout f AND (fsize f - 1))) (unat l) = Some d1"
      "memcpy_at d1 (unat l) (buffer f) 0 (unat (n - l)) = Some d2"
    and d2: "d1 = take (unat l) (contents f) @ drop (unat l) dst"
      "d2 = take (unat n) (contents f) @ drop (unat n) dst"
    by (rule get_copies[OF assms(1) there nd l_def])
  have "kfifo_get_unlocked f dst len = Some (n, d2, f\<lparr>fout := fout f + n\<rparr>)"
    by (simp add: kfifo_get_unlocked_def Let_def d flip: n_def l_def)
  then show ?thesis using un advance_out[OF assms(1) there] d2(2) by (auto simp: capacity_def)
qed

lemma reset_empty:
  assumes "fifo_inv f" and "fin f = fout f"
  shows "fifo_inv (f\<lparr>fin := 0, fout := 0\<rparr>)" and "contents (f\<lparr>fin := 0, fout := 0\<rparr>) = contents f"
  using assms by (simp_all add: fifo_inv_def contents_def around_def)

lemma kfifo_get_spec:
  assumes "fifo_inv f" and "unat len \<le> length dst"
  shows "\<exists>n d f'. kfifo_get f dst len = Some (n, d, f') \<and> fifo_inv f' \<and> capacity f' = capacity f \<and>
     unat n = min (unat len) (length (contents f)) \<and>
     d = take (unat n) (contents f) @ drop (unat n) dst \<and> contents f' = drop (unat n) (contents f)"
proof -
  obtain n d f' where g: "kfifo_get_unlocked f dst len = Some (n, d, f')" "fifo_inv f'"
    "capacity f' = capacity f" "unat n = min (unat len) (length (contents f))"
    "d = take (unat n) (contents f) @ drop (unat n) dst" "contents f' = drop (unat n) (contents f)"
    using kfifo_get_unlocked_spec[OF assms] by blast
  let ?f = "if fin f' = fout f' then f'\<lparr>fin := 0, fout := 0\<rparr> else f'"
  have "kfifo_get f dst len = Some (n, d, ?f)" using g(1) by (simp add: kfifo_get_def)
  moreover have "fifo_inv ?f \<and> contents ?f = contents f' \<and> capacity ?f = capacity f'"
    using reset_empty[OF g(2)] g(2) by (simp add: capacity_def)
  ultimately show ?thesis using g by (intro exI[of _ n] exI[of _ d] exI[of _ ?f]) (simp only: simp_thms)
qed

subsection \<open>The interface\<close>

datatype fifo_op = Put "u8 list" u32 | Get "u8 list" u32

fun op_ok :: "fifo_op \<Rightarrow> bool" where
  "op_ok (Put data len) = (unat len \<le> length data)"
| "op_ok (Get dst len) = (unat len \<le> length dst)"

text \<open>A client: a sequence of calls, with all bytes accepted and all bytes delivered.\<close>

fun fifo_run ::
  "('f \<Rightarrow> u8 list \<Rightarrow> u32 \<Rightarrow> (u32 \<times> 'f) option) \<Rightarrow> ('f \<Rightarrow> u8 list \<Rightarrow> u32 \<Rightarrow> (u32 \<times> u8 list \<times> 'f) option)
     \<Rightarrow> fifo_op list \<Rightarrow> 'f \<Rightarrow> ('f \<times> u8 list \<times> u8 list) option"
where
  "fifo_run put get [] f = Some (f, [], [])"
| "fifo_run put get (Put data len # ops) f = do {
     (n, f) \<leftarrow> put f data len;
     (f, accepted, delivered) \<leftarrow> fifo_run put get ops f;
     Some (f, take (unat n) data @ accepted, delivered) }"
| "fifo_run put get (Get dst len # ops) f = do {
     (n, d, f) \<leftarrow> get f dst len;
     (f, accepted, delivered) \<leftarrow> fifo_run put get ops f;
     Some (f, accepted, take (unat n) d @ delivered) }"

locale byte_fifo =
  fixes inv :: "'f \<Rightarrow> bool" and queue :: "'f \<Rightarrow> u8 list" and cap :: "'f \<Rightarrow> nat"
    and put :: "'f \<Rightarrow> u8 list \<Rightarrow> u32 \<Rightarrow> (u32 \<times> 'f) option"
    and get :: "'f \<Rightarrow> u8 list \<Rightarrow> u32 \<Rightarrow> (u32 \<times> u8 list \<times> 'f) option"
  assumes put_law: "inv f \<Longrightarrow> unat len \<le> length data \<Longrightarrow>
      \<exists>n f'. put f data len = Some (n, f') \<and> inv f' \<and> cap f' = cap f \<and>
        unat n = min (unat len) (cap f - length (queue f)) \<and> queue f' = queue f @ take (unat n) data"
    and get_law: "inv f \<Longrightarrow> unat len \<le> length dst \<Longrightarrow>
      \<exists>n d f'. get f dst len = Some (n, d, f') \<and> inv f' \<and> cap f' = cap f \<and>
        unat n = min (unat len) (length (queue f)) \<and>
        d = take (unat n) (queue f) @ drop (unat n) dst \<and> queue f' = drop (unat n) (queue f)"
begin

lemma stream:
  assumes "inv f" and "list_all op_ok ops"
  shows "\<exists>f' a d. fifo_run put get ops f = Some (f', a, d) \<and> inv f' \<and> cap f' = cap f \<and>
     d @ queue f' = queue f @ a"
  using assms
proof (induction ops arbitrary: f)
  case Nil
  then show ?case by simp
next
  case (Cons x ops)
  show ?case
  proof (cases x)
    case (Put data len)
    then have "unat len \<le> length data" using Cons.prems(2) by simp
    then obtain n f1 where p: "put f data len = Some (n, f1)" "inv f1" "cap f1 = cap f"
      "queue f1 = queue f @ take (unat n) data" using put_law[OF Cons.prems(1)] by blast
    then show ?thesis using Cons.IH[OF p(2)] Cons.prems(2) Put by auto
  next
    case (Get dst len)
    then have "unat len \<le> length dst" using Cons.prems(2) by simp
    then obtain n f1 d where g: "get f dst len = Some (n, d, f1)" "inv f1" "cap f1 = cap f"
      "unat n = min (unat len) (length (queue f))" "d = take (unat n) (queue f) @ drop (unat n) dst"
      "queue f1 = drop (unat n) (queue f)" using get_law[OF Cons.prems(1)] by blast
    have "take (unat n) d = take (unat n) (queue f)" using g(4) by (simp add: g(5))
    then have "take (unat n) d @ queue f1 = queue f" by (simp add: g(6))
    then show ?thesis using Cons.IH[OF g(2)] Cons.prems(2) Get g(1,3) by auto
  qed
qed

text \<open>What is put into an empty queue with room for it comes out again.\<close>

lemma put_get:
  assumes "inv f" and "queue f = []" and "unat len = length data" and "length data \<le> cap f"
    and "length dst = length data"
  shows "\<exists>f1 f2. put f data len = Some (len, f1) \<and> get f1 dst len = Some (len, data, f2) \<and> queue f2 = []"
proof -
  obtain n f1 where p: "put f data len = Some (n, f1)" "inv f1" "unat n = unat len"
    "queue f1 = take (unat n) data" using put_law[OF assms(1), of len data] assms by force
  obtain m d f2 where g: "get f1 dst len = Some (m, d, f2)" "unat m = min (unat len) (length (queue f1))"
    "d = take (unat m) (queue f1) @ drop (unat m) dst" "queue f2 = drop (unat m) (queue f1)"
    using get_law[OF p(2), of len dst] assms by force
  have "n = len" using p(3) by (simp add: word_unat_eq_iff)
  moreover have "m = len" using g(2) p(3,4) assms(3) by (simp add: word_unat_eq_iff)
  ultimately show ?thesis using p g assms by auto
qed

end

interpretation kf: byte_fifo fifo_inv contents capacity kfifo_put kfifo_get
  by unfold_locales (use kfifo_put_unlocked_spec kfifo_get_spec in \<open>simp_all add: kfifo_put_def\<close>)

interpretation kfu: byte_fifo fifo_inv contents capacity kfifo_put_unlocked kfifo_get_unlocked
  by unfold_locales (use kfifo_put_unlocked_spec kfifo_get_unlocked_spec in simp_all)

subsection \<open>Creating a queue\<close>

lemma fls_bound: "n < 2 ^ k \<Longrightarrow> fls n \<le> k"
proof (induction k arbitrary: n)
  case 0
  then show ?case by (simp add: fls.simps)
next
  case (Suc k)
  then have "fls (n div 2) \<le> k" by (intro Suc.IH) simp
  then show ?case by (subst fls.simps) simp
qed

lemma fls_enough: "n < 2 ^ fls n"
proof (induction n rule: fls.induct)
  case (1 n)
  show ?case
  proof (cases "n = 0")
    case True
    then show ?thesis by (simp add: fls.simps)
  next
    case False
    then have "n div 2 < 2 ^ fls (n div 2)" using 1 by simp
    then have "n < 2 * 2 ^ fls (n div 2)" by linarith
    then show ?thesis using False by (subst fls.simps) simp
  qed
qed

lemma pow2_mask: "k < 32 \<Longrightarrow> (2 :: u32) ^ k AND (2 ^ k - 1) = 0"
proof -
  assume "k < 32"
  have "(2 :: u32) ^ k AND (2 ^ k - 1) = take_bit k (2 ^ k)"
    by (simp add: take_bit_eq_mask mask_eq_exp_minus_1)
  then show ?thesis by (simp add: take_bit_eq_0_iff)
qed

lemma unat_pow2: "k < 32 \<Longrightarrow> unat ((2 :: u32) ^ k) = 2 ^ k"
proof -
  assume "k < 32"
  then have "(2 :: nat) ^ k < 2 ^ 32" by (intro power_strict_increasing) auto
  moreover have "(2 :: u32) ^ k = of_nat (2 ^ k)" by simp
  ultimately show ?thesis by (simp only: unat_of_nat) simp
qed

lemma roundup_spec:
  assumes "0 < sz" and "sz \<le> 0x80000000"
  shows "\<exists>k<32. roundup_pow_of_two sz = 2 ^ k \<and> unat (roundup_pow_of_two sz) = 2 ^ k \<and> unat sz \<le> 2 ^ k"
proof -
  have u: "unat (sz - 1) = unat sz - 1" "0 < unat sz"
    using assms(1) by (simp_all add: unat_minus_one word_neq_0_conv unat_gt_0)
  have "unat sz \<le> 2 ^ 31" using assms(2) by (simp add: word_le_nat_alt)
  then have "unat (sz - 1) < 2 ^ 31" using u by simp
  then have k: "fls (unat (sz - 1)) < 32" using fls_bound[of _ 31] by fastforce
  moreover have "unat sz \<le> 2 ^ fls (unat (sz - 1))" using fls_enough[of "unat (sz - 1)"] u by simp
  moreover have "roundup_pow_of_two sz = 2 ^ fls (unat (sz - 1))"
    by (rule bit_word_eqI) (use k in \<open>auto simp: roundup_pow_of_two_def bit_simps\<close>)
  moreover have "unat ((2 :: u32) ^ fls (unat (sz - 1))) = 2 ^ fls (unat (sz - 1))"
    by (rule unat_pow2[OF k])
  ultimately show ?thesis by auto
qed

lemma kfifo_alloc_spec:
  assumes km: "\<And>n b. kmalloc n = Some b \<Longrightarrow> length b = n" and "0 < sz" and "sz \<le> 0x80000000"
  shows "\<exists>r. kfifo_alloc sz kmalloc alloc = Some r \<and>
     (case r of Inl e \<Rightarrow> e = - 12
      | Inr f \<Rightarrow> fifo_inv f \<and> contents f = [] \<and> unat sz \<le> capacity f)"
proof -
  define sz' where "sz' = (if sz AND (sz - 1) \<noteq> 0 then roundup_pow_of_two sz else sz)"
  have ok: "sz' AND (sz' - 1) = 0 \<and> sz' \<noteq> 0 \<and> unat sz \<le> unat sz'"
  proof (cases "sz AND (sz - 1) = 0")
    case True
    then show ?thesis using assms(2) by (simp add: sz'_def word_neq_0_conv)
  next
    case False
    obtain k where k: "k < 32" "roundup_pow_of_two sz = 2 ^ k" "unat (roundup_pow_of_two sz) = 2 ^ k"
      "unat sz \<le> 2 ^ k" using roundup_spec[OF assms(2,3)] by blast
    then show ?thesis using False pow2_mask[OF k(1)] by (auto simp: sz'_def)
  qed
  have "kfifo_alloc sz kmalloc alloc =
      (case kmalloc (unat sz') of None \<Rightarrow> Some (Inl (- 12)) | Some buf \<Rightarrow> kfifo_init buf sz' alloc)"
    using assms(3) unfolding kfifo_alloc_def sz'_def by (auto simp: not_less)
  then show ?thesis using ok km
    by (auto simp: kfifo_init_def fifo_inv_def contents_def around_def capacity_def split: option.splits)
qed

text \<open>C36: a queue made by \<^verbatim>\<open>kfifo_alloc\<close> for a size up to \<open>2^31\<close> is a bounded first-in first-out
  byte queue of at least that size: any sequence of \<^verbatim>\<open>kfifo_put\<close> and \<^verbatim>\<open>kfifo_get\<close> calls comes back
  without touching memory outside the buffers, and what has been delivered, followed by what is
  still queued, is exactly what has been accepted, although the indices wrap around in 32 bits and
  the buffer is used as a ring. Only hypothesis on the allocator: a buffer has the size asked for.\<close>

theorem kfifo_stream:
  assumes "\<And>n b. kmalloc n = Some b \<Longrightarrow> length b = n" and "0 < sz" and "sz \<le> 0x80000000"
    and "kfifo_alloc sz kmalloc alloc = Some (Inr f)" and "list_all op_ok ops"
  shows "\<exists>f' accepted delivered.
     fifo_run kfifo_put kfifo_get ops f = Some (f', accepted, delivered) \<and>
     delivered @ contents f' = accepted \<and> length (contents f') \<le> capacity f' \<and> unat sz \<le> capacity f'"
proof -
  have f: "fifo_inv f" "contents f = []" "unat sz \<le> capacity f"
    using kfifo_alloc_spec[where alloc = alloc and kmalloc = kmalloc, OF assms(1-3)] assms(4) by auto
  obtain f' a d where r: "fifo_run kfifo_put kfifo_get ops f = Some (f', a, d)" "fifo_inv f'"
    "capacity f' = capacity f" "d @ contents f' = contents f @ a"
    using kf.stream[OF f(1) assms(5)] by blast
  have "length (contents f') \<le> capacity f'"
    using r(2) by (simp add: fifo_inv_def contents_length capacity_def word_le_nat_alt)
  then show ?thesis using r f by auto
qed

definition demo_kmalloc :: "nat \<Rightarrow> u8 list option" where
  "demo_kmalloc n = Some (replicate n 0)"

definition demo_fifo :: kfifo where
  "demo_fifo = \<lparr>buffer = replicate 4 0, fsize = 4, fin = 0, fout = 0\<rparr>"

theorem kfifo_stream_witness:
  "\<exists>f' accepted delivered.
     fifo_run kfifo_put kfifo_get [Put [1, 2, 3] 3, Get [0, 0] 2, Put [4, 5, 6] 3, Get [0, 0, 0, 0] 4] demo_fifo =
       Some (f', accepted, delivered) \<and> delivered @ contents f' = accepted \<and> length (contents f') \<le> capacity f'"
proof -
  have a: "kfifo_alloc 3 demo_kmalloc True = Some (Inr demo_fifo)" by code_simp
  have k: "\<And>n b. demo_kmalloc n = Some b \<Longrightarrow> length b = n" by (auto simp: demo_kmalloc_def)
  show ?thesis
    using kfifo_stream[of demo_kmalloc 3 True demo_fifo
        "[Put [1, 2, 3] 3, Get [0, 0] 2, Put [4, 5, 6] 3, Get [0, 0, 0, 0] 4]", OF k _ _ a] by auto
qed

end
