(* ===== verification/KFifo_Concurrent.thy ===== *)
theory KFifo_Concurrent
  imports KFifo
begin

text \<open>
  One reader and one writer without a lock. The comments of \<^verbatim>\<open>__kfifo_put\<close> and \<^verbatim>\<open>__kfifo_get\<close> promise that
  they need none; here the two run in any interleaving of their steps: compute how much can be
  transferred, copy up to the end of the buffer, copy the rest from its beginning, advance the
  index. The barriers of the code keep these steps in this order, as both sides see them. The two
  last fields of the state record what has been put and got so far.
\<close>

subsection \<open>The operations in pieces\<close>

definition put_len :: "kfifo \<Rightarrow> u32 \<Rightarrow> u32" where
  "put_len f len = min len (fsize f - fin f + fout f)"

definition put_first_len :: "kfifo \<Rightarrow> u32 \<Rightarrow> u32" where
  "put_first_len f n = min n (fsize f - (fin f AND (fsize f - 1)))"

definition put_first :: "kfifo \<Rightarrow> u8 list \<Rightarrow> u32 \<Rightarrow> u8 list option" where
  "put_first f data n =
     memcpy_at (buffer f) (unat (fin f AND (fsize f - 1))) data 0 (unat (put_first_len f n))"

definition put_second :: "kfifo \<Rightarrow> u8 list \<Rightarrow> u32 \<Rightarrow> u8 list option" where
  "put_second f data n =
     memcpy_at (buffer f) 0 data (unat (put_first_len f n)) (unat (n - put_first_len f n))"

definition get_len :: "kfifo \<Rightarrow> u32 \<Rightarrow> u32" where
  "get_len f len = min len (fin f - fout f)"

definition get_first_len :: "kfifo \<Rightarrow> u32 \<Rightarrow> u32" where
  "get_first_len f n = min n (fsize f - (fout f AND (fsize f - 1)))"

definition get_first :: "kfifo \<Rightarrow> u8 list \<Rightarrow> u32 \<Rightarrow> u8 list option" where
  "get_first f dst n =
     memcpy_at dst 0 (buffer f) (unat (fout f AND (fsize f - 1))) (unat (get_first_len f n))"

definition get_second :: "kfifo \<Rightarrow> u8 list \<Rightarrow> u32 \<Rightarrow> u8 list option" where
  "get_second f dst n =
     memcpy_at dst (unat (get_first_len f n)) (buffer f) 0 (unat (n - get_first_len f n))"

text \<open>Undisturbed, the pieces are the operations.\<close>

lemma put_pieces:
  "kfifo_put_unlocked f data len = do {
     let n = put_len f len;
     b \<leftarrow> put_first f data n;
     b \<leftarrow> put_second (f\<lparr>buffer := b\<rparr>) data n;
     Some (n, f\<lparr>buffer := b, fin := fin f + n\<rparr>) }"
  by (simp add: kfifo_put_unlocked_def put_len_def put_first_def put_second_def put_first_len_def Let_def)

lemma get_pieces:
  "kfifo_get_unlocked f dst len = do {
     let n = get_len f len;
     d \<leftarrow> get_first f dst n;
     d \<leftarrow> get_second f d n;
     Some (n, d, f\<lparr>fout := fout f + n\<rparr>) }"
  by (simp add: kfifo_get_unlocked_def get_len_def get_first_def get_second_def get_first_len_def Let_def)

subsection \<open>Reader and writer\<close>

datatype xfer = Idle | Sized "u8 list" u32 | Half "u8 list" u32 | Full "u8 list" u32

record spsc =
  fifo :: kfifo
  writer :: xfer
  reader :: xfer
  accepted :: "u8 list"
  delivered :: "u8 list"

inductive spsc_step :: "spsc \<Rightarrow> spsc \<Rightarrow> bool" where
  w_size: "writer s = Idle \<Longrightarrow> unat len \<le> length data \<Longrightarrow>
    spsc_step s (s\<lparr>writer := Sized data (put_len (fifo s) len)\<rparr>)"
| w_first: "writer s = Sized data n \<Longrightarrow> put_first (fifo s) data n = Some b \<Longrightarrow>
    spsc_step s (s\<lparr>fifo := (fifo s)\<lparr>buffer := b\<rparr>, writer := Half data n\<rparr>)"
| w_second: "writer s = Half data n \<Longrightarrow> put_second (fifo s) data n = Some b \<Longrightarrow>
    spsc_step s (s\<lparr>fifo := (fifo s)\<lparr>buffer := b\<rparr>, writer := Full data n\<rparr>)"
| w_publish: "writer s = Full data n \<Longrightarrow>
    spsc_step s (s\<lparr>fifo := (fifo s)\<lparr>fin := fin (fifo s) + n\<rparr>, writer := Idle,
      accepted := accepted s @ take (unat n) data\<rparr>)"
| r_size: "reader s = Idle \<Longrightarrow> unat len \<le> length dst \<Longrightarrow>
    spsc_step s (s\<lparr>reader := Sized dst (get_len (fifo s) len)\<rparr>)"
| r_first: "reader s = Sized dst n \<Longrightarrow> get_first (fifo s) dst n = Some d \<Longrightarrow>
    spsc_step s (s\<lparr>reader := Half d n\<rparr>)"
| r_second: "reader s = Half dst n \<Longrightarrow> get_second (fifo s) dst n = Some d \<Longrightarrow>
    spsc_step s (s\<lparr>reader := Full d n\<rparr>)"
| r_publish: "reader s = Full dst n \<Longrightarrow>
    spsc_step s (s\<lparr>fifo := (fifo s)\<lparr>fout := fout (fifo s) + n\<rparr>, reader := Idle,
      delivered := delivered s @ take (unat n) dst\<rparr>)"

inductive spsc_reach :: "kfifo \<Rightarrow> spsc \<Rightarrow> bool" for f0 where
  start: "spsc_reach f0 \<lparr>fifo = f0, writer = Idle, reader = Idle, accepted = [], delivered = []\<rparr>"
| step: "spsc_reach f0 s \<Longrightarrow> spsc_step s s' \<Longrightarrow> spsc_reach f0 s'"

inductive_cases spsc_stepE: "spsc_step s s'"

subsection \<open>The invariant\<close>

definition has_room :: "kfifo \<Rightarrow> u8 list \<Rightarrow> u32 \<Rightarrow> bool" where
  "has_room f data n = (unat n + unat (fin f - fout f) \<le> unat (fsize f) \<and> unat n \<le> length data)"

definition has_bytes :: "kfifo \<Rightarrow> u8 list \<Rightarrow> u32 \<Rightarrow> bool" where
  "has_bytes f dst n = (unat n \<le> unat (fin f - fout f) \<and> unat n \<le> length dst)"

fun writer_inv :: "kfifo \<Rightarrow> xfer \<Rightarrow> bool" where
  "writer_inv f Idle = True"
| "writer_inv f (Sized data n) = has_room f data n"
| "writer_inv f (Half data n) = (has_room f data n \<and>
     (\<exists>b. length b = unat (fsize f) \<and> put_first (f\<lparr>buffer := b\<rparr>) data n = Some (buffer f)))"
| "writer_inv f (Full data n) = (has_room f data n \<and>
     around (buffer f) (unat (fsize f)) (unat (fin f)) (unat n) = take (unat n) data)"

fun reader_inv :: "kfifo \<Rightarrow> xfer \<Rightarrow> bool" where
  "reader_inv f Idle = True"
| "reader_inv f (Sized dst n) = has_bytes f dst n"
| "reader_inv f (Half dst n) = (has_bytes f dst n \<and>
     take (unat (get_first_len f n)) dst = take (unat (get_first_len f n)) (contents f))"
| "reader_inv f (Full dst n) = (has_bytes f dst n \<and> take (unat n) dst = take (unat n) (contents f))"

definition spsc_inv :: "spsc \<Rightarrow> bool" where
  "spsc_inv s = (fifo_inv (fifo s) \<and> writer_inv (fifo s) (writer s) \<and> reader_inv (fifo s) (reader s) \<and>
     delivered s @ contents (fifo s) = accepted s)"

text \<open>What a copy of the writer needs and gives.\<close>

lemma put_first_ok:
  assumes "fifo_inv f" and "has_room f data n"
  obtains b where "put_first f data n = Some b" and "length b = unat (fsize f)"
    and "contents (f\<lparr>buffer := b\<rparr>) = contents f"
proof -
  have "unat n + unat (fin f - fout f) \<le> unat (fsize f)" "unat n \<le> length data"
    using assms(2) by (simp_all add: has_room_def)
  then show thesis
    by (rule put_copies[OF assms(1) _ _ refl]) (use that in \<open>auto simp: put_first_def put_first_len_def\<close>)
qed

lemma put_second_ok:
  assumes "fifo_inv f" and "has_room f data n" and "length b0 = unat (fsize f)"
    and "put_first (f\<lparr>buffer := b0\<rparr>) data n = Some (buffer f)"
  obtains b where "put_second f data n = Some b" and "length b = unat (fsize f)"
    and "contents (f\<lparr>buffer := b\<rparr>) = contents f"
    and "around b (unat (fsize f)) (unat (fin f)) (unat n) = take (unat n) data"
proof -
  let ?f = "f\<lparr>buffer := b0\<rparr>"
  have r: "unat n + unat (fin ?f - fout ?f) \<le> unat (fsize ?f)" "unat n \<le> length data"
    using assms(2) by (simp_all add: has_room_def)
  have inv: "fifo_inv ?f" by (rule fifo_inv_buffer[OF assms(1,3)])
  show thesis
    by (rule put_copies[OF inv r refl])
      (use that assms(4) in \<open>auto simp: put_first_def put_second_def put_first_len_def\<close>)
qed

lemma get_first_ok:
  assumes "fifo_inv f" and "has_bytes f dst n"
  obtains d where "get_first f dst n = Some d" and "has_bytes f d n"
    and "take (unat (get_first_len f n)) d = take (unat (get_first_len f n)) (contents f)"
proof -
  have b: "unat n \<le> unat (fin f - fout f)" "unat n \<le> length dst"
    using assms(2) by (simp_all add: has_bytes_def)
  have le: "unat (get_first_len f n) \<le> unat n" by (simp add: get_first_len_def unat_min)
  show thesis
    by (rule get_copies[OF assms(1) b refl])
      (use that b le in \<open>auto simp: get_first_def get_first_len_def has_bytes_def contents_length\<close>)
qed

lemma get_second_ok:
  assumes "fifo_inv f" and "has_bytes f dst n"
    and "take (unat (get_first_len f n)) dst = take (unat (get_first_len f n)) (contents f)"
  obtains d where "get_second f dst n = Some d" and "has_bytes f d n"
    and "take (unat n) d = take (unat n) (contents f)"
proof -
  have b: "unat n \<le> unat (fin f - fout f)" "unat n \<le> length dst"
    using assms(2) by (simp_all add: has_bytes_def)
  have dst: "take (unat (get_first_len f n)) (contents f) @ drop (unat (get_first_len f n)) dst = dst"
    by (simp flip: assms(3))
  show thesis
    by (rule get_copies[OF assms(1) b refl])
      (use that b dst in \<open>auto simp: get_second_def get_first_len_def has_bytes_def contents_length\<close>)
qed

text \<open>What the other side's steps leave alone.\<close>

lemma reader_inv_buffer:
  "contents (f\<lparr>buffer := b\<rparr>) = contents f \<Longrightarrow> reader_inv f r \<Longrightarrow> reader_inv (f\<lparr>buffer := b\<rparr>) r"
  by (cases r) (simp_all add: has_bytes_def get_first_len_def)

lemma reader_inv_advance_in:
  assumes "fifo_inv f" and "has_room f data n" and "reader_inv f r"
  shows "reader_inv (f\<lparr>fin := fin f + n\<rparr>) r"
proof -
  have room: "unat n + unat (fin f - fout f) \<le> unat (fsize f)" using assms(2) by (simp add: has_room_def)
  note c = advance_in(2)[OF assms(1) room]
  have len: "unat (fin f - fout f) \<le> unat (fin f + n - fout f)"
    using arg_cong[OF c, of length] by (simp add: contents_length)
  have tk: "take m (contents (f\<lparr>fin := fin f + n\<rparr>)) = take m (contents f)"
    if "m \<le> unat (fin f - fout f)" for m using that by (simp add: c contents_length)
  have fl: "unat (get_first_len f k) \<le> unat k" for k by (simp add: get_first_len_def unat_min)
  have "get_first_len (f\<lparr>fin := fin f + n\<rparr>) k = get_first_len f k" for k by (simp add: get_first_len_def)
  then show ?thesis using assms(3) len fl order_trans[OF fl] tk
    by (cases r) (auto simp: has_bytes_def)
qed

lemma writer_inv_advance_out:
  assumes "fifo_inv f" and "has_bytes f dst n" and "writer_inv f w"
  shows "writer_inv (f\<lparr>fout := fout f + n\<rparr>) w"
proof -
  have there: "unat n \<le> unat (fin f - fout f)" using assms(2) by (simp add: has_bytes_def)
  have len: "unat (fin f - (fout f + n)) \<le> unat (fin f - fout f)"
    using arg_cong[OF advance_out(2)[OF assms(1) there], of length] by (simp add: contents_length)
  have "put_first (f\<lparr>fout := q, buffer := b\<rparr>) = put_first (f\<lparr>buffer := b\<rparr>)" for q b
    by (simp add: put_first_def put_first_len_def fun_eq_iff)
  then show ?thesis using assms(3) len by (cases w) (auto simp: has_room_def)
qed

lemma put_len_room:
  assumes "fifo_inv f" and "unat len \<le> length data"
  shows "has_room f data (put_len f len)"
proof -
  have "unat (fin f - fout f) \<le> unat (fsize f)" by (rule fifo_invE[OF assms(1)])
  then show ?thesis using free_space[OF assms(1)] assms(2)
    by (simp add: has_room_def put_len_def unat_min capacity_def contents_length) linarith
qed

lemma get_len_bytes: "unat len \<le> length dst \<Longrightarrow> has_bytes f dst (get_len f len)"
  by (simp add: has_bytes_def get_len_def unat_min)

lemma spsc_inv_step:
  assumes "spsc_inv s" and "spsc_step s s'"
  shows "spsc_inv s'"
proof -
  have inv: "fifo_inv (fifo s)" and w: "writer_inv (fifo s) (writer s)" and r: "reader_inv (fifo s) (reader s)"
    and eq: "delivered s @ contents (fifo s) = accepted s"
    using assms(1) by (simp_all add: spsc_inv_def)
  from assms(2) show ?thesis
  proof cases
    case (w_size len data)
    then show ?thesis using assms(1) put_len_room[OF inv] by (simp add: spsc_inv_def)
  next
    case (w_first data n b)
    have room: "has_room (fifo s) data n" using w w_first by simp
    obtain b' where b: "put_first (fifo s) data n = Some b'" "length b' = unat (fsize (fifo s))"
      "contents ((fifo s)\<lparr>buffer := b'\<rparr>) = contents (fifo s)" by (rule put_first_ok[OF inv room])
    have "length (buffer (fifo s)) = unat (fsize (fifo s))" using inv by (simp add: fifo_inv_def)
    then have "writer_inv ((fifo s)\<lparr>buffer := b'\<rparr>) (Half data n)"
      using room b(1) by (auto simp: has_room_def intro!: exI[of _ "buffer (fifo s)"])
    then show ?thesis using w_first b inv eq fifo_inv_buffer reader_inv_buffer[OF b(3) r]
      by (simp add: spsc_inv_def)
  next
    case (w_second data n b)
    have room: "has_room (fifo s) data n" using w w_second by simp
    obtain b0 where b0: "length b0 = unat (fsize (fifo s))"
      "put_first ((fifo s)\<lparr>buffer := b0\<rparr>) data n = Some (buffer (fifo s))" using w w_second by auto
    obtain b' where b: "put_second (fifo s) data n = Some b'" "length b' = unat (fsize (fifo s))"
      "contents ((fifo s)\<lparr>buffer := b'\<rparr>) = contents (fifo s)"
      "around b' (unat (fsize (fifo s))) (unat (fin (fifo s))) (unat n) = take (unat n) data"
      by (rule put_second_ok[OF inv room b0])
    then show ?thesis using w_second inv eq room fifo_inv_buffer reader_inv_buffer[OF b(3) r]
      by (simp add: spsc_inv_def has_room_def)
  next
    case (w_publish data n)
    have room: "has_room (fifo s) data n" "around (buffer (fifo s)) (unat (fsize (fifo s)))
        (unat (fin (fifo s))) (unat n) = take (unat n) data" using w w_publish by auto
    have "unat n + unat (fin (fifo s) - fout (fifo s)) \<le> unat (fsize (fifo s))"
      using room(1) by (simp add: has_room_def)
    from advance_in[OF inv this] show ?thesis
      using w_publish room(2) reader_inv_advance_in[OF inv room(1) r] by (simp add: spsc_inv_def flip: eq)
  next
    case (r_size len dst)
    then show ?thesis using assms(1) get_len_bytes by (simp add: spsc_inv_def)
  next
    case (r_first dst n d)
    have b: "has_bytes (fifo s) dst n" using r r_first by simp
    show ?thesis by (rule get_first_ok[OF inv b]) (use r_first assms(1) in \<open>simp add: spsc_inv_def\<close>)
  next
    case (r_second dst n d)
    have b: "has_bytes (fifo s) dst n" "take (unat (get_first_len (fifo s) n)) dst =
        take (unat (get_first_len (fifo s) n)) (contents (fifo s))" using r r_second by auto
    show ?thesis by (rule get_second_ok[OF inv b]) (use r_second assms(1) in \<open>simp add: spsc_inv_def\<close>)
  next
    case (r_publish dst n)
    have b: "has_bytes (fifo s) dst n" "take (unat n) dst = take (unat n) (contents (fifo s))"
      using r r_publish by auto
    have "unat n \<le> unat (fin (fifo s) - fout (fifo s))" using b(1) by (simp add: has_bytes_def)
    from advance_out[OF inv this] show ?thesis
      using r_publish eq b(2) writer_inv_advance_out[OF inv b(1) w] by (simp add: spsc_inv_def)
  qed
qed

lemma spsc_reach_inv:
  assumes "spsc_reach f0 s" and "fifo_inv f0" and "contents f0 = []"
  shows "spsc_inv s"
  using assms
proof (induction rule: spsc_reach.induct)
  case start
  then show ?case by (simp add: spsc_inv_def)
next
  case (step s s')
  then show ?case by (blast intro: spsc_inv_step)
qed

text \<open>The next copy of either side stays inside the buffers.\<close>

fun copy_ok :: "(u8 list \<Rightarrow> u32 \<Rightarrow> u8 list option) \<Rightarrow> (u8 list \<Rightarrow> u32 \<Rightarrow> u8 list option) \<Rightarrow> xfer \<Rightarrow> bool" where
  "copy_ok first second (Sized d n) = (first d n \<noteq> None)"
| "copy_ok first second (Half d n) = (second d n \<noteq> None)"
| "copy_ok first second _ = True"

text \<open>C37: \<^verbatim>\<open>__kfifo_put\<close> and \<^verbatim>\<open>__kfifo_get\<close> need no lock with one writer and one reader, as their comments
  say: in every state reachable from an empty queue by interleaving the steps of the two in any
  way, what has been delivered followed by what is queued is what has been accepted (nothing is
  lost, duplicated, reordered or overwritten), the queue holds at most its capacity, and the next
  copy of either side stays inside the buffers.\<close>

theorem kfifo_lock_free:
  assumes "spsc_reach f0 s" and "fifo_inv f0" and "contents f0 = []"
  shows "delivered s @ contents (fifo s) = accepted s \<and>
     length (contents (fifo s)) \<le> capacity (fifo s) \<and>
     copy_ok (put_first (fifo s)) (put_second (fifo s)) (writer s) \<and>
     copy_ok (get_first (fifo s)) (get_second (fifo s)) (reader s)"
proof -
  have inv: "fifo_inv (fifo s)" and w: "writer_inv (fifo s) (writer s)" and r: "reader_inv (fifo s) (reader s)"
    and eq: "delivered s @ contents (fifo s) = accepted s"
    using spsc_reach_inv[OF assms] by (simp_all add: spsc_inv_def)
  have "copy_ok (put_first (fifo s)) (put_second (fifo s)) (writer s)"
    using w by (cases "writer s") (auto elim: put_first_ok[OF inv] put_second_ok[OF inv])
  moreover have "copy_ok (get_first (fifo s)) (get_second (fifo s)) (reader s)"
    using r by (cases "reader s") (auto elim: get_first_ok[OF inv] get_second_ok[OF inv])
  moreover have "length (contents (fifo s)) \<le> capacity (fifo s)"
    using inv by (simp add: fifo_inv_def contents_length capacity_def word_le_nat_alt)
  ultimately show ?thesis using eq by simp
qed

theorem kfifo_lock_free_witness:
  "copy_ok (put_first demo_fifo) (put_second demo_fifo) (Sized [1, 2, 3] 3)"
proof -
  let ?s = "\<lparr>fifo = demo_fifo, writer = Idle, reader = Idle, accepted = [], delivered = []\<rparr>"
  have inv: "fifo_inv demo_fifo" "contents demo_fifo = []" by code_simp+
  have "spsc_step ?s (?s\<lparr>writer := Sized [1, 2, 3] (put_len (fifo ?s) 3)\<rparr>)"
    by (rule spsc_step.w_size) simp_all
  moreover have "put_len demo_fifo 3 = 3" by code_simp
  ultimately have "spsc_reach demo_fifo (?s\<lparr>writer := Sized [1, 2, 3] 3\<rparr>)"
    using spsc_reach.step[OF spsc_reach.start] by simp
  from kfifo_lock_free[OF this inv] show ?thesis by simp
qed

end
