(* ===== verification/KSort.thy ===== *)
theory KSort
  imports Prelude "HOL-Library.Multiset"
begin

text \<open>
  The kernel's in-place heapsort, \<^verbatim>\<open>lib/sort.c\<close>. The array is a list of elements; as in the code all
  counters are byte offsets, multiples of the element size, and \<open>elem\<close> and \<open>swap_el\<close> work at
  such offsets. The two default swap routines work on bytes and are modelled as such; they exchange
  two elements. The counters are \<open>int\<close>s in the code, so that its arithmetic is exact for arrays of
  up to \<open>2^30\<close> bytes; \<open>i\<close> and \<open>n\<close> get their first values through 64 bits.
\<close>

subsection \<open>Swapping\<close>

definition u32_swap :: "u8 list \<Rightarrow> nat \<Rightarrow> nat \<Rightarrow> u8 list" where
  "u32_swap m a b =
     (let t = take 4 (drop a m);
          m = take a m @ take 4 (drop b m) @ drop (a + 4) m
      in take b m @ t @ drop (b + 4) m)"

fun generic_swap :: "u8 list \<Rightarrow> nat \<Rightarrow> nat \<Rightarrow> nat \<Rightarrow> u8 list" where
  "generic_swap m a b n =
     (let t = m ! a; m = m[a := m ! b]; m = m[b := t]
      in if 1 < n then generic_swap m (a + 1) (b + 1) (n - 1) else m)"

declare generic_swap.simps [simp del]

subsection \<open>Sorting\<close>

definition elem :: "'a list \<Rightarrow> nat \<Rightarrow> nat \<Rightarrow> 'a" where
  "elem a sz off = a ! (off div sz)"

definition swap_el :: "'a list \<Rightarrow> nat \<Rightarrow> nat \<Rightarrow> nat \<Rightarrow> 'a list" where
  "swap_el a sz x y = a[x div sz := elem a sz y, y div sz := elem a sz x]"

text \<open>The inner loop, the same in both halves: \<open>n\<close> is the offset where the heap ends. The size is
  not zero where it is used.\<close>

function sift :: "('a \<Rightarrow> 'a \<Rightarrow> int) \<Rightarrow> nat \<Rightarrow> nat \<Rightarrow> nat \<Rightarrow> 'a list \<Rightarrow> 'a list" where
  "sift cmp sz n r a =
     (if 0 < sz \<and> r * 2 + sz < n then
        let c = r * 2 + sz;
            c = (if c < n - sz \<and> cmp (elem a sz c) (elem a sz (c + sz)) < 0 then c + sz else c)
        in if 0 \<le> cmp (elem a sz r) (elem a sz c) then a
           else sift cmp sz n c (swap_el a sz r c)
      else a)"
  by pat_completeness auto
termination
  by (relation "measure (\<lambda>(cmp, sz, n, r, a). n - r)") (auto simp: Let_def)

declare sift.simps [simp del]

text \<open>The two outer loops, for a positive size.\<close>

function heapify :: "('a \<Rightarrow> 'a \<Rightarrow> int) \<Rightarrow> nat \<Rightarrow> nat \<Rightarrow> int \<Rightarrow> 'a list \<Rightarrow> 'a list" where
  "heapify cmp sz n i a =
     (if 0 \<le> i \<and> 0 < sz then heapify cmp sz n (i - int sz) (sift cmp sz n (nat i) a) else a)"
  by pat_completeness auto
termination
  by (relation "measure (\<lambda>(cmp, sz, n, i, a). nat (i + 1))") auto

function sort_down :: "('a \<Rightarrow> 'a \<Rightarrow> int) \<Rightarrow> nat \<Rightarrow> int \<Rightarrow> 'a list \<Rightarrow> 'a list" where
  "sort_down cmp sz i a =
     (if 0 \<le> i \<and> 0 < sz
      then sort_down cmp sz (i - int sz) (sift cmp sz (nat i) 0 (swap_el a sz 0 (nat i))) else a)"
  by pat_completeness auto
termination
  by (relation "measure (\<lambda>(cmp, sz, i, a). nat (i + 1))") auto

declare heapify.simps [simp del] sort_down.simps [simp del]

text \<open>With elements of size zero the first loop never ends if it is entered.\<close>

definition sort_array :: "('a \<Rightarrow> 'a \<Rightarrow> int) \<Rightarrow> u64 \<Rightarrow> u64 \<Rightarrow> 'a list \<Rightarrow> 'a list option" where
  "sort_array cmp num sz a =
     (let i = sint (ucast ((num div 2 - 1) * sz) :: s32);
          n = sint (ucast (num * sz) :: s32)
      in if sz = 0 then None
         else let a = heapify cmp (unat sz) (nat n) i a
              in Some (sort_down cmp (unat sz) (n - int (unat sz)) a))"

subsection \<open>The swap routines exchange two elements\<close>

definition exchanged :: "u8 list \<Rightarrow> nat \<Rightarrow> nat \<Rightarrow> nat \<Rightarrow> nat \<Rightarrow> u8" where
  "exchanged m a b n p =
     (if a \<le> p \<and> p < a + n then m ! (b + (p - a))
      else if b \<le> p \<and> p < b + n then m ! (a + (p - b)) else m ! p)"

lemma generic_swap_spec:
  assumes "0 < n" and "a + n \<le> length m" and "b + n \<le> length m" and "a = b \<or> a + n \<le> b \<or> b + n \<le> a"
  shows "length (generic_swap m a b n) = length m"
    and "p < length m \<Longrightarrow> generic_swap m a b n ! p = exchanged m a b n p"
proof -
  have "length (generic_swap m a b n) = length m \<and> (\<forall>p<length m. generic_swap m a b n ! p = exchanged m a b n p)"
    using assms
  proof (induction m a b n rule: generic_swap.induct)
    case (1 m a b n)
    let ?m = "m[a := m ! b, b := m ! a]"
    note prems = 1(2-5)
    show ?case
    proof (cases "1 < n")
      case True
      have "length (generic_swap ?m (a + 1) (b + 1) (n - 1)) = length ?m \<and>
        (\<forall>p<length ?m. generic_swap ?m (a + 1) (b + 1) (n - 1) ! p = exchanged ?m (a + 1) (b + 1) (n - 1) p)"
        by (rule 1(1)[OF refl refl refl True]) (use True prems in auto)
      note ih = this[unfolded exchanged_def]
      have e: "generic_swap m a b n = generic_swap ?m (a + 1) (b + 1) (n - 1)"
        using True by (subst generic_swap.simps) simp
      have upd: "?m ! q = (if q = b then m ! a else if q = a then m ! b else m ! q)" if "q < length m" for q
        using that by (simp add: nth_list_update)
      have "generic_swap ?m (a + 1) (b + 1) (n - 1) ! p = exchanged m a b n p" if p: "p < length m" for p
      proof -
        consider "a < p" "p < a + n" | "\<not> (a < p \<and> p < a + n)" "b < p" "p < b + n"
          | "\<not> (a < p \<and> p < a + n)" "\<not> (b < p \<and> p < b + n)" by linarith
        then show ?thesis
        proof cases
          case 1
          then have "b + (p - a) \<noteq> b" "b + (p - a) \<noteq> a" "b + (p - a) < length m"
            using prems by linarith+
          moreover have "b + 1 + (p - (a + 1)) = b + (p - a)" using 1 by linarith
          moreover have "a + 1 \<le> p \<and> p < a + 1 + (n - 1)" using 1 by linarith
          ultimately show ?thesis using ih p 1 upd by (simp add: exchanged_def)
        next
          case 2
          then have ab: "a \<noteq> b" by linarith
          then have "p \<noteq> a" "a + (p - b) \<noteq> b" "a + (p - b) \<noteq> a" "a + (p - b) < length m"
            using 2 prems by linarith+
          then have m: "?m ! (a + (p - b)) = m ! (a + (p - b))" using upd by simp
          have eq: "a + 1 + (p - (b + 1)) = a + (p - b)" using 2 by linarith
          have c: "b + 1 \<le> p \<and> p < b + 1 + (n - 1)" "\<not> (a + 1 \<le> p \<and> p < a + 1 + (n - 1))"
            "\<not> (a \<le> p \<and> p < a + n)" "b \<le> p \<and> p < b + n" using 2 \<open>p \<noteq> a\<close> by linarith+
          have "p < length ?m" using p by simp
          then have "generic_swap ?m (a + 1) (b + 1) (n - 1) ! p = m ! (a + (p - b))"
            using ih[THEN conjunct2, rule_format, of p] unfolding if_not_P[OF c(2)] if_P[OF c(1)] eq m by blast
          then show ?thesis unfolding exchanged_def if_not_P[OF c(3)] if_P[OF c(4)] .
        next
          case 3
          then have c: "\<not> (a + 1 \<le> p \<and> p < a + 1 + (n - 1))" "\<not> (b + 1 \<le> p \<and> p < b + 1 + (n - 1))"
            by linarith+
          have "p < length ?m" using p by simp
          then have g: "generic_swap ?m (a + 1) (b + 1) (n - 1) ! p = ?m ! p"
            using ih[THEN conjunct2, rule_format, of p] unfolding if_not_P[OF c(1)] if_not_P[OF c(2)] by blast
          have "p = a \<or> \<not> (a \<le> p \<and> p < a + n)" "p = b \<or> \<not> (b \<le> p \<and> p < b + n)" using 3 by linarith+
          then show ?thesis unfolding g using upd[OF p] prems by (auto simp: exchanged_def)
        qed
      qed
      then show ?thesis unfolding e using ih by simp
    next
      case False
      then have n: "n = 1" using prems by simp
      have e: "generic_swap m a b n = ?m" using n by (subst generic_swap.simps) simp
      show ?thesis unfolding e using n prems by (auto simp: nth_list_update exchanged_def)
    qed
  qed
  then show "length (generic_swap m a b n) = length m"
    and "p < length m \<Longrightarrow> generic_swap m a b n ! p = exchanged m a b n p" by simp_all
qed

lemma patch_nth:
  "off + length t \<le> length m \<Longrightarrow> q < length m \<Longrightarrow>
     (take off m @ t @ drop (off + length t) m) ! q =
     (if off \<le> q \<and> q < off + length t then t ! (q - off) else m ! q)"
  by (auto simp: nth_append)

text \<open>So does the version for four bytes, in the same way.\<close>

lemma u32_swap_generic:
  assumes "a + 4 \<le> length m" and "b + 4 \<le> length m" and "a = b \<or> a + 4 \<le> b \<or> b + 4 \<le> a"
  shows "u32_swap m a b = generic_swap m a b 4"
proof (rule nth_equalityI)
  have g: "length (generic_swap m a b 4) = length m"
    "\<And>p. p < length m \<Longrightarrow> generic_swap m a b 4 ! p = exchanged m a b 4 p"
    using generic_swap_spec[of 4 a m b] assms by simp_all
  show len: "length (u32_swap m a b) = length (generic_swap m a b 4)"
    using g(1) assms by (simp add: u32_swap_def)
  fix p assume "p < length (u32_swap m a b)"
  then have p: "p < length m" using len g(1) by simp
  let ?m = "take a m @ take 4 (drop b m) @ drop (a + 4) m"
  have len1: "length ?m = length m" using assms by simp
  have n1: "?m ! q = (if a \<le> q \<and> q < a + 4 then m ! (b + (q - a)) else m ! q)" if "q < length m" for q
    using patch_nth[of a "take 4 (drop b m)" m q] that assms(1,2) by auto
  have n2: "u32_swap m a b ! q = (if b \<le> q \<and> q < b + 4 then m ! (a + (q - b)) else ?m ! q)"
    if "q < length m" for q
    using patch_nth[of b "take 4 (drop a m)" ?m q] that assms(1,2) len1
    unfolding u32_swap_def Let_def by auto
  have "u32_swap m a b ! p = exchanged m a b 4 p"
    unfolding n2[OF p] exchanged_def using n1[OF p] assms(3) by auto
  then show "u32_swap m a b ! p = generic_swap m a b 4 ! p" by (simp only: g(2)[OF p])
qed

subsection \<open>Offsets and indices\<close>

text \<open>With elements of size one, offsets are indices; any other size only scales them.\<close>

abbreviation swap_ix :: "'a list \<Rightarrow> nat \<Rightarrow> nat \<Rightarrow> 'a list" where
  "swap_ix a x y \<equiv> a[x := a ! y, y := a ! x]"

lemma elem_scale [simp]: "0 < sz \<Longrightarrow> elem a sz (k * sz) = a ! k"
  by (simp add: elem_def)

lemma swap_el_scale [simp]: "0 < sz \<Longrightarrow> swap_el a sz (x * sz) (y * sz) = swap_ix a x y"
  by (simp add: swap_el_def)

definition child :: "('a \<Rightarrow> 'a \<Rightarrow> int) \<Rightarrow> nat \<Rightarrow> nat \<Rightarrow> 'a list \<Rightarrow> nat" where
  "child cmp n r a = (if 2 * r + 2 < n \<and> cmp (a ! (2 * r + 1)) (a ! (2 * r + 2)) < 0 then 2 * r + 2 else 2 * r + 1)"

lemma sift_scale:
  assumes "0 < sz"
  shows "sift cmp sz (n * sz) (r * sz) a =
    (if 2 * r + 1 < n
     then if 0 \<le> cmp (a ! r) (a ! child cmp n r a) then a
          else sift cmp sz (n * sz) (child cmp n r a * sz) (swap_ix a r (child cmp n r a))
     else a)"
proof -
  have c1: "r * sz * 2 + sz = (2 * r + 1) * sz" "(2 * r + 1) * sz + sz = (2 * r + 2) * sz"
    by (simp_all add: algebra_simps)
  have c2: "(2 * r + 1) * sz < n * sz \<longleftrightarrow> 2 * r + 1 < n" using assms by (simp only: mult_less_cancel2 simp_thms)
  have "n * sz - sz = (n - 1) * sz" by (simp add: diff_mult_distrib)
  then have c3: "(2 * r + 1) * sz < n * sz - sz \<longleftrightarrow> 2 * r + 2 < n"
    using assms by (simp only: mult_less_cancel2 simp_thms) auto
  have ch: "(if (2 * r + 1) * sz < n * sz - sz \<and> cmp (a ! (2 * r + 1)) (a ! (2 * r + 2)) < 0
      then (2 * r + 2) * sz else (2 * r + 1) * sz) = child cmp n r a * sz"
    unfolding c3 by (simp add: child_def)
  show ?thesis
    by (subst sift.simps) (simp only: Let_def c1 c2 ch elem_scale[OF assms] swap_el_scale[OF assms] assms simp_thms)
qed

lemma child_bounds: "2 * r + 1 < n \<Longrightarrow> r < child cmp n r a \<and> child cmp n r a < n"
  by (auto simp: child_def)

subsection \<open>Comparison functions\<close>

text \<open>What the routine needs of the comparison: a total preorder, as the sign of a number.\<close>

locale comparison =
  fixes cmp :: "'a \<Rightarrow> 'a \<Rightarrow> int"
  assumes flip: "cmp x y < 0 \<longleftrightarrow> 0 < cmp y x"
    and trans: "cmp x y \<le> 0 \<Longrightarrow> cmp y z \<le> 0 \<Longrightarrow> cmp x z \<le> 0"
begin

lemma refl_0: "cmp x x = 0"
  using flip[of x x] by linarith

lemma ge_iff: "0 \<le> cmp x y \<longleftrightarrow> cmp y x \<le> 0"
  using flip[of x y] by linarith

lemma total: "cmp x y \<le> 0 \<or> cmp y x \<le> 0"
  using flip[of x y] by linarith

text \<open>Node \<open>k\<close> is not less than its children below \<open>n\<close>; so are all nodes from \<open>lo\<close> on, but \<open>r\<close>.\<close>

definition node_ok :: "'a list \<Rightarrow> nat \<Rightarrow> nat \<Rightarrow> bool" where
  "node_ok a n k = (\<forall>c. c = 2 * k + 1 \<or> c = 2 * k + 2 \<longrightarrow> c < n \<longrightarrow> cmp (a ! c) (a ! k) \<le> 0)"

definition heap_from :: "'a list \<Rightarrow> nat \<Rightarrow> nat \<Rightarrow> bool" where
  "heap_from a n lo = (\<forall>k. lo \<le> k \<longrightarrow> node_ok a n k)"

definition heap_but :: "'a list \<Rightarrow> nat \<Rightarrow> nat \<Rightarrow> nat \<Rightarrow> bool" where
  "heap_but a n lo r = ((\<forall>k. lo \<le> k \<longrightarrow> k \<noteq> r \<longrightarrow> node_ok a n k) \<and>
     (\<forall>p c. lo \<le> p \<longrightarrow> (r = 2 * p + 1 \<or> r = 2 * p + 2) \<longrightarrow> (c = 2 * r + 1 \<or> c = 2 * r + 2) \<longrightarrow> c < n \<longrightarrow>
        cmp (a ! c) (a ! p) \<le> 0))"

lemma child_max:
  assumes "2 * r + 1 < n" and "c = 2 * r + 1 \<or> c = 2 * r + 2" and "c < n"
  shows "cmp (a ! c) (a ! child cmp n r a) \<le> 0"
  using assms refl_0 flip[of "a ! (2 * r + 1)" "a ! (2 * r + 2)"] by (auto simp: child_def)

lemma heap_but_done:
  assumes "heap_but a n lo r" and "lo \<le> r"
    and "2 * r + 1 < n \<Longrightarrow> 0 \<le> cmp (a ! r) (a ! child cmp n r a)"
  shows "heap_from a n lo"
proof -
  have "node_ok a n r"
    unfolding node_ok_def
  proof (intro allI impI)
    fix c assume c: "c = 2 * r + 1 \<or> c = 2 * r + 2" "c < n"
    then have lt: "2 * r + 1 < n" by linarith
    have "cmp (a ! child cmp n r a) (a ! r) \<le> 0" using assms(3)[OF lt] by (simp add: ge_iff)
    then show "cmp (a ! c) (a ! r) \<le> 0" using child_max[OF lt c] trans by blast
  qed
  then show ?thesis using assms(1) by (auto simp: heap_from_def heap_but_def)
qed

lemma heap_but_step:
  assumes h: "heap_but a n lo r" and lo: "lo \<le> r" and lt: "2 * r + 1 < n" and n: "n \<le> length a"
    and less: "cmp (a ! r) (a ! child cmp n r a) < 0"
  shows "heap_but (swap_ix a r (child cmp n r a)) n lo (child cmp n r a)"
proof -
  define c where "c = child cmp n r a"
  define b where "b = swap_ix a r c"
  have c: "c = 2 * r + 1 \<or> c = 2 * r + 2" by (simp add: c_def child_def)
  have cb: "r < c" "c < n" using child_bounds[OF lt, of cmp a] by (simp_all add: c_def)
  have b: "b ! k = (if k = c then a ! r else if k = r then a ! c else a ! k)" if "k < n" for k
    using that cb n by (simp add: b_def nth_list_update)
  have top: "cmp (a ! d) (a ! c) \<le> 0" if "d = 2 * r + 1 \<or> d = 2 * r + 2" "d < n" for d
    using child_max[OF lt that] by (simp add: c_def)
  have rc: "cmp (a ! r) (a ! c) \<le> 0" using less by (simp add: c_def)
  have "node_ok b n k" if k: "lo \<le> k" "k \<noteq> c" for k
    unfolding node_ok_def
  proof (intro allI impI)
    fix d assume d: "d = 2 * k + 1 \<or> d = 2 * k + 2" "d < n"
    have kn: "k < n" "k \<noteq> d" using d by linarith+
    show "cmp (b ! d) (b ! k) \<le> 0"
    proof (cases "k = r")
      case True
      then show ?thesis using d top[of d] rc cb b[of d] b[of r] by auto
    next
      case False
      then have ok: "cmp (a ! d) (a ! k) \<le> 0" using h k(1) d by (auto simp: heap_but_def node_ok_def)
      have "d \<noteq> c" using c d False by presburger
      then show ?thesis
      proof (cases "d = r")
        case True
        then have "cmp (a ! c) (a ! k) \<le> 0" using h k(1) d c cb by (auto simp: heap_but_def)
        then show ?thesis using True b[of d] b[of k] kn False k(2) cb by simp
      next
        case dr: False
        then show ?thesis using ok b[of d] b[of k] kn False k(2) \<open>d \<noteq> c\<close> d(2) by simp
      qed
    qed
  qed
  moreover have "cmp (b ! d) (b ! p) \<le> 0"
    if p: "lo \<le> p" "c = 2 * p + 1 \<or> c = 2 * p + 2" and d: "d = 2 * c + 1 \<or> d = 2 * c + 2" "d < n" for p d
  proof -
    have "p = r" using p(2) c by presburger
    moreover have "cmp (a ! d) (a ! c) \<le> 0" using h lo cb d by (auto simp: heap_but_def node_ok_def)
    moreover have "d \<noteq> c" "d \<noteq> r" "r \<noteq> c" using d cb by linarith+
    ultimately show ?thesis using b[of d] b[of r] cb d by simp
  qed
  ultimately show ?thesis unfolding heap_but_def b_def[symmetric] c_def[symmetric] by blast
qed

lemma sift_heap:
  assumes "heap_but a n lo r" and "lo \<le> r" and "n \<le> length a" and sz: "0 < sz"
  shows "heap_from (sift cmp sz (n * sz) (r * sz) a) n lo \<and>
     mset (sift cmp sz (n * sz) (r * sz) a) = mset a \<and>
     drop n (sift cmp sz (n * sz) (r * sz) a) = drop n a"
  using assms(1-3)
proof (induction "n - r" arbitrary: a r rule: less_induct)
  case less
  note unfold = sift_scale[OF sz, of cmp n r a]
  show ?case
  proof (cases "2 * r + 1 < n \<and> cmp (a ! r) (a ! child cmp n r a) < 0")
    case False
    then have e: "sift cmp sz (n * sz) (r * sz) a = a" by (subst unfold) auto
    have "heap_from a n lo" using heap_but_done[OF less.prems(1,2)] False by auto
    then show ?thesis by (simp add: e)
  next
    case True
    define c where "c = child cmp n r a"
    have cb: "r < c" "c < n" using child_bounds[of r n cmp a] True by (simp_all add: c_def)
    have e: "sift cmp sz (n * sz) (r * sz) a = sift cmp sz (n * sz) (c * sz) (swap_ix a r c)"
      using True by (subst unfold) (simp add: c_def)
    have hb: "heap_but (swap_ix a r c) n lo c"
      using heap_but_step[OF less.prems(1,2) _ less.prems(3)] True by (simp add: c_def)
    have "mset (swap_ix a r c) = mset a" using cb less.prems(3) by (intro mset_swap) auto
    moreover have "drop n (swap_ix a r c) = drop n a" using cb by simp
    moreover have "heap_from (sift cmp sz (n * sz) (c * sz) (swap_ix a r c)) n lo \<and>
       mset (sift cmp sz (n * sz) (c * sz) (swap_ix a r c)) = mset (swap_ix a r c) \<and>
       drop n (sift cmp sz (n * sz) (c * sz) (swap_ix a r c)) = drop n (swap_ix a r c)"
      by (rule less.hyps[OF _ hb]) (use cb less.prems in auto)
    ultimately show ?thesis by (simp add: e)
  qed
qed

lemma heapify_heap:
  assumes "heap_from a n k" and "n \<le> length a" and sz: "0 < sz"
  shows "heap_from (heapify cmp sz (n * sz) ((int k - 1) * int sz) a) n 0 \<and>
     mset (heapify cmp sz (n * sz) ((int k - 1) * int sz) a) = mset a"
  using assms(1,2)
proof (induction k arbitrary: a)
  case 0
  have "heapify cmp sz (n * sz) ((int 0 - 1) * int sz) a = a" using sz by (subst heapify.simps) simp
  then show ?case using 0 by simp
next
  case (Suc k)
  let ?b = "sift cmp sz (n * sz) (k * sz) a"
  have e: "heapify cmp sz (n * sz) ((int (Suc k) - 1) * int sz) a =
      heapify cmp sz (n * sz) ((int k - 1) * int sz) ?b"
    using sz by (subst heapify.simps) (simp add: algebra_simps nat_mult_distrib)
  have "heap_but a n k k" using Suc.prems(1) by (auto simp: heap_from_def heap_but_def)
  then have b: "heap_from ?b n k" "mset ?b = mset a" using sift_heap[OF _ order_refl Suc.prems(2) sz] by auto
  then have "n \<le> length ?b" using Suc.prems(2) by (metis size_mset)
  then show ?case using Suc.IH[OF b(1)] b(2) by (simp add: e del: of_nat_Suc)
qed

lemma heap_root_max:
  assumes "heap_from a n 0" and "j < n"
  shows "cmp (a ! j) (a ! 0) \<le> 0"
  using assms(2)
proof (induction j rule: less_induct)
  case (less j)
  show ?case
  proof (cases j)
    case 0
    then show ?thesis by (simp add: refl_0)
  next
    case (Suc i)
    define p where "p = (j - 1) div 2"
    have p: "j = 2 * p + 1 \<or> j = 2 * p + 2" "p < j" "p < n"
      using Suc less.prems by (auto simp: p_def)
    have "cmp (a ! j) (a ! p) \<le> 0" using assms(1) p(1) less.prems by (auto simp: heap_from_def node_ok_def)
    then show ?thesis using less.IH[OF p(2,3)] trans by blast
  qed
qed

abbreviation le :: "'a \<Rightarrow> 'a \<Rightarrow> bool" where
  "le x y \<equiv> cmp x y \<le> 0"

definition split_at :: "'a list \<Rightarrow> nat \<Rightarrow> bool" where
  "split_at a k = (sorted_wrt le (drop k a) \<and> (\<forall>x\<in>set (take k a). \<forall>y\<in>set (drop k a). le x y))"

lemma take_set_of_drop:
  assumes "mset b = mset a" and "drop k b = drop k a"
  shows "set (take k b) = set (take k a)"
proof -
  have "mset (take k b) + mset (drop k b) = mset (take k a) + mset (drop k a)"
    using assms(1) by (simp only: flip: mset_append append_take_drop_id) simp
  then show ?thesis using assms(2) by (metis add_right_cancel mset_eq_setD)
qed

lemma extract_max:
  assumes h: "heap_from a (Suc k) 0" and k: "Suc k \<le> length a" and sp: "split_at a (Suc k)" and sz: "0 < sz"
  shows "heap_from (sift cmp sz (k * sz) (0 * sz) (swap_ix a 0 k)) k 0 \<and>
     mset (sift cmp sz (k * sz) (0 * sz) (swap_ix a 0 k)) = mset a \<and>
     split_at (sift cmp sz (k * sz) (0 * sz) (swap_ix a 0 k)) k"
proof -
  define s where "s = swap_ix a 0 k"
  define b where "b = sift cmp sz (k * sz) (0 * sz) s"
  have "0 < length a" using k by linarith
  then have s: "s ! j = (if j = k then a ! 0 else if j = 0 then a ! k else a ! j)" if "j \<le> k" for j
    using that k by (simp add: s_def nth_list_update)
  have ms: "mset s = mset a" unfolding s_def using k by (intro mset_swap) auto
  have len: "k \<le> length s" using k by (simp add: s_def)
  have "node_ok s k j" if "j \<noteq> 0" for j
    using h that s by (auto simp: node_ok_def heap_from_def)
  then have "heap_but s k 0 0" by (auto simp: heap_but_def)
  from sift_heap[OF this _ len sz] have b: "heap_from b k 0" "mset b = mset s" "drop k b = drop k s"
    by (simp_all add: b_def)
  have ds: "drop k s = a ! 0 # drop (Suc k) a"
  proof -
    have "drop k s = s ! k # drop (Suc k) s" using k by (intro Cons_nth_drop_Suc[symmetric]) (simp add: s_def)
    then show ?thesis using s[of k] by (simp add: s_def)
  qed
  have "a ! 0 \<in> set (take (Suc k) a)" using k by (auto simp: in_set_conv_nth)
  then have top: "\<forall>y\<in>set (drop (Suc k) a). le (a ! 0) y" using sp by (simp add: split_at_def)
  have low: "le x (a ! 0) \<and> (\<forall>y\<in>set (drop (Suc k) a). le x y)" if "x \<in> set (take k s)" for x
  proof -
    obtain j where j: "j < k" "x = s ! j" using \<open>x \<in> set (take k s)\<close> len by (auto simp: in_set_conv_nth)
    obtain i where i: "i < Suc k" "x = a ! i"
    proof (cases "j = 0")
      case True
      then show thesis using that[of k] s[of j] j by simp
    next
      case False
      then show thesis using that[of j] s[of j] j by simp
    qed
    then have "x \<in> set (take (Suc k) a)" using k by (auto simp: in_set_conv_nth)
    then show ?thesis using heap_root_max[OF h i(1)] i(2) sp by (simp add: split_at_def)
  qed
  have "split_at b k"
    using top low sp take_set_of_drop[OF b(2,3)] by (simp add: split_at_def b(3) ds)
  then show ?thesis using b ms by (simp add: b_def s_def)
qed

lemma sort_down_sorted:
  assumes "heap_from a k 0" and "k \<le> length a" and "split_at a k" and sz: "0 < sz"
  shows "sorted_wrt le (sort_down cmp sz ((int k - 1) * int sz) a) \<and>
     mset (sort_down cmp sz ((int k - 1) * int sz) a) = mset a"
  using assms(1-3)
proof (induction k arbitrary: a)
  case 0
  have "sort_down cmp sz ((int 0 - 1) * int sz) a = a" using sz by (subst sort_down.simps) simp
  then show ?case using 0 by (simp add: split_at_def)
next
  case (Suc k)
  let ?b = "sift cmp sz (k * sz) (0 * sz) (swap_ix a 0 k)"
  have e: "sort_down cmp sz ((int (Suc k) - 1) * int sz) a = sort_down cmp sz ((int k - 1) * int sz) ?b"
    using sz swap_el_scale[OF sz, of a 0 k]
    by (subst sort_down.simps) (simp add: algebra_simps nat_mult_distrib)
  have b: "heap_from ?b k 0" "mset ?b = mset a" "split_at ?b k" using extract_max[OF Suc.prems sz] by auto
  then have "k \<le> length ?b" using Suc.prems(2) by (metis Suc_leD size_mset)
  then show ?case using Suc.IH[OF b(1) _ b(3)] b(2) by (simp add: e del: of_nat_Suc mult_0)
qed

theorem heapsort_sorts:
  assumes sz: "0 < sz" and n: "length a = n"
  shows "sorted_wrt le (sort_down cmp sz ((int n - 1) * int sz) (heapify cmp sz (n * sz) ((int (n div 2) - 1) * int sz) a)) \<and>
     mset (sort_down cmp sz ((int n - 1) * int sz) (heapify cmp sz (n * sz) ((int (n div 2) - 1) * int sz) a)) = mset a"
proof -
  let ?b = "heapify cmp sz (n * sz) ((int (n div 2) - 1) * int sz) a"
  have "heap_from a n (n div 2)" by (auto simp: heap_from_def node_ok_def)
  then have b: "heap_from ?b n 0" "mset ?b = mset a" using heapify_heap[OF _ _ sz] n by auto
  then have "length ?b = n" using n by (metis size_mset)
  then show ?thesis using sort_down_sorted[OF b(1) _ _ sz] b(2) by (simp add: split_at_def)
qed

end

subsection \<open>The routine\<close>

lemma sint_of_int_s32:
  assumes "- (2 ^ 31) \<le> i" and "i < 2 ^ 31"
  shows "sint (ucast (of_int i :: u64) :: s32) = i"
proof -
  have "(ucast (of_int i :: u64) :: s32) = of_int i"
    by (rule bit_word_eqI) (simp add: bit_simps)
  moreover have "signed_take_bit 31 i = i" using assms by (intro signed_take_bit_int_eq_self) simp_all
  ultimately show ?thesis by (simp only: sint_sbintrunc') simp
qed

lemma first_counters:
  assumes "unat num * unat sz \<le> 2 ^ 30" and "unat sz \<le> 2 ^ 30"
  shows "sint (ucast ((num div 2 - 1) * sz :: u64) :: s32) = (int (unat num div 2) - 1) * int (unat sz)"
    and "sint (ucast (num * sz) :: s32) = int (unat num * unat sz)"
proof -
  let ?k = "unat num div 2"
  let ?i = "(int ?k - 1) * int (unat sz)"
  have p: "(2::nat) ^ 30 = 1073741824" "(2::int) ^ 31 = 2147483648" by simp_all
  have "?k * unat sz \<le> unat num * unat sz" by (intro mult_le_mono1) simp
  then have "int (?k * unat sz) \<le> 1073741824" using assms(1) unfolding p by linarith
  moreover have "?i = int (?k * unat sz) - int (unat sz)" by (simp add: algebra_simps)
  moreover have "int (unat sz) \<le> 1073741824" using assms(2) unfolding p by linarith
  moreover have "0 \<le> int (?k * unat sz)" "0 \<le> int (unat sz)" by (rule of_nat_0_le_iff)+
  ultimately have b: "- (2 ^ 31) \<le> ?i" "?i < 2 ^ 31" unfolding p by linarith+
  have u: "unat (num div 2) = ?k" by (simp add: unat_div)
  have "of_nat (unat (num div 2)) = num div 2" by simp
  then have "num div 2 = of_nat ?k" unfolding u by (rule sym)
  then have "(num div 2 - 1) * sz = of_int ?i" by simp
  then show "sint (ucast ((num div 2 - 1) * sz :: u64) :: s32) = ?i"
    using sint_of_int_s32[OF b] by simp
  have "num * sz = of_int (int (unat num * unat sz))" by simp
  moreover have "int (unat num * unat sz) < 2 ^ 31" "- (2 ^ 31) \<le> int (unat num * unat sz)"
    using assms(1) unfolding p by linarith+
  ultimately show "sint (ucast (num * sz) :: s32) = int (unat num * unat sz)"
    using sint_of_int_s32 by metis
qed

lemma sort_array_main:
  assumes "comparison cmp" and "length a = unat num" and "0 < unat sz" and "unat sz \<le> 2 ^ 30"
    and "unat num * unat sz \<le> 2 ^ 30"
  shows "\<exists>b. sort_array cmp num sz a = Some b \<and> sorted_wrt (\<lambda>x y. cmp x y \<le> 0) b \<and> mset b = mset a"
proof -
  note c = first_counters[OF assms(5,4)]
  have e: "int (unat num * unat sz) - int (unat sz) = (int (unat num) - 1) * int (unat sz)"
    by (simp add: algebra_simps)
  have "sz \<noteq> 0" using assms(3) by auto
  then have "sort_array cmp num sz a = Some (sort_down cmp (unat sz) ((int (unat num) - 1) * int (unat sz))
      (heapify cmp (unat sz) (unat num * unat sz) ((int (unat num div 2) - 1) * int (unat sz)) a))"
    by (simp only: sort_array_def Let_def c e if_False nat_int)
  then show ?thesis using comparison.heapsort_sorts[OF assms(1,3,2)] by simp
qed

end
