(* ===== verification/Extable.thy ===== *)
theory Extable
  imports KSort
begin

text \<open>
  The kernel's exception tables, \<^verbatim>\<open>lib/extable.c\<close>, \<^verbatim>\<open>kernel/extable.c\<close> and the search of
  \<^verbatim>\<open>arch/x86_64/mm/extable.c\<close>: tables of instruction addresses with the addresses to go on at. The
  main table is sorted once, then searched by bisection. Pointers into a table are indices; the
  searches get the first and the last index, and the last one can be before the first. The tables
  of modules and the text sections of modules are searched by code of \<^verbatim>\<open>kernel/module.c\<close>, which enters
  as a parameter, as do the bounds of the kernel's own text sections.
\<close>

record exception_table_entry =
  insn :: u64
  fixup :: u64

definition cmp_ex :: "exception_table_entry \<Rightarrow> exception_table_entry \<Rightarrow> int" where
  "cmp_ex x y = (if insn y < insn x then 1 else if insn x < insn y then -1 else 0)"

definition sort_extable :: "exception_table_entry list \<Rightarrow> exception_table_entry list option" where
  "sort_extable t = sort_array cmp_ex (of_nat (length t)) 16 t"

text \<open>The portable search.\<close>

function bisect :: "exception_table_entry list \<Rightarrow> int \<Rightarrow> int \<Rightarrow> u64 \<Rightarrow> nat option" where
  "bisect t first final v =
     (if first \<le> final then
        let mid = (final - first) div 2 + first;
            e = t ! nat mid
        in if insn e < v then bisect t (mid + 1) final v
           else if v < insn e then bisect t first (mid - 1) v
           else Some (nat mid)
      else None)"
  by pat_completeness auto
termination by (relation "measure (\<lambda>(t, first, final, v). nat (final - first + 1))") auto

definition search_extable_portable :: "exception_table_entry list \<Rightarrow> u64 \<Rightarrow> nat option" where
  "search_extable_portable t v = bisect t 0 (int (length t) - 1) v"

text \<open>The search for x86-64 looks at the sign of a difference, and fixes up addresses that have
  lost their upper half.\<close>

function bisect_diff :: "exception_table_entry list \<Rightarrow> int \<Rightarrow> int \<Rightarrow> u64 \<Rightarrow> nat option" where
  "bisect_diff t first final v =
     (if first \<le> final then
        let mid = (final - first) div 2 + first;
            diff = insn (t ! nat mid) - v
        in if diff = 0 then Some (nat mid)
           else if diff <s 0 then bisect_diff t (mid + 1) final v
           else bisect_diff t first (mid - 1) v
      else None)"
  by pat_completeness auto
termination by (relation "measure (\<lambda>(t, first, final, v). nat (final - first + 1))") auto

declare bisect.simps [simp del] bisect_diff.simps [simp del]

definition search_extable :: "exception_table_entry list \<Rightarrow> u64 \<Rightarrow> nat option" where
  "search_extable t v =
     (let v = (if drop_bit 32 v = 0 then v OR push_bit 32 0xffffffff else v)
      in bisect_diff t 0 (int (length t) - 1) v)"

definition sort_main_extable :: "exception_table_entry list \<Rightarrow> exception_table_entry list option" where
  "sort_main_extable main = sort_extable main"

definition search_exception_tables ::
  "exception_table_entry list \<Rightarrow> (u64 \<Rightarrow> exception_table_entry option) \<Rightarrow> u64 \<Rightarrow> exception_table_entry option"
where
  "search_exception_tables main search_module_extables addr = (case search_extable main addr of
     Some i \<Rightarrow> Some (main ! i)
   | None \<Rightarrow> search_module_extables addr)"

record text_bounds =
  stext :: u64
  etext :: u64
  sinittext :: u64
  einittext :: u64

definition core_kernel_text :: "text_bounds \<Rightarrow> u64 \<Rightarrow> bool" where
  "core_kernel_text tb addr =
     (if stext tb \<le> addr \<and> addr \<le> etext tb then True
      else if sinittext tb \<le> addr \<and> addr \<le> einittext tb then True
      else False)"

definition kernel_text_address_unlocked :: "text_bounds \<Rightarrow> (u64 \<Rightarrow> bool) \<Rightarrow> u64 \<Rightarrow> bool" where
  "kernel_text_address_unlocked tb module_text addr = (if core_kernel_text tb addr then True else module_text addr)"

definition kernel_text_address :: "text_bounds \<Rightarrow> (u64 \<Rightarrow> bool) \<Rightarrow> u64 \<Rightarrow> bool" where
  "kernel_text_address tb module_text addr = (if core_kernel_text tb addr then True else module_text addr)"

subsection \<open>Sorting and searching\<close>

interpretation ex: comparison cmp_ex
  by unfold_locales (auto simp: cmp_ex_def split: if_splits)

lemma cmp_ex_le: "cmp_ex x y \<le> 0 \<longleftrightarrow> insn x \<le> insn y"
  by (auto simp: cmp_ex_def)

definition sorted_table :: "exception_table_entry list \<Rightarrow> bool" where
  "sorted_table t = sorted_wrt (\<lambda>x y. insn x \<le> insn y) t"

lemma sort_extable_sorts:
  assumes "length t \<le> 2 ^ 26"
  shows "\<exists>t'. sort_extable t = Some t' \<and> sorted_table t' \<and> mset t' = mset t"
proof -
  have u: "unat (of_nat (length t) :: u64) = length t" using assms by (simp add: unat_of_nat)
  have "\<exists>b. sort_array cmp_ex (of_nat (length t)) 16 t = Some b \<and>
      sorted_wrt (\<lambda>x y. cmp_ex x y \<le> 0) b \<and> mset b = mset t"
    by (rule sort_array_main[OF ex.comparison_axioms]) (use assms u in simp_all)
  then show ?thesis by (simp add: sort_extable_def sorted_table_def cmp_ex_le)
qed

text \<open>Both searches are one bisection, by any sign that agrees with the order of the addresses.\<close>

lemma sorted_table_nth: "sorted_table t \<Longrightarrow> i \<le> j \<Longrightarrow> j < length t \<Longrightarrow> insn (t ! i) \<le> insn (t ! j)"
  by (cases "i = j") (auto simp: sorted_table_def sorted_wrt_iff_nth_less)

definition outside :: "exception_table_entry list \<Rightarrow> int \<Rightarrow> int \<Rightarrow> u64 \<Rightarrow> bool" where
  "outside t first final v = (\<forall>i<length t. int i < first \<or> final < int i \<longrightarrow> insn (t ! i) \<noteq> v)"

lemma outside_low:
  assumes "sorted_table t" and "outside t first final v" and "0 \<le> mid" and "nat mid < length t"
    and "insn (t ! nat mid) < v"
  shows "outside t (mid + 1) final v"
  unfolding outside_def
proof (intro allI impI)
  fix i assume i: "i < length t" "int i < mid + 1 \<or> final < int i"
  show "insn (t ! i) \<noteq> v"
  proof (cases "int i < mid + 1")
    case True
    then have "i \<le> nat mid" by linarith
    then show ?thesis using sorted_table_nth[OF assms(1)] assms(4,5) by fastforce
  next
    case False
    then show ?thesis using assms(2) i by (auto simp: outside_def)
  qed
qed

lemma outside_high:
  assumes "sorted_table t" and "outside t first final v" and "0 \<le> mid" and "nat mid < length t"
    and "v < insn (t ! nat mid)"
  shows "outside t first (mid - 1) v"
  unfolding outside_def
proof (intro allI impI)
  fix i assume i: "i < length t" "int i < first \<or> mid - 1 < int i"
  show "insn (t ! i) \<noteq> v"
  proof (cases "mid - 1 < int i")
    case True
    then have "nat mid \<le> i" by linarith
    then show ?thesis using sorted_table_nth[OF assms(1) _ i(1)] assms(5) by fastforce
  next
    case False
    then show ?thesis using assms(2) i by (auto simp: outside_def)
  qed
qed

definition found :: "exception_table_entry list \<Rightarrow> u64 \<Rightarrow> nat option \<Rightarrow> bool" where
  "found t v r = (case r of
     Some i \<Rightarrow> i < length t \<and> insn (t ! i) = v
   | None \<Rightarrow> \<forall>e\<in>set t. insn e \<noteq> v)"

lemma bisect_found:
  assumes "sorted_table t" and "outside t first final v" and "0 \<le> first" and "final < int (length t)"
  shows "found t v (bisect t first final v)"
  using assms
proof (induction t first final v rule: bisect.induct)
  case (1 t first final v)
  let ?m = "(final - first) div 2 + first"
  show ?case
  proof (cases "first \<le> final")
    case False
    then have "\<forall>e\<in>set t. insn e \<noteq> v" using 1(4) by (fastforce simp: outside_def in_set_conv_nth)
    then show ?thesis using False by (subst bisect.simps) (simp add: found_def)
  next
    case True
    have m: "0 \<le> ?m" "?m \<le> final" "nat ?m < length t" using True 1(5,6) by linarith+
    consider "insn (t ! nat ?m) < v" | "v < insn (t ! nat ?m)" | "insn (t ! nat ?m) = v" by fastforce
    then show ?thesis
    proof cases
      case 1
      have "found t v (bisect t (?m + 1) final v)"
        by (rule "1.IH"(1)[OF True refl refl 1 "1.prems"(1) outside_low[OF "1.prems"(1,2) m(1,3) 1]])
          (use m 1(1) "1.prems" in auto)
      then show ?thesis using True 1 by (subst bisect.simps) (simp add: Let_def)
    next
      case 2
      have "found t v (bisect t first (?m - 1) v)"
        by (rule "1.IH"(2)[OF True refl refl _ 2 "1.prems"(1) outside_high[OF "1.prems"(1,2) m(1,3) 2]])
          (use m 2 "1.prems" in auto)
      then show ?thesis using True 2 by (subst bisect.simps) (auto simp: Let_def)
    next
      case 3
      then show ?thesis using True m by (subst bisect.simps) (simp add: Let_def found_def)
    qed
  qed
qed

lemma search_found:
  assumes "sorted_table t"
  shows "found t v (bisect t 0 (int (length t) - 1) v)"
  by (rule bisect_found[OF assms]) (auto simp: outside_def)

text \<open>Between addresses in the upper half of the address space the sign of the difference is right.\<close>

lemma upper_diff:
  fixes a b :: u64
  assumes "2 ^ 63 \<le> unat a" and "2 ^ 63 \<le> unat b"
  shows "a - b <s 0 \<longleftrightarrow> a < b"
proof (cases "a < b")
  case True
  then have lt: "unat a < unat b" by (simp add: word_less_nat_alt)
  moreover have "unat b < 2 ^ 64" by (rule less_le_trans[OF unsigned_less]) simp
  ultimately have "unat (a - b) = unat a + 2 ^ 64 - unat b" by (simp add: unat_sub_if_size word_size)
  then have "2 ^ 63 \<le> unat (a - b)" using lt \<open>unat b < 2 ^ 64\<close> assms by simp
  then show ?thesis using True by (simp add: sless_0_iff)
next
  case False
  then have "unat (a - b) = unat a - unat b" by (simp add: unat_sub)
  moreover have "unat a < 2 ^ 64" by (rule less_le_trans[OF unsigned_less]) simp
  ultimately show ?thesis using assms False by (simp add: sless_0_iff)
qed

lemma bisect_diff_eq:
  assumes "\<And>i. i < length t \<Longrightarrow> 2 ^ 63 \<le> unat (insn (t ! i))" and "2 ^ 63 \<le> unat v"
    and "0 \<le> first" and "final < int (length t)"
  shows "bisect_diff t first final v = bisect t first final v"
  using assms
proof (induction t first final v rule: bisect.induct)
  case (1 t first final v)
  let ?m = "(final - first) div 2 + first"
  show ?case
  proof (cases "first \<le> final")
    case False
    then show ?thesis by (subst bisect.simps, subst bisect_diff.simps) simp
  next
    case True
    have m: "0 \<le> ?m" "?m \<le> final" "nat ?m < length t" using True "1.prems"(3,4) by linarith+
    have d: "insn (t ! nat ?m) - v <s 0 \<longleftrightarrow> insn (t ! nat ?m) < v"
      by (rule upper_diff[OF "1.prems"(1)[OF m(3)] "1.prems"(2)])
    have low: "bisect_diff t (?m + 1) final v = bisect t (?m + 1) final v" if "insn (t ! nat ?m) < v"
      by (rule "1.IH"(1)[OF True refl refl that "1.prems"(1,2)]) (use m "1.prems" in auto)
    have high: "bisect_diff t first (?m - 1) v = bisect t first (?m - 1) v" if h: "v < insn (t ! nat ?m)"
      by (rule "1.IH"(2)[OF True refl refl _ h "1.prems"(1,2)]) (use m h "1.prems" in auto)
    show ?thesis
    proof (cases "insn (t ! nat ?m) = v")
      case eq: True
      then show ?thesis using True by (subst bisect.simps, subst bisect_diff.simps) (simp add: Let_def)
    next
      case False
      then show ?thesis using True d low high
        by (subst bisect.simps, subst bisect_diff.simps) (auto simp: Let_def)
    qed
  qed
qed

lemma search_extable_portable_eq:
  assumes "\<And>e. e \<in> set t \<Longrightarrow> 2 ^ 63 \<le> unat (insn e)" and "2 ^ 63 \<le> unat v"
  shows "search_extable t v = search_extable_portable t v"
proof -
  have "drop_bit 32 v \<noteq> 0"
  proof
    assume "drop_bit 32 v = 0"
    then have "unat v div 2 ^ 32 = 0" by (simp add: drop_bit_eq_div unat_div flip: unat_eq_0)
    then show False using assms(2) by simp
  qed
  moreover have "bisect_diff t 0 (int (length t) - 1) v = bisect t 0 (int (length t) - 1) v"
    by (rule bisect_diff_eq) (use assms in auto)
  ultimately show ?thesis by (simp add: search_extable_def search_extable_portable_def)
qed

subsection \<open>Properties\<close>

definition demo_table :: "exception_table_entry list" where
  "demo_table = [\<lparr>insn = 0xffffffff80000030, fixup = 3\<rparr>, \<lparr>insn = 0xffffffff80000010, fixup = 1\<rparr>,
     \<lparr>insn = 0xffffffff80000020, fixup = 2\<rparr>]"

text \<open>C38: \<^verbatim>\<open>sort\<close> sorts. For every comparison function that is a total preorder, elements of any
  positive size and any array of up to \<open>2^30\<close> bytes the call returns, and leaves the array sorted
  and a permutation of what it was.\<close>

theorem sort_array_sorts:
  assumes "comparison cmp" and "length a = unat num" and "0 < unat sz" and "unat sz \<le> 2 ^ 30"
    and "unat num * unat sz \<le> 2 ^ 30"
  shows "\<exists>b. sort_array cmp num sz a = Some b \<and> sorted_wrt (\<lambda>x y. cmp x y \<le> 0) b \<and> mset b = mset a"
  by (rule sort_array_main[OF assms])

theorem sort_array_sorts_witness:
  "\<exists>b. sort_array cmp_ex 3 16 demo_table = Some b \<and> sorted_wrt (\<lambda>x y. cmp_ex x y \<le> 0) b \<and>
     mset b = mset demo_table"
  by (rule sort_array_sorts[OF ex.comparison_axioms]) (simp_all add: demo_table_def)

text \<open>Faults are looked up correctly. Sorting the main exception table (of up to \<open>2^26\<close> entries,
  all for kernel addresses, which are in the upper half) keeps its entries, and afterwards the
  lookup of a kernel address gives an entry of the table for that address if there is one, and
  otherwise what the modules' tables give. The portable search gives the same.\<close>

theorem extable_lookup:
  assumes "length main \<le> 2 ^ 26" and "\<And>e. e \<in> set main \<Longrightarrow> 2 ^ 63 \<le> unat (insn e)"
    and "2 ^ 63 \<le> unat addr"
  shows "\<exists>t. sort_main_extable main = Some t \<and> mset t = mset main \<and>
     search_extable t addr = search_extable_portable t addr \<and>
     (if \<exists>e\<in>set main. insn e = addr
      then \<exists>e\<in>set main. insn e = addr \<and> search_exception_tables t modules addr = Some e
      else search_exception_tables t modules addr = modules addr)"
proof -
  obtain t where t: "sort_extable main = Some t" "sorted_table t" "mset t = mset main"
    using sort_extable_sorts[OF assms(1)] by blast
  then have st: "set t = set main" by (metis mset_eq_setD)
  have eq: "search_extable t addr = search_extable_portable t addr"
    by (rule search_extable_portable_eq) (use assms st in auto)
  have f: "found t addr (search_extable t addr)"
    unfolding eq search_extable_portable_def by (rule search_found[OF t(2)])
  have "if \<exists>e\<in>set main. insn e = addr
      then \<exists>e\<in>set main. insn e = addr \<and> search_exception_tables t modules addr = Some e
      else search_exception_tables t modules addr = modules addr"
  proof (cases "search_extable t addr")
    case None
    then show ?thesis using f st by (auto simp: found_def search_exception_tables_def)
  next
    case (Some i)
    then have i: "i < length t" "insn (t ! i) = addr" using f by (simp_all add: found_def)
    have "t ! i \<in> set main" unfolding st[symmetric] by (rule nth_mem[OF i(1)])
    moreover have "search_exception_tables t modules addr = Some (t ! i)"
      using Some by (simp add: search_exception_tables_def)
    ultimately show ?thesis using i(2) by auto
  qed
  then show ?thesis using t eq unfolding sort_main_extable_def by (intro exI[of _ t] conjI)
qed

theorem extable_lookup_witness:
  "\<exists>t. sort_main_extable demo_table = Some t \<and>
     map_option fixup (search_exception_tables t (\<lambda>_. None) 0xffffffff80000010) = Some 1"
proof -
  have m: "\<exists>e\<in>set demo_table. insn e = 0xffffffff80000010" by (simp add: demo_table_def)
  have len: "length demo_table \<le> 2 ^ 26" by (simp add: demo_table_def)
  have up: "2 ^ 63 \<le> unat (insn e)" if "e \<in> set demo_table" for e
    using that by (auto simp: demo_table_def)
  have addr: "2 ^ 63 \<le> unat (0xffffffff80000010 :: u64)" by simp
  obtain t e where "sort_main_extable demo_table = Some t" and e: "e \<in> set demo_table"
    "insn e = 0xffffffff80000010" "search_exception_tables t (\<lambda>_. None) 0xffffffff80000010 = Some e"
    using extable_lookup[OF len up addr, of "\<lambda>_. None"] m by auto
  moreover have "fixup e = 1" using e(1,2) by (auto simp: demo_table_def)
  ultimately show ?thesis by auto
qed

end
