(* ===== verification/Sched.thy ===== *)
theory Sched
  imports Prelude
begin

text \<open>
  The process scheduler of \<^verbatim>\<open>kernel/sched.c\<close>, for the configuration of the tree (\<^verbatim>\<open>.config\<close>: one
  processor, 250 ticks a second, no kernel preemption). A run queue has two arrays of queues, one
  queue per priority with a bitmap of the non-empty ones: tasks run from the active array and are
  moved to the expired one when they have used up their time slices; the arrays change roles when
  the active one is empty.

  Tasks are numbers; their fields are in a table. Arrays are numbered too, as \<open>p->array\<close> points to
  one or is null. The run lists are lists of tasks (the linked lists behind them are the subject of
  \<open>KList\<close>); unlinking takes a task out of whatever list it is in. Clock readings (\<open>now\<close>, \<open>jiffies\<close>),
  pending signals and permissions are arguments. Counters for statistics, profiling hooks, locks
  and the context switch itself are left out.
\<close>

subsection \<open>Constants\<close>

definition HZ :: int where "HZ = 250"
definition MAX_RT_PRIO :: int where "MAX_RT_PRIO = 100"
definition MAX_PRIO :: int where "MAX_PRIO = MAX_RT_PRIO + 40"
definition MAX_USER_PRIO :: int where "MAX_USER_PRIO = MAX_PRIO - MAX_RT_PRIO"
definition MIN_TIMESLICE :: int where "MIN_TIMESLICE = max (5 * HZ div 1000) 1"
definition DEF_TIMESLICE :: int where "DEF_TIMESLICE = 100 * HZ div 1000"
definition ON_RUNQUEUE_WEIGHT :: int where "ON_RUNQUEUE_WEIGHT = 30"
definition CHILD_PENALTY :: u64 where "CHILD_PENALTY = 95"
definition PARENT_PENALTY :: u64 where "PARENT_PENALTY = 100"
definition EXIT_WEIGHT :: u64 where "EXIT_WEIGHT = 3"
definition PRIO_BONUS_RATIO :: int where "PRIO_BONUS_RATIO = 25"
definition MAX_BONUS :: int where "MAX_BONUS = MAX_USER_PRIO * PRIO_BONUS_RATIO div 100"
definition INTERACTIVE_DELTA :: int where "INTERACTIVE_DELTA = 2"
definition MAX_SLEEP_AVG :: int where "MAX_SLEEP_AVG = DEF_TIMESLICE * MAX_BONUS"
definition STARVATION_LIMIT :: int where "STARVATION_LIMIT = MAX_SLEEP_AVG"
definition NS_PER_JIFFY :: int where "NS_PER_JIFFY = 1000000000 div HZ"
definition NS_MAX_SLEEP_AVG :: int where "NS_MAX_SLEEP_AVG = MAX_SLEEP_AVG * NS_PER_JIFFY"
definition GRANULARITY :: int where "GRANULARITY = (if 10 * HZ div 1000 \<noteq> 0 then 10 * HZ div 1000 else 1)"
definition SCHED_LOAD_SCALE :: int where "SCHED_LOAD_SCALE = 128"

lemmas sched_consts = HZ_def MAX_RT_PRIO_def MAX_PRIO_def MAX_USER_PRIO_def MIN_TIMESLICE_def
  DEF_TIMESLICE_def ON_RUNQUEUE_WEIGHT_def CHILD_PENALTY_def PARENT_PENALTY_def EXIT_WEIGHT_def
  PRIO_BONUS_RATIO_def MAX_BONUS_def INTERACTIVE_DELTA_def MAX_SLEEP_AVG_def STARVATION_LIMIT_def
  NS_PER_JIFFY_def NS_MAX_SLEEP_AVG_def GRANULARITY_def SCHED_LOAD_SCALE_def

definition TASK_RUNNING :: s64 where "TASK_RUNNING = 0"
definition TASK_INTERRUPTIBLE :: s64 where "TASK_INTERRUPTIBLE = 1"
definition TASK_UNINTERRUPTIBLE :: s64 where "TASK_UNINTERRUPTIBLE = 2"
definition TASK_STOPPED :: s64 where "TASK_STOPPED = 4"
definition TASK_TRACED :: s64 where "TASK_TRACED = 8"
definition TASK_NONINTERACTIVE :: s64 where "TASK_NONINTERACTIVE = 64"

definition PID_MAX_LIMIT :: nat where "PID_MAX_LIMIT = 4 * 1024 * 1024"

datatype policy = SCHED_NORMAL | SCHED_FIFO | SCHED_RR | SCHED_BATCH

datatype sleep_type = SLEEP_NORMAL | SLEEP_NONINTERACTIVE | SLEEP_INTERACTIVE | SLEEP_INTERRUPTED

text \<open>Division of signed numbers, towards zero.\<close>

definition c_div :: "int \<Rightarrow> int \<Rightarrow> int" where
  "c_div a b = sgn a * sgn b * (\<bar>a\<bar> div \<bar>b\<bar>)"

lemma c_div_nonneg [simp]: "0 \<le> a \<Longrightarrow> 0 < b \<Longrightarrow> c_div a b = a div b"
  by (cases "a = 0") (auto simp: c_div_def)

subsection \<open>State\<close>

record task_struct =
  state :: s64
  load_weight :: int
  prio :: int
  static_prio :: int
  normal_prio_f :: int
  rt_priority :: int
  array :: "nat option"
  sleep_avg :: u64
  timestamp :: u64
  last_ran :: u64
  sched_time :: u64
  sleep_type_f :: sleep_type
  policy_f :: policy
  time_slice :: u32
  first_time_slice :: u32
  has_mm :: bool
  need_resched :: bool
  top_pi_waiter :: "int option"

record prio_array =
  nr_active :: u32
  bitmap :: "int \<Rightarrow> bool"
  queue :: "int \<Rightarrow> nat list"

record rq =
  tasks :: "nat \<Rightarrow> task_struct"
  arrays :: "nat \<Rightarrow> prio_array"
  active :: nat
  expired :: nat
  nr_running :: u64
  raw_weighted_load :: u64
  nr_switches :: u64
  nr_uninterruptible :: u64
  expired_timestamp :: u64
  most_recent_timestamp :: u64
  curr :: nat
  idle :: nat
  best_expired_prio :: int

definition upd_task :: "nat \<Rightarrow> (task_struct \<Rightarrow> task_struct) \<Rightarrow> rq \<Rightarrow> rq" where
  "upd_task p f q = q\<lparr>tasks := (tasks q)(p := f (tasks q p))\<rparr>"

definition upd_array :: "nat \<Rightarrow> (prio_array \<Rightarrow> prio_array) \<Rightarrow> rq \<Rightarrow> rq" where
  "upd_array i f q = q\<lparr>arrays := (arrays q)(i := f (arrays q i))\<rparr>"

definition set_need_resched :: "nat \<Rightarrow> rq \<Rightarrow> rq" where
  "set_need_resched p q = upd_task p (\<lambda>t. t\<lparr>need_resched := True\<rparr>) q"

definition resched_task :: "nat \<Rightarrow> rq \<Rightarrow> rq" where
  "resched_task p q = set_need_resched p q"

subsection \<open>Priorities and time slices\<close>

definition NICE_TO_PRIO :: "int \<Rightarrow> int" where "NICE_TO_PRIO nice = MAX_RT_PRIO + nice + 20"
definition PRIO_TO_NICE :: "int \<Rightarrow> int" where "PRIO_TO_NICE pr = pr - MAX_RT_PRIO - 20"
definition TASK_NICE :: "task_struct \<Rightarrow> int" where "TASK_NICE t = PRIO_TO_NICE (static_prio t)"

definition rt_prio :: "int \<Rightarrow> bool" where "rt_prio pr = (pr < MAX_RT_PRIO)"
definition rt_task :: "task_struct \<Rightarrow> bool" where "rt_task t = rt_prio (prio t)"
definition batch_task :: "task_struct \<Rightarrow> bool" where "batch_task t = (policy_f t = SCHED_BATCH)"
definition is_rt_policy :: "policy \<Rightarrow> bool" where "is_rt_policy p = (p \<noteq> SCHED_NORMAL \<and> p \<noteq> SCHED_BATCH)"
definition has_rt_policy :: "task_struct \<Rightarrow> bool" where "has_rt_policy t = is_rt_policy (policy_f t)"

definition CURRENT_BONUS :: "task_struct \<Rightarrow> u64" where
  "CURRENT_BONUS t = sleep_avg t div word_of_int NS_PER_JIFFY * word_of_int MAX_BONUS div word_of_int MAX_SLEEP_AVG"

definition TIMESLICE_GRANULARITY :: "task_struct \<Rightarrow> u32" where
  "TIMESLICE_GRANULARITY t =
     (let d = word_of_int MAX_BONUS - CURRENT_BONUS t
      in word_of_int GRANULARITY * push_bit (unat ((if d \<noteq> 0 then d else 1) - 1)) 1)"

definition DELTA :: "task_struct \<Rightarrow> int" where
  "DELTA t = c_div ((TASK_NICE t + 20) * MAX_BONUS) 40 - 20 * MAX_BONUS div 40 + INTERACTIVE_DELTA"

definition TASK_INTERACTIVE :: "task_struct \<Rightarrow> bool" where
  "TASK_INTERACTIVE t = (prio t \<le> static_prio t - DELTA t)"

definition INTERACTIVE_SLEEP :: "task_struct \<Rightarrow> u64" where
  "INTERACTIVE_SLEEP t =
     word_of_int ((c_div (MAX_SLEEP_AVG * (MAX_BONUS div 2 + DELTA t + 1)) MAX_BONUS - 1) * NS_PER_JIFFY)"

definition TASK_PREEMPTS_CURR :: "nat \<Rightarrow> rq \<Rightarrow> bool" where
  "TASK_PREEMPTS_CURR p q = (prio (tasks q p) < prio (tasks q (curr q)))"

definition SCALE_PRIO :: "int \<Rightarrow> int \<Rightarrow> int" where
  "SCALE_PRIO x pr = max (c_div (x * (MAX_PRIO - pr)) (MAX_USER_PRIO div 2)) MIN_TIMESLICE"

definition static_prio_timeslice :: "int \<Rightarrow> u32" where
  "static_prio_timeslice spr =
     (if spr < NICE_TO_PRIO 0 then word_of_int (SCALE_PRIO (DEF_TIMESLICE * 4) spr)
      else word_of_int (SCALE_PRIO DEF_TIMESLICE spr))"

definition task_timeslice :: "task_struct \<Rightarrow> u32" where
  "task_timeslice t = static_prio_timeslice (static_prio t)"

definition normal_prio_bonus :: "task_struct \<Rightarrow> int" where
  "normal_prio_bonus t =
     (let bonus = sint (ucast (CURRENT_BONUS t - word_of_int (MAX_BONUS div 2)) :: s32);
          pr = static_prio t - bonus;
          pr = (if pr < MAX_RT_PRIO then MAX_RT_PRIO else pr)
      in if MAX_PRIO - 1 < pr then MAX_PRIO - 1 else pr)"

definition normal_prio :: "task_struct \<Rightarrow> int" where
  "normal_prio t = (if has_rt_policy t then MAX_RT_PRIO - 1 - rt_priority t else normal_prio_bonus t)"

text \<open>\<^verbatim>\<open>effective_prio\<close> also stores the normal priority; the result is the pair.\<close>

definition effective_prio :: "task_struct \<Rightarrow> int \<times> task_struct" where
  "effective_prio t =
     (let t = t\<lparr>normal_prio_f := normal_prio t\<rparr>
      in if \<not> rt_prio (prio t) then (normal_prio_f t, t) else (prio t, t))"

definition LOAD_WEIGHT :: "int \<Rightarrow> int" where
  "LOAD_WEIGHT lp = lp * SCHED_LOAD_SCALE div DEF_TIMESLICE"

definition PRIO_TO_LOAD_WEIGHT :: "int \<Rightarrow> int" where
  "PRIO_TO_LOAD_WEIGHT pr = LOAD_WEIGHT (uint (static_prio_timeslice pr))"

definition RTPRIO_TO_LOAD_WEIGHT :: "int \<Rightarrow> int" where
  "RTPRIO_TO_LOAD_WEIGHT rp = PRIO_TO_LOAD_WEIGHT MAX_RT_PRIO + LOAD_WEIGHT rp"

definition set_load_weight :: "task_struct \<Rightarrow> task_struct" where
  "set_load_weight t =
     (if has_rt_policy t then t\<lparr>load_weight := RTPRIO_TO_LOAD_WEIGHT (rt_priority t)\<rparr>
      else t\<lparr>load_weight := PRIO_TO_LOAD_WEIGHT (static_prio t)\<rparr>)"

subsection \<open>Queues\<close>

definition list_del_task :: "nat \<Rightarrow> rq \<Rightarrow> rq" where
  "list_del_task p q = q\<lparr>arrays := (\<lambda>i. (arrays q i)\<lparr>queue := (\<lambda>k. remove1 p (queue (arrays q i) k))\<rparr>)\<rparr>"

definition dequeue_task :: "nat \<Rightarrow> nat \<Rightarrow> rq \<Rightarrow> rq" where
  "dequeue_task p i q =
     (let pr = prio (tasks q p);
          q = upd_array i (\<lambda>a. a\<lparr>nr_active := nr_active a - 1\<rparr>) q;
          q = list_del_task p q
      in if queue (arrays q i) pr = [] then upd_array i (\<lambda>a. a\<lparr>bitmap := (bitmap a)(pr := False)\<rparr>) q
         else q)"

definition link_task :: "(nat list \<Rightarrow> nat list) \<Rightarrow> nat \<Rightarrow> nat \<Rightarrow> rq \<Rightarrow> rq" where
  "link_task add p i q =
     (let pr = prio (tasks q p);
          q = upd_array i (\<lambda>a. a\<lparr>queue := (queue a)(pr := add (queue a pr))\<rparr>) q;
          q = upd_array i (\<lambda>a. a\<lparr>bitmap := (bitmap a)(pr := True)\<rparr>) q;
          q = upd_array i (\<lambda>a. a\<lparr>nr_active := nr_active a + 1\<rparr>) q
      in upd_task p (\<lambda>t. t\<lparr>array := Some i\<rparr>) q)"

definition enqueue_task :: "nat \<Rightarrow> nat \<Rightarrow> rq \<Rightarrow> rq" where
  "enqueue_task p i q = link_task (\<lambda>l. l @ [p]) p i q"

definition enqueue_task_head :: "nat \<Rightarrow> nat \<Rightarrow> rq \<Rightarrow> rq" where
  "enqueue_task_head p i q = link_task (\<lambda>l. p # l) p i q"

definition requeue_task :: "nat \<Rightarrow> nat \<Rightarrow> rq \<Rightarrow> rq" where
  "requeue_task p i q =
     (let pr = prio (tasks q p); q = list_del_task p q
      in upd_array i (\<lambda>a. a\<lparr>queue := (queue a)(pr := queue a pr @ [p])\<rparr>) q)"

definition inc_raw_weighted_load :: "nat \<Rightarrow> rq \<Rightarrow> rq" where
  "inc_raw_weighted_load p q = q\<lparr>raw_weighted_load := raw_weighted_load q + word_of_int (load_weight (tasks q p))\<rparr>"

definition dec_raw_weighted_load :: "nat \<Rightarrow> rq \<Rightarrow> rq" where
  "dec_raw_weighted_load p q = q\<lparr>raw_weighted_load := raw_weighted_load q - word_of_int (load_weight (tasks q p))\<rparr>"

definition inc_nr_running :: "nat \<Rightarrow> rq \<Rightarrow> rq" where
  "inc_nr_running p q = inc_raw_weighted_load p (q\<lparr>nr_running := nr_running q + 1\<rparr>)"

definition dec_nr_running :: "nat \<Rightarrow> rq \<Rightarrow> rq" where
  "dec_nr_running p q = dec_raw_weighted_load p (q\<lparr>nr_running := nr_running q - 1\<rparr>)"

definition activate_task_on :: "nat \<Rightarrow> rq \<Rightarrow> rq" where
  "activate_task_on p q =
     (let target = (if batch_task (tasks q p) then expired q else active q)
      in inc_nr_running p (enqueue_task p target q))"

definition activate_idle_task :: "nat \<Rightarrow> rq \<Rightarrow> rq" where
  "activate_idle_task p q = inc_nr_running p (enqueue_task_head p (active q) q)"

definition deactivate_task :: "nat \<Rightarrow> rq \<Rightarrow> rq" where
  "deactivate_task p q =
     (let q = dec_nr_running p q;
          q = dequeue_task p (the (array (tasks q p))) q
      in upd_task p (\<lambda>t. t\<lparr>array := None\<rparr>) q)"

subsection \<open>Sleep averages\<close>

definition sleep_credit :: "task_struct \<Rightarrow> u64 \<Rightarrow> task_struct" where
  "sleep_credit t sleep_time =
     (let ceiling = INTERACTIVE_SLEEP t;
          t = (if has_mm t \<and> ceiling < sleep_time \<and> sleep_avg t < ceiling
               then t\<lparr>sleep_avg := ceiling, sleep_type_f := SLEEP_NONINTERACTIVE\<rparr>
               else if sleep_type_f t = SLEEP_NONINTERACTIVE \<and> has_mm t
               then (if ceiling \<le> sleep_avg t then t
                     else if ceiling \<le> sleep_avg t + sleep_time then t\<lparr>sleep_avg := ceiling\<rparr>
                     else t\<lparr>sleep_avg := sleep_avg t + sleep_time\<rparr>)
               else t\<lparr>sleep_avg := sleep_avg t + sleep_time\<rparr>)
      in if word_of_int NS_MAX_SLEEP_AVG < sleep_avg t
         then t\<lparr>sleep_avg := word_of_int NS_MAX_SLEEP_AVG\<rparr> else t)"

definition recalc_task_prio :: "task_struct \<Rightarrow> u64 \<Rightarrow> int \<times> task_struct" where
  "recalc_task_prio t now =
     (let sleep_time = (if batch_task t then 0 else now - timestamp t);
          t = (if 0 < sleep_time then sleep_credit t sleep_time else t)
      in effective_prio t)"

definition activate_task :: "u64 \<Rightarrow> bool \<Rightarrow> nat \<Rightarrow> rq \<Rightarrow> rq" where
  "activate_task now in_interrupt p q =
     (if rt_task (tasks q p) then activate_task_on p q
      else let (pr, t) = recalc_task_prio (tasks q p) now;
               t = t\<lparr>prio := pr\<rparr>;
               t = (if sleep_type_f t = SLEEP_NORMAL
                    then t\<lparr>sleep_type_f := if in_interrupt then SLEEP_INTERRUPTED else SLEEP_INTERACTIVE\<rparr>
                    else t);
               t = t\<lparr>timestamp := now\<rparr>
           in activate_task_on p (upd_task p (\<lambda>_. t) q))"

subsection \<open>Waking\<close>

definition ttwu_activate :: "u64 \<Rightarrow> bool \<Rightarrow> nat \<Rightarrow> bool \<Rightarrow> rq \<Rightarrow> rq" where
  "ttwu_activate now in_interrupt p sync q =
     (let old_state = state (tasks q p);
          q = (if old_state = TASK_UNINTERRUPTIBLE
               then upd_task p (\<lambda>t. t\<lparr>sleep_type_f := SLEEP_NONINTERACTIVE\<rparr>)
                      (q\<lparr>nr_uninterruptible := nr_uninterruptible q - 1\<rparr>)
               else if old_state AND TASK_NONINTERACTIVE \<noteq> 0
               then upd_task p (\<lambda>t. t\<lparr>sleep_type_f := SLEEP_NONINTERACTIVE\<rparr>) q
               else q);
          q = activate_task now in_interrupt p q;
          q = (if \<not> sync \<and> TASK_PREEMPTS_CURR p q then resched_task (curr q) q else q)
      in upd_task p (\<lambda>t. t\<lparr>state := TASK_RUNNING\<rparr>) q)"

definition try_to_wake_up :: "u64 \<Rightarrow> bool \<Rightarrow> nat \<Rightarrow> u32 \<Rightarrow> bool \<Rightarrow> rq \<Rightarrow> s32 \<times> rq" where
  "try_to_wake_up now in_interrupt p smask sync q =
     (let old_state = state (tasks q p)
      in if old_state AND ucast smask = 0 then (0, q)
         else if array (tasks q p) \<noteq> None then (0, upd_task p (\<lambda>t. t\<lparr>state := TASK_RUNNING\<rparr>) q)
         else (1, ttwu_activate now in_interrupt p sync q))"

definition wake_up_process :: "u64 \<Rightarrow> bool \<Rightarrow> nat \<Rightarrow> rq \<Rightarrow> s32 \<times> rq" where
  "wake_up_process now in_interrupt p q =
     try_to_wake_up now in_interrupt p
       (ucast (TASK_STOPPED OR TASK_TRACED OR TASK_INTERRUPTIBLE OR TASK_UNINTERRUPTIBLE)) False q"

definition wake_up_state :: "u64 \<Rightarrow> bool \<Rightarrow> nat \<Rightarrow> u32 \<Rightarrow> rq \<Rightarrow> s32 \<times> rq" where
  "wake_up_state now in_interrupt p smask q = try_to_wake_up now in_interrupt p smask False q"

text \<open>A wait queue is the list of the waiting tasks, each with its \<open>WQ_FLAG_EXCLUSIVE\<close>, all woken by
  \<^verbatim>\<open>default_wake_function\<close>; \<open>nr_exclusive\<close> counts down and ends the walk at zero.\<close>

definition default_wake_function :: "u64 \<Rightarrow> bool \<Rightarrow> nat \<Rightarrow> u32 \<Rightarrow> bool \<Rightarrow> rq \<Rightarrow> s32 \<times> rq" where
  "default_wake_function now in_interrupt p mode sync q = try_to_wake_up now in_interrupt p mode sync q"

fun wake_up_common :: "u64 \<Rightarrow> bool \<Rightarrow> (nat \<times> bool) list \<Rightarrow> u32 \<Rightarrow> s32 \<Rightarrow> bool \<Rightarrow> rq \<Rightarrow> rq" where
  "wake_up_common now irq [] mode nr_exclusive sync q = q"
| "wake_up_common now irq ((p, exclusive) # ws) mode nr_exclusive sync q =
     (let (woken, q) = default_wake_function now irq p mode sync q
      in if woken \<noteq> 0 \<and> exclusive
         then if nr_exclusive - 1 = 0 then q
              else wake_up_common now irq ws mode (nr_exclusive - 1) sync q
         else wake_up_common now irq ws mode nr_exclusive sync q)"

definition wake_up :: "u64 \<Rightarrow> bool \<Rightarrow> (nat \<times> bool) list \<Rightarrow> u32 \<Rightarrow> s32 \<Rightarrow> rq \<Rightarrow> rq" where
  "wake_up now irq ws mode nr_exclusive q = wake_up_common now irq ws mode nr_exclusive False q"

definition wake_up_locked :: "u64 \<Rightarrow> bool \<Rightarrow> (nat \<times> bool) list \<Rightarrow> u32 \<Rightarrow> rq \<Rightarrow> rq" where
  "wake_up_locked now irq ws mode q = wake_up_common now irq ws mode 1 False q"

definition wake_up_sync :: "u64 \<Rightarrow> bool \<Rightarrow> (nat \<times> bool) list \<Rightarrow> u32 \<Rightarrow> s32 \<Rightarrow> rq \<Rightarrow> rq" where
  "wake_up_sync now irq ws mode nr_exclusive q =
     wake_up_common now irq ws mode nr_exclusive (nr_exclusive \<noteq> 0) q"

record completion =
  completed :: u32
  wait :: "(nat \<times> bool) list"

definition complete :: "u64 \<Rightarrow> bool \<Rightarrow> completion \<Rightarrow> rq \<Rightarrow> completion \<times> rq" where
  "complete now irq x q =
     (x\<lparr>completed := completed x + 1\<rparr>,
      wake_up_common now irq (wait x) (ucast (TASK_UNINTERRUPTIBLE OR TASK_INTERRUPTIBLE)) 1 False q)"

definition complete_all :: "u64 \<Rightarrow> bool \<Rightarrow> completion \<Rightarrow> rq \<Rightarrow> completion \<times> rq" where
  "complete_all now irq x q =
     (x\<lparr>completed := completed x + 0x7FFFFFFF\<rparr>,
      wake_up_common now irq (wait x) (ucast (TASK_UNINTERRUPTIBLE OR TASK_INTERRUPTIBLE)) 0 False q)"

subsection \<open>The clock tick\<close>

definition update_cpu_clock :: "nat \<Rightarrow> u64 \<Rightarrow> rq \<Rightarrow> rq" where
  "update_cpu_clock p now q =
     (let q = upd_task p (\<lambda>t. t\<lparr>sched_time := sched_time t + (now - last_ran t)\<rparr>) q
      in upd_task p (\<lambda>t. t\<lparr>last_ran := now\<rparr>) (q\<lparr>most_recent_timestamp := now\<rparr>))"

definition current_sched_time :: "task_struct \<Rightarrow> u64 \<Rightarrow> u64" where
  "current_sched_time t now = sched_time t + now - last_ran t"

definition expired_starving :: "u64 \<Rightarrow> rq \<Rightarrow> bool" where
  "expired_starving jiffies q =
     (if best_expired_prio q < static_prio (tasks q (curr q)) then True
      else if STARVATION_LIMIT = 0 \<or> expired_timestamp q = 0 then False
      else word_of_int STARVATION_LIMIT * nr_running q < jiffies - expired_timestamp q)"

text \<open>The end of a time slice of a normal task.\<close>

definition slice_expired :: "u64 \<Rightarrow> nat \<Rightarrow> rq \<Rightarrow> rq" where
  "slice_expired jiffies p q =
     (let q = dequeue_task p (active q) q;
          q = set_need_resched p q;
          q = upd_task p (\<lambda>t. let (pr, t) = effective_prio t in t\<lparr>prio := pr\<rparr>) q;
          q = upd_task p (\<lambda>t. t\<lparr>time_slice := task_timeslice t, first_time_slice := 0\<rparr>) q;
          q = (if expired_timestamp q = 0 then q\<lparr>expired_timestamp := jiffies\<rparr> else q)
      in if \<not> TASK_INTERACTIVE (tasks q p) \<or> expired_starving jiffies q
         then let q = enqueue_task p (expired q) q
              in if static_prio (tasks q p) < best_expired_prio q
                 then q\<lparr>best_expired_prio := static_prio (tasks q p)\<rparr> else q
         else enqueue_task p (active q) q)"

definition task_running_tick :: "u64 \<Rightarrow> nat \<Rightarrow> rq \<Rightarrow> rq" where
  "task_running_tick jiffies p q =
     (if array (tasks q p) \<noteq> Some (active q) then set_need_resched p q
      else if rt_task (tasks q p) then
        if policy_f (tasks q p) = SCHED_RR then
          let q = upd_task p (\<lambda>t. t\<lparr>time_slice := time_slice t - 1\<rparr>) q
          in if time_slice (tasks q p) = 0 then
               let q = upd_task p (\<lambda>t. t\<lparr>time_slice := task_timeslice t, first_time_slice := 0\<rparr>) q;
                   q = set_need_resched p q
               in requeue_task p (active q) q
             else q
        else q
      else
        let q = upd_task p (\<lambda>t. t\<lparr>time_slice := time_slice t - 1\<rparr>) q; t = tasks q p
        in if time_slice t = 0 then slice_expired jiffies p q
           else if TASK_INTERACTIVE t \<and>
                   (task_timeslice t - time_slice t) mod TIMESLICE_GRANULARITY t = 0 \<and>
                   TIMESLICE_GRANULARITY t \<le> time_slice t \<and> array t = Some (active q)
           then set_need_resched p (requeue_task p (active q) q)
           else q)"

definition idle_cpu :: "rq \<Rightarrow> bool" where
  "idle_cpu q = (curr q = idle q)"

definition scheduler_tick :: "u64 \<Rightarrow> u64 \<Rightarrow> rq \<Rightarrow> rq" where
  "scheduler_tick now jiffies q =
     (let p = curr q; idle_at_tick = idle_cpu q; q = update_cpu_clock p now q
      in if idle_at_tick then q else task_running_tick jiffies p q)"

subsection \<open>Choosing the next task\<close>

text \<open>The bitmap is three words; the lowest set bit of the first that has one.\<close>

definition sched_find_first_bit :: "(int \<Rightarrow> bool) \<Rightarrow> int option" where
  "sched_find_first_bit b =
     (case List.find b [0..63] of Some k \<Rightarrow> Some k
      | None \<Rightarrow> case List.find b [64..127] of Some k \<Rightarrow> Some k
      | None \<Rightarrow> List.find b [128..191])"

definition interactive_sleep :: "sleep_type \<Rightarrow> bool" where
  "interactive_sleep s = (s = SLEEP_INTERACTIVE \<or> s = SLEEP_INTERRUPTED)"

text \<open>How long the outgoing task has run, weighted by its bonus.\<close>

definition sched_run_time :: "task_struct \<Rightarrow> u64 \<Rightarrow> u64" where
  "sched_run_time t now =
     (let d = now - timestamp t;
          run_time = (if sint d < NS_MAX_SLEEP_AVG then if sint d < 0 then 0 else d
                      else word_of_int NS_MAX_SLEEP_AVG)
      in run_time div (if CURRENT_BONUS t \<noteq> 0 then CURRENT_BONUS t else 1))"

text \<open>The outgoing task leaves the queue when it is about to sleep. The result is \<open>None\<close> if it is in
  no array: \<^verbatim>\<open>deactivate_task\<close> would follow a null pointer.\<close>

definition sched_put_prev :: "bool \<Rightarrow> bool \<Rightarrow> nat \<Rightarrow> rq \<Rightarrow> rq option" where
  "sched_put_prev preempt_active signal_pending prev q =
     (let st = state (tasks q prev)
      in if st \<noteq> 0 \<and> \<not> preempt_active then
           if st AND TASK_INTERRUPTIBLE \<noteq> 0 \<and> signal_pending
           then Some (upd_task prev (\<lambda>t. t\<lparr>state := TASK_RUNNING\<rparr>) q)
           else let q = (if st = TASK_UNINTERRUPTIBLE
                         then q\<lparr>nr_uninterruptible := nr_uninterruptible q + 1\<rparr> else q)
                in if array (tasks q prev) = None then None else Some (deactivate_task prev q)
         else Some q)"

definition switch_arrays :: "rq \<Rightarrow> rq" where
  "switch_arrays q =
     (if nr_active (arrays q (active q)) = 0
      then q\<lparr>active := expired q, expired := active q, expired_timestamp := 0,
             best_expired_prio := MAX_PRIO\<rparr>
      else q)"

text \<open>The first task of the best queue; an empty queue there would make \<^verbatim>\<open>list_entry\<close> take the list
  head for a task.\<close>

definition pick_next :: "rq \<Rightarrow> nat option" where
  "pick_next q =
     (case sched_find_first_bit (bitmap (arrays q (active q))) of
        None \<Rightarrow> None
      | Some idx \<Rightarrow> (case queue (arrays q (active q)) idx of [] \<Rightarrow> None | p # _ \<Rightarrow> Some p))"

definition recalc_next :: "u64 \<Rightarrow> nat \<Rightarrow> rq \<Rightarrow> rq" where
  "recalc_next now p q =
     (let t = tasks q p;
          q = (if \<not> rt_task t \<and> interactive_sleep (sleep_type_f t) then
                 let delta = (if sint (now - timestamp t) < 0 then 0 else now - timestamp t);
                     delta = (if sleep_type_f t = SLEEP_INTERACTIVE
                              then delta * word_of_int (ON_RUNQUEUE_WEIGHT * 128 div 100) div 128 else delta);
                     i = the (array t);
                     (new_prio, t') = recalc_task_prio t (timestamp t + delta);
                     q = upd_task p (\<lambda>_. t') q
                 in if prio t' \<noteq> new_prio then
                      let q = dequeue_task p i q;
                          q = upd_task p (\<lambda>t. t\<lparr>prio := new_prio\<rparr>) q
                      in enqueue_task p i q
                    else q
               else q)
      in upd_task p (\<lambda>t. t\<lparr>sleep_type_f := SLEEP_NORMAL\<rparr>) q)"

definition switch_tasks :: "u64 \<Rightarrow> u64 \<Rightarrow> nat \<Rightarrow> nat \<Rightarrow> rq \<Rightarrow> rq" where
  "switch_tasks now run_time prev nxt q =
     (let q = upd_task prev (\<lambda>t. t\<lparr>need_resched := False\<rparr>) q;
          q = update_cpu_clock prev now q;
          q = upd_task prev (\<lambda>t. t\<lparr>sleep_avg := sleep_avg t - run_time\<rparr>) q;
          q = upd_task prev (\<lambda>t. if sint (sleep_avg t) \<le> 0 then t\<lparr>sleep_avg := 0\<rparr> else t) q;
          q = upd_task prev (\<lambda>t. t\<lparr>timestamp := now, last_ran := now\<rparr>) q
      in if prev \<noteq> nxt
         then (upd_task nxt (\<lambda>t. t\<lparr>timestamp := now, last_ran := now\<rparr>) q)
                \<lparr>nr_switches := nr_switches q + 1, curr := nxt\<rparr>
         else q)"

text \<open>One pass over the body of \<^verbatim>\<open>schedule\<close>, and the loop: the task that now runs goes round again if
  it is marked to be rescheduled. Each pass reads the clock.\<close>

definition schedule_pass :: "bool \<Rightarrow> (nat \<Rightarrow> bool) \<Rightarrow> u64 \<Rightarrow> rq \<Rightarrow> rq option" where
  "schedule_pass preempt_active signal_pending now q =
     (let prev = curr q; run_time = sched_run_time (tasks q prev) now
      in do {
        q \<leftarrow> sched_put_prev preempt_active (signal_pending prev) prev q;
        if nr_running q = 0
        then Some (switch_tasks now run_time prev (idle q) (q\<lparr>expired_timestamp := 0\<rparr>))
        else do {
          let q = switch_arrays q;
          nxt \<leftarrow> pick_next q;
          Some (switch_tasks now run_time prev nxt (recalc_next now nxt q))
        }
      })"

fun schedule :: "bool \<Rightarrow> (nat \<Rightarrow> bool) \<Rightarrow> u64 list \<Rightarrow> rq \<Rightarrow> rq option" where
  "schedule preempt_active signal_pending [] q = None"
| "schedule preempt_active signal_pending (now # nows) q = do {
     q \<leftarrow> schedule_pass preempt_active signal_pending now q;
     if need_resched (tasks q (curr q)) then schedule preempt_active signal_pending nows q else Some q
   }"

subsection \<open>Creation and exit\<close>

text \<open>What \<^verbatim>\<open>copy_process\<close> has done to the new task when it calls \<^verbatim>\<open>sched_fork\<close>: a copy of the
  parent, with no waiters.\<close>

definition dup_task_struct :: "nat \<Rightarrow> rq \<Rightarrow> rq" where
  "dup_task_struct p q = upd_task p (\<lambda>_. tasks q (curr q)) q"

definition rt_mutex_init_task :: "nat \<Rightarrow> rq \<Rightarrow> rq" where
  "rt_mutex_init_task p q = upd_task p (\<lambda>t. t\<lparr>top_pi_waiter := None\<rparr>) q"

definition fork_child :: "nat \<Rightarrow> rq \<Rightarrow> rq" where
  "fork_child p q =
     (let q = upd_task p (\<lambda>t. t\<lparr>state := TASK_RUNNING\<rparr>) q;
          q = upd_task p (\<lambda>t. t\<lparr>prio := normal_prio_f (tasks q (curr q))\<rparr>) q;
          q = upd_task p (\<lambda>t. t\<lparr>array := None\<rparr>) q;
          q = upd_task p (\<lambda>t. t\<lparr>time_slice := drop_bit 1 (time_slice (tasks q (curr q)) + 1)\<rparr>) q
      in upd_task p (\<lambda>t. t\<lparr>first_time_slice := 1\<rparr>) q)"

definition sched_fork :: "u64 \<Rightarrow> u64 \<Rightarrow> nat \<Rightarrow> rq \<Rightarrow> rq" where
  "sched_fork now jiffies p q =
     (let q = fork_child p q;
          q = upd_task (curr q) (\<lambda>t. t\<lparr>time_slice := drop_bit 1 (time_slice t)\<rparr>) q;
          q = upd_task p (\<lambda>t. t\<lparr>timestamp := now\<rparr>) q
      in if time_slice (tasks q (curr q)) = 0
         then task_running_tick jiffies (curr q) (upd_task (curr q) (\<lambda>t. t\<lparr>time_slice := 1\<rparr>) q)
         else q)"

text \<open>The share of the sleep average a parent and its child keep.\<close>

definition fork_sleep_avg :: "u64 \<Rightarrow> task_struct \<Rightarrow> u64" where
  "fork_sleep_avg penalty t =
     CURRENT_BONUS t * penalty div 100 * word_of_int MAX_SLEEP_AVG div word_of_int MAX_BONUS
       * word_of_int NS_PER_JIFFY"

text \<open>\<^verbatim>\<open>list_add_tail(&p->run_list, &current->run_list)\<close>: in front of the current task.\<close>

fun insert_before :: "nat \<Rightarrow> nat \<Rightarrow> nat list \<Rightarrow> nat list" where
  "insert_before p c [] = []"
| "insert_before p c (x # xs) = (if x = c then p # x # xs else x # insert_before p c xs)"

definition link_before_current :: "nat \<Rightarrow> nat \<Rightarrow> rq \<Rightarrow> rq" where
  "link_before_current i p q =
     (let c = curr q;
          q = upd_task p (\<lambda>t. t\<lparr>prio := prio (tasks q c), normal_prio_f := normal_prio_f (tasks q c)\<rparr>) q;
          q = upd_array i (\<lambda>a. a\<lparr>queue := (\<lambda>k. insert_before p c (queue a k))\<rparr>) q;
          q = upd_task p (\<lambda>t. t\<lparr>array := Some i\<rparr>) q;
          q = upd_array i (\<lambda>a. a\<lparr>nr_active := nr_active a + 1\<rparr>) q
      in inc_nr_running p q)"

definition wake_up_new_task :: "bool \<Rightarrow> nat \<Rightarrow> rq \<Rightarrow> rq option" where
  "wake_up_new_task clone_vm p q =
     (if state (tasks q p) \<noteq> TASK_RUNNING then None
      else
        let q = upd_task p (\<lambda>t. t\<lparr>sleep_avg := fork_sleep_avg CHILD_PENALTY t\<rparr>) q;
            q = upd_task p (\<lambda>t. let (pr, t) = effective_prio t in t\<lparr>prio := pr\<rparr>) q;
            c = curr q;
            q = (if \<not> clone_vm then
                   set_need_resched c
                     (case array (tasks q c) of
                        None \<Rightarrow> activate_task_on p q
                      | Some i \<Rightarrow> link_before_current i p q)
                 else activate_task_on p q)
        in Some (upd_task c (\<lambda>t. t\<lparr>sleep_avg := fork_sleep_avg PARENT_PENALTY t\<rparr>) q))"

definition recover_slice :: "nat \<Rightarrow> nat \<Rightarrow> rq \<Rightarrow> rq" where
  "recover_slice parent p q =
     (if first_time_slice (tasks q p) \<noteq> 0 then
        let q = upd_task parent (\<lambda>t. t\<lparr>time_slice := time_slice t + time_slice (tasks q p)\<rparr>) q
        in if task_timeslice (tasks q p) < time_slice (tasks q parent)
           then upd_task parent (\<lambda>t. t\<lparr>time_slice := task_timeslice (tasks q p)\<rparr>) q else q
      else q)"

definition sched_exit :: "nat \<Rightarrow> nat \<Rightarrow> rq \<Rightarrow> rq" where
  "sched_exit parent p q =
     (let q = recover_slice parent p q
      in if sleep_avg (tasks q p) < sleep_avg (tasks q parent)
         then upd_task parent (\<lambda>t. t\<lparr>sleep_avg := sleep_avg t div (EXIT_WEIGHT + 1) * EXIT_WEIGHT
                                     + sleep_avg (tasks q p) div (EXIT_WEIGHT + 1)\<rparr>) q
         else q)"

subsection \<open>Changing priorities\<close>

definition task_running :: "nat \<Rightarrow> rq \<Rightarrow> bool" where
  "task_running p q = (curr q = p)"

definition rt_mutex_getprio :: "task_struct \<Rightarrow> int" where
  "rt_mutex_getprio t = (case top_pi_waiter t of None \<Rightarrow> normal_prio_f t | Some w \<Rightarrow> min w (normal_prio_f t))"

text \<open>The reschedule rule that a change of priority ends with.\<close>

definition resched_after :: "int \<Rightarrow> nat \<Rightarrow> rq \<Rightarrow> rq" where
  "resched_after oldprio p q =
     (if task_running p q then if oldprio < prio (tasks q p) then resched_task (curr q) q else q
      else if TASK_PREEMPTS_CURR p q then resched_task (curr q) q else q)"

definition rt_mutex_setprio :: "nat \<Rightarrow> int \<Rightarrow> rq \<Rightarrow> rq option" where
  "rt_mutex_setprio p new_prio q =
     (if new_prio < 0 \<or> MAX_PRIO < new_prio then None
      else
        let oldprio = prio (tasks q p); arr = array (tasks q p);
            q = (case arr of None \<Rightarrow> q | Some i \<Rightarrow> dequeue_task p i q);
            q = upd_task p (\<lambda>t. t\<lparr>prio := new_prio\<rparr>) q
        in Some (case arr of None \<Rightarrow> q
             | Some i \<Rightarrow> resched_after oldprio p
                 (enqueue_task p (if rt_task (tasks q p) then active q else i) q)))"

definition rt_mutex_adjust_prio :: "nat \<Rightarrow> rq \<Rightarrow> rq option" where
  "rt_mutex_adjust_prio p q =
     (let pr = rt_mutex_getprio (tasks q p)
      in if prio (tasks q p) \<noteq> pr then rt_mutex_setprio p pr q else Some q)"

definition set_user_nice :: "nat \<Rightarrow> int \<Rightarrow> rq \<Rightarrow> rq" where
  "set_user_nice p nice q =
     (if TASK_NICE (tasks q p) = nice \<or> nice < -20 \<or> 19 < nice then q
      else if has_rt_policy (tasks q p) then upd_task p (\<lambda>t. t\<lparr>static_prio := NICE_TO_PRIO nice\<rparr>) q
      else
        let arr = array (tasks q p);
            q = (case arr of None \<Rightarrow> q | Some i \<Rightarrow> dec_raw_weighted_load p (dequeue_task p i q));
            q = upd_task p (\<lambda>t. t\<lparr>static_prio := NICE_TO_PRIO nice\<rparr>) q;
            q = upd_task p set_load_weight q;
            old_prio = prio (tasks q p);
            q = upd_task p (\<lambda>t. let (pr, t) = effective_prio t in t\<lparr>prio := pr\<rparr>) q;
            delta = prio (tasks q p) - old_prio
        in case arr of None \<Rightarrow> q
           | Some i \<Rightarrow>
               let q = inc_raw_weighted_load p (enqueue_task p i q)
               in if delta < 0 \<or> (0 < delta \<and> task_running p q) then resched_task (curr q) q else q)"

definition can_nice :: "u64 \<Rightarrow> bool \<Rightarrow> int \<Rightarrow> bool" where
  "can_nice rlim_nice capable nice = (let nice_rlim = 20 - nice in word_of_int nice_rlim \<le> rlim_nice \<or> capable)"

definition sys_nice :: "u64 \<Rightarrow> bool \<Rightarrow> (int \<Rightarrow> s64) \<Rightarrow> int \<Rightarrow> rq \<Rightarrow> s64 \<times> rq" where
  "sys_nice rlim_nice capable security_task_setnice increment q =
     (let increment = (if increment < -40 then -40 else increment);
          increment = (if 40 < increment then 40 else increment);
          nice = PRIO_TO_NICE (static_prio (tasks q (curr q))) + increment;
          nice = (if nice < -20 then -20 else nice);
          nice = (if 19 < nice then 19 else nice)
      in if increment < 0 \<and> \<not> can_nice rlim_nice capable nice then (-1, q)
         else let retval = security_task_setnice nice
              in if retval \<noteq> 0 then (retval, q) else (0, set_user_nice (curr q) nice q))"

definition task_prio :: "task_struct \<Rightarrow> int" where
  "task_prio t = prio t - MAX_RT_PRIO"

definition task_nice :: "task_struct \<Rightarrow> int" where
  "task_nice t = TASK_NICE t"

definition setscheduler :: "nat \<Rightarrow> policy \<Rightarrow> int \<Rightarrow> rq \<Rightarrow> rq option" where
  "setscheduler p pol pr q =
     (if array (tasks q p) \<noteq> None then None
      else
        let q = upd_task p (\<lambda>t. t\<lparr>policy_f := pol\<rparr>) q;
            q = upd_task p (\<lambda>t. t\<lparr>rt_priority := pr\<rparr>) q;
            q = upd_task p (\<lambda>t. t\<lparr>normal_prio_f := normal_prio t\<rparr>) q;
            q = upd_task p (\<lambda>t. t\<lparr>prio := rt_mutex_getprio t\<rparr>) q;
            q = (if pol = SCHED_BATCH then upd_task p (\<lambda>t. t\<lparr>sleep_avg := 0\<rparr>) q else q)
        in Some (upd_task p set_load_weight q))"

text \<open>Policies as numbers.\<close>

definition policy_of :: "int \<Rightarrow> policy option" where
  "policy_of n = (if n = 0 then Some SCHED_NORMAL else if n = 1 then Some SCHED_FIFO
     else if n = 2 then Some SCHED_RR else if n = 3 then Some SCHED_BATCH else None)"

definition policy_num :: "policy \<Rightarrow> int" where
  "policy_num pol = (case pol of SCHED_NORMAL \<Rightarrow> 0 | SCHED_FIFO \<Rightarrow> 1 | SCHED_RR \<Rightarrow> 2 | SCHED_BATCH \<Rightarrow> 3)"

definition MAX_USER_RT_PRIO :: int where "MAX_USER_RT_PRIO = 100"

text \<open>Who asks: the capability, the limit on real-time priorities (absent when the task has no signal
  handlers left), whether the user matches, and the answer of the security module.\<close>

record sched_caller =
  cap_sys_nice :: bool
  rlim_rtprio :: "u64 option"
  same_user :: bool
  security_retval :: int

definition setscheduler_allowed :: "sched_caller \<Rightarrow> task_struct \<Rightarrow> policy \<Rightarrow> int \<Rightarrow> int" where
  "setscheduler_allowed c t pol pr =
     (if cap_sys_nice c then 0
      else if is_rt_policy pol \<and> rlim_rtprio c = None then -3
      else if is_rt_policy pol \<and> pol \<noteq> policy_f t \<and> the (rlim_rtprio c) = 0 then -1
      else if is_rt_policy pol \<and> rt_priority t < pr \<and> uint (the (rlim_rtprio c)) < pr then -1
      else if \<not> same_user c then -1 else 0)"

text \<open>The change itself, under the locks. The priorities that \<^verbatim>\<open>rt_mutex_adjust_pi\<close> then passes on
  along the chain of lock owners are the argument \<open>chain\<close>.\<close>

definition change_scheduler :: "nat \<Rightarrow> policy \<Rightarrow> int \<Rightarrow> rq \<Rightarrow> rq option" where
  "change_scheduler p pol pr q =
     (let arr = array (tasks q p);
          q = (if arr \<noteq> None then deactivate_task p q else q);
          oldprio = prio (tasks q p)
      in do {
        q \<leftarrow> setscheduler p pol pr q;
        Some (if arr \<noteq> None then resched_after oldprio p (activate_task_on p q) else q)
      })"

fun adjust_pi_chain :: "(nat \<times> int) list \<Rightarrow> rq \<Rightarrow> rq option" where
  "adjust_pi_chain [] q = Some q"
| "adjust_pi_chain ((p, pr) # ps) q = do { q \<leftarrow> rt_mutex_setprio p pr q; adjust_pi_chain ps q }"

definition sched_setscheduler ::
  "sched_caller \<Rightarrow> (nat \<times> int) list \<Rightarrow> nat \<Rightarrow> int \<Rightarrow> int \<Rightarrow> rq \<Rightarrow> (int \<times> rq) option" where
  "sched_setscheduler c chain p policy sched_priority q =
     (let t = tasks q p
      in case (if policy < 0 then Some (policy_f t) else policy_of policy) of
           None \<Rightarrow> Some (-22, q)
         | Some pol \<Rightarrow>
             if sched_priority < 0 \<or> (has_mm t \<and> MAX_USER_RT_PRIO - 1 < sched_priority) \<or>
                (\<not> has_mm t \<and> MAX_RT_PRIO - 1 < sched_priority) then Some (-22, q)
             else if is_rt_policy pol \<noteq> (sched_priority \<noteq> 0) then Some (-22, q)
             else if setscheduler_allowed c t pol sched_priority \<noteq> 0
             then Some (setscheduler_allowed c t pol sched_priority, q)
             else if security_retval c \<noteq> 0 then Some (security_retval c, q)
             else do {
               q \<leftarrow> change_scheduler p pol sched_priority q;
               q \<leftarrow> adjust_pi_chain chain q;
               Some (0, q)
             })"

text \<open>The system calls over it; \<open>lookup\<close> is \<^verbatim>\<open>find_task_by_pid\<close> and \<open>param\<close> the user's structure
  (\<open>None\<close> for a null pointer, \<open>Some None\<close> for one that cannot be read).\<close>

definition find_process_by_pid :: "(int \<Rightarrow> nat option) \<Rightarrow> int \<Rightarrow> rq \<Rightarrow> nat option" where
  "find_process_by_pid find_task_by_pid pid q = (if pid \<noteq> 0 then find_task_by_pid pid else Some (curr q))"

definition do_sched_setscheduler ::
  "sched_caller \<Rightarrow> (nat \<times> int) list \<Rightarrow> (int \<Rightarrow> nat option) \<Rightarrow> int \<Rightarrow> int \<Rightarrow> int option option \<Rightarrow> rq \<Rightarrow> (int \<times> rq) option" where
  "do_sched_setscheduler c chain lookup pid policy param q =
     (case param of None \<Rightarrow> Some (-22, q)
      | Some lparam \<Rightarrow>
          if pid < 0 then Some (-22, q)
          else case lparam of None \<Rightarrow> Some (-14, q)
          | Some sched_priority \<Rightarrow>
              (case find_process_by_pid lookup pid q of None \<Rightarrow> Some (-3, q)
               | Some p \<Rightarrow> sched_setscheduler c chain p policy sched_priority q))"

definition sys_sched_setscheduler ::
  "sched_caller \<Rightarrow> (nat \<times> int) list \<Rightarrow> (int \<Rightarrow> nat option) \<Rightarrow> int \<Rightarrow> int \<Rightarrow> int option option \<Rightarrow> rq \<Rightarrow> (int \<times> rq) option" where
  "sys_sched_setscheduler c chain lookup pid policy param q =
     (if policy < 0 then Some (-22, q) else do_sched_setscheduler c chain lookup pid policy param q)"

definition sys_sched_setparam ::
  "sched_caller \<Rightarrow> (nat \<times> int) list \<Rightarrow> (int \<Rightarrow> nat option) \<Rightarrow> int \<Rightarrow> int option option \<Rightarrow> rq \<Rightarrow> (int \<times> rq) option" where
  "sys_sched_setparam c chain lookup pid param q = do_sched_setscheduler c chain lookup pid (-1) param q"

definition sys_sched_getscheduler :: "(int \<Rightarrow> nat option) \<Rightarrow> (nat \<Rightarrow> int) \<Rightarrow> int \<Rightarrow> rq \<Rightarrow> int" where
  "sys_sched_getscheduler lookup security_task_getscheduler pid q =
     (if pid < 0 then -22
      else case find_process_by_pid lookup pid q of None \<Rightarrow> -3
        | Some p \<Rightarrow> let retval = security_task_getscheduler p
                    in if retval \<noteq> 0 then retval else policy_num (policy_f (tasks q p)))"

definition sys_sched_get_priority_max :: "int \<Rightarrow> int" where
  "sys_sched_get_priority_max policy =
     (case policy_of policy of None \<Rightarrow> -22
      | Some pol \<Rightarrow> if pol = SCHED_FIFO \<or> pol = SCHED_RR then MAX_USER_RT_PRIO - 1 else 0)"

definition sys_sched_get_priority_min :: "int \<Rightarrow> int" where
  "sys_sched_get_priority_min policy =
     (case policy_of policy of None \<Rightarrow> -22
      | Some pol \<Rightarrow> if pol = SCHED_FIFO \<or> pol = SCHED_RR then 1 else 0)"

text \<open>\<^verbatim>\<open>normalize_rt_tasks\<close> over the list of all threads.\<close>

fun normalize_rt_tasks :: "nat list \<Rightarrow> rq \<Rightarrow> rq option" where
  "normalize_rt_tasks [] q = Some q"
| "normalize_rt_tasks (p # ps) q =
     (if \<not> rt_task (tasks q p) then normalize_rt_tasks ps q
      else do {
        let arr = array (tasks q p);
        q \<leftarrow> setscheduler p SCHED_NORMAL 0 (if arr \<noteq> None then deactivate_task p q else q);
        normalize_rt_tasks ps
          (if arr \<noteq> None then let q = activate_task_on p q in resched_task (curr q) q else q)
      })"

subsection \<open>Yielding and starting\<close>

text \<open>The counters of \<^verbatim>\<open>sys_sched_yield\<close> read the array of the current task: an idle task has none.\<close>

definition yield_move :: "rq \<Rightarrow> rq option" where
  "yield_move q =
     (let c = curr q; target = (if rt_task (tasks q c) then active q else expired q)
      in case array (tasks q c) of None \<Rightarrow> None
         | Some i \<Rightarrow> Some (if i \<noteq> target then enqueue_task c target (dequeue_task c i q)
                           else requeue_task c i q))"

definition sys_sched_yield :: "(nat \<Rightarrow> bool) \<Rightarrow> u64 list \<Rightarrow> rq \<Rightarrow> (int \<times> rq) option" where
  "sys_sched_yield signal_pending nows q = do {
     q \<leftarrow> yield_move q;
     q \<leftarrow> schedule False signal_pending nows q;
     Some (0, q)
   }"

definition yield :: "(nat \<Rightarrow> bool) \<Rightarrow> u64 list \<Rightarrow> rq \<Rightarrow> rq option" where
  "yield signal_pending nows q =
     map_option snd (sys_sched_yield signal_pending nows
       (upd_task (curr q) (\<lambda>t. t\<lparr>state := TASK_RUNNING\<rparr>) q))"

definition init_idle :: "u64 \<Rightarrow> nat \<Rightarrow> rq \<Rightarrow> rq" where
  "init_idle now p q =
     (upd_task p (\<lambda>t. t\<lparr>timestamp := now, sleep_avg := 0, array := None, prio := MAX_PRIO,
        normal_prio_f := MAX_PRIO, state := TASK_RUNNING\<rparr>) q)\<lparr>curr := p, idle := p\<rparr>"

text \<open>The boot processor's run queue, which is static and therefore zero before; \<open>task0\<close> is
  \<^verbatim>\<open>init_task\<close>, number 0, and the other tasks do not exist yet.\<close>

definition init_prio_array :: "prio_array \<Rightarrow> prio_array" where
  "init_prio_array a = a\<lparr>queue := (\<lambda>k. if 0 \<le> k \<and> k < MAX_PRIO then [] else queue a k),
     bitmap := (\<lambda>k. if 0 \<le> k \<and> k < MAX_PRIO then False else if k = MAX_PRIO then True else bitmap a k)\<rparr>"

definition sched_init :: "u64 \<Rightarrow> nat \<Rightarrow> rq \<Rightarrow> rq" where
  "sched_init now current q =
     (let q = q\<lparr>nr_running := 0, active := 0, expired := 1, best_expired_prio := MAX_PRIO\<rparr>;
          q = upd_array 0 init_prio_array q;
          q = upd_array 1 init_prio_array q;
          q = upd_task current set_load_weight q
      in init_idle now current q)"

end
