(* ===== verification/Sched_Queues.thy ===== *)
theory Sched_Queues
  imports Sched
begin

text \<open>
  The run lists of the scheduler: what a well-formed priority array is, and what linking, unlinking
  and requeueing a task do to it. The location map \<open>loc\<close> says in which array and at which priority
  a task is linked; the lemmas give the map after each operation, so that a caller that takes a task
  out, changes its priority and puts it back composes them.
\<close>

subsection \<open>One array\<close>

definition array_ok :: "prio_array \<Rightarrow> (nat \<rightharpoonup> int) \<Rightarrow> bool" where
  "array_ok a L \<longleftrightarrow> finite (dom L) \<and> (\<forall>p k. L p = Some k \<longrightarrow> 0 \<le> k \<and> k < MAX_PRIO) \<and>
     (\<forall>k. distinct (queue a k) \<and> set (queue a k) = {p. L p = Some k}) \<and>
     (\<forall>k. 0 \<le> k \<longrightarrow> k < MAX_PRIO \<longrightarrow> bitmap a k = (queue a k \<noteq> [])) \<and> bitmap a MAX_PRIO \<and>
     nr_active a = of_nat (card (dom L))"

lemma array_okI:
  assumes "finite (dom L)" "\<And>p k. L p = Some k \<Longrightarrow> 0 \<le> k \<and> k < MAX_PRIO"
    and "\<And>k. distinct (queue a k)" "\<And>k. set (queue a k) = {p. L p = Some k}"
    and "\<And>k. 0 \<le> k \<Longrightarrow> k < MAX_PRIO \<Longrightarrow> bitmap a k = (queue a k \<noteq> [])" "bitmap a MAX_PRIO"
    and "nr_active a = of_nat (card (dom L))"
  shows "array_ok a L"
  unfolding array_ok_def using assms by blast

lemma array_okD:
  assumes "array_ok a L"
  shows "finite (dom L)" "\<And>p k. L p = Some k \<Longrightarrow> 0 \<le> k \<and> k < MAX_PRIO"
    and "\<And>k. distinct (queue a k)" "\<And>k. set (queue a k) = {p. L p = Some k}"
    and "\<And>k. 0 \<le> k \<Longrightarrow> k < MAX_PRIO \<Longrightarrow> bitmap a k = (queue a k \<noteq> [])" "bitmap a MAX_PRIO"
    and "nr_active a = of_nat (card (dom L))"
  using assms unfolding array_ok_def by blast+

definition unlink :: "nat \<Rightarrow> prio_array \<Rightarrow> prio_array" where
  "unlink p a = a\<lparr>queue := (\<lambda>k. remove1 p (queue a k))\<rparr>"

lemma unlink_absent: "array_ok a L \<Longrightarrow> L p = None \<Longrightarrow> unlink p a = a"
  by (simp add: unlink_def array_okD(4) remove1_idem)

lemma array_ok_remove:
  assumes ok: "array_ok a L" and p: "L p = Some k"
  shows "array_ok ((unlink p a)\<lparr>nr_active := nr_active a - 1,
      bitmap := (if remove1 p (queue a k) = [] then (bitmap a)(k := False) else bitmap a)\<rparr>) (L(p := None))"
    (is "array_ok ?a ?L")
proof (rule array_okI)
  note D = array_okD[OF ok]
  show "finite (dom ?L)" using D(1) by simp
  show "0 \<le> k' \<and> k' < MAX_PRIO" if "?L x = Some k'" for x k'
    using that D(2) by (simp split: if_splits)
  show "distinct (queue ?a k')" for k' using D(3) by (simp add: unlink_def)
  show "set (queue ?a k') = {x. ?L x = Some k'}" for k' using D(3,4) by (auto simp: unlink_def)
  show "bitmap ?a k' = (queue ?a k' \<noteq> [])" if "0 \<le> k'" "k' < MAX_PRIO" for k'
  proof (cases "k' = k")
    case True
    have "p \<in> set (queue a k)" using D(4) p by simp
    then have "queue a k \<noteq> []" by auto
    then show ?thesis using True D(5)[OF that] by (simp add: unlink_def)
  next
    case False
    then have "remove1 p (queue a k') = queue a k'" using D(4) p by (simp add: remove1_idem)
    then show ?thesis using False D(5)[OF that] by (simp add: unlink_def)
  qed
  show "bitmap ?a MAX_PRIO" using D(6) D(2)[OF p] by simp
  have "p \<in> dom L" using p by blast
  then have "card (dom L) = Suc (card (dom L - {p}))" by (rule card.remove[OF D(1)])
  then show "nr_active ?a = of_nat (card (dom ?L))" using D(7) by simp
qed

lemma array_ok_insert:
  assumes ok: "array_ok a L" and p: "L p = None" and k: "0 \<le> k" "k < MAX_PRIO"
    and l: "distinct l" "set l = insert p (set (queue a k))"
  shows "array_ok (a\<lparr>queue := (queue a)(k := l), bitmap := (bitmap a)(k := True),
      nr_active := nr_active a + 1\<rparr>) (L(p \<mapsto> k))" (is "array_ok ?a ?L")
proof (rule array_okI)
  note D = array_okD[OF ok]
  show "finite (dom ?L)" using D(1) by simp
  show "0 \<le> k' \<and> k' < MAX_PRIO" if "?L x = Some k'" for x k'
    using that D(2) k by (auto split: if_splits)
  show "distinct (queue ?a k')" for k' using D(3) l by simp
  show "set (queue ?a k') = {x. ?L x = Some k'}" for k' using D(4) l p by auto
  have "l \<noteq> []" using l(2) by auto
  then show "bitmap ?a k' = (queue ?a k' \<noteq> [])" if "0 \<le> k'" "k' < MAX_PRIO" for k'
    using D(5)[OF that] by simp
  show "bitmap ?a MAX_PRIO" using D(6) by simp
  have "card (insert p (dom L)) = Suc (card (dom L))" using D(1) p by (simp add: domIff)
  then show "nr_active ?a = of_nat (card (dom ?L))" using D(7) by simp
qed

lemma array_ok_reorder:
  assumes ok: "array_ok a L" and l: "\<And>k. distinct (f k) \<and> set (f k) = set (queue a k)"
  shows "array_ok (a\<lparr>queue := f\<rparr>) L"
proof (rule array_okI)
  note D = array_okD[OF ok]
  have "f k = [] \<longleftrightarrow> queue a k = []" for k using l[of k] by (metis set_empty)
  then show "bitmap (a\<lparr>queue := f\<rparr>) k = (queue (a\<lparr>queue := f\<rparr>) k \<noteq> [])" if "0 \<le> k" "k < MAX_PRIO" for k
    using D(5)[OF that] by simp
qed (use array_okD[OF ok] l in \<open>auto\<close>)

lemma find_upto_Some:
  assumes "List.find P [a..b] = Some (k::int)"
  shows "P k \<and> a \<le> k \<and> k \<le> b \<and> (\<forall>j. a \<le> j \<and> j < k \<longrightarrow> \<not> P j)"
  using assms
proof (induction a b rule: upto.induct)
  case (1 a b)
  show ?case
  proof (cases "a \<le> b")
    case le: True
    show ?thesis
    proof (cases "P a")
      case True with le 1 show ?thesis by (auto simp: upto.simps[of a b])
    next
      case False
      then have k: "P k \<and> a + 1 \<le> k \<and> k \<le> b \<and> (\<forall>j. a + 1 \<le> j \<and> j < k \<longrightarrow> \<not> P j)"
        using 1 le by (simp add: upto.simps[of a b])
      have "\<not> P j" if "a \<le> j" "j < k" for j using that k False by (cases "j = a") auto
      with k show ?thesis by auto
    qed
  qed (use 1 in simp)
qed

lemma find_upto_None: "List.find P [a..b] = None \<Longrightarrow> a \<le> j \<Longrightarrow> j \<le> b \<Longrightarrow> \<not> P (j::int)"
  by (auto simp: find_None_iff)

lemma sched_find_first_bit_least:
  assumes b: "b k" "0 \<le> k" "k < 192"
  obtains j where "sched_find_first_bit b = Some j" "b j" "0 \<le> j" "j \<le> k" "\<And>i. 0 \<le> i \<Longrightarrow> i < j \<Longrightarrow> \<not> b i"
proof -
  consider (a) j where "List.find b [0..63] = Some j"
    | (b) j where "List.find b [0..63] = None" "List.find b [64..127] = Some j"
    | (c) j where "List.find b [0..63] = None" "List.find b [64..127] = None" "List.find b [128..191] = Some j"
    | (d) "List.find b [0..63] = None" "List.find b [64..127] = None" "List.find b [128..191] = None"
    by (metis option.exhaust)
  then have "\<exists>j. sched_find_first_bit b = Some j \<and> b j \<and> 0 \<le> j \<and> (\<forall>i. 0 \<le> i \<and> i < j \<longrightarrow> \<not> b i)"
  proof cases
    case a then show ?thesis using find_upto_Some[OF a] by (simp add: sched_find_first_bit_def)
  next
    case b
    have "\<not> b i" if "0 \<le> i" "i < j" for i
      using that find_upto_Some[OF b(2)] find_upto_None[OF b(1), of i] by (cases "i \<le> 63") auto
    then show ?thesis using b find_upto_Some[OF b(2)] by (auto simp: sched_find_first_bit_def)
  next
    case c
    have "\<not> b i" if "0 \<le> i" "i < j" for i
      using that find_upto_Some[OF c(3)] find_upto_None[OF c(1), of i] find_upto_None[OF c(2), of i]
      by (cases "i \<le> 63"; cases "i \<le> 127") auto
    then show ?thesis using c find_upto_Some[OF c(3)] by (auto simp: sched_find_first_bit_def)
  next
    case d
    have False using b find_upto_None[OF d(1), of k] find_upto_None[OF d(2), of k] find_upto_None[OF d(3), of k]
      by (cases "k \<le> 63"; cases "k \<le> 127") auto
    then show ?thesis ..
  qed
  then obtain j where j: "sched_find_first_bit b = Some j" "b j" "0 \<le> j" "\<forall>i. 0 \<le> i \<and> i < j \<longrightarrow> \<not> b i" by blast
  then have "j \<le> k" using b by (meson not_le)
  with j that show ?thesis by blast
qed

text \<open>The search of a well-formed array that has tasks: the head of a queue of the best priority.\<close>

lemma array_ok_first:
  assumes ok: "array_ok a L" and x: "L x = Some k"
  obtains j p ps where "sched_find_first_bit (bitmap a) = Some j" "queue a j = p # ps" "L p = Some j"
    "\<And>y k. L y = Some k \<Longrightarrow> j \<le> k"
proof -
  note D = array_okD[OF ok]
  have bit: "bitmap a k" "0 \<le> k" "k < MAX_PRIO" if "L x = Some k" for x k
  proof -
    show k: "0 \<le> k" "k < MAX_PRIO" using D(2)[OF that] by auto
    have "x \<in> set (queue a k)" using D(4) that by simp
    then show "bitmap a k" using D(5)[OF k] by auto
  qed
  have "k < 192" using bit(3)[OF x] by (simp add: sched_consts)
  with bit(1,2)[OF x] obtain j where j: "sched_find_first_bit (bitmap a) = Some j" "bitmap a j" "0 \<le> j" "j \<le> k"
    "\<And>i. 0 \<le> i \<Longrightarrow> i < j \<Longrightarrow> \<not> bitmap a i" by (rule sched_find_first_bit_least) blast
  then have "queue a j \<noteq> []" using D(5) bit(3)[OF x] by simp
  then obtain p ps where p: "queue a j = p # ps" by (cases "queue a j") auto
  then have "L p = Some j" using D(4)[of j] by (auto simp: set_eq_iff)
  moreover have "j \<le> k'" if "L y = Some k'" for y k'
    using j(5)[of k'] bit[OF that] by force
  ultimately show ?thesis using that j(1) p by blast
qed

subsection \<open>Fields under updates\<close>

lemma upd_task_sel [simp]:
  "tasks (upd_task p f q) = (tasks q)(p := f (tasks q p))" "arrays (upd_task p f q) = arrays q"
  "active (upd_task p f q) = active q" "expired (upd_task p f q) = expired q"
  "nr_running (upd_task p f q) = nr_running q" "raw_weighted_load (upd_task p f q) = raw_weighted_load q"
  "curr (upd_task p f q) = curr q" "idle (upd_task p f q) = idle q"
  "expired_timestamp (upd_task p f q) = expired_timestamp q"
  "best_expired_prio (upd_task p f q) = best_expired_prio q"
  "nr_uninterruptible (upd_task p f q) = nr_uninterruptible q"
  by (simp_all add: upd_task_def)

lemma upd_array_sel [simp]:
  "tasks (upd_array i g q) = tasks q" "arrays (upd_array i g q) = (arrays q)(i := g (arrays q i))"
  "active (upd_array i g q) = active q" "expired (upd_array i g q) = expired q"
  "nr_running (upd_array i g q) = nr_running q" "raw_weighted_load (upd_array i g q) = raw_weighted_load q"
  "curr (upd_array i g q) = curr q" "idle (upd_array i g q) = idle q"
  by (simp_all add: upd_array_def)

lemma list_del_sel [simp]:
  "tasks (list_del_task p q) = tasks q" "arrays (list_del_task p q) = (\<lambda>i. unlink p (arrays q i))"
  "active (list_del_task p q) = active q" "expired (list_del_task p q) = expired q"
  "nr_running (list_del_task p q) = nr_running q" "raw_weighted_load (list_del_task p q) = raw_weighted_load q"
  "curr (list_del_task p q) = curr q" "idle (list_del_task p q) = idle q"
  by (simp_all add: list_del_task_def unlink_def)

lemma unlink_sel [simp]:
  "nr_active (unlink p a) = nr_active a" "bitmap (unlink p a) = bitmap a"
  "queue (unlink p a) = (\<lambda>k. remove1 p (queue a k))"
  by (simp_all add: unlink_def)

lemma dequeue_sel [simp]:
  "tasks (dequeue_task p i q) = tasks q"
  "active (dequeue_task p i q) = active q" "expired (dequeue_task p i q) = expired q"
  "nr_running (dequeue_task p i q) = nr_running q" "raw_weighted_load (dequeue_task p i q) = raw_weighted_load q"
  "curr (dequeue_task p i q) = curr q" "idle (dequeue_task p i q) = idle q"
  by (simp_all add: dequeue_task_def Let_def)

lemma link_sel [simp]:
  "tasks (link_task f p i q) = (tasks q)(p := (tasks q p)\<lparr>array := Some i\<rparr>)"
  "active (link_task f p i q) = active q" "expired (link_task f p i q) = expired q"
  "nr_running (link_task f p i q) = nr_running q" "raw_weighted_load (link_task f p i q) = raw_weighted_load q"
  "curr (link_task f p i q) = curr q" "idle (link_task f p i q) = idle q"
  by (simp_all add: link_task_def Let_def)

lemma enqueue_sel [simp]:
  "tasks (enqueue_task p i q) = (tasks q)(p := (tasks q p)\<lparr>array := Some i\<rparr>)"
  "active (enqueue_task p i q) = active q" "expired (enqueue_task p i q) = expired q"
  "nr_running (enqueue_task p i q) = nr_running q" "raw_weighted_load (enqueue_task p i q) = raw_weighted_load q"
  "curr (enqueue_task p i q) = curr q" "idle (enqueue_task p i q) = idle q"
  by (simp_all add: enqueue_task_def)

lemma requeue_sel [simp]:
  "tasks (requeue_task p i q) = tasks q"
  "active (requeue_task p i q) = active q" "expired (requeue_task p i q) = expired q"
  "nr_running (requeue_task p i q) = nr_running q" "raw_weighted_load (requeue_task p i q) = raw_weighted_load q"
  "curr (requeue_task p i q) = curr q" "idle (requeue_task p i q) = idle q"
  by (simp_all add: requeue_task_def Let_def)

subsection \<open>Both arrays\<close>

type_synonym location = "nat \<rightharpoonup> nat \<times> int"

definition in_array :: "nat \<Rightarrow> location \<Rightarrow> nat \<rightharpoonup> int" where
  "in_array i loc = (\<lambda>p. case loc p of Some (j, k) \<Rightarrow> if j = i then Some k else None | None \<Rightarrow> None)"

lemma in_array_upd [simp]:
  "in_array i (loc(p := None)) = (in_array i loc)(p := None)"
  "in_array i (loc(p \<mapsto> (j, k))) = (if j = i then (in_array i loc)(p \<mapsto> k) else (in_array i loc)(p := None))"
  by (auto simp: in_array_def)

lemma in_array_eq [simp]: "in_array i loc p = Some k \<longleftrightarrow> loc p = Some (i, k)"
  by (auto simp: in_array_def split: option.split)

lemma in_array_None: "loc p = None \<Longrightarrow> in_array i loc p = None"
  by (simp add: in_array_def)

lemma in_array_other: "loc p = Some (j, k) \<Longrightarrow> j \<noteq> i \<Longrightarrow> in_array i loc p = None"
  by (simp add: in_array_def)

definition queued :: "rq \<Rightarrow> location \<Rightarrow> bool" where
  "queued q loc \<longleftrightarrow> (\<forall>i<2. array_ok (arrays q i) (in_array i loc)) \<and> (\<forall>p i k. loc p = Some (i, k) \<longrightarrow> i < 2)"

lemma queuedD:
  assumes "queued q loc"
  shows "i < 2 \<Longrightarrow> array_ok (arrays q i) (in_array i loc)"
    and "loc p = Some (j, k) \<Longrightarrow> j < 2 \<and> 0 \<le> k \<and> k < MAX_PRIO"
proof -
  show ok: "array_ok (arrays q i) (in_array i loc)" if "i < 2" for i using assms that by (simp add: queued_def)
  assume j: "loc p = Some (j, k)"
  then have "j < 2" using assms by (auto simp: queued_def)
  with j show "j < 2 \<and> 0 \<le> k \<and> k < MAX_PRIO" using array_okD(2)[OF ok[of j], of p k] by simp
qed

lemma queued_arrays: "queued q loc \<Longrightarrow> arrays q' = arrays q \<Longrightarrow> queued q' loc"
  by (simp add: queued_def)

lemma dequeue_array:
  "arrays (dequeue_task p i q) i = (unlink p (arrays q i))\<lparr>nr_active := nr_active (arrays q i) - 1,
     bitmap := (if remove1 p (queue (arrays q i) (prio (tasks q p))) = []
                then (bitmap (arrays q i))(prio (tasks q p) := False) else bitmap (arrays q i))\<rparr>"
  by (rule prio_array.equality) (simp_all add: dequeue_task_def Let_def)

lemma link_array:
  "arrays (link_task f p i q) i = (let a = arrays q i; k = prio (tasks q p)
     in a\<lparr>queue := (queue a)(k := f (queue a k)), bitmap := (bitmap a)(k := True), nr_active := nr_active a + 1\<rparr>)"
  by (rule prio_array.equality) (simp_all add: link_task_def Let_def)

lemma queued_dequeue:
  assumes q: "queued q loc" and p: "loc p = Some (i, prio (tasks q p))"
  shows "queued (dequeue_task p i q) (loc(p := None))"
proof -
  let ?k = "prio (tasks q p)"
  have i: "i < 2" using queuedD(2)[OF q p] by simp
  have "array_ok (arrays (dequeue_task p i q) j) (in_array j (loc(p := None)))" if j: "j < 2" for j
  proof (cases "j = i")
    case True
    have "in_array i loc p = Some ?k" using p by simp
    from array_ok_remove[OF queuedD(1)[OF q i] this]
    show ?thesis using True by (simp add: dequeue_array)
  next
    case False
    have ok: "array_ok (arrays q j) (in_array j loc)" using queuedD(1)[OF q j] .
    have none: "in_array j loc p = None" by (rule in_array_other[where loc = loc, OF p]) (use False in simp)
    then have "(in_array j loc)(p := None) = in_array j loc" by (simp add: fun_upd_idem)
    moreover have "arrays (dequeue_task p i q) j = arrays q j"
      using False unlink_absent[OF ok none] by (simp add: dequeue_task_def Let_def)
    ultimately show ?thesis using ok by simp
  qed
  then show ?thesis using q by (auto simp: queued_def)
qed

lemma queued_link:
  assumes q: "queued q loc" and p: "loc p = None" and i: "i < 2"
    and k: "0 \<le> prio (tasks q p)" "prio (tasks q p) < MAX_PRIO"
    and f: "\<And>l. set (f l) = insert p (set l)" "\<And>l. distinct l \<Longrightarrow> p \<notin> set l \<Longrightarrow> distinct (f l)"
  shows "queued (link_task f p i q) (loc(p \<mapsto> (i, prio (tasks q p))))"
proof -
  let ?k = "prio (tasks q p)"
  have "array_ok (arrays (link_task f p i q) j) (in_array j (loc(p \<mapsto> (i, ?k))))" if j: "j < 2" for j
  proof (cases "j = i")
    case True
    have ok: "array_ok (arrays q i) (in_array i loc)" using queuedD(1)[OF q i] .
    have none: "in_array i loc p = None" using in_array_None p .
    then have "p \<notin> set (queue (arrays q i) ?k)" using array_okD(4)[OF ok] p by simp
    then have "distinct (f (queue (arrays q i) ?k))" using f(2) array_okD(3)[OF ok] by simp
    from array_ok_insert[OF ok none k this f(1)]
    show ?thesis using True by (simp add: link_array Let_def)
  next
    case False
    have "(in_array j loc)(p := None) = in_array j loc" using in_array_None[of loc p j] p by (simp add: fun_upd_idem)
    then show ?thesis using False queuedD(1)[OF q j] by (simp add: link_task_def Let_def)
  qed
  then show ?thesis using q i by (auto simp: queued_def split: if_splits)
qed

lemmas queued_enqueue = queued_link[where f = "\<lambda>l. l @ [p]" and p = p for p, folded enqueue_task_def, simplified]

lemma queued_requeue:
  assumes q: "queued q loc" and p: "loc p = Some (i, prio (tasks q p))"
  shows "queued (requeue_task p i q) loc"
proof -
  let ?k = "prio (tasks q p)"
  have i: "i < 2" using queuedD(2)[OF q p] by simp
  have "array_ok (arrays (requeue_task p i q) j) (in_array j loc)" if j: "j < 2" for j
  proof (cases "j = i")
    case True
    have ok: "array_ok (arrays q i) (in_array i loc)" using queuedD(1)[OF q i] .
    let ?f = "(\<lambda>k. remove1 p (queue (arrays q i) k))(?k := remove1 p (queue (arrays q i) ?k) @ [p])"
    have "distinct (?f k) \<and> set (?f k) = set (queue (arrays q i) k)" for k
    proof (cases "k = ?k")
      case True
      have "p \<in> set (queue (arrays q i) ?k)" using array_okD(4)[OF ok, of ?k] p by simp
      then show ?thesis using array_okD(3)[OF ok, of ?k] True by auto
    next
      case False
      then have "p \<notin> set (queue (arrays q i) k)" using array_okD(4)[OF ok, of k] p by simp
      then show ?thesis using array_okD(3)[OF ok, of k] False by (simp add: remove1_idem)
    qed
    then have "array_ok ((arrays q i)\<lparr>queue := ?f\<rparr>) (in_array i loc)" by (rule array_ok_reorder[OF ok])
    then show ?thesis using True by (simp add: requeue_task_def Let_def unlink_def)
  next
    case False
    have ok: "array_ok (arrays q j) (in_array j loc)" using queuedD(1)[OF q j] .
    have "in_array j loc p = None" by (rule in_array_other[where loc = loc, OF p]) (use False in simp)
    then show ?thesis using False unlink_absent[OF ok] ok by (simp add: requeue_task_def Let_def)
  qed
  then show ?thesis using q by (auto simp: queued_def)
qed

lemma insert_before_absent: "c \<notin> set l \<Longrightarrow> insert_before p c l = l"
  by (induction l) auto

lemma insert_before_set: "c \<in> set l \<Longrightarrow> set (insert_before p c l) = insert p (set l)"
  by (induction l) auto

lemma insert_before_distinct: "distinct l \<Longrightarrow> p \<notin> set l \<Longrightarrow> distinct (insert_before p c l)"
proof (induction l)
  case (Cons x l)
  have "set (insert_before p c l) \<subseteq> insert p (set l)"
    using insert_before_set[of c l p] insert_before_absent[of c l p] by (cases "c \<in> set l") auto
  with Cons show ?case by auto
qed simp

text \<open>A new child is linked in front of its parent without touching the bitmap.\<close>

lemma queued_insert_before:
  assumes q: "queued q loc" and c: "loc c = Some (i, k)" and p: "loc p = None"
  shows "queued (upd_array i (\<lambda>a. a\<lparr>nr_active := nr_active a + 1\<rparr>)
     (upd_array i (\<lambda>a. a\<lparr>queue := (\<lambda>k. insert_before p c (queue a k))\<rparr>) q)) (loc(p \<mapsto> (i, k)))"
    (is "queued ?q ?loc")
proof -
  have i: "i < 2" and k: "0 \<le> k" "k < MAX_PRIO" using queuedD(2)[OF q c] by auto
  have "array_ok (arrays ?q j) (in_array j ?loc)" if j: "j < 2" for j
  proof (cases "j = i")
    case True
    have ok: "array_ok (arrays q i) (in_array i loc)" using queuedD(1)[OF q i] .
    have none: "in_array i loc p = None" using in_array_None p .
    let ?Q = "queue (arrays q i)"
    have cin: "c \<in> set (?Q k') \<longleftrightarrow> k' = k" for k' using array_okD(4)[OF ok, of k'] c by auto
    have pin: "p \<notin> set (?Q k')" for k' using array_okD(4)[OF ok, of k'] p by simp
    have "(\<lambda>k. insert_before p c (?Q k)) = ?Q(k := insert_before p c (?Q k))"
      using insert_before_absent[of c _ p] cin by (intro ext) auto
    moreover have "(bitmap (arrays q i))(k := True) = bitmap (arrays q i)"
      using array_okD(5)[OF ok k] cin[of k] by (intro fun_upd_idem) auto
    moreover have "array_ok ((arrays q i)\<lparr>queue := ?Q(k := insert_before p c (?Q k)),
       bitmap := (bitmap (arrays q i))(k := True), nr_active := nr_active (arrays q i) + 1\<rparr>)
       ((in_array i loc)(p \<mapsto> k))"
      using insert_before_set[of c "?Q k" p] insert_before_distinct[of "?Q k" p c] cin[of k] pin[of k]
        array_okD(3)[OF ok, of k]
      by (intro array_ok_insert[OF ok none k]) auto
    ultimately show ?thesis using True by simp
  next
    case False
    have "(in_array j loc)(p := None) = in_array j loc" using in_array_None[of loc p j] p by (simp add: fun_upd_idem)
    then show ?thesis using False queuedD(1)[OF q j] by simp
  qed
  then show ?thesis using q i by (auto simp: queued_def split: if_splits)
qed

end
