(* ===== verification/Sched_Inv.thy ===== *)
theory Sched_Inv
  imports Sched_Queues
begin

text \<open>
  The run queue's invariant. A task is linked exactly in the queue of its own priority in the array
  its \<open>array\<close> field names; the bitmaps, the counts of tasks and the load agree with the queues; the
  priorities and sleep averages are in range. \<open>parked p q\<close> describes the moments at which \<open>p\<close> has
  been unlinked while its fields are being changed.
\<close>

subsection \<open>The invariant\<close>

definition loc_of :: "rq \<Rightarrow> location" where
  "loc_of q p = map_option (\<lambda>i. (i, prio (tasks q p))) (array (tasks q p))"

definition running :: "rq \<Rightarrow> nat set" where
  "running q = {p. array (tasks q p) \<noteq> None}"

definition task_ok :: "task_struct \<Rightarrow> bool" where
  "task_ok t \<longleftrightarrow> MAX_RT_PRIO \<le> static_prio t \<and> static_prio t < MAX_PRIO \<and> 0 \<le> prio t \<and> prio t \<le> MAX_PRIO \<and>
     0 \<le> normal_prio_f t \<and> normal_prio_f t \<le> MAX_PRIO \<and> 0 \<le> rt_priority t \<and> rt_priority t < MAX_RT_PRIO \<and>
     (\<forall>w. top_pi_waiter t = Some w \<longrightarrow> 0 \<le> w \<and> w < MAX_PRIO) \<and> unat (sleep_avg t) \<le> 1000000000"

definition valid_pid :: "nat \<Rightarrow> bool" where
  "valid_pid p \<longleftrightarrow> 0 < p \<and> p < PID_MAX_LIMIT"

definition base :: "rq \<Rightarrow> bool" where
  "base q \<longleftrightarrow> (active q = 0 \<and> expired q = 1 \<or> active q = 1 \<and> expired q = 0) \<and> idle q = 0 \<and>
     state (tasks q 0) = TASK_RUNNING \<and> (\<forall>p. task_ok (tasks q p))"

definition parked :: "nat \<Rightarrow> rq \<Rightarrow> bool" where
  "parked p q \<longleftrightarrow> base q \<and> queued q ((loc_of q)(p := None)) \<and> (\<forall>x\<in>running q - {p}. valid_pid x)"

definition linked :: "rq \<Rightarrow> bool" where
  "linked q \<longleftrightarrow> base q \<and> queued q (loc_of q) \<and> (\<forall>x\<in>running q. valid_pid x)"

definition acct :: "nat set \<Rightarrow> nat set \<Rightarrow> rq \<Rightarrow> bool" where
  "acct N S q \<longleftrightarrow> finite N \<and> finite S \<and> nr_running q = of_nat (card N) \<and>
     raw_weighted_load q = (\<Sum>x\<in>S. word_of_int (load_weight (tasks q x)))"

definition core_inv :: "rq \<Rightarrow> bool" where
  "core_inv q \<longleftrightarrow> linked q \<and> acct (running q) (running q) q"

definition rq_inv :: "rq \<Rightarrow> bool" where
  "rq_inv q \<longleftrightarrow> core_inv q \<and> (curr q = 0 \<or> curr q \<in> running q)"

subsection \<open>What the fields decide\<close>

lemma loc_of_upd [simp]:
  "loc_of (upd_task p f q) =
     (loc_of q)(p := map_option (\<lambda>i. (i, prio (f (tasks q p)))) (array (f (tasks q p))))"
  by (auto simp: loc_of_def)

lemma running_upd [simp]:
  "running (upd_task p f q) = (if array (f (tasks q p)) = None then running q - {p} else insert p (running q))"
  by (auto simp: running_def)

lemma loc_of_None: "array (tasks q p) = None \<Longrightarrow> (loc_of q)(p := None) = loc_of q"
  by (simp add: loc_of_def fun_upd_idem)

lemma same_fields:
  assumes "tasks q' = tasks q" "arrays q' = arrays q" "active q' = active q" "expired q' = expired q"
    "idle q' = idle q"
  shows "base q' = base q" "running q' = running q" "loc_of q' = loc_of q" "queued q' loc = queued q loc"
    "parked p q' = parked p q" "linked q' = linked q"
proof -
  show b: "base q' = base q" using assms by (simp add: base_def)
  show r: "running q' = running q" using assms by (simp add: running_def)
  show l: "loc_of q' = loc_of q" using assms by (simp add: loc_of_def fun_eq_iff)
  have qd: "queued q' loc = queued q loc" for loc using assms by (simp add: queued_def)
  then show "queued q' loc = queued q loc" .
  show "parked p q' = parked p q" "linked q' = linked q" by (simp_all add: parked_def linked_def b r l qd)
qed

lemma same_inv:
  assumes "tasks q' = tasks q" "arrays q' = arrays q" "active q' = active q" "expired q' = expired q"
    "idle q' = idle q" "nr_running q' = nr_running q" "raw_weighted_load q' = raw_weighted_load q"
  shows "core_inv q' = core_inv q"
  using same_fields(6)[OF assms(1-5)] same_fields(2)[OF assms(1-5)] assms by (simp add: core_inv_def acct_def)

lemma finite_running: "linked q \<Longrightarrow> finite (running q)"
  by (rule finite_subset[of _ "{0..<PID_MAX_LIMIT}"]) (auto simp: linked_def valid_pid_def)

lemma base_upd:
  assumes "base q" "task_ok (f (tasks q p))" "p = 0 \<Longrightarrow> state (f (tasks q p)) = TASK_RUNNING"
  shows "base (upd_task p f q)"
  using assms by (auto simp: base_def)

lemma base_upd_array [simp]: "base (upd_array i g q) = base q" by (simp add: base_def)
lemma base_dequeue [simp]: "base (dequeue_task p i q) = base q" by (simp add: base_def)
lemma base_requeue [simp]: "base (requeue_task p i q) = base q" by (simp add: base_def)

lemma task_ok_array [simp]: "task_ok (t\<lparr>array := a\<rparr>) = task_ok t" by (simp add: task_ok_def)

lemma running_dequeue [simp]: "running (dequeue_task p i q) = running q" by (simp add: running_def)
lemma running_requeue [simp]: "running (requeue_task p i q) = running q" by (simp add: running_def)
lemma running_enqueue [simp]: "running (enqueue_task p i q) = insert p (running q)" by (auto simp: running_def)
lemma loc_of_dequeue [simp]: "loc_of (dequeue_task p i q) = loc_of q" by (simp add: loc_of_def fun_eq_iff)
lemma loc_of_requeue [simp]: "loc_of (requeue_task p i q) = loc_of q" by (simp add: loc_of_def fun_eq_iff)
lemma loc_of_enqueue [simp]: "loc_of (enqueue_task p i q) = (loc_of q)(p \<mapsto> (i, prio (tasks q p)))"
  by (simp add: loc_of_def fun_eq_iff)

lemma loc_of_Some: "array (tasks q p) = Some i \<Longrightarrow> loc_of q p = Some (i, prio (tasks q p))"
  by (simp add: loc_of_def)

subsection \<open>Unlinking, linking and changing a task\<close>

lemma linked_dequeue: "linked q \<Longrightarrow> array (tasks q p) = Some i \<Longrightarrow> parked p (dequeue_task p i q)"
  using queued_dequeue[of q "loc_of q" p i] by (simp add: linked_def parked_def loc_of_Some)

lemma linked_parked: "linked q \<Longrightarrow> array (tasks q p) = None \<Longrightarrow> parked p q"
  by (simp add: linked_def parked_def loc_of_None)

lemma parked_upd:
  assumes "parked p q" "task_ok (f (tasks q p))" "p = 0 \<Longrightarrow> state (f (tasks q p)) = TASK_RUNNING"
  shows "parked p (upd_task p f q)"
proof -
  have "queued (upd_task p f q) ((loc_of q)(p := None))"
    using assms(1) by (auto simp: parked_def intro: queued_arrays)
  then show ?thesis using assms base_upd[of q f p] by (auto simp: parked_def)
qed

lemma parked_linked: "parked p q \<Longrightarrow> array (tasks q p) = None \<Longrightarrow> linked q"
  by (auto simp: linked_def parked_def loc_of_None running_def)

lemma parked_enqueue:
  assumes p: "parked p q" "valid_pid p" and i: "i < 2" and k: "0 \<le> prio (tasks q p)" "prio (tasks q p) < MAX_PRIO"
  shows "linked (enqueue_task p i q)"
proof -
  have "queued (enqueue_task p i q) ((loc_of q)(p \<mapsto> (i, prio (tasks q p))))"
    using queued_enqueue[of q "(loc_of q)(p := None)" p i] p i k by (simp add: parked_def)
  moreover have "base (enqueue_task p i q)" using p by (auto simp: base_def parked_def valid_pid_def)
  ultimately show ?thesis using p by (auto simp: linked_def parked_def)
qed

lemma linked_requeue: "linked q \<Longrightarrow> array (tasks q p) = Some i \<Longrightarrow> linked (requeue_task p i q)"
  using queued_requeue[of q "loc_of q" p i] by (simp add: linked_def loc_of_Some)

lemma linked_upd:
  assumes l: "linked q" and ok: "task_ok (f (tasks q p))" "p = 0 \<Longrightarrow> state (f (tasks q p)) = TASK_RUNNING"
    and same: "array (f (tasks q p)) = array (tasks q p)"
      "array (tasks q p) \<noteq> None \<Longrightarrow> prio (f (tasks q p)) = prio (tasks q p)"
  shows "linked (upd_task p f q)"
proof -
  have loc: "loc_of (upd_task p f q) = loc_of q"
    using same by (cases "array (tasks q p)") (auto simp: fun_eq_iff loc_of_def)
  have "running (upd_task p f q) = running q" using same(1) by (auto simp: running_def)
  moreover have "queued (upd_task p f q) (loc_of q)" using l by (auto simp: linked_def intro: queued_arrays)
  ultimately show ?thesis using l base_upd[of q f p] ok by (simp add: linked_def loc del: loc_of_upd running_upd)
qed

lemma acct_upd: "acct N S q \<Longrightarrow> p \<notin> S \<or> load_weight (f (tasks q p)) = load_weight (tasks q p) \<Longrightarrow> acct N S (upd_task p f q)"
  unfolding acct_def by (auto intro!: sum.cong)

lemma acct_dequeue [simp]: "acct N S (dequeue_task p i q) = acct N S q" by (simp add: acct_def)
lemma acct_requeue [simp]: "acct N S (requeue_task p i q) = acct N S q" by (simp add: acct_def)
lemma acct_enqueue [simp]: "acct N S (enqueue_task p i q) = acct N S q"
proof -
  have "load_weight (tasks (enqueue_task p i q) x) = load_weight (tasks q x)" for x by simp
  then show ?thesis by (simp add: acct_def del: enqueue_sel(1))
qed

lemma core_inv_upd:
  assumes c: "core_inv q" and "task_ok (f (tasks q p))" "p = 0 \<Longrightarrow> state (f (tasks q p)) = TASK_RUNNING"
    and same: "array (f (tasks q p)) = array (tasks q p)"
      "array (tasks q p) \<noteq> None \<Longrightarrow> prio (f (tasks q p)) = prio (tasks q p)"
      "array (tasks q p) \<noteq> None \<Longrightarrow> load_weight (f (tasks q p)) = load_weight (tasks q p)"
  shows "core_inv (upd_task p f q)" "running (upd_task p f q) = running q"
proof -
  show r: "running (upd_task p f q) = running q" using same(1) by (auto simp: running_def)
  have "linked (upd_task p f q)" using assms by (intro linked_upd) (auto simp: core_inv_def)
  moreover have "acct (running q) (running q) (upd_task p f q)"
    using c same(3) by (cases "array (tasks q p)"; intro acct_upd) (simp_all add: core_inv_def running_def)
  ultimately show "core_inv (upd_task p f q)" by (simp add: core_inv_def r del: running_upd)
qed

subsection \<open>Counts and load\<close>

lemma acct_dec_load:
  assumes "acct N S q" "p \<in> S"
  shows "acct N (S - {p}) (dec_raw_weighted_load p q)"
  using assms sum.remove[of S p "\<lambda>x. word_of_int (load_weight (tasks q x)) :: u64"]
  by (simp add: acct_def dec_raw_weighted_load_def)

lemma acct_inc_load:
  assumes "acct N S q" "p \<notin> S"
  shows "acct N (insert p S) (inc_raw_weighted_load p q)"
  using assms by (simp add: acct_def inc_raw_weighted_load_def)

lemma acct_dec_nr:
  assumes "acct N S q" "p \<in> N" "p \<in> S"
  shows "acct (N - {p}) (S - {p}) (dec_nr_running p q)"
proof -
  have "card N = Suc (card (N - {p}))" using assms by (intro card.remove) (auto simp: acct_def)
  then have "acct (N - {p}) S (q\<lparr>nr_running := nr_running q - 1\<rparr>)" using assms by (simp add: acct_def)
  then show ?thesis unfolding dec_nr_running_def using assms(3) by (rule acct_dec_load)
qed

lemma acct_inc_nr:
  assumes "acct N S q" "p \<notin> N" "p \<notin> S"
  shows "acct (insert p N) (insert p S) (inc_nr_running p q)"
proof -
  have "acct (insert p N) S (q\<lparr>nr_running := nr_running q + 1\<rparr>)" using assms by (simp add: acct_def)
  then show ?thesis unfolding inc_nr_running_def using assms(3) by (rule acct_inc_load)
qed

lemma nr_sel [simp]:
  "tasks (inc_nr_running p q) = tasks q" "arrays (inc_nr_running p q) = arrays q"
  "active (inc_nr_running p q) = active q" "expired (inc_nr_running p q) = expired q"
  "idle (inc_nr_running p q) = idle q" "curr (inc_nr_running p q) = curr q"
  "tasks (dec_nr_running p q) = tasks q" "arrays (dec_nr_running p q) = arrays q"
  "active (dec_nr_running p q) = active q" "expired (dec_nr_running p q) = expired q"
  "idle (dec_nr_running p q) = idle q" "curr (dec_nr_running p q) = curr q"
  "tasks (inc_raw_weighted_load p q) = tasks q" "arrays (inc_raw_weighted_load p q) = arrays q"
  "active (inc_raw_weighted_load p q) = active q" "expired (inc_raw_weighted_load p q) = expired q"
  "idle (inc_raw_weighted_load p q) = idle q" "curr (inc_raw_weighted_load p q) = curr q"
  "tasks (dec_raw_weighted_load p q) = tasks q" "arrays (dec_raw_weighted_load p q) = arrays q"
  "active (dec_raw_weighted_load p q) = active q" "expired (dec_raw_weighted_load p q) = expired q"
  "idle (dec_raw_weighted_load p q) = idle q" "curr (dec_raw_weighted_load p q) = curr q"
  by (simp_all add: inc_nr_running_def dec_nr_running_def inc_raw_weighted_load_def dec_raw_weighted_load_def)

lemma nr_same [simp]:
  "linked (inc_nr_running p q) = linked q" "linked (dec_nr_running p q) = linked q"
  "linked (inc_raw_weighted_load p q) = linked q" "parked x (dec_raw_weighted_load p q) = parked x q"
  "running (inc_nr_running p q) = running q" "running (dec_nr_running p q) = running q"
  "running (inc_raw_weighted_load p q) = running q" "running (dec_raw_weighted_load p q) = running q"
  by (intro same_fields; simp)+

lemma base_indices: "base q \<Longrightarrow> active q < 2 \<and> expired q < 2"
  by (auto simp: base_def)

lemma linked_base: "linked q \<Longrightarrow> base q"
  by (simp add: linked_def)

lemma parked_base: "parked p q \<Longrightarrow> base q"
  by (simp add: parked_def)

lemma core_deactivate:
  assumes c: "core_inv q" and p: "array (tasks q p) = Some i"
  shows "core_inv (deactivate_task p q)" "running (deactivate_task p q) = running q - {p}"
    "tasks (deactivate_task p q) = (tasks q)(p := (tasks q p)\<lparr>array := None\<rparr>)"
    "curr (deactivate_task p q) = curr q" "idle (deactivate_task p q) = idle q"
proof -
  let ?q = "dequeue_task p i (dec_nr_running p q)"
  have d: "deactivate_task p q = upd_task p (\<lambda>t. t\<lparr>array := None\<rparr>) ?q"
    by (simp add: deactivate_task_def Let_def p)
  have l: "linked q" and a: "acct (running q) (running q) q" using c by (auto simp: core_inv_def)
  have pr: "p \<in> running q" using p by (simp add: running_def)
  have ok: "task_ok (tasks q p)" "p \<noteq> 0" using linked_base[OF l] l pr by (auto simp: base_def linked_def valid_pid_def)
  have "parked p ?q" using l p by (intro linked_dequeue) simp_all
  then have "parked p (deactivate_task p q)" unfolding d by (rule parked_upd) (use ok in simp_all)
  then have "linked (deactivate_task p q)" by (rule parked_linked) (simp add: d)
  moreover have "acct (running q - {p}) (running q - {p}) (deactivate_task p q)"
    unfolding d using acct_dec_nr[OF a pr pr] by (intro acct_upd) simp_all
  moreover show r: "running (deactivate_task p q) = running q - {p}" by (simp add: d)
  ultimately show "core_inv (deactivate_task p q)" by (simp add: core_inv_def)
  show "tasks (deactivate_task p q) = (tasks q)(p := (tasks q p)\<lparr>array := None\<rparr>)" by (simp add: d)
  show "curr (deactivate_task p q) = curr q" "idle (deactivate_task p q) = idle q" by (simp_all add: d)
qed

lemma core_activate_on:
  assumes c: "core_inv q" and p: "array (tasks q p) = None" "valid_pid p"
    and k: "0 \<le> prio (tasks q p)" "prio (tasks q p) < MAX_PRIO"
  shows "core_inv (activate_task_on p q)" "running (activate_task_on p q) = insert p (running q)"
    "curr (activate_task_on p q) = curr q"
proof -
  let ?i = "if batch_task (tasks q p) then expired q else active q"
  have a: "activate_task_on p q = inc_nr_running p (enqueue_task p ?i q)"
    by (simp add: activate_task_on_def Let_def)
  have l: "linked q" and ac: "acct (running q) (running q) q" using c by (auto simp: core_inv_def)
  have "linked (enqueue_task p ?i q)"
    using base_indices[OF linked_base[OF l]] linked_parked[OF l p(1)] p k by (intro parked_enqueue) auto
  moreover have "acct (insert p (running q)) (insert p (running q)) (activate_task_on p q)"
    unfolding a using ac p by (intro acct_inc_nr) (simp_all add: running_def)
  moreover show r: "running (activate_task_on p q) = insert p (running q)" by (simp add: a)
  ultimately show "core_inv (activate_task_on p q)" by (simp add: core_inv_def a)
  show "curr (activate_task_on p q) = curr q" by (simp add: a)
qed

text \<open>Taking a queued task out, changing it and putting it back.\<close>

lemma core_move:
  assumes c: "core_inv q" and p: "array (tasks q p) = Some i" and j: "j < 2"
    and t: "task_ok (f (tasks q p))" "prio (f (tasks q p)) < MAX_PRIO" "load_weight (f (tasks q p)) = load_weight (tasks q p)"
  shows "core_inv (enqueue_task p j (upd_task p f (dequeue_task p i q)))"
    "running (enqueue_task p j (upd_task p f (dequeue_task p i q))) = running q"
proof -
  have l: "linked q" and a: "acct (running q) (running q) q" using c by (auto simp: core_inv_def)
  have pr: "p \<in> running q" using p by (simp add: running_def)
  then have v: "valid_pid p" using l by (simp add: linked_def)
  have "parked p (upd_task p f (dequeue_task p i q))"
    using linked_dequeue[OF l p] v t by (intro parked_upd) (simp_all add: valid_pid_def)
  then have "linked (enqueue_task p j (upd_task p f (dequeue_task p i q)))"
    using v j t by (intro parked_enqueue) (simp_all add: task_ok_def)
  moreover have "acct (running q) (running q) (upd_task p f (dequeue_task p i q))"
    using a t by (intro acct_upd) simp_all
  moreover show r: "running (enqueue_task p j (upd_task p f (dequeue_task p i q))) = running q"
    using pr by auto
  ultimately show "core_inv (enqueue_task p j (upd_task p f (dequeue_task p i q)))"
    by (simp add: core_inv_def del: running_enqueue)
qed

lemma core_requeue:
  "core_inv q \<Longrightarrow> array (tasks q p) = Some i \<Longrightarrow> core_inv (requeue_task p i q)"
  by (simp add: core_inv_def linked_requeue)

end
