(* ===== verification/Sched_Correct.thy ===== *)
theory Sched_Correct
  imports Sched_Inv
begin

text \<open>
  The scheduler's operations keep the invariant of \<open>Sched_Inv\<close>, and what \<^verbatim>\<open>schedule\<close> chooses.
\<close>

subsection \<open>Priorities and sleep averages\<close>

lemma normal_prio_range: "task_ok t \<Longrightarrow> 0 \<le> normal_prio t \<and> normal_prio t < MAX_PRIO"
  by (auto simp: normal_prio_def normal_prio_bonus_def task_ok_def Let_def sched_consts)

lemma effective_prio_ok:
  assumes "task_ok t" "effective_prio t = (pr, t')"
  shows "0 \<le> pr \<and> pr < MAX_PRIO" "t' = t\<lparr>normal_prio_f := normal_prio t\<rparr>" "task_ok t'" "task_ok (t'\<lparr>prio := pr\<rparr>)"
proof -
  show e: "t' = t\<lparr>normal_prio_f := normal_prio t\<rparr>" using assms(2) by (auto simp: effective_prio_def Let_def split: if_splits)
  show "0 \<le> pr \<and> pr < MAX_PRIO"
    using assms normal_prio_range[OF assms(1)]
    by (auto simp: effective_prio_def Let_def rt_prio_def task_ok_def sched_consts split: if_splits)
  then show "task_ok t'" "task_ok (t'\<lparr>prio := pr\<rparr>)"
    using assms(1) normal_prio_range[OF assms(1)] by (auto simp: e task_ok_def)
qed

lemma sleep_credit_same [simp]:
  "array (sleep_credit t s) = array t" "prio (sleep_credit t s) = prio t"
  "load_weight (sleep_credit t s) = load_weight t" "state (sleep_credit t s) = state t"
  "need_resched (sleep_credit t s) = need_resched t" "timestamp (sleep_credit t s) = timestamp t"
  "static_prio (sleep_credit t s) = static_prio t" "normal_prio_f (sleep_credit t s) = normal_prio_f t"
  "rt_priority (sleep_credit t s) = rt_priority t" "top_pi_waiter (sleep_credit t s) = top_pi_waiter t"
  by (simp_all add: sleep_credit_def Let_def)

lemma sleep_credit_bound: "unat (sleep_avg (sleep_credit t s)) \<le> 1000000000"
proof -
  have le: "unat w \<le> 1000000000" if "\<not> 1000000000 < w" for w :: u64
    using that by (simp add: word_less_nat_alt not_less)
  show ?thesis unfolding sleep_credit_def Let_def by (auto intro!: le simp: sched_consts split: if_split)
qed

lemma recalc_task_prio_ok:
  assumes "task_ok t" "recalc_task_prio t now = (pr, t')"
  shows "0 \<le> pr \<and> pr < MAX_PRIO" "task_ok t'" "array t' = array t" "prio t' = prio t"
    "load_weight t' = load_weight t" "state t' = state t" "need_resched t' = need_resched t"
    "timestamp t' = timestamp t"
proof -
  define t0 where "t0 = (let st = (if batch_task t then 0 else now - timestamp t)
     in if 0 < st then sleep_credit t st else t)"
  have r: "recalc_task_prio t now = effective_prio t0"
    unfolding recalc_task_prio_def t0_def Let_def ..
  have ok: "task_ok t0" using assms(1) sleep_credit_bound by (simp add: task_ok_def t0_def Let_def)
  note e = effective_prio_ok[OF ok assms(2)[unfolded r]]
  show "0 \<le> pr \<and> pr < MAX_PRIO" "task_ok t'" using e by auto
  show "array t' = array t" "prio t' = prio t" "load_weight t' = load_weight t" "state t' = state t"
    "need_resched t' = need_resched t" "timestamp t' = timestamp t"
    using e(2) by (simp_all add: t0_def Let_def)
qed

lemma CURRENT_BONUS_nat:
  assumes "unat (sleep_avg t) \<le> 1000000000"
  shows "unat (CURRENT_BONUS t) = unat (sleep_avg t) div 4000000 * 10 div 250" "unat (CURRENT_BONUS t) \<le> 10"
proof -
  have a: "unat (sleep_avg t div 4000000) = unat (sleep_avg t) div 4000000" by (simp add: unat_div)
  have le: "unat (sleep_avg t) div 4000000 \<le> 250" using assms by linarith
  have b: "unat (sleep_avg t div 4000000 * 10) = unat (sleep_avg t) div 4000000 * 10"
    using le by (subst unat_mult_lem[THEN iffD1]) (simp_all add: a)
  show c: "unat (CURRENT_BONUS t) = unat (sleep_avg t) div 4000000 * 10 div 250"
    using b by (simp add: CURRENT_BONUS_def sched_consts unat_div)
  show "unat (CURRENT_BONUS t) \<le> 10" using le c by linarith
qed

lemma fork_sleep_avg_bound:
  assumes "unat (sleep_avg t) \<le> 1000000000" "unat penalty \<le> 100"
  shows "unat (fork_sleep_avg penalty t) \<le> 1000000000"
proof -
  let ?b = "CURRENT_BONUS t"
  have b: "unat ?b \<le> 10" by (rule CURRENT_BONUS_nat(2)[OF assms(1)])
  have le1: "unat ?b * unat penalty \<le> 1000" using mult_le_mono[OF b assms(2)] by simp
  have m1: "unat (?b * penalty) = unat ?b * unat penalty"
    using le1 by (subst unat_mult_lem[THEN iffD1]) simp_all
  define c where "c = ?b * penalty div 100"
  have c: "unat c \<le> 10" using m1 le1 by (simp add: c_def unat_div)
  have m2: "unat (c * 250) = unat c * 250" using c by (subst unat_mult_lem[THEN iffD1]) simp_all
  define d where "d = c * 250 div 10"
  have d: "unat d \<le> 250" using m2 c by (simp add: d_def unat_div)
  have m3: "unat (d * 4000000) = unat d * 4000000" using d by (subst unat_mult_lem[THEN iffD1]) simp_all
  have "fork_sleep_avg penalty t = d * 4000000"
    by (simp add: fork_sleep_avg_def d_def c_def sched_consts)
  then show ?thesis using m3 d by simp
qed

lemma sched_run_time_bound: "unat (sched_run_time t now) \<le> 1000000000"
proof -
  define r :: u64 where "r = (if sint (now - timestamp t) < NS_MAX_SLEEP_AVG
     then if sint (now - timestamp t) < 0 then 0 else now - timestamp t else word_of_int NS_MAX_SLEEP_AVG)"
  have s: "unat d \<le> 1000000000" if "0 \<le> sint d" "sint d < 1000000000" for d :: u64
  proof -
    have "sint d = int (unat d)" using that(1) sint_nonneg_iff[of d] by (intro sint_small) simp
    with that(2) have "int (unat d) < int 1000000000" by simp
    then show ?thesis by (simp only: of_nat_less_iff)
  qed
  have r: "unat r \<le> 1000000000" unfolding r_def using s[of "now - timestamp t"] by (simp add: sched_consts)
  have "sched_run_time t now = r div (if CURRENT_BONUS t \<noteq> 0 then CURRENT_BONUS t else 1)"
    by (simp add: sched_run_time_def r_def Let_def)
  then have "unat (sched_run_time t now) \<le> unat r" by (simp add: unat_div)
  with r show ?thesis by simp
qed

lemma sleep_avg_charge:
  fixes s r :: u64
  assumes "unat s \<le> 1000000000" "unat r \<le> 1000000000" "\<not> sint (s - r) \<le> 0"
  shows "unat (s - r) \<le> 1000000000"
proof (cases "r \<le> s")
  case True
  then have "unat (s - r) = unat s - unat r" by (rule unat_sub)
  with assms show ?thesis by simp
next
  case False
  then have lt: "unat s < unat r" by (simp add: word_le_nat_alt)
  have "unat (s - r) = 2 ^ 64 + unat s - unat r"
    using False lt by (simp add: unat_sub_if_size word_le_nat_alt word_size)
  moreover have "unat (s - r) < 2 ^ 63" using assms(3) sint_nonneg_iff[of "s - r"] by simp
  ultimately show ?thesis using assms lt by simp
qed

subsection \<open>Operations that queue a task\<close>

definition keeps :: "rq \<Rightarrow> rq \<Rightarrow> bool" where
  "keeps q q' \<longleftrightarrow> core_inv q' \<and> curr q' = curr q \<and> running q \<subseteq> running q'"

lemma keeps_rq_inv: "rq_inv q \<Longrightarrow> keeps q q' \<Longrightarrow> rq_inv q'"
  by (auto simp: rq_inv_def keeps_def)

lemma keeps_refl: "core_inv q \<Longrightarrow> keeps q q"
  by (simp add: keeps_def)

lemma keeps_trans: "keeps q q' \<Longrightarrow> keeps q' q'' \<Longrightarrow> keeps q q''"
  by (auto simp: keeps_def)

lemma keeps_core: "keeps q q' \<Longrightarrow> core_inv q'"
  by (simp add: keeps_def)

lemma core_task_ok: "core_inv q \<Longrightarrow> task_ok (tasks q p)"
  by (simp add: core_inv_def linked_def base_def)

lemma core_base: "core_inv q \<Longrightarrow> base q"
  by (simp add: core_inv_def linked_def)

lemma core_idle_state: "core_inv q \<Longrightarrow> state (tasks q 0) = TASK_RUNNING"
  by (simp add: core_inv_def linked_def base_def)

lemma core_valid: "core_inv q \<Longrightarrow> array (tasks q p) = Some i \<Longrightarrow> valid_pid p"
  by (auto simp: core_inv_def linked_def running_def)

lemma core_queued_prio: "core_inv q \<Longrightarrow> array (tasks q p) = Some i \<Longrightarrow> i < 2 \<and> 0 \<le> prio (tasks q p) \<and> prio (tasks q p) < MAX_PRIO"
  using queuedD(2)[of q "loc_of q" p i "prio (tasks q p)"] by (auto simp: core_inv_def linked_def loc_of_Some)

lemma keeps_upd:
  assumes "core_inv q" "task_ok (f (tasks q p))" "p = 0 \<Longrightarrow> state (f (tasks q p)) = state (tasks q p)"
    "array (f (tasks q p)) = array (tasks q p)"
    "array (tasks q p) \<noteq> None \<Longrightarrow> prio (f (tasks q p)) = prio (tasks q p)"
    "array (tasks q p) \<noteq> None \<Longrightarrow> load_weight (f (tasks q p)) = load_weight (tasks q p)"
  shows "keeps q (upd_task p f q)"
  using core_inv_upd[of q f p] assms core_idle_state[OF assms(1)] by (auto simp: keeps_def simp del: running_upd)

lemma keeps_resched: "core_inv q \<Longrightarrow> keeps q (resched_task p q)"
  unfolding resched_task_def set_need_resched_def using core_task_ok[of q p]
  by (intro keeps_upd) (simp_all add: task_ok_def)

lemma resched_tasks [simp]:
  "array (tasks (resched_task c q) x) = array (tasks q x)" "prio (tasks (resched_task c q) x) = prio (tasks q x)"
  "task_ok (tasks (resched_task c q) x) = task_ok (tasks q x)" "curr (resched_task c q) = curr q"
  "state (tasks (resched_task c q) x) = state (tasks q x)"
  by (simp_all add: resched_task_def set_need_resched_def task_ok_def)

lemma keeps_activate_on:
  assumes "core_inv q" "array (tasks q p) = None" "valid_pid p" "0 \<le> prio (tasks q p)" "prio (tasks q p) < MAX_PRIO"
  shows "keeps q (activate_task_on p q)"
  using core_activate_on[OF assms] by (auto simp: keeps_def)

lemma keeps_activate:
  assumes c: "core_inv q" and p: "array (tasks q p) = None" "valid_pid p"
  shows "keeps q (activate_task now irq p q)"
proof (cases "rt_task (tasks q p)")
  case True
  have "0 \<le> prio (tasks q p)" using core_task_ok[OF c] by (simp add: task_ok_def)
  moreover have "prio (tasks q p) < MAX_PRIO" using True by (simp add: rt_task_def rt_prio_def sched_consts)
  ultimately show ?thesis using True keeps_activate_on[OF c p] by (simp add: activate_task_def)
next
  case False
  obtain pr t where r: "recalc_task_prio (tasks q p) now = (pr, t)" by (cases "recalc_task_prio (tasks q p) now")
  define t' where "t' = (let t = t\<lparr>prio := pr\<rparr>;
     t = (if sleep_type_f t = SLEEP_NORMAL then t\<lparr>sleep_type_f := if irq then SLEEP_INTERRUPTED else SLEEP_INTERACTIVE\<rparr> else t)
     in t\<lparr>timestamp := now\<rparr>)"
  note R = recalc_task_prio_ok[OF core_task_ok[OF c] r]
  have t': "array t' = None" "prio t' = pr" "state t' = state (tasks q p)" "task_ok t'"
    using R p by (auto simp: t'_def Let_def task_ok_def)
  have e: "activate_task now irq p q = activate_task_on p (upd_task p (\<lambda>_. t') q)"
    using False by (simp add: activate_task_def r t'_def Let_def)
  have k: "keeps q (upd_task p (\<lambda>_. t') q)" using c t' p by (intro keeps_upd) simp_all
  have "keeps (upd_task p (\<lambda>_. t') q) (activate_task now irq p q)"
    unfolding e using keeps_core[OF k] t' p R(1) by (intro keeps_activate_on) simp_all
  with k show ?thesis by (rule keeps_trans)
qed

lemma keeps_other [simp]:
  "core_inv (q\<lparr>nr_uninterruptible := n\<rparr>) = core_inv q" "core_inv (q\<lparr>expired_timestamp := x\<rparr>) = core_inv q"
  "core_inv (q\<lparr>best_expired_prio := b\<rparr>) = core_inv q" "core_inv (q\<lparr>most_recent_timestamp := x\<rparr>) = core_inv q"
  "core_inv (q\<lparr>nr_switches := x\<rparr>) = core_inv q" "core_inv (q\<lparr>curr := p\<rparr>) = core_inv q"
  by (intro same_inv; simp)+

lemma running_other [simp]:
  "running (q\<lparr>nr_uninterruptible := n\<rparr>) = running q" "running (q\<lparr>expired_timestamp := x\<rparr>) = running q"
  "running (q\<lparr>best_expired_prio := b\<rparr>) = running q" "running (q\<lparr>most_recent_timestamp := x\<rparr>) = running q"
  "running (q\<lparr>nr_switches := x\<rparr>) = running q" "running (q\<lparr>curr := p\<rparr>) = running q"
  by (simp_all add: running_def)

lemma keeps_try_to_wake_up:
  assumes c: "core_inv q" and p: "valid_pid p"
  shows "keeps q (snd (try_to_wake_up now irq p m sync q))"
proof -
  have p0: "p \<noteq> 0" using p by (simp add: valid_pid_def)
  have st: "keeps q (upd_task p (\<lambda>t. t\<lparr>state := s\<rparr>) q)" if "core_inv q" for q s
    using that p0 core_task_ok[OF that, of p] by (intro keeps_upd) (simp_all add: task_ok_def)
  show ?thesis
  proof (cases "state (tasks q p) AND ucast m = 0 \<or> array (tasks q p) \<noteq> None")
    case True
    then show ?thesis using st[OF c] keeps_refl[OF c] by (auto simp: try_to_wake_up_def Let_def)
  next
    case False
    define q1 where "q1 = (if state (tasks q p) = TASK_UNINTERRUPTIBLE
                       then upd_task p (\<lambda>t. t\<lparr>sleep_type_f := SLEEP_NONINTERACTIVE\<rparr>)
                              (q\<lparr>nr_uninterruptible := nr_uninterruptible q - 1\<rparr>)
                       else if state (tasks q p) AND TASK_NONINTERACTIVE \<noteq> 0
                       then upd_task p (\<lambda>t. t\<lparr>sleep_type_f := SLEEP_NONINTERACTIVE\<rparr>) q
                       else q)"
    define q2 where "q2 = activate_task now irq p q1"
    define q3 where "q3 = (if \<not> sync \<and> TASK_PREEMPTS_CURR p q2 then resched_task (curr q2) q2 else q2)"
    have e: "snd (try_to_wake_up now irq p m sync q) = upd_task p (\<lambda>t. t\<lparr>state := TASK_RUNNING\<rparr>) q3"
      using False by (simp add: try_to_wake_up_def ttwu_activate_def q1_def q2_def q3_def Let_def)
    have ns: "keeps q (upd_task p (\<lambda>t. t\<lparr>sleep_type_f := y\<rparr>) (q\<lparr>nr_uninterruptible := n\<rparr>))" for n y
    proof -
      have "keeps (q\<lparr>nr_uninterruptible := n\<rparr>) (upd_task p (\<lambda>t. t\<lparr>sleep_type_f := y\<rparr>) (q\<lparr>nr_uninterruptible := n\<rparr>))"
        using c p0 core_task_ok[OF c, of p] by (intro keeps_upd) (simp_all add: task_ok_def)
      then show ?thesis by (simp add: keeps_def)
    qed
    have k1: "keeps q q1" unfolding q1_def using ns ns[of _ "nr_uninterruptible q"] keeps_refl[OF c] by auto
    have a1: "array (tasks q1 p) = None" using False by (auto simp: q1_def)
    have k2: "keeps q1 q2" unfolding q2_def using keeps_core[OF k1] a1 p by (rule keeps_activate)
    have k3: "keeps q2 q3" unfolding q3_def using keeps_resched keeps_refl keeps_core[OF k2] by auto
    have "keeps q3 (upd_task p (\<lambda>t. t\<lparr>state := TASK_RUNNING\<rparr>) q3)" by (rule st[OF keeps_core[OF k3]])
    then show ?thesis unfolding e using k1 k2 k3 keeps_trans by blast
  qed
qed

lemma keeps_wake_up_common:
  assumes "core_inv q" "\<forall>(p, e)\<in>set ws. valid_pid p"
  shows "keeps q (wake_up_common now irq ws mode n sync q)"
  using assms
proof (induction ws arbitrary: q n)
  case (Cons w ws)
  obtain p e where w: "w = (p, e)" by (cases w)
  obtain r q1 where q1: "default_wake_function now irq p mode sync q = (r, q1)"
    by (cases "default_wake_function now irq p mode sync q")
  have k: "keeps q q1"
    using keeps_try_to_wake_up[OF Cons.prems(1), of p now irq mode sync] Cons.prems(2) q1 w
    by (simp add: default_wake_function_def)
  have "keeps q1 (wake_up_common now irq ws mode n' sync q1)" for n'
    using Cons.IH[OF keeps_core[OF k]] Cons.prems by simp
  then show ?case using k keeps_trans by (auto simp: w q1 Let_def)
qed (simp add: keeps_refl)

subsection \<open>The tick\<close>

lemma upd_task_upd_task: "upd_task p g (upd_task p f q) = upd_task p (\<lambda>t. g (f t)) q"
  by (simp add: upd_task_def)

lemma enqueue_other:
  "enqueue_task p i (q\<lparr>expired_timestamp := x\<rparr>) = (enqueue_task p i q)\<lparr>expired_timestamp := x\<rparr>"
  by (simp add: enqueue_task_def link_task_def Let_def upd_task_def upd_array_def)

lemma keeps_move:
  assumes "core_inv q" "array (tasks q p) = Some i" "j < 2"
    and "task_ok (f (tasks q p))" "prio (f (tasks q p)) < MAX_PRIO" "load_weight (f (tasks q p)) = load_weight (tasks q p)"
  shows "keeps q (enqueue_task p j (upd_task p f (dequeue_task p i q)))"
  unfolding keeps_def using core_move[where f = f, OF assms] by (auto simp del: running_enqueue)

lemma keeps_slice_expired:
  assumes c: "core_inv q" and p: "array (tasks q p) = Some (active q)"
  shows "keeps q (slice_expired jif p q)"
proof -
  define F where "F = (\<lambda>t. (let (pr, t) = effective_prio (t\<lparr>need_resched := True\<rparr>) in t\<lparr>prio := pr\<rparr>)
     \<lparr>time_slice := task_timeslice (let (pr, t) = effective_prio (t\<lparr>need_resched := True\<rparr>) in t\<lparr>prio := pr\<rparr>), first_time_slice := 0\<rparr>)"
  define Q where "Q = upd_task p F (dequeue_task p (active q) q)"
  obtain pr t where e: "effective_prio ((tasks q p)\<lparr>need_resched := True\<rparr>) = (pr, t)"
    by (cases "effective_prio ((tasks q p)\<lparr>need_resched := True\<rparr>)")
  have "task_ok ((tasks q p)\<lparr>need_resched := True\<rparr>)" using core_task_ok[OF c, of p] by (simp add: task_ok_def)
  note E = effective_prio_ok[OF this e]
  have F: "F (tasks q p) = t\<lparr>prio := pr, time_slice := task_timeslice (t\<lparr>prio := pr\<rparr>), first_time_slice := 0\<rparr>"
    by (simp add: F_def e)
  have ok: "task_ok (F (tasks q p))" using E(4) unfolding F by (simp add: task_ok_def)
  have pf: "prio (F (tasks q p)) < MAX_PRIO" "load_weight (F (tasks q p)) = load_weight (tasks q p)"
    using E(1,2) by (simp_all add: F)
  have idx: "active q < 2" "expired q < 2" using base_indices[OF core_base[OF c]] by auto
  have k: "keeps q (enqueue_task p j Q)" if "j < 2" for j
    unfolding Q_def by (rule keeps_move[where f = F, OF c p that ok pf])
  have s: "keeps q (q'\<lparr>expired_timestamp := x\<rparr>)" "keeps q (q'\<lparr>best_expired_prio := y\<rparr>)"
    if "keeps q q'" for q' x y using that by (simp_all add: keeps_def)
  define Q' where "Q' = (if expired_timestamp Q = 0 then Q\<lparr>expired_timestamp := jif\<rparr> else Q)"
  have k': "keeps q (enqueue_task p j Q')" if "j < 2" for j
    using k[OF that] s(1) by (simp add: Q'_def enqueue_other)
  have idx': "active Q' = active q" "expired Q' = expired q" by (simp_all add: Q'_def Q_def)
  have "slice_expired jif p q = (if \<not> TASK_INTERACTIVE (tasks Q' p) \<or> expired_starving jif Q'
     then let q = enqueue_task p (expired Q') Q' in if static_prio (tasks q p) < best_expired_prio q
                 then q\<lparr>best_expired_prio := static_prio (tasks q p)\<rparr> else q
     else enqueue_task p (active Q') Q')"
    unfolding slice_expired_def Q'_def Q_def F_def set_need_resched_def upd_task_upd_task Let_def ..
  then show ?thesis using k' s(2) idx by (simp add: idx' Let_def del: enqueue_sel)
qed

lemma task_ok_slice [simp]:
  "task_ok (t\<lparr>time_slice := x\<rparr>) = task_ok t" "task_ok (t\<lparr>time_slice := x, first_time_slice := y\<rparr>) = task_ok t"
  "task_ok (t\<lparr>need_resched := b\<rparr>) = task_ok t" "task_ok (t\<lparr>sched_time := s\<rparr>) = task_ok t"
  "task_ok (t\<lparr>last_ran := s\<rparr>) = task_ok t" "task_ok (t\<lparr>timestamp := s\<rparr>) = task_ok t"
  "task_ok (t\<lparr>state := st\<rparr>) = task_ok t" "task_ok (t\<lparr>sleep_type_f := y'\<rparr>) = task_ok t"
  "task_ok (t\<lparr>timestamp := s, last_ran := s'\<rparr>) = task_ok t" "task_ok (t\<lparr>first_time_slice := y\<rparr>) = task_ok t"
  by (simp_all add: task_ok_def)

lemma keeps_slice:
  assumes "core_inv q"
  shows "keeps q (upd_task p (\<lambda>t. t\<lparr>time_slice := f t\<rparr>) q)"
    "keeps q (upd_task p (\<lambda>t. t\<lparr>time_slice := f t, first_time_slice := y\<rparr>) q)"
    "keeps q (set_need_resched p q)"
  unfolding set_need_resched_def using core_task_ok[OF assms, of p] assms by (intro keeps_upd; simp)+

lemma keeps_requeue: "core_inv q \<Longrightarrow> array (tasks q p) = Some i \<Longrightarrow> keeps q (requeue_task p i q)"
  using core_requeue by (simp add: keeps_def)

lemma keeps_task_running_tick:
  assumes c: "core_inv q"
  shows "keeps q (task_running_tick jif p q)"
proof (cases "array (tasks q p) = Some (active q)")
  case False
  then show ?thesis using keeps_slice(3)[OF c] by (simp add: task_running_tick_def)
next
  case True
  define q1 where "q1 = upd_task p (\<lambda>t. t\<lparr>time_slice := time_slice t - 1\<rparr>) q"
  have k1: "keeps q q1" and a1: "array (tasks q1 p) = Some (active q1)"
    unfolding q1_def using keeps_slice(1)[OF c] True by simp_all
  note c1 = keeps_core[OF k1]
  define q2 where "q2 = set_need_resched p (upd_task p (\<lambda>t. t\<lparr>time_slice := task_timeslice t, first_time_slice := 0\<rparr>) q1)"
  have k2: "keeps q1 q2" unfolding q2_def
    using keeps_slice(2)[OF c1] keeps_slice(3) keeps_core keeps_trans by blast
  have a2: "array (tasks q2 p) = Some (active q2)" using a1 by (simp add: q2_def set_need_resched_def)
  have r2: "keeps q1 (requeue_task p (active q2) q2)"
    using keeps_trans[OF k2 keeps_requeue[OF keeps_core[OF k2] a2]] .
  have ex: "keeps q1 (slice_expired jif p q1)" by (rule keeps_slice_expired[OF c1 a1])
  have rq: "keeps q1 (set_need_resched p (requeue_task p (active q1) q1))"
    using keeps_requeue[OF c1 a1] keeps_slice(3) keeps_core keeps_trans by blast
  have no: "(array (tasks q p) \<noteq> Some (active q)) = False" using True by simp
  have e: "task_running_tick jif p q =
     (if rt_task (tasks q p) then if policy_f (tasks q p) = SCHED_RR
        then if time_slice (tasks q1 p) = 0 then requeue_task p (active q2) q2 else q1 else q
      else if time_slice (tasks q1 p) = 0 then slice_expired jif p q1
      else if TASK_INTERACTIVE (tasks q1 p) \<and>
                   (task_timeslice (tasks q1 p) - time_slice (tasks q1 p)) mod TIMESLICE_GRANULARITY (tasks q1 p) = 0 \<and>
                   TIMESLICE_GRANULARITY (tasks q1 p) \<le> time_slice (tasks q1 p) \<and> array (tasks q1 p) = Some (active q1)
           then set_need_resched p (requeue_task p (active q1) q1) else q1)"
    unfolding task_running_tick_def Let_def no if_False q2_def q1_def ..
  show ?thesis unfolding e using keeps_refl[OF c] k1 r2 ex rq keeps_trans[OF k1] by (simp split: if_split)
qed

lemma keeps_update_cpu_clock:
  assumes "core_inv q"
  shows "keeps q (update_cpu_clock p now q)"
proof -
  have 1: "keeps q (upd_task p (\<lambda>t. t\<lparr>sched_time := sched_time t + (now - last_ran t)\<rparr>) q)" (is "keeps q ?q")
    using assms core_task_ok[OF assms, of p] by (intro keeps_upd) simp_all
  have "keeps (?q\<lparr>most_recent_timestamp := now\<rparr>) (upd_task p (\<lambda>t. t\<lparr>last_ran := now\<rparr>) (?q\<lparr>most_recent_timestamp := now\<rparr>))"
    using keeps_core[OF 1] core_task_ok[OF assms, of p] by (intro keeps_upd) simp_all
  then have "keeps ?q (update_cpu_clock p now q)" by (simp add: update_cpu_clock_def Let_def keeps_def)
  with 1 show ?thesis by (rule keeps_trans)
qed

lemma keeps_scheduler_tick:
  assumes "core_inv q"
  shows "keeps q (scheduler_tick now jif q)"
proof -
  have 1: "keeps q (update_cpu_clock (curr q) now q)" by (rule keeps_update_cpu_clock[OF assms])
  from keeps_task_running_tick[OF keeps_core[OF 1]] keeps_trans[OF 1]
  have "keeps q (task_running_tick jif (curr q) (update_cpu_clock (curr q) now q))" by blast
  with 1 show ?thesis by (simp add: scheduler_tick_def Let_def)
qed

subsection \<open>Creation and exit\<close>

definition fork_task :: "u64 \<Rightarrow> u64 \<Rightarrow> nat \<Rightarrow> rq \<Rightarrow> rq" where
  "fork_task now jiffies p q = sched_fork now jiffies p (rt_mutex_init_task p (dup_task_struct p q))"

lemma keeps_timestamp: "core_inv q \<Longrightarrow> keeps q (upd_task p (\<lambda>t. t\<lparr>timestamp := x\<rparr>) q)"
  using core_task_ok[of q p] by (intro keeps_upd) simp_all

lemma keeps_if: "(b \<Longrightarrow> keeps q x) \<Longrightarrow> (\<not> b \<Longrightarrow> keeps q y) \<Longrightarrow> keeps q (if b then x else y)"
  by simp

lemma keeps_fork_child:
  assumes c: "core_inv q" and p: "array (tasks q p) = None" "valid_pid p" "p \<noteq> curr q"
  shows "keeps q (fork_child p (rt_mutex_init_task p (dup_task_struct p q)))"
proof -
  let ?c = "tasks q (curr q)"
  have "fork_child p (rt_mutex_init_task p (dup_task_struct p q)) =
     upd_task p (\<lambda>_. ?c\<lparr>top_pi_waiter := None, state := TASK_RUNNING, prio := normal_prio_f ?c,
       array := None, time_slice := drop_bit 1 (time_slice ?c + 1), first_time_slice := 1\<rparr>) q"
    using p(3) by (simp add: fork_child_def Let_def upd_task_upd_task rt_mutex_init_task_def dup_task_struct_def)
  moreover have "keeps q \<dots>" using c p core_task_ok[OF c, of "curr q"]
    by (intro keeps_upd) (simp_all add: task_ok_def valid_pid_def)
  ultimately show ?thesis by simp
qed

lemma keeps_fork:
  assumes c: "core_inv q" and p: "array (tasks q p) = None" "valid_pid p" "p \<noteq> curr q"
  shows "keeps q (fork_task now jif p q)"
proof -
  define q1 where "q1 = fork_child p (rt_mutex_init_task p (dup_task_struct p q))"
  define q2 where "q2 = upd_task (curr q1) (\<lambda>t. t\<lparr>time_slice := drop_bit 1 (time_slice t)\<rparr>) q1"
  define q3 where "q3 = upd_task p (\<lambda>t. t\<lparr>timestamp := now\<rparr>) q2"
  have k1: "keeps q q1" unfolding q1_def by (rule keeps_fork_child[OF assms])
  have k2: "keeps q1 q2" unfolding q2_def by (rule keeps_slice(1)[OF keeps_core[OF k1]])
  have k3: "keeps q2 q3" unfolding q3_def by (rule keeps_timestamp[OF keeps_core[OF k2]])
  define q4 where "q4 = upd_task (curr q3) (\<lambda>t. t\<lparr>time_slice := 1\<rparr>) q3"
  have k4: "keeps q3 q4" unfolding q4_def by (rule keeps_slice(1)[OF keeps_core[OF k3]])
  have k5: "keeps q4 (task_running_tick jif (curr q3) q4)" by (rule keeps_task_running_tick[OF keeps_core[OF k4]])
  have q3: "keeps q q3" by (rule keeps_trans[OF keeps_trans[OF k1 k2] k3])
  have e: "fork_task now jif p q = (if time_slice (tasks q3 (curr q3)) = 0
     then task_running_tick jif (curr q3) q4 else q3)"
    unfolding fork_task_def sched_fork_def Let_def q4_def q3_def q2_def q1_def ..
  show ?thesis unfolding e by (intro keeps_if q3 keeps_trans[OF q3 keeps_trans[OF k4 k5]])
qed

lemma linked_insert_before:
  assumes l: "linked q" and c: "array (tasks q c) = Some i" and p: "array (tasks q p) = None" "valid_pid p"
    and pr: "prio (tasks q p) = prio (tasks q c)"
  shows "linked (upd_array i (\<lambda>a. a\<lparr>nr_active := nr_active a + 1\<rparr>) (upd_task p (\<lambda>t. t\<lparr>array := Some i\<rparr>)
     (upd_array i (\<lambda>a. a\<lparr>queue := (\<lambda>k. insert_before p c (queue a k))\<rparr>) q)))" (is "linked ?q")
proof -
  have "queued q (loc_of q)" using l by (simp add: linked_def)
  then have "queued (upd_array i (\<lambda>a. a\<lparr>nr_active := nr_active a + 1\<rparr>)
     (upd_array i (\<lambda>a. a\<lparr>queue := (\<lambda>k. insert_before p c (queue a k))\<rparr>) q)) ((loc_of q)(p \<mapsto> (i, prio (tasks q c))))"
    using loc_of_Some[of q c i] c p(1) by (intro queued_insert_before) (simp_all add: loc_of_def)
  then have "queued ?q ((loc_of q)(p \<mapsto> (i, prio (tasks q c))))" by (rule queued_arrays) simp
  moreover have "loc_of ?q = (loc_of q)(p \<mapsto> (i, prio (tasks q c)))" by (auto simp: loc_of_def pr)
  moreover have "running ?q = insert p (running q)" by (auto simp: running_def)
  moreover have "base ?q" using l p(2) by (auto simp: linked_def base_def valid_pid_def)
  ultimately show ?thesis using l p(2) by (simp add: linked_def)
qed

lemma keeps_sleep_avg:
  assumes "core_inv q" "unat (f (tasks q p)) \<le> 1000000000"
  shows "keeps q (upd_task p (\<lambda>t. t\<lparr>sleep_avg := f t\<rparr>) q)"
  using core_task_ok[OF assms(1), of p] assms by (intro keeps_upd) (simp_all add: task_ok_def)

lemma keeps_link_before_current:
  assumes c: "core_inv q" and p: "array (tasks q p) = None" "valid_pid p" "p \<noteq> curr q"
    and i: "array (tasks q (curr q)) = Some i"
  shows "keeps q (link_before_current i p q)"
proof -
  let ?c = "tasks q (curr q)"
  define r where "r = upd_task p (\<lambda>t. t\<lparr>prio := prio ?c, normal_prio_f := normal_prio_f ?c\<rparr>) q"
  have kr: "keeps q r" unfolding r_def using c p core_task_ok[OF c, of p] core_task_ok[OF c, of "curr q"]
    by (intro keeps_upd) (simp_all add: task_ok_def valid_pid_def)
  have rc: "tasks r (curr q) = ?c" "prio (tasks r p) = prio ?c" "array (tasks r p) = None"
    using p by (simp_all add: r_def)
  define s where "s = upd_array i (\<lambda>a. a\<lparr>nr_active := nr_active a + 1\<rparr>) (upd_task p (\<lambda>t. t\<lparr>array := Some i\<rparr>)
   (upd_array i (\<lambda>a. a\<lparr>queue := (\<lambda>k. insert_before p (curr q) (queue a k))\<rparr>) r))"
  have s: "link_before_current i p q = inc_nr_running p s"
    by (simp add: link_before_current_def s_def r_def Let_def)
  have "linked r" and ac: "acct (running r) (running r) r" using keeps_core[OF kr] by (auto simp: core_inv_def)
  then have ls: "linked s" unfolding s_def using i p(2) rc by (intro linked_insert_before) simp_all
  have pr: "p \<notin> running r" using rc(3) by (simp add: running_def)
  have rs: "running s = insert p (running r)" by (auto simp: s_def running_def)
  have "acct (running r) (running r) (upd_task p (\<lambda>t. t\<lparr>array := Some i\<rparr>) r)" using ac pr by (intro acct_upd) auto
  then have "acct (running r) (running r) s" by (simp add: acct_def s_def)
  then have "acct (running s) (running s) (inc_nr_running p s)" unfolding rs using pr by (intro acct_inc_nr) simp_all
  then have "core_inv (inc_nr_running p s)" using ls by (simp add: core_inv_def)
  moreover have "running q \<subseteq> running (inc_nr_running p s)" using kr by (auto simp: rs keeps_def)
  ultimately show ?thesis unfolding s by (simp add: keeps_def s_def r_def)
qed

lemma keeps_wake_up_new_task:
  assumes c: "core_inv q" and p: "array (tasks q p) = None" "valid_pid p" "p \<noteq> curr q"
    and w: "wake_up_new_task vm p q = Some q'"
  shows "keeps q q'"
proof -
  have p0: "p \<noteq> 0" using p by (simp add: valid_pid_def)
  define q1 where "q1 = upd_task p (\<lambda>t. t\<lparr>sleep_avg := fork_sleep_avg CHILD_PENALTY t\<rparr>) q"
  have k1: "keeps q q1" unfolding q1_def using core_task_ok[OF c, of p]
    by (intro keeps_sleep_avg[OF c] fork_sleep_avg_bound) (simp_all add: task_ok_def CHILD_PENALTY_def)
  obtain pr t where e: "effective_prio (tasks q1 p) = (pr, t)" by (cases "effective_prio (tasks q1 p)")
  note E = effective_prio_ok[OF core_task_ok[OF keeps_core[OF k1]] e]
  define q2 where "q2 = upd_task p (\<lambda>t. let (pr, t) = effective_prio t in t\<lparr>prio := pr\<rparr>) q1"
  have a1: "array (tasks q1 p) = None" using p by (simp add: q1_def)
  have t2: "tasks q2 p = t\<lparr>prio := pr\<rparr>" by (simp add: q2_def e)
  have k2: "keeps q1 q2" unfolding q2_def using keeps_core[OF k1] E a1 p0
    by (intro keeps_upd) (simp_all add: e)
  have a2: "array (tasks q2 p) = None" using a1 E(2) by (simp add: t2)
  note c2 = keeps_core[OF k2]
  have cq: "p \<noteq> curr q2" using p(3) by (simp add: q2_def q1_def)
  have act: "keeps q2 (activate_task_on p q2)"
    using c2 a2 p(2) E(1) by (intro keeps_activate_on) (simp_all add: t2)
  define q3 where "q3 = (case array (tasks q2 (curr q2)) of
     None \<Rightarrow> activate_task_on p q2 | Some i \<Rightarrow> link_before_current i p q2)"
  have k3: "keeps q2 q3" unfolding q3_def
    using act keeps_link_before_current[OF c2 a2 p(2) cq] by (simp split: option.split)
  define q4 where "q4 = (if \<not> vm then set_need_resched (curr q2) q3 else activate_task_on p q2)"
  have k4: "keeps q2 q4" unfolding q4_def
    by (intro keeps_if act keeps_trans[OF k3 keeps_slice(3)[OF keeps_core[OF k3]]])
  have q': "upd_task (curr q2) (\<lambda>t. t\<lparr>sleep_avg := fork_sleep_avg PARENT_PENALTY t\<rparr>) q4 = q'"
    using w unfolding wake_up_new_task_def Let_def q4_def q3_def q2_def q1_def
    by (simp only: option.inject option.distinct split: if_split_asm)
  have "keeps q4 q'" unfolding q'[symmetric] using core_task_ok[OF keeps_core[OF k4], of "curr q2"]
    by (intro keeps_sleep_avg keeps_core[OF k4] fork_sleep_avg_bound) (simp_all add: task_ok_def PARENT_PENALTY_def)
  then show ?thesis by (rule keeps_trans[OF keeps_trans[OF keeps_trans[OF k1 k2] k4]])
qed

lemma keeps_recover_slice:
  assumes c: "core_inv q"
  shows "keeps q (recover_slice parent p q)"
proof -
  define q1 where "q1 = upd_task parent (\<lambda>t. t\<lparr>time_slice := time_slice t + time_slice (tasks q p)\<rparr>) q"
  have k: "keeps q q1" unfolding q1_def by (rule keeps_slice(1)[OF c])
  show ?thesis unfolding recover_slice_def Let_def q1_def[symmetric]
    by (intro keeps_if k keeps_refl c keeps_trans[OF k keeps_slice(1)[OF keeps_core[OF k]]])
qed

lemma exit_average_bound:
  fixes a b :: u64
  assumes "unat a \<le> 1000000000" "unat b \<le> 1000000000"
  shows "unat (a div (EXIT_WEIGHT + 1) * EXIT_WEIGHT + b div (EXIT_WEIGHT + 1)) \<le> 1000000000"
proof -
  have d: "unat (a div 4) \<le> 250000000" "unat (b div 4) \<le> 250000000" using assms by (simp_all add: unat_div)
  have m: "unat (a div 4 * 3) = unat (a div 4) * 3" using d by (subst unat_mult_lem[THEN iffD1]) simp_all
  have "unat (a div 4 * 3 + b div 4) = unat (a div 4 * 3) + unat (b div 4)"
    using d m by (subst unat_add_lem[THEN iffD1]) simp_all
  then show ?thesis using d m by (simp add: EXIT_WEIGHT_def)
qed

lemma keeps_sched_exit:
  assumes c: "core_inv q"
  shows "keeps q (sched_exit parent p q)"
proof -
  define q1 where "q1 = recover_slice parent p q"
  have k1: "keeps q q1" unfolding q1_def by (rule keeps_recover_slice[OF c])
  have ok: "unat (sleep_avg (tasks q1 x)) \<le> 1000000000" for x
    using core_task_ok[OF keeps_core[OF k1], of x] by (simp add: task_ok_def)
  have "keeps q1 (upd_task parent (\<lambda>t. t\<lparr>sleep_avg := sleep_avg t div (EXIT_WEIGHT + 1) * EXIT_WEIGHT
      + sleep_avg (tasks q1 p) div (EXIT_WEIGHT + 1)\<rparr>) q1)"
    by (intro keeps_sleep_avg keeps_core[OF k1] exit_average_bound ok)
  from keeps_trans[OF k1 this] k1
  show ?thesis unfolding sched_exit_def Let_def q1_def[symmetric] by (intro keeps_if)
qed

subsection \<open>Changes of priority\<close>

lemma keeps_resched_after: "core_inv q \<Longrightarrow> keeps q (resched_after oldprio p q)"
  unfolding resched_after_def by (intro keeps_if keeps_resched keeps_refl)

lemma keeps_rt_mutex_setprio:
  assumes c: "core_inv q" and pr: "0 \<le> pr" "pr < MAX_PRIO"
  obtains q' where "rt_mutex_setprio p pr q = Some q'" "keeps q q'"
proof (cases "array (tasks q p)")
  case None
  let ?q = "upd_task p (\<lambda>t. t\<lparr>prio := pr\<rparr>) q"
  have "keeps q ?q" using c None core_task_ok[OF c, of p] pr by (intro keeps_upd) (simp_all add: task_ok_def)
  moreover have "rt_mutex_setprio p pr q = Some ?q" using None pr by (simp add: rt_mutex_setprio_def Let_def)
  ultimately show ?thesis using that by blast
next
  case (Some i)
  define j where "j = (if pr < MAX_RT_PRIO then active q else i)"
  have j: "j < 2" using base_indices[OF core_base[OF c]] core_queued_prio[OF c Some] by (simp add: j_def)
  let ?q = "enqueue_task p j (upd_task p (\<lambda>t. t\<lparr>prio := pr\<rparr>) (dequeue_task p i q))"
  have "keeps q ?q" using core_task_ok[OF c, of p] pr
    by (intro keeps_move c Some j) (simp_all add: task_ok_def)
  from keeps_trans[OF this keeps_resched_after[OF keeps_core[OF this]]]
  have "keeps q (resched_after (prio (tasks q p)) p ?q)" .
  moreover have "rt_mutex_setprio p pr q = Some (resched_after (prio (tasks q p)) p ?q)"
    using Some pr by (simp add: rt_mutex_setprio_def Let_def rt_task_def rt_prio_def j_def)
  ultimately show ?thesis using that by blast
qed

lemma keeps_adjust_pi_chain:
  assumes "core_inv q" "\<forall>(p, pr)\<in>set chain. 0 \<le> pr \<and> pr < MAX_PRIO"
  shows "\<exists>q'. adjust_pi_chain chain q = Some q' \<and> keeps q q'"
  using assms
proof (induction chain arbitrary: q)
  case (Cons w ws)
  obtain p pr where w: "w = (p, pr)" by (cases w)
  obtain q1 where q1: "rt_mutex_setprio p pr q = Some q1" "keeps q q1"
    using keeps_rt_mutex_setprio[OF Cons.prems(1), of pr p] Cons.prems(2) w by auto
  obtain q2 where "adjust_pi_chain ws q1 = Some q2" "keeps q1 q2"
    using Cons.IH[OF keeps_core[OF q1(2)]] Cons.prems(2) by auto
  then show ?case using q1 keeps_trans by (auto simp: w)
qed (simp add: keeps_refl)

lemma getprio_range:
  assumes "task_ok t" "0 \<le> normal_prio_f t" "normal_prio_f t < MAX_PRIO"
  shows "0 \<le> rt_mutex_getprio t \<and> rt_mutex_getprio t < MAX_PRIO"
  using assms by (auto simp: rt_mutex_getprio_def task_ok_def split: option.split)

lemma set_load_weight_same [simp]:
  "array (set_load_weight t) = array t" "prio (set_load_weight t) = prio t" "state (set_load_weight t) = state t"
  "task_ok (set_load_weight t) = task_ok t"
  by (simp_all add: set_load_weight_def task_ok_def)

lemma keeps_setscheduler:
  assumes c: "core_inv q" and a: "array (tasks q p) = None" and pr: "0 \<le> pr" "pr < MAX_RT_PRIO"
  obtains q' where "setscheduler p pol pr q = Some q'" "keeps q q'" "array (tasks q' p) = None"
    "0 \<le> prio (tasks q' p)" "prio (tasks q' p) < MAX_PRIO" "running q' = running q"
proof -
  define t1 where "t1 = (tasks q p)\<lparr>policy_f := pol, rt_priority := pr\<rparr>"
  define t2 where "t2 = t1\<lparr>normal_prio_f := normal_prio t1\<rparr>"
  define t3 where "t3 = t2\<lparr>prio := rt_mutex_getprio t2\<rparr>"
  define t4 where "t4 = set_load_weight (if pol = SCHED_BATCH then t3\<lparr>sleep_avg := 0\<rparr> else t3)"
  have e: "setscheduler p pol pr q = Some (upd_task p (\<lambda>_. t4) q)"
    using a by (simp add: setscheduler_def Let_def upd_task_upd_task t4_def t3_def t2_def t1_def)
      (simp add: upd_task_def)
  have o1: "task_ok t1" using core_task_ok[OF c, of p] pr by (simp add: t1_def task_ok_def)
  have o2: "task_ok t2" "0 \<le> normal_prio_f t2" "normal_prio_f t2 < MAX_PRIO"
    using normal_prio_range[OF o1] o1 by (auto simp: t2_def task_ok_def)
  note g = getprio_range[OF o2]
  have "task_ok t3" using o2(1) g by (simp add: t3_def task_ok_def)
  then have o4: "task_ok t4" by (simp add: t4_def) (simp add: task_ok_def)
  have f: "array t4 = None" "prio t4 = rt_mutex_getprio t2" "state t4 = state (tasks q p)"
    using a by (simp_all add: t4_def t3_def t2_def t1_def)
  have "keeps q (upd_task p (\<lambda>_. t4) q)" using c a o4 f by (intro keeps_upd) simp_all
  moreover have "running (upd_task p (\<lambda>_. t4) q) = running q" using a f by (auto simp: running_def)
  ultimately show ?thesis using that[OF e] f g by simp
qed

lemma reactivated:
  assumes c: "core_inv q" and p: "array (tasks q p) = Some i" and pr: "0 \<le> pr" "pr < MAX_RT_PRIO"
  obtains q' where "setscheduler p pol pr (deactivate_task p q) = Some q'" "keeps q (activate_task_on p q')"
proof -
  note d = core_deactivate[OF c p]
  have "array (tasks (deactivate_task p q) p) = None" by (simp add: d(3))
  then obtain q' where q': "setscheduler p pol pr (deactivate_task p q) = Some q'" "keeps (deactivate_task p q) q'"
    "array (tasks q' p) = None" "0 \<le> prio (tasks q' p)" "prio (tasks q' p) < MAX_PRIO"
    "running q' = running (deactivate_task p q)"
    using keeps_setscheduler[OF d(1) _ pr, of p pol thesis] that by blast
  note a = core_activate_on[OF keeps_core[OF q'(2)] q'(3) core_valid[OF c p] q'(4,5)]
  have "p \<in> running q" using p by (simp add: running_def)
  then have "running (activate_task_on p q') = running q" by (simp add: a(2) q'(6) d(2) insert_absorb)
  moreover have "curr q' = curr q" using q'(2) d(4) by (simp add: keeps_def)
  ultimately have "keeps q (activate_task_on p q')" using a by (simp add: keeps_def)
  then show ?thesis using that q'(1) by blast
qed

lemma keeps_change_scheduler:
  assumes c: "core_inv q" and pr: "0 \<le> pr" "pr < MAX_RT_PRIO"
  shows "\<exists>q'. change_scheduler p pol pr q = Some q' \<and> keeps q q'"
proof (cases "array (tasks q p)")
  case None
  obtain q' where "setscheduler p pol pr q = Some q'" "keeps q q'"
    using keeps_setscheduler[OF c None pr, of pol thesis] by blast
  then show ?thesis using None by (simp add: change_scheduler_def Let_def)
next
  case (Some i)
  obtain q' where q': "setscheduler p pol pr (deactivate_task p q) = Some q'" "keeps q (activate_task_on p q')"
    by (rule reactivated[OF c Some pr])
  from keeps_trans[OF q'(2) keeps_resched_after[OF keeps_core[OF q'(2)]]] q'(1) Some
  show ?thesis by (simp add: change_scheduler_def Let_def)
qed

lemma keeps_sched_setscheduler:
  assumes c: "core_inv q" and ch: "\<forall>(p, pr)\<in>set chain. 0 \<le> pr \<and> pr < MAX_PRIO"
  shows "\<exists>r q'. sched_setscheduler cl chain p policy sp q = Some (r, q') \<and> keeps q q'"
proof (cases "if policy < 0 then Some (policy_f (tasks q p)) else policy_of policy")
  case None
  then show ?thesis using keeps_refl[OF c] by (simp add: sched_setscheduler_def Let_def)
next
  case (Some pol)
  let ?t = "tasks q p"
  show ?thesis
  proof (cases "sp < 0 \<or> (has_mm ?t \<and> MAX_USER_RT_PRIO - 1 < sp) \<or> (\<not> has_mm ?t \<and> MAX_RT_PRIO - 1 < sp) \<or>
     is_rt_policy pol \<noteq> (sp \<noteq> 0) \<or> setscheduler_allowed cl ?t pol sp \<noteq> 0 \<or> security_retval cl \<noteq> 0")
    case True
    then show ?thesis using keeps_refl[OF c] unfolding sched_setscheduler_def Let_def Some option.case
      by (simp split: if_split) blast
  next
    case False
    then have sp: "0 \<le> sp" "sp < MAX_RT_PRIO" by (auto simp: MAX_USER_RT_PRIO_def MAX_RT_PRIO_def)
    obtain q1 where q1: "change_scheduler p pol sp q = Some q1" "keeps q q1"
      using keeps_change_scheduler[OF c sp] by blast
    obtain q2 where q2: "adjust_pi_chain chain q1 = Some q2" "keeps q1 q2"
      using keeps_adjust_pi_chain[OF keeps_core[OF q1(2)] ch] by blast
    have "sched_setscheduler cl chain p policy sp q = Some (0, q2)"
      using False q1(1) q2(1) unfolding sched_setscheduler_def Let_def Some option.case by simp
    with keeps_trans[OF q1(2) q2(2)] show ?thesis by blast
  qed
qed

lemma keeps_normalize:
  assumes "core_inv q"
  shows "\<exists>q'. normalize_rt_tasks ps q = Some q' \<and> keeps q q'"
  using assms
proof (induction ps arbitrary: q)
  case (Cons p ps)
  have zero: "(0::int) \<le> 0" "0 < MAX_RT_PRIO" by (simp_all add: MAX_RT_PRIO_def)
  have "\<exists>q1. keeps q q1 \<and> normalize_rt_tasks (p # ps) q = normalize_rt_tasks ps q1"
  proof (cases "rt_task (tasks q p)")
    case True
    show ?thesis
    proof (cases "array (tasks q p)")
      case None
      obtain q' where "setscheduler p SCHED_NORMAL 0 q = Some q'" "keeps q q'"
        using keeps_setscheduler[OF Cons.prems None zero, of SCHED_NORMAL thesis] by blast
      then show ?thesis using True None by (auto simp: Let_def)
    next
      case (Some i)
      obtain q' where q': "setscheduler p SCHED_NORMAL 0 (deactivate_task p q) = Some q'" "keeps q (activate_task_on p q')"
        by (rule reactivated[OF Cons.prems Some zero])
      from keeps_trans[OF q'(2) keeps_resched[OF keeps_core[OF q'(2)]]] q'(1) Some True
      show ?thesis by (auto simp: Let_def)
    qed
  qed (use keeps_refl[OF Cons.prems] in auto)
  then obtain q1 where q1: "keeps q q1" "normalize_rt_tasks (p # ps) q = normalize_rt_tasks ps q1" by blast
  from Cons.IH[OF keeps_core[OF q1(1)]] q1 keeps_trans show ?case by metis
qed (simp add: keeps_refl)

lemma nice_task_ok:
  assumes "task_ok t" "-20 \<le> nice" "nice \<le> 19"
  shows "task_ok (t\<lparr>static_prio := NICE_TO_PRIO nice\<rparr>)"
  using assms by (simp add: task_ok_def NICE_TO_PRIO_def sched_consts)

lemma keeps_set_user_nice:
  assumes c: "core_inv q"
  shows "keeps q (set_user_nice p nice q)"
proof (cases "TASK_NICE (tasks q p) = nice \<or> nice < -20 \<or> 19 < nice")
  case True
  then show ?thesis using keeps_refl[OF c] by (simp add: set_user_nice_def)
next
  case nice: False
  let ?t0 = "(tasks q p)\<lparr>static_prio := NICE_TO_PRIO nice\<rparr>"
  have t0: "task_ok ?t0" using core_task_ok[OF c, of p] nice by (intro nice_task_ok) auto
  obtain pr t where e: "effective_prio (set_load_weight ?t0) = (pr, t)"
    by (cases "effective_prio (set_load_weight ?t0)")
  have sl: "task_ok (set_load_weight ?t0)" using t0 by simp
  note E = effective_prio_ok[OF sl e]
  define f where "f = (\<lambda>t. let (pr, t) = effective_prio (set_load_weight (t\<lparr>static_prio := NICE_TO_PRIO nice\<rparr>)) in t\<lparr>prio := pr\<rparr>)"
  have f: "f (tasks q p) = t\<lparr>prio := pr\<rparr>" by (simp add: f_def e)
  have ft: "array (f (tasks q p)) = array (tasks q p)" "state (f (tasks q p)) = state (tasks q p)"
    "task_ok (f (tasks q p))" "prio (f (tasks q p)) = pr" using E by (simp_all add: f)
  show ?thesis
  proof (cases "has_rt_policy (tasks q p)")
    case True
    have "keeps q (upd_task p (\<lambda>t. t\<lparr>static_prio := NICE_TO_PRIO nice\<rparr>) q)" using c t0 by (intro keeps_upd) simp_all
    with nice True show ?thesis by (simp add: set_user_nice_def)
  next
    case pol: False
    show ?thesis
    proof (cases "array (tasks q p)")
      case None
      have "keeps q (upd_task p f q)" using c None ft by (intro keeps_upd) simp_all
      moreover have "set_user_nice p nice q = upd_task p f q"
        using nice pol None by (simp add: set_user_nice_def Let_def upd_task_upd_task f_def)
      ultimately show ?thesis by simp
    next
      case (Some i)
      define q1 where "q1 = upd_task p f (dec_raw_weighted_load p (dequeue_task p i q))"
      define q2 where "q2 = inc_raw_weighted_load p (enqueue_task p i q1)"
      have l: "linked q" and a: "acct (running q) (running q) q" using c by (auto simp: core_inv_def)
      have pin: "p \<in> running q" using Some by (simp add: running_def)
      have v: "valid_pid p" by (rule core_valid[OF c Some])
      have "parked p (dec_raw_weighted_load p (dequeue_task p i q))" using linked_dequeue[OF l Some] by simp
      then have pk: "parked p q1" unfolding q1_def using ft v by (intro parked_upd) (simp_all add: valid_pid_def)
      have "linked (enqueue_task p i q1)" using core_queued_prio[OF c Some] E(1)
        by (intro parked_enqueue[OF pk v]) (simp_all add: q1_def f)
      then have l2: "linked q2" by (simp add: q2_def)
      have "acct (running q) (running q - {p}) q1"
        unfolding q1_def using acct_dec_load[of "running q" "running q" "dequeue_task p i q" p] a pin
        by (intro acct_upd) simp_all
      then have "acct (running q) (insert p (running q - {p})) q2" unfolding q2_def
        by (intro acct_inc_load) simp_all
      moreover have r2: "running q2 = running q" using pin ft(1) Some by (auto simp: q2_def q1_def)
      ultimately have "core_inv q2" using l2 pin by (simp add: core_inv_def insert_absorb)
      then have k2: "keeps q q2" using r2 by (simp add: keeps_def q2_def q1_def)
      have "set_user_nice p nice q \<in> {q2, resched_task (curr q2) q2}"
        using nice pol Some by (simp add: set_user_nice_def Let_def upd_task_upd_task f_def q2_def q1_def)
      then show ?thesis using k2 keeps_trans[OF k2 keeps_resched[OF keeps_core[OF k2]]] by auto
    qed
  qed
qed

lemma keeps_yield_move:
  assumes c: "core_inv q" and y: "yield_move q = Some q'"
  shows "keeps q q'" "running q' = running q"
proof -
  obtain i where i: "array (tasks q (curr q)) = Some i" using y by (auto simp: yield_move_def Let_def split: option.splits)
  define target where "target = (if rt_task (tasks q (curr q)) then active q else expired q)"
  have t: "target < 2" using base_indices[OF core_base[OF c]] by (simp add: target_def)
  have q': "q' = (if i \<noteq> target then enqueue_task (curr q) target (dequeue_task (curr q) i q) else requeue_task (curr q) i q)"
    using y unfolding yield_move_def Let_def target_def[symmetric] i by (simp only: option.case option.inject)
  have "upd_task (curr q) (\<lambda>t. t) (dequeue_task (curr q) i q) = dequeue_task (curr q) i q" by (simp add: upd_task_def)
  then have m: "keeps q (enqueue_task (curr q) target (dequeue_task (curr q) i q))"
    using keeps_move[of q "curr q" i target "\<lambda>t. t"] c i t core_task_ok[OF c] core_queued_prio[OF c i] by simp
  show "keeps q q'" unfolding q' by (intro keeps_if m keeps_requeue c i)
  show "running q' = running q" unfolding q' using i by (auto simp: running_def)
qed

end
