(* ===== verification/Sched_Choice.thy ===== *)
theory Sched_Choice
  imports Sched_Correct
begin

text \<open>
  What \<^verbatim>\<open>schedule\<close> does: it never follows a null pointer or takes a list head for a task, chooses a
  task of the best priority of the active array (after the arrays have changed roles if the active
  one was empty), and its loop ends.
\<close>

subsection \<open>The steps of a pass\<close>

lemma put_prev_cases:
  assumes i: "rq_inv q"
  obtains (stays) "sched_put_prev pa sig (curr q) q = Some q"
  | (awake) "sched_put_prev pa sig (curr q) q = Some (upd_task (curr q) (\<lambda>t. t\<lparr>state := TASK_RUNNING\<rparr>) q)"
  | (leaves) n j where "array (tasks q (curr q)) = Some j"
      "sched_put_prev pa sig (curr q) q = Some (deactivate_task (curr q) (q\<lparr>nr_uninterruptible := n\<rparr>))"
proof (cases "state (tasks q (curr q)) = 0 \<or> pa")
  case True
  then show ?thesis using stays by (auto simp: sched_put_prev_def Let_def)
next
  case False
  have "state (tasks q 0) = 0" using i core_idle_state[of q] by (simp add: rq_inv_def TASK_RUNNING_def)
  with False have "curr q \<noteq> 0" by (intro notI) simp
  then obtain j where j: "array (tasks q (curr q)) = Some j" using i by (auto simp: rq_inv_def running_def)
  define n where "n = (if state (tasks q (curr q)) = TASK_UNINTERRUPTIBLE then nr_uninterruptible q + 1 else nr_uninterruptible q)"
  have n: "(if state (tasks q (curr q)) = TASK_UNINTERRUPTIBLE
     then q\<lparr>nr_uninterruptible := nr_uninterruptible q + 1\<rparr> else q) = q\<lparr>nr_uninterruptible := n\<rparr>"
    by (simp add: n_def)
  show ?thesis
  proof (cases "state (tasks q (curr q)) AND TASK_INTERRUPTIBLE \<noteq> 0 \<and> sig")
    case True
    then show ?thesis using awake False by (simp add: sched_put_prev_def Let_def)
  next
    case no: False
    have "sched_put_prev pa sig (curr q) q = Some (deactivate_task (curr q) (q\<lparr>nr_uninterruptible := n\<rparr>))"
      using False no j unfolding sched_put_prev_def Let_def n if_not_P[OF no] by simp
    with j leaves show ?thesis by blast
  qed
qed

lemma put_prev_ok:
  assumes i: "rq_inv q"
  obtains q1 where "sched_put_prev pa sig (curr q) q = Some q1" "core_inv q1" "curr q1 = curr q"
    "active q1 = active q" "\<And>x. need_resched (tasks q1 x) = need_resched (tasks q x)"
    "\<And>x. prio (tasks q1 x) = prio (tasks q x)"
    "\<And>x. x \<noteq> curr q \<Longrightarrow> tasks q1 x = tasks q x"
proof -
  have c: "core_inv q" using i by (simp add: rq_inv_def)
  show ?thesis
  proof (rule put_prev_cases[OF i, of pa sig])
    assume "sched_put_prev pa sig (curr q) q = Some q"
    then show ?thesis using that c by simp
  next
    assume s: "sched_put_prev pa sig (curr q) q = Some (upd_task (curr q) (\<lambda>t. t\<lparr>state := TASK_RUNNING\<rparr>) q)"
    have "core_inv (upd_task (curr q) (\<lambda>t. t\<lparr>state := TASK_RUNNING\<rparr>) q)"
      using c core_task_ok[OF c, of "curr q"] by (intro core_inv_upd) simp_all
    then show ?thesis using that[OF s] by simp
  next
    fix n j
    assume j: "array (tasks q (curr q)) = Some j"
      and s: "sched_put_prev pa sig (curr q) q = Some (deactivate_task (curr q) (q\<lparr>nr_uninterruptible := n\<rparr>))"
    have d: "core_inv (q\<lparr>nr_uninterruptible := n\<rparr>)" "array (tasks (q\<lparr>nr_uninterruptible := n\<rparr>) (curr q)) = Some j"
      using c j by simp_all
    have "active (deactivate_task (curr q) (q\<lparr>nr_uninterruptible := n\<rparr>)) = active q"
      by (simp add: deactivate_task_def Let_def)
    then show ?thesis using that[OF s] core_deactivate[OF d] by simp
  qed
qed

lemma core_switch_arrays [simp]: "core_inv (switch_arrays q) = core_inv q"
proof -
  have "running (switch_arrays q) = running q" "loc_of (switch_arrays q) = loc_of q" "base (switch_arrays q) = base q"
    "queued (switch_arrays q) l = queued q l" for l
    by (auto simp: switch_arrays_def running_def loc_of_def fun_eq_iff base_def queued_def)
  moreover have "acct N S (switch_arrays q) = acct N S q" for N S by (simp add: switch_arrays_def acct_def)
  ultimately show ?thesis by (simp add: core_inv_def linked_def)
qed

lemma switch_arrays_sel [simp]:
  "tasks (switch_arrays q) = tasks q" "arrays (switch_arrays q) = arrays q" "curr (switch_arrays q) = curr q"
  "idle (switch_arrays q) = idle q"
  by (simp_all add: switch_arrays_def)

lemma nr_active_empty:
  assumes c: "core_inv q" and i: "i < 2"
  shows "nr_active (arrays q i) = 0 \<longleftrightarrow> (\<forall>x. array (tasks q x) \<noteq> Some i)"
proof -
  have l: "linked q" using c by (simp add: core_inv_def)
  then have ok: "array_ok (arrays q i) (in_array i (loc_of q))" using i by (simp add: linked_def queuedD(1))
  have d: "dom (in_array i (loc_of q)) = {x. array (tasks q x) = Some i}"
    by (auto simp: dom_def in_array_def loc_of_def split: option.splits if_splits)
  have "card {x. array (tasks q x) = Some i} \<le> card {0..<PID_MAX_LIMIT}"
    using l by (intro card_mono) (auto simp: linked_def running_def valid_pid_def)
  then have "card {x. array (tasks q x) = Some i} < 2 ^ 32" by (simp add: PID_MAX_LIMIT_def)
  then have "unat (nr_active (arrays q i)) = card {x. array (tasks q x) = Some i}"
    using array_okD(7)[OF ok] d by (simp add: unat_of_nat)
  moreover have "finite {x. array (tasks q x) = Some i}" using array_okD(1)[OF ok] d by simp
  ultimately show ?thesis by (metis (mono_tags, lifting) card_eq_0_iff empty_Collect_eq unat_eq_zero)
qed

lemma nr_running_zero:
  assumes c: "core_inv q"
  shows "nr_running q = 0 \<longleftrightarrow> running q = {}"
proof -
  have l: "linked q" and a: "acct (running q) (running q) q" using c by (auto simp: core_inv_def)
  have "card (running q) \<le> card {0..<PID_MAX_LIMIT}"
    using l by (intro card_mono) (auto simp: linked_def valid_pid_def)
  then have "card (running q) < 2 ^ 64" by (simp add: PID_MAX_LIMIT_def)
  then have "unat (nr_running q) = card (running q)" using a by (simp add: acct_def unat_of_nat)
  then show ?thesis using finite_running[OF l] by (metis card_eq_0_iff unat_eq_zero)
qed

lemma pick_next_best:
  assumes c: "core_inv q" and n: "running q \<noteq> {}"
  obtains p where "pick_next (switch_arrays q) = Some p" "array (tasks q p) = Some (active (switch_arrays q))"
    "\<And>x. array (tasks q x) = Some (active (switch_arrays q)) \<Longrightarrow> prio (tasks q p) \<le> prio (tasks q x)"
    "active (switch_arrays q) \<noteq> active q \<Longrightarrow> \<forall>x. array (tasks q x) \<noteq> Some (active q)"
proof -
  let ?a = "active (switch_arrays q)"
  have b: "base q" by (rule core_base[OF c])
  have a2: "active q < 2" "?a < 2" using base_indices[OF b] by (auto simp: switch_arrays_def)
  have empty: "\<forall>x. array (tasks q x) \<noteq> Some (active q)" if "?a \<noteq> active q"
    using that nr_active_empty[OF c a2(1)] by (auto simp: switch_arrays_def split: if_splits)
  obtain x where x: "array (tasks q x) = Some ?a"
  proof (cases "nr_active (arrays q (active q)) = 0")
    case False
    then have "?a = active q" by (simp add: switch_arrays_def)
    with False show ?thesis using that nr_active_empty[OF c a2(1)] by auto
  next
    case True
    from n obtain y i where y: "array (tasks q y) = Some i" by (auto simp: running_def)
    moreover have "i < 2" "i \<noteq> active q" using core_queued_prio[OF c y] y nr_active_empty[OF c a2(1)] True by auto
    then have "i = expired q" using b by (auto simp: base_def)
    ultimately show ?thesis using that True by (simp add: switch_arrays_def)
  qed
  have ok: "array_ok (arrays q ?a) (in_array ?a (loc_of q))"
    using c a2(2) by (simp add: core_inv_def linked_def queuedD(1))
  have xin: "in_array ?a (loc_of q) y = Some (prio (tasks q y))" if "array (tasks q y) = Some ?a" for y
    using loc_of_Some[OF that] by simp
  obtain j p ps where j: "sched_find_first_bit (bitmap (arrays q ?a)) = Some j" "queue (arrays q ?a) j = p # ps"
    "in_array ?a (loc_of q) p = Some j" "\<And>y k. in_array ?a (loc_of q) y = Some k \<Longrightarrow> j \<le> k"
    by (rule array_ok_first[OF ok xin[OF x]]) blast
  have "array (tasks q p) = Some ?a" "prio (tasks q p) = j" using j(3) by (auto simp: loc_of_def)
  moreover have "pick_next (switch_arrays q) = Some p" using j(1,2) by (simp add: pick_next_def)
  ultimately show ?thesis using that j(4)[OF xin] empty by blast
qed

lemma keeps_recalc_next:
  assumes c: "core_inv q" and p: "array (tasks q p) = Some i"
  shows "keeps q (recalc_next now p q)"
    "\<And>x. need_resched (tasks (recalc_next now p q) x) = need_resched (tasks q x)"
    "array (tasks (recalc_next now p q) p) = Some i" "idle (recalc_next now p q) = idle q"
proof -
  define q1 where "q1 = (if \<not> rt_task (tasks q p) \<and> interactive_sleep (sleep_type_f (tasks q p)) then
                 let delta = (if sint (now - timestamp (tasks q p)) < 0 then 0 else now - timestamp (tasks q p));
                     delta = (if sleep_type_f (tasks q p) = SLEEP_INTERACTIVE
                              then delta * word_of_int (ON_RUNQUEUE_WEIGHT * 128 div 100) div 128 else delta);
                     i = the (array (tasks q p));
                     (new_prio, t') = recalc_task_prio (tasks q p) (timestamp (tasks q p) + delta);
                     q = upd_task p (\<lambda>_. t') q
                 in if prio t' \<noteq> new_prio then
                      let q = dequeue_task p i q;
                          q = upd_task p (\<lambda>t. t\<lparr>prio := new_prio\<rparr>) q
                      in enqueue_task p i q
                    else q
               else q)"
  have e: "recalc_next now p q = upd_task p (\<lambda>t. t\<lparr>sleep_type_f := SLEEP_NORMAL\<rparr>) q1"
    unfolding recalc_next_def q1_def Let_def ..
  have "keeps q q1 \<and> (\<forall>x. need_resched (tasks q1 x) = need_resched (tasks q x)) \<and> array (tasks q1 p) = Some i \<and> idle q1 = idle q"
  proof (cases "\<not> rt_task (tasks q p) \<and> interactive_sleep (sleep_type_f (tasks q p))")
    case False
    then have "q1 = q" unfolding q1_def by (simp only: if_False)
    then show ?thesis using keeps_refl[OF c] p by simp
  next
    case True
    define d where "d = (let delta = (if sint (now - timestamp (tasks q p)) < 0 then 0 else now - timestamp (tasks q p))
      in if sleep_type_f (tasks q p) = SLEEP_INTERACTIVE
                              then delta * word_of_int (ON_RUNQUEUE_WEIGHT * 128 div 100) div 128 else delta)"
    obtain pr t where r: "recalc_task_prio (tasks q p) (timestamp (tasks q p) + d) = (pr, t)"
      by (cases "recalc_task_prio (tasks q p) (timestamp (tasks q p) + d)")
    note R = recalc_task_prio_ok[OF core_task_ok[OF c] r]
    have q1: "q1 = (if prio t \<noteq> pr then enqueue_task p i (upd_task p (\<lambda>t. t\<lparr>prio := pr\<rparr>) (dequeue_task p i (upd_task p (\<lambda>_. t) q)))
       else upd_task p (\<lambda>_. t) q)"
      unfolding q1_def if_P[OF True] using r p unfolding d_def Let_def by simp
    have k: "keeps q (upd_task p (\<lambda>_. t) q)" using c R by (intro keeps_upd) simp_all
    have "keeps (upd_task p (\<lambda>_. t) q) (enqueue_task p i (upd_task p (\<lambda>t. t\<lparr>prio := pr\<rparr>) (dequeue_task p i (upd_task p (\<lambda>_. t) q))))"
      using core_queued_prio[OF c p] R p by (intro keeps_move keeps_core[OF k]) (simp_all add: task_ok_def)
    from keeps_trans[OF k this] k have "keeps q q1" unfolding q1 by (rule keeps_if)
    then show ?thesis using R p by (auto simp: q1)
  qed
  then have q1: "keeps q q1" "\<And>x. need_resched (tasks q1 x) = need_resched (tasks q x)" "array (tasks q1 p) = Some i" "idle q1 = idle q" by auto
  have "keeps q1 (recalc_next now p q)" unfolding e using core_task_ok[OF keeps_core[OF q1(1)], of p]
    by (intro keeps_upd keeps_core[OF q1(1)]) simp_all
  with q1(1) show "keeps q (recalc_next now p q)" by (rule keeps_trans)
  show "need_resched (tasks (recalc_next now p q) x) = need_resched (tasks q x)" for x using q1(2) by (simp add: e)
  show "array (tasks (recalc_next now p q) p) = Some i" "idle (recalc_next now p q) = idle q" using q1 by (simp_all add: e)
qed

lemma switch_tasks_ok:
  assumes c: "core_inv q" and r: "unat r \<le> 1000000000" and cq: "curr q = prev"
  shows "core_inv (switch_tasks now r prev nxt q)" "running (switch_tasks now r prev nxt q) = running q"
    "curr (switch_tasks now r prev nxt q) = nxt" "idle (switch_tasks now r prev nxt q) = idle q"
    "\<And>x. need_resched (tasks (switch_tasks now r prev nxt q) x) \<longleftrightarrow> x \<noteq> prev \<and> need_resched (tasks q x)"
proof -
  define f where "f = (\<lambda>t :: task_struct. let t = t\<lparr>need_resched := False\<rparr>; t = t\<lparr>sched_time := sched_time t + (now - last_ran t)\<rparr>;
     t = t\<lparr>last_ran := now\<rparr>; t = t\<lparr>sleep_avg := sleep_avg t - r\<rparr>; t = (if sint (sleep_avg t) \<le> 0 then t\<lparr>sleep_avg := 0\<rparr> else t)
     in t\<lparr>timestamp := now, last_ran := now\<rparr>)"
  define q1 where "q1 = upd_task prev f (q\<lparr>most_recent_timestamp := now\<rparr>)"
  have sa: "unat (sleep_avg (f t)) \<le> 1000000000" if "unat (sleep_avg t) \<le> 1000000000" for t
    using sleep_avg_charge[OF that r] by (simp add: f_def Let_def)
  have same: "array (f t) = array t" "prio (f t) = prio t" "load_weight (f t) = load_weight t" "state (f t) = state t"
    "static_prio (f t) = static_prio t" "normal_prio_f (f t) = normal_prio_f t" "rt_priority (f t) = rt_priority t"
    "top_pi_waiter (f t) = top_pi_waiter t" "\<not> need_resched (f t)" for t
    by (simp_all add: f_def Let_def)
  have ok: "task_ok (f (tasks q x))" for x using core_task_ok[OF c, of x] sa by (simp add: task_ok_def same)
  have c1: "core_inv q1" "running q1 = running q"
    unfolding q1_def using c ok core_idle_state[OF c] core_inv_upd[of "q\<lparr>most_recent_timestamp := now\<rparr>" f prev]
    by (simp_all add: same del: running_upd)
  define q2 where "q2 = upd_task nxt (\<lambda>t. t\<lparr>timestamp := now, last_ran := now\<rparr>) q1"
  have c2: "core_inv q2" "running q2 = running q"
    unfolding q2_def using core_inv_upd[OF c1(1), of "\<lambda>t. t\<lparr>timestamp := now, last_ran := now\<rparr>" nxt]
      core_task_ok[OF c1(1), of nxt] core_idle_state[OF c1(1)] c1(2) by (simp_all del: running_upd)
  have e: "switch_tasks now r prev nxt q = (if prev \<noteq> nxt then q2\<lparr>nr_switches := nr_switches q1 + 1, curr := nxt\<rparr> else q1)"
  proof -
    have m: "(upd_task p g q')\<lparr>most_recent_timestamp := x\<rparr> = upd_task p g (q'\<lparr>most_recent_timestamp := x\<rparr>)" for p g q' x
      by (simp add: upd_task_def)
    show ?thesis unfolding switch_tasks_def Let_def update_cpu_clock_def m upd_task_upd_task q2_def q1_def f_def ..
  qed
  show "core_inv (switch_tasks now r prev nxt q)" "running (switch_tasks now r prev nxt q) = running q"
    using c1 c2 by (simp_all add: e)
  show "curr (switch_tasks now r prev nxt q) = nxt" "idle (switch_tasks now r prev nxt q) = idle q"
    using cq by (simp_all add: e q1_def q2_def)
  show "need_resched (tasks (switch_tasks now r prev nxt q) x) \<longleftrightarrow> x \<noteq> prev \<and> need_resched (tasks q x)" for x
    by (simp add: e q2_def q1_def same)
qed

subsection \<open>A pass, and the loop\<close>

lemma schedule_pass_ok:
  assumes i: "rq_inv q"
  obtains q1 q' where "sched_put_prev pa (sig (curr q)) (curr q) q = Some q1" "core_inv q1"
    "\<And>x. x \<noteq> curr q \<Longrightarrow> tasks q1 x = tasks q x"
    "schedule_pass pa sig now q = Some q'" "rq_inv q'"
    "\<And>x. need_resched (tasks q' x) \<longleftrightarrow> x \<noteq> curr q \<and> need_resched (tasks q x)"
    "running q1 = {} \<Longrightarrow> curr q' = 0"
    "running q1 \<noteq> {} \<Longrightarrow> array (tasks q1 (curr q')) = Some (active (switch_arrays q1)) \<and>
       (\<forall>x. array (tasks q1 x) = Some (active (switch_arrays q1)) \<longrightarrow> prio (tasks q1 (curr q')) \<le> prio (tasks q1 x)) \<and>
       (active (switch_arrays q1) \<noteq> active q1 \<longrightarrow> (\<forall>x. array (tasks q1 x) \<noteq> Some (active q1)))"
proof -
  obtain q1 where q1: "sched_put_prev pa (sig (curr q)) (curr q) q = Some q1" "core_inv q1" "curr q1 = curr q"
    "active q1 = active q" "\<And>x. need_resched (tasks q1 x) = need_resched (tasks q x)"
    "\<And>x. prio (tasks q1 x) = prio (tasks q x)" "\<And>x. x \<noteq> curr q \<Longrightarrow> tasks q1 x = tasks q x"
    by (rule put_prev_ok[OF i]) blast
  define r where "r = sched_run_time (tasks q (curr q)) now"
  have r: "unat r \<le> 1000000000" unfolding r_def by (rule sched_run_time_bound)
  have idle: "idle q1 = 0" using core_base[OF q1(2)] by (simp add: base_def)
  show ?thesis
  proof (cases "running q1 = {}")
    case True
    define q' where "q' = switch_tasks now r (curr q) (idle q1) (q1\<lparr>expired_timestamp := 0\<rparr>)"
    have e: "schedule_pass pa sig now q = Some q'"
      using q1(1) True nr_running_zero[OF q1(2)] by (simp add: schedule_pass_def Let_def q'_def r_def)
    have "core_inv (q1\<lparr>expired_timestamp := 0\<rparr>)" "curr (q1\<lparr>expired_timestamp := 0\<rparr>) = curr q" using q1 by simp_all
    note s = switch_tasks_ok[OF this(1) r this(2), of now "idle q1", folded q'_def]
    have "rq_inv q'" "curr q' = 0" using s idle by (simp_all add: rq_inv_def)
    then show ?thesis using that[OF q1(1,2,7) e] s(5) q1(5) True by simp
  next
    case False
    obtain p where p: "pick_next (switch_arrays q1) = Some p" "array (tasks q1 p) = Some (active (switch_arrays q1))"
      "\<And>x. array (tasks q1 x) = Some (active (switch_arrays q1)) \<Longrightarrow> prio (tasks q1 p) \<le> prio (tasks q1 x)"
      "active (switch_arrays q1) \<noteq> active q1 \<Longrightarrow> \<forall>x. array (tasks q1 x) \<noteq> Some (active q1)"
      by (rule pick_next_best[OF q1(2) False]) blast
    define q2 where "q2 = recalc_next now p (switch_arrays q1)"
    have "core_inv (switch_arrays q1)" "array (tasks (switch_arrays q1) p) = Some (active (switch_arrays q1))"
      using q1(2) p(2) by simp_all
    note n = keeps_recalc_next[OF this, of now, folded q2_def]
    define q' where "q' = switch_tasks now r (curr q) p q2"
    have e: "schedule_pass pa sig now q = Some q'"
      using q1(1) False nr_running_zero[OF q1(2)] p(1) by (simp add: schedule_pass_def Let_def q'_def q2_def r_def)
    have "core_inv q2" "curr q2 = curr q" using n(1) q1(3) by (simp_all add: keeps_def)
    note s = switch_tasks_ok[OF this(1) r this(2), of now p, folded q'_def]
    have "p \<in> running q2" using n(3) by (simp add: running_def)
    then have "rq_inv q'" using s by (simp add: rq_inv_def)
    then show ?thesis using that[OF q1(1,2,7) e] s(3,5) n(2) q1(5) False p by simp
  qed
qed

lemma schedule_inv: "rq_inv q \<Longrightarrow> schedule pa sig nows q = Some q' \<Longrightarrow> rq_inv q'"
proof (induction nows arbitrary: q)
  case (Cons now nows)
  obtain q1 where q1: "schedule_pass pa sig now q = Some q1" "rq_inv q1"
    using schedule_pass_ok[OF Cons.prems(1), of pa sig now thesis] by blast
  with Cons show ?case by (simp split: if_splits)
qed simp

lemma schedule_returns:
  assumes "rq_inv q" "finite {p. need_resched (tasks q p)}"
    and "card (insert (curr q) {p. need_resched (tasks q p)}) \<le> length nows"
  shows "\<exists>q'. schedule pa sig nows q = Some q'"
  using assms
proof (induction nows arbitrary: q)
  case (Cons now nows)
  let ?F = "{p. need_resched (tasks q p)}"
  obtain q1 where q1: "schedule_pass pa sig now q = Some q1" "rq_inv q1"
    "\<And>x. need_resched (tasks q1 x) \<longleftrightarrow> x \<noteq> curr q \<and> need_resched (tasks q x)"
    using schedule_pass_ok[OF Cons.prems(1), of pa sig now thesis] by blast
  have F: "{p. need_resched (tasks q1 p)} = insert (curr q) ?F - {curr q}" using q1(3) by auto
  show ?case
  proof (cases "need_resched (tasks q1 (curr q1))")
    case True
    then have "insert (curr q1) {p. need_resched (tasks q1 p)} = {p. need_resched (tasks q1 p)}" by auto
    moreover have "card (insert (curr q) ?F - {curr q}) = card (insert (curr q) ?F) - 1"
      by (rule card_Diff_singleton) simp
    ultimately have "card (insert (curr q1) {p. need_resched (tasks q1 p)}) \<le> length nows"
      using Cons.prems(3) F by simp
    with Cons.IH[OF q1(2)] Cons.prems(2) F True q1(1) show ?thesis by simp
  qed (use q1(1) in simp)
next
  case Nil
  then have "insert (curr q) {p. need_resched (tasks q p)} = {}" by (simp only: card_eq_0_iff finite_insert le_zero_eq list.size) simp
  then show ?case by blast
qed

subsection \<open>Reachable run queues\<close>

definition init_task :: task_struct where
  "init_task = \<lparr>state = 0, load_weight = 0, prio = MAX_PRIO - 20, static_prio = MAX_PRIO - 20,
     normal_prio_f = MAX_PRIO - 20, rt_priority = 0, array = None, sleep_avg = 0, timestamp = 0, last_ran = 0,
     sched_time = 0, sleep_type_f = SLEEP_NORMAL, policy_f = SCHED_NORMAL, time_slice = word_of_int HZ,
     first_time_slice = 0, has_mm = False, need_resched = False, top_pi_waiter = None\<rparr>"

text \<open>Static storage is zero before \<^verbatim>\<open>sched_init\<close>; the table has the boot task's fields everywhere, as
  every task starts as a copy of another.\<close>

definition boot_rq :: rq where
  "boot_rq = \<lparr>tasks = (\<lambda>_. init_task), arrays = (\<lambda>_. \<lparr>nr_active = 0, bitmap = (\<lambda>_. False), queue = (\<lambda>_. [])\<rparr>),
     active = 0, expired = 0, nr_running = 0, raw_weighted_load = 0, nr_switches = 0, nr_uninterruptible = 0,
     expired_timestamp = 0, most_recent_timestamp = 0, curr = 0, idle = 0, best_expired_prio = 0\<rparr>"

inductive sched_step :: "rq \<Rightarrow> rq \<Rightarrow> bool" where
  wake: "valid_pid p \<Longrightarrow> sched_step q (snd (try_to_wake_up now irq p m sync q))"
| wake_queue: "\<forall>(p, e)\<in>set ws. valid_pid p \<Longrightarrow> sched_step q (wake_up_common now irq ws mode n sync q)"
| tick: "sched_step q (scheduler_tick now jif q)"
| sched: "schedule pa sig nows q = Some q' \<Longrightarrow> sched_step q q'"
| yields: "sys_sched_yield sig nows q = Some (r, q') \<Longrightarrow> sched_step q q'"
| fork: "array (tasks q p) = None \<Longrightarrow> valid_pid p \<Longrightarrow> p \<noteq> curr q \<Longrightarrow> sched_step q (fork_task now jif p q)"
| start: "array (tasks q p) = None \<Longrightarrow> valid_pid p \<Longrightarrow> p \<noteq> curr q \<Longrightarrow> wake_up_new_task vm p q = Some q' \<Longrightarrow> sched_step q q'"
| exit: "sched_step q (sched_exit parent p q)"
| boost: "0 \<le> pr \<Longrightarrow> pr < MAX_PRIO \<Longrightarrow> rt_mutex_setprio p pr q = Some q' \<Longrightarrow> sched_step q q'"
| nice: "sched_step q (set_user_nice p n q)"
| policy: "\<forall>(p, pr)\<in>set chain. 0 \<le> pr \<and> pr < MAX_PRIO \<Longrightarrow> sched_setscheduler cl chain p pol sp q = Some (r, q') \<Longrightarrow> sched_step q q'"
| normalize: "normalize_rt_tasks ps q = Some q' \<Longrightarrow> sched_step q q'"
| env: "(p = 0 \<Longrightarrow> st = TASK_RUNNING) \<Longrightarrow> (\<And>x. w = Some x \<Longrightarrow> 0 \<le> x \<and> x < MAX_PRIO) \<Longrightarrow>
    sched_step q (upd_task p (\<lambda>t. t\<lparr>state := st, time_slice := ts, has_mm := mm, top_pi_waiter := w\<rparr>) q)"

definition sched_reachable :: "rq \<Rightarrow> bool" where
  "sched_reachable q \<longleftrightarrow> (\<exists>now. sched_step\<^sup>*\<^sup>* (sched_init now 0 boot_rq) q)"

lemma boot_inv: "rq_inv (sched_init now 0 boot_rq)"
proof -
  let ?q = "sched_init now 0 boot_rq"
  have t: "array (tasks ?q x) = None" "task_ok (tasks ?q x)" for x
    by (simp_all add: sched_init_def init_idle_def boot_rq_def init_task_def Let_def task_ok_def set_load_weight_def
        sched_consts has_rt_policy_def is_rt_policy_def)
  have l: "loc_of ?q = Map.empty" "running ?q = {}" using t(1) by (auto simp: loc_of_def running_def)
  have a: "arrays ?q i = init_prio_array \<lparr>nr_active = 0, bitmap = (\<lambda>_. False), queue = (\<lambda>_. [])\<rparr>" if "i < 2" for i
    using that by (cases "i = 0") (auto simp: sched_init_def init_idle_def boot_rq_def Let_def)
  have ia: "in_array i Map.empty = Map.empty" for i by (simp add: in_array_def)
  have "queued ?q (loc_of ?q)" unfolding l queued_def
  proof (intro conjI allI impI)
    fix i :: nat assume i: "i < 2"
    show "array_ok (arrays ?q i) (in_array i Map.empty)"
      unfolding ia a[OF i] by (rule array_okI) (simp_all add: init_prio_array_def)
  qed simp
  moreover have "base ?q" using t(2) by (simp add: base_def) (simp add: sched_init_def init_idle_def Let_def)
  moreover have "acct {} {} ?q" by (simp add: acct_def) (simp add: sched_init_def init_idle_def Let_def boot_rq_def)
  moreover have "curr ?q = 0" by (simp add: sched_init_def init_idle_def Let_def)
  ultimately show ?thesis by (simp add: rq_inv_def core_inv_def linked_def l(2))
qed

lemma rq_inv_core: "rq_inv q \<Longrightarrow> core_inv q"
  by (simp add: rq_inv_def)

lemma step_inv: "sched_step q q' \<Longrightarrow> rq_inv q \<Longrightarrow> rq_inv q'"
proof (induction rule: sched_step.induct)
  case (wake p q now irq m sync)
  show ?case by (rule keeps_rq_inv[OF wake(2) keeps_try_to_wake_up[OF rq_inv_core[OF wake(2)] wake(1)]])
next
  case (wake_queue ws q now irq mode n sync)
  show ?case by (rule keeps_rq_inv[OF wake_queue(2) keeps_wake_up_common[OF rq_inv_core[OF wake_queue(2)] wake_queue(1)]])
next
  case (tick q now jif)
  show ?case by (rule keeps_rq_inv[OF tick keeps_scheduler_tick[OF rq_inv_core[OF tick]]])
next
  case (sched pa sig nows q q')
  show ?case by (rule schedule_inv[OF sched(2,1)])
next
  case (yields sig nows q r q')
  then obtain q1 where q1: "yield_move q = Some q1" "schedule False sig nows q1 = Some q'"
    by (auto simp: sys_sched_yield_def split: bind_splits)
  show ?case
    by (rule schedule_inv[OF keeps_rq_inv[OF yields(2) keeps_yield_move(1)[OF rq_inv_core[OF yields(2)] q1(1)]] q1(2)])
next
  case (fork q p now jif)
  show ?case by (rule keeps_rq_inv[OF fork(4) keeps_fork[OF rq_inv_core[OF fork(4)] fork(1-3)]])
next
  case (start q p vm q')
  show ?case by (rule keeps_rq_inv[OF start(5) keeps_wake_up_new_task[OF rq_inv_core[OF start(5)] start(1-4)]])
next
  case (exit q parent p)
  show ?case by (rule keeps_rq_inv[OF exit keeps_sched_exit[OF rq_inv_core[OF exit]]])
next
  case (boost pr p q q')
  obtain q'' where "rt_mutex_setprio p pr q = Some q''" "keeps q q''"
    by (rule keeps_rt_mutex_setprio[OF rq_inv_core[OF boost(4)] boost(1,2)])
  with boost(3,4) show ?case using keeps_rq_inv[of q q'] by simp
next
  case (nice q p n)
  show ?case by (rule keeps_rq_inv[OF nice keeps_set_user_nice[OF rq_inv_core[OF nice]]])
next
  case (policy chain cl p pol sp q r q')
  obtain r' q'' where "sched_setscheduler cl chain p pol sp q = Some (r', q'')" "keeps q q''"
    using keeps_sched_setscheduler[OF rq_inv_core[OF policy(3)] policy(1)] by blast
  with policy(2,3) show ?case using keeps_rq_inv[of q q'] by simp
next
  case (normalize ps q q')
  obtain q'' where "normalize_rt_tasks ps q = Some q''" "keeps q q''"
    using keeps_normalize[OF rq_inv_core[OF normalize(2)]] by blast
  with normalize show ?case using keeps_rq_inv[of q q'] by simp
next
  case (env p st w q mm ts)
  note c = rq_inv_core[OF env(3)]
  have w: "\<forall>x. w = Some x \<longrightarrow> 0 \<le> x \<and> x < MAX_PRIO" using env(2) by blast
  have "keeps q (upd_task p (\<lambda>t. t\<lparr>state := st, time_slice := ts, has_mm := mm, top_pi_waiter := w\<rparr>) q)"
  proof (rule keeps_upd[OF c])
    show "task_ok ((tasks q p)\<lparr>state := st, time_slice := ts, has_mm := mm, top_pi_waiter := w\<rparr>)"
      using core_task_ok[OF c, of p] w by (simp add: task_ok_def)
  qed (use env(1) core_idle_state[OF c] in simp_all)
  with env(3) show ?case by (rule keeps_rq_inv)
qed

lemma reachable_inv:
  assumes "sched_reachable q"
  shows "rq_inv q"
proof -
  obtain now where "sched_step\<^sup>*\<^sup>* (sched_init now 0 boot_rq) q" using assms by (auto simp: sched_reachable_def)
  then show ?thesis by (induction rule: rtranclp_induct) (use boot_inv step_inv in blast)+
qed

subsection \<open>Properties\<close>

text \<open>C40: In every state the scheduler can reach from boot, through wakeups, ticks, context switches,
  forks, exits, yields and changes of priority and policy in any order, the two arrays are exactly
  the tasks' own view: the queue of priority \<open>k\<close> in array \<open>i\<close> holds, once each, the tasks whose \<open>array\<close>
  is \<open>i\<close> and whose \<open>prio\<close> is \<open>k\<close>; a bit of the bitmap is set exactly for a queue with tasks; the counts
  of tasks and the load are those of the queues; and every queued priority is inside the array.\<close>

theorem runqueue_consistent:
  assumes "sched_reachable q" and "i < 2"
  shows "(\<forall>k. 0 \<le> k \<longrightarrow> k < MAX_PRIO \<longrightarrow> distinct (queue (arrays q i) k) \<and>
       set (queue (arrays q i) k) = {p. array (tasks q p) = Some i \<and> prio (tasks q p) = k} \<and>
       bitmap (arrays q i) k = (queue (arrays q i) k \<noteq> [])) \<and>
     nr_active (arrays q i) = of_nat (card {p. array (tasks q p) = Some i}) \<and>
     nr_running q = of_nat (card {p. array (tasks q p) \<noteq> None}) \<and>
     raw_weighted_load q = (\<Sum>p | array (tasks q p) \<noteq> None. word_of_int (load_weight (tasks q p))) \<and>
     (\<forall>p. array (tasks q p) \<noteq> None \<longrightarrow> 0 \<le> prio (tasks q p) \<and> prio (tasks q p) < MAX_PRIO)"
proof -
  have c: "core_inv q" using reachable_inv[OF assms(1)] by (simp add: rq_inv_def)
  have ok: "array_ok (arrays q i) (in_array i (loc_of q))"
    using c assms(2) by (simp add: core_inv_def linked_def queuedD(1))
  have l: "in_array i (loc_of q) p = Some k \<longleftrightarrow> array (tasks q p) = Some i \<and> prio (tasks q p) = k" for p k
    by (auto simp: loc_of_def)
  have d: "dom (in_array i (loc_of q)) = {p. array (tasks q p) = Some i}" using l by (auto simp: dom_def)
  show ?thesis
  proof (intro conjI allI impI)
    show "nr_active (arrays q i) = of_nat (card {p. array (tasks q p) = Some i})" using array_okD(7)[OF ok] d by simp
    show "nr_running q = of_nat (card {p. array (tasks q p) \<noteq> None})"
      "raw_weighted_load q = (\<Sum>p | array (tasks q p) \<noteq> None. word_of_int (load_weight (tasks q p)))"
      using c by (simp_all add: core_inv_def acct_def running_def)
    show "0 \<le> prio (tasks q p)" "prio (tasks q p) < MAX_PRIO" if "array (tasks q p) \<noteq> None" for p
      using that core_queued_prio[OF c, of p] by auto
  qed (use array_okD(3-5)[OF ok] l in auto)
qed

text \<open>The first process after boot: created by the idle task and put on the queue.\<close>

definition demo_rq :: rq where
  "demo_rq = the (wake_up_new_task True 1 (fork_task 0 0 1 (sched_init 0 0 boot_rq)))"

lemma demo_rq_reachable: "sched_reachable demo_rq"
proof -
  let ?b = "sched_init 0 0 boot_rq"
  let ?f = "fork_task 0 0 1 ?b"
  have b: "array (tasks ?b 1) = None" "curr ?b = 0" "valid_pid 1"
    by (simp_all add: sched_init_def init_idle_def boot_rq_def init_task_def Let_def valid_pid_def PID_MAX_LIMIT_def)
  have f: "array (tasks ?f 1) = None" "curr ?f = 0" "state (tasks ?f 1) = TASK_RUNNING" by code_simp+
  have "sched_step ?b ?f" using b by (intro sched_step.fork) simp_all
  moreover have "sched_step ?f demo_rq" using f b(3)
    by (intro sched_step.start[where p = 1 and vm = True]) (simp_all add: demo_rq_def wake_up_new_task_def)
  ultimately show ?thesis unfolding sched_reachable_def by (intro exI[of _ 0]) (meson rtranclp.simps)
qed

theorem runqueue_consistent_witness:
  "nr_running demo_rq = of_nat (card {p. array (tasks demo_rq p) \<noteq> None}) \<and> (0::nat) < 2"
  using runqueue_consistent[OF demo_rq_reachable, of 0] by simp

text \<open>C7: A pass of \<^verbatim>\<open>schedule\<close> never faults and chooses well. Once the outgoing task has been put aside
  (it leaves the queue when it goes to sleep), the idle task is chosen exactly when no task is
  runnable; otherwise the chosen task is in the active array and none there has a better priority,
  and the arrays change roles only when no task was left in the active one. The loop of \<^verbatim>\<open>schedule\<close>
  ends: at most one pass for the current task and one for each task marked for rescheduling.\<close>

theorem schedule_picks_best:
  assumes "sched_reachable q"
  shows "\<exists>q1 q'. sched_put_prev preempt_active (signal_pending (curr q)) (curr q) q = Some q1 \<and>
     schedule_pass preempt_active signal_pending now q = Some q' \<and>
     (\<forall>x. x \<noteq> curr q \<longrightarrow> tasks q1 x = tasks q x) \<and>
     ((\<forall>x. array (tasks q1 x) = None) \<longleftrightarrow> curr q' = idle q) \<and>
     (let a = active (switch_arrays q1)
      in curr q' \<noteq> idle q \<longrightarrow> array (tasks q1 (curr q')) = Some a \<and>
         (\<forall>x. array (tasks q1 x) = Some a \<longrightarrow> prio (tasks q1 (curr q')) \<le> prio (tasks q1 x)) \<and>
         (a \<noteq> active q1 \<longrightarrow> (\<forall>x. array (tasks q1 x) \<noteq> Some (active q1)))) \<and>
     (finite {p. need_resched (tasks q p)} \<and> card {p. need_resched (tasks q p)} < length nows \<longrightarrow>
        (\<exists>q''. schedule preempt_active signal_pending nows q = Some q''))"
proof -
  note i = reachable_inv[OF assms]
  have idle: "idle q = 0" using i by (simp add: rq_inv_def core_inv_def linked_def base_def)
  have loop: "\<exists>q''. schedule preempt_active signal_pending nows q = Some q''"
    if "finite {p. need_resched (tasks q p)}" "card {p. need_resched (tasks q p)} < length nows"
    using that by (intro schedule_returns[OF i]) (simp_all add: card_insert_if)
  show ?thesis
  proof (rule schedule_pass_ok[OF i, of preempt_active signal_pending now])
    fix q1 q'
    assume A: "sched_put_prev preempt_active (signal_pending (curr q)) (curr q) q = Some q1" "core_inv q1"
      "\<And>x. x \<noteq> curr q \<Longrightarrow> tasks q1 x = tasks q x" "schedule_pass preempt_active signal_pending now q = Some q'"
      and E: "running q1 = {} \<Longrightarrow> curr q' = 0"
      and N: "running q1 \<noteq> {} \<Longrightarrow> array (tasks q1 (curr q')) = Some (active (switch_arrays q1)) \<and>
       (\<forall>x. array (tasks q1 x) = Some (active (switch_arrays q1)) \<longrightarrow> prio (tasks q1 (curr q')) \<le> prio (tasks q1 x)) \<and>
       (active (switch_arrays q1) \<noteq> active q1 \<longrightarrow> (\<forall>x. array (tasks q1 x) \<noteq> Some (active q1)))"
    have r: "(\<forall>x. array (tasks q1 x) = None) \<longleftrightarrow> running q1 = {}" by (auto simp: running_def)
    have z: "curr q' = 0 \<longleftrightarrow> running q1 = {}"
    proof
      assume z: "curr q' = 0"
      show "running q1 = {}"
      proof (rule ccontr)
        assume "running q1 \<noteq> {}"
        then have "valid_pid (curr q')" using N core_valid[OF A(2)] by blast
        with z show False by (simp add: valid_pid_def)
      qed
    qed (rule E)
    show ?thesis
      by (rule exI[of _ q1], rule exI[of _ q'])
        (use A(1,3,4) loop N in \<open>simp add: idle r z Let_def del: not_None_eq\<close>)
  qed
qed

theorem schedule_picks_best_witness:
  "\<exists>q'. schedule_pass False (\<lambda>_. False) 5 demo_rq = Some q'"
  using schedule_picks_best[OF demo_rq_reachable, of False "\<lambda>_. False" 5 "[]"] by blast

end
