(* ===== verification/Slices.thy ===== *)
theory Slices
  imports Sched_Choice Syscalls
begin

text \<open>
  The added system calls meet the scheduler: \<^verbatim>\<open>sys_swipe\<close> and \<^verbatim>\<open>sys_quad\<close> write the time slices that
  the tick counts down. The task table of \<open>Syscalls\<close> and the run queue of \<open>Sched\<close> describe the same
  task structures; \<open>set_slices\<close> carries the slices over.
\<close>

definition set_slices :: "task_table \<Rightarrow> rq \<Rightarrow> rq" where
  "set_slices ts q = q\<lparr>tasks := (\<lambda>p. (tasks q p)\<lparr>time_slice :=
     (case ts (of_nat p) of Some t \<Rightarrow> t_time_slice t | None \<Rightarrow> time_slice (tasks q p))\<rparr>)\<rparr>"

fun ticks :: "u64 list \<Rightarrow> nat \<Rightarrow> rq \<Rightarrow> rq" where
  "ticks [] p q = q"
| "ticks (j # js) p q = ticks js p (task_running_tick j p q)"

text \<open>A tick that does not end the slice leaves the task in the active array, one tick poorer.\<close>

lemma tick_goes_on:
  assumes a: "array (tasks q p) = Some (active q)" and rt: "\<not> rt_task (tasks q p)"
    and s: "time_slice (tasks q p) \<noteq> 1"
  shows "array (tasks (task_running_tick j p q) p) = Some (active (task_running_tick j p q))"
    "\<not> rt_task (tasks (task_running_tick j p q) p)"
    "time_slice (tasks (task_running_tick j p q) p) = time_slice (tasks q p) - 1"
proof -
  define q1 where "q1 = upd_task p (\<lambda>t. t\<lparr>time_slice := time_slice t - 1\<rparr>) q"
  have nz: "time_slice (tasks q1 p) \<noteq> 0" using s by (simp add: q1_def)
  have "task_running_tick j p q \<in> {q1, set_need_resched p (requeue_task p (active q1) q1)}"
    using a rt nz unfolding task_running_tick_def Let_def q1_def[symmetric] by simp
  then show "array (tasks (task_running_tick j p q) p) = Some (active (task_running_tick j p q))"
    "\<not> rt_task (tasks (task_running_tick j p q) p)"
    "time_slice (tasks (task_running_tick j p q) p) = time_slice (tasks q p) - 1"
    using a rt by (auto simp: q1_def set_need_resched_def rt_task_def)
qed

lemma ticks_go_on:
  assumes "array (tasks q p) = Some (active q)" "\<not> rt_task (tasks q p)"
    and "time_slice (tasks q p) = - of_nat n" "n + length js < 2 ^ 32"
  shows "array (tasks (ticks js p q) p) = Some (active (ticks js p q)) \<and>
     time_slice (tasks (ticks js p q) p) = - of_nat (n + length js)"
  using assms
proof (induction js arbitrary: q n)
  case (Cons j js)
  have "(of_nat (Suc n) :: u32) \<noteq> 0" using Cons.prems(4) by (subst word_of_nat_eq_0_iff) (simp add: nat_dvd_not_less)
  then have "time_slice (tasks q p) \<noteq> 1" using Cons.prems(3) by (auto simp: neg_eq_iff_add_eq_0 add.commute)
  note t = tick_goes_on[OF Cons.prems(1,2) this, of j]
  have "time_slice (tasks (task_running_tick j p q) p) = - of_nat (Suc n)" using t(3) Cons.prems(3) by simp
  from Cons.IH[OF t(1,2) this] Cons.prems(4) show ?case by simp
qed simp

text \<open>C26: \<^verbatim>\<open>sys_swipe\<close> leaves its victim the time slice 0, which the tick takes for a full one: it
  decrements before it tests, so the slice becomes \<open>2 ^ 32 - 1\<close>. The victim is not expired; it stays in the
  active array through every one of the next \<open>2 ^ 32 - 1\<close> ticks it is charged (more than six months
  at 250 a second), with the slice counting down from \<open>2 ^ 32\<close>.\<close>

theorem swiped_victim_never_expires:
  assumes "ts target = Some t" and "ts (of_nat v) = Some vt" and "target \<noteq> of_nat v"
    and "array (tasks q v) = Some (active q)" and "\<not> rt_task (tasks q v)" and "length js < 2 ^ 32"
  shows "let q' = ticks js v (set_slices (snd (sys_swipe target (of_nat v) ts)) q)
     in array (tasks q' v) = Some (active q') \<and> time_slice (tasks q' v) = - of_nat (length js)"
proof -
  let ?q = "set_slices (snd (sys_swipe target (of_nat v) ts)) q"
  have "time_slice (tasks ?q v) = - of_nat 0" using swipe_result[OF assms(1-3)] by (simp add: set_slices_def)
  moreover have "array (tasks ?q v) = Some (active ?q)" "\<not> rt_task (tasks ?q v)"
    using assms(4,5) by (simp_all add: set_slices_def rt_task_def)
  ultimately show ?thesis using ticks_go_on[of ?q v 0 js] assms(6) by (simp add: Let_def)
qed

definition demo_running :: rq where
  "demo_running = enqueue_task 7 0 (sched_init 0 0 boot_rq)"

theorem swiped_victim_never_expires_witness:
  "let q' = ticks [1, 2] 7 (set_slices (snd (sys_swipe 5 7 [5 \<mapsto> demo_task, 7 \<mapsto> demo_task])) demo_running)
   in time_slice (tasks q' 7) = - 2"
proof -
  have "array (tasks demo_running 7) = Some (active demo_running)" "\<not> rt_task (tasks demo_running 7)" by code_simp+
  then show ?thesis
    using swiped_victim_never_expires[of "[5 \<mapsto> demo_task, 7 \<mapsto> demo_task]" 5 demo_task 7 demo_task demo_running "[1, 2]"]
    by (simp add: Let_def)
qed

end
