(* ===== verification/Waitqueue.thy ===== *)
theory Waitqueue
  imports Sched_Correct
begin

text \<open>
  Wait queues as the code that sleeps on them sees them. For each task only its \<open>state\<close> and whether it
  is on the run queue matter; \<open>wake\<close> is the effect of \<^verbatim>\<open>try_to_wake_up\<close> on these two, and \<open>wake_walk\<close> that of
  \<^verbatim>\<open>__wake_up_common\<close>. Both are shown to be what the scheduler of \<open>Sched\<close> does. The records of the
  synchronisation objects extend \<open>wtasks\<close>.
\<close>

record wtasks =
  tstate :: "nat \<Rightarrow> s64"
  on_rq :: "nat \<Rightarrow> bool"
  pending :: "nat \<Rightarrow> bool"

subsection \<open>Waking\<close>

definition wake :: "nat \<Rightarrow> u32 \<Rightarrow> 'a wtasks_scheme \<Rightarrow> bool \<times> 'a wtasks_scheme" where
  "wake t mode s =
     (if tstate s t AND ucast mode = 0 then (False, s)
      else if on_rq s t then (False, s\<lparr>tstate := (tstate s)(t := TASK_RUNNING)\<rparr>)
      else (True, s\<lparr>tstate := (tstate s)(t := TASK_RUNNING), on_rq := (on_rq s)(t := True)\<rparr>))"

fun wake_walk :: "(nat \<times> bool) list \<Rightarrow> u32 \<Rightarrow> s32 \<Rightarrow> 'a wtasks_scheme \<Rightarrow> 'a wtasks_scheme" where
  "wake_walk [] mode nr_exclusive s = s"
| "wake_walk ((t, exclusive) # ws) mode nr_exclusive s =
     (let (woken, s) = wake t mode s
      in if woken \<and> exclusive
         then if nr_exclusive - 1 = 0 then s else wake_walk ws mode (nr_exclusive - 1) s
         else wake_walk ws mode nr_exclusive s)"

definition both :: u32 where
  "both = ucast (TASK_UNINTERRUPTIBLE OR TASK_INTERRUPTIBLE)"

text \<open>\<^verbatim>\<open>schedule\<close> for a task that may be about to sleep: it leaves the run queue unless its state says it
  runs, or it sleeps interruptibly and a signal is pending.\<close>

definition go_to_sleep :: "nat \<Rightarrow> 'a wtasks_scheme \<Rightarrow> 'a wtasks_scheme" where
  "go_to_sleep t s =
     (if tstate s t = TASK_RUNNING then s
      else if tstate s t AND TASK_INTERRUPTIBLE \<noteq> 0 \<and> pending s t
      then s\<lparr>tstate := (tstate s)(t := TASK_RUNNING)\<rparr>
      else s\<lparr>on_rq := (on_rq s)(t := False)\<rparr>)"

subsection \<open>The scheduler does this\<close>

definition proj :: "rq \<Rightarrow> (nat \<Rightarrow> bool) \<Rightarrow> wtasks" where
  "proj q pend = \<lparr>tstate = (\<lambda>t. state (tasks q t)), on_rq = (\<lambda>t. array (tasks q t) \<noteq> None), pending = pend\<rparr>"

lemma recalc_same: "recalc_task_prio t now = (pr, t') \<Longrightarrow> state t' = state t \<and> array t' = array t"
  by (auto simp: recalc_task_prio_def effective_prio_def Let_def split: if_splits)

lemma activate_on_tasks:
  "tasks (activate_task_on p q) = (tasks q)(p := (tasks q p)\<lparr>array := Some (if batch_task (tasks q p) then expired q else active q)\<rparr>)"
  by (simp add: activate_task_on_def inc_nr_running_def inc_raw_weighted_load_def Let_def)

lemma activate_proj:
  "state (tasks (activate_task now irq p q) x) = state (tasks q x)"
  "array (tasks (activate_task now irq p q) x) = None \<longleftrightarrow> x \<noteq> p \<and> array (tasks q x) = None"
  by (auto simp: activate_task_def activate_on_tasks Let_def split: prod.split dest: recalc_same)

lemma ttwu_proj:
  "state (tasks (ttwu_activate now irq p sync q) x) = (if x = p then TASK_RUNNING else state (tasks q x))"
  "array (tasks (ttwu_activate now irq p sync q) x) = None \<longleftrightarrow> x \<noteq> p \<and> array (tasks q x) = None"
  by (simp_all add: ttwu_activate_def Let_def activate_proj del: not_None_eq)

lemma try_to_wake_up_proj:
  "wake p m (proj q pend) =
     (fst (try_to_wake_up now irq p m sync q) \<noteq> 0, proj (snd (try_to_wake_up now irq p m sync q)) pend)"
  by (auto simp: try_to_wake_up_def wake_def proj_def Let_def ttwu_proj fun_eq_iff simp del: not_None_eq)

lemma wake_up_common_proj:
  "wake_walk ws mode n (proj q pend) = proj (wake_up_common now irq ws mode n sync q) pend"
proof (induction ws arbitrary: q n)
  case (Cons w ws)
  obtain p e where w: "w = (p, e)" by (cases w)
  obtain r q' where q': "try_to_wake_up now irq p mode sync q = (r, q')" by (cases "try_to_wake_up now irq p mode sync q")
  have "wake p mode (proj q pend) = (r \<noteq> 0, proj q' pend)"
    using try_to_wake_up_proj[of p mode q pend now irq sync] q' by simp
  then show ?case using Cons.IH by (simp add: w q' default_wake_function_def Let_def)
qed simp

lemma put_prev_proj:
  assumes "array (tasks q p) \<noteq> None"
  shows "map_option (\<lambda>q. proj q pend) (sched_put_prev False (pend p) p q) = Some (go_to_sleep p (proj q pend))"
proof -
  have d: "tasks (deactivate_task p q') = (tasks q')(p := (tasks q' p)\<lparr>array := None\<rparr>)" for q'
    by (simp add: deactivate_task_def Let_def)
  show ?thesis using assms
    by (auto simp: sched_put_prev_def go_to_sleep_def proj_def Let_def fun_eq_iff d TASK_RUNNING_def)
qed

subsection \<open>Task states\<close>

lemma state_bits [simp]:
  "TASK_RUNNING AND w = 0" "TASK_UNINTERRUPTIBLE AND ucast both \<noteq> 0" "TASK_INTERRUPTIBLE AND ucast both \<noteq> 0"
  "TASK_UNINTERRUPTIBLE \<noteq> TASK_RUNNING" "TASK_INTERRUPTIBLE \<noteq> TASK_RUNNING"
  "TASK_RUNNING \<noteq> TASK_UNINTERRUPTIBLE" "TASK_RUNNING \<noteq> TASK_INTERRUPTIBLE"
proof -
  show "TASK_RUNNING AND w = 0" by (simp add: TASK_RUNNING_def)
  show "TASK_UNINTERRUPTIBLE AND ucast both \<noteq> 0" "TASK_INTERRUPTIBLE AND ucast both \<noteq> 0"
    "TASK_UNINTERRUPTIBLE \<noteq> TASK_RUNNING" "TASK_INTERRUPTIBLE \<noteq> TASK_RUNNING"
    "TASK_RUNNING \<noteq> TASK_UNINTERRUPTIBLE" "TASK_RUNNING \<noteq> TASK_INTERRUPTIBLE" by code_simp+
qed

subsection \<open>What a walk does\<close>

text \<open>Sleepers have a state that the walks of this development wake.\<close>

definition sleepers_ok :: "'a wtasks_scheme \<Rightarrow> bool" where
  "sleepers_ok s \<longleftrightarrow> (\<forall>t. \<not> on_rq s t \<longrightarrow> tstate s t AND ucast both \<noteq> 0)"

lemma wake_effect:
  "pending (snd (wake t m s)) = pending s" "wtasks.more (snd (wake t m s)) = wtasks.more s"
  "tstate (snd (wake t m s)) x = (if x = t \<and> tstate s t AND ucast m \<noteq> 0 then TASK_RUNNING else tstate s x)"
  "on_rq (snd (wake t m s)) x \<longleftrightarrow> on_rq s x \<or> x = t \<and> tstate s t AND ucast m \<noteq> 0"
  "fst (wake t m s) \<longleftrightarrow> \<not> on_rq s t \<and> tstate s t AND ucast m \<noteq> 0"
  by (auto simp: wake_def)

lemma wake_walk_Cons:
  obtains "wake_walk (w # ws) m n s = snd (wake (fst w) m s)"
  | n' where "wake_walk (w # ws) m n s = wake_walk ws m n' (snd (wake (fst w) m s))"
proof -
  obtain t e where w: "w = (t, e)" by (cases w)
  obtain r s' where s': "wake t m s = (r, s')" by (cases "wake t m s")
  consider "wake_walk (w # ws) m n s = s'" | n' where "wake_walk (w # ws) m n s = wake_walk ws m n' s'"
    by (cases "r \<and> e"; cases "n - 1 = 0") (auto simp: w s' Let_def)
  then show ?thesis by cases (use that w s' in simp_all)
qed

lemma wake_walk_other: "pending (wake_walk ws m n s) = pending s" "wtasks.more (wake_walk ws m n s) = wtasks.more s"
proof -
  have "pending (wake_walk ws m n s) = pending s \<and> wtasks.more (wake_walk ws m n s) = wtasks.more s"
  proof (induction ws arbitrary: n s)
    case (Cons w ws)
    then show ?case by (cases rule: wake_walk_Cons[of w ws m n s]) (simp_all add: wake_effect)
  qed simp
  then show "pending (wake_walk ws m n s) = pending s" "wtasks.more (wake_walk ws m n s) = wtasks.more s" by auto
qed

lemma wake_walk_runs: "tstate s x = TASK_RUNNING \<Longrightarrow> on_rq s x \<Longrightarrow>
  tstate (wake_walk ws m n s) x = TASK_RUNNING \<and> on_rq (wake_walk ws m n s) x"
proof (induction ws arbitrary: n s)
  case (Cons w ws)
  then show ?case by (cases rule: wake_walk_Cons[of w ws m n s]) (simp_all add: wake_effect)
qed simp

lemma wake_walk_task:
  "tstate (wake_walk ws m n s) x = tstate s x \<and> on_rq (wake_walk ws m n s) x = on_rq s x \<or>
   tstate s x AND ucast m \<noteq> 0 \<and> x \<in> fst ` set ws \<and>
     tstate (wake_walk ws m n s) x = TASK_RUNNING \<and> on_rq (wake_walk ws m n s) x"
proof (induction ws arbitrary: n s)
  case (Cons w ws)
  let ?s = "snd (wake (fst w) m s)"
  show ?case
  proof (cases "x = fst w \<and> tstate s x AND ucast m \<noteq> 0")
    case True
    then have r: "tstate ?s x = TASK_RUNNING" "on_rq ?s x" by (auto simp: wake_effect)
    show ?thesis
      by (cases rule: wake_walk_Cons[of w ws m n s]) (use True r wake_walk_runs[OF r] in auto)
  next
    case False
    then have same: "tstate ?s x = tstate s x" "on_rq ?s x = on_rq s x" by (auto simp: wake_effect)
    show ?thesis
    proof (cases rule: wake_walk_Cons[of w ws m n s])
      case 1 then show ?thesis using same by simp
    next
      case (2 n') then show ?thesis using Cons.IH[of n' ?s] same by auto
    qed
  qed
qed simp

text \<open>A task is roused by a walk if its state was one the mode wakes and it now runs. The first such
  task of a queue is always roused; one that was asleep uses up the exclusive wakeup.\<close>

lemma wake_walk_first:
  assumes "t \<in> fst ` set ws" "tstate s t AND ucast m \<noteq> 0"
  shows "\<exists>x\<in>fst ` set ws. tstate s x AND ucast m \<noteq> 0 \<and> tstate (wake_walk ws m n s) x = TASK_RUNNING \<and> on_rq (wake_walk ws m n s) x"
  using assms
proof (induction ws arbitrary: n s)
  case (Cons w ws)
  let ?s = "snd (wake (fst w) m s)"
  show ?case
  proof (cases "tstate s (fst w) AND ucast m \<noteq> 0")
    case True
    then have r: "tstate ?s (fst w) = TASK_RUNNING" "on_rq ?s (fst w)" by (simp_all add: wake_effect)
    have "tstate (wake_walk (w # ws) m n s) (fst w) = TASK_RUNNING \<and> on_rq (wake_walk (w # ws) m n s) (fst w)"
      by (cases rule: wake_walk_Cons[of w ws m n s]) (use r wake_walk_runs[OF r] in auto)
    with True show ?thesis by auto
  next
    case False
    then have same: "wake (fst w) m s = (False, s)" by (simp add: wake_def)
    then have "wake_walk (w # ws) m n s = wake_walk ws m n s" by (cases w) simp
    moreover have "t \<in> fst ` set ws" using Cons.prems False by auto
    ultimately show ?thesis using Cons.IH[OF _ Cons.prems(2), of n] by auto
  qed
qed simp

text \<open>A walk that leaves a task of the queue unroused has roused as many as it was asked for; \<open>0\<close> asks for
  \<open>2\<^sup>3\<^sup>2\<close>.\<close>

definition quota :: "s32 \<Rightarrow> nat" where
  "quota n = (if n = 0 then 2 ^ 32 else unat n)"

lemma quota_step: "n - 1 \<noteq> 0 \<Longrightarrow> quota n = Suc (quota (n - 1))"
proof -
  assume "n - 1 \<noteq> 0"
  moreover have "unat (- 1 :: s32) + 1 = 2 ^ 32" by (simp add: unsigned_minus_1_eq_mask mask_eq_exp_minus_1)
  moreover have "n \<noteq> 0 \<Longrightarrow> unat n = Suc (unat (n - 1))" by (simp add: unat_minus_one unat_gt_0)
  ultimately show ?thesis by (simp add: quota_def)
qed

definition roused :: "(nat \<times> bool) list \<Rightarrow> u32 \<Rightarrow> s32 \<Rightarrow> 'a wtasks_scheme \<Rightarrow> nat set" where
  "roused ws m n s = {y \<in> fst ` set ws. tstate s y AND ucast m \<noteq> 0 \<and> tstate (wake_walk ws m n s) y = TASK_RUNNING}"

lemma roused_finite [simp]: "finite (roused ws m n s)"
  by (simp add: roused_def)

lemma wake_walk_quota:
  assumes "distinct (map fst ws)" "x \<in> fst ` set ws" "tstate (wake_walk ws m n s) x AND ucast m \<noteq> 0"
  shows "quota n \<le> card (roused ws m n s)"
  using assms
proof (induction ws arbitrary: n s)
  case (Cons w ws)
  obtain t e where w: "w = (t, e)" by (cases w)
  define s1 where "s1 = snd (wake t m s)"
  have tw: "t \<notin> fst ` set ws" and d: "distinct (map fst ws)" using Cons.prems(1) w by auto
  have same: "tstate s1 y = tstate s y" if "y \<noteq> t" for y using that by (simp add: s1_def wake_effect)
  note xs = Cons.prems(2,3)[unfolded w]
  show ?case
  proof (cases "tstate s t AND ucast m = 0")
    case True
    then have step: "wake_walk ((t, e) # ws) m n s = wake_walk ws m n s" by (simp add: wake_def)
    have t: "tstate (wake_walk ws m n s) t = tstate s t" using wake_walk_task[of ws m n s t] tw by auto
    then have "x \<in> fst ` set ws" "roused (w # ws) m n s = roused ws m n s"
      using xs True by (auto simp: step w roused_def simp del: wake_walk.simps)
    then show ?thesis using Cons.IH[OF d] xs(2) step by (simp del: wake_walk.simps)
  next
    case False
    have t: "tstate s1 t = TASK_RUNNING" "on_rq s1 t" using False by (simp_all add: s1_def wake_effect)
    have rest: "insert t (roused ws m k s1) \<subseteq> roused (w # ws) m n s \<and> x \<in> fst ` set ws \<and>
        tstate (wake_walk ws m k s1) x AND ucast m \<noteq> 0"
      if step: "wake_walk (w # ws) m n s = wake_walk ws m k s1" for k
    proof -
      have "tstate (wake_walk ws m k s1) t = TASK_RUNNING" using wake_walk_runs[OF t] by simp
      moreover have "roused ws m k s1 \<subseteq> roused (w # ws) m n s"
      proof
        fix y assume y: "y \<in> roused ws m k s1"
        then have "tstate s1 y = tstate s y" using tw by (intro same) (auto simp: roused_def)
        then show "y \<in> roused (w # ws) m n s" using y step by (simp add: roused_def del: wake_walk.simps)
      qed
      ultimately show ?thesis using Cons.prems(2,3) tw False step
        by (auto simp: roused_def w simp del: wake_walk.simps)
    qed
    have c: "quota k \<le> card (roused ws m k s1)" "Suc (card (roused ws m k s1)) \<le> card (roused (w # ws) m n s)"
      if step: "wake_walk (w # ws) m n s = wake_walk ws m k s1" for k
    proof -
      show "quota k \<le> card (roused ws m k s1)" using Cons.IH[OF d] rest[OF step] by auto
      have "t \<notin> roused ws m k s1" using tw by (auto simp: roused_def)
      then have "Suc (card (roused ws m k s1)) = card (insert t (roused ws m k s1))" by simp
      also have "\<dots> \<le> card (roused (w # ws) m n s)" using rest[OF step] by (intro card_mono) auto
      finally show "Suc (card (roused ws m k s1)) \<le> card (roused (w # ws) m n s)" .
    qed
    consider (last) "n - 1 = 0" "wake_walk (w # ws) m n s = s1"
      | (go) "n - 1 \<noteq> 0" "wake_walk (w # ws) m n s = wake_walk ws m (n - 1) s1"
      | (free) "wake_walk (w # ws) m n s = wake_walk ws m n s1"
      using False by (cases "on_rq s t"; cases e; cases "n - 1 = 0") (auto simp: w s1_def wake_def)
    then show ?thesis
    proof cases
      case last
      then have "n = 1" by simp
      moreover have "t \<in> roused (w # ws) m n s" using False t last by (simp add: roused_def w del: wake_walk.simps)
      then have "card (roused (w # ws) m n s) > 0" by (auto simp: card_gt_0_iff)
      ultimately show ?thesis by (simp add: quota_def)
    next
      case go
      then show ?thesis using c[OF go(2)] quota_step[OF go(1)] by simp
    next
      case free
      then show ?thesis using c[OF free] by simp
    qed
  qed
qed simp

lemma wake_truncate: "map_prod id wtasks.truncate (wake t m s) = wake t m (wtasks.truncate s)"
  by (auto simp: wake_def wtasks.defs)

lemma wake_walk_truncate: "wtasks.truncate (wake_walk ws m n s) = wake_walk ws m n (wtasks.truncate s)"
proof (induction ws arbitrary: n s)
  case (Cons w ws)
  obtain t e where w: "w = (t, e)" by (cases w)
  obtain r s' where s': "wake t m s = (r, s')" by (cases "wake t m s")
  have "wake t m (wtasks.truncate s) = (r, wtasks.truncate s')" using wake_truncate[of t m s] s' by simp
  then show ?case using Cons.IH by (simp add: w s')
qed simp

end
