(* ===== verification/Semaphore.thy ===== *)
theory Semaphore
  imports Waitqueue Mailbox
begin

text \<open>
  The kernel's semaphores, which the mailbox and \<^verbatim>\<open>sys_myjoin\<close> rely on: the inline operations of
  \<^verbatim>\<open>include/asm-x86_64/semaphore.h\<close> and their slow paths in \<^verbatim>\<open>lib/semaphore-sleepers.c\<close>. Any number of tasks
  take their steps in any order; a step is what happens between two points at which another task
  (or an interrupt) can act: an atomic operation on \<open>count\<close>, or a piece of code under the lock of the
  wait queue. The abstract semaphore is a number of units. It is shown that the code implements it
  (no unit is taken that is not there) and that no task is left asleep while there are units.

  \<open>count\<close> and \<open>sleepers\<close> are exact integers here, 32 bits wide in the code. \<open>sem_runs32\<close> are the runs of at
  most \<open>PID_MAX_LIMIT\<close> tasks in which no \<^verbatim>\<open>up\<close> is done on a semaphore that has \<open>INT_MAX\<close> free units already; in
  them every value the two fields ever have is a 32-bit signed one (\<open>sem_runs32_fit\<close>), so the exact sums are
  the machine's. Beyond that bound \<open>count\<close> would wrap.
\<close>

subsection \<open>State\<close>

datatype sleep_kind = Plain | Interruptible

text \<open>Where a task is in the code.\<close>

datatype pc =
  Idle
| Failed sleep_kind          \<comment> \<open>the decrement went below zero; about to set the task state\<close>
| Enter sleep_kind           \<comment> \<open>about to take the lock and queue up\<close>
| Loop sleep_kind            \<comment> \<open>holds the lock, at the head of the loop\<close>
| Sched sleep_kind           \<comment> \<open>has released the lock, about to call \<^verbatim>\<open>schedule\<close>\<close>
| Sleep sleep_kind           \<comment> \<open>inside \<^verbatim>\<open>schedule\<close>\<close>
| Relock sleep_kind          \<comment> \<open>\<^verbatim>\<open>schedule\<close> has returned\<close>
| Out sleep_kind int         \<comment> \<open>holds the lock, has left the loop with this result\<close>
| Fin int                    \<comment> \<open>about to set the task state and return\<close>
| TryFailed                  \<comment> \<open>in \<^verbatim>\<open>down_trylock\<close>, the decrement went below zero\<close>
| Waking                     \<comment> \<open>in \<^verbatim>\<open>up\<close>, about to wake a waiter\<close>

record sem_state = wtasks +
  sem_count :: int
  sleepers :: int
  wlock :: "nat option"
  waiters :: "nat list"
  pcs :: "nat \<Rightarrow> pc"

datatype event = Down sleep_kind | Trylock | Up | Run

text \<open>What a step means to the users of the semaphore.\<close>

datatype meaning = Nothing | Acquired | Refused | Released

definition EINTR :: int where "EINTR = 4"

definition sema_init :: "int \<Rightarrow> sem_state" where
  "sema_init val = \<lparr>tstate = (\<lambda>_. TASK_RUNNING), on_rq = (\<lambda>_. True), pending = (\<lambda>_. False),
     sem_count = val, sleepers = 0, wlock = None, waiters = [], pcs = (\<lambda>_. Idle)\<rparr>"

definition init_MUTEX :: sem_state where
  "init_MUTEX = sema_init 1"

definition init_MUTEX_LOCKED :: sem_state where
  "init_MUTEX_LOCKED = sema_init 0"

subsection \<open>Operations\<close>

definition goto :: "nat \<Rightarrow> pc \<Rightarrow> sem_state \<Rightarrow> sem_state" where
  "goto t c s = s\<lparr>pcs := (pcs s)(t := c)\<rparr>"

definition set_state :: "nat \<Rightarrow> s64 \<Rightarrow> sem_state \<Rightarrow> sem_state" where
  "set_state t v s = s\<lparr>tstate := (tstate s)(t := v)\<rparr>"

definition kind_state :: "sleep_kind \<Rightarrow> s64" where
  "kind_state k = (case k of Plain \<Rightarrow> TASK_UNINTERRUPTIBLE | Interruptible \<Rightarrow> TASK_INTERRUPTIBLE)"

definition wake_waiters :: "sem_state \<Rightarrow> sem_state" where
  "wake_waiters s = wake_walk (map (\<lambda>t. (t, True)) (waiters s)) both 1 s"

definition add_wait_queue_exclusive_locked :: "nat \<Rightarrow> sem_state \<Rightarrow> sem_state" where
  "add_wait_queue_exclusive_locked t s = s\<lparr>waiters := waiters s @ [t]\<rparr>"

definition remove_wait_queue_locked :: "nat \<Rightarrow> sem_state \<Rightarrow> sem_state" where
  "remove_wait_queue_locked t s = s\<lparr>waiters := remove1 t (waiters s)\<rparr>"

text \<open>The inline parts: one atomic operation and a jump.\<close>

definition down :: "nat \<Rightarrow> sem_state \<Rightarrow> meaning \<times> sem_state" where
  "down t s = (let s = s\<lparr>sem_count := sem_count s - 1\<rparr>
     in if 0 \<le> sem_count s then (Acquired, s) else (Nothing, goto t (Failed Plain) s))"

definition down_interruptible :: "nat \<Rightarrow> sem_state \<Rightarrow> meaning \<times> sem_state" where
  "down_interruptible t s = (let s = s\<lparr>sem_count := sem_count s - 1\<rparr>
     in if 0 \<le> sem_count s then (Acquired, s) else (Nothing, goto t (Failed Interruptible) s))"

definition down_trylock :: "nat \<Rightarrow> sem_state \<Rightarrow> meaning \<times> sem_state" where
  "down_trylock t s = (let s = s\<lparr>sem_count := sem_count s - 1\<rparr>
     in if 0 \<le> sem_count s then (Acquired, s) else (Nothing, goto t TryFailed s))"

definition up :: "nat \<Rightarrow> sem_state \<Rightarrow> meaning \<times> sem_state" where
  "up t s = (let s = s\<lparr>sem_count := sem_count s + 1\<rparr>
     in if 0 < sem_count s then (Released, s) else (Released, goto t Waking s))"

text \<open>\<^verbatim>\<open>__up\<close>: wake one waiter.\<close>

definition up_slow :: "nat \<Rightarrow> sem_state \<Rightarrow> (meaning \<times> sem_state) option" where
  "up_slow t s = (if wlock s \<noteq> None then None else Some (Nothing, goto t Idle (wake_waiters s)))"

text \<open>\<^verbatim>\<open>__down_trylock\<close>.\<close>

definition down_trylock_slow :: "nat \<Rightarrow> sem_state \<Rightarrow> (meaning \<times> sem_state) option" where
  "down_trylock_slow t s =
     (if wlock s \<noteq> None then None
      else let n = sleepers s + 1;
               s = s\<lparr>sleepers := 0, sem_count := sem_count s + n\<rparr>;
               s = (if 0 \<le> sem_count s then wake_waiters s else s)
           in Some (Refused, goto t Idle s))"

text \<open>The pieces of \<^verbatim>\<open>__down\<close> and \<^verbatim>\<open>__down_interruptible\<close>, which differ in the state the task sleeps in and in
  the test for signals.\<close>

definition down_enter :: "sleep_kind \<Rightarrow> nat \<Rightarrow> sem_state \<Rightarrow> (meaning \<times> sem_state) option" where
  "down_enter k t s =
     (if wlock s \<noteq> None then None
      else let s = add_wait_queue_exclusive_locked t (s\<lparr>wlock := Some t\<rparr>)
           in Some (Nothing, goto t (Loop k) (s\<lparr>sleepers := sleepers s + 1\<rparr>)))"

definition down_loop :: "sleep_kind \<Rightarrow> nat \<Rightarrow> sem_state \<Rightarrow> meaning \<times> sem_state" where
  "down_loop k t s =
     (let n = sleepers s
      in if k = Interruptible \<and> pending s t
         then (Refused, goto t (Out k (- EINTR)) (s\<lparr>sleepers := 0, sem_count := sem_count s + n\<rparr>))
         else let s = s\<lparr>sem_count := sem_count s + (n - 1)\<rparr>
              in if 0 \<le> sem_count s then (Acquired, goto t (Out k 0) (s\<lparr>sleepers := 0\<rparr>))
                 else (Nothing, goto t (Sched k) (s\<lparr>sleepers := 1, wlock := None\<rparr>)))"

definition down_schedule :: "sleep_kind \<Rightarrow> nat \<Rightarrow> sem_state \<Rightarrow> sem_state" where
  "down_schedule k t s = goto t (Sleep k) (go_to_sleep t s)"

definition down_relock :: "sleep_kind \<Rightarrow> nat \<Rightarrow> sem_state \<Rightarrow> sem_state option" where
  "down_relock k t s =
     (if wlock s \<noteq> None then None
      else Some (goto t (Loop k) (set_state t (kind_state k) (s\<lparr>wlock := Some t\<rparr>))))"

definition down_out :: "int \<Rightarrow> nat \<Rightarrow> sem_state \<Rightarrow> sem_state" where
  "down_out r t s = goto t (Fin r) ((wake_waiters (remove_wait_queue_locked t s))\<lparr>wlock := None\<rparr>)"

subsection \<open>Steps\<close>

definition sem_run :: "nat \<Rightarrow> sem_state \<Rightarrow> (meaning \<times> sem_state) option" where
  "sem_run t s = (case pcs s t of
     Idle \<Rightarrow> None
   | Failed k \<Rightarrow> Some (Nothing, goto t (Enter k) (set_state t (kind_state k) s))
   | Enter k \<Rightarrow> down_enter k t s
   | Loop k \<Rightarrow> Some (down_loop k t s)
   | Sched k \<Rightarrow> Some (Nothing, down_schedule k t s)
   | Sleep k \<Rightarrow> if on_rq s t then Some (Nothing, goto t (Relock k) s) else None
   | Relock k \<Rightarrow> map_option (Pair Nothing) (down_relock k t s)
   | Out k r \<Rightarrow> Some (Nothing, down_out r t s)
   | Fin r \<Rightarrow> Some (Nothing, goto t Idle (set_state t TASK_RUNNING s))
   | TryFailed \<Rightarrow> down_trylock_slow t s
   | Waking \<Rightarrow> up_slow t s)"

definition sem_step :: "event \<Rightarrow> nat \<Rightarrow> sem_state \<Rightarrow> (meaning \<times> sem_state) option" where
  "sem_step e t s =
     (if e = Run then sem_run t s
      else if pcs s t \<noteq> Idle then None
      else Some (case e of Down Plain \<Rightarrow> down t s | Down Interruptible \<Rightarrow> down_interruptible t s
                 | Trylock \<Rightarrow> down_trylock t s | Up \<Rightarrow> up t s))"

text \<open>Runs: tasks take steps; signals arrive and are dealt with at any time, and anybody may wake a task
  for reasons of their own.\<close>

inductive sem_runs :: "int \<Rightarrow> meaning list \<Rightarrow> sem_state \<Rightarrow> bool" for n where
  start: "sem_runs n [] (sema_init n)"
| step: "sem_runs n ms s \<Longrightarrow> sem_step e t s = Some (m, s') \<Longrightarrow> sem_runs n (ms @ [m]) s'"
| signal: "sem_runs n ms s \<Longrightarrow> sem_runs n ms (s\<lparr>pending := p\<rparr>)"
| stray: "sem_runs n ms s \<Longrightarrow> sem_runs n ms (snd (wake t mode s))"

text \<open>The abstract semaphore: a number of units; a unit can be acquired when there is one.\<close>

fun units :: "int \<Rightarrow> meaning list \<Rightarrow> int option" where
  "units v [] = Some v"
| "units v (Nothing # ms) = units v ms"
| "units v (Refused # ms) = units v ms"
| "units v (Released # ms) = units (v + 1) ms"
| "units v (Acquired # ms) = (if 0 < v then units (v - 1) ms else None)"

text \<open>The runs in which the counters fit their width.\<close>

definition INT_MAX :: int where "INT_MAX = 2 ^ 31 - 1"

inductive sem_runs32 :: "int \<Rightarrow> meaning list \<Rightarrow> sem_state \<Rightarrow> bool" for n where
  start: "0 \<le> n \<Longrightarrow> n \<le> INT_MAX \<Longrightarrow> sem_runs32 n [] (sema_init n)"
| step: "sem_runs32 n ms s \<Longrightarrow> t < PID_MAX_LIMIT \<Longrightarrow> (e = Up \<Longrightarrow> units n ms \<noteq> Some INT_MAX) \<Longrightarrow>
    sem_step e t s = Some (m, s') \<Longrightarrow> sem_runs32 n (ms @ [m]) s'"
| signal: "sem_runs32 n ms s \<Longrightarrow> sem_runs32 n ms (s\<lparr>pending := p\<rparr>)"
| stray: "sem_runs32 n ms s \<Longrightarrow> sem_runs32 n ms (snd (wake t mode s))"

lemma units_append: "units v (ms @ [m]) = Option.bind (units v ms) (\<lambda>w. units w [m])"
  by (induction v ms rule: units.induct) auto

subsection \<open>The units the state stands for\<close>

fun debt :: "pc \<Rightarrow> bool" where
  "debt (Failed k) = True" | "debt (Enter k) = True" | "debt TryFailed = True" | "debt _ = False"

fun inside :: "pc \<Rightarrow> bool" where
  "inside (Loop k) = True" | "inside (Sched k) = True" | "inside (Sleep k) = True"
| "inside (Relock k) = True" | "inside (Out k r) = True" | "inside _ = False"

fun holds :: "pc \<Rightarrow> bool" where
  "holds (Loop k) = True" | "holds (Out k r) = True" | "holds _ = False"

definition avail :: "sem_state \<Rightarrow> int" where
  "avail s = sem_count s + sleepers s + int (card {t. debt (pcs s t)})"

definition dormant :: "sem_state \<Rightarrow> nat \<Rightarrow> bool" where
  "dormant s t \<longleftrightarrow> (\<exists>k. pcs s t = Sleep k) \<and> \<not> on_rq s t \<or> (\<exists>k. pcs s t = Sched k) \<and> tstate s t \<noteq> TASK_RUNNING"

definition task_inv :: "pc \<Rightarrow> s64 \<Rightarrow> bool \<Rightarrow> bool" where
  "task_inv c v q \<longleftrightarrow> v \<in> {TASK_RUNNING, TASK_UNINTERRUPTIBLE, TASK_INTERRUPTIBLE} \<and>
     (\<not> q \<longrightarrow> (\<exists>k. c = Sleep k) \<and> v \<noteq> TASK_RUNNING)"

definition sem_inv :: "sem_state \<Rightarrow> bool" where
  "sem_inv s \<longleftrightarrow> finite {t. debt (pcs s t)} \<and>
     distinct (waiters s) \<and> set (waiters s) = {t. inside (pcs s t)} \<and>
     (\<forall>t. wlock s = Some t \<longleftrightarrow> holds (pcs s t)) \<and>
     0 \<le> sleepers s \<and> (wlock s = None \<longrightarrow> sleepers s \<le> 1) \<and> ((\<exists>t k r. pcs s t = Out k r) \<longrightarrow> sleepers s = 0) \<and>
     (\<forall>t. task_inv (pcs s t) (tstate s t) (on_rq s t))"

definition no_loss :: "sem_state \<Rightarrow> bool" where
  "no_loss s \<longleftrightarrow> ((\<exists>t. dormant s t) \<longrightarrow> sem_count s < 0 \<or> (\<exists>t. pcs s t = Waking) \<or> (\<exists>t. inside (pcs s t) \<and> \<not> dormant s t))"

subsection \<open>Fields\<close>

lemma goto_sel [simp]:
  "pcs (goto t c s) = (pcs s)(t := c)" "sem_count (goto t c s) = sem_count s" "sleepers (goto t c s) = sleepers s"
  "wlock (goto t c s) = wlock s" "waiters (goto t c s) = waiters s" "tstate (goto t c s) = tstate s"
  "on_rq (goto t c s) = on_rq s" "pending (goto t c s) = pending s"
  by (simp_all add: goto_def)

lemma set_state_sel [simp]:
  "pcs (set_state t v s) = pcs s" "sem_count (set_state t v s) = sem_count s" "sleepers (set_state t v s) = sleepers s"
  "wlock (set_state t v s) = wlock s" "waiters (set_state t v s) = waiters s"
  "tstate (set_state t v s) = (tstate s)(t := v)" "on_rq (set_state t v s) = on_rq s"
  "pending (set_state t v s) = pending s"
  by (simp_all add: set_state_def)

lemma more_same:
  fixes s s' :: sem_state
  assumes "wtasks.more s' = wtasks.more s"
  shows "pcs s' = pcs s" "sem_count s' = sem_count s" "sleepers s' = sleepers s" "wlock s' = wlock s" "waiters s' = waiters s"
  using assms by (cases s; cases s'; simp)+

lemma wake_waiters_sel [simp]:
  "pcs (wake_waiters s) = pcs s" "sem_count (wake_waiters s) = sem_count s" "sleepers (wake_waiters s) = sleepers s"
  "wlock (wake_waiters s) = wlock s" "waiters (wake_waiters s) = waiters s"
  unfolding wake_waiters_def by (rule more_same, rule wake_walk_other)+

lemma go_to_sleep_sel [simp]:
  fixes s :: sem_state
  shows "pcs (go_to_sleep t s) = pcs s" "sem_count (go_to_sleep t s) = sem_count s" "sleepers (go_to_sleep t s) = sleepers s"
  "wlock (go_to_sleep t s) = wlock s" "waiters (go_to_sleep t s) = waiters s" "pending (go_to_sleep t s) = pending s"
  by (simp_all add: go_to_sleep_def)

lemma wake_sel [simp]:
  fixes s :: sem_state
  shows "pcs (snd (wake t m s)) = pcs s" "sem_count (snd (wake t m s)) = sem_count s" "sleepers (snd (wake t m s)) = sleepers s"
  "wlock (snd (wake t m s)) = wlock s" "waiters (snd (wake t m s)) = waiters s"
  by (rule more_same, rule wake_effect)+

lemma kind_state_sleeps [simp]: "kind_state k \<noteq> TASK_RUNNING"
  by (simp add: kind_state_def split: sleep_kind.split)

lemma task_inv_wakeable: "task_inv c v q \<Longrightarrow> v AND ucast both \<noteq> 0 \<longleftrightarrow> v \<noteq> TASK_RUNNING"
  by (auto simp: task_inv_def)

subsection \<open>Units\<close>

lemma card_debt:
  assumes "finite {x. debt (pcs s x)}"
  shows "int (card {x. debt (((pcs s)(t := c)) x)}) =
     int (card {x. debt (pcs s x)}) + (if debt c then 1 else 0) - (if debt (pcs s t) then 1 else 0)"
    "finite {x. debt (((pcs s)(t := c)) x)}"
proof -
  let ?D = "{x. debt (pcs s x)}"
  have e: "{x. debt (((pcs s)(t := c)) x)} = (if debt c then insert t (?D - {t}) else ?D - {t})" by auto
  show "finite {x. debt (((pcs s)(t := c)) x)}" unfolding e using assms by simp
  have "int (card ?D) = int (card (?D - {t})) + (if debt (pcs s t) then 1 else 0)"
    using card.remove[OF assms, of t] by auto
  then show "int (card {x. debt (((pcs s)(t := c)) x)}) =
     int (card ?D) + (if debt c then 1 else 0) - (if debt (pcs s t) then 1 else 0)"
    unfolding e using assms by (simp del: insert_Diff_single)
qed

lemma avail_step:
  assumes i: "sem_inv s" and s: "sem_step e t s = Some (m, s')"
  shows "units (avail s) [m] = Some (avail s')"
proof -
  have fin: "finite {x. debt (pcs s x)}" and sl: "0 \<le> sleepers s" using i by (auto simp: sem_inv_def)
  have nn: "0 \<le> int (card {x. debt (pcs s x)})" by simp
  note c = card_debt(1)[OF fin, of t]
  show ?thesis
  proof (cases "e = Run")
    case False
    then have idle: "pcs s t = Idle" using s by (auto simp: sem_step_def split: if_splits)
    show ?thesis using s False idle sl c
      by (auto simp: sem_step_def down_def down_interruptible_def down_trylock_def up_def Let_def avail_def
          split: event.splits sleep_kind.splits if_splits)
  next
    case True
    then have r: "sem_run t s = Some (m, s')" using s by (simp add: sem_step_def)
    show ?thesis
    proof (cases "pcs s t")
      case (Loop k)
      then show ?thesis using r sl c
        by (auto simp: sem_run_def down_loop_def Let_def avail_def split: if_splits)
    qed (use r c in \<open>auto simp: sem_run_def avail_def Let_def down_enter_def add_wait_queue_exclusive_locked_def
        down_schedule_def down_relock_def down_out_def remove_wait_queue_locked_def
        down_trylock_slow_def up_slow_def split: if_splits\<close>)
  qed
qed

subsection \<open>The invariant\<close>

lemma kind_state_ok [simp]: "kind_state k \<in> {TASK_RUNNING, TASK_UNINTERRUPTIBLE, TASK_INTERRUPTIBLE}"
  by (simp add: kind_state_def split: sleep_kind.split)

lemma task_inv_running [simp]: "task_inv c TASK_RUNNING True"
  by (simp add: task_inv_def)

lemma wake_waiters_inv:
  assumes "task_inv c (tstate s x) (on_rq s x)"
  shows "task_inv c (tstate (wake_waiters s) x) (on_rq (wake_waiters s) x)"
proof -
  consider "tstate (wake_waiters s) x = tstate s x \<and> on_rq (wake_waiters s) x = on_rq s x"
    | "tstate (wake_waiters s) x = TASK_RUNNING" "on_rq (wake_waiters s) x"
    unfolding wake_waiters_def using wake_walk_task by blast
  then show ?thesis using assms by cases simp_all
qed

lemma go_to_sleep_inv:
  fixes s :: sem_state
  assumes "task_inv c (tstate s x) (on_rq s x)" "x = t \<longrightarrow> c = Sleep k \<and> on_rq s t"
  shows "task_inv c (tstate (go_to_sleep t s) x) (on_rq (go_to_sleep t s) x)"
  using assms by (auto simp: go_to_sleep_def task_inv_def)

lemma sem_init_inv: "sem_inv (sema_init n)"
  by (simp add: sem_inv_def sema_init_def task_inv_def)

lemma stray_inv:
  assumes "sem_inv s"
  shows "sem_inv (snd (wake t m s))"
proof -
  have "task_inv (pcs s x) (tstate (snd (wake t m s)) x) (on_rq (snd (wake t m s)) x)" for x
    using assms by (auto simp: wake_effect sem_inv_def task_inv_def)
  then show ?thesis using assms by (simp add: sem_inv_def)
qed

text \<open>A step moves one task; what it has to keep of the invariant.\<close>

lemma sem_inv_goto:
  assumes i: "sem_inv s" and p: "pcs s' = (pcs s)(t := c)"
    and w: "distinct (waiters s')" "set (waiters s') = {x. x \<noteq> t \<and> inside (pcs s x)} \<union> (if inside c then {t} else {})"
    and l: "wlock s' = (if holds c then Some t else if holds (pcs s t) then None else wlock s)"
      "holds c \<longrightarrow> wlock s = None \<or> wlock s = Some t"
    and n: "0 \<le> sleepers s'" "wlock s' = None \<longrightarrow> sleepers s' \<le> 1"
      "(\<exists>k r. c = Out k r) \<or> (\<not> holds c \<and> \<not> holds (pcs s t) \<and> sleepers s' \<noteq> sleepers s \<and> wlock s \<noteq> None) \<longrightarrow> sleepers s' = 0"
    and t: "\<And>x. task_inv (pcs s' x) (tstate s' x) (on_rq s' x)"
  shows "sem_inv s'"
proof -
  have lk: "wlock s = Some x \<longleftrightarrow> holds (pcs s x)" for x using i by (simp add: sem_inv_def)
  have "finite {x. debt (pcs s' x)}" unfolding p using i card_debt(2)[of s t c] by (simp add: sem_inv_def)
  moreover have "set (waiters s') = {x. inside (pcs s' x)}" unfolding w p by auto
  moreover have "wlock s' = Some x \<longleftrightarrow> holds (pcs s' x)" for x
    unfolding l p using lk[of x] lk[of t] l(2) by (cases "wlock s") (auto split: if_splits)
  moreover have "sleepers s' = 0" if "pcs s' x = Out k r" for x k r
  proof (cases "x = t")
    case True then show ?thesis using that n(3) p by auto
  next
    case False
    then have o: "pcs s x = Out k r" using that p by simp
    then have "wlock s = Some x" "sleepers s = 0" using lk i by (auto simp: sem_inv_def)
    moreover have "\<not> holds c" "\<not> holds (pcs s t)" using l(2) lk[of t] calculation False by auto
    ultimately show ?thesis using n(3) by auto
  qed
  ultimately show ?thesis using w(1) n(1,2) t by (auto simp: sem_inv_def)
qed

lemma sem_inv_facts:
  assumes "sem_inv s"
  shows "distinct (waiters s)" "set (waiters s) = {x. inside (pcs s x)}" "wlock s = Some x \<longleftrightarrow> holds (pcs s x)"
    "0 \<le> sleepers s" "wlock s = None \<Longrightarrow> sleepers s \<le> 1" "pcs s x = Out k r \<Longrightarrow> sleepers s = 0"
    "task_inv (pcs s x) (tstate s x) (on_rq s x)"
  using assms by (auto simp: sem_inv_def)

lemma step_cases:
  assumes "sem_step e t s = Some (m, s')"
  obtains "e \<noteq> Run" | "sem_run t s = Some (m, s')"
  using assms by (cases "e = Run") (auto simp: sem_step_def)

lemma goto_same: "pcs s t = c \<Longrightarrow> goto t c s = s"
  by (auto simp: goto_def)

lemma call_shape:
  assumes s: "sem_step e t s = Some (m, s')" and e: "e \<noteq> Run"
  obtains c n where "s' = goto t c (s\<lparr>sem_count := n\<rparr>)" "c \<in> {Idle, TryFailed, Waking} \<union> range Failed" "pcs s t = Idle"
    "n < sem_count s \<and> (c = Idle \<or> n < 0) \<or> n = sem_count s + 1 \<and> (c = Waking \<or> 0 < n \<and> c = Idle)"
proof -
  have idle: "pcs s t = Idle" using s e by (auto simp: sem_step_def split: if_splits)
  then have same: "goto t Idle (s\<lparr>sem_count := n\<rparr>) = s\<lparr>sem_count := n\<rparr>" for n by (simp add: goto_same)
  show ?thesis
  proof (cases e)
    case (Down k)
    let ?c = "if 0 < sem_count s then Idle else Failed k"
    have "s' = goto t ?c (s\<lparr>sem_count := sem_count s - 1\<rparr>)" using s idle same
      by (cases k) (auto simp: Down sem_step_def down_def down_interruptible_def Let_def split: if_splits)
    then show ?thesis by (rule that) (use idle in auto)
  next
    case Trylock
    let ?c = "if 0 < sem_count s then Idle else TryFailed"
    have "s' = goto t ?c (s\<lparr>sem_count := sem_count s - 1\<rparr>)" using s idle same
      by (auto simp: Trylock sem_step_def down_trylock_def Let_def split: if_splits)
    then show ?thesis by (rule that) (use idle in auto)
  next
    case Up
    let ?c = "if 0 \<le> sem_count s then Idle else Waking"
    have "s' = goto t ?c (s\<lparr>sem_count := sem_count s + 1\<rparr>)" using s idle same
      by (auto simp: Up sem_step_def up_def Let_def split: if_splits)
    then show ?thesis by (rule that) (use idle in auto)
  qed (use e in simp)
qed

lemma call_inv:
  assumes i: "sem_inv s" and s: "sem_step e t s = Some (m, s')" and e: "e \<noteq> Run"
  shows "sem_inv s'"
proof -
  obtain c n where s': "s' = goto t c (s\<lparr>sem_count := n\<rparr>)" and cc: "c \<in> {Idle, TryFailed, Waking} \<union> range Failed"
    and idle: "pcs s t = Idle" by (rule call_shape[OF s e])
  have c: "\<not> inside c" "\<not> holds c" "\<And>k r. c \<noteq> Out k r" using cc by auto
  have r: "on_rq s t" using sem_inv_facts(7)[OF i, of t] idle by (simp add: task_inv_def)
  show ?thesis
  proof (rule sem_inv_goto[OF i, where t = t and c = c])
    show "task_inv (pcs s' x) (tstate s' x) (on_rq s' x)" for x
      using sem_inv_facts(7)[OF i, of x] r c by (auto simp: s' task_inv_def)
  qed (use i idle c in \<open>auto simp: s' sem_inv_facts\<close>)
qed

lemma lock_free: "wlock s = None \<Longrightarrow> sem_inv s \<Longrightarrow> \<not> holds (pcs s t)"
  using sem_inv_facts(3)[of s t] by simp

lemma run_cases:
  assumes "sem_run t s = Some (m, s')"
  obtains (Failed) k where "pcs s t = Failed k" "s' = goto t (Enter k) (set_state t (kind_state k) s)"
  | (Enter) k where "pcs s t = Enter k" "wlock s = None"
      "s' = goto t (Loop k) (s\<lparr>wlock := Some t, waiters := waiters s @ [t], sleepers := sleepers s + 1\<rparr>)"
  | (Left) k r where "pcs s t = Loop k" "s' = goto t (Out k r) (s\<lparr>sleepers := 0, sem_count := sem_count s + sleepers s - (if r = 0 then 1 else 0)\<rparr>)"
  | (Loop) k where "pcs s t = Loop k" "sem_count s + sleepers s - 1 < 0" "\<not> (k = Interruptible \<and> pending s t)"
      "s' = goto t (Sched k) (s\<lparr>sleepers := 1, wlock := None, sem_count := sem_count s + sleepers s - 1\<rparr>)"
  | (Sched) k where "pcs s t = Sched k" "s' = goto t (Sleep k) (go_to_sleep t s)"
  | (Sleep) k where "pcs s t = Sleep k" "on_rq s t" "s' = goto t (Relock k) s"
  | (Relock) k where "pcs s t = Relock k" "wlock s = None" "s' = goto t (Loop k) (set_state t (kind_state k) (s\<lparr>wlock := Some t\<rparr>))"
  | (Out) k r where "pcs s t = Out k r" "s' = goto t (Fin r) ((wake_waiters (s\<lparr>waiters := remove1 t (waiters s)\<rparr>))\<lparr>wlock := None\<rparr>)"
  | (Fin) r where "pcs s t = Fin r" "s' = goto t Idle (set_state t TASK_RUNNING s)"
  | (Try) n where "pcs s t = TryFailed" "wlock s = None" "n < 0" "s' = goto t Idle (s\<lparr>sleepers := 0, sem_count := n\<rparr>)"
  | (TryWake) n where "pcs s t = TryFailed" "wlock s = None" "s' = goto t Idle (wake_waiters (s\<lparr>sleepers := 0, sem_count := n\<rparr>))"
  | (Waking) "pcs s t = Waking" "wlock s = None" "s' = goto t Idle (wake_waiters s)"
proof (cases "pcs s t")
  case (Loop k)
  show ?thesis
  proof (cases "k = Interruptible \<and> pending s t")
    case True
    then have "s' = goto t (Out k (- EINTR)) (s\<lparr>sleepers := 0, sem_count := sem_count s + sleepers s\<rparr>)"
      using assms Loop by (simp add: sem_run_def down_loop_def)
    then show ?thesis using that(3)[of k "- EINTR"] Loop by (simp add: EINTR_def)
  next
    case False
    let ?n = "sem_count s + sleepers s - 1"
    have "s' = (if 0 \<le> ?n then goto t (Out k 0) (s\<lparr>sleepers := 0, sem_count := ?n\<rparr>)
        else goto t (Sched k) (s\<lparr>sleepers := 1, wlock := None, sem_count := ?n\<rparr>))"
      using assms Loop False by (auto simp: sem_run_def down_loop_def Let_def diff_add_eq add_diff_eq split: if_splits)
    then show ?thesis using that(3)[of k 0] that(4)[of k] Loop False by (cases "0 \<le> ?n") auto
  qed
next
  case TryFailed
  then show ?thesis using assms that(10)[of "sem_count s + (sleepers s + 1)"] that(11)[of "sem_count s + (sleepers s + 1)"]
    by (auto simp: sem_run_def down_trylock_slow_def Let_def split: if_splits)
next
  case (Failed k)
  then show ?thesis using assms that(1) by (simp add: sem_run_def  split: if_splits)
next
  case (Enter k)
  then show ?thesis using assms that(2) by (simp add: sem_run_def down_enter_def add_wait_queue_exclusive_locked_def split: if_splits)
next
  case (Sched k)
  then show ?thesis using assms that(5) by (simp add: sem_run_def down_schedule_def split: if_splits)
next
  case (Sleep k)
  then show ?thesis using assms that(6) by (simp add: sem_run_def  split: if_splits)
next
  case (Relock k)
  then show ?thesis using assms that(7) by (simp add: sem_run_def down_relock_def split: if_splits)
next
  case (Out k r)
  then show ?thesis using assms that(8) by (simp add: sem_run_def down_out_def remove_wait_queue_locked_def split: if_splits)
next
  case (Fin r)
  then show ?thesis using assms that(9) by (simp add: sem_run_def  split: if_splits)
next
  case Waking
  then show ?thesis using assms that(12) by (simp add: sem_run_def up_slow_def split: if_splits)
qed (use assms in \<open>simp add: sem_run_def\<close>)

lemma run_inv:
  assumes i: "sem_inv s" and r: "sem_run t s = Some (m, s')"
  shows "sem_inv s'"
proof -
  have ti: "task_inv (pcs s x) (tstate s x) (on_rq s x)" for x using i by (rule sem_inv_facts)
  have on: "on_rq s t" using ti[of t] r by (cases "pcs s t") (auto simp: sem_run_def task_inv_def split: if_splits)
  note f = sem_inv_facts(1,2)[OF i] sem_inv_facts(4)[OF i] lock_free[OF _ i]
  have tj: "task_inv ((if x = t then c else pcs s x)) (if x = t then v else tstate s x) (on_rq s x)"
    if "v \<in> {TASK_RUNNING, TASK_UNINTERRUPTIBLE, TASK_INTERRUPTIBLE}" for x c v
    using ti[of x] on that by (simp add: task_inv_def)
  have tk: "task_inv ((if x = t then c else pcs s x)) (tstate s x) (on_rq s x)" for x c
    using ti[of x] on by (simp add: task_inv_def)
  note go = sem_inv_goto[OF i, where t = t and s' = s']
  from r show ?thesis
  proof (cases rule: run_cases)
    case (Failed k)
    show ?thesis by (rule go[of "Enter k"])
      (use Failed f tj[OF kind_state_ok] sem_inv_facts(5)[OF i] in auto)
  next
    case (Enter k)
    show ?thesis by (rule go[of "Loop k"]) (use Enter f tk in auto)
  next
    case (Left k r)
    show ?thesis by (rule go[of "Out k r"]) (use Left f tk sem_inv_facts(3)[OF i, of t] in auto)
  next
    case (Loop k)
    show ?thesis by (rule go[of "Sched k"]) (use Loop f tk in auto)
  next
    case (Sched k)
    show ?thesis
    proof (rule go[of "Sleep k"])
      show "task_inv (pcs s' x) (tstate s' x) (on_rq s' x)" for x
        using Sched(2) go_to_sleep_inv[OF tk[of x "Sleep k"], of t k] on by auto
    qed (use Sched f sem_inv_facts(5)[OF i] in auto)
  next
    case (Sleep k)
    show ?thesis by (rule go[of "Relock k"]) (use Sleep f tk sem_inv_facts(5)[OF i] in auto)
  next
    case (Relock k)
    show ?thesis by (rule go[of "Loop k"]) (use Relock f tj[OF kind_state_ok] in auto)
  next
    case (Out k r)
    show ?thesis by (rule go[of "Fin r"])
      (use Out f wake_waiters_inv[of _ "s\<lparr>waiters := remove1 t (waiters s)\<rparr>"] tk sem_inv_facts(6)[OF i] in auto)
  next
    case (Fin r)
    show ?thesis by (rule go[of Idle]) (use Fin f tj[of TASK_RUNNING _ Idle] sem_inv_facts(5)[OF i] in auto)
  next
    case (Try n)
    show ?thesis by (rule go[of Idle]) (use Try f tk in auto)
  next
    case (TryWake n)
    show ?thesis by (rule go[of Idle])
      (use TryWake f wake_waiters_inv[of _ "s\<lparr>sleepers := 0, sem_count := n\<rparr>"] tk in auto)
  next
    case Waking
    show ?thesis by (rule go[of Idle]) (use Waking f wake_waiters_inv[of _ s] tk sem_inv_facts(5)[OF i] in auto)
  qed
qed

lemma sem_step_inv:
  assumes "sem_inv s" and s: "sem_step e t s = Some (m, s')"
  shows "sem_inv s'"
  using s by (cases rule: step_cases) (use assms in \<open>auto intro: call_inv run_inv\<close>)

subsection \<open>No wakeup is lost\<close>

lemma no_lossI:
  "sem_count s < 0 \<Longrightarrow> no_loss s" "pcs s t = Waking \<Longrightarrow> no_loss s"
  "inside (pcs s t) \<Longrightarrow> \<not> dormant s t \<Longrightarrow> no_loss s"
  by (auto simp: no_loss_def)

lemma calm_no_loss:
  assumes "no_loss s" "sem_count s < 0 \<longrightarrow> sem_count s' < 0" "\<And>x. pcs s x = Waking \<longrightarrow> pcs s' x = Waking"
    "\<And>x. dormant s' x \<longleftrightarrow> dormant s x" "\<And>x. inside (pcs s x) \<longrightarrow> inside (pcs s' x)"
  shows "no_loss s'"
  using assms unfolding no_loss_def by metis

lemma dormant_cong:
  "pcs s' x = pcs s x \<Longrightarrow> tstate s' x = tstate s x \<Longrightarrow> on_rq s' x = on_rq s x \<Longrightarrow> dormant s' x \<longleftrightarrow> dormant s x"
  by (simp add: dormant_def)

lemma dormant_inside: "dormant s x \<Longrightarrow> inside (pcs s x)"
  by (auto simp: dormant_def)

lemma wake_no_loss:
  assumes i: "sem_inv s" and ww: "set (waiters s0) = {x. x \<noteq> t \<and> inside (pcs s x)}"
    and s0: "tstate s0 = tstate s" "on_rq s0 = on_rq s"
    and s': "pcs s' = (pcs s)(t := c)" "tstate s' = tstate (wake_waiters s0)" "on_rq s' = on_rq (wake_waiters s0)"
    and c: "\<not> inside c"
  shows "no_loss s'"
proof (cases "\<exists>x. dormant s' x")
  case True
  then obtain x where x: "dormant s' x" by auto
  have xt: "x \<noteq> t" using dormant_inside[OF x] c s'(1) by auto
  have same: "tstate s' x = tstate s x" "on_rq s' x = on_rq s x"
    using wake_walk_task[of "map (\<lambda>t. (t, True)) (waiters s0)" both 1 s0 x] x s0
    by (auto simp: s' wake_waiters_def dormant_def)
  then have d: "dormant s x" using x xt s' by (auto simp: dormant_def)
  then have xw: "x \<in> fst ` set (map (\<lambda>t. (t, True)) (waiters s0))" using ww xt dormant_inside[OF d] by (simp add: image_image)
  have "tstate s x \<noteq> TASK_RUNNING" using d sem_inv_facts(7)[OF i, of x] by (auto simp: dormant_def task_inv_def)
  then have "tstate s0 x AND ucast both \<noteq> 0" using task_inv_wakeable[OF sem_inv_facts(7)[OF i, of x]] s0 by simp
  from wake_walk_first[OF xw this, of 1] obtain y where
    y: "y \<in> set (waiters s0)" "tstate s' y = TASK_RUNNING" "on_rq s' y" by (auto simp: s' wake_waiters_def)
  then show ?thesis using ww by (intro no_lossI(3)[of _ y]) (auto simp: s' dormant_def)
qed (simp add: no_loss_def)

lemma run_no_loss:
  assumes i: "sem_inv s" and nl: "no_loss s" and r: "sem_run t s = Some (m, s')"
  shows "no_loss s'"
  using r
proof (cases rule: run_cases)
  case (Failed k)
  show ?thesis by (rule calm_no_loss[OF nl]) (use Failed in \<open>auto simp: dormant_def\<close>)
next
  case (Sched k)
  have q: "on_rq s t" using sem_inv_facts(7)[OF i, of t] Sched by (simp add: task_inv_def)
  show ?thesis
  proof (cases "dormant s' t")
    case True
    then have "dormant s t" using Sched q by (auto simp: dormant_def go_to_sleep_def split: if_splits)
    moreover have "dormant s' x \<longleftrightarrow> dormant s x" if "x \<noteq> t" for x
      by (rule dormant_cong) (use that Sched in \<open>auto simp: go_to_sleep_def\<close>)
    ultimately have "dormant s' x \<longleftrightarrow> dormant s x" for x using True by (cases "x = t") auto
    then show ?thesis by (intro calm_no_loss[OF nl]) (use Sched in auto)
  next
    case False
    then show ?thesis by (rule no_lossI(3)[rotated]) (use Sched in simp)
  qed
next
  case (Out k r)
  show ?thesis by (rule wake_no_loss[OF i, of "s\<lparr>waiters := remove1 t (waiters s)\<rparr>" t _ "Fin r"])
    (use Out sem_inv_facts(1,2)[OF i] in auto)
next
  case (Fin r)
  show ?thesis by (rule calm_no_loss[OF nl]) (use Fin in \<open>auto simp: dormant_def\<close>)
next
  case (TryWake n)
  show ?thesis by (rule wake_no_loss[OF i, of "s\<lparr>sleepers := 0, sem_count := n\<rparr>" t _ Idle])
    (use TryWake sem_inv_facts(2)[OF i] in auto)
next
  case Waking
  show ?thesis by (rule wake_no_loss[OF i, of s t _ Idle]) (use Waking sem_inv_facts(2)[OF i] in auto)
qed (auto intro: no_lossI(1) no_lossI(3)[of _ t] simp: dormant_def)

lemma call_no_loss:
  assumes i: "sem_inv s" and nl: "no_loss s" and s: "sem_step e t s = Some (m, s')" and e: "e \<noteq> Run"
  shows "no_loss s'"
  using call_shape[OF s e]
proof cases
  case (1 c n)
  have d: "dormant s' x \<longleftrightarrow> dormant s x" for x using 1 by (auto simp: dormant_def)
  show ?thesis
  proof (cases "sem_count s' < 0 \<or> c = Waking")
    case True then show ?thesis using 1 by (auto intro: no_lossI(1) no_lossI(2)[of _ t])
  next
    case False
    show ?thesis by (rule calm_no_loss[OF nl _ _ d]) (use 1 False in auto)
  qed
qed

lemma step_no_loss:
  assumes "sem_inv s" "no_loss s" and s: "sem_step e t s = Some (m, s')"
  shows "no_loss s'"
  using s by (cases rule: step_cases) (use assms in \<open>auto intro: call_no_loss run_no_loss\<close>)

lemma stray_no_loss:
  assumes i: "sem_inv s" and nl: "no_loss s"
  shows "no_loss (snd (wake t m s))" (is "no_loss ?s")
proof (cases "dormant s t \<and> \<not> dormant ?s t")
  case True
  then show ?thesis by (intro no_lossI(3)[of _ t]) (auto simp: dormant_inside)
next
  case False
  have "dormant ?s x \<longleftrightarrow> dormant s x" if "x \<noteq> t" for x
    by (rule dormant_cong) (use that in \<open>auto simp: wake_effect\<close>)
  moreover have "dormant ?s t \<Longrightarrow> dormant s t"
    by (auto simp: wake_effect dormant_def split: if_splits)
  ultimately have "dormant ?s x \<longleftrightarrow> dormant s x" for x using False by (cases "x = t") auto
  then show ?thesis by (intro calm_no_loss[OF nl]) simp_all
qed

subsection \<open>Runs\<close>

lemma sem_runs_inv:
  "sem_runs n ms s \<Longrightarrow> sem_inv s \<and> no_loss s \<and> units n ms = Some (avail s)"
proof (induction rule: sem_runs.induct)
  case start
  have "avail (sema_init n) = n" "no_loss (sema_init n)" by (simp_all add: avail_def no_loss_def dormant_def sema_init_def)
  then show ?case using sem_init_inv by simp
next
  case (step ms s e t m s')
  then show ?case using sem_step_inv step_no_loss avail_step[of s e t m s'] by (auto simp: units_append)
next
  case (signal ms s p)
  then show ?case by (simp add: sem_inv_def no_loss_def dormant_def avail_def)
next
  case (stray ms s t mode)
  then show ?case using stray_inv stray_no_loss by (auto simp: avail_def)
qed

lemma units_nonneg: "units v ms = Some w \<Longrightarrow> 0 \<le> v \<Longrightarrow> 0 \<le> w"
  by (induction v ms rule: units.induct) (auto split: if_splits)

subsection \<open>The counters fit 32 bits\<close>

lemma sem_runs32_runs: "sem_runs32 n ms s \<Longrightarrow> sem_runs n ms s \<and> 0 \<le> n"
  by (induction rule: sem_runs32.induct) (auto intro: sem_runs.intros)

lemma released_only_up:
  assumes "sem_step e t s = Some (Released, s')"
  shows "e = Up"
proof (rule ccontr)
  assume "e \<noteq> Up"
  then show False
    using assms
    by (cases e) (auto simp: sem_step_def sem_run_def down_def down_interruptible_def down_trylock_def down_enter_def
        down_loop_def down_trylock_slow_def up_slow_def Let_def split: if_splits sleep_kind.splits pc.splits)
qed

definition small :: "int \<Rightarrow> meaning list \<Rightarrow> sem_state \<Rightarrow> bool" where
  "small n ms s \<longleftrightarrow> (\<forall>v. units n ms = Some v \<longrightarrow> v \<le> INT_MAX) \<and> sleepers s \<le> 2 \<and> (\<forall>t. pcs s t \<noteq> Idle \<longrightarrow> t < PID_MAX_LIMIT)"

lemma step_sleepers:
  assumes i: "sem_inv s" and "sleepers s \<le> 2" and st: "sem_step e t s = Some (m, s')"
  shows "sleepers s' \<le> 2"
  using st
proof (cases rule: step_cases)
  case 1
  obtain c k where "s' = goto t c (s\<lparr>sem_count := k\<rparr>)" by (rule call_shape[OF st 1])
  then show ?thesis using assms(2) by simp
next
  case 2
  then show ?thesis by (cases rule: run_cases) (use assms(2) sem_inv_facts(5)[OF i] in auto)
qed

lemma step_pcs:
  assumes "sem_step e t s = Some (m, s')"
  obtains c where "pcs s' = (pcs s)(t := c)"
  using assms
proof (cases rule: step_cases)
  case 1
  obtain c n where "s' = goto t c (s\<lparr>sem_count := n\<rparr>)" by (rule call_shape[OF assms 1])
  then show ?thesis by (intro that[of c]) simp
next
  case 2
  then show ?thesis by (cases rule: run_cases) (use that in auto)
qed

lemma sem_runs32_small: "sem_runs32 n ms s \<Longrightarrow> small n ms s"
proof (induction rule: sem_runs32.induct)
  case start then show ?case by (simp add: small_def sema_init_def)
next
  case (step ms s t e m s')
  have i: "sem_inv s" and u: "units n ms = Some (avail s)" using sem_runs32_runs[OF step.hyps(1)] sem_runs_inv by auto
  obtain c where "pcs s' = (pcs s)(t := c)" using step_pcs[OF step.hyps(4)] .
  then have "\<forall>x. pcs s' x \<noteq> Idle \<longrightarrow> x < PID_MAX_LIMIT" using step.IH step.hyps(2) by (auto simp: small_def)
  moreover have "sleepers s' \<le> 2" using step_sleepers[OF i _ step.hyps(4)] step.IH by (simp add: small_def)
  moreover have "v \<le> INT_MAX" if "units n (ms @ [m]) = Some v" for v
  proof (cases "m = Released")
    case True
    then have "e = Up" using released_only_up step.hyps(4) by blast
    then show ?thesis using step.hyps(3) step.IH that u True by (auto simp: small_def units_append)
  next
    case False
    then show ?thesis using step.IH that u by (cases m) (auto simp: small_def units_append split: if_splits)
  qed
  ultimately show ?case by (simp add: small_def)
qed (simp_all add: small_def)

lemma sem_runs32_fit:
  assumes "sem_runs32 n ms s"
  shows "sint (word_of_int (sem_count s) :: s32) = sem_count s \<and> sint (word_of_int (sleepers s) :: s32) = sleepers s"
proof -
  have i: "sem_inv s" and u: "units n ms = Some (avail s)" and n: "0 \<le> n"
    using sem_runs32_runs[OF assms] sem_runs_inv by auto
  have sm: "avail s \<le> INT_MAX" "sleepers s \<le> 2" "\<forall>t. pcs s t \<noteq> Idle \<longrightarrow> t < PID_MAX_LIMIT"
    using sem_runs32_small[OF assms] u by (auto simp: small_def)
  have "pcs s t \<noteq> Idle" if "debt (pcs s t)" for t using that by (cases "pcs s t") auto
  then have "{t. debt (pcs s t)} \<subseteq> {..<PID_MAX_LIMIT}" using sm(3) by auto
  then have "card {t. debt (pcs s t)} \<le> PID_MAX_LIMIT" using card_mono[of "{..<PID_MAX_LIMIT}"] by simp
  then have d: "int (card {t. debt (pcs s t)}) \<le> 2 ^ 22" by (simp add: PID_MAX_LIMIT_def)
  have "0 \<le> avail s" using units_nonneg[OF u n] .
  moreover have "0 \<le> sleepers s" using sem_inv_facts(4)[OF i] .
  ultimately have "- (2 ^ 31) \<le> sem_count s" "sem_count s < 2 ^ 31" "- (2 ^ 31) \<le> sleepers s" "sleepers s < 2 ^ 31"
    using sm(1,2) d by (simp_all add: avail_def INT_MAX_def)
  then show ?thesis by (simp add: signed_of_int signed_take_bit_int_eq_self)
qed

subsection \<open>A lock that counts units\<close>

text \<open>What a user of a semaphore assumes of it: an operation that succeeds when there is a unit and one
  that always succeeds. Every run of the semaphore is one that such a lock can follow.\<close>

locale unit_lock =
  fixes step :: "meaning \<Rightarrow> 's \<Rightarrow> 's option" and lval :: "'s \<Rightarrow> int"
  assumes acquire: "0 < lval s \<Longrightarrow> \<exists>s'. step Acquired s = Some s' \<and> lval s' = lval s - 1"
    and release: "\<exists>s'. step Released s = Some s' \<and> lval s' = lval s + 1"
    and idle: "m \<in> {Nothing, Refused} \<Longrightarrow> step m s = Some s"
begin

lemma follows: "units (lval s) ms = Some v \<Longrightarrow> \<exists>s'. foldM step ms s = Some s' \<and> lval s' = v"
proof (induction ms arbitrary: s)
  case (Cons m ms)
  show ?case
  proof (cases m)
    case Acquired
    then have "0 < lval s" "units (lval s - 1) ms = Some v" using Cons.prems by (auto split: if_splits)
    with acquire[of s] Cons.IH Acquired show ?thesis by fastforce
  next
    case Released
    with release[of s] Cons show ?thesis by fastforce
  qed (use Cons idle in auto)
qed simp

lemma follows_semaphore:
  "sem_runs (lval s0) ms s \<Longrightarrow> \<exists>s1. foldM step ms s0 = Some s1 \<and> lval s1 = avail s"
  using sem_runs_inv follows by blast

end

text \<open>The lock of the mailbox is one.\<close>

definition mb_lock_step :: "meaning \<Rightarrow> mailbox \<Rightarrow> mailbox option" where
  "mb_lock_step m b = (case m of Acquired \<Rightarrow> mb_down b | Released \<Rightarrow> Some (mb_up b) | _ \<Rightarrow> Some b)"

interpretation mbl: unit_lock mb_lock_step mb_lock
  by unfold_locales (auto simp: mb_lock_step_def mb_down_def mb_up_def)

lemma mb_lock_follows_semaphore:
  "sem_runs (mb_lock b) ms s \<Longrightarrow> \<exists>b'. foldM mb_lock_step ms b = Some b' \<and> mb_lock b' = avail s"
  by (rule mbl.follows_semaphore)

subsection \<open>A schedule of steps\<close>

fun sem_exec :: "(event \<times> nat) list \<Rightarrow> meaning list \<times> sem_state \<Rightarrow> (meaning list \<times> sem_state) option" where
  "sem_exec [] r = Some r"
| "sem_exec ((e, t) # es) (ms, s) = (case sem_step e t s of None \<Rightarrow> None | Some (m, s') \<Rightarrow> sem_exec es (ms @ [m], s'))"

lemma sem_exec_runs: "sem_exec es (ms, s) = Some (ms', s') \<Longrightarrow> sem_runs n ms s \<Longrightarrow> sem_runs n ms' s'"
proof (induction es arbitrary: ms s)
  case (Cons e es)
  then show ?case by (cases e) (auto split: option.splits intro: sem_runs.step)
qed simp

text \<open>A schedule without \<^verbatim>\<open>up\<close> stays within the bounds.\<close>

lemma sem_exec_runs32:
  "sem_exec es (ms, s) = Some (ms', s') \<Longrightarrow> sem_runs32 n ms s \<Longrightarrow> \<forall>(e, t) \<in> set es. t < PID_MAX_LIMIT \<and> e \<noteq> Up \<Longrightarrow>
   sem_runs32 n ms' s'"
proof (induction es arbitrary: ms s)
  case (Cons e es)
  then show ?case by (cases e) (fastforce split: option.splits intro: sem_runs32.step)
qed simp

lemma sem_stuck:
  assumes i: "sem_inv s" and stuck: "\<forall>t. sem_step Run t s = None"
  shows "wlock s = None" "pcs s t = Idle \<or> (\<exists>k. pcs s t = Sleep k) \<and> \<not> on_rq s t"
proof -
  have st: "sem_run t s = None" for t using stuck by (simp add: sem_step_def)
  have "\<not> holds (pcs s t)" for t using st[of t] by (cases "pcs s t") (auto simp: sem_run_def)
  then show l: "wlock s = None" using sem_inv_facts(3)[OF i] by (cases "wlock s") auto
  show "pcs s t = Idle \<or> (\<exists>k. pcs s t = Sleep k) \<and> \<not> on_rq s t"
    using st[of t] l by (cases "pcs s t")
      (auto simp: sem_run_def down_enter_def down_relock_def down_trylock_slow_def up_slow_def Let_def split: if_splits)
qed

subsection \<open>The tasks come to rest\<close>

text \<open>A task that has begun an operation will walk the wait queue at most once more. Between two walks each
  task only comes closer to sleeping or leaving.\<close>

fun walks :: "pc \<Rightarrow> bool" where
  "walks Idle = False" | "walks (Fin r) = False" | "walks _ = True"

definition stays :: "sem_state \<Rightarrow> nat \<Rightarrow> bool" where
  "stays s t \<longleftrightarrow> tstate s t = TASK_RUNNING \<or> tstate s t AND TASK_INTERRUPTIBLE \<noteq> 0 \<and> pending s t"

definition rank :: "sem_state \<Rightarrow> nat \<Rightarrow> nat" where
  "rank s t = (case pcs s t of Idle \<Rightarrow> 0 | Failed k \<Rightarrow> 8 | Enter k \<Rightarrow> 7
     | Loop k \<Rightarrow> if k = Interruptible \<and> pending s t \<or> \<not> stays s t then 2 else 6
     | Sched k \<Rightarrow> if stays s t then 5 else 1
     | Sleep k \<Rightarrow> if on_rq s t then 4 else 0
     | Relock k \<Rightarrow> 3 | Out k r \<Rightarrow> 1 | Fin r \<Rightarrow> 1 | TryFailed \<Rightarrow> 1 | Waking \<Rightarrow> 1)"

definition busy :: "sem_state \<Rightarrow> nat set" where
  "busy s = {t. pcs s t \<noteq> Idle}"

definition walks_left :: "sem_state \<Rightarrow> nat" where
  "walks_left s = card {t. walks (pcs s t)}"

definition ranks :: "sem_state \<Rightarrow> nat" where
  "ranks s = sum (rank s) (busy s)"

lemma busy_finite: "sem_runs n ms s \<Longrightarrow> finite (busy s)"
proof (induction rule: sem_runs.induct)
  case start then show ?case by (simp add: busy_def sema_init_def)
next
  case (step ms s e t m s')
  obtain c where "pcs s' = (pcs s)(t := c)" using step_pcs[OF step.hyps(2)] .
  then have "busy s' \<subseteq> insert t (busy s)" by (auto simp: busy_def)
  then show ?case using step.IH finite_subset by blast
qed (simp_all add: busy_def)

lemma ranks_less:
  assumes "finite (busy s)" "pcs s' = (pcs s)(t := c)" "pcs s t \<noteq> Idle" "rank s' t < rank s t"
    and "\<And>x. x \<noteq> t \<Longrightarrow> tstate s' x = tstate s x \<and> on_rq s' x = on_rq s x" "pending s' = pending s"
  shows "ranks s' < ranks s"
proof -
  have o: "rank s' x = rank s x" if "x \<noteq> t" for x
  proof -
    have "stays s' x = stays s x" using assms(5)[OF that] assms(6) by (simp add: stays_def)
    then show ?thesis using assms(2,6) assms(5)[OF that] that by (simp add: rank_def split: pc.split)
  qed
  have "busy s' \<subseteq> busy s" using assms(2,3) by (auto simp: busy_def)
  then have "ranks s' \<le> sum (rank s') (busy s)" unfolding ranks_def using assms(1) by (intro sum_mono2) auto
  also have "\<dots> < ranks s" unfolding ranks_def
  proof (rule sum_strict_mono_ex1[OF assms(1)])
    show "\<forall>x\<in>busy s. rank s' x \<le> rank s x" using o assms(4) by (metis less_imp_le order_refl)
    show "\<exists>x\<in>busy s. rank s' x < rank s x" using assms(3,4) by (auto simp: busy_def)
  qed
  finally show ?thesis .
qed

lemma walks_less:
  assumes "finite (busy s)" "pcs s' = (pcs s)(t := c)" "walks (pcs s t)" "\<not> walks c"
  shows "walks_left s' < walks_left s"
proof -
  have "{x. walks (pcs s x)} \<subseteq> busy s" by (auto simp: busy_def)
  then have "finite {x. walks (pcs s x)}" using assms(1) finite_subset by blast
  moreover have "{x. walks (pcs s' x)} \<subset> {x. walks (pcs s x)}" using assms(2-4) by (auto split: if_splits)
  ultimately show ?thesis unfolding walks_left_def by (rule psubset_card_mono)
qed

lemma walks_same: "pcs s' = (pcs s)(t := c) \<Longrightarrow> walks c = walks (pcs s t) \<Longrightarrow> walks_left s' = walks_left s"
  unfolding walks_left_def by (rule arg_cong[of _ _ card]) auto

lemma kind_state_stays: "tstate s t = kind_state k \<Longrightarrow> stays s t \<longleftrightarrow> k = Interruptible \<and> pending s t"
proof -
  have "TASK_UNINTERRUPTIBLE AND TASK_INTERRUPTIBLE = 0" "TASK_INTERRUPTIBLE AND TASK_INTERRUPTIBLE \<noteq> 0" by code_simp+
  then show "tstate s t = kind_state k \<Longrightarrow> ?thesis" by (auto simp: stays_def kind_state_def split: sleep_kind.splits)
qed

lemma run_settles:
  assumes f: "finite (busy s)" and r: "sem_run t s = Some (m, s')"
  shows "walks_left s' < walks_left s \<or> walks_left s' = walks_left s \<and> ranks s' < ranks s"
  using r
proof (cases rule: run_cases)
  case (Failed k)
  then show ?thesis by (auto intro!: walks_same ranks_less[OF f] simp: rank_def)
next
  case (Enter k)
  then show ?thesis by (auto intro!: walks_same ranks_less[OF f] simp: rank_def stays_def)
next
  case (Left k r)
  then show ?thesis by (auto intro!: walks_same ranks_less[OF f] simp: rank_def)
next
  case (Loop k)
  then show ?thesis by (auto intro!: walks_same ranks_less[OF f] simp: rank_def stays_def)
next
  case (Sched k)
  then show ?thesis by (auto intro!: walks_same ranks_less[OF f] simp: rank_def stays_def go_to_sleep_def)
next
  case (Sleep k)
  then show ?thesis by (auto intro!: walks_same ranks_less[OF f] simp: rank_def)
next
  case (Relock k)
  then have "stays s' t \<longleftrightarrow> k = Interruptible \<and> pending s' t" by (intro kind_state_stays) simp
  then have "rank s' t < rank s t" using Relock by (simp add: rank_def)
  then show ?thesis using Relock by (auto intro!: walks_same ranks_less[OF f])
next
  case (Fin r)
  then show ?thesis by (auto intro!: walks_same ranks_less[OF f] simp: rank_def)
qed (auto intro: walks_less[OF f])

subsection \<open>Properties\<close>

text \<open>Two schedules: a task that has to wait is woken by \<^verbatim>\<open>up\<close> and gets the unit; and a task that waits
  for a unit that never comes.\<close>

definition contended :: "(event \<times> nat) list" where
  "contended = [(Down Plain, 1), (Down Plain, 2), (Run, 2), (Run, 2), (Run, 2), (Run, 2), (Up, 1), (Run, 1),
     (Run, 2), (Run, 2), (Run, 2), (Run, 2), (Run, 2)]"

definition forlorn :: "(event \<times> nat) list" where
  "forlorn = [(Down Interruptible, 1), (Run, 1), (Run, 1), (Run, 1), (Run, 1)]"

lemma contended_run:
  "map_option fst (sem_exec contended ([], init_MUTEX)) = Some [Acquired, Nothing, Nothing, Nothing, Nothing, Nothing,
     Released, Nothing, Nothing, Nothing, Acquired, Nothing, Nothing]"
  by code_simp

lemma forlorn_run:
  "sem_exec forlorn ([], init_MUTEX_LOCKED) = Some (replicate 5 Nothing,
     init_MUTEX_LOCKED\<lparr>tstate := (\<lambda>_. TASK_RUNNING)(1 := TASK_INTERRUPTIBLE), on_rq := (\<lambda>_. True)(1 := False),
       sem_count := -1, sleepers := 1, waiters := [1], pcs := (\<lambda>_. Idle)(1 := Sleep Interruptible)\<rparr>)"
  by (simp add: forlorn_def init_MUTEX_LOCKED_def sema_init_def sem_step_def sem_run_def down_interruptible_def Let_def
      goto_def set_state_def kind_state_def down_enter_def add_wait_queue_exclusive_locked_def down_loop_def
      down_schedule_def go_to_sleep_def eval_nat_numeral)

text \<open>C30: The semaphore implements a counter of units. However the steps of the tasks interleave, signals
  and stray wakeups included, the operations that succeed form a run of the abstract counter, in
  which a unit is only taken when there is one; \<open>avail\<close> says which counter value a state stands for.
  A semaphore that \<^verbatim>\<open>init_MUTEX\<close> made is therefore never held twice.\<close>

theorem semaphore_refines_units:
  assumes "sem_runs n ms s" "0 \<le> n"
  shows "units n ms = Some (avail s) \<and> 0 \<le> avail s"
  using sem_runs_inv[OF assms(1)] units_nonneg[OF _ assms(2)] by auto

lemma semaphore_refines_units_witness:
  "avail (snd (the (sem_exec contended ([], init_MUTEX)))) = 0"
proof -
  obtain ms s where e: "sem_exec contended ([], init_MUTEX) = Some (ms, s)" and ms: "units 1 ms = Some 0"
    using contended_run by (cases "sem_exec contended ([], init_MUTEX)") auto
  have "sem_runs 1 ms s" using sem_exec_runs[OF e] sem_runs.start by (simp add: init_MUTEX_def)
  from semaphore_refines_units[OF this] ms e show ?thesis by simp
qed

text \<open>C14: No wakeup is lost. In the runs of at most \<open>PID_MAX_LIMIT\<close> tasks in which the number of free units never
  passes \<open>INT_MAX\<close>, \<open>count\<close> and \<open>sleepers\<close> keep to 32 bits; and when the tasks inside the semaphore code have
  come to rest, that is, none of them can take another step, and one of them is asleep, then all units
  are taken: a task never sleeps on a semaphore that it could have.\<close>

theorem semaphore_no_lost_wakeup:
  assumes r: "sem_runs32 n ms s"
  shows "sint (word_of_int (sem_count s) :: s32) = sem_count s \<and> sint (word_of_int (sleepers s) :: s32) = sleepers s \<and>
    ((\<forall>t. sem_step Run t s = None) \<and> pcs s x = Sleep k \<longrightarrow> units n ms = Some 0 \<and> sem_count s = - 1)"
proof (intro conjI impI)
  show "sint (word_of_int (sem_count s) :: s32) = sem_count s" "sint (word_of_int (sleepers s) :: s32) = sleepers s"
    using sem_runs32_fit[OF r] by auto
  assume p: "(\<forall>t. sem_step Run t s = None) \<and> pcs s x = Sleep k"
  have i: "sem_inv s" "no_loss s" and u: "units n ms = Some (avail s)" and n: "0 \<le> n"
    using sem_runs32_runs[OF r] sem_runs_inv by auto
  have q: "wlock s = None" "pcs s t = Idle \<or> (\<exists>k. pcs s t = Sleep k) \<and> \<not> on_rq s t" for t
    using sem_stuck[OF i(1)] p by auto
  have "dormant s x" using q(2)[of x] p by (simp add: dormant_def)
  moreover have "dormant s t" if "inside (pcs s t)" for t using that q(2)[of t] by (auto simp: dormant_def)
  moreover have "pcs s t \<noteq> Waking" for t using q(2)[of t] by auto
  ultimately have c: "sem_count s < 0" using i(2) unfolding no_loss_def by blast
  have "\<not> debt (pcs s t)" for t using q(2)[of t] by auto
  then have a: "avail s = sem_count s + sleepers s" by (simp add: avail_def)
  have "sleepers s \<le> 1" using sem_inv_facts(5)[OF i(1) q(1)] .
  moreover have "0 \<le> avail s" using units_nonneg[OF u n] .
  ultimately have "avail s = 0" "sem_count s = - 1" using a c by linarith+
  then show "units n ms = Some 0" "sem_count s = - 1" using u by simp_all
qed

lemma semaphore_no_lost_wakeup_witness:
  "pcs (snd (the (sem_exec forlorn ([], init_MUTEX_LOCKED)))) 1 = Sleep Interruptible \<and> units 0 (replicate 5 Nothing) = Some 0 \<and>
   sem_count (snd (the (sem_exec forlorn ([], init_MUTEX_LOCKED)))) = - 1"
proof -
  let ?s = "snd (the (sem_exec forlorn ([], init_MUTEX_LOCKED)))"
  have "sem_runs32 0 [] init_MUTEX_LOCKED" unfolding init_MUTEX_LOCKED_def by (rule sem_runs32.start) (simp_all add: INT_MAX_def)
  then have r: "sem_runs32 0 (replicate 5 Nothing) ?s"
    using sem_exec_runs32[OF forlorn_run] forlorn_run by (simp add: forlorn_def PID_MAX_LIMIT_def)
  have "(\<forall>t. sem_step Run t ?s = None) \<and> pcs ?s 1 = Sleep Interruptible"
    unfolding forlorn_run by (simp add: sem_step_def sem_run_def init_MUTEX_LOCKED_def sema_init_def)
  then show ?thesis using semaphore_no_lost_wakeup[OF r, of 1 Interruptible] by simp
qed

text \<open>The tasks do come to rest: without new calls and signals there is no infinite sequence of steps,
  whatever the order in which the tasks take theirs. In particular the loop of \<^verbatim>\<open>__down\<close> is left or
  sleeps after finitely many rounds.\<close>

theorem semaphore_settles:
  assumes r: "sem_runs n ms (f 0)"
  shows "\<exists>i. \<forall>t m. sem_step Run t (f i) \<noteq> Some (m, f (Suc i))"
proof (rule ccontr)
  assume "\<not> ?thesis"
  then have st: "\<exists>t m. sem_run t (f i) = Some (m, f (Suc i))" for i by (simp add: sem_step_def)
  have "\<exists>ms. sem_runs n ms (f i)" for i
  proof (induction i)
    case (Suc i)
    then obtain ms t m where "sem_runs n ms (f i)" "sem_step Run t (f i) = Some (m, f (Suc i))"
      using st[of i] by (auto simp: sem_step_def)
    then show ?case using sem_runs.step by blast
  qed (use r in blast)
  then have fin: "finite (busy (f i))" for i using busy_finite by blast
  have "(f (Suc i), f i) \<in> measures [walks_left, ranks]" for i
    using st[of i] run_settles[OF fin[of i]] by auto
  then show False using wf_measures wf_iff_no_infinite_down_chain by metis
qed

lemma semaphore_settles_witness:
  "\<exists>i. \<forall>t m. sem_step Run t (snd (the (sem_exec (take i contended) ([], init_MUTEX)))) \<noteq>
     Some (m, snd (the (sem_exec (take (Suc i) contended) ([], init_MUTEX))))"
  by (rule semaphore_settles[of 1 "[]" "\<lambda>i. snd (the (sem_exec (take i contended) ([], init_MUTEX)))"])
    (use sem_runs.start in \<open>simp add: init_MUTEX_def\<close>)

end
