(* ===== verification/Completion.thy ===== *)
theory Completion
  imports Waitqueue
begin

text \<open>
  Completions (\<^verbatim>\<open>kernel/sched.c\<close>, \<^verbatim>\<open>include/linux/completion.h\<close>) and \<^verbatim>\<open>schedule_timeout\<close> of \<^verbatim>\<open>kernel/timer.c\<close>. Any number of
  tasks wait and complete in any order. A step is a piece of code between two points at which another
  task or an interrupt can act: what is done under the lock of the wait queue is one step. The abstract
  completion is the counter \<open>done\<close>, which wraps at 32 bits.
\<close>

subsection \<open>State\<close>

definition ERESTARTSYS :: u64 where "ERESTARTSYS = 512"

definition MAX_SCHEDULE_TIMEOUT :: s64 where "MAX_SCHEDULE_TIMEOUT = 0x7FFFFFFFFFFFFFFF"

text \<open>How a task called \<^verbatim>\<open>schedule\<close>: directly, from \<^verbatim>\<open>schedule_timeout\<close> without a timer, or with one.\<close>

datatype sched_how = Directly | No_timer | Timer u64

text \<open>Where a task is. The flag is whether the wait is interruptible, the option its timeout.\<close>

datatype cpc =
  CIdle
| CCall bool "s64 option"      \<comment> \<open>queued, state set, lock released: about to call \<^verbatim>\<open>schedule\<close> or \<^verbatim>\<open>schedule_timeout\<close>\<close>
| CSched bool sched_how        \<comment> \<open>about to call \<^verbatim>\<open>schedule\<close>; the timer, if any, is running\<close>
| CSleep bool sched_how        \<comment> \<open>inside \<^verbatim>\<open>schedule\<close>\<close>
| CBack bool "s64 option"      \<comment> \<open>about to take the lock again, with the time that is left\<close>

record comp_state = wtasks +
  cdone :: u32
  cwaiters :: "nat list"
  cpcs :: "nat \<Rightarrow> cpc"
  jiffies :: u64
  timers :: "nat \<Rightarrow> u64 option"

text \<open>What a step means: a wait has returned, with or without having consumed a completion.\<close>

datatype csign = Silent | Consumed u64 | Gave_up u64 | Posted u32

definition init_completion :: "u64 \<Rightarrow> comp_state" where
  "init_completion now = \<lparr>tstate = (\<lambda>_. TASK_RUNNING), on_rq = (\<lambda>_. True), pending = (\<lambda>_. False),
     cdone = 0, cwaiters = [], cpcs = (\<lambda>_. CIdle), jiffies = now, timers = (\<lambda>_. None)\<rparr>"

definition cgoto :: "nat \<Rightarrow> cpc \<Rightarrow> comp_state \<Rightarrow> comp_state" where
  "cgoto t c s = s\<lparr>cpcs := (cpcs s)(t := c)\<rparr>"

definition sleep_state :: "bool \<Rightarrow> s64" where
  "sleep_state intr = (if intr then TASK_INTERRUPTIBLE else TASK_UNINTERRUPTIBLE)"

definition time_left :: "s64 option \<Rightarrow> u64" where
  "time_left timeout = (case timeout of None \<Rightarrow> 0 | Some n \<Rightarrow> n)"

subsection \<open>Completing\<close>

definition cwake :: "s32 \<Rightarrow> comp_state \<Rightarrow> comp_state" where
  "cwake nr_exclusive s = wake_walk (map (\<lambda>t. (t, True)) (cwaiters s)) both nr_exclusive s"

definition complete_one :: "comp_state \<Rightarrow> csign \<times> comp_state" where
  "complete_one s = (Posted 1, cwake 1 (s\<lparr>cdone := cdone s + 1\<rparr>))"

definition complete_every :: "comp_state \<Rightarrow> csign \<times> comp_state" where
  "complete_every s = (Posted 0x7FFFFFFF, cwake 0 (s\<lparr>cdone := cdone s + 0x7FFFFFFF\<rparr>))"

subsection \<open>Waiting\<close>

text \<open>The head of the loop: an interruptible wait looks for signals.\<close>

definition cw_head :: "bool \<Rightarrow> s64 option \<Rightarrow> nat \<Rightarrow> comp_state \<Rightarrow> csign \<times> comp_state" where
  "cw_head intr timeout t s =
     (if intr \<and> pending s t
      then (Gave_up (- ERESTARTSYS), cgoto t CIdle (s\<lparr>cwaiters := remove1 t (cwaiters s)\<rparr>))
      else (Silent, cgoto t (CCall intr timeout) (s\<lparr>tstate := (tstate s)(t := sleep_state intr)\<rparr>)))"

definition cw_enter :: "bool \<Rightarrow> s64 option \<Rightarrow> nat \<Rightarrow> comp_state \<Rightarrow> csign \<times> comp_state" where
  "cw_enter intr timeout t s =
     (if cdone s = 0 then cw_head intr timeout t (s\<lparr>cwaiters := cwaiters s @ [t]\<rparr>)
      else (Consumed (time_left timeout), s\<lparr>cdone := cdone s - 1\<rparr>))"

definition wait_for_completion :: "nat \<Rightarrow> comp_state \<Rightarrow> csign \<times> comp_state" where
  "wait_for_completion t s = cw_enter False None t s"

definition wait_for_completion_timeout :: "u64 \<Rightarrow> nat \<Rightarrow> comp_state \<Rightarrow> csign \<times> comp_state" where
  "wait_for_completion_timeout timeout t s = cw_enter False (Some timeout) t s"

definition wait_for_completion_interruptible :: "nat \<Rightarrow> comp_state \<Rightarrow> csign \<times> comp_state" where
  "wait_for_completion_interruptible t s = cw_enter True None t s"

definition wait_for_completion_interruptible_timeout :: "u64 \<Rightarrow> nat \<Rightarrow> comp_state \<Rightarrow> csign \<times> comp_state" where
  "wait_for_completion_interruptible_timeout timeout t s = cw_enter True (Some timeout) t s"

text \<open>\<^verbatim>\<open>schedule_timeout\<close> up to its call of \<^verbatim>\<open>schedule\<close>.\<close>

definition schedule_timeout_begin :: "bool \<Rightarrow> s64 \<Rightarrow> nat \<Rightarrow> comp_state \<Rightarrow> comp_state" where
  "schedule_timeout_begin intr timeout t s =
     (if timeout = MAX_SCHEDULE_TIMEOUT then cgoto t (CSched intr No_timer) s
      else if sint timeout < 0
      then cgoto t (CBack intr (Some 0)) (s\<lparr>tstate := (tstate s)(t := TASK_RUNNING)\<rparr>)
      else let expire = timeout + jiffies s
           in cgoto t (CSched intr (Timer expire)) (s\<lparr>timers := (timers s)(t := Some expire)\<rparr>))"

text \<open>And from there to its end: the timer is removed and the time that is left computed.\<close>

definition schedule_timeout_end :: "bool \<Rightarrow> sched_how \<Rightarrow> nat \<Rightarrow> comp_state \<Rightarrow> comp_state" where
  "schedule_timeout_end intr how t s = (case how of
     Directly \<Rightarrow> cgoto t (CBack intr None) s
   | No_timer \<Rightarrow> cgoto t (CBack intr (Some MAX_SCHEDULE_TIMEOUT)) s
   | Timer expire \<Rightarrow>
       let timeout = expire - jiffies s
       in cgoto t (CBack intr (Some (if sint timeout < 0 then 0 else timeout))) (s\<lparr>timers := (timers s)(t := None)\<rparr>))"

text \<open>The end of the loop body, with the lock held again.\<close>

definition cw_back :: "bool \<Rightarrow> s64 option \<Rightarrow> nat \<Rightarrow> comp_state \<Rightarrow> csign \<times> comp_state" where
  "cw_back intr timeout t s =
     (if timeout = Some 0 then (Gave_up 0, cgoto t CIdle (s\<lparr>cwaiters := remove1 t (cwaiters s)\<rparr>))
      else if cdone s = 0 then cw_head intr timeout t s
      else (Consumed (time_left timeout), cgoto t CIdle (s\<lparr>cwaiters := remove1 t (cwaiters s), cdone := cdone s - 1\<rparr>)))"

definition cw_run :: "nat \<Rightarrow> comp_state \<Rightarrow> (csign \<times> comp_state) option" where
  "cw_run t s = (case cpcs s t of
     CIdle \<Rightarrow> None
   | CCall intr None \<Rightarrow> Some (Silent, cgoto t (CSched intr Directly) s)
   | CCall intr (Some timeout) \<Rightarrow> Some (Silent, schedule_timeout_begin intr timeout t s)
   | CSched intr how \<Rightarrow> Some (Silent, cgoto t (CSleep intr how) (go_to_sleep t s))
   | CSleep intr how \<Rightarrow> if on_rq s t then Some (Silent, schedule_timeout_end intr how t s) else None
   | CBack intr timeout \<Rightarrow> Some (cw_back intr timeout t s))"

subsection \<open>Steps\<close>

definition time_after_eq :: "u64 \<Rightarrow> u64 \<Rightarrow> bool" where
  "time_after_eq a b \<longleftrightarrow> 0 \<le> sint (a - b)"

text \<open>A timer that has run out is removed and wakes its task (\<^verbatim>\<open>process_timeout\<close>).\<close>

definition process_timeout :: "nat \<Rightarrow> comp_state \<Rightarrow> comp_state option" where
  "process_timeout t s = (case timers s t of
     None \<Rightarrow> None
   | Some expire \<Rightarrow> if time_after_eq (jiffies s) expire
       then Some (snd (wake t (ucast (TASK_STOPPED OR TASK_TRACED OR TASK_INTERRUPTIBLE OR TASK_UNINTERRUPTIBLE))
              (s\<lparr>timers := (timers s)(t := None)\<rparr>)))
       else None)"

datatype cevent = Wait bool "u64 option" | Complete | Complete_all | Continue | Expire

definition comp_step :: "cevent \<Rightarrow> nat \<Rightarrow> comp_state \<Rightarrow> (csign \<times> comp_state) option" where
  "comp_step e t s = (case e of
     Wait intr timeout \<Rightarrow> if cpcs s t \<noteq> CIdle then None
       else Some (case (intr, timeout) of
           (False, None) \<Rightarrow> wait_for_completion t s
         | (True, None) \<Rightarrow> wait_for_completion_interruptible t s
         | (False, Some n) \<Rightarrow> wait_for_completion_timeout n t s
         | (True, Some n) \<Rightarrow> wait_for_completion_interruptible_timeout n t s)
   | Complete \<Rightarrow> Some (complete_one s)
   | Complete_all \<Rightarrow> Some (complete_every s)
   | Continue \<Rightarrow> cw_run t s
   | Expire \<Rightarrow> map_option (Pair Silent) (process_timeout t s))"

text \<open>Runs, with or without waits that have a timeout. Signals come and go, the clock ticks, and anybody
  may wake a task for reasons of their own.\<close>

inductive comp_runs :: "bool \<Rightarrow> csign list \<Rightarrow> comp_state \<Rightarrow> bool" for timed where
  start: "comp_runs timed [] (init_completion now)"
| step: "comp_runs timed ms s \<Longrightarrow> comp_step e t s = Some (m, s') \<Longrightarrow> (\<And>intr n. e = Wait intr (Some n) \<Longrightarrow> timed) \<Longrightarrow>
    comp_runs timed (ms @ [m]) s'"
| other: "comp_runs timed ms s \<Longrightarrow> comp_runs timed ms (s\<lparr>pending := p, jiffies := j\<rparr>)"
| stray: "comp_runs timed ms s \<Longrightarrow> comp_runs timed ms (snd (wake t mode s))"

text \<open>The abstract completion: a counter modulo \<open>2\<^sup>3\<^sup>2\<close>; a completion can be consumed when it is not zero.\<close>

fun tokens :: "u32 \<Rightarrow> csign list \<Rightarrow> u32 option" where
  "tokens v [] = Some v"
| "tokens v (Silent # ms) = tokens v ms"
| "tokens v (Gave_up r # ms) = tokens v ms"
| "tokens v (Posted n # ms) = tokens (v + n) ms"
| "tokens v (Consumed r # ms) = (if v = 0 then None else tokens (v - 1) ms)"

lemma tokens_append: "tokens v (ms @ [m]) = Option.bind (tokens v ms) (\<lambda>w. tokens w [m])"
  by (induction v ms rule: tokens.induct) auto

lemma comp_more_same:
  fixes s s' :: comp_state
  assumes "wtasks.more s' = wtasks.more s"
  shows "cpcs s' = cpcs s" "cdone s' = cdone s" "cwaiters s' = cwaiters s"
  using assms by (cases s; cases s'; simp)+

text \<open>\<open>complete_one\<close> and \<open>complete_every\<close> are the operations of the scheduler's file, seen through \<open>proj\<close>.\<close>

lemma complete_proj:
  assumes "wtasks.truncate s = proj q pend" "wait x = map (\<lambda>t. (t, True)) (cwaiters s)" "completed x = cdone s"
  shows "wtasks.truncate (snd (complete_one s)) = proj (snd (complete now irq x q)) pend"
    "cdone (snd (complete_one s)) = completed (fst (complete now irq x q))"
    "wtasks.truncate (snd (complete_every s)) = proj (snd (complete_all now irq x q)) pend"
    "cdone (snd (complete_every s)) = completed (fst (complete_all now irq x q))"
proof -
  have t: "wtasks.truncate (s\<lparr>cdone := v\<rparr>) = proj q pend" for v using assms(1) by (simp add: wtasks.defs)
  have w: "wtasks.truncate (cwake n (s\<lparr>cdone := v\<rparr>)) = proj (wake_up_common now irq (wait x) both n False q) pend" for n v
    unfolding cwake_def wake_walk_truncate t using assms(2) by (simp add: wake_up_common_proj[symmetric])
  have d: "cdone (cwake n (s\<lparr>cdone := v\<rparr>)) = v" for n v
    unfolding cwake_def using comp_more_same(2)[OF wake_walk_other(2)] by simp
  show "wtasks.truncate (snd (complete_one s)) = proj (snd (complete now irq x q)) pend"
    "cdone (snd (complete_one s)) = completed (fst (complete now irq x q))"
    "wtasks.truncate (snd (complete_every s)) = proj (snd (complete_all now irq x q)) pend"
    "cdone (snd (complete_every s)) = completed (fst (complete_all now irq x q))"
    using assms(3) by (simp_all add: complete_one_def complete_every_def complete_def complete_all_def w d both_def[symmetric])
qed

subsection \<open>The invariant\<close>

text \<open>A task whose state is not \<open>TASK_RUNNING\<close> is in a wait, and asleep or about to sleep.\<close>

fun drowsy :: "cpc \<Rightarrow> bool \<Rightarrow> bool" where
  "drowsy (CCall i n) q = q" | "drowsy (CSched i h) q = q" | "drowsy (CSleep i h) q = (\<not> q)" | "drowsy _ q = False"

definition ctask_inv :: "cpc \<Rightarrow> s64 \<Rightarrow> bool \<Rightarrow> bool" where
  "ctask_inv c v q \<longleftrightarrow> v = TASK_RUNNING \<and> q \<or> v \<in> {TASK_UNINTERRUPTIBLE, TASK_INTERRUPTIBLE} \<and> drowsy c q"

definition comp_inv :: "comp_state \<Rightarrow> bool" where
  "comp_inv s \<longleftrightarrow> distinct (cwaiters s) \<and> set (cwaiters s) = {t. cpcs s t \<noteq> CIdle} \<and>
     (\<forall>t. ctask_inv (cpcs s t) (tstate s t) (on_rq s t))"

definition asleep :: "comp_state \<Rightarrow> nat set" where
  "asleep s = {t. tstate s t \<noteq> TASK_RUNNING}"

definition awake :: "comp_state \<Rightarrow> nat set" where
  "awake s = {t. cpcs s t \<noteq> CIdle \<and> tstate s t = TASK_RUNNING}"

text \<open>As long as somebody sleeps, there is an awake waiter for every completion that can be consumed.\<close>

definition balanced :: "comp_state \<Rightarrow> bool" where
  "balanced s \<longleftrightarrow> (asleep s \<noteq> {} \<longrightarrow> unat (cdone s) \<le> card (awake s))"

fun untimed :: "cpc \<Rightarrow> bool" where
  "untimed (CCall i n) = (n = None)" | "untimed (CSched i h) = (h = Directly)" | "untimed (CSleep i h) = (h = Directly)"
| "untimed (CBack i n) = (n = None)" | "untimed CIdle = True"

lemma cgoto_sel [simp]:
  "cpcs (cgoto t c s) = (cpcs s)(t := c)" "cdone (cgoto t c s) = cdone s" "cwaiters (cgoto t c s) = cwaiters s"
  "tstate (cgoto t c s) = tstate s" "on_rq (cgoto t c s) = on_rq s" "pending (cgoto t c s) = pending s"
  by (simp_all add: cgoto_def)

lemma cwake_sel [simp]: "cpcs (cwake n s) = cpcs s" "cdone (cwake n s) = cdone s" "cwaiters (cwake n s) = cwaiters s"
  unfolding cwake_def by (rule comp_more_same, rule wake_walk_other)+

lemma comp_wake_sel [simp]:
  fixes s :: comp_state
  shows "cpcs (snd (wake t m s)) = cpcs s" "cdone (snd (wake t m s)) = cdone s" "cwaiters (snd (wake t m s)) = cwaiters s"
  by (rule comp_more_same, rule wake_effect)+

lemma ctask_inv_running [simp]: "ctask_inv c TASK_RUNNING True"
  by (simp add: ctask_inv_def)

lemma sleep_state_simps [simp]: "sleep_state i \<noteq> TASK_RUNNING" "ctask_inv (CCall i' n) (sleep_state i) True"
  by (simp_all add: sleep_state_def ctask_inv_def)

lemma comp_inv_facts:
  assumes "comp_inv s"
  shows "distinct (cwaiters s)" "set (cwaiters s) = {t. cpcs s t \<noteq> CIdle}" "ctask_inv (cpcs s x) (tstate s x) (on_rq s x)"
    "finite {t. cpcs s t \<noteq> CIdle}" "finite (awake s)"
proof -
  show "distinct (cwaiters s)" and w: "set (cwaiters s) = {t. cpcs s t \<noteq> CIdle}"
    and "ctask_inv (cpcs s x) (tstate s x) (on_rq s x)" using assms by (auto simp: comp_inv_def)
  show f: "finite {t. cpcs s t \<noteq> CIdle}" using w by (metis finite_set)
  show "finite (awake s)" by (rule finite_subset[OF _ f]) (auto simp: awake_def)
qed

lemma balancedI:
  assumes "balanced s" "comp_inv s'" "awake s \<subseteq> awake s'" "asleep s' \<subseteq> asleep s" "unat (cdone s') \<le> unat (cdone s)"
  shows "balanced s'"
proof -
  have "card (awake s) \<le> card (awake s')" using comp_inv_facts(5)[OF assms(2)] assms(3) by (rule card_mono)
  then show ?thesis using assms by (force simp: balanced_def)
qed

text \<open>A walk wakes one waiter for each completion that is new.\<close>

lemma cwake_inv:
  assumes "comp_inv s"
  shows "comp_inv (cwake n s)"
proof -
  have "ctask_inv (cpcs s x) (tstate (cwake n s) x) (on_rq (cwake n s) x)" for x
    using wake_walk_task[of "map (\<lambda>t. (t, True)) (cwaiters s)" both n s x] comp_inv_facts(3)[OF assms, of x]
    by (auto simp: cwake_def)
  then show ?thesis using assms by (simp add: comp_inv_def)
qed

lemma cwake_balanced:
  assumes i: "comp_inv s" and b: "asleep s \<noteq> {} \<longrightarrow> unat (cdone s) \<le> card (awake s) + quota n"
  shows "balanced (cwake n s)"
proof (cases "asleep (cwake n s) = {}")
  case False
  let ?ws = "map (\<lambda>t. (t, True)) (cwaiters s)"
  obtain x where x: "tstate (cwake n s) x \<noteq> TASK_RUNNING" using False by (auto simp: asleep_def)
  have same: "tstate (cwake n s) x = tstate s x"
    using wake_walk_task[of ?ws both n s x] x by (auto simp: cwake_def)
  have ws: "fst ` set ?ws = {t. cpcs s t \<noteq> CIdle}" "map fst ?ws = cwaiters s"
    using comp_inv_facts(2)[OF i] by (simp_all add: image_image comp_def)
  have wk: "tstate s y AND ucast both \<noteq> 0 \<longleftrightarrow> tstate s y \<noteq> TASK_RUNNING" for y
    using comp_inv_facts(3)[OF i, of y] by (auto simp: ctask_inv_def)
  have "cpcs s x \<noteq> CIdle" using comp_inv_facts(3)[OF i, of x] x same by (auto simp: ctask_inv_def)
  then have "quota n \<le> card (roused ?ws both n s)"
    using x same wk[of x] comp_inv_facts(1)[OF i] ws
    by (intro wake_walk_quota[where x = x]) (auto simp: cwake_def[symmetric])
  moreover have "awake (cwake n s) \<supseteq> awake s \<union> roused ?ws both n s"
  proof -
    have "tstate (cwake n s) y = TASK_RUNNING" if "tstate s y = TASK_RUNNING" for y
      using that wake_walk_task[of ?ws both n s y] by (auto simp: cwake_def)
    then show ?thesis using ws(1) by (auto simp: awake_def roused_def cwake_def[symmetric])
  qed
  then have "card (awake s \<union> roused ?ws both n s) \<le> card (awake (cwake n s))"
    using comp_inv_facts(5)[OF cwake_inv[OF i]] by (intro card_mono) auto
  moreover have "awake s \<inter> roused ?ws both n s = {}" by (auto simp: awake_def roused_def)
  then have "card (awake s \<union> roused ?ws both n s) = card (awake s) + card (roused ?ws both n s)"
    using comp_inv_facts(5)[OF i] by (intro card_Un_disjoint) auto
  moreover have "asleep s \<noteq> {}" using x same by (auto simp: asleep_def)
  ultimately show ?thesis using b by (auto simp: balanced_def)
qed (simp add: balanced_def)

subsection \<open>Steps keep it\<close>

lemma comp_cases:
  assumes "comp_step e t s = Some (m, s')"
  obtains (Take0) i n where "e = Wait i n" "cpcs s t = CIdle" "cdone s \<noteq> 0" "s' = s\<lparr>cdone := cdone s - 1\<rparr>" "m = Consumed (time_left n)"
  | (Quit0) i n where "e = Wait i n" "cpcs s t = CIdle" "cdone s = 0" "s' = cgoto t CIdle (s\<lparr>cwaiters := remove1 t (cwaiters s @ [t])\<rparr>)"
      "m = Gave_up (- ERESTARTSYS)"
  | (Sleep0) i n where "e = Wait i n" "cpcs s t = CIdle" "cdone s = 0" "m = Silent"
      "s' = cgoto t (CCall i n) (s\<lparr>cwaiters := cwaiters s @ [t], tstate := (tstate s)(t := sleep_state i)\<rparr>)"
  | (Post) k l where "s' = cwake k (s\<lparr>cdone := cdone s + l\<rparr>)" "k = 1 \<and> l = 1 \<or> k = 0 \<and> l = 0x7FFFFFFF" "m = Posted l"
  | (Call) i where "cpcs s t = CCall i None" "s' = cgoto t (CSched i Directly) s" "m = Silent"
  | (CallT) i n where "cpcs s t = CCall i (Some n)" "s' = schedule_timeout_begin i n t s" "m = Silent"
  | (Sched) i h where "cpcs s t = CSched i h" "s' = cgoto t (CSleep i h) (go_to_sleep t s)" "m = Silent"
  | (Ret) i h where "cpcs s t = CSleep i h" "on_rq s t" "s' = schedule_timeout_end i h t s" "m = Silent"
  | (Late) i where "cpcs s t = CBack i (Some 0)" "s' = cgoto t CIdle (s\<lparr>cwaiters := remove1 t (cwaiters s)\<rparr>)" "m = Gave_up 0"
  | (Quit) i n where "cpcs s t = CBack i n" "cdone s = 0" "s' = cgoto t CIdle (s\<lparr>cwaiters := remove1 t (cwaiters s)\<rparr>)"
      "m = Gave_up (- ERESTARTSYS)"
  | (Again) i n where "cpcs s t = CBack i n" "cdone s = 0" "m = Silent"
      "s' = cgoto t (CCall i n) (s\<lparr>tstate := (tstate s)(t := sleep_state i)\<rparr>)"
  | (Take) i n where "cpcs s t = CBack i n" "cdone s \<noteq> 0" "m = Consumed (time_left n)"
      "s' = cgoto t CIdle (s\<lparr>cwaiters := remove1 t (cwaiters s), cdone := cdone s - 1\<rparr>)"
  | (Timer) md tm where "s' = snd (wake t md (s\<lparr>timers := tm\<rparr>))" "m = Silent"
proof (cases e)
  case (Wait i n)
  have "cpcs s t = CIdle" "cw_enter i n t s = (m, s')" using assms unfolding Wait
    by (auto simp: comp_step_def wait_for_completion_def wait_for_completion_timeout_def wait_for_completion_interruptible_def
        wait_for_completion_interruptible_timeout_def split: if_splits bool.splits option.splits)
  then show ?thesis using Wait that(1-3) by (auto simp: cw_enter_def cw_head_def split: if_splits)
next
  case Continue
  then have r: "cw_run t s = Some (m, s')" using assms by (simp add: comp_step_def)
  show ?thesis
  proof (cases "cpcs s t")
    case (CCall i n) then show ?thesis using r that(5,6) by (cases n) (auto simp: cw_run_def)
  next
    case (CSched i h) then show ?thesis using r that(7) by (auto simp: cw_run_def)
  next
    case (CSleep i h) then show ?thesis using r that(8) by (auto simp: cw_run_def split: if_splits)
  next
    case (CBack i n)
    then have "cw_back i n t s = (m, s')" using r by (simp add: cw_run_def)
    then show ?thesis using that(9-12) CBack by (auto simp: cw_back_def cw_head_def split: if_splits)
  qed (use r in \<open>simp add: cw_run_def\<close>)
next
  case Expire
  then show ?thesis using assms that(13) by (auto simp: comp_step_def process_timeout_def split: option.splits if_splits)
qed (use assms that(4) in \<open>auto simp: comp_step_def complete_one_def complete_every_def\<close>)

lemma tokens_step: "comp_step e t s = Some (m, s') \<Longrightarrow> tokens (cdone s) [m] = Some (cdone s')"
proof (erule comp_cases, goal_cases)
  case (6 i n) then show ?case by (simp add: schedule_timeout_begin_def Let_def)
next
  case (7 i h) then show ?case by (simp add: go_to_sleep_def)
next
  case (8 i h) then show ?case by (simp add: schedule_timeout_end_def Let_def split: sched_how.split)
qed auto

lemma comp_inv_goto:
  assumes i: "comp_inv s" and p: "cpcs s' = (cpcs s)(t := c)" and w: "distinct (cwaiters s')"
    "set (cwaiters s') = {x. x \<noteq> t \<and> cpcs s x \<noteq> CIdle} \<union> (if c = CIdle then {} else {t})"
    and o: "\<And>x. x \<noteq> t \<Longrightarrow> tstate s' x = tstate s x \<and> on_rq s' x = on_rq s x" and t: "ctask_inv c (tstate s' t) (on_rq s' t)"
  shows "comp_inv s'"
proof -
  have "ctask_inv (cpcs s' x) (tstate s' x) (on_rq s' x)" for x
    using comp_inv_facts(3)[OF i, of x] o[of x] t p by (cases "x = t") auto
  then show ?thesis using w p by (auto simp: comp_inv_def)
qed

lemma comp_inv_move:
  assumes i: "comp_inv s" and t: "cpcs s t \<noteq> CIdle" "c \<noteq> CIdle" "ctask_inv c (tstate s' t) (on_rq s' t)"
    and "cpcs s' = (cpcs s)(t := c)" "cwaiters s' = cwaiters s"
    and "\<And>x. x \<noteq> t \<Longrightarrow> tstate s' x = tstate s x \<and> on_rq s' x = on_rq s x"
  shows "comp_inv s'"
proof -
  have "set (cwaiters s) = {x. x \<noteq> t \<and> cpcs s x \<noteq> CIdle} \<union> {t}" using t(1) comp_inv_facts(2)[OF i] by auto
  then show ?thesis using assms comp_inv_facts(1)[OF i] by (intro comp_inv_goto[OF i, of s' t c]) simp_all
qed

lemma comp_inv_leave:
  assumes i: "comp_inv s" and "cpcs s t = CBack j n"
    and "cpcs s' = (cpcs s)(t := CIdle)" "cwaiters s' = remove1 t (cwaiters s)" "tstate s' = tstate s" "on_rq s' = on_rq s"
  shows "comp_inv s'"
proof -
  have "ctask_inv CIdle (tstate s t) (on_rq s t)" using comp_inv_facts(3)[OF i, of t] assms(2) by (simp add: ctask_inv_def)
  then show ?thesis using assms comp_inv_facts(1,2)[OF i] by (intro comp_inv_goto[OF i, of s' t CIdle]) auto
qed

lemma stray_comp_inv:
  assumes i: "comp_inv s"
  shows "comp_inv (snd (wake t md s))"
proof -
  have "ctask_inv (cpcs s x) (tstate (snd (wake t md s)) x) (on_rq (snd (wake t md s)) x)" for x
    using comp_inv_facts(3)[OF i, of x] by (auto simp: wake_effect ctask_inv_def)
  then show ?thesis using i by (simp add: comp_inv_def)
qed

lemma comp_step_inv:
  assumes i: "comp_inv s" and s: "comp_step e t s = Some (m, s')"
  shows "comp_inv s'"
proof -
  note f = comp_inv_facts(1,2)[OF i]
  note ti = comp_inv_facts(3)[OF i, of t]
  note move = comp_inv_move[OF i, where t = t and s' = s']
  note leave = comp_inv_leave[OF i, where t = t and s' = s']
  from s show ?thesis
  proof (cases rule: comp_cases)
    case (Take0 i' n) then show ?thesis using i by (simp add: comp_inv_def)
  next
    case (Quit0 i' n)
    have "remove1 t (cwaiters s @ [t]) = cwaiters s" using Quit0 f by (simp add: remove1_append)
    then have "s' = s" using Quit0(2,4) by (simp add: cgoto_def fun_upd_idem)
    then show ?thesis using i by simp
  next
    case (Sleep0 i' n)
    then have "on_rq s t" using ti by (simp add: ctask_inv_def)
    then show ?thesis using comp_inv_goto[OF i, of s' t "CCall i' n"] Sleep0(2,5) f by auto
  next
    case (Post k l)
    then show ?thesis using cwake_inv[of "s\<lparr>cdone := cdone s + l\<rparr>" k] i by (simp add: comp_inv_def)
  next
    case (Call i') then show ?thesis using ti move[of "CSched i' Directly"] by (simp add: ctask_inv_def)
  next
    case (CallT i' n)
    then have "on_rq s t" using ti by (auto simp: ctask_inv_def)
    then show ?thesis using ti CallT move[of "cpcs s' t"] by (auto simp: ctask_inv_def schedule_timeout_begin_def Let_def)
  next
    case (Sched i' h)
    have "ctask_inv (CSleep i' h) (tstate (go_to_sleep t s) t) (on_rq (go_to_sleep t s) t)"
      using ti Sched(1) by (auto simp: ctask_inv_def go_to_sleep_def)
    then show ?thesis using Sched move[of "CSleep i' h"] by (simp add: go_to_sleep_def)
  next
    case (Ret i' h)
    then have "tstate s t = TASK_RUNNING" using ti by (auto simp: ctask_inv_def)
    then show ?thesis using Ret move[of "cpcs s' t"]
      by (auto simp: schedule_timeout_end_def Let_def split: sched_how.splits)
  next
    case (Late i') then show ?thesis using leave by simp
  next
    case (Quit i' n) then show ?thesis using leave by simp
  next
    case (Again i' n)
    then have "on_rq s t" using ti by (simp add: ctask_inv_def)
    then show ?thesis using Again move[of "CCall i' n"] by simp
  next
    case (Take i' n) then show ?thesis using leave by simp
  next
    case (Timer md tm)
    then show ?thesis using stray_comp_inv[of "s\<lparr>timers := tm\<rparr>" t md] i by (simp add: comp_inv_def)
  qed
qed

lemma comp_step_untimed:
  assumes u: "\<forall>x. untimed (cpcs s x)" and s: "comp_step e t s = Some (m, s')" and e: "\<And>i n. e \<noteq> Wait i (Some n)"
  shows "untimed (cpcs s' x)"
proof -
  have ut: "untimed (cpcs s t)" "untimed (cpcs s x)" using u by auto
  show ?thesis using s
  proof (cases rule: comp_cases)
    case (Sleep0 i n) then show ?thesis using ut e by (cases n) auto
  next
    case (Sched i h) then show ?thesis using ut by (simp add: go_to_sleep_def)
  next
    case (Ret i h) then show ?thesis using ut by (auto simp: schedule_timeout_end_def)
  qed (use ut in auto)
qed

lemma balanced_zero: "cdone s = 0 \<Longrightarrow> balanced s"
  by (simp add: balanced_def)

lemma comp_step_balanced:
  assumes i: "comp_inv s" and b: "balanced s" and u: "untimed (cpcs s t)" and s: "comp_step e t s = Some (m, s')"
  shows "balanced s'"
proof -
  note ti = comp_inv_facts(3)[OF i, of t]
  note mono = balancedI[OF b comp_step_inv[OF i s]]
  from s show ?thesis
  proof (cases rule: comp_cases)
    case (Take0 i' n)
    show ?thesis by (rule mono) (use Take0 in \<open>auto simp: awake_def asleep_def unat_minus_one\<close>)
  next
    case (Post k l)
    let ?s = "s\<lparr>cdone := cdone s + l\<rparr>"
    have "comp_inv ?s" using i by (simp add: comp_inv_def)
    moreover have "unat (cdone s + l) \<le> unat (cdone s) + quota k \<and> (k = 0 \<longrightarrow> unat (cdone s + l) \<le> quota k)"
      using Post(2) unsigned_less[of "cdone s + l", where 'a = nat] by (auto simp: quota_def unat_word_ariths)
    then have "asleep ?s \<noteq> {} \<longrightarrow> unat (cdone ?s) \<le> card (awake ?s) + quota k"
      using Post(2) b by (auto simp: balanced_def asleep_def awake_def)
    ultimately show ?thesis unfolding Post(1) by (rule cwake_balanced)
  next
    case (Call i') show ?thesis by (rule mono) (use Call in \<open>auto simp: awake_def asleep_def split: if_splits\<close>)
  next
    case (Sched i' h)
    show ?thesis by (rule mono) (use Sched in \<open>auto simp: awake_def asleep_def go_to_sleep_def split: if_splits\<close>)
  next
    case (Ret i' h)
    show ?thesis by (rule mono)
      (use Ret u in \<open>auto simp: awake_def asleep_def schedule_timeout_end_def split: if_splits\<close>)
  next
    case (Take i' n)
    have t: "t \<in> awake s" using Take ti by (auto simp: awake_def ctask_inv_def)
    have "awake s' = awake s - {t}" "asleep s' = asleep s" using Take by (auto simp: awake_def asleep_def)
    moreover have "card (awake s - {t}) = card (awake s) - 1" using t comp_inv_facts(5)[OF i] by simp
    moreover have "unat (cdone s') = unat (cdone s) - 1" using Take by (simp add: unat_minus_one)
    ultimately show ?thesis using b by (auto simp: balanced_def)
  next
    case (Timer md tm)
    show ?thesis by (rule mono) (use Timer in \<open>auto simp: awake_def asleep_def wake_effect split: if_splits\<close>)
  qed (use u in \<open>auto intro!: balanced_zero\<close>)
qed

lemma comp_runs_inv: "comp_runs timed ms s \<Longrightarrow> comp_inv s \<and> tokens 0 ms = Some (cdone s)"
proof (induction rule: comp_runs.induct)
  case (start now) then show ?case by (simp add: comp_inv_def init_completion_def)
next
  case (step ms s e t m s')
  then show ?case using comp_step_inv[of s e t m s'] tokens_step[OF step.hyps(2)] by (simp add: tokens_append)
next
  case (other ms s p j) then show ?case by (simp add: comp_inv_def)
next
  case (stray ms s t mode)
  then show ?case by (simp add: stray_comp_inv)
qed

lemma comp_runs_balanced: "comp_runs timed ms s \<Longrightarrow> \<not> timed \<Longrightarrow> balanced s \<and> (\<forall>t. untimed (cpcs s t))"
proof (induction rule: comp_runs.induct)
  case (start now) then show ?case by (simp add: balanced_zero init_completion_def)
next
  case (step ms s e t m s')
  then have "\<And>i n. e \<noteq> Wait i (Some n)" by blast
  then show ?case using step comp_step_untimed[of s e t m s'] comp_step_balanced[of s t e m s'] comp_runs_inv[OF step.hyps(1)] by blast
next
  case (other ms s p j) then show ?case by (simp add: balanced_def awake_def asleep_def)
next
  case (stray ms s t mode)
  have "comp_inv (snd (wake t mode s))" using comp_runs_inv[OF comp_runs.stray[OF stray.hyps(1)]] by blast
  then have "balanced (snd (wake t mode s))"
    by (rule balancedI[rotated]) (use stray in \<open>auto simp: awake_def asleep_def wake_effect split: if_splits\<close>)
  then show ?case using stray by simp
qed

lemma comp_stuck:
  assumes i: "comp_inv s" and stuck: "\<forall>t. comp_step Continue t s = None"
  shows "cpcs s t = CIdle \<or> (\<exists>i h. cpcs s t = CSleep i h) \<and> \<not> on_rq s t"
proof -
  have "cw_run t s = None" using stuck by (simp add: comp_step_def)
  then show ?thesis by (cases "cpcs s t") (auto simp: cw_run_def split: option.splits if_splits)
qed

subsection \<open>Properties\<close>

fun comp_exec :: "(cevent \<times> nat) list \<Rightarrow> csign list \<times> comp_state \<Rightarrow> (csign list \<times> comp_state) option" where
  "comp_exec [] r = Some r"
| "comp_exec ((e, t) # es) (ms, s) = (case comp_step e t s of None \<Rightarrow> None | Some (m, s') \<Rightarrow> comp_exec es (ms @ [m], s'))"

lemma comp_exec_runs:
  "comp_exec es (ms, s) = Some (ms', s') \<Longrightarrow> comp_runs timed ms s \<Longrightarrow>
   timed \<or> (\<forall>i n t. (Wait i (Some n), t) \<notin> set es) \<Longrightarrow> comp_runs timed ms' s'"
proof (induction es arbitrary: ms s)
  case (Cons e es)
  obtain e' t where e: "e = (e', t)" by (cases e)
  obtain m s1 where s1: "comp_step e' t s = Some (m, s1)" "comp_exec es (ms @ [m], s1) = Some (ms', s')"
    using Cons.prems(1) by (auto simp: e split: option.splits)
  have "comp_runs timed (ms @ [m]) s1" using Cons.prems(2,3) s1(1) by (intro comp_runs.step[of timed ms s]) (auto simp: e)
  then show ?case using Cons.IH[OF s1(2)] Cons.prems(3) by auto
qed simp

lemmas comp_defs = comp_step_def cw_run_def cw_enter_def cw_head_def cw_back_def cgoto_def go_to_sleep_def Let_def
  wait_for_completion_def wait_for_completion_timeout_def schedule_timeout_begin_def schedule_timeout_end_def
  complete_one_def cwake_def wake_def init_completion_def sleep_state_def time_left_def MAX_SCHEDULE_TIMEOUT_def

text \<open>Task 1 waits with a timeout of one tick, task 2 without one, and both go to sleep.\<close>

definition two_waiters :: "(cevent \<times> nat) list" where
  "two_waiters = [(Wait False (Some 1), 1), (Wait False None, 2), (Continue, 1), (Continue, 1),
     (Continue, 2), (Continue, 2)]"

lemma two_waiters_run:
  "comp_exec two_waiters ([], init_completion 0) = Some ([Silent, Silent, Silent, Silent, Silent, Silent],
     (init_completion 0)\<lparr>tstate := (\<lambda>_. TASK_RUNNING)(1 := TASK_UNINTERRUPTIBLE, 2 := TASK_UNINTERRUPTIBLE),
       on_rq := (\<lambda>_. True)(1 := False, 2 := False), cwaiters := [1, 2],
       cpcs := (\<lambda>_. CIdle)(1 := CSleep False (Timer 1), 2 := CSleep False Directly), timers := (\<lambda>_. None)(1 := Some 1)\<rparr>)"
  by (simp add: two_waiters_def comp_defs fun_upd_twist fun_upd_idem)

text \<open>C35: No wakeup is lost between waits without a timeout, whatever the interleaving of waits,
  completions (single or for all), signals and stray wakeups. The code's counter \<open>done\<close> is at all times
  what was posted less what was consumed, modulo \<open>2\<^sup>3\<^sup>2\<close>, and nothing is consumed at zero; and when
  no waiting task can take a step and one still waits, \<open>done\<close> is zero and that one is a sleeper on the queue.\<close>

theorem completion_no_lost_wakeup:
  assumes r: "comp_runs False ms s"
  shows "tokens 0 ms = Some (cdone s) \<and>
    ((\<forall>t. comp_step Continue t s = None) \<and> cpcs s x \<noteq> CIdle \<longrightarrow>
       cdone s = 0 \<and> cpcs s x \<in> {CSleep False Directly, CSleep True Directly} \<and> \<not> on_rq s x \<and> x \<in> set (cwaiters s))"
proof (intro conjI impI)
  have i: "comp_inv s" and d: "tokens 0 ms = Some (cdone s)" using comp_runs_inv[OF r] by auto
  show "tokens 0 ms = Some (cdone s)" by (rule d)
  assume p: "(\<forall>t. comp_step Continue t s = None) \<and> cpcs s x \<noteq> CIdle"
  then have stuck: "\<forall>t. comp_step Continue t s = None" and x: "cpcs s x \<noteq> CIdle" by auto
  note q = comp_stuck[OF i stuck]
  have a: "tstate s t \<noteq> TASK_RUNNING" if "cpcs s t \<noteq> CIdle" for t
    using q[of t] that comp_inv_facts(3)[OF i, of t] by (auto simp: ctask_inv_def)
  then have "awake s = {}" "asleep s \<noteq> {}" using x by (auto simp: awake_def asleep_def)
  then have "unat (cdone s) = 0" using comp_runs_balanced[OF r] by (simp add: balanced_def)
  then show "cdone s = 0" by (simp add: unat_eq_0)
  obtain j h where h: "cpcs s x = CSleep j h" "\<not> on_rq s x" using q[of x] x by auto
  then show "\<not> on_rq s x" by simp
  have "untimed (cpcs s x)" using comp_runs_balanced[OF r] by simp
  then show "cpcs s x \<in> {CSleep False Directly, CSleep True Directly}" using h by (cases j) simp_all
  show "x \<in> set (cwaiters s)" using x comp_inv_facts(2)[OF i] by simp
qed

text \<open>Task 3 completes, task 1 consumes, task 2 waits and sleeps.\<close>

definition one_left :: comp_state where
  "one_left = (init_completion 0)\<lparr>tstate := (\<lambda>_. TASK_RUNNING)(2 := TASK_UNINTERRUPTIBLE), on_rq := (\<lambda>_. True)(2 := False),
    cwaiters := [2], cpcs := (\<lambda>_. CIdle)(2 := CSleep False Directly)\<rparr>"

lemma completion_no_lost_wakeup_witness:
  "tokens 0 [Posted 1, Consumed 0, Silent, Silent, Silent] = Some (cdone one_left) \<and> cdone one_left = 0 \<and>
   cpcs one_left 2 = CSleep False Directly \<and> \<not> on_rq one_left 2"
proof -
  let ?es = "[(Complete, 3), (Wait False None, 1), (Wait False None, 2), (Continue, 2), (Continue, 2)]"
  have "comp_exec ?es ([], init_completion 0) = Some ([Posted 1, Consumed 0, Silent, Silent, Silent], one_left)"
    by (simp add: comp_defs one_left_def)
  then have r: "comp_runs False [Posted 1, Consumed 0, Silent, Silent, Silent] one_left"
    by (rule comp_exec_runs) (auto intro: comp_runs.start)
  have "(\<forall>t. comp_step Continue t one_left = None) \<and> cpcs one_left 2 \<noteq> CIdle" by (simp add: comp_defs one_left_def)
  then show ?thesis using completion_no_lost_wakeup[OF r, of 2] by (simp add: one_left_def)
qed

text \<open>C29: A wait with a timeout can lose a wakeup. Task 1 in \<^verbatim>\<open>wait_for_completion_timeout\<close> and task 2 in
  \<^verbatim>\<open>wait_for_completion\<close> sleep, \<open>done\<close> is zero. \<^verbatim>\<open>complete\<close> makes \<open>done\<close> one and wakes task 1 and only it.
  If the clock ticks before task 1 runs, task 1 leaves: its wait returns 0 although \<open>done\<close> is still one, and
  it wakes nobody. After that run nothing moves any more, there is a completion to consume, and task 2
  sleeps in its wait.\<close>

theorem completion_timeout_loses_wakeup:
  "\<exists>ms s s1 s2 s3.
     comp_exec two_waiters ([], init_completion 0) = Some (ms, s) \<and>
     cwaiters s = [1, 2] \<and> cpcs s 1 = CSleep False (Timer 1) \<and> cpcs s 2 = CSleep False Directly \<and>
     \<not> on_rq s 1 \<and> \<not> on_rq s 2 \<and> cdone s = 0 \<and>
     comp_step Complete 3 s = Some (Posted 1, s1) \<and> on_rq s1 1 \<and> tstate s1 1 = TASK_RUNNING \<and> \<not> on_rq s1 2 \<and> cdone s1 = 1 \<and>
     s2 = s1\<lparr>jiffies := jiffies s1 + 1\<rparr> \<and>
     comp_exec [(Continue, 1), (Continue, 1)] (ms @ [Posted 1], s2) = Some (ms @ [Posted 1, Silent, Gave_up 0], s3) \<and>
     comp_runs True (ms @ [Posted 1, Silent, Gave_up 0]) s3 \<and>
     cdone s3 = 1 \<and> cwaiters s3 = [2] \<and> cpcs s3 2 = CSleep False Directly \<and> \<not> on_rq s3 2 \<and>
     (\<forall>t. comp_step Continue t s3 = None \<and> comp_step Expire t s3 = None)"
proof -
  let ?c = "(\<lambda>_. CIdle)(1 := CSleep False (Timer 1), 2 := CSleep False Directly)"
  let ?s = "(init_completion 0)\<lparr>tstate := (\<lambda>_. TASK_RUNNING)(1 := TASK_UNINTERRUPTIBLE, 2 := TASK_UNINTERRUPTIBLE),
    on_rq := (\<lambda>_. True)(1 := False, 2 := False), cwaiters := [1, 2], cpcs := ?c, timers := (\<lambda>_. None)(1 := Some 1)\<rparr>"
  let ?s1 = "(init_completion 0)\<lparr>tstate := (\<lambda>_. TASK_RUNNING)(2 := TASK_UNINTERRUPTIBLE),
    on_rq := (\<lambda>_. True)(2 := False), cdone := 1, cwaiters := [1, 2], cpcs := ?c, timers := (\<lambda>_. None)(1 := Some 1)\<rparr>"
  let ?s3 = "(init_completion 1)\<lparr>tstate := (\<lambda>_. TASK_RUNNING)(2 := TASK_UNINTERRUPTIBLE), on_rq := (\<lambda>_. True)(2 := False),
    cdone := 1, cwaiters := [2], cpcs := (\<lambda>_. CIdle)(2 := CSleep False Directly)\<rparr>"
  let ?ms = "[Silent, Silent, Silent, Silent, Silent, Silent]"
  have c: "comp_step Complete 3 ?s = Some (Posted 1, ?s1)" by (simp add: comp_defs fun_upd_twist fun_upd_idem)
  have x: "comp_exec [(Continue, 1), (Continue, 1)] (?ms @ [Posted 1], ?s1\<lparr>jiffies := jiffies ?s1 + 1\<rparr>) =
      Some (?ms @ [Posted 1, Silent, Gave_up 0], ?s3)"
    by (simp add: comp_defs fun_upd_twist fun_upd_idem)
  have "comp_runs True ?ms ?s" by (rule comp_exec_runs[OF two_waiters_run comp_runs.start]) simp
  then have "comp_runs True (?ms @ [Posted 1]) ?s1" by (rule comp_runs.step[OF _ c]) simp
  from comp_runs.other[OF this, where p = "pending ?s1" and j = "jiffies ?s1 + 1"]
  have r: "comp_runs True (?ms @ [Posted 1, Silent, Gave_up 0]) ?s3"
    by (intro comp_exec_runs[OF x]) (simp_all add: init_completion_def)
  have "\<forall>t. comp_step Continue t ?s3 = None \<and> comp_step Expire t ?s3 = None" by (simp add: comp_defs process_timeout_def)
  then show ?thesis
    by (intro exI[of _ ?ms] exI[of _ ?s] exI[of _ ?s1] exI[of _ "?s1\<lparr>jiffies := jiffies ?s1 + 1\<rparr>"] exI[of _ ?s3])
      (use two_waiters_run c x r in \<open>simp add: init_completion_def\<close>)
qed

end
