(* ===== verification/Bitops.thy ===== *)
theory Bitops
  imports Prelude
begin

text \<open>
  Bitmaps: the search routines of \<^verbatim>\<open>arch/x86_64/lib/bitops.c\<close> and the single-bit operations of
  \<^verbatim>\<open>include/asm-x86_64/bitops.h\<close>. A bitmap is an array of 64-bit words; the searches go through it a word at a
  time and are shown to find the next bit. Sizes and offsets are far below \<open>2\<^sup>6\<^sup>3\<close>, so they are \<open>nat\<close>.
\<close>

unbundle bit_operations_syntax

type_synonym bitmap = "nat \<Rightarrow> u64"

subsection \<open>Single bits\<close>

definition test_bit :: "nat \<Rightarrow> bitmap \<Rightarrow> bool" where
  "test_bit nr a \<longleftrightarrow> bit (a (nr div 64)) (nr mod 64)"

definition set_bit_at :: "nat \<Rightarrow> bitmap \<Rightarrow> bitmap" where
  "set_bit_at nr a = a(nr div 64 := a (nr div 64) OR push_bit (nr mod 64) 1)"

definition clear_bit :: "nat \<Rightarrow> bitmap \<Rightarrow> bitmap" where
  "clear_bit nr a = a(nr div 64 := a (nr div 64) AND NOT (push_bit (nr mod 64) 1))"

definition test_and_set_bit :: "nat \<Rightarrow> bitmap \<Rightarrow> bool \<times> bitmap" where
  "test_and_set_bit nr a = (test_bit nr a, set_bit_at nr a)"

subsection \<open>Searching\<close>

text \<open>The instruction \<^verbatim>\<open>bsfq\<close>: the number of the lowest bit that is set; 64, as \<^verbatim>\<open>cmoveq\<close> makes it, if none is.\<close>

fun bsfq_from :: "u64 \<Rightarrow> nat \<Rightarrow> nat" where
  "bsfq_from w 0 = 64"
| "bsfq_from w (Suc n) = (if bit w (63 - n) then 63 - n else bsfq_from w n)"

definition bsfq :: "u64 \<Rightarrow> nat" where
  "bsfq w = bsfq_from w 64"

text \<open>The number of words that cover \<open>sz\<close> bits from word \<open>p\<close> on; \<open>sz\<close> may fall short of it by part of a word.\<close>

definition words_left :: "nat \<Rightarrow> nat \<Rightarrow> nat" where
  "words_left sz p = (sz + 63) div 64 - p"

fun find_first_zero_bit :: "bitmap \<Rightarrow> nat \<Rightarrow> nat \<Rightarrow> nat" where
  "find_first_zero_bit a p 0 = 0"
| "find_first_zero_bit a p (Suc n) =
     (if a p = -1 then 64 + find_first_zero_bit a (Suc p) n else bsfq (a p XOR -1))"

fun find_first_bit :: "bitmap \<Rightarrow> nat \<Rightarrow> nat \<Rightarrow> nat" where
  "find_first_bit a p 0 = 0"
| "find_first_bit a p (Suc n) =
     (if a p = 0 then 64 + find_first_bit a (Suc p) n else bsfq (a p))"

definition find_next_zero_bit :: "bitmap \<Rightarrow> nat \<Rightarrow> nat \<Rightarrow> nat" where
  "find_next_zero_bit a sz offset =
     (let p = offset div 64; b = offset mod 64
      in if b = 0 then offset + find_first_zero_bit a p (words_left sz p)
         else let s = bsfq (NOT (drop_bit b (a p)))
              in if s < 64 - b then s + offset
                 else offset + (64 - b) + find_first_zero_bit a (p + 1) (words_left sz (p + 1)))"

definition find_next_bit :: "bitmap \<Rightarrow> nat \<Rightarrow> nat \<Rightarrow> nat" where
  "find_next_bit a sz offset =
     (let p = offset div 64; b = offset mod 64
      in if b = 0 then offset + find_first_bit a p (words_left sz p)
         else let s = bsfq (drop_bit b (a p))
              in if s < 64 - b then s + offset
                 else offset + (64 - b) + find_first_bit a (p + 1) (words_left sz (p + 1)))"

subsection \<open>What they find\<close>

lemma bit_of_one: "j < 64 \<Longrightarrow> bit (push_bit k 1 :: u64) j \<longleftrightarrow> j = k"
  by (auto simp: bit_push_bit_iff bit_1_iff simp del: push_bit_of_1)

lemma test_bit_set [simp]: "test_bit i (set_bit_at n a) \<longleftrightarrow> i = n \<or> test_bit i a"
proof (cases "i div 64 = n div 64")
  case True
  then have "i mod 64 = n mod 64 \<longleftrightarrow> i = n" by (metis mult_div_mod_eq)
  moreover have "bit (push_bit (n mod 64) 1 :: u64) (i mod 64) \<longleftrightarrow> i mod 64 = n mod 64"
    by (rule bit_of_one) simp
  ultimately show ?thesis using True by (auto simp: test_bit_def set_bit_at_def bit_or_iff)
qed (auto simp: test_bit_def set_bit_at_def)

lemma test_bit_clear [simp]: "test_bit i (clear_bit n a) \<longleftrightarrow> i \<noteq> n \<and> test_bit i a"
proof (cases "i div 64 = n div 64")
  case True
  then have "i mod 64 = n mod 64 \<longleftrightarrow> i = n" by (metis mult_div_mod_eq)
  moreover have "bit (push_bit (n mod 64) 1 :: u64) (i mod 64) \<longleftrightarrow> i mod 64 = n mod 64"
    by (rule bit_of_one) simp
  ultimately show ?thesis using True by (auto simp: test_bit_def clear_bit_def bit_and_iff bit_not_iff)
qed (auto simp: test_bit_def clear_bit_def)

lemma test_bit_zero [simp]: "\<not> test_bit i (\<lambda>_. 0)"
  by (simp add: test_bit_def)

text \<open>A search result: nothing before it, and it is a hit unless the end was reached.\<close>

definition first_hit :: "(nat \<Rightarrow> bool) \<Rightarrow> nat \<Rightarrow> nat \<Rightarrow> nat \<Rightarrow> bool" where
  "first_hit P lo hi r \<longleftrightarrow> lo \<le> r \<and> r \<le> hi \<and> (\<forall>i\<in>{lo..<r}. \<not> P i) \<and> (r < hi \<longrightarrow> P r)"

lemma first_hit_unique: "first_hit P lo hi r \<Longrightarrow> first_hit P lo hi r' \<Longrightarrow> r = r'"
  by (rule linorder_cases[of r r']) (auto simp: first_hit_def)

lemma first_hit_skip:
  "\<forall>i\<in>{lo..<mid}. \<not> P i \<Longrightarrow> lo \<le> mid \<Longrightarrow> first_hit P mid hi r \<Longrightarrow> first_hit P lo hi r"
  by (auto simp: first_hit_def)

lemma bsfq_from_hit: "n \<le> 64 \<Longrightarrow> first_hit (bit w) (64 - n) 64 (bsfq_from w n)"
proof (induction n)
  case (Suc n)
  show ?case
  proof (cases "bit w (63 - n)")
    case True then show ?thesis by (simp add: first_hit_def)
  next
    case False
    have "first_hit (bit w) (64 - n) 64 (bsfq_from w n)" using Suc by simp
    then have "first_hit (bit w) (63 - n) 64 (bsfq_from w n)"
      by (rule first_hit_skip[rotated 2]) (use False Suc.prems in \<open>auto simp: not_less_eq_eq less_Suc_eq_le dest!: le_antisym\<close>)
    then show ?thesis using False by simp
  qed
qed (simp add: first_hit_def)

lemma bsfq_hit: "first_hit (bit w) 0 64 (bsfq w)"
  using bsfq_from_hit[of 64 w] by (simp add: bsfq_def)

lemma word_hit:
  assumes "\<And>i. i < 64 \<Longrightarrow> P (64 * p + i) \<longleftrightarrow> bit w i"
  shows "w = 0 \<Longrightarrow> \<forall>i\<in>{64 * p..<64 * Suc p}. \<not> P i"
    "w \<noteq> 0 \<Longrightarrow> first_hit P (64 * p) (64 * (p + Suc n)) (64 * p + bsfq w)"
proof -
  have at: "P i \<longleftrightarrow> bit w (i - 64 * p)" if "64 * p \<le> i" "i < 64 * Suc p" for i
    using assms[of "i - 64 * p"] that by simp
  then show "w = 0 \<Longrightarrow> \<forall>i\<in>{64 * p..<64 * Suc p}. \<not> P i" by auto
  assume "w \<noteq> 0"
  then obtain k where "bit w k" by (metis bit_eqI bit_0_eq bot_apply bot_bool_def)
  then have k: "bit w k" "k < 64" using bit_imp_le_length[of w k] by auto
  have h: "bsfq w \<le> 64" "\<forall>i<bsfq w. \<not> bit w i" "bsfq w < 64 \<longrightarrow> bit w (bsfq w)"
    using bsfq_hit[of w] by (auto simp: first_hit_def)
  then have b: "bsfq w < 64" using k by (metis le_neq_implies_less)
  show "first_hit P (64 * p) (64 * (p + Suc n)) (64 * p + bsfq w)"
    unfolding first_hit_def using b h at by auto
qed

lemma find_first_bit_hit:
  "first_hit (\<lambda>i. test_bit i a) (64 * p) (64 * (p + n)) (64 * p + find_first_bit a p n)"
proof (induction n arbitrary: p)
  case (Suc n)
  have w: "\<And>i. i < 64 \<Longrightarrow> test_bit (64 * p + i) a \<longleftrightarrow> bit (a p) i" by (simp add: test_bit_def)
  show ?case
  proof (cases "a p = 0")
    case True
    then show ?thesis using first_hit_skip[OF word_hit(1)[of "\<lambda>i. test_bit i a", OF w True] _ Suc.IH[of "Suc p"]]
      by (simp add: algebra_simps)
  next
    case False
    then show ?thesis using word_hit(2)[of "\<lambda>i. test_bit i a", OF w False, of n] by simp
  qed
qed (simp add: first_hit_def)

lemma find_first_zero_bit_hit:
  "first_hit (\<lambda>i. \<not> test_bit i a) (64 * p) (64 * (p + n)) (64 * p + find_first_zero_bit a p n)"
proof (induction n arbitrary: p)
  case (Suc n)
  have w: "\<And>i. i < 64 \<Longrightarrow> \<not> test_bit (64 * p + i) a \<longleftrightarrow> bit (a p XOR -1) i"
    by (simp add: test_bit_def bit_not_iff)
  have z: "a p XOR -1 = 0 \<longleftrightarrow> a p = -1" by simp (metis bit.double_compl bit.compl_zero)
  show ?case
  proof (cases "a p = -1")
    case True
    then show ?thesis
      using first_hit_skip[OF word_hit(1)[of "\<lambda>i. \<not> test_bit i a", OF w, unfolded z, OF _ True] _ Suc.IH[of "Suc p"]]
      by (simp add: algebra_simps)
  next
    case False
    then show ?thesis using word_hit(2)[of "\<lambda>i. \<not> test_bit i a", OF w, unfolded z, OF _ False, of n] by simp
  qed
qed (simp add: first_hit_def)

lemma words_left_end: "p \<le> (sz + 63) div 64 \<Longrightarrow> 64 * (p + words_left sz p) = 64 * ((sz + 63) div 64)"
  by (simp add: words_left_def)

text \<open>A search that starts in the middle of a word looks at the rest of that word first.\<close>

lemma rest_of_word:
  assumes v: "\<And>i. i < 64 - b \<Longrightarrow> bit v i \<longleftrightarrow> P (off + i)" and b: "off mod 64 = b" "b \<noteq> 0" "off < hi" "64 dvd hi"
    and rest: "first_hit P (off + (64 - b)) hi (off + (64 - b) + r)"
  shows "first_hit P off hi (if bsfq v < 64 - b then bsfq v + off else off + (64 - b) + r)"
proof (cases "bsfq v < 64 - b")
  case True
  have "off + (64 - b) \<le> hi" using rest by (simp add: first_hit_def)
  moreover have "\<forall>i<bsfq v. \<not> bit v i" "bit v (bsfq v)" using True bsfq_hit[of v] by (auto simp: first_hit_def)
  then have "\<forall>i<bsfq v. \<not> P (off + i)" "P (off + bsfq v)" using v True by auto
  moreover have "\<not> P i" if "off \<le> i" "i < bsfq v + off" for i
    using calculation(2) that by (metis add.commute le_add_diff_inverse less_diff_conv2)
  ultimately show ?thesis using True by (auto simp: first_hit_def add.commute)
next
  case False
  then have "\<not> bit v i" if "i < 64 - b" for i using that bsfq_hit[of v] by (auto simp: first_hit_def)
  then have "\<not> P i" if "off \<le> i" "i < off + (64 - b)" for i
    using v[of "i - off"] that by (metis add.commute le_add_diff_inverse less_diff_conv2)
  then show ?thesis using False first_hit_skip[OF _ _ rest] by auto
qed

lemma find_next_bit_hit:
  assumes "off < sz" "64 dvd sz"
  shows "first_hit (\<lambda>i. test_bit i a) off sz (find_next_bit a sz off)"
    "first_hit (\<lambda>i. \<not> test_bit i a) off sz (find_next_zero_bit a sz off)"
proof -
  let ?p = "off div 64" and ?b = "off mod 64"
  obtain n where n: "sz = 64 * n" using assms(2) by auto
  have pn: "?p < n" using assms(1) n by (simp add: less_mult_imp_div_less mult.commute)
  have e: "64 * (q + words_left sz q) = sz" if "q \<le> n" for q using words_left_end[of q sz] that n by simp
  have start: "64 * ?p = off" if "?b = 0" using that by (metis mult_div_mod_eq add_0_right)
  have next_word: "64 * (?p + 1) = off + (64 - ?b)" if "?b \<noteq> 0"
    by presburger
  have at: "bit (drop_bit ?b (a ?p)) i \<longleftrightarrow> test_bit (off + i) a" if "i < 64 - ?b" for i
  proof -
    have "?b + i < 64" using that by simp
    moreover have "off + i = (?b + i) + 64 * ?p" by (metis add.assoc add.commute mult_div_mod_eq)
    ultimately have "(off + i) div 64 = ?p" "(off + i) mod 64 = ?b + i"
      by (simp_all only: div_mult_self2 mod_mult_self2 div_less mod_less zero_neq_numeral not_False_eq_True add_0_right)
    then show ?thesis by (simp add: test_bit_def bit_drop_bit_eq)
  qed
  show "first_hit (\<lambda>i. test_bit i a) off sz (find_next_bit a sz off)"
  proof (cases "?b = 0")
    case True
    then show ?thesis using find_first_bit_hit[of a ?p "words_left sz ?p"] e[of ?p] pn start
      by (simp add: find_next_bit_def Let_def)
  next
    case False
    have "first_hit (\<lambda>i. test_bit i a) (off + (64 - ?b)) sz (off + (64 - ?b) + find_first_bit a (?p + 1) (words_left sz (?p + 1)))"
      using find_first_bit_hit[of a "?p + 1" "words_left sz (?p + 1)"] e[of "?p + 1"] pn next_word[OF False] by simp
    from rest_of_word[OF at refl False assms this] False show ?thesis by (simp add: find_next_bit_def Let_def)
  qed
  show "first_hit (\<lambda>i. \<not> test_bit i a) off sz (find_next_zero_bit a sz off)"
  proof (cases "?b = 0")
    case True
    then show ?thesis using find_first_zero_bit_hit[of a ?p "words_left sz ?p"] e[of ?p] pn start
      by (simp add: find_next_zero_bit_def Let_def)
  next
    case False
    have "first_hit (\<lambda>i. \<not> test_bit i a) (off + (64 - ?b)) sz (off + (64 - ?b) + find_first_zero_bit a (?p + 1) (words_left sz (?p + 1)))"
      using find_first_zero_bit_hit[of a "?p + 1" "words_left sz (?p + 1)"] e[of "?p + 1"] pn next_word[OF False] by simp
    moreover have "bit (NOT (drop_bit ?b (a ?p))) i \<longleftrightarrow> \<not> test_bit (off + i) a" if "i < 64 - ?b" for i
      using at[OF that] less_le_trans[OF that diff_le_self] by (simp add: bit_not_iff)
    ultimately show ?thesis using rest_of_word[OF _ refl False assms, of "NOT (drop_bit ?b (a ?p))" "\<lambda>i. \<not> test_bit i a"] False
      by (simp add: find_next_zero_bit_def Let_def)
  qed
qed

end
