(* ===== verification/Pidmap.thy ===== *)
theory Pidmap
  imports Bitops
begin

text \<open>
  The allocation of process numbers (\<^verbatim>\<open>kernel/pid.c\<close>, \<^verbatim>\<open>include/linux/pid_namespace.h\<close>): bitmaps of one page each, which
  are allocated when they are first needed. \<open>alloc_pidmap\<close> may sleep when it allocates a page; what other
  tasks have made of the namespace by then is an argument. It is shown that the number it returns is the
  first free one after the last number handed out, in cyclic order, and exactly when it fails.

  The array of maps has \<open>PIDMAP_ENTRIES\<close> elements; as a function it has no end, but no number below a
  \<open>pid_max\<close> that \<^verbatim>\<open>sysctl\<close> allows (at most \<open>pid_max_max\<close>) leads past that many (\<open>pid_in_maps\<close>).
\<close>

subsection \<open>State\<close>

definition RESERVED_PIDS :: nat where "RESERVED_PIDS = 300"

definition BITS_PER_PAGE :: nat where "BITS_PER_PAGE = 4096 * 8"

definition PIDMAP_ENTRIES :: nat where "PIDMAP_ENTRIES = (4 * 1024 * 1024 + 8 * 4096 - 1) div 4096 div 8"

definition pid_max_min :: nat where "pid_max_min = RESERVED_PIDS + 1"

definition pid_max_max :: nat where "pid_max_max = 4 * 1024 * 1024"

record pidmap =
  nr_free :: int
  page :: "bitmap option"

record pid_namespace =
  pidmaps :: "nat \<Rightarrow> pidmap"
  last_pid :: nat

definition init_pid_ns :: pid_namespace where
  "init_pid_ns = \<lparr>pidmaps = (\<lambda>_. \<lparr>nr_free = int BITS_PER_PAGE, page = None\<rparr>), last_pid = 0\<rparr>"

definition mk_pid :: "nat \<Rightarrow> nat \<Rightarrow> nat" where
  "mk_pid m off = m * BITS_PER_PAGE + off"

definition find_next_offset :: "bitmap \<Rightarrow> nat \<Rightarrow> nat" where
  "find_next_offset a off = find_next_zero_bit a BITS_PER_PAGE off"

definition upd_map :: "nat \<Rightarrow> (pidmap \<Rightarrow> pidmap) \<Rightarrow> pid_namespace \<Rightarrow> pid_namespace" where
  "upd_map m f ns = ns\<lparr>pidmaps := (pidmaps ns)(m := f (pidmaps ns m))\<rparr>"

text \<open>\<^verbatim>\<open>pidmap_init\<close> reserves the number 0.\<close>

definition pidmap_init :: "pid_namespace \<Rightarrow> pid_namespace" where
  "pidmap_init ns = upd_map 0 (\<lambda>p. \<lparr>nr_free = nr_free p - 1, page = Some (set_bit_at 0 (\<lambda>_. 0))\<rparr>) ns"

subsection \<open>Operations\<close>

text \<open>\<open>None\<close> is an access through the null pointer of a page that was never allocated.\<close>

definition free_pidmap :: "nat \<Rightarrow> pid_namespace \<Rightarrow> pid_namespace option" where
  "free_pidmap pid ns =
     (let m = pid div BITS_PER_PAGE; offset = pid mod BITS_PER_PAGE
      in case page (pidmaps ns m) of
           None \<Rightarrow> None
         | Some a \<Rightarrow> Some (upd_map m (\<lambda>p. \<lparr>nr_free = nr_free p + 1, page = Some (clear_bit offset a)\<rparr>) ns))"

text \<open>The inner loop of \<^verbatim>\<open>alloc_pidmap\<close> on the page \<open>a\<close> of map \<open>m\<close>; \<open>again\<close> is the last part of its condition. The
  result is the number taken, if any, and the page.\<close>

lemma next_zero_after:
  assumes "test_bit off a" "find_next_offset a off < BITS_PER_PAGE"
  shows "off < find_next_offset a off" "off < BITS_PER_PAGE"
proof -
  show lt: "off < BITS_PER_PAGE"
  proof (rule ccontr)
    assume ge: "\<not> ?thesis"
    then have "off \<le> find_next_offset a off" by (auto simp: find_next_offset_def find_next_zero_bit_def Let_def)
    then show False using assms(2) ge by simp
  qed
  have "first_hit (\<lambda>i. \<not> test_bit i a) off BITS_PER_PAGE (find_next_offset a off)"
    unfolding find_next_offset_def by (rule find_next_bit_hit(2)[OF lt]) (simp add: BITS_PER_PAGE_def)
  then show "off < find_next_offset a off" using assms by (cases "find_next_offset a off = off") (auto simp: first_hit_def)
qed

lemma scan_progress:
  "find_next_offset (set_bit_at off a) off < BITS_PER_PAGE \<Longrightarrow>
   BITS_PER_PAGE - find_next_offset (set_bit_at off a) off < BITS_PER_PAGE - off"
  using next_zero_after[of off "set_bit_at off a"] by simp

function scan_page :: "nat \<Rightarrow> nat \<Rightarrow> (nat \<Rightarrow> bool) \<Rightarrow> nat \<Rightarrow> nat \<Rightarrow> bitmap \<Rightarrow> nat option \<times> bitmap" where
  "scan_page pid_max m again offset pid a =
     (let (old, a') = test_and_set_bit offset a
      in if \<not> old then (Some pid, a')
         else let offset' = find_next_offset a' offset; pid' = mk_pid m offset'
              in if offset' < BITS_PER_PAGE \<and> pid' < pid_max \<and> again pid'
                 then scan_page pid_max m again offset' pid' a' else (None, a'))"
  by pat_completeness auto
termination
  by (relation "measure (\<lambda>(pid_max, m, again, offset, pid, a). BITS_PER_PAGE - offset)")
    (auto simp: test_and_set_bit_def scan_progress)

declare scan_page.simps [simp del]

text \<open>The page of map \<open>m\<close>, allocated if it is not there. \<open>kz\<close> is the call of \<^verbatim>\<open>kzalloc\<close>: whether it got a page,
  and the namespace after it, in which others may have run.\<close>

definition need_page :: "(pid_namespace \<Rightarrow> bool \<times> pid_namespace) \<Rightarrow> nat \<Rightarrow> pid_namespace \<Rightarrow> pid_namespace" where
  "need_page kz m ns =
     (if page (pidmaps ns m) \<noteq> None then ns
      else let (got, ns) = kz ns
           in if page (pidmaps ns m) \<noteq> None \<or> \<not> got then ns
              else upd_map m (\<lambda>p. p\<lparr>page := Some (\<lambda>_. 0)\<rparr>) ns)"

text \<open>One round of the outer loop on map \<open>m\<close>: either it returns, or it goes on with a namespace.\<close>

datatype scan_round = Return int pid_namespace | Next pid_namespace

definition alloc_round ::
  "nat \<Rightarrow> (pid_namespace \<Rightarrow> bool \<times> pid_namespace) \<Rightarrow> (nat \<Rightarrow> bool) \<Rightarrow> nat \<Rightarrow> nat \<Rightarrow> nat \<Rightarrow> pid_namespace \<Rightarrow> scan_round"
where
  "alloc_round pid_max kz again m offset pid ns =
     (let ns = need_page kz m ns
      in case page (pidmaps ns m) of
           None \<Rightarrow> Return (-1) ns
         | Some a \<Rightarrow>
             if nr_free (pidmaps ns m) = 0 then Next ns
             else (case scan_page pid_max m again offset pid a of
                 (Some pid, a) \<Rightarrow>
                   Return (int pid) ((upd_map m (\<lambda>p. \<lparr>nr_free = nr_free p - 1, page = Some a\<rparr>) ns)\<lparr>last_pid := pid\<rparr>)
               | (None, a) \<Rightarrow> Next (upd_map m (\<lambda>p. p\<lparr>page := Some a\<rparr>) ns)))"

text \<open>The outer loop, with the number of rounds left.\<close>

fun alloc_rounds ::
  "nat \<Rightarrow> (nat \<Rightarrow> pid_namespace \<Rightarrow> bool \<times> pid_namespace) \<Rightarrow> nat \<Rightarrow> nat \<Rightarrow> nat \<Rightarrow> nat \<Rightarrow> nat \<Rightarrow> pid_namespace \<Rightarrow> int \<times> pid_namespace"
where
  "alloc_rounds pid_max kz lp 0 m offset pid ns = (-1, ns)"
| "alloc_rounds pid_max kz lp (Suc n) m offset pid ns =
     (case alloc_round pid_max (kz n) (\<lambda>pid. n \<noteq> 0 \<or> pid < lp \<or> (lp + 1) mod BITS_PER_PAGE = 0) m offset pid ns of
        Return r ns \<Rightarrow> (r, ns)
      | Next ns \<Rightarrow>
          if m < (pid_max - 1) div BITS_PER_PAGE then alloc_rounds pid_max kz lp n (m + 1) 0 (mk_pid (m + 1) 0) ns
          else if lp = RESERVED_PIDS then (-1, ns)
          else alloc_rounds pid_max kz lp n 0 RESERVED_PIDS (mk_pid 0 RESERVED_PIDS) ns)"

definition alloc_pidmap ::
  "nat \<Rightarrow> (nat \<Rightarrow> pid_namespace \<Rightarrow> bool \<times> pid_namespace) \<Rightarrow> pid_namespace \<Rightarrow> int \<times> pid_namespace"
where
  "alloc_pidmap pid_max kz ns =
     (let lp = last_pid ns;
          pid = (if lp + 1 \<ge> pid_max then RESERVED_PIDS else lp + 1);
          offset = pid mod BITS_PER_PAGE;
          max_scan = (pid_max + BITS_PER_PAGE - 1) div BITS_PER_PAGE - (if offset = 0 then 1 else 0)
      in alloc_rounds pid_max kz lp (max_scan + 1) (pid div BITS_PER_PAGE) offset pid ns)"

fun next_in_maps :: "nat \<Rightarrow> nat \<Rightarrow> nat \<Rightarrow> pid_namespace \<Rightarrow> int" where
  "next_in_maps 0 m offset ns = -1"
| "next_in_maps (Suc n) m offset ns = (case page (pidmaps ns m) of
     None \<Rightarrow> next_in_maps n (m + 1) 0 ns
   | Some a \<Rightarrow> let offset = find_next_bit a BITS_PER_PAGE offset
              in if offset < BITS_PER_PAGE then int (mk_pid m offset) else next_in_maps n (m + 1) 0 ns)"

definition next_pidmap :: "nat \<Rightarrow> pid_namespace \<Rightarrow> int" where
  "next_pidmap lp ns =
     (let m = (lp + 1) div BITS_PER_PAGE
      in next_in_maps (PIDMAP_ENTRIES - m) m ((lp + 1) mod BITS_PER_PAGE) ns)"

subsection \<open>Numbers in use\<close>

definition used :: "pid_namespace \<Rightarrow> nat \<Rightarrow> bool" where
  "used ns p \<longleftrightarrow> (case page (pidmaps ns (p div BITS_PER_PAGE)) of None \<Rightarrow> False | Some a \<Rightarrow> test_bit (p mod BITS_PER_PAGE) a)"

definition map_ok :: "pidmap \<Rightarrow> bool" where
  "map_ok q \<longleftrightarrow> nr_free q = int BITS_PER_PAGE -
     (case page q of None \<Rightarrow> 0 | Some a \<Rightarrow> int (card {i. i < BITS_PER_PAGE \<and> test_bit i a}))"

text \<open>The counters agree with the bitmaps, and 0 is never free.\<close>

definition ns_ok :: "pid_namespace \<Rightarrow> bool" where
  "ns_ok ns \<longleftrightarrow> (\<forall>m. map_ok (pidmaps ns m)) \<and> used ns 0"

definition take_pid :: "nat \<Rightarrow> pid_namespace \<Rightarrow> pid_namespace" where
  "take_pid p ns = (upd_map (p div BITS_PER_PAGE) (\<lambda>q. \<lparr>nr_free = nr_free q - 1,
     page = Some (set_bit_at (p mod BITS_PER_PAGE) (the (page q)))\<rparr>) ns)\<lparr>last_pid := p\<rparr>"

lemma B_pos [simp]: "0 < BITS_PER_PAGE" "BITS_PER_PAGE \<noteq> 0"
  by (simp_all add: BITS_PER_PAGE_def)

lemma reserved_page: "RESERVED_PIDS < BITS_PER_PAGE" "RESERVED_PIDS div BITS_PER_PAGE = 0" "RESERVED_PIDS mod BITS_PER_PAGE = RESERVED_PIDS"
  by (simp_all add: RESERVED_PIDS_def BITS_PER_PAGE_def)

lemma mk_pid_div [simp]: "off < BITS_PER_PAGE \<Longrightarrow> mk_pid m off div BITS_PER_PAGE = m"
  "off < BITS_PER_PAGE \<Longrightarrow> mk_pid m off mod BITS_PER_PAGE = off"
  by (simp_all add: mk_pid_def)

lemma mk_pid_split: "mk_pid (p div BITS_PER_PAGE) (p mod BITS_PER_PAGE) = p"
  by (simp add: mk_pid_def)

lemma pid_eq_iff: "p = q \<longleftrightarrow> p div BITS_PER_PAGE = q div BITS_PER_PAGE \<and> p mod BITS_PER_PAGE = q mod BITS_PER_PAGE"
  by (metis mk_pid_split)

lemma same_page:
  assumes "p div BITS_PER_PAGE = q div BITS_PER_PAGE"
  shows "p \<le> q \<longleftrightarrow> p mod BITS_PER_PAGE \<le> q mod BITS_PER_PAGE" "p < q \<longleftrightarrow> p mod BITS_PER_PAGE < q mod BITS_PER_PAGE"
  by (metis assms mk_pid_split mk_pid_def nat_add_left_cancel_le, metis assms mk_pid_split mk_pid_def nat_add_left_cancel_less)

lemma set_bit_same: "test_bit n a \<Longrightarrow> set_bit_at n a = a"
proof -
  assume n: "test_bit n a"
  have "a (n div 64) OR push_bit (n mod 64) 1 = a (n div 64)"
  proof (rule bit_eqI)
    fix i assume "possible_bit TYPE(64 word) i"
    then have i: "i < 64" by (simp add: possible_bit_def)
    show "bit (a (n div 64) OR push_bit (n mod 64) 1) i \<longleftrightarrow> bit (a (n div 64)) i"
      using n bit_of_one[OF i, of "n mod 64"] unfolding bit_or_iff test_bit_def by auto
  qed
  then show ?thesis by (simp add: set_bit_at_def fun_upd_idem)
qed

lemma used_take [simp]:
  assumes "page (pidmaps ns (p div BITS_PER_PAGE)) \<noteq> None"
  shows "used (take_pid p ns) q \<longleftrightarrow> q = p \<or> used ns q"
  using assms by (auto simp: used_def take_pid_def upd_map_def pid_eq_iff[of q p] split: option.splits)

lemma card_set_bit:
  assumes "\<not> test_bit i a" "i < BITS_PER_PAGE"
  shows "card {j. j < BITS_PER_PAGE \<and> test_bit j (set_bit_at i a)} = Suc (card {j. j < BITS_PER_PAGE \<and> test_bit j a})"
proof -
  have "{j. j < BITS_PER_PAGE \<and> test_bit j (set_bit_at i a)} = insert i {j. j < BITS_PER_PAGE \<and> test_bit j a}"
    using assms(2) by auto
  then show ?thesis using assms(1) by simp
qed

lemma take_ok:
  assumes ok: "ns_ok ns" and pg: "page (pidmaps ns (p div BITS_PER_PAGE)) \<noteq> None" and free: "\<not> used ns p"
  shows "ns_ok (take_pid p ns)"
proof -
  obtain a where a: "page (pidmaps ns (p div BITS_PER_PAGE)) = Some a" using pg by auto
  have f: "\<not> test_bit (p mod BITS_PER_PAGE) a" using free a by (simp add: used_def)
  have "map_ok (pidmaps (take_pid p ns) m)" for m
  proof (cases "m = p div BITS_PER_PAGE")
    case True
    have "map_ok (pidmaps ns (p div BITS_PER_PAGE))" using ok by (simp add: ns_ok_def)
    then show ?thesis using True a card_set_bit[OF f] by (simp add: map_ok_def take_pid_def upd_map_def)
  next
    case False
    then show ?thesis using ok by (simp add: ns_ok_def take_pid_def upd_map_def)
  qed
  then show ?thesis using ok used_take[OF pg] by (simp add: ns_ok_def)
qed

subsection \<open>One page\<close>

lemma next_offset_hit: "off < BITS_PER_PAGE \<Longrightarrow> first_hit (\<lambda>i. \<not> test_bit i a) off BITS_PER_PAGE (find_next_offset a off)"
  unfolding find_next_offset_def by (rule find_next_bit_hit) (simp_all add: BITS_PER_PAGE_def)

lemma scan_page_eq:
  assumes "off < BITS_PER_PAGE"
  shows "scan_page pid_max m again off pid a =
    (if \<not> test_bit off a then (Some pid, set_bit_at off a)
     else let z = find_next_offset a off
          in if z < BITS_PER_PAGE \<and> mk_pid m z < pid_max \<and> again (mk_pid m z) then (Some (mk_pid m z), set_bit_at z a) else (None, a))"
proof (cases "test_bit off a")
  case True
  have "\<not> test_bit (find_next_offset a off) a" if "find_next_offset a off < BITS_PER_PAGE"
    using next_offset_hit[OF assms, of a] that by (simp add: first_hit_def)
  then show ?thesis using True by (simp add: scan_page.simps[of pid_max m again off] scan_page.simps[of pid_max m again "find_next_offset a off"]
        test_and_set_bit_def set_bit_same Let_def)
qed (simp add: scan_page.simps[of pid_max m again off] test_and_set_bit_def)

lemma page_full:
  assumes "map_ok q" "page q = Some a" "nr_free q = 0" "i < BITS_PER_PAGE"
  shows "test_bit i a"
proof -
  have "card {j. j < BITS_PER_PAGE \<and> test_bit j a} = card {..<BITS_PER_PAGE}" using assms by (simp add: map_ok_def)
  then have "{j. j < BITS_PER_PAGE \<and> test_bit j a} = {..<BITS_PER_PAGE}" by (intro card_subset_eq) auto
  then show ?thesis using assms(4) by blast
qed

text \<open>What a round does, in the namespace it finds after \<open>need_page\<close>.\<close>

definition round_takes :: "nat \<Rightarrow> (nat \<Rightarrow> bool) \<Rightarrow> nat \<Rightarrow> pid_namespace \<Rightarrow> nat \<Rightarrow> bool" where
  "round_takes pid_max again pid ns p \<longleftrightarrow> p div BITS_PER_PAGE = pid div BITS_PER_PAGE \<and> pid \<le> p \<and> \<not> used ns p \<and>
     (\<forall>q\<in>{pid..<p}. used ns q) \<and> (p = pid \<or> p < pid_max \<and> again p)"

lemma alloc_round_cases:
  assumes ok: "ns_ok (need_page kz (pid div BITS_PER_PAGE) ns)" (is "ns_ok ?ns")
    and mono: "\<And>p q. q \<le> p \<Longrightarrow> again p \<Longrightarrow> again q"
  obtains (fail) "page (pidmaps ?ns (pid div BITS_PER_PAGE)) = None"
      "alloc_round pid_max kz again (pid div BITS_PER_PAGE) (pid mod BITS_PER_PAGE) pid ns = Return (-1) ?ns"
  | (take) p where "page (pidmaps ?ns (pid div BITS_PER_PAGE)) \<noteq> None" "round_takes pid_max again pid ?ns p"
      "alloc_round pid_max kz again (pid div BITS_PER_PAGE) (pid mod BITS_PER_PAGE) pid ns = Return (int p) (take_pid p ?ns)"
  | (go) "alloc_round pid_max kz again (pid div BITS_PER_PAGE) (pid mod BITS_PER_PAGE) pid ns = Next ?ns"
      "\<And>p. p div BITS_PER_PAGE = pid div BITS_PER_PAGE \<Longrightarrow> pid \<le> p \<Longrightarrow> p = pid \<or> p < pid_max \<and> again p \<Longrightarrow> used ?ns p"
proof -
  let ?m = "pid div BITS_PER_PAGE" and ?o = "pid mod BITS_PER_PAGE"
  have o: "?o < BITS_PER_PAGE" by simp
  note def = alloc_round_def[of pid_max kz again ?m ?o pid ns]
  show ?thesis
  proof (cases "page (pidmaps ?ns ?m)")
    case None
    then show ?thesis by (intro fail) (simp_all add: def)
  next
    case (Some a)
    have us: "used ?ns p \<longleftrightarrow> test_bit (p mod BITS_PER_PAGE) a" if "p div BITS_PER_PAGE = ?m" for p
      using Some that by (simp add: used_def)
    have mok: "map_ok (pidmaps ?ns ?m)" using ok by (simp add: ns_ok_def)
    consider (full) "nr_free (pidmaps ?ns ?m) = 0" | (here) "nr_free (pidmaps ?ns ?m) \<noteq> 0" "\<not> test_bit ?o a"
      | (later) "nr_free (pidmaps ?ns ?m) \<noteq> 0" "test_bit ?o a" by blast
    then show ?thesis
    proof cases
      case full
      then show ?thesis using page_full[OF mok Some full] us by (intro go) (simp_all add: def Some)
    next
      case here
      show ?thesis
      proof (rule take[of pid])
        show "round_takes pid_max again pid ?ns pid" using here us[of pid] by (simp add: round_takes_def)
      qed (simp_all add: def Some here scan_page_eq[OF o] take_pid_def upd_map_def Let_def)
    next
      case later
      let ?z = "find_next_offset a ?o"
      have z: "?o \<le> ?z" "?z \<le> BITS_PER_PAGE" "\<forall>i\<in>{?o..<?z}. test_bit i a" "?z < BITS_PER_PAGE \<longrightarrow> \<not> test_bit ?z a"
        using next_offset_hit[OF o, of a] by (auto simp: first_hit_def)
      have below: "used ?ns q" if "q div BITS_PER_PAGE = ?m" "pid \<le> q" "q mod BITS_PER_PAGE < ?z" for q
      proof -
        have "?o \<le> q mod BITS_PER_PAGE" using that(1,2) same_page(1)[of pid q] by simp
        then show ?thesis using z(3) that us by simp
      qed
      show ?thesis
      proof (cases "?z < BITS_PER_PAGE \<and> mk_pid ?m ?z < pid_max \<and> again (mk_pid ?m ?z)")
        case True
        show ?thesis
        proof (rule take[of "mk_pid ?m ?z"])
          have "used ?ns q" if "pid \<le> q" "q < mk_pid ?m ?z" for q
          proof (rule below)
            have "?m \<le> q div BITS_PER_PAGE" "q div BITS_PER_PAGE \<le> ?m"
              using that div_le_mono[of pid q BITS_PER_PAGE] div_le_mono[of q "mk_pid ?m ?z" BITS_PER_PAGE] True by auto
            then show "q div BITS_PER_PAGE = ?m" by simp
            then show "q mod BITS_PER_PAGE < ?z" using that(2) same_page(2)[of q "mk_pid ?m ?z"] True by simp
          qed (use that in simp)
          moreover have "pid \<le> mk_pid ?m ?z" using z(1) same_page(1)[of pid "mk_pid ?m ?z"] True by simp
          ultimately show "round_takes pid_max again pid ?ns (mk_pid ?m ?z)"
            using True z(4) us[of "mk_pid ?m ?z"] by (simp add: round_takes_def)
        qed (use True in \<open>simp_all add: def Some later scan_page_eq[OF o] take_pid_def upd_map_def Let_def\<close>)
      next
        case False
        show ?thesis
        proof (rule go)
          have "upd_map ?m (\<lambda>p. p\<lparr>page := Some a\<rparr>) ?ns = ?ns" using Some by (simp add: upd_map_def fun_upd_idem)
          then show "alloc_round pid_max kz again ?m ?o pid ns = Next ?ns"
            using False later by (simp add: def Some scan_page_eq[OF o] Let_def)
          show "used ?ns p" if p: "p div BITS_PER_PAGE = ?m" "pid \<le> p" "p = pid \<or> p < pid_max \<and> again p" for p
          proof (rule ccontr)
            assume n: "\<not> used ?ns p"
            then have "?z \<le> p mod BITS_PER_PAGE" using below[OF p(1,2)] by (meson not_less)
            moreover from this have zb: "?z < BITS_PER_PAGE" using mod_less_divisor[OF B_pos(1), of p] by linarith
            ultimately have le: "mk_pid ?m ?z \<le> p" "?z < BITS_PER_PAGE"
              using p(1) same_page(1)[of "mk_pid ?m ?z" p] by simp_all
            have "p \<noteq> pid" using n us[of pid] later by auto
            then show False using p(3) le mono[OF le(1)] False by auto
          qed
        qed
      qed
    qed
  qed
qed

subsection \<open>All rounds\<close>

lemma need_page_zero:
  assumes "page (pidmaps ns m) = None"
  shows "used (upd_map m (\<lambda>p. p\<lparr>page := Some (\<lambda>_. 0)\<rparr>) ns) p \<longleftrightarrow> used ns p"
    "ns_ok ns \<Longrightarrow> ns_ok (upd_map m (\<lambda>p. p\<lparr>page := Some (\<lambda>_. 0)\<rparr>) ns)"
proof -
  show u: "used (upd_map m (\<lambda>p. p\<lparr>page := Some (\<lambda>_. 0)\<rparr>) ns) p \<longleftrightarrow> used ns p" for p
    using assms by (simp add: used_def upd_map_def)
  show "ns_ok (upd_map m (\<lambda>p. p\<lparr>page := Some (\<lambda>_. 0)\<rparr>) ns)" if "ns_ok ns"
    using that assms u by (auto simp: ns_ok_def map_ok_def upd_map_def)
qed

definition keeps_ok :: "(pid_namespace \<Rightarrow> bool \<times> pid_namespace) \<Rightarrow> bool" where
  "keeps_ok kz \<longleftrightarrow> (\<forall>ns. ns_ok ns \<longrightarrow> ns_ok (snd (kz ns)))"

lemma need_page_ok: "keeps_ok kz \<Longrightarrow> ns_ok ns \<Longrightarrow> ns_ok (need_page kz m ns)"
  by (auto simp: need_page_def keeps_ok_def need_page_zero(2) split: prod.split)

lemma next_map_below: "m < (pid_max - 1) div BITS_PER_PAGE \<Longrightarrow> mk_pid (m + 1) 0 < pid_max"
proof -
  assume "m < (pid_max - 1) div BITS_PER_PAGE"
  then have "(m + 1) * BITS_PER_PAGE \<le> pid_max - 1" 
    using less_eq_div_iff_mult_less_eq[OF B_pos(1), of "m + 1" "pid_max - 1"] by simp
  moreover have "0 < (m + 1) * BITS_PER_PAGE" by simp
  ultimately show ?thesis unfolding mk_pid_def by linarith
qed

abbreviation last_test :: "nat \<Rightarrow> nat \<Rightarrow> nat \<Rightarrow> bool" where
  "last_test lp n \<equiv> (\<lambda>p. n \<noteq> 0 \<or> p < lp \<or> (lp + 1) mod BITS_PER_PAGE = 0)"

text \<open>What can become of the namespace during the call before a number is taken: others change it while memory
  is allocated, and pages are added.\<close>

inductive meanwhile ::
  "(nat \<Rightarrow> pid_namespace \<Rightarrow> bool \<times> pid_namespace) \<Rightarrow> pid_namespace \<Rightarrow> pid_namespace \<Rightarrow> bool" for kz ns where
  now: "meanwhile kz ns ns"
| others: "meanwhile kz ns x \<Longrightarrow> meanwhile kz ns (snd (kz i x))"
| new_page: "meanwhile kz ns x \<Longrightarrow> page (pidmaps x m) = None \<Longrightarrow>
    meanwhile kz ns (upd_map m (\<lambda>p. p\<lparr>page := Some (\<lambda>_. 0)\<rparr>) x)"

lemma need_page_meanwhile: "meanwhile kz ns x \<Longrightarrow> meanwhile kz ns (need_page (kz i) m x)"
  using meanwhile.others[of kz ns x i] meanwhile.new_page[of kz ns "snd (kz i x)" m]
  by (auto simp: need_page_def split: prod.split)

lemma meanwhile_keeps:
  assumes "meanwhile kz ns x" "\<forall>q\<in>H. used ns q" "\<And>i x. \<forall>q\<in>H. used x q \<Longrightarrow> \<forall>q\<in>H. used (snd (kz i x)) q"
  shows "\<forall>q\<in>H. used x q"
  using assms(1)
proof (induction rule: meanwhile.induct)
  case (new_page x m)
  then show ?case by (auto simp: used_def upd_map_def)
qed (use assms in auto)

lemma alloc_rounds_sound:
  assumes "\<And>i. keeps_ok (kz i)" "RESERVED_PIDS < pid_max"
  shows "ns_ok ns \<Longrightarrow> meanwhile kz ns0 ns \<Longrightarrow> pid < pid_max \<Longrightarrow>
    alloc_rounds pid_max kz lp n (pid div BITS_PER_PAGE) (pid mod BITS_PER_PAGE) pid ns = (r, ns') \<Longrightarrow>
    r = -1 \<and> ns_ok ns' \<and> meanwhile kz ns0 ns' \<or> (\<exists>p ns1. r = int p \<and> p < pid_max \<and> meanwhile kz ns0 ns1 \<and> ns_ok ns1 \<and> \<not> used ns1 p \<and>
      page (pidmaps ns1 (p div BITS_PER_PAGE)) \<noteq> None \<and> ns' = take_pid p ns1)"
proof (induction n arbitrary: pid ns)
  case (Suc n)
  let ?m = "pid div BITS_PER_PAGE" and ?ns = "need_page (kz n) (pid div BITS_PER_PAGE) ns"
  have ok: "ns_ok ?ns" by (rule need_page_ok) (use assms Suc.prems in auto)
  have mw: "meanwhile kz ns0 ?ns" by (rule need_page_meanwhile) (rule Suc.prems(2))
  show ?case
  proof (cases rule: alloc_round_cases[OF ok, of "last_test lp n" pid_max])
    case (3 p)
    have "r = int p" "ns' = take_pid p ?ns" using 3(3) Suc.prems(4) by simp_all
    moreover have "p < pid_max" "\<not> used ?ns p" "p div BITS_PER_PAGE = ?m" using 3(2) Suc.prems(3) by (auto simp: round_takes_def)
    ultimately show ?thesis using 3(1) ok mw by (intro disjI2 exI[of _ p] exI[of _ ?ns]) simp
  next
    case 4
    consider "?m < (pid_max - 1) div BITS_PER_PAGE" | "\<not> ?m < (pid_max - 1) div BITS_PER_PAGE" "lp \<noteq> RESERVED_PIDS"
      | "r = -1" "ns' = ?ns"
      using Suc.prems(4) 4(1) by (auto split: if_splits)
    then show ?thesis
    proof cases
      case 1
      then show ?thesis using Suc.IH[OF ok mw next_map_below[OF 1]] Suc.prems(4) 4(1) by simp
    next
      case 2
      then show ?thesis using Suc.IH[OF ok mw, of RESERVED_PIDS] Suc.prems(4) 4(1) assms(2) reserved_page by (simp add: mk_pid_def)
    qed (use ok mw in simp)
  qed (use Suc.prems ok mw in auto)
qed simp

subsection \<open>The number that is found\<close>

text \<open>Pages can be had, and nobody else changes the namespace while one is allocated.\<close>

definition quiet :: "(nat \<Rightarrow> pid_namespace \<Rightarrow> bool \<times> pid_namespace) \<Rightarrow> bool" where
  "quiet kz \<longleftrightarrow> (\<forall>i ns. kz i ns = (True, ns))"

definition same :: "pid_namespace \<Rightarrow> pid_namespace \<Rightarrow> bool" where
  "same ns ns' \<longleftrightarrow> ns_ok ns' \<and> (\<forall>q. used ns' q \<longleftrightarrow> used ns q)"

definition took :: "pid_namespace \<Rightarrow> nat \<Rightarrow> pid_namespace \<Rightarrow> bool" where
  "took ns p ns' \<longleftrightarrow> ns_ok ns' \<and> last_pid ns' = p \<and> (\<forall>q. used ns' q \<longleftrightarrow> q = p \<or> used ns q)"

lemma quiet_page:
  assumes "quiet kz" "ns_ok ns"
  shows "same ns (need_page (kz i) m ns)" "page (pidmaps (need_page (kz i) m ns) m) \<noteq> None"
  using assms need_page_zero by (auto simp: need_page_def same_def quiet_def upd_map_def)

lemma quiet_round:
  assumes q: "quiet kz" and ok: "ns_ok ns" and m: "m = pid div BITS_PER_PAGE" "off = pid mod BITS_PER_PAGE"
    and mono: "\<And>p q. q \<le> p \<Longrightarrow> again p \<Longrightarrow> again q"
  obtains (take) p ns' where "alloc_round pid_max (kz i) again m off pid ns = Return (int p) ns'" "took ns p ns'"
      "round_takes pid_max again pid ns p"
  | (go) ns' where "alloc_round pid_max (kz i) again m off pid ns = Next ns'" "same ns ns'"
      "\<And>p. p div BITS_PER_PAGE = m \<Longrightarrow> pid \<le> p \<Longrightarrow> p = pid \<or> p < pid_max \<and> again p \<Longrightarrow> used ns p"
proof -
  let ?ns = "need_page (kz i) (pid div BITS_PER_PAGE) ns"
  note pg = quiet_page[OF q ok, of i "pid div BITS_PER_PAGE"]
  have ok': "ns_ok ?ns" and u: "\<And>q. used ?ns q \<longleftrightarrow> used ns q" using pg(1) by (simp_all add: same_def)
  show ?thesis
  proof (cases rule: alloc_round_cases[OF ok', of again pid_max])
    case (3 p)
    have r: "round_takes pid_max again pid ns p" using 3(2) u by (simp add: round_takes_def)
    then have pp: "p div BITS_PER_PAGE = pid div BITS_PER_PAGE" "\<not> used ns p" by (simp_all add: round_takes_def)
    have "took ns p (take_pid p ?ns)"
      using take_ok[OF ok', of p] used_take[of ?ns p] pp pg(2) u by (simp add: took_def) (simp add: take_pid_def)
    then show ?thesis using take 3(3) r m by simp
  next
    case 4
    then show ?thesis using go[of ?ns] pg(1) u m by simp
  qed (use mono pg in auto)
qed

lemma same_trans: "same ns ns1 \<Longrightarrow> same ns1 ns2 \<Longrightarrow> same ns ns2" "same ns ns1 \<Longrightarrow> took ns1 p ns2 \<Longrightarrow> took ns p ns2"
  by (simp_all add: same_def took_def)

text \<open>First the rounds up to the last page.\<close>

lemma rounds_upwards:
  fixes pid_max defines "L \<equiv> (pid_max - 1) div BITS_PER_PAGE"
  assumes q: "quiet kz"
  shows "ns_ok ns \<Longrightarrow> pid < pid_max \<Longrightarrow> L < n + pid div BITS_PER_PAGE \<Longrightarrow>
    alloc_rounds pid_max kz lp (Suc n) (pid div BITS_PER_PAGE) (pid mod BITS_PER_PAGE) pid ns = (r, ns') \<Longrightarrow>
    (\<exists>p\<in>{pid..<pid_max}. \<not> used ns p \<and> (\<forall>q\<in>{pid..<p}. used ns q) \<and> took ns p ns' \<and> r = int p) \<or>
    (\<forall>q\<in>{pid..<pid_max}. used ns q) \<and> (\<exists>ns1. same ns ns1 \<and> (r, ns') = (if lp = RESERVED_PIDS then (-1, ns1)
       else alloc_rounds pid_max kz lp (n + pid div BITS_PER_PAGE - L) 0 RESERVED_PIDS RESERVED_PIDS ns1))"
proof (induction n arbitrary: pid ns)
  case 0
  then have "pid div BITS_PER_PAGE \<le> L" unfolding L_def by (intro div_le_mono) simp
  then show ?case using 0 by simp
next
  case (Suc n)
  let ?m = "pid div BITS_PER_PAGE"
  have mL: "?m \<le> L" unfolding L_def using Suc.prems(2) by (intro div_le_mono) simp
  show ?case
  proof (cases rule: quiet_round[OF q Suc.prems(1) refl refl, where again = "last_test lp (Suc n)" and pid_max = pid_max and i = "Suc n" and pid = pid])
    case (2 p ns1)
    then have "r = int p" "ns' = ns1" using Suc.prems(4) by (simp_all del: alloc_rounds.simps(1))
    then show ?thesis using 2(2,3) Suc.prems(2) by (intro disjI1 bexI[of _ p]) (auto simp: round_takes_def)
  next
    case (3 ns1)
    have here: "used ns p" if "p div BITS_PER_PAGE = ?m" "pid \<le> p" "p < pid_max" for p using 3(3) that by simp
    show ?thesis
    proof (cases "?m < L")
      case True
      let ?p = "mk_pid (?m + 1) 0"
      have ok1: "ns_ok ns1" using 3(2) by (simp add: same_def)
      have u1: "used ns1 x \<longleftrightarrow> used ns x" for x using 3(2) by (simp add: same_def)
      have pm: "?p < pid_max" using next_map_below True by (simp add: L_def)
      have pp: "?p div BITS_PER_PAGE = ?m + 1" "?p mod BITS_PER_PAGE = 0" by simp_all
      have step: "alloc_rounds pid_max kz lp (Suc n) (?p div BITS_PER_PAGE) (?p mod BITS_PER_PAGE) ?p ns1 = (r, ns')"
        using Suc.prems(4) 3(1) True unfolding pp by (simp add: L_def)
      have gap: "used ns x" if "pid \<le> x" "x < ?p" for x
      proof -
        have "x div BITS_PER_PAGE < ?m + 1" using that(2) by (simp add: mk_pid_def div_less_iff_less_mult)
        moreover have "?m \<le> x div BITS_PER_PAGE" using that(1) by (rule div_le_mono)
        ultimately show ?thesis using here that pm by simp
      qed
      have le: "pid \<le> ?p" by (rule ccontr) (use pp(1) div_le_mono[of ?p pid BITS_PER_PAGE] in simp)
      have "L < n + ?p div BITS_PER_PAGE" using Suc.prems(3) pp by simp
      from Suc.IH[OF ok1 pm this step] show ?thesis
      proof (elim disjE bexE conjE exE, goal_cases)
        case (1 p)
        then show ?case using u1 gap le same_trans(2)[OF 3(2)] by (intro disjI1 bexI[of _ p]) (auto simp: not_le)
      next
        case (2 ns2)
        then show ?case using u1 gap same_trans(1)[OF 3(2) 2(2)] pp by (intro disjI2 conjI exI[of _ ns2]) (auto simp: not_le)
      qed
    next
      case False
      then have mm: "?m = L" using mL by simp
      have "used ns p" if "pid \<le> p" "p < pid_max" for p
      proof (rule here)
        have "?m \<le> p div BITS_PER_PAGE" "p div BITS_PER_PAGE \<le> L" unfolding L_def using that by (auto intro: div_le_mono)
        then show "p div BITS_PER_PAGE = ?m" using mm by simp
      qed (use that in auto)
      moreover have "(r, ns') = (if lp = RESERVED_PIDS then (-1, ns1)
         else alloc_rounds pid_max kz lp (Suc n) 0 RESERVED_PIDS RESERVED_PIDS ns1)"
        unfolding Suc.prems(4)[symmetric]
        by (subst alloc_rounds.simps(2)) (use 3(1) False in \<open>simp add: L_def mk_pid_def del: alloc_rounds.simps\<close>)
      ultimately show ?thesis using 3(2) mm by auto
    qed
  qed auto
qed

text \<open>Then those from the first page on, up to page \<open>F\<close>, the one with the last number handed out.\<close>

definition page_start :: "nat \<Rightarrow> nat" where
  "page_start m = (if m = 0 then RESERVED_PIDS else mk_pid m 0)"

definition allowed :: "nat \<Rightarrow> nat \<Rightarrow> nat \<Rightarrow> nat \<Rightarrow> bool" where
  "allowed pid_max lp F p \<longleftrightarrow> p < pid_max \<and>
     (p div BITS_PER_PAGE < F \<or> p div BITS_PER_PAGE = F \<and> (p = page_start F \<or> p < lp \<or> (lp + 1) mod BITS_PER_PAGE = 0))"

lemma page_start_simps [simp]: "page_start m div BITS_PER_PAGE = m"
  "page_start m mod BITS_PER_PAGE = (if m = 0 then RESERVED_PIDS else 0)"
  by (simp_all add: page_start_def reserved_page)

lemma page_start_below: "RESERVED_PIDS < pid_max \<Longrightarrow> m \<le> (pid_max - 1) div BITS_PER_PAGE \<Longrightarrow> page_start m < pid_max"
  using next_map_below[of "m - 1" pid_max] by (auto simp: page_start_def)

lemma page_start_Suc: "page_start m \<le> p \<Longrightarrow> p < page_start (Suc m) \<Longrightarrow> p div BITS_PER_PAGE = m"
proof -
  assume p: "page_start m \<le> p" "p < page_start (Suc m)"
  have "m \<le> p div BITS_PER_PAGE" using div_le_mono[OF p(1), of BITS_PER_PAGE] by simp
  moreover have "p div BITS_PER_PAGE < Suc m" using p(2) by (simp add: page_start_def mk_pid_def div_less_iff_less_mult)
  ultimately show ?thesis by simp
qed

lemma rounds_again:
  fixes pid_max defines "L \<equiv> (pid_max - 1) div BITS_PER_PAGE"
  assumes q: "quiet kz" and rp: "RESERVED_PIDS < pid_max" and FL: "F \<le> L"
  shows "ns_ok ns \<Longrightarrow> m + n = F \<Longrightarrow>
    alloc_rounds pid_max kz lp (Suc n) m (page_start m mod BITS_PER_PAGE) (page_start m) ns = (r, ns') \<Longrightarrow>
    (\<exists>p\<ge>page_start m. allowed pid_max lp F p \<and> \<not> used ns p \<and> (\<forall>q\<in>{page_start m..<p}. used ns q) \<and> took ns p ns' \<and> r = int p) \<or>
    (\<forall>p\<ge>page_start m. allowed pid_max lp F p \<longrightarrow> used ns p) \<and> same ns ns' \<and> r = -1"
proof (induction n arbitrary: m ns)
  case 0
  have below: "page_start m < pid_max" by (rule page_start_below) (use rp FL 0 in \<open>auto simp: L_def\<close>)
  show ?case
  proof (cases rule: quiet_round[OF q 0(1) page_start_simps(1)[of m, symmetric] refl, where again = "last_test lp 0" and pid_max = pid_max and i = 0])
    case (2 p ns1)
    then show ?thesis using 0 below by (intro disjI1 exI[of _ p]) (auto simp: round_takes_def allowed_def)
  next
    case (3 ns1)
    have "r = -1" "ns' = ns1" using 0(3) 3(1) by (auto split: if_splits)
    moreover have "used ns p" if "page_start m \<le> p" "allowed pid_max lp F p" for p
      using that 3(3) 0(2) div_le_mono[OF that(1), of BITS_PER_PAGE] by (auto simp: allowed_def)
    ultimately show ?thesis using 3(2) by blast
  qed auto
next
  case (Suc n)
  have mF: "m < F" "m < L" using Suc.prems(2) FL by auto
  have below: "page_start m < pid_max" by (rule page_start_below) (use rp mF in \<open>auto simp: L_def\<close>)
  have nb: "page_start (Suc m) < pid_max" by (rule page_start_below) (use rp mF in \<open>auto simp: L_def\<close>)
  show ?case
  proof (cases rule: quiet_round[OF q Suc.prems(1) page_start_simps(1)[of m, symmetric] refl, where again = "last_test lp (Suc n)" and pid_max = pid_max and i = "Suc n"])
    case (2 p ns1)
    then have "r = int p" "ns' = ns1" using Suc.prems(3) by (simp_all del: alloc_rounds.simps(1))
    then show ?thesis using 2(2,3) below mF by (intro disjI1 exI[of _ p]) (auto simp: round_takes_def allowed_def)
  next
    case (3 ns1)
    have ok1: "ns_ok ns1" and u1: "\<And>x. used ns1 x \<longleftrightarrow> used ns x" using 3(2) by (auto simp: same_def)
    have gap: "used ns x" if "page_start m \<le> x" "x < page_start (Suc m)" for x
      using 3(3) page_start_Suc[OF that] that nb by simp
    have step: "alloc_rounds pid_max kz lp (Suc n) (Suc m) (page_start (Suc m) mod BITS_PER_PAGE) (page_start (Suc m)) ns1 = (r, ns')"
      unfolding Suc.prems(3)[symmetric]
      by (subst (2) alloc_rounds.simps(2)) (use 3(1) mF in \<open>simp add: L_def page_start_def del: alloc_rounds.simps\<close>)
    have le: "page_start m \<le> page_start (Suc m)"
      by (rule ccontr) (use div_le_mono[of "page_start (Suc m)" "page_start m" BITS_PER_PAGE] in simp)
    have "Suc m + n = F" using Suc.prems(2) by simp
    from Suc.IH[OF ok1 this step] show ?thesis
    proof (elim disjE conjE exE, goal_cases)
      case (1 p)
      then show ?case using u1 gap le same_trans(2)[OF 3(2)] by (intro disjI1 exI[of _ p]) (auto simp: not_le)
    next
      case 2
      moreover have "used ns p" if "page_start m \<le> p" "allowed pid_max lp F p" for p
        by (cases "p < page_start (Suc m)") (use gap u1 2(1) that in auto)
      ultimately show ?case using same_trans(1)[OF 3(2)] by blast
    qed
  qed auto
qed

text \<open>The numbers in the order in which they are tried. The last number handed out is only tried again
  if it is the first or the last of a page.\<close>

definition retried :: "nat \<Rightarrow> bool" where
  "retried lp \<longleftrightarrow> (lp + 1) mod BITS_PER_PAGE = 0 \<or> lp mod BITS_PER_PAGE = 0 \<and> lp \<noteq> 0"

definition candidates :: "nat \<Rightarrow> nat \<Rightarrow> nat list" where
  "candidates pid_max lp = (if pid_max \<le> lp + 1 then [RESERVED_PIDS..<pid_max]
     else [lp + 1..<pid_max] @ [RESERVED_PIDS..<lp] @ (if retried lp then [lp] else []))"

lemma find_skip: "\<forall>x\<in>set xs. \<not> P x \<Longrightarrow> List.find P (xs @ ys) = List.find P ys"
  by (induction xs) auto

lemma find_upt: "\<forall>q\<in>{a..<p}. \<not> P q \<Longrightarrow> a \<le> p \<Longrightarrow> p < b \<Longrightarrow> P p \<Longrightarrow> List.find P ([a..<b] @ xs) = Some p"
proof -
  assume a: "\<forall>q\<in>{a..<p}. \<not> P q" "a \<le> p" "p < b" "P p"
  then have "[a..<b] = [a..<p] @ p # [Suc p..<b]" by (metis upt_conv_Cons upt_add_eq_append le_add_diff_inverse less_imp_le)
  moreover have "List.find P ([a..<p] @ p # [Suc p..<b] @ xs) = List.find P (p # [Suc p..<b] @ xs)"
    by (rule find_skip) (use a(1) in auto)
  ultimately show ?thesis using a(4) by simp
qed

lemma reserved_not_retried: "\<not> retried RESERVED_PIDS"
  by (simp add: retried_def RESERVED_PIDS_def BITS_PER_PAGE_def)

lemma allowed_last:
  assumes "allowed pid_max lp F lp" "F = (if (lp + 1) mod BITS_PER_PAGE = 0 then (lp + 1) div BITS_PER_PAGE - 1 else (lp + 1) div BITS_PER_PAGE)"
    "lp \<noteq> RESERVED_PIDS"
  shows "retried lp"
proof (cases "(lp + 1) mod BITS_PER_PAGE = 0")
  case False
  then have "F = lp div BITS_PER_PAGE" using assms(2) by (simp add: div_Suc)
  then have "lp = page_start F" using assms(1) False by (simp add: allowed_def)
  then show ?thesis using assms(3) by (auto simp: page_start_def retried_def mk_pid_def split: if_splits)
qed (simp add: retried_def)

lemma allowed_before:
  assumes "p < lp \<or> p = lp \<and> retried lp" "lp + 1 < pid_max"
    "F = (if (lp + 1) mod BITS_PER_PAGE = 0 then (lp + 1) div BITS_PER_PAGE - 1 else (lp + 1) div BITS_PER_PAGE)"
  shows "allowed pid_max lp F p"
proof -
  have F: "F = lp div BITS_PER_PAGE" using assms(3) by (simp add: div_Suc)
  have le: "p div BITS_PER_PAGE \<le> F" unfolding F using assms(1) by (intro div_le_mono) auto
  have "p = page_start F" if "p = lp" "lp mod BITS_PER_PAGE = 0" "lp \<noteq> 0"
    using that mk_pid_split[of lp] by (auto simp: F page_start_def mk_pid_def)
  then show ?thesis using assms(1,2) le by (auto simp: allowed_def retried_def)
qed

lemma retried_above: "retried lp \<Longrightarrow> RESERVED_PIDS \<le> lp"
proof -
  assume "retried lp"
  then consider "BITS_PER_PAGE \<le> lp + 1" | "BITS_PER_PAGE \<le> lp"
    by (auto simp: retried_def dest!: dvd_imp_le)
  then show ?thesis by cases (simp_all add: RESERVED_PIDS_def BITS_PER_PAGE_def)
qed

lemma candidates_again:
  assumes pid: "pid = (if pid_max \<le> lp + 1 then RESERVED_PIDS else lp + 1)" and full: "\<forall>x\<in>{pid..<pid_max}. used ns x"
    and lp: "lp \<noteq> RESERVED_PIDS" and F: "F = pid div BITS_PER_PAGE - (if pid mod BITS_PER_PAGE = 0 then 1 else 0)"
  shows "RESERVED_PIDS \<le> p \<Longrightarrow> allowed pid_max lp F p \<Longrightarrow> \<not> used ns p \<Longrightarrow> \<forall>q\<in>{RESERVED_PIDS..<p}. used ns q \<Longrightarrow>
      List.find (\<lambda>p. \<not> used ns p) (candidates pid_max lp) = Some p"
    "\<forall>p\<ge>RESERVED_PIDS. allowed pid_max lp F p \<longrightarrow> used ns p \<Longrightarrow> List.find (\<lambda>p. \<not> used ns p) (candidates pid_max lp) = None"
proof -
  let ?free = "\<lambda>p. \<not> used ns p"
  have lpF: "F = (if (lp + 1) mod BITS_PER_PAGE = 0 then (lp + 1) div BITS_PER_PAGE - 1 else (lp + 1) div BITS_PER_PAGE)"
    if "\<not> pid_max \<le> lp + 1" using that by (simp add: pid F)
  {
    assume p: "RESERVED_PIDS \<le> p" "allowed pid_max lp F p" "\<not> used ns p" "\<forall>q\<in>{RESERVED_PIDS..<p}. used ns q"
    have "\<not> (pid \<le> p)" using full p by (auto simp: allowed_def)
    then have B: "\<not> pid_max \<le> lp + 1" and le: "p \<le> lp" using p(1) by (auto simp: pid split: if_splits)
    have "List.find ?free (candidates pid_max lp) = List.find ?free ([RESERVED_PIDS..<lp] @ (if retried lp then [lp] else []))"
      unfolding candidates_def using B full by (simp add: find_skip pid)
    also have "\<dots> = Some p"
    proof (cases "p = lp")
      case True
      then have "retried lp" using allowed_last[OF _ lpF[OF B] lp] p(2) by simp
      then show ?thesis using True p(3,4) by (simp add: find_skip)
    next
      case False
      then show ?thesis using le p by (intro find_upt) auto
    qed
    finally show "List.find ?free (candidates pid_max lp) = Some p" .
  }
  assume all: "\<forall>p\<ge>RESERVED_PIDS. allowed pid_max lp F p \<longrightarrow> used ns p"
  have "used ns p" if "p \<in> set (candidates pid_max lp)" for p
  proof (cases "pid \<le> p \<and> p < pid_max")
    case False
    then have B: "\<not> pid_max \<le> lp + 1" and p: "p < lp \<or> p = lp \<and> retried lp" "RESERVED_PIDS \<le> p"
      using that retried_above by (auto simp: candidates_def pid split: if_splits)
    then show ?thesis using all allowed_before[OF p(1) _ lpF[OF B], of pid_max] by simp
  qed (use full in auto)
  then show "List.find ?free (candidates pid_max lp) = None" by (auto simp: find_None_iff)
qed

lemma alloc_pidmap_finds:
  assumes q: "quiet kz" and ok: "ns_ok ns" and rp: "RESERVED_PIDS < pid_max" and a: "alloc_pidmap pid_max kz ns = (r, ns')"
  shows "case List.find (\<lambda>p. \<not> used ns p) (candidates pid_max (last_pid ns)) of
      None \<Rightarrow> r = -1 \<and> same ns ns' | Some p \<Rightarrow> r = int p \<and> took ns p ns'"
proof -
  define lp where "lp = last_pid ns"
  define pid where "pid = (if pid_max \<le> lp + 1 then RESERVED_PIDS else lp + 1)"
  define L where "L = (pid_max - 1) div BITS_PER_PAGE"
  define z :: nat where "z = (if pid mod BITS_PER_PAGE = 0 then 1 else 0)"
  let ?m = "pid div BITS_PER_PAGE" and ?free = "\<lambda>p. \<not> used ns p"
  have P: "(pid_max + BITS_PER_PAGE - 1) div BITS_PER_PAGE = Suc L"
  proof -
    have "pid_max + BITS_PER_PAGE - 1 = (pid_max - 1) + BITS_PER_PAGE" using rp by simp
    then show ?thesis using div_add_self2[OF B_pos(2), of "pid_max - 1"] by (simp add: L_def)
  qed
  have pm: "pid < pid_max" "0 < pid" using rp by (auto simp: pid_def RESERVED_PIDS_def)
  have zm: "z \<le> ?m" "z \<le> 1" using pm(2) by (auto simp: z_def Suc_le_eq div_greater_zero_iff dvd_imp_le mod_eq_0_iff_dvd)
  have mL: "?m \<le> L" unfolding L_def using pm by (intro div_le_mono) simp
  have run: "alloc_rounds pid_max kz lp (Suc (Suc L - z)) ?m (pid mod BITS_PER_PAGE) pid ns = (r, ns')"
    using a unfolding alloc_pidmap_def Let_def P lp_def[symmetric] pid_def[symmetric] z_def[symmetric] by simp
  have "(pid_max - 1) div BITS_PER_PAGE < Suc L - z + ?m" using zm unfolding L_def by linarith
  note climb = rounds_upwards[OF q ok pm(1) this run, folded L_def]
  have k: "Suc L - z + ?m - L = Suc (?m - z)" using zm by linarith
  consider (up) p where "pid \<le> p" "p < pid_max" "?free p" "\<forall>x\<in>{pid..<p}. used ns x" "took ns p ns'" "r = int p"
    | (stop) "\<forall>x\<in>{pid..<pid_max}. used ns x" "lp = RESERVED_PIDS" "same ns ns'" "r = -1"
    | (again) ns1 where "\<forall>x\<in>{pid..<pid_max}. used ns x" "lp \<noteq> RESERVED_PIDS" "same ns ns1"
        "(r, ns') = alloc_rounds pid_max kz lp (Suc (?m - z)) 0 (page_start 0 mod BITS_PER_PAGE) (page_start 0) ns1"
    using climb unfolding k
    by (elim disjE bexE conjE exE; cases "lp = RESERVED_PIDS") (auto simp: page_start_def reserved_page simp del: alloc_rounds.simps)
  then show ?thesis unfolding lp_def[symmetric]
  proof cases
    case up
    have "List.find ?free (candidates pid_max lp) = Some p"
      using find_upt[of pid p ?free pid_max "[]"] find_upt[of pid p ?free pid_max] up(1-4) by (auto simp: candidates_def pid_def)
    then show "case List.find ?free (candidates pid_max lp) of None \<Rightarrow> r = -1 \<and> same ns ns' | Some p \<Rightarrow> r = int p \<and> took ns p ns'"
      using up by simp
  next
    case stop
    have "List.find ?free (candidates pid_max lp) = None"
      using stop reserved_not_retried by (auto simp: candidates_def pid_def find_None_iff)
    then show "case List.find ?free (candidates pid_max lp) of None \<Rightarrow> r = -1 \<and> same ns ns' | Some p \<Rightarrow> r = int p \<and> took ns p ns'"
      using stop by simp
  next
    case again
    have ok1: "ns_ok ns1" and u1: "\<And>x. used ns1 x \<longleftrightarrow> used ns x" using again(3) by (auto simp: same_def)
    have F: "0 + (?m - z) = ?m - z" "?m - z \<le> (pid_max - 1) div BITS_PER_PAGE" using mL by (auto simp: L_def)
    have res: "page_start 0 = RESERVED_PIDS" by (simp add: page_start_def)
    have mz: "?m - z = pid div BITS_PER_PAGE - (if pid mod BITS_PER_PAGE = 0 then 1 else 0)" by (simp add: z_def)
    note cand = candidates_again[OF pid_def again(1,2) mz]
    from rounds_again[OF q rp F(2) ok1 F(1) again(4)[symmetric], unfolded res u1]
    show "case List.find ?free (candidates pid_max lp) of None \<Rightarrow> r = -1 \<and> same ns ns' | Some p \<Rightarrow> r = int p \<and> took ns p ns'"
    proof (elim disjE exE conjE, goal_cases)
      case (1 p)
      then show ?case using cand(1)[of p] same_trans(2)[OF again(3)] by simp
    next
      case 2
      then show ?case using cand(2) same_trans(1)[OF again(3)] by simp
    qed
  qed
qed

subsection \<open>Freeing, walking, and the first namespace\<close>

lemma card_clear_bit:
  assumes "test_bit i a" "i < BITS_PER_PAGE"
  shows "Suc (card {j. j < BITS_PER_PAGE \<and> test_bit j (clear_bit i a)}) = card {j. j < BITS_PER_PAGE \<and> test_bit j a}"
proof -
  have "{j. j < BITS_PER_PAGE \<and> test_bit j a} = insert i {j. j < BITS_PER_PAGE \<and> test_bit j (clear_bit i a)}"
    using assms by auto
  then show ?thesis by simp
qed

lemma free_pidmap_spec:
  assumes ok: "ns_ok ns" and u: "used ns p" and p: "p \<noteq> 0"
  shows "\<exists>ns'. free_pidmap p ns = Some ns' \<and> ns_ok ns' \<and> last_pid ns' = last_pid ns \<and> (\<forall>q. used ns' q \<longleftrightarrow> q \<noteq> p \<and> used ns q)"
proof -
  let ?m = "p div BITS_PER_PAGE" and ?o = "p mod BITS_PER_PAGE"
  obtain a where a: "page (pidmaps ns ?m) = Some a" "test_bit ?o a" using u by (auto simp: used_def split: option.splits)
  define ns' where "ns' = upd_map ?m (\<lambda>q. \<lparr>nr_free = nr_free q + 1, page = Some (clear_bit ?o a)\<rparr>) ns"
  have us: "used ns' q \<longleftrightarrow> q \<noteq> p \<and> used ns q" for q
    using a by (auto simp: used_def ns'_def upd_map_def pid_eq_iff[of q p] split: option.splits)
  have "map_ok (pidmaps ns' m)" for m
  proof (cases "m = ?m")
    case True
    have "map_ok (pidmaps ns ?m)" using ok by (simp add: ns_ok_def)
    then show ?thesis using True a card_clear_bit[OF a(2)] by (simp add: map_ok_def ns'_def upd_map_def)
  next
    case False then show ?thesis using ok by (simp add: ns_ok_def ns'_def upd_map_def)
  qed
  then have "ns_ok ns'" using ok us p by (auto simp: ns_ok_def)
  moreover have "free_pidmap p ns = Some ns'" "last_pid ns' = last_pid ns" by (simp_all add: free_pidmap_def a ns'_def upd_map_def Let_def)
  ultimately show ?thesis using us by blast
qed

lemma init_ns_ok: "ns_ok (pidmap_init init_pid_ns)" "used (pidmap_init init_pid_ns) p \<longleftrightarrow> p = 0" "last_pid (pidmap_init init_pid_ns) = 0"
proof -
  show u: "used (pidmap_init init_pid_ns) p \<longleftrightarrow> p = 0" for p
    by (auto simp: used_def pidmap_init_def init_pid_ns_def upd_map_def pid_eq_iff[of p 0] split: option.splits)
  have "{i. i < BITS_PER_PAGE \<and> i = 0} = {0}" by auto
  then show "ns_ok (pidmap_init init_pid_ns)" using u
    by (auto simp: ns_ok_def map_ok_def pidmap_init_def init_pid_ns_def upd_map_def)
  show "last_pid (pidmap_init init_pid_ns) = 0" by (simp add: pidmap_init_def init_pid_ns_def upd_map_def)
qed

lemma next_in_maps_spec:
  "off < BITS_PER_PAGE \<Longrightarrow>
   (\<exists>p\<ge>mk_pid m off. p div BITS_PER_PAGE < m + n \<and> next_in_maps n m off ns = int p \<and> used ns p \<and> (\<forall>q\<in>{mk_pid m off..<p}. \<not> used ns q)) \<or>
   next_in_maps n m off ns = -1 \<and> (\<forall>q\<ge>mk_pid m off. q div BITS_PER_PAGE < m + n \<longrightarrow> \<not> used ns q)"
proof (induction n arbitrary: m off)
  case 0
  have "m \<le> q div BITS_PER_PAGE" if "mk_pid m off \<le> q" for q
    using div_le_mono[OF that, of BITS_PER_PAGE] 0 by simp
  then show ?case by (force simp: not_less)
next
  case (Suc n)
  let ?p = "mk_pid m off" and ?e = "mk_pid (m + 1) 0"
  have ge: "m \<le> q div BITS_PER_PAGE" if "?p \<le> q" for q
    using div_le_mono[OF that, of BITS_PER_PAGE] Suc.prems by simp
  have cut: "?e \<le> q \<longleftrightarrow> m < q div BITS_PER_PAGE" for q
    using less_eq_div_iff_mult_less_eq[OF B_pos(1), of "m + 1" q] by (simp add: mk_pid_def Suc_le_eq)
  have pe: "?p \<le> ?e" using Suc.prems by (simp add: mk_pid_def)
  have IH: ?case if step: "next_in_maps (Suc n) m off ns = next_in_maps n (m + 1) 0 ns"
    and none: "\<And>q. ?p \<le> q \<Longrightarrow> q div BITS_PER_PAGE = m \<Longrightarrow> \<not> used ns q"
  proof -
    have gap: "\<not> used ns q" if "?p \<le> q" "q < ?e" for q using none[OF that(1)] ge[OF that(1)] cut[of q] that(2) by simp
    from Suc.IH[OF B_pos(1), of "m + 1"] show ?thesis unfolding step
    proof (elim disjE exE conjE, goal_cases)
      case (1 p)
      then show ?case using pe gap by (intro disjI1 exI[of _ p]) (auto simp: not_le)
    next
      case 2
      moreover have "\<not> used ns q" if "?p \<le> q" "q div BITS_PER_PAGE < m + Suc n" for q
        by (cases "q < ?e") (use gap 2 that in auto)
      ultimately show ?case by blast
    qed
  qed
  show ?case
  proof (cases "page (pidmaps ns m)")
    case None
    then show ?thesis by (intro IH) (auto simp: used_def)
  next
    case (Some a)
    let ?o = "find_next_bit a BITS_PER_PAGE off"
    have us: "used ns q \<longleftrightarrow> test_bit (q mod BITS_PER_PAGE) a" if "q div BITS_PER_PAGE = m" for q using Some that by (simp add: used_def)
    have h: "first_hit (\<lambda>i. test_bit i a) off BITS_PER_PAGE ?o"
      by (rule find_next_bit_hit(1)[OF Suc.prems]) (simp add: BITS_PER_PAGE_def)
    have low: "\<not> used ns q" if "?p \<le> q" "q div BITS_PER_PAGE = m" "q mod BITS_PER_PAGE < ?o" for q
      using h us[OF that(2)] that same_page(1)[of ?p q] Suc.prems by (auto simp: first_hit_def)
    show ?thesis
    proof (cases "?o < BITS_PER_PAGE")
      case True
      have "\<not> used ns q" if "?p \<le> q" "q < mk_pid m ?o" for q
      proof -
        have "q div BITS_PER_PAGE = m" using ge[OF that(1)] div_le_mono[of q "mk_pid m ?o" BITS_PER_PAGE] that(2) True by simp
        then show ?thesis using low[OF that(1)] same_page(2)[of q "mk_pid m ?o"] that(2) True by simp
      qed
      moreover have "?p \<le> mk_pid m ?o" using h by (simp add: first_hit_def mk_pid_def)
      ultimately show ?thesis using True Some h us[of "mk_pid m ?o"]
        by (intro disjI1 exI[of _ "mk_pid m ?o"]) (auto simp: first_hit_def)
    next
      case False
      have "q mod BITS_PER_PAGE < ?o" for q using False by (meson B_pos(1) mod_less_divisor not_less order_less_le_trans)
      then show ?thesis using False Some low by (intro IH) auto
    qed
  qed
qed

lemma next_pidmap_spec:
  "(\<exists>p>l. p div BITS_PER_PAGE < PIDMAP_ENTRIES \<and> next_pidmap l ns = int p \<and> used ns p \<and> (\<forall>q\<in>{l<..<p}. \<not> used ns q)) \<or>
   next_pidmap l ns = -1 \<and> (\<forall>q>l. q div BITS_PER_PAGE < PIDMAP_ENTRIES \<longrightarrow> \<not> used ns q)"
proof -
  let ?m = "(l + 1) div BITS_PER_PAGE"
  have m: "mk_pid ?m ((l + 1) mod BITS_PER_PAGE) = l + 1" by (rule mk_pid_split)
  have up: "q div BITS_PER_PAGE < ?m + (PIDMAP_ENTRIES - ?m)" if "l + 1 \<le> q" "q div BITS_PER_PAGE < PIDMAP_ENTRIES" for q
    using that by simp
  have none: "next_in_maps (PIDMAP_ENTRIES - ?m) ?m ((l + 1) mod BITS_PER_PAGE) ns = -1" if "\<not> ?m < PIDMAP_ENTRIES"
    using that by simp
  show ?thesis
    using none next_in_maps_spec[of "(l + 1) mod BITS_PER_PAGE" ?m "PIDMAP_ENTRIES - ?m" ns] up
    unfolding m next_pidmap_def Let_def by (cases "?m < PIDMAP_ENTRIES") (auto simp: Suc_le_eq)
qed

subsection \<open>Properties\<close>

lemma pid_max_reserved: "pid_max_min \<le> pid_max \<Longrightarrow> RESERVED_PIDS < pid_max"
  by (simp add: pid_max_min_def)

lemma pid_in_maps: "p < pid_max \<Longrightarrow> pid_max \<le> pid_max_max \<Longrightarrow> p div BITS_PER_PAGE < PIDMAP_ENTRIES"
  by (simp add: pid_max_max_def BITS_PER_PAGE_def PIDMAP_ENTRIES_def less_mult_imp_div_less)

lemma boot_first_free: "List.find (\<lambda>p. \<not> used (pidmap_init init_pid_ns) p) (candidates 32768 0) = Some 1"
  unfolding candidates_def using find_upt[of 1 1 "\<lambda>p. \<not> used (pidmap_init init_pid_ns) p" 32768]
  by (simp add: init_ns_ok)

text \<open>C12: With memory to be had and nobody interfering, \<^verbatim>\<open>alloc_pidmap\<close> hands out the first free number in the
  cyclic order that starts after the last one: up to \<open>pid_max\<close>, then again from 300. It fails exactly if
  none of these is free; the last number itself is passed over unless it is the first or last of a page.
  It takes that number and no other, and the counters keep agreeing with the bitmaps.\<close>

theorem alloc_pidmap_next:
  assumes "quiet kz" "ns_ok ns" "pid_max_min \<le> pid_max"
  shows "case List.find (\<lambda>p. \<not> used ns p) (candidates pid_max (last_pid ns)) of
      None \<Rightarrow> fst (alloc_pidmap pid_max kz ns) = -1 \<and> same ns (snd (alloc_pidmap pid_max kz ns))
    | Some p \<Rightarrow> fst (alloc_pidmap pid_max kz ns) = int p \<and> took ns p (snd (alloc_pidmap pid_max kz ns))"
  by (rule alloc_pidmap_finds) (use assms pid_max_reserved in auto)

lemma alloc_pidmap_next_witness:
  "fst (alloc_pidmap 32768 (\<lambda>i ns. (True, ns)) (pidmap_init init_pid_ns)) = 1"
  using alloc_pidmap_next[of "\<lambda>i ns. (True, ns)" "pidmap_init init_pid_ns" 32768] boot_first_free
  by (simp add: init_ns_ok quiet_def pid_max_min_def RESERVED_PIDS_def)

text \<open>C34: Whatever other tasks do to the namespace while \<^verbatim>\<open>alloc_pidmap\<close> sleeps for memory, a number that it
  hands out is above 0, below \<open>pid_max\<close> and inside the array of maps; it is free in the namespace as the
  others have left it when the number is taken (a namespace that comes from the one at the call by the steps of the others
  and new empty pages only), and in use afterwards, and no other number changes at that moment. So it is none
  of the numbers that are in use from the call on and that nobody gives back meanwhile: no number is given out
  twice. When it fails, it has itself changed nothing but added
  empty pages.\<close>

theorem alloc_pidmap_unique:
  assumes kz: "\<And>i. keeps_ok (kz i)" and ok: "ns_ok ns" and pm: "pid_max_min \<le> pid_max" "pid_max \<le> pid_max_max"
    and a: "alloc_pidmap pid_max kz ns = (r, ns')"
  shows "r = -1 \<and> ns_ok ns' \<and> meanwhile kz ns ns' \<or>
    (\<exists>p ns1. r = int p \<and> 0 < p \<and> p < pid_max \<and> p div BITS_PER_PAGE < PIDMAP_ENTRIES \<and>
       meanwhile kz ns ns1 \<and> ns_ok ns1 \<and> \<not> used ns1 p \<and> took ns1 p ns' \<and>
       (\<forall>H. (\<forall>q\<in>H. used ns q) \<and> (\<forall>i x. (\<forall>q\<in>H. used x q) \<longrightarrow> (\<forall>q\<in>H. used (snd (kz i x)) q)) \<longrightarrow>
          p \<notin> H \<and> (\<forall>q\<in>H. used ns' q)))"
proof -
  let ?pid = "if last_pid ns + 1 \<ge> pid_max then RESERVED_PIDS else last_pid ns + 1"
  have lt: "?pid < pid_max" using pid_max_reserved[OF pm(1)] by simp
  from a have "\<exists>n. alloc_rounds pid_max kz (last_pid ns) n (?pid div BITS_PER_PAGE) (?pid mod BITS_PER_PAGE) ?pid ns = (r, ns')"
    unfolding alloc_pidmap_def Let_def by (rule exI)
  then obtain n where "alloc_rounds pid_max kz (last_pid ns) n (?pid div BITS_PER_PAGE) (?pid mod BITS_PER_PAGE) ?pid ns = (r, ns')" ..
  from alloc_rounds_sound[OF kz pid_max_reserved[OF pm(1)] ok meanwhile.now lt this] show ?thesis
  proof (elim disjE exE conjE)
    fix p ns1 assume s: "r = int p" "p < pid_max" "meanwhile kz ns ns1" "ns_ok ns1" "\<not> used ns1 p"
      "page (pidmaps ns1 (p div BITS_PER_PAGE)) \<noteq> None" "ns' = take_pid p ns1"
    have t: "took ns1 p ns'" using s take_ok[OF s(4,6,5)] used_take[OF s(6)] by (simp add: took_def) (simp add: take_pid_def)
    have "0 < p" using s(4,5) by (cases p) (auto simp: ns_ok_def)
    moreover have "p \<notin> H \<and> (\<forall>q\<in>H. used ns' q)"
      if "(\<forall>q\<in>H. used ns q) \<and> (\<forall>i x. (\<forall>q\<in>H. used x q) \<longrightarrow> (\<forall>q\<in>H. used (snd (kz i x)) q))" for H
      using meanwhile_keeps[OF s(3), of H] that s(5) t by (auto simp: took_def)
    ultimately show ?thesis using s t pid_in_maps[OF s(2) pm(2)] by (intro disjI2 exI[of _ p] exI[of _ ns1]) simp
  qed simp
qed

text \<open>The last number was 32767, the last of its page. While \<^verbatim>\<open>alloc_pidmap\<close> waits for the next page, another
  task gets the page and takes its first number.\<close>

definition rival :: "nat \<Rightarrow> pid_namespace \<Rightarrow> bool \<times> pid_namespace" where
  "rival i ns = (True, if page (pidmaps ns 1) = None then take_pid 32768 (upd_map 1 (\<lambda>p. p\<lparr>page := Some (\<lambda>_. 0)\<rparr>) ns) else ns)"

definition page_end_ns :: pid_namespace where
  "page_end_ns = (pidmap_init init_pid_ns)\<lparr>last_pid := 32767\<rparr>"

lemma rival_ok: "keeps_ok (rival i)"
proof -
  have "ns_ok (take_pid 32768 (upd_map 1 (\<lambda>p. p\<lparr>page := Some (\<lambda>_. 0)\<rparr>) ns))" if "ns_ok ns" "page (pidmaps ns 1) = None" for ns
    by (rule take_ok) (use that need_page_zero(2)[of ns 1] in \<open>auto simp: BITS_PER_PAGE_def used_def upd_map_def\<close>)
  then show ?thesis by (simp add: keeps_ok_def rival_def)
qed

lemma page_end_ok: "ns_ok page_end_ns" "used page_end_ns p \<longleftrightarrow> p = 0" "page (pidmaps page_end_ns 1) = None"
  using init_ns_ok(1) init_ns_ok(2)[of p]
  by (simp_all add: page_end_ns_def ns_ok_def used_def) (simp add: pidmap_init_def init_pid_ns_def upd_map_def)

lemma rival_alloc:
  "fst (alloc_pidmap 65536 rival page_end_ns) = 32769"
proof -
  let ?ns = "need_page (rival 1) (32768 div BITS_PER_PAGE) page_end_ns"
  have d: "32768 div BITS_PER_PAGE = 1" "32768 mod BITS_PER_PAGE = 0" "32769 div BITS_PER_PAGE = 1"
    "last_pid page_end_ns = 32767" by (simp_all add: BITS_PER_PAGE_def page_end_ns_def)
  have ns: "?ns = take_pid 32768 (upd_map 1 (\<lambda>p. p\<lparr>page := Some (\<lambda>_. 0)\<rparr>) page_end_ns)"
    using page_end_ok(3) by (simp add: need_page_def rival_def d(1) take_pid_def upd_map_def)
  have ok: "ns_ok ?ns" by (rule need_page_ok[OF rival_ok page_end_ok(1)])
  have u: "used ?ns q \<longleftrightarrow> q = 32768 \<or> q = 0" for q
  proof -
    have "used ?ns q \<longleftrightarrow> q = 32768 \<or> used (upd_map 1 (\<lambda>p. p\<lparr>page := Some (\<lambda>_. 0)\<rparr>) page_end_ns) q"
      unfolding ns by (rule used_take) (simp add: d(1) upd_map_def)
    then show ?thesis using need_page_zero(1)[of page_end_ns 1 q] page_end_ok by simp
  qed
  have pg: "page (pidmaps ?ns 1) \<noteq> None" unfolding ns by (simp add: take_pid_def upd_map_def d(1))
  have "alloc_round 65536 (rival 1) (last_test 32767 1) 1 0 32768 page_end_ns = Return 32769 (take_pid 32769 ?ns)"
  proof (cases rule: alloc_round_cases[OF ok, of "last_test 32767 1" 65536])
    case (3 p)
    have p: "32768 \<le> p" "p \<noteq> 32768" "\<forall>q\<in>{32768..<p}. q = 32768 \<or> q = 0" using 3(2) u by (auto simp: round_takes_def)
    then have "p = 32769" using p(3)[rule_format, of 32769] by (cases "p \<le> 32769") auto
    then show ?thesis using 3(3) d by simp
  next
    case 4
    have "used ?ns 32769" by (rule 4(2)) (simp_all add: d)
    then show ?thesis using u by simp
  qed (use pg d in simp_all)
  moreover have "alloc_pidmap 65536 rival page_end_ns = alloc_rounds 65536 rival 32767 (Suc 1) 1 0 32768 page_end_ns"
    by (simp add: alloc_pidmap_def d(4) Let_def BITS_PER_PAGE_def del: alloc_rounds.simps)
  ultimately show ?thesis by (simp add: alloc_rounds.simps(2)[of _ _ _ 1])
qed

lemma alloc_pidmap_unique_witness:
  "fst (alloc_pidmap 65536 rival page_end_ns) = 32769 \<and> ns_ok (snd (alloc_pidmap 65536 rival page_end_ns)) \<and>
   used (snd (alloc_pidmap 65536 rival page_end_ns)) 32769 \<and> used (snd (alloc_pidmap 65536 rival page_end_ns)) 0"
proof -
  have m: "pid_max_min \<le> 65536" "65536 \<le> pid_max_max" by (simp_all add: pid_max_min_def RESERVED_PIDS_def pid_max_max_def)
  have h: "(\<forall>q\<in>{0}. used page_end_ns q) \<and> (\<forall>i x. (\<forall>q\<in>{0}. used x q) \<longrightarrow> (\<forall>q\<in>{0}. used (snd (rival i x)) q))"
  proof -
    have "used (take_pid 32768 (upd_map 1 (\<lambda>p. p\<lparr>page := Some (\<lambda>_. 0)\<rparr>) x)) 0" if "used x 0" for x
      using that by (simp add: used_def take_pid_def upd_map_def BITS_PER_PAGE_def)
    then show ?thesis using page_end_ok(2) by (simp add: rival_def)
  qed
  obtain ns' where a: "alloc_pidmap 65536 rival page_end_ns = (32769, ns')"
    using rival_alloc by (cases "alloc_pidmap 65536 rival page_end_ns") simp
  from alloc_pidmap_unique[OF rival_ok page_end_ok(1) m a] obtain p ns1 where
    "32769 = int p" "took ns1 p ns'" "\<forall>q\<in>{0}. used ns' q" using h by fastforce
  then show ?thesis using a by (auto simp: took_def)
qed

end
