(* ===== verification/Pid.thy ===== *)
theory Pid
  imports Pidmap
begin

text \<open>
  Process identifiers (\<^verbatim>\<open>kernel/pid.c\<close>, \<^verbatim>\<open>include/linux/pid.h\<close>, \<^verbatim>\<open>include/linux/hash.h\<close>): the structures that stand for a
  number, the hash table that finds them, and the tasks attached to them. A chain of the table and a
  list of attached tasks are lists of addresses; new elements come in front (\<^verbatim>\<open>hlist_add_head_rcu\<close>). \<open>None\<close>
  is an access to a structure that is not there. The table is shown to be a finite map from numbers
  to structures, through an interface (\<open>name_table\<close>) that speaks of any such table.
\<close>

subsection \<open>Hashing\<close>

definition GOLDEN_RATIO_PRIME :: u64 where "GOLDEN_RATIO_PRIME = 0x9e37fffffffc0001"

definition hash_long :: "u64 \<Rightarrow> nat \<Rightarrow> u64" where
  "hash_long v bits =
     (let hash = v; n = v;
          n = push_bit 18 n; hash = hash - n;
          n = push_bit 33 n; hash = hash - n;
          n = push_bit 3 n; hash = hash + n;
          n = push_bit 3 n; hash = hash - n;
          n = push_bit 4 n; hash = hash + n;
          n = push_bit 2 n; hash = hash + n
      in drop_bit (64 - bits) hash)"

definition pid_hashfn :: "nat \<Rightarrow> nat \<Rightarrow> nat" where
  "pid_hashfn shift nr = unat (hash_long (of_nat nr) shift)"

fun fls_from :: "u32 \<Rightarrow> nat \<Rightarrow> nat" where
  "fls_from w 0 = 0"
| "fls_from w (Suc n) = (if bit w n then Suc n else fls_from w n)"

definition fls :: "u32 \<Rightarrow> nat" where
  "fls x = fls_from x 32"

subsection \<open>State\<close>

datatype pid_type = PIDTYPE_PID | PIDTYPE_PGID | PIDTYPE_SID

record pid_struct =
  p_count :: s32
  nr :: nat
  ptasks :: "pid_type \<Rightarrow> nat list"

record pids =
  pid_ns :: pid_namespace
  structs :: "nat \<Rightarrow> pid_struct option"
  pidhash_shift :: nat
  pid_hash :: "nat \<Rightarrow> nat list"
  links :: "nat \<Rightarrow> pid_type \<Rightarrow> nat option"
  rcu :: "nat list"
  usage :: "nat \<Rightarrow> s32"
  ns_kref :: "s32 option"

definition pidhash_init :: "u64 \<Rightarrow> pids \<Rightarrow> pids" where
  "pidhash_init nr_kernel_pages s =
     (let megabytes = drop_bit 8 nr_kernel_pages;
          shift = min 12 (max 4 (fls (ucast (megabytes * 4))))
      in s\<lparr>pidhash_shift := shift, pid_hash := (\<lambda>_. [])\<rparr>)"

definition upd_struct :: "nat \<Rightarrow> (pid_struct \<Rightarrow> pid_struct) \<Rightarrow> pids \<Rightarrow> pids option" where
  "upd_struct a f s = (case structs s a of None \<Rightarrow> None | Some p \<Rightarrow> Some (s\<lparr>structs := (structs s)(a \<mapsto> f p)\<rparr>))"

subsection \<open>Operations\<close>

definition get_pid :: "nat option \<Rightarrow> pids \<Rightarrow> pids option" where
  "get_pid pid s = (case pid of None \<Rightarrow> Some s | Some a \<Rightarrow> upd_struct a (\<lambda>p. p\<lparr>p_count := p_count p + 1\<rparr>) s)"

definition put_pid :: "nat option \<Rightarrow> pids \<Rightarrow> pids option" where
  "put_pid pid s = (case pid of
     None \<Rightarrow> Some s
   | Some a \<Rightarrow> (case structs s a of
       None \<Rightarrow> None
     | Some p \<Rightarrow>
         if p_count p = 1 \<or> p_count p - 1 = 0 then Some (s\<lparr>structs := (structs s)(a := None)\<rparr>)
         else Some (s\<lparr>structs := (structs s)(a \<mapsto> p\<lparr>p_count := p_count p - 1\<rparr>)\<rparr>)))"

text \<open>The oldest of the callbacks left with \<^verbatim>\<open>call_rcu\<close> runs.\<close>

definition delayed_put_pid :: "pids \<Rightarrow> pids option" where
  "delayed_put_pid s = (case rcu s of [] \<Rightarrow> None | a # as \<Rightarrow> put_pid (Some a) (s\<lparr>rcu := as\<rparr>))"

definition free_pid :: "nat \<Rightarrow> pids \<Rightarrow> pids option" where
  "free_pid a s = (case structs s a of
     None \<Rightarrow> None
   | Some p \<Rightarrow>
       let b = pid_hashfn (pidhash_shift s) (nr p);
           s = s\<lparr>pid_hash := (pid_hash s)(b := remove1 a (pid_hash s b))\<rparr>
       in case free_pidmap (nr p) (pid_ns s) of
            None \<Rightarrow> None
          | Some ns \<Rightarrow> Some (s\<lparr>pid_ns := ns, rcu := rcu s @ [a]\<rparr>))"

text \<open>\<open>kmem\<close> is what \<^verbatim>\<open>kmem_cache_alloc\<close> answers.\<close>

definition alloc_pid ::
  "nat \<Rightarrow> (nat \<Rightarrow> pid_namespace \<Rightarrow> bool \<times> pid_namespace) \<Rightarrow> nat option \<Rightarrow> pids \<Rightarrow> nat option \<times> pids"
where
  "alloc_pid pid_max kz kmem s = (case kmem of
     None \<Rightarrow> (None, s)
   | Some a \<Rightarrow>
       let (n, ns) = alloc_pidmap pid_max kz (pid_ns s); s = s\<lparr>pid_ns := ns\<rparr>
       in if n < 0 then (None, s)
          else let p = \<lparr>p_count = 1, nr = nat n, ptasks = (\<lambda>_. [])\<rparr>;
                   b = pid_hashfn (pidhash_shift s) (nr p)
               in (Some a, s\<lparr>structs := (structs s)(a \<mapsto> p), pid_hash := (pid_hash s)(b := a # pid_hash s b)\<rparr>))"

fun find_in_chain :: "nat \<Rightarrow> nat list \<Rightarrow> pids \<Rightarrow> nat option option" where
  "find_in_chain n [] s = Some None"
| "find_in_chain n (a # as) s = (case structs s a of
     None \<Rightarrow> None
   | Some p \<Rightarrow> if nr p = n then Some (Some a) else find_in_chain n as s)"

definition find_pid :: "nat \<Rightarrow> pids \<Rightarrow> nat option option" where
  "find_pid n s = find_in_chain n (pid_hash s (pid_hashfn (pidhash_shift s) n)) s"

definition attach_pid :: "nat \<Rightarrow> pid_type \<Rightarrow> nat \<Rightarrow> pids \<Rightarrow> pids option" where
  "attach_pid t ty a s =
     upd_struct a (\<lambda>p. p\<lparr>ptasks := (ptasks p)(ty := t # ptasks p ty)\<rparr>) (s\<lparr>links := (links s)(t := (links s t)(ty \<mapsto> a))\<rparr>)"

definition detach_pid :: "nat \<Rightarrow> pid_type \<Rightarrow> pids \<Rightarrow> pids option" where
  "detach_pid t ty s = do {
     a \<leftarrow> links s t ty;
     s \<leftarrow> upd_struct a (\<lambda>p. p\<lparr>ptasks := (ptasks p)(ty := remove1 t (ptasks p ty))\<rparr>) s;
     let s = s\<lparr>links := (links s)(t := (links s t)(ty := None))\<rparr>;
     p \<leftarrow> structs s a;
     if ptasks p PIDTYPE_SID \<noteq> [] \<or> ptasks p PIDTYPE_PGID \<noteq> [] \<or> ptasks p PIDTYPE_PID \<noteq> [] then Some s
     else free_pid a s }"

text \<open>\<^verbatim>\<open>hlist_replace_rcu\<close>: the new node takes the place of the old one.\<close>

definition transfer_pid :: "nat \<Rightarrow> nat \<Rightarrow> pid_type \<Rightarrow> pids \<Rightarrow> pids option" where
  "transfer_pid old new ty s = do {
     a \<leftarrow> links s old ty;
     s \<leftarrow> upd_struct a (\<lambda>p. p\<lparr>ptasks := (ptasks p)(ty := map (\<lambda>t. if t = old then new else t) (ptasks p ty))\<rparr>)
           (s\<lparr>links := (links s)(new := (links s new)(ty \<mapsto> a))\<rparr>);
     Some (s\<lparr>links := (links s)(old := (links s old)(ty := None))\<rparr>) }"

definition pid_task :: "nat option \<Rightarrow> pid_type \<Rightarrow> pids \<Rightarrow> nat option option" where
  "pid_task pid ty s = (case pid of
     None \<Rightarrow> Some None
   | Some a \<Rightarrow> (case structs s a of
       None \<Rightarrow> None
     | Some p \<Rightarrow> Some (case ptasks p ty of [] \<Rightarrow> None | t # ts \<Rightarrow> Some t)))"

definition find_task_by_pid_type :: "pid_type \<Rightarrow> nat \<Rightarrow> pids \<Rightarrow> nat option option" where
  "find_task_by_pid_type ty n s = do { pid \<leftarrow> find_pid n s; pid_task pid ty s }"

definition get_task_pid :: "nat \<Rightarrow> pid_type \<Rightarrow> pids \<Rightarrow> (nat option \<times> pids) option" where
  "get_task_pid t ty s = do { s' \<leftarrow> get_pid (links s t ty) s; Some (links s t ty, s') }"

definition get_task_struct :: "nat \<Rightarrow> pids \<Rightarrow> pids" where
  "get_task_struct t s = s\<lparr>usage := (usage s)(t := usage s t + 1)\<rparr>"

definition get_pid_task :: "nat option \<Rightarrow> pid_type \<Rightarrow> pids \<Rightarrow> (nat option \<times> pids) option" where
  "get_pid_task pid ty s = do {
     result \<leftarrow> pid_task pid ty s;
     Some (result, case result of None \<Rightarrow> s | Some t \<Rightarrow> get_task_struct t s) }"

definition find_get_pid :: "nat \<Rightarrow> pids \<Rightarrow> (nat option \<times> pids) option" where
  "find_get_pid n s = do { pid \<leftarrow> find_pid n s; s \<leftarrow> get_pid pid s; Some (pid, s) }"

text \<open>The namespace's own count of references; \<open>None\<close> once it is freed. There is one namespace, so \<^verbatim>\<open>copy_pid_ns\<close> is
  told only whether it was given one (a null pointer is a \<^verbatim>\<open>BUG_ON\<close>).\<close>

definition get_pid_ns :: "pids \<Rightarrow> pids option" where
  "get_pid_ns s = (case ns_kref s of None \<Rightarrow> None | Some c \<Rightarrow> Some (s\<lparr>ns_kref := Some (c + 1)\<rparr>))"

definition copy_pid_ns :: "bool \<Rightarrow> pids \<Rightarrow> pids option" where
  "copy_pid_ns old_ns s = (if \<not> old_ns then None else get_pid_ns s)"

definition free_pid_ns :: "pids \<Rightarrow> pids" where
  "free_pid_ns s = s\<lparr>ns_kref := None\<rparr>"

definition put_pid_ns :: "pids \<Rightarrow> pids option" where
  "put_pid_ns s = (case ns_kref s of None \<Rightarrow> None
     | Some c \<Rightarrow> Some (if c - 1 = 0 then free_pid_ns s else s\<lparr>ns_kref := Some (c - 1)\<rparr>))"

text \<open>\<^verbatim>\<open>find_ge_pid\<close>: the loop goes on to ever larger numbers.\<close>

lemma next_pidmap_progress: "0 < next_pidmap n ns \<Longrightarrow>
  PIDMAP_ENTRIES * BITS_PER_PAGE - nat (next_pidmap n ns) < PIDMAP_ENTRIES * BITS_PER_PAGE - n"
  using next_pidmap_spec[of n ns] by (auto simp: div_less_iff_less_mult)

function find_ge_pid :: "nat \<Rightarrow> pids \<Rightarrow> nat option option" where
  "find_ge_pid n s = (case find_pid n s of
     None \<Rightarrow> None
   | Some (Some a) \<Rightarrow> Some (Some a)
   | Some None \<Rightarrow>
       let n' = next_pidmap n (pid_ns s)
       in if 0 < n' then find_ge_pid (nat n') s else Some None)"
  by pat_completeness auto
termination
  by (relation "measure (\<lambda>(n, s). PIDMAP_ENTRIES * BITS_PER_PAGE - n)") (auto simp: next_pidmap_progress)

declare find_ge_pid.simps [simp del]

subsection \<open>The hash function\<close>

lemma hash_long_multiplies: "hash_long v bits = drop_bit (64 - bits) (v * GOLDEN_RATIO_PRIME)"
proof -
  have "v * GOLDEN_RATIO_PRIME = v - v * 2 ^ 18 - v * 2 ^ 51 + v * 2 ^ 54 - v * 2 ^ 57 + v * 2 ^ 61 + v * 2 ^ 63"
    by (simp add: GOLDEN_RATIO_PRIME_def algebra_simps)
  then show ?thesis by (simp add: hash_long_def Let_def push_bit_eq_mult algebra_simps flip: power_add)
qed

lemma pid_hashfn_bound: "shift \<le> 64 \<Longrightarrow> pid_hashfn shift n < 2 ^ shift"
proof -
  assume sh: "shift \<le> 64"
  let ?w = "of_nat n * GOLDEN_RATIO_PRIME"
  have "take_bit 64 (unat ?w) = unat ?w"
    using unsigned_less[of ?w, where 'a = nat] by (simp add: take_bit_nat_eq_self_iff)
  then have "pid_hashfn shift n = drop_bit (64 - shift) (unat ?w)"
    by (simp add: pid_hashfn_def hash_long_multiplies unsigned_drop_bit_eq)
  moreover have "unat ?w < 2 ^ shift * 2 ^ (64 - shift)"
    using unsigned_less[of ?w, where 'a = nat] sh by (simp flip: power_add)
  ultimately show ?thesis by (simp add: drop_bit_eq_div div_less_iff_less_mult)
qed

subsection \<open>A table of names\<close>

text \<open>What a table that gives names to objects promises: an object that is entered gets a name that nobody
  had, one that is taken out is found no more, and nothing else changes what is found.\<close>

datatype 'x table_op = Enter nat | Leave nat | Other 'x

fun table_run ::
  "(nat \<Rightarrow> 's \<Rightarrow> bool) \<Rightarrow> (nat \<Rightarrow> 's \<Rightarrow> bool \<times> 's) \<Rightarrow> (nat \<Rightarrow> 's \<Rightarrow> 's option) \<Rightarrow> ('x \<Rightarrow> 's \<Rightarrow> 's option) \<Rightarrow>
   'x table_op list \<Rightarrow> nat set \<times> 's \<Rightarrow> (nat set \<times> 's) option"
where
  "table_run fresh enter leave other [] r = Some r"
| "table_run fresh enter leave other (Enter a # ops) (live, s) =
     (if fresh a s then let (ok, s) = enter a s in table_run fresh enter leave other ops (if ok then insert a live else live, s) else None)"
| "table_run fresh enter leave other (Leave a # ops) (live, s) =
     (if a \<in> live then case leave a s of None \<Rightarrow> None | Some s \<Rightarrow> table_run fresh enter leave other ops (live - {a}, s) else None)"
| "table_run fresh enter leave other (Other x # ops) (live, s) =
     (case other x s of None \<Rightarrow> None | Some s \<Rightarrow> table_run fresh enter leave other ops (live, s))"

locale name_table =
  fixes inv :: "'s \<Rightarrow> bool" and lookup :: "'s \<Rightarrow> nat \<Rightarrow> nat option" and fresh :: "nat \<Rightarrow> 's \<Rightarrow> bool"
    and enter :: "nat \<Rightarrow> 's \<Rightarrow> bool \<times> 's" and leave :: "nat \<Rightarrow> 's \<Rightarrow> 's option" and other :: "'x \<Rightarrow> 's \<Rightarrow> 's option"
  assumes enter_ok: "inv s \<Longrightarrow> fresh a s \<Longrightarrow> enter a s = (True, s') \<Longrightarrow>
      inv s' \<and> (\<exists>n. lookup s n = None \<and> lookup s' = (lookup s)(n \<mapsto> a))"
    and enter_fails: "inv s \<Longrightarrow> fresh a s \<Longrightarrow> enter a s = (False, s') \<Longrightarrow> inv s' \<and> lookup s' = lookup s"
    and leave_ok: "inv s \<Longrightarrow> lookup s n = Some a \<Longrightarrow> \<exists>s'. leave a s = Some s' \<and> inv s' \<and> lookup s' = (lookup s)(n := None)"
    and other_ok: "inv s \<Longrightarrow> other x s = Some s' \<Longrightarrow> inv s' \<and> lookup s' = lookup s"
    and one_name: "inv s \<Longrightarrow> lookup s n = Some a \<Longrightarrow> lookup s n' = Some a \<Longrightarrow> n = n'"
    and fresh_unknown: "inv s \<Longrightarrow> fresh a s \<Longrightarrow> lookup s n \<noteq> Some a"
begin

lemma ran_leave: "inv s \<Longrightarrow> lookup s n = Some a \<Longrightarrow> ran ((lookup s)(n := None)) = ran (lookup s) - {a}"
proof -
  assume i: "inv s" and n: "lookup s n = Some a"
  have "x \<in> ran ((lookup s)(n := None)) \<longleftrightarrow> (\<exists>m. m \<noteq> n \<and> lookup s m = Some x)" for x unfolding ran_def by auto
  moreover have "m \<noteq> n \<and> lookup s m = Some x \<longleftrightarrow> lookup s m = Some x \<and> x \<noteq> a" for x m
    using one_name[OF i _ n, of m] n by (cases "m = n") auto
  ultimately show ?thesis unfolding ran_def by blast
qed

lemma run_live:
  "table_run fresh enter leave other ops (live, s) = Some (live', s') \<Longrightarrow> inv s \<Longrightarrow> ran (lookup s) = live \<Longrightarrow>
   inv s' \<and> ran (lookup s') = live'"
proof (induction ops arbitrary: live s)
  case (Cons op ops)
  show ?case
  proof (cases op)
    case (Enter a)
    obtain ok s1 where e: "enter a s = (ok, s1)" by (cases "enter a s")
    have f: "fresh a s" and r: "table_run fresh enter leave other ops (if ok then insert a live else live, s1) = Some (live', s')"
      using Cons.prems(1) Enter e by (auto split: if_splits)
    have "inv s1 \<and> ran (lookup s1) = (if ok then insert a live else live)"
    proof (cases ok)
      case True
      then obtain n where "inv s1" "lookup s n = None" "lookup s1 = (lookup s)(n \<mapsto> a)" using enter_ok[OF Cons.prems(2) f] e by auto
      then show ?thesis using True Cons.prems(3) by simp
    next
      case False
      then show ?thesis using enter_fails[OF Cons.prems(2) f] e Cons.prems(3) by simp
    qed
    then show ?thesis using Cons.IH[OF r] by blast
  next
    case (Leave a)
    then have "a \<in> ran (lookup s)" using Cons.prems by (auto split: if_splits)
    then obtain n where n: "lookup s n = Some a" by (auto simp: ran_def)
    from leave_ok[OF Cons.prems(2) n] obtain s1 where s1: "leave a s = Some s1" "inv s1" "lookup s1 = (lookup s)(n := None)" by auto
    have "table_run fresh enter leave other ops (live - {a}, s1) = Some (live', s')" using Cons.prems(1) Leave s1(1) by (simp split: if_splits)
    moreover have "ran (lookup s1) = live - {a}" unfolding s1(3) using ran_leave[OF Cons.prems(2) n] Cons.prems(3) by simp
    ultimately show ?thesis using Cons.IH s1(2) by blast
  next
    case (Other x)
    then obtain s1 where s1: "other x s = Some s1" "table_run fresh enter leave other ops (live, s1) = Some (live', s')"
      using Cons.prems(1) by (auto split: option.splits)
    then show ?thesis using Cons.IH[OF s1(2)] other_ok[OF Cons.prems(2) s1(1)] Cons.prems(3) by simp
  qed
qed simp

lemma run_names:
  assumes "table_run fresh enter leave other ops ({}, s) = Some (live, s')" "inv s" "lookup s = Map.empty"
  shows "a \<in> live \<Longrightarrow> \<exists>!n. lookup s' n = Some a" "a \<notin> live \<Longrightarrow> lookup s' n \<noteq> Some a"
proof -
  have i: "inv s'" and r: "ran (lookup s') = live" using run_live[OF assms(1,2)] assms(3) by simp_all
  show "a \<in> live \<Longrightarrow> \<exists>!n. lookup s' n = Some a" using one_name[OF i] unfolding r[symmetric] ran_def by blast
  show "a \<notin> live \<Longrightarrow> lookup s' n \<noteq> Some a" unfolding r[symmetric] ran_def by blast
qed

end

subsection \<open>The table is a map\<close>

definition in_table :: "pids \<Rightarrow> nat \<Rightarrow> nat \<Rightarrow> bool" where
  "in_table s n a \<longleftrightarrow> a \<in> set (pid_hash s (pid_hashfn (pidhash_shift s) n)) \<and> map_option nr (structs s a) = Some n"

definition table_ok :: "pids \<Rightarrow> bool" where
  "table_ok s \<longleftrightarrow> ns_ok (pid_ns s) \<and> (\<forall>b. distinct (pid_hash s b)) \<and>
     (\<forall>b. \<forall>a\<in>set (pid_hash s b). \<exists>n. in_table s n a \<and> b = pid_hashfn (pidhash_shift s) n \<and> n \<noteq> 0 \<and> used (pid_ns s) n) \<and>
     (\<forall>n a a'. in_table s n a \<longrightarrow> in_table s n a' \<longrightarrow> a = a') \<and>
     distinct (rcu s) \<and> (\<forall>a\<in>set (rcu s). structs s a \<noteq> None \<and> (\<forall>n. \<not> in_table s n a))"

definition lookup :: "pids \<Rightarrow> nat \<Rightarrow> nat option" where
  "lookup s n = (case find_pid n s of None \<Rightarrow> None | Some r \<Rightarrow> r)"

lemma table_ok_facts:
  assumes "table_ok s"
  shows "ns_ok (pid_ns s)" "distinct (pid_hash s b)" "in_table s n a \<Longrightarrow> in_table s n a' \<Longrightarrow> a = a'"
    "in_table s n a \<Longrightarrow> n \<noteq> 0 \<and> used (pid_ns s) n"
    "a \<in> set (pid_hash s b) \<Longrightarrow> \<exists>n. in_table s n a \<and> b = pid_hashfn (pidhash_shift s) n \<and> n \<noteq> 0 \<and> used (pid_ns s) n"
    "a \<in> set (rcu s) \<Longrightarrow> \<not> in_table s n a" "distinct (rcu s)" "a \<in> set (rcu s) \<Longrightarrow> structs s a \<noteq> None"
proof -
  show 5: "a \<in> set (pid_hash s b) \<Longrightarrow> \<exists>n. in_table s n a \<and> b = pid_hashfn (pidhash_shift s) n \<and> n \<noteq> 0 \<and> used (pid_ns s) n" for a b
    using assms unfolding table_ok_def by blast
  show "in_table s n a \<Longrightarrow> n \<noteq> 0 \<and> used (pid_ns s) n"
    using 5[of a "pid_hashfn (pidhash_shift s) n"] by (auto simp: in_table_def)
qed (use assms in \<open>unfold table_ok_def, blast+\<close>)

lemma in_table_nr: "in_table s n a \<Longrightarrow> in_table s n' a \<Longrightarrow> n = n'"
  by (auto simp: in_table_def)

lemma find_in_chain_spec:
  assumes "\<And>a. a \<in> set as \<Longrightarrow> structs s a \<noteq> None"
  shows "find_in_chain n as s = Some (List.find (\<lambda>a. map_option nr (structs s a) = Some n) as)"
  using assms by (induction as) (auto split: option.splits)

lemma find_pid_spec:
  assumes ok: "table_ok s"
  shows "find_pid n s = Some (lookup s n)" "lookup s n = Some a \<longleftrightarrow> in_table s n a"
proof -
  let ?c = "pid_hash s (pid_hashfn (pidhash_shift s) n)"
  have "structs s a \<noteq> None" if "a \<in> set ?c" for a
    using table_ok_facts(5)[OF ok that] by (auto simp: in_table_def)
  then have f: "find_pid n s = Some (List.find (\<lambda>a. map_option nr (structs s a) = Some n) ?c)"
    unfolding find_pid_def by (rule find_in_chain_spec)
  then show "find_pid n s = Some (lookup s n)" by (simp add: lookup_def)
  have l: "lookup s n = List.find (\<lambda>a. map_option nr (structs s a) = Some n) ?c" using f by (simp add: lookup_def)
  show "lookup s n = Some a \<longleftrightarrow> in_table s n a"
  proof
    assume "lookup s n = Some a"
    then show "in_table s n a" unfolding l by (auto simp: find_Some_iff in_table_def)
  next
    assume a: "in_table s n a"
    then have "lookup s n \<noteq> None" unfolding l by (auto simp: find_None_iff in_table_def)
    then obtain a' where a': "lookup s n = Some a'" by auto
    then have "in_table s n a'" unfolding l by (auto simp: find_Some_iff in_table_def)
    then show "lookup s n = Some a" using a' table_ok_facts(3)[OF ok a] by simp
  qed
qed

lemma lookup_eqI:
  assumes "table_ok s" "table_ok s'" "\<And>n a. in_table s' n a \<longleftrightarrow> (if n = m then r = Some a else in_table s n a)"
  shows "lookup s' = (lookup s)(m := r)"
proof
  fix n
  have "lookup s' n = Some a \<longleftrightarrow> ((lookup s)(m := r)) n = Some a" for a using assms find_pid_spec(2) by simp
  then show "lookup s' n = ((lookup s)(m := r)) n" by (metis option.exhaust)
qed

text \<open>A structure may change as long as it keeps its number.\<close>

lemma upd_struct_keeps:
  assumes ok: "table_ok s" and u: "upd_struct a f (s\<lparr>links := l\<rparr>) = Some s'" and nr: "\<And>p. nr (f p) = nr p"
  shows "table_ok s' \<and> lookup s' = lookup s"
proof -
  obtain p where p: "structs s a = Some p" "s' = s\<lparr>links := l, structs := (structs s)(a \<mapsto> f p)\<rparr>"
    using u by (auto simp: upd_struct_def split: option.splits)
  have it: "in_table s' n x \<longleftrightarrow> in_table s n x" for n x using p nr by (simp add: in_table_def)
  have ok': "table_ok s'" using ok unfolding table_ok_def it using p by auto
  have "lookup s' = (lookup s)(0 := lookup s 0)"
    by (rule lookup_eqI[OF ok ok']) (use it find_pid_spec(2)[OF ok] in auto)
  then show ?thesis using ok' by simp
qed

lemma alloc_pid_cases:
  assumes q: "quiet kz" and ok: "ns_ok (pid_ns s)" and pm: "pid_max_min \<le> pid_max"
  obtains (fails) ns where "alloc_pid pid_max kz (Some a) s = (None, s\<lparr>pid_ns := ns\<rparr>)" "same (pid_ns s) ns"
  | (gets) n ns where "alloc_pid pid_max kz (Some a) s = (Some a, s\<lparr>pid_ns := ns,
        structs := (structs s)(a \<mapsto> \<lparr>p_count = 1, nr = n, ptasks = (\<lambda>_. [])\<rparr>),
        pid_hash := (pid_hash s)(pid_hashfn (pidhash_shift s) n := a # pid_hash s (pid_hashfn (pidhash_shift s) n))\<rparr>)"
      "took (pid_ns s) n ns" "\<not> used (pid_ns s) n" "n \<noteq> 0"
proof -
  obtain r ns where a: "alloc_pidmap pid_max kz (pid_ns s) = (r, ns)" by (cases "alloc_pidmap pid_max kz (pid_ns s)")
  note f = alloc_pidmap_finds[OF q ok pid_max_reserved[OF pm] a]
  show ?thesis
  proof (cases "List.find (\<lambda>p. \<not> used (pid_ns s) p) (candidates pid_max (last_pid (pid_ns s)))")
    case None
    then have "r = -1" "same (pid_ns s) ns" using f by simp_all
    then show ?thesis using a by (intro fails[of ns]) (simp_all add: alloc_pid_def)
  next
    case (Some n)
    then have n: "r = int n" "took (pid_ns s) n ns" using f by simp_all
    have n3: "\<not> used (pid_ns s) n" using Some by (auto simp: find_Some_iff)
    moreover have "n \<noteq> 0" using n3 ok by (metis ns_ok_def)
    ultimately show ?thesis using a n n3 by (intro gets[of n ns]) (simp_all add: alloc_pid_def Let_def)
  qed
qed

definition pid_fresh :: "nat \<Rightarrow> pids \<Rightarrow> bool" where
  "pid_fresh a s \<longleftrightarrow> structs s a = None"

definition pid_enter :: "nat \<Rightarrow> (nat \<Rightarrow> pid_namespace \<Rightarrow> bool \<times> pid_namespace) \<Rightarrow> nat \<Rightarrow> pids \<Rightarrow> bool \<times> pids" where
  "pid_enter pid_max kz a s = (case alloc_pid pid_max kz (Some a) s of (r, s) \<Rightarrow> (r \<noteq> None, s))"

datatype pid_other = Callback | Get nat | Attach nat pid_type nat | Transfer nat nat pid_type
  | GetTask nat pid_type | CopyNs bool | PutNs

definition pid_do :: "pid_other \<Rightarrow> pids \<Rightarrow> pids option" where
  "pid_do x s = (case x of Callback \<Rightarrow> delayed_put_pid s | Get a \<Rightarrow> get_pid (Some a) s
     | Attach t ty a \<Rightarrow> attach_pid t ty a s | Transfer old new ty \<Rightarrow> transfer_pid old new ty s
     | GetTask a ty \<Rightarrow> map_option snd (get_pid_task (Some a) ty s) | CopyNs b \<Rightarrow> copy_pid_ns b s | PutNs \<Rightarrow> put_pid_ns s)"

lemma same_ns_keeps:
  assumes ok: "table_ok s" and ns: "same (pid_ns s) ns"
  shows "table_ok (s\<lparr>pid_ns := ns\<rparr>) \<and> lookup (s\<lparr>pid_ns := ns\<rparr>) = lookup s"
proof -
  have it: "in_table (s\<lparr>pid_ns := ns\<rparr>) n x \<longleftrightarrow> in_table s n x" for n x by (simp add: in_table_def)
  have u: "ns_ok ns" "\<And>q. used ns q \<longleftrightarrow> used (pid_ns s) q" using ns by (simp_all add: same_def)
  have ok': "table_ok (s\<lparr>pid_ns := ns\<rparr>)" using ok u(1) unfolding table_ok_def it by (simp add: u(2))
  have "lookup (s\<lparr>pid_ns := ns\<rparr>) = (lookup s)(0 := lookup s 0)"
    by (rule lookup_eqI[OF ok ok']) (use it find_pid_spec(2)[OF ok] in auto)
  then show ?thesis using ok' by simp
qed

lemma gets_keeps:
  assumes ok: "table_ok s" and fr: "structs s a = None" and n: "took (pid_ns s) n ns" "\<not> used (pid_ns s) n" "n \<noteq> 0"
    and s': "s' = s\<lparr>pid_ns := ns, structs := (structs s)(a \<mapsto> \<lparr>p_count = 1, nr = n, ptasks = (\<lambda>_. [])\<rparr>),
        pid_hash := (pid_hash s)(pid_hashfn (pidhash_shift s) n := a # pid_hash s (pid_hashfn (pidhash_shift s) n))\<rparr>"
  shows "table_ok s' \<and> lookup s n = None \<and> lookup s' = (lookup s)(n \<mapsto> a)"
proof -
  have new: "\<not> in_table s n x" for x using table_ok_facts(4)[OF ok] n(2) by blast
  have na: "a \<notin> set (pid_hash s b)" for b using table_ok_facts(5)[OF ok, of a b] fr by (auto simp: in_table_def)
  have it: "in_table s' m x \<longleftrightarrow> (if m = n then x = a else in_table s m x)" for m x
    using new[of x] fr na by (auto simp: in_table_def s')
  have u: "ns_ok ns" "\<And>q. used ns q \<longleftrightarrow> q = n \<or> used (pid_ns s) q" using n(1) by (simp_all add: took_def)
  have chain: "\<exists>m. in_table s' m x \<and> b = pid_hashfn (pidhash_shift s') m \<and> m \<noteq> 0 \<and> used (pid_ns s') m"
    if "x \<in> set (pid_hash s' b)" for b x
  proof (cases "x = a")
    case True
    then have "b = pid_hashfn (pidhash_shift s) n" using that na by (auto simp: s' split: if_splits)
    then show ?thesis using it[of n a] True n(3) u(2) by (intro exI[of _ n]) (simp add: s')
  next
    case False
    then have "x \<in> set (pid_hash s b)" using that by (auto simp: s' split: if_splits)
    then obtain m where m: "in_table s m x" "b = pid_hashfn (pidhash_shift s) m" "m \<noteq> 0" "used (pid_ns s) m"
      using table_ok_facts(5)[OF ok] by blast
    then have "m \<noteq> n" using n(2) by auto
    then show ?thesis using m it[of m x] u(2) by (intro exI[of _ m]) (simp add: s')
  qed
  have rc: "structs s' x \<noteq> None \<and> (\<forall>m. \<not> in_table s' m x)" if "x \<in> set (rcu s)" for x
  proof -
    have "x \<noteq> a" using table_ok_facts(8)[OF ok that] fr by auto
    then show ?thesis using table_ok_facts(6,8)[OF ok that] it by (auto simp: s')
  qed
  have ok': "table_ok s'" unfolding table_ok_def
  proof (intro conjI allI ballI impI)
    show "x = x'" if "in_table s' m x" "in_table s' m x'" for m x x'
      using that table_ok_facts(3)[OF ok] unfolding it by (cases "m = n") auto
    show "distinct (pid_hash s' b)" for b using table_ok_facts(2)[OF ok] na by (simp add: s')
  qed (use chain rc table_ok_facts(7)[OF ok] u(1) in \<open>auto simp: s'\<close>)
  have "lookup s n = None" using new find_pid_spec(2)[OF ok, of n] by (metis option.exhaust)
  moreover have "lookup s' = (lookup s)(n \<mapsto> a)" by (rule lookup_eqI[OF ok ok']) (use it in auto)
  ultimately show ?thesis using ok' by blast
qed

lemma free_pid_keeps:
  assumes ok: "table_ok s" and a: "in_table s n a"
  shows "\<exists>s'. free_pid a s = Some s' \<and> table_ok s' \<and> lookup s' = (lookup s)(n := None)"
proof -
  obtain p where p: "structs s a = Some p" "nr p = n" using a by (auto simp: in_table_def)
  have un: "n \<noteq> 0" "used (pid_ns s) n" using table_ok_facts(4)[OF ok a] by auto
  obtain ns where ns: "free_pidmap n (pid_ns s) = Some ns" "ns_ok ns" "\<And>q. used ns q \<longleftrightarrow> q \<noteq> n \<and> used (pid_ns s) q"
    using free_pidmap_spec[OF table_ok_facts(1)[OF ok] un(2,1)] by blast
  let ?b = "pid_hashfn (pidhash_shift s) n"
  define s' where "s' = s\<lparr>pid_hash := (pid_hash s)(?b := remove1 a (pid_hash s ?b)), pid_ns := ns, rcu := rcu s @ [a]\<rparr>"
  have free: "free_pid a s = Some s'" using p ns(1) by (simp add: free_pid_def s'_def Let_def)
  have set': "x \<in> set (pid_hash s' b) \<longleftrightarrow> x \<in> set (pid_hash s b) \<and> (x = a \<longrightarrow> b \<noteq> ?b)" for x b
    using table_ok_facts(2)[OF ok, of ?b] by (auto simp: s'_def)
  have it: "in_table s' m x \<longleftrightarrow> m \<noteq> n \<and> in_table s m x" for m x
  proof (cases "x = a")
    case True
    then show ?thesis using p set'[of a] by (auto simp: in_table_def s'_def)
  next
    case False
    then have "\<not> in_table s n x" using table_ok_facts(3)[OF ok a] by blast
    then show ?thesis using False set'[of x] by (auto simp: in_table_def s'_def)
  qed
  have chain: "\<exists>m. in_table s' m x \<and> b = pid_hashfn (pidhash_shift s') m \<and> m \<noteq> 0 \<and> used (pid_ns s') m"
    if x: "x \<in> set (pid_hash s' b)" for b x
  proof -
    obtain m where m: "in_table s m x" "b = pid_hashfn (pidhash_shift s) m" "m \<noteq> 0" "used (pid_ns s) m"
      using table_ok_facts(5)[OF ok, of x b] x set' by blast
    have "m \<noteq> n" using m a x set' table_ok_facts(3)[OF ok, of n] by blast
    then show ?thesis using m it ns(3) by (intro exI[of _ m]) (simp add: s'_def)
  qed
  have "a \<notin> set (rcu s)" using table_ok_facts(6)[OF ok] a by blast
  then have rc: "distinct (rcu s')" "\<And>x. x \<in> set (rcu s') \<Longrightarrow> structs s' x \<noteq> None \<and> (\<forall>m. \<not> in_table s' m x)"
    using table_ok_facts(6-8)[OF ok] p(1) it in_table_nr[OF a] by (auto simp: s'_def)
  have ok': "table_ok s'" unfolding table_ok_def
  proof (intro conjI allI ballI impI)
    show "x = x'" if "in_table s' m x" "in_table s' m x'" for m x x' using that table_ok_facts(3)[OF ok] unfolding it by blast
    show "distinct (pid_hash s' b)" for b using table_ok_facts(2)[OF ok] by (simp add: s'_def)
    show "ns_ok (pid_ns s')" using ns(2) by (simp add: s'_def)
  qed (use chain rc in auto)
  moreover have "lookup s' = (lookup s)(n := None)" by (rule lookup_eqI[OF ok ok']) (use it in auto)
  ultimately show ?thesis using free by blast
qed

lemma callback_keeps:
  assumes ok: "table_ok s" and c: "delayed_put_pid s = Some s'"
  shows "table_ok s' \<and> lookup s' = lookup s"
proof -
  obtain a as where r: "rcu s = a # as" using c by (auto simp: delayed_put_pid_def split: list.splits)
  have "a \<in> set (rcu s)" by (simp add: r)
  note ain = table_ok_facts(6,8)[OF ok this]
  have na: "a \<notin> set (pid_hash s b)" for b using table_ok_facts(5)[OF ok, of a b] ain(1) by blast
  obtain v where s': "s' = s\<lparr>rcu := as, structs := (structs s)(a := v)\<rparr>"
    using c ain(2) by (auto simp: delayed_put_pid_def r put_pid_def split: if_splits)
  have it: "in_table s' n x \<longleftrightarrow> in_table s n x" for n x using na ain(1) by (auto simp: in_table_def s')
  have "structs s' x \<noteq> None" if "x \<in> set as" for x
    using table_ok_facts(7,8)[OF ok] that by (auto simp: r s')
  then have ok': "table_ok s'" using ok unfolding table_ok_def it by (auto simp: s' r)
  have "lookup s' = (lookup s)(0 := lookup s 0)"
    by (rule lookup_eqI[OF ok ok']) (use it find_pid_spec(2)[OF ok] in auto)
  then show ?thesis using ok' by simp
qed

lemma same_table_keeps:
  assumes ok: "table_ok s" and same: "structs s' = structs s" "pid_hash s' = pid_hash s" "pidhash_shift s' = pidhash_shift s"
    "pid_ns s' = pid_ns s" "rcu s' = rcu s"
  shows "table_ok s' \<and> lookup s' = lookup s"
proof -
  have it: "in_table s' n x \<longleftrightarrow> in_table s n x" for n x by (simp add: in_table_def same)
  have ok': "table_ok s'" using ok unfolding table_ok_def it same by simp
  have "lookup s' = (lookup s)(0 := lookup s 0)"
    by (rule lookup_eqI[OF ok ok']) (use it find_pid_spec(2)[OF ok] in auto)
  then show ?thesis using ok' by simp
qed

lemma links_keeps: "table_ok s \<Longrightarrow> table_ok (s\<lparr>links := l\<rparr>) \<and> lookup (s\<lparr>links := l\<rparr>) = lookup s"
  by (rule same_table_keeps) simp_all

lemmas reference_defs = get_pid_task_def get_task_struct_def copy_pid_ns_def get_pid_ns_def put_pid_ns_def free_pid_ns_def

lemma references_keep:
  assumes "table_ok s"
  shows "get_pid_task pid ty s = Some (r, s') \<Longrightarrow> table_ok s' \<and> lookup s' = lookup s"
    and "copy_pid_ns old s = Some s' \<Longrightarrow> table_ok s' \<and> lookup s' = lookup s"
    and "put_pid_ns s = Some s' \<Longrightarrow> table_ok s' \<and> lookup s' = lookup s"
  by (rule same_table_keeps[OF assms];
      auto simp: reference_defs split: option.splits if_splits Option.bind_splits)+

text \<open>A reference that is taken and given back leaves the count as it was.\<close>

lemma copy_put_ns: "ns_kref s = Some c \<Longrightarrow> c \<noteq> 0 \<Longrightarrow> (do { s \<leftarrow> copy_pid_ns True s; put_pid_ns s }) = Some s"
  by (simp add: reference_defs)

lemma pid_do_keeps:
  assumes ok: "table_ok s" and d: "pid_do x s = Some s'"
  shows "table_ok s' \<and> lookup s' = lookup s"
proof (cases x)
  case Callback
  then show ?thesis using callback_keeps[OF ok] d by (simp add: pid_do_def)
next
  case (Get a)
  then show ?thesis using d upd_struct_keeps[OF ok, of a _ "links s"] by (simp add: pid_do_def get_pid_def)
next
  case (Attach t ty a)
  then show ?thesis using d upd_struct_keeps[OF ok, of a] by (simp add: pid_do_def attach_pid_def)
next
  case (Transfer old new ty)
  then obtain a s1 where s1: "upd_struct a (\<lambda>p. p\<lparr>ptasks := (ptasks p)(ty := map (\<lambda>t. if t = old then new else t) (ptasks p ty))\<rparr>)
      (s\<lparr>links := (links s)(new := (links s new)(ty \<mapsto> a))\<rparr>) = Some s1" "s' = s1\<lparr>links := (links s1)(old := (links s1 old)(ty := None))\<rparr>"
    using d by (auto simp: pid_do_def transfer_pid_def split: Option.bind_splits)
  then have "table_ok s1 \<and> lookup s1 = lookup s" by (intro upd_struct_keeps[OF ok s1(1)]) simp
  then show ?thesis using links_keeps[of s1] s1(2) by simp
qed (use d references_keep[OF ok] in \<open>auto simp: pid_do_def\<close>)

lemma pid_enter_keeps:
  assumes ok: "table_ok s" and fr: "pid_fresh a s" and pm: "pid_max_min \<le> pid_max" and q: "quiet kz"
    and e: "pid_enter pid_max kz a s = (b, s')"
  shows "b \<Longrightarrow> table_ok s' \<and> (\<exists>n. lookup s n = None \<and> lookup s' = (lookup s)(n \<mapsto> a))"
    "\<not> b \<Longrightarrow> table_ok s' \<and> lookup s' = lookup s"
proof -
  have "if b then table_ok s' \<and> (\<exists>n. lookup s n = None \<and> lookup s' = (lookup s)(n \<mapsto> a)) else table_ok s' \<and> lookup s' = lookup s"
  proof (cases rule: alloc_pid_cases[OF q table_ok_facts(1)[OF ok] pm, of a])
    case (1 ns)
    then show ?thesis using e same_ns_keeps[OF ok] by (auto simp: pid_enter_def)
  next
    case (2 n ns)
    from gets_keeps[OF ok fr[unfolded pid_fresh_def] 2(2-4) refl]
    have "table_ok s' \<and> lookup s n = None \<and> lookup s' = (lookup s)(n \<mapsto> a)" using e 2(1) by (simp add: pid_enter_def)
    then show ?thesis using e 2(1) by (auto simp: pid_enter_def)
  qed
  then show "b \<Longrightarrow> table_ok s' \<and> (\<exists>n. lookup s n = None \<and> lookup s' = (lookup s)(n \<mapsto> a))"
    "\<not> b \<Longrightarrow> table_ok s' \<and> lookup s' = lookup s" by simp_all
qed

text \<open>Pages can be had; \<open>pid_max\<close> is never set below its least value.\<close>

definition have_pages :: "nat \<Rightarrow> pid_namespace \<Rightarrow> bool \<times> pid_namespace" where
  "have_pages i ns = (True, ns)"

lemma have_pages_quiet: "quiet have_pages"
  by (simp add: quiet_def have_pages_def)

interpretation pt: name_table table_ok lookup pid_fresh "pid_enter (max pid_max_min pid_max) have_pages" free_pid pid_do
  for pid_max
proof
  fix s a s'
  assume s: "table_ok s" "pid_fresh a s"
  note e = pid_enter_keeps[OF s max.cobounded1 have_pages_quiet]
  show "table_ok s' \<and> (\<exists>n. lookup s n = None \<and> lookup s' = (lookup s)(n \<mapsto> a))"
    if "pid_enter (max pid_max_min pid_max) have_pages a s = (True, s')" using e(1)[OF that] by simp
  show "table_ok s' \<and> lookup s' = lookup s"
    if "pid_enter (max pid_max_min pid_max) have_pages a s = (False, s')" using e(2)[OF that] by simp
next
  fix s n a
  assume s: "table_ok s"
  show "\<exists>s'. free_pid a s = Some s' \<and> table_ok s' \<and> lookup s' = (lookup s)(n := None)" if "lookup s n = Some a"
    using free_pid_keeps[OF s] that find_pid_spec(2)[OF s] by simp
  show "n = n'" if "lookup s n = Some a" "lookup s n' = Some a" for n'
    using that in_table_nr find_pid_spec(2)[OF s] by blast
  show "lookup s n \<noteq> Some a" if "pid_fresh a s"
    using that find_pid_spec(2)[OF s, of n a] by (auto simp: pid_fresh_def in_table_def)
qed (rule pid_do_keeps)

subsection \<open>Tasks and walking\<close>

text \<open>A task that is attached is found by the number, and a structure whose last task is detached is freed.\<close>

lemma attach_finds:
  assumes ok: "table_ok s" and n: "lookup s n = Some a" and s': "attach_pid t ty a s = Some s'"
  shows "find_task_by_pid_type ty n s' = Some (Some t)"
proof -
  have k: "table_ok s' \<and> lookup s' = lookup s" using pid_do_keeps[OF ok, of "Attach t ty a"] s' by (simp add: pid_do_def)
  obtain p ts where "structs s' a = Some p" "ptasks p ty = t # ts"
    using s' by (auto simp: attach_pid_def upd_struct_def split: option.splits)
  then show ?thesis using find_pid_spec(1)[of s' n] k n by (simp add: find_task_by_pid_type_def pid_task_def)
qed

lemma detach_last_frees:
  assumes ok: "table_ok s" and l: "links s t ty = Some a" and n: "lookup s n = Some a"
    and p: "structs s a = Some p" "ptasks p ty = [t]" "\<And>ty'. ty' \<noteq> ty \<Longrightarrow> ptasks p ty' = []"
  shows "\<exists>s'. detach_pid t ty s = Some s' \<and> table_ok s' \<and> lookup s' = (lookup s)(n := None) \<and> \<not> used (pid_ns s') n"
proof -
  let ?f = "\<lambda>p. p\<lparr>ptasks := (ptasks p)(ty := remove1 t (ptasks p ty))\<rparr>"
  define s1 where "s1 = s\<lparr>structs := (structs s)(a \<mapsto> ?f p), links := (links s)(t := (links s t)(ty := None))\<rparr>"
  have "upd_struct a ?f (s\<lparr>links := links s\<rparr>) = Some (s\<lparr>structs := (structs s)(a \<mapsto> ?f p)\<rparr>)" using p(1) by (simp add: upd_struct_def)
  from upd_struct_keeps[OF ok this] links_keeps[of "s\<lparr>structs := (structs s)(a \<mapsto> ?f p)\<rparr>" "(links s)(t := (links s t)(ty := None))"]
  have k: "table_ok s1 \<and> lookup s1 = lookup s" by (simp add: s1_def)
  have "ptasks (?f p) ty' = []" for ty' using p(2,3) by (cases "ty' = ty") auto
  then have d: "detach_pid t ty s = free_pid a s1" using l p(1) by (simp add: detach_pid_def upd_struct_def s1_def Let_def)
  have it: "in_table s1 n a" using k n find_pid_spec(2)[of s1 n a] by simp
  obtain s' where s': "free_pid a s1 = Some s'" "table_ok s'" "lookup s' = (lookup s1)(n := None)"
    using free_pid_keeps[OF _ it] k by auto
  have "nr (?f p) = n" using it by (simp add: in_table_def s1_def)
  moreover obtain ns where "free_pidmap n (pid_ns s1) = Some ns" "\<not> used ns n"
    using free_pidmap_spec[OF table_ok_facts(1), of s1 n] table_ok_facts(4)[of s1 n a] it k by blast
  ultimately have "\<not> used (pid_ns s') n" using s'(1) by (auto simp: free_pid_def s1_def Let_def)
  then show ?thesis using s' k d by auto
qed

text \<open>\<^verbatim>\<open>find_ge_pid\<close> finds the structure with the least number that is not below the given one.\<close>

lemma find_ge_pid_spec:
  assumes ok: "table_ok s" and lt: "\<And>n a. lookup s n = Some a \<Longrightarrow> n < pid_max_max"
  shows "(\<exists>m a. n \<le> m \<and> lookup s m = Some a \<and> (\<forall>k\<in>{n..<m}. lookup s k = None) \<and> find_ge_pid n s = Some (Some a)) \<or>
    (\<forall>k\<ge>n. lookup s k = None) \<and> find_ge_pid n s = Some None"
  using ok lt
proof (induction n s rule: find_ge_pid.induct)
  case (1 n s)
  note fp = find_pid_spec[OF 1(2), of n]
  have up: "lookup s k = None" if "\<not> used (pid_ns s) k" for k
    using that find_pid_spec(2)[OF 1(2), of k] table_ok_facts(4)[OF 1(2), of k] by (metis option.exhaust)
  show ?case
  proof (cases "lookup s n")
    case (Some a)
    then have "find_ge_pid n s = Some (Some a)" using fp(1) by (simp add: find_ge_pid.simps[of n s])
    then show ?thesis using Some by (intro disjI1 exI[of _ n] exI[of _ a]) simp
  next
    case None
    then have fn: "find_pid n s = Some None" using fp(1) by simp
    consider (some) m where "n < m" "next_pidmap n (pid_ns s) = int m" "\<forall>k\<in>{n<..<m}. \<not> used (pid_ns s) k"
      | (none) "next_pidmap n (pid_ns s) = -1" "\<forall>k>n. k div BITS_PER_PAGE < PIDMAP_ENTRIES \<longrightarrow> \<not> used (pid_ns s) k"
      using next_pidmap_spec[of n "pid_ns s"] by blast
    then show ?thesis
    proof cases
      case some
      have step: "find_ge_pid n s = find_ge_pid m s" using fn some(1,2) by (simp add: find_ge_pid.simps[of n s])
      have gap: "lookup s k = None" if "n \<le> k" "k < m" for k
        using None up some(3) that by (cases "k = n") auto
      have "(\<exists>m' a. m \<le> m' \<and> lookup s m' = Some a \<and> (\<forall>k\<in>{m..<m'}. lookup s k = None) \<and> find_ge_pid m s = Some (Some a)) \<or>
          (\<forall>k\<ge>m. lookup s k = None) \<and> find_ge_pid m s = Some None"
        using 1(1)[OF fn refl refl] some(1,2) 1(2,3) by simp
      then show ?thesis unfolding step
      proof (elim disjE exE conjE, goal_cases)
        case (1 m' a)
        then show ?case using gap some(1) by (intro disjI1 exI[of _ m'] exI[of _ a]) (auto simp: not_le)
      next
        case 2
        then have "lookup s k = None" if "n \<le> k" for k using gap that by (cases "k < m") auto
        then show ?case using 2 by blast
      qed
    next
      case none
      have "lookup s k = None" if "n \<le> k" for k
      proof (cases "lookup s k")
        case (Some a)
        then have "k div BITS_PER_PAGE < PIDMAP_ENTRIES" using pid_in_maps[OF 1(3) order_refl] by blast
        then show ?thesis using none(2) up None that by (cases "k = n") auto
      qed
      moreover have "find_ge_pid n s = Some None" using fn none(1) by (simp add: find_ge_pid.simps[of n s])
      ultimately show ?thesis by blast
    qed
  qed
qed

subsection \<open>Properties\<close>

definition boot_pids :: "u64 \<Rightarrow> pids" where
  "boot_pids nr_kernel_pages = pidhash_init nr_kernel_pages \<lparr>pid_ns = pidmap_init init_pid_ns, structs = (\<lambda>_. None),
     pidhash_shift = 0, pid_hash = (\<lambda>_. []), links = (\<lambda>_ _. None), rcu = [], usage = (\<lambda>_. 0), ns_kref = Some 2\<rparr>"

lemma boot_ok: "table_ok (boot_pids k)" "lookup (boot_pids k) = Map.empty"
proof -
  show "table_ok (boot_pids k)" by (simp add: table_ok_def boot_pids_def pidhash_init_def Let_def init_ns_ok in_table_def)
  show "lookup (boot_pids k) = Map.empty"
    by (rule ext) (simp add: lookup_def find_pid_def boot_pids_def pidhash_init_def Let_def)
qed

text \<open>C32: The hash table of process identifiers is a map. After any sequence of \<^verbatim>\<open>alloc_pid\<close>, \<^verbatim>\<open>free_pid\<close>, delayed
  releases, references (to structures, tasks and the namespace) and attached or transferred tasks, with a page for the bitmap whenever one is asked for, \<^verbatim>\<open>find_pid\<close> never faults; a structure that was
  allocated and not freed since is found under exactly one number, and no other structure is found. The sequences contain no
  direct \<^verbatim>\<open>put_pid\<close> (references are given back by the delayed release) and no \<^verbatim>\<open>detach_pid\<close>, whose last step is the \<^verbatim>\<open>free_pid\<close> they have.\<close>

theorem pid_table_history:
  assumes "pid_max_min \<le> pid_max"
    and "table_run pid_fresh (pid_enter pid_max have_pages) free_pid pid_do ops ({}, boot_pids k) = Some (live, s)"
  shows "(a \<in> live \<longleftrightarrow> (\<exists>n. find_pid n s = Some (Some a))) \<and> (a \<in> live \<longrightarrow> (\<exists>!n. find_pid n s = Some (Some a))) \<and> find_pid n s \<noteq> None"
proof -
  have m: "max pid_max_min pid_max = pid_max" using assms(1) by simp
  have r: "table_run pid_fresh (pid_enter (max pid_max_min pid_max) have_pages) free_pid pid_do ops ({}, boot_pids k) = Some (live, s)"
    using assms(2) m by simp
  have ok: "table_ok s" using pt.run_live[OF r boot_ok(1)] boot_ok(2) by simp
  have f: "find_pid n s = Some (Some a) \<longleftrightarrow> lookup s n = Some a" for n a using find_pid_spec(1)[OF ok] by simp
  show ?thesis unfolding f using pt.run_names[OF r boot_ok] find_pid_spec(1)[OF ok] by (metis option.distinct(1))
qed

text \<open>The first structure gets the number 1.\<close>

lemma boot_enter: "\<exists>s. pid_enter 32768 have_pages 7 (boot_pids 0) = (True, s)"
proof -
  have ns: "pid_ns (boot_pids 0) = pidmap_init init_pid_ns" by (simp add: boot_pids_def pidhash_init_def Let_def)
  obtain r ns where a: "alloc_pidmap 32768 have_pages (pidmap_init init_pid_ns) = (r, ns)"
    by (cases "alloc_pidmap 32768 have_pages (pidmap_init init_pid_ns)")
  have "r = 1" using alloc_pidmap_finds[OF have_pages_quiet init_ns_ok(1) _ a] boot_first_free by (simp add: init_ns_ok RESERVED_PIDS_def)
  then show ?thesis using a ns by (simp add: pid_enter_def alloc_pid_def Let_def)
qed

lemma pid_table_history_witness:
  "\<exists>s. table_run pid_fresh (pid_enter 32768 have_pages) free_pid pid_do [Enter 7] ({}, boot_pids 0) = Some ({7}, s) \<and>
     (\<exists>!n. find_pid n s = Some (Some 7)) \<and> \<not> (\<exists>n. find_pid n s = Some (Some 8))"
proof -
  obtain s where "pid_enter 32768 have_pages 7 (boot_pids 0) = (True, s)" using boot_enter by blast
  then have r: "table_run pid_fresh (pid_enter 32768 have_pages) free_pid pid_do [Enter 7] ({}, boot_pids 0) = Some ({7}, s)"
    by (simp add: pid_fresh_def boot_pids_def pidhash_init_def Let_def)
  then show ?thesis using pid_table_history[OF _ r, of 7] pid_table_history[OF _ r, of 8] by (simp add: pid_max_min_def RESERVED_PIDS_def)
qed

end
