(* ===== verification/HList.thy ===== *)
theory HList
  imports KList
begin

text \<open>
  The lists of hash tables of \<^verbatim>\<open>include/linux/list.h\<close>: a head is one pointer, and a node points back at the pointer
  that leads to it, which is the head's \<^verbatim>\<open>first\<close> or the previous node's \<^verbatim>\<open>next\<close>. Both are the first word of their
  structure, so the address of that pointer is the address of the structure (\<open>word0\<close>); \<open>pprev\<close> is a node's
  second word. \<^verbatim>\<open>NULL\<close> is 0, and an access to a word that is not there gives \<open>None\<close>. \<open>hlist h a xs\<close> says that the
  list at \<open>a\<close> has the nodes \<open>xs\<close>; the locale \<open>chain_table\<close> lifts this to the buckets of a table.
\<close>

subsection \<open>Memory\<close>

record hheap =
  word0 :: "addr \<rightharpoonup> addr"
  pprev :: "addr \<rightharpoonup> addr"

definition store0 :: "addr \<Rightarrow> addr \<Rightarrow> hheap \<Rightarrow> hheap option" where
  "store0 a v h = (if a = 0 \<or> word0 h a = None then None else Some (h\<lparr>word0 := (word0 h)(a \<mapsto> v)\<rparr>))"

definition store_pprev :: "addr \<Rightarrow> addr \<Rightarrow> hheap \<Rightarrow> hheap option" where
  "store_pprev a v h = (if a = 0 \<or> pprev h a = None then None else Some (h\<lparr>pprev := (pprev h)(a \<mapsto> v)\<rparr>))"

subsection \<open>Operations\<close>

definition INIT_HLIST_HEAD :: "addr \<Rightarrow> hheap \<Rightarrow> hheap option" where
  "INIT_HLIST_HEAD a h = store0 a 0 h"

definition INIT_HLIST_NODE :: "addr \<Rightarrow> hheap \<Rightarrow> hheap option" where
  "INIT_HLIST_NODE n h = do { h \<leftarrow> store0 n 0 h; store_pprev n 0 h }"

definition hlist_unhashed :: "addr \<Rightarrow> hheap \<Rightarrow> bool option" where
  "hlist_unhashed n h = map_option (\<lambda>p. p = 0) (pprev h n)"

definition hlist_empty :: "addr \<Rightarrow> hheap \<Rightarrow> bool option" where
  "hlist_empty a h = map_option (\<lambda>f. f = 0) (word0 h a)"

definition hlist_unlink :: "addr \<Rightarrow> hheap \<Rightarrow> hheap option" where
  "hlist_unlink n h = do {
     nxt \<leftarrow> word0 h n;
     pp \<leftarrow> pprev h n;
     h \<leftarrow> store0 pp nxt h;
     if nxt \<noteq> 0 then store_pprev nxt pp h else Some h }"

definition hlist_del :: "addr \<Rightarrow> hheap \<Rightarrow> hheap option" where
  "hlist_del n h = do { h \<leftarrow> hlist_unlink n h; h \<leftarrow> store0 n LIST_POISON1 h; store_pprev n LIST_POISON2 h }"

definition hlist_del_rcu :: "addr \<Rightarrow> hheap \<Rightarrow> hheap option" where
  "hlist_del_rcu n h = do { h \<leftarrow> hlist_unlink n h; store_pprev n LIST_POISON2 h }"

definition hlist_del_init :: "addr \<Rightarrow> hheap \<Rightarrow> hheap option" where
  "hlist_del_init n h = do {
     u \<leftarrow> hlist_unhashed n h;
     if \<not> u then do { h \<leftarrow> hlist_unlink n h; INIT_HLIST_NODE n h } else Some h }"

definition hlist_replace_rcu :: "addr \<Rightarrow> addr \<Rightarrow> hheap \<Rightarrow> hheap option" where
  "hlist_replace_rcu old new h = do {
     nxt \<leftarrow> word0 h old;
     h \<leftarrow> store0 new nxt h;
     pp \<leftarrow> pprev h old;
     h \<leftarrow> store_pprev new pp h;
     h \<leftarrow> (if nxt \<noteq> 0 then do { m \<leftarrow> word0 h new; store_pprev m new h } else Some h);
     pp \<leftarrow> pprev h new;
     h \<leftarrow> store0 pp new h;
     store_pprev old LIST_POISON2 h }"

definition hlist_add_head :: "addr \<Rightarrow> addr \<Rightarrow> hheap \<Rightarrow> hheap option" where
  "hlist_add_head n a h = do {
     first \<leftarrow> word0 h a;
     h \<leftarrow> store0 n first h;
     h \<leftarrow> (if first \<noteq> 0 then store_pprev first n h else Some h);
     h \<leftarrow> store0 a n h;
     store_pprev n a h }"

definition hlist_add_head_rcu :: "addr \<Rightarrow> addr \<Rightarrow> hheap \<Rightarrow> hheap option" where
  "hlist_add_head_rcu n a h = do {
     first \<leftarrow> word0 h a;
     h \<leftarrow> store0 n first h;
     h \<leftarrow> store_pprev n a h;
     h \<leftarrow> (if first \<noteq> 0 then store_pprev first n h else Some h);
     store0 a n h }"

definition hlist_add_before :: "addr \<Rightarrow> addr \<Rightarrow> hheap \<Rightarrow> hheap option" where
  "hlist_add_before n nxt h = do {
     pp \<leftarrow> pprev h nxt;
     h \<leftarrow> store_pprev n pp h;
     h \<leftarrow> store0 n nxt h;
     h \<leftarrow> store_pprev nxt n h;
     pp \<leftarrow> pprev h n;
     store0 pp n h }"

text \<open>The arguments of \<^verbatim>\<open>hlist_add_after\<close> are the node that is there and the new one.\<close>

definition hlist_add_after :: "addr \<Rightarrow> addr \<Rightarrow> hheap \<Rightarrow> hheap option" where
  "hlist_add_after n nxt h = do {
     m \<leftarrow> word0 h n;
     h \<leftarrow> store0 nxt m h;
     h \<leftarrow> store0 n nxt h;
     h \<leftarrow> store_pprev nxt n h;
     m \<leftarrow> word0 h nxt;
     if m \<noteq> 0 then store_pprev m nxt h else Some h }"

definition hlist_add_before_rcu :: "addr \<Rightarrow> addr \<Rightarrow> hheap \<Rightarrow> hheap option" where
  "hlist_add_before_rcu n nxt h = do {
     pp \<leftarrow> pprev h nxt;
     h \<leftarrow> store_pprev n pp h;
     h \<leftarrow> store0 n nxt h;
     h \<leftarrow> store_pprev nxt n h;
     pp \<leftarrow> pprev h n;
     store0 pp n h }"

definition hlist_add_after_rcu :: "addr \<Rightarrow> addr \<Rightarrow> hheap \<Rightarrow> hheap option" where
  "hlist_add_after_rcu prv n h = do {
     m \<leftarrow> word0 h prv;
     h \<leftarrow> store0 n m h;
     h \<leftarrow> store_pprev n prv h;
     h \<leftarrow> store0 prv n h;
     m \<leftarrow> word0 h n;
     if m \<noteq> 0 then store_pprev m n h else Some h }"

subsection \<open>Chains\<close>

text \<open>\<open>hseg h a xs v\<close>: from the pointer at \<open>a\<close> through the nodes \<open>xs\<close>, the last of which points to \<open>v\<close>.\<close>

fun hseg :: "hheap \<Rightarrow> addr \<Rightarrow> addr list \<Rightarrow> addr \<Rightarrow> bool" where
  "hseg h p [] v \<longleftrightarrow> word0 h p = Some v"
| "hseg h p (x # xs) v \<longleftrightarrow> word0 h p = Some x \<and> x \<noteq> 0 \<and> pprev h x = Some p \<and> hseg h x xs v"

definition hlist :: "hheap \<Rightarrow> addr \<Rightarrow> addr list \<Rightarrow> bool" where
  "hlist h a xs \<longleftrightarrow> a \<noteq> 0 \<and> hseg h a xs 0 \<and> distinct (a # xs)"

definition hnodes :: "hheap \<Rightarrow> addr set" where
  "hnodes h = {n. n \<noteq> 0 \<and> word0 h n \<noteq> None \<and> pprev h n \<noteq> None}"

definition link_node :: "addr \<Rightarrow> addr \<Rightarrow> addr \<Rightarrow> hheap \<Rightarrow> hheap" where
  "link_node p n q h = h\<lparr>word0 := (word0 h)(n \<mapsto> q, p \<mapsto> n),
     pprev := (if q = 0 then (pprev h)(n \<mapsto> p) else (pprev h)(n \<mapsto> p, q \<mapsto> n))\<rparr>"

definition unlink_node :: "addr \<Rightarrow> addr \<Rightarrow> hheap \<Rightarrow> hheap" where
  "unlink_node p q h = h\<lparr>word0 := (word0 h)(p \<mapsto> q), pprev := (if q = 0 then pprev h else (pprev h)(q \<mapsto> p))\<rparr>"

lemma store_simps [simp]:
  "a \<noteq> 0 \<Longrightarrow> word0 h a = Some w \<Longrightarrow> store0 a v h = Some (h\<lparr>word0 := (word0 h)(a \<mapsto> v)\<rparr>)"
  "a \<noteq> 0 \<Longrightarrow> pprev h a = Some w \<Longrightarrow> store_pprev a v h = Some (h\<lparr>pprev := (pprev h)(a \<mapsto> v)\<rparr>)"
  by (simp_all add: store0_def store_pprev_def)

lemma hseg_cong:
  "(\<And>x. x \<in> set (a # xs) \<Longrightarrow> word0 h' x = word0 h x) \<Longrightarrow> (\<And>x. x \<in> set xs \<Longrightarrow> pprev h' x = pprev h x) \<Longrightarrow> hseg h' a xs v = hseg h a xs v"
  by (induction xs arbitrary: a) auto

lemma hseg_append: "hseg h a (xs @ x # ys) v \<longleftrightarrow> hseg h a xs x \<and> x \<noteq> 0 \<and> pprev h x = Some (last (a # xs)) \<and> hseg h x ys v"
  by (induction xs arbitrary: a) auto

lemma hseg_last: "hseg h a xs v \<Longrightarrow> word0 h (last (a # xs)) = Some v"
  by (induction xs arbitrary: a) auto

lemma hseg_first: "hseg h a xs v \<Longrightarrow> word0 h a = Some (hd (xs @ [v]))"
  by (cases xs) auto

lemma hseg_end:
  assumes "hseg h a xs v" "distinct (a # xs)" "word0 h' (last (a # xs)) = Some w"
    "\<And>x. x \<in> set (a # xs) \<Longrightarrow> x \<noteq> last (a # xs) \<Longrightarrow> word0 h' x = word0 h x" "\<And>x. x \<in> set xs \<Longrightarrow> pprev h' x = pprev h x"
  shows "hseg h' a xs w"
  using assms
proof (induction xs arbitrary: a)
  case (Cons x xs)
  have "hseg h' x xs w" by (rule Cons.IH) (use Cons.prems in auto)
  moreover have "a \<noteq> last (x # xs)" using Cons.prems(2) last_in_set[of "x # xs"] by auto
  then have "word0 h' a = word0 h a" using Cons.prems(4)[of a] by simp
  ultimately show ?case using Cons.prems(1,5) by simp
qed simp

lemma hseg_nodes: "hseg h a xs v \<Longrightarrow> set xs \<subseteq> hnodes h" 
proof (induction xs arbitrary: a)
  case (Cons x xs)
  then show ?case using hseg_first[of h x xs v] by (auto simp: hnodes_def)
qed simp

lemma hlist_unique: "hlist h a xs \<Longrightarrow> hlist h a ys \<Longrightarrow> xs = ys"
proof -
  have "hseg h a xs 0 \<Longrightarrow> hseg h a ys 0 \<Longrightarrow> xs = ys" for a
  proof (induction xs arbitrary: a ys)
    case Nil then show ?case by (cases ys) auto
  next
    case (Cons x xs) then show ?case by (cases ys) auto
  qed
  then show "hlist h a xs \<Longrightarrow> hlist h a ys \<Longrightarrow> xs = ys" by (auto simp: hlist_def)
qed

lemma hlist_ends:
  assumes "hlist h a (xs @ ys)"
  defines "p \<equiv> last (a # xs)" and "q \<equiv> hd (ys @ [0])"
  shows "word0 h p = Some q" "p \<noteq> 0" "p \<in> set (a # xs)" "q = 0 \<or> q \<in> set ys" "q \<noteq> 0 \<Longrightarrow> pprev h q = Some p"
proof -
  have s: "hseg h a (xs @ ys) 0" "a \<noteq> 0" using assms by (auto simp: hlist_def)
  show m: "p \<in> set (a # xs)" unfolding p_def by (rule last_in_set) simp
  show "word0 h p = Some q" "q = 0 \<or> q \<in> set ys" "q \<noteq> 0 \<Longrightarrow> pprev h q = Some p"
    using s hseg_last[of h a xs] unfolding p_def q_def by (cases ys; auto simp: hseg_append)+
  show "p \<noteq> 0" using m s hseg_nodes[OF s(1)] by (auto simp: hnodes_def)
qed

lemma link_node_hlist:
  assumes r: "hlist h a (xs @ ys)" and n: "n \<in> hnodes h" "n \<notin> set (a # xs @ ys)"
  defines "p \<equiv> last (a # xs)" and "q \<equiv> hd (ys @ [0])"
  shows "hlist (link_node p n q h) a (xs @ n # ys)"
proof -
  note e = hlist_ends[OF r, folded p_def q_def]
  let ?h = "link_node p n q h"
  have d: "distinct (a # xs @ ys)" "a \<noteq> 0" "hseg h a (xs @ ys) 0" using r by (auto simp: hlist_def)
  have n0: "n \<noteq> 0" "n \<noteq> p" using n e(3) by (auto simp: hnodes_def)
  have xs: "hseg ?h a xs n"
  proof (rule hseg_end[where h = h and v = q])
    show "hseg h a xs q" using d(3) unfolding q_def by (cases ys) (auto simp: hseg_append)
  qed (use d n e in \<open>auto simp: link_node_def p_def\<close>)
  have "hseg ?h n ys 0"
  proof (cases ys)
    case (Cons y ys')
    have "hseg ?h y ys' 0 = hseg h y ys' 0" by (rule hseg_cong) (use d n e Cons in \<open>auto simp: link_node_def q_def\<close>)
    then show ?thesis using d Cons n e by (auto simp: link_node_def q_def hseg_append)
  qed (use n0 in \<open>simp add: link_node_def q_def\<close>)
  moreover have "pprev ?h n = Some p" using e n by (auto simp: link_node_def)
  ultimately show ?thesis using xs d n n0 by (simp add: hlist_def hseg_append p_def)
qed

lemma unlink_node_hlist:
  assumes r: "hlist h a (xs @ x # ys)"
  defines "p \<equiv> last (a # xs)" and "q \<equiv> hd (ys @ [0])"
  shows "hlist (unlink_node p q h) a (xs @ ys)" "hlist_unlink x h = Some (unlink_node p q h)"
    "p \<in> set (a # xs)" "q = 0 \<or> q \<in> set ys" "x \<in> hnodes h" "word0 h x = Some q"
proof -
  note e = hlist_ends[OF r, folded p_def]
  have d: "distinct (a # xs @ x # ys)" "a \<noteq> 0" "hseg h a xs x" "x \<noteq> 0" "pprev h x = Some p" "hseg h x ys 0"
    using r by (auto simp: hlist_def hseg_append p_def)
  show q: "q = 0 \<or> q \<in> set ys" unfolding q_def by (cases ys) auto
  show w: "word0 h x = Some q" unfolding q_def by (rule hseg_first) (rule d)
  show "x \<in> hnodes h" using d w by (simp add: hnodes_def)
  show m: "p \<in> set (a # xs)" by (rule e)
  have pq: "pprev h q \<noteq> None" if "q \<noteq> 0" using q that hseg_nodes[OF d(6)] by (auto simp: hnodes_def)
  show "hlist_unlink x h = Some (unlink_node p q h)"
    using e(1,2) w d pq by (auto simp: hlist_unlink_def unlink_node_def)
  let ?h = "unlink_node p q h"
  have xs: "hseg ?h a xs q" by (rule hseg_end[where h = h, OF d(3)]) (use d q m in \<open>auto simp: unlink_node_def p_def\<close>)
  show "hlist ?h a (xs @ ys)"
  proof (cases ys)
    case Nil
    then show ?thesis using xs d by (simp add: hlist_def q_def)
  next
    case (Cons y ys')
    have "hseg ?h y ys' 0 = hseg h y ys' 0" by (rule hseg_cong) (use d m Cons in \<open>auto simp: unlink_node_def q_def\<close>)
    then show ?thesis using xs d Cons by (auto simp: hlist_def hseg_append q_def unlink_node_def p_def)
  qed
qed

subsection \<open>What the operations do\<close>

lemma hlist_cong: "(\<And>x. x \<in> set (b # zs) \<Longrightarrow> word0 h' x = word0 h x \<and> pprev h' x = pprev h x) \<Longrightarrow> hlist h' b zs = hlist h b zs"
  using hseg_cong[of b zs h' h 0] by (simp add: hlist_def)

lemma hlist_no_null: "hlist h b zs \<Longrightarrow> 0 \<notin> set (b # zs)"
  using hseg_nodes[of h b zs 0] by (auto simp: hlist_def hnodes_def)

lemma link_frame:
  assumes "hlist h b zs" "p \<notin> set (b # zs)" "n \<notin> set (b # zs)" "q = 0 \<or> q \<notin> set (b # zs)"
  shows "hlist (link_node p n q h) b zs"
proof -
  have "hlist (link_node p n q h) b zs = hlist h b zs" by (rule hlist_cong) (use assms in \<open>auto simp: link_node_def\<close>)
  then show ?thesis using assms(1) by simp
qed

lemma unlink_frame:
  assumes "hlist h b zs" "p \<notin> set (b # zs)" "q = 0 \<or> q \<notin> set (b # zs)"
  shows "hlist (unlink_node p q h) b zs"
proof -
  have "hlist (unlink_node p q h) b zs = hlist h b zs" by (rule hlist_cong) (use assms in \<open>auto simp: unlink_node_def\<close>)
  then show ?thesis using assms(1) by simp
qed

lemma store_frame [simp]:
  "x \<notin> set (b # zs) \<Longrightarrow> hlist (h\<lparr>word0 := (word0 h)(x \<mapsto> v)\<rparr>) b zs = hlist h b zs"
  "x \<notin> set (b # zs) \<Longrightarrow> hlist (h\<lparr>pprev := (pprev h)(x \<mapsto> v)\<rparr>) b zs = hlist h b zs"
  "x \<notin> set (b # zs) \<Longrightarrow> hlist (h\<lparr>word0 := (word0 h)(x \<mapsto> v), pprev := (pprev h)(x \<mapsto> w)\<rparr>) b zs = hlist h b zs"
  by (rule hlist_cong; auto)+

lemma link_nodes: "word0 h p \<noteq> None \<Longrightarrow> n \<in> hnodes h \<Longrightarrow> q = 0 \<or> q \<in> hnodes h \<Longrightarrow> hnodes (link_node p n q h) = hnodes h"
  by (auto simp: hnodes_def link_node_def)

lemma unlink_nodes: "word0 h p \<noteq> None \<Longrightarrow> q = 0 \<or> q \<in> hnodes h \<Longrightarrow> hnodes (unlink_node p q h) = hnodes h"
  by (auto simp: hnodes_def unlink_node_def)

text \<open>Every way to insert a node makes the same links; only the order of the stores differs.\<close>

lemma inserts_link:
  assumes r: "hlist h a (xs @ ys)" and n: "n \<in> hnodes h" "n \<notin> set (a # xs @ ys)"
  shows "xs = [] \<Longrightarrow> hlist_add_head n a h = Some (link_node a n (hd (ys @ [0])) h)"
    and "xs = [] \<Longrightarrow> hlist_add_head_rcu n a h = Some (link_node a n (hd (ys @ [0])) h)"
    and "ys = y # us \<Longrightarrow> hlist_add_before n y h = Some (link_node (last (a # xs)) n y h)"
    and "ys = y # us \<Longrightarrow> hlist_add_before_rcu n y h = Some (link_node (last (a # xs)) n y h)"
    and "xs = vs @ [x] \<Longrightarrow> hlist_add_after x n h = Some (link_node x n (hd (ys @ [0])) h)"
    and "xs = vs @ [x] \<Longrightarrow> hlist_add_after_rcu x n h = Some (link_node x n (hd (ys @ [0])) h)"
proof -
  let ?p = "last (a # xs)" and ?q = "hd (ys @ [0])"
  note e = hlist_ends[OF r]
  have n0: "n \<noteq> 0" "\<exists>w. word0 h n = Some w" "\<exists>w. pprev h n = Some w" "n \<noteq> ?p" "n \<noteq> ?q" "?q \<noteq> ?p"
    using n e(2,3,4) r by (auto simp: hnodes_def hlist_def)
  show "xs = [] \<Longrightarrow> hlist_add_head n a h = Some (link_node a n ?q h)"
    using e n0 by (auto simp: hlist_add_head_def link_node_def fun_upd_twist)
  show "xs = [] \<Longrightarrow> hlist_add_head_rcu n a h = Some (link_node a n ?q h)"
    using e n0 by (auto simp: hlist_add_head_rcu_def link_node_def)
  show "ys = y # us \<Longrightarrow> hlist_add_before n y h = Some (link_node ?p n y h)"
    using e n0 hlist_no_null[OF r] by (auto simp: hlist_add_before_def link_node_def)
  show "ys = y # us \<Longrightarrow> hlist_add_before_rcu n y h = Some (link_node ?p n y h)"
    using e n0 hlist_no_null[OF r] by (auto simp: hlist_add_before_rcu_def link_node_def)
  show "xs = vs @ [x] \<Longrightarrow> hlist_add_after x n h = Some (link_node x n ?q h)"
    using e n0 by (auto simp: hlist_add_after_def link_node_def)
  show "xs = vs @ [x] \<Longrightarrow> hlist_add_after_rcu x n h = Some (link_node x n ?q h)"
    using e n0 by (auto simp: hlist_add_after_rcu_def link_node_def)
qed

lemma hlist_insert:
  assumes r: "hlist h a (xs @ ys)" and n: "n \<in> hnodes h" "n \<notin> set (a # xs @ ys)"
  shows "xs = [] \<Longrightarrow> \<exists>h'. hlist_add_head n a h = Some h' \<and> hlist h' a (n # ys)"
    and "ys = y # us \<Longrightarrow> \<exists>h'. hlist_add_before n y h = Some h' \<and> hlist_add_before_rcu n y h = Some h' \<and> hlist h' a (xs @ n # y # us)"
    and "xs = vs @ [x] \<Longrightarrow> \<exists>h'. hlist_add_after x n h = Some h' \<and> hlist_add_after_rcu x n h = Some h' \<and> hlist h' a (vs @ x # n # ys)"
  using inserts_link[OF r n] link_node_hlist[OF r n] by auto

lemma hlist_delete:
  assumes r: "hlist h a (xs @ x # ys)"
  shows "\<exists>h'. hlist_del x h = Some h' \<and> hlist h' a (xs @ ys)"
    and "\<exists>h'. hlist_del_rcu x h = Some h' \<and> hlist h' a (xs @ ys) \<and> word0 h' x = Some (hd (ys @ [0]))"
    and "\<exists>h'. hlist_del_init x h = Some h' \<and> hlist h' a (xs @ ys) \<and> hlist_unhashed x h' = Some True"
proof -
  let ?p = "last (a # xs)" and ?q = "hd (ys @ [0])"
  note u = unlink_node_hlist[OF r]
  have x: "x \<notin> set (a # xs @ ys)" "x \<noteq> 0" "pprev h x = Some ?p" "?p \<noteq> 0" "?p \<noteq> x" "?q \<noteq> x"
    using r hlist_no_null[OF r] u(3,4) by (auto simp: hlist_def hseg_append)
  then have w: "word0 (unlink_node ?p ?q h) x = Some ?q" "pprev (unlink_node ?p ?q h) x = Some ?p"
    using u(6) by (auto simp: unlink_node_def)
  show "\<exists>h'. hlist_del x h = Some h' \<and> hlist h' a (xs @ ys)" using u(1,2) x w by (simp add: hlist_del_def)
  show "\<exists>h'. hlist_del_rcu x h = Some h' \<and> hlist h' a (xs @ ys) \<and> word0 h' x = Some ?q" using u(1,2) x w by (simp add: hlist_del_rcu_def)
  show "\<exists>h'. hlist_del_init x h = Some h' \<and> hlist h' a (xs @ ys) \<and> hlist_unhashed x h' = Some True"
    using u(1,2) x w by (simp add: hlist_del_init_def hlist_unhashed_def INIT_HLIST_NODE_def)
qed

lemma hlist_replace:
  assumes r: "hlist h a (xs @ old # ys)" and n: "new \<in> hnodes h" "new \<notin> set (a # xs @ old # ys)"
  shows "\<exists>h'. hlist_replace_rcu old new h = Some h' \<and> hlist h' a (xs @ new # ys)"
proof -
  let ?p = "last (a # xs)" and ?q = "hd (ys @ [0])"
  note u = unlink_node_hlist[OF r]
  have o: "old \<notin> set (a # xs @ ys)" "old \<noteq> 0" "pprev h old = Some ?p" "?p \<noteq> 0" "?p \<noteq> old" "?q \<noteq> old" "old \<noteq> new"
    using r n hlist_no_null[OF r] u(3,4) by (auto simp: hlist_def hseg_append)
  have n': "new \<noteq> 0" "\<exists>w. word0 h new = Some w" "\<exists>w. pprev h new = Some w" "new \<noteq> ?p" "new \<noteq> ?q"
    using n u(3,4) by (auto simp: hnodes_def)
  have q: "?q \<noteq> 0 \<longrightarrow> (\<exists>w. pprev h ?q = Some w)" using r u(4) hseg_nodes[of h old ys 0] by (auto simp: hlist_def hseg_append hnodes_def)
  have "?q \<noteq> ?p" using r u(3,4) o(4) by (auto simp: hlist_def)
  then have "hlist_replace_rcu old new h = Some ((link_node ?p new ?q (unlink_node ?p ?q h))\<lparr>pprev := (pprev (link_node ?p new ?q (unlink_node ?p ?q h)))(old \<mapsto> LIST_POISON2)\<rparr>)"
    using u(6) o n' q hlist_ends(1)[OF r] by (auto simp: hlist_replace_rcu_def link_node_def unlink_node_def fun_upd_twist)
  moreover have "hlist (link_node ?p new ?q (unlink_node ?p ?q h)) a (xs @ new # ys)"
    by (rule link_node_hlist[OF u(1)]) (use n n' in \<open>auto simp: hnodes_def unlink_node_def\<close>)
  ultimately show ?thesis using o by simp
qed

subsection \<open>Tables of lists\<close>

text \<open>A hash table keeps one list in each bucket. What its users do to the buckets, on lists and in memory:\<close>

datatype bucket_op = Put nat addr | Take nat addr

fun lists_run :: "nat \<Rightarrow> (nat \<Rightarrow> addr) \<Rightarrow> addr set \<Rightarrow> bucket_op list \<Rightarrow> (nat \<Rightarrow> addr list) \<Rightarrow> (nat \<Rightarrow> addr list) option" where
  "lists_run B heads live [] c = Some c"
| "lists_run B heads live (Put b n # ops) c =
     (if b < B \<and> n \<in> live \<and> (\<forall>b'<B. n \<notin> set (heads b' # c b')) then lists_run B heads live ops (c(b := n # c b)) else None)"
| "lists_run B heads live (Take b n # ops) c =
     (if b < B \<and> n \<in> set (c b) then lists_run B heads live ops (c(b := remove1 n (c b))) else None)"

fun memory_run ::
  "(addr \<Rightarrow> addr \<Rightarrow> 'h \<Rightarrow> 'h option) \<Rightarrow> (addr \<Rightarrow> 'h \<Rightarrow> 'h option) \<Rightarrow> (nat \<Rightarrow> addr) \<Rightarrow> bucket_op list \<Rightarrow> 'h \<Rightarrow> 'h option"
where
  "memory_run add del heads [] h = Some h"
| "memory_run add del heads (Put b n # ops) h = do { h \<leftarrow> add n (heads b) h; memory_run add del heads ops h }"
| "memory_run add del heads (Take b n # ops) h = do { h \<leftarrow> del n h; memory_run add del heads ops h }"

definition buckets :: "('h \<Rightarrow> addr \<Rightarrow> addr list \<Rightarrow> bool) \<Rightarrow> nat \<Rightarrow> (nat \<Rightarrow> addr) \<Rightarrow> 'h \<Rightarrow> (nat \<Rightarrow> addr list) \<Rightarrow> bool" where
  "buckets rep B heads h c \<longleftrightarrow> (\<forall>b<B. rep h (heads b) (c b)) \<and>
     (\<forall>b<B. \<forall>b'<B. b \<noteq> b' \<longrightarrow> set (heads b # c b) \<inter> set (heads b' # c b') = {})"

locale chain_table =
  fixes rep :: "'h \<Rightarrow> addr \<Rightarrow> addr list \<Rightarrow> bool" and live :: "'h \<Rightarrow> addr set"
    and add :: "addr \<Rightarrow> addr \<Rightarrow> 'h \<Rightarrow> 'h option" and del :: "addr \<Rightarrow> 'h \<Rightarrow> 'h option"
  assumes distinct_rep: "rep h a xs \<Longrightarrow> distinct (a # xs)"
    and add_law: "rep h a xs \<Longrightarrow> n \<in> live h \<Longrightarrow> n \<notin> set (a # xs) \<Longrightarrow>
      \<exists>h'. add n a h = Some h' \<and> rep h' a (n # xs) \<and> live h' = live h
      \<and> (\<forall>b ys. rep h b ys \<longrightarrow> set (n # a # xs) \<inter> set (b # ys) = {} \<longrightarrow> rep h' b ys)"
    and del_law: "rep h a (xs @ x # ys) \<Longrightarrow>
      \<exists>h'. del x h = Some h' \<and> rep h' a (xs @ ys) \<and> live h' = live h
      \<and> (\<forall>b zs. rep h b zs \<longrightarrow> set (a # xs @ x # ys) \<inter> set (b # zs) = {} \<longrightarrow> rep h' b zs)"
begin

lemma put_step:
  assumes b: "buckets rep B heads h c" and n: "n \<in> live h" "\<forall>b'<B. n \<notin> set (heads b' # c b')" and B: "b < B"
  shows "\<exists>h'. add n (heads b) h = Some h' \<and> live h' = live h \<and> buckets rep B heads h' (c(b := n # c b))"
proof -
  have dj: "set (heads b1 # c b1) \<inter> set (heads b2 # c b2) = {}" if "b1 < B" "b2 < B" "b1 \<noteq> b2" for b1 b2 using b that by (auto simp: buckets_def)
  have "rep h (heads b) (c b)" "n \<notin> set (heads b # c b)" using b B n(2) by (auto simp: buckets_def)
  from add_law[OF this(1) n(1) this(2)] obtain h' where h': "add n (heads b) h = Some h'" "rep h' (heads b) (n # c b)" "live h' = live h"
    "\<forall>b' ys. rep h b' ys \<longrightarrow> set (n # heads b # c b) \<inter> set (b' # ys) = {} \<longrightarrow> rep h' b' ys" by blast
  have "rep h' (heads b') (c b')" if "b' < B" "b' \<noteq> b" for b'
  proof -
    have "set (n # heads b # c b) \<inter> set (heads b' # c b') = {}" using dj[of b b'] B that n(2)[rule_format, of b'] by auto
    then show ?thesis using h'(4) b that by (simp add: buckets_def)
  qed
  moreover have "set (heads b1 # (c(b := n # c b)) b1) \<inter> set (heads b2 # (c(b := n # c b)) b2) = {}" if "b1 < B" "b2 < B" "b1 \<noteq> b2" for b1 b2
    using dj[OF that] n(2)[rule_format, of b1] n(2)[rule_format, of b2] that by auto
  ultimately have "buckets rep B heads h' (c(b := n # c b))" using h'(2) by (simp add: buckets_def)
  then show ?thesis using h'(1,3) by blast
qed

lemma take_step:
  assumes b: "buckets rep B heads h c" and n: "n \<in> set (c b)" and B: "b < B"
  shows "\<exists>h'. del n h = Some h' \<and> live h' = live h \<and> buckets rep B heads h' (c(b := remove1 n (c b)))"
proof -
  have dj: "set (heads b1 # c b1) \<inter> set (heads b2 # c b2) = {}" if "b1 < B" "b2 < B" "b1 \<noteq> b2" for b1 b2 using b that by (auto simp: buckets_def)
  obtain xs ys where c: "c b = xs @ n # ys" using split_list[OF n] by auto
  have r: "rep h (heads b) (xs @ n # ys)" using b B c by (metis buckets_def)
  have rm: "remove1 n (c b) = xs @ ys" using distinct_rep[OF r] by (simp add: c remove1_append)
  obtain h' where h': "del n h = Some h'" "rep h' (heads b) (xs @ ys)" "live h' = live h"
    "\<forall>b' zs. rep h b' zs \<longrightarrow> set (heads b # xs @ n # ys) \<inter> set (b' # zs) = {} \<longrightarrow> rep h' b' zs" using del_law[OF r] by blast
  have "rep h' (heads b') (c b')" if "b' < B" "b' \<noteq> b" for b' using h'(4) dj[of b b'] B that b c by (simp add: buckets_def)
  moreover have "set (heads b1 # (c(b := xs @ ys)) b1) \<inter> set (heads b2 # (c(b := xs @ ys)) b2) = {}" if "b1 < B" "b2 < B" "b1 \<noteq> b2" for b1 b2
    using dj[OF that] that c by auto
  ultimately have "buckets rep B heads h' (c(b := remove1 n (c b)))" using h'(2) by (simp add: buckets_def rm)
  then show ?thesis using h'(1,3) by blast
qed

lemma run_simulates:
  "buckets rep B heads h c \<Longrightarrow> lists_run B heads (live h) ops c = Some c' \<Longrightarrow>
   \<exists>h'. memory_run add del heads ops h = Some h' \<and> live h' = live h \<and> buckets rep B heads h' c'"
proof (induction ops arbitrary: h c)
  case (Cons op ops)
  show ?case
  proof (cases op)
    case (Put b n)
    then have n: "n \<in> live h" "\<forall>b'<B. n \<notin> set (heads b' # c b')" "lists_run B heads (live h) ops (c(b := n # c b)) = Some c'" "b < B"
      using Cons.prems(2) by (auto split: if_splits)
    from put_step[OF Cons.prems(1) n(1,2,4)] obtain h1 where h1: "add n (heads b) h = Some h1" "live h1 = live h"
      "buckets rep B heads h1 (c(b := n # c b))" by blast
    then show ?thesis using Cons.IH[OF h1(3), unfolded h1(2), OF n(3)] Put by simp
  next
    case (Take b n)
    then have n: "n \<in> set (c b)" "lists_run B heads (live h) ops (c(b := remove1 n (c b))) = Some c'" "b < B"
      using Cons.prems(2) by (auto split: if_splits)
    from take_step[OF Cons.prems(1) n(1,3)] obtain h1 where h1: "del n h = Some h1" "live h1 = live h"
      "buckets rep B heads h1 (c(b := remove1 n (c b)))" by blast
    then show ?thesis using Cons.IH[OF h1(3), unfolded h1(2), OF n(2)] Take by simp
  qed
qed simp

end

lemma hlist_add_head_rcu_law:
  assumes r: "hlist h a xs" and n: "n \<in> hnodes h" "n \<notin> set (a # xs)"
  shows "\<exists>h'. hlist_add_head_rcu n a h = Some h' \<and> hlist h' a (n # xs) \<and> hnodes h' = hnodes h
    \<and> (\<forall>b ys. hlist h b ys \<longrightarrow> set (n # a # xs) \<inter> set (b # ys) = {} \<longrightarrow> hlist h' b ys)"
proof -
  let ?q = "hd (xs @ [0])" and ?h = "link_node a n (hd (xs @ [0])) h"
  have r0: "hlist h a ([] @ xs)" "n \<notin> set (a # [] @ xs)" using r n by simp_all
  note e = hlist_ends[OF r0(1)]
  have "?q = 0 \<or> ?q \<in> hnodes h" using e(4) r hseg_nodes[of h a xs 0] by (auto simp: hlist_def)
  then have "hnodes ?h = hnodes h" using e(1) n by (intro link_nodes) auto
  moreover have "hlist ?h b ys" if "hlist h b ys" "set (n # a # xs) \<inter> set (b # ys) = {}" for b ys
    using that e(4) by (intro link_frame) auto
  ultimately show ?thesis using inserts_link(2)[OF r0(1) n(1) r0(2)] link_node_hlist[OF r0(1) n(1) r0(2)] by auto
qed

lemma hlist_del_rcu_law:
  assumes r: "hlist h a (xs @ x # ys)"
  shows "\<exists>h'. hlist_del_rcu x h = Some h' \<and> hlist h' a (xs @ ys) \<and> hnodes h' = hnodes h
    \<and> (\<forall>b zs. hlist h b zs \<longrightarrow> set (a # xs @ x # ys) \<inter> set (b # zs) = {} \<longrightarrow> hlist h' b zs)"
proof -
  let ?p = "last (a # xs)" and ?q = "hd (ys @ [0])"
  define u where "u = unlink_node ?p ?q h"
  note U = unlink_node_hlist[OF r, folded u_def]
  have x: "x \<notin> set (a # xs @ ys)" "x \<noteq> 0" "?q \<noteq> x" "pprev h x = Some ?p" using r hlist_no_null[OF r] U(4) by (auto simp: hlist_def hseg_append)
  have px: "\<exists>w. pprev u x = Some w" using x by (auto simp: u_def unlink_node_def)
  then have run: "hlist_del_rcu x h = Some (u\<lparr>pprev := (pprev u)(x \<mapsto> LIST_POISON2)\<rparr>)" using U(2) x by (auto simp: hlist_del_rcu_def)
  have "?q = 0 \<or> ?q \<in> hnodes h" using U(4) r hseg_nodes[of h a "xs @ x # ys" 0] by (auto simp: hlist_def)
  then have "hnodes u = hnodes h" unfolding u_def using hlist_ends(1)[OF r] by (intro unlink_nodes) auto
  then have "hnodes (u\<lparr>pprev := (pprev u)(x \<mapsto> LIST_POISON2)\<rparr>) = hnodes h" using px by (auto simp: hnodes_def)
  moreover have "hlist u b zs" if "hlist h b zs" "set (a # xs @ x # ys) \<inter> set (b # zs) = {}" for b zs
    unfolding u_def using that U(3,4) by (intro unlink_frame) auto
  then have "\<forall>b zs. hlist h b zs \<longrightarrow> set (a # xs @ x # ys) \<inter> set (b # zs) = {} \<longrightarrow> hlist (u\<lparr>pprev := (pprev u)(x \<mapsto> LIST_POISON2)\<rparr>) b zs"
    by auto
  ultimately show ?thesis using run U(1) x by simp
qed

interpretation ht: chain_table hlist hnodes hlist_add_head_rcu hlist_del_rcu
proof
  show "distinct (a # xs)" if "hlist h a xs" for h a xs using that by (simp add: hlist_def)
qed (fact hlist_add_head_rcu_law hlist_del_rcu_law)+

end
