(* ===== verification/Spec2Isabelle.thy ===== *)
theory Spec2Isabelle
  imports Rwsem Rwsem_System Rtmutex Rtmutex_Walk Rtmutex_Ops Rtmutex_Boost Rtmutex_Prio Rtmutex_System KList Mailbox Syscalls Join ReadWrite Sendfile Wrappers
    Fat12 Fat12_Extract Fat12_Print Lex Lex_Correct Lex_Grammar
    KString KString_Correct KFifo KFifo_Concurrent KSort Extable
    Sched Sched_Queues Sched_Inv Sched_Correct Sched_Choice Slices
    Waitqueue Semaphore Completion Bitops Pidmap Pid KList_More HList PList
begin

text \<open>
  \<^bold>\<open>A verification development for the CS370 repository\<close>

  The repository holds three programs: a reader of FAT12 disk images (\<^verbatim>\<open>src/FAT12\<close>), the lexer of an
  assembler (\<^verbatim>\<open>src/CS720/parser\<close>), and a Linux 2.6.22.19 kernel with added system calls
  (\<^verbatim>\<open>src/linux-2.6.22.19-cs543\<close>) and the command line programs that call them. The development models
  the code written for the repository in full, and the kernel code it rests on or changes: lists,
  strings, queues, sorting, exception tables, reading and writing of files, the scheduler, and what
  sits on the scheduler: wait queues, semaphores, completions, semaphores for readers and writers, real-time mutexes
  and process numbers.

  \<^bold>\<open>Conventions.\<close> Machine integers are words of their C width (\<open>Prelude\<close>); \<open>sint\<close> and \<open>uint\<close> read them.
  Priorities of the scheduler, whose arithmetic stays within a few hundred, are \<open>int\<close>; so are the counters of
  semaphores and the free counters of the number bitmaps. The last stay within the number of process numbers. The counter
  of a semaphore keeps to its 32 bits in the runs of \<open>sem_runs32\<close>, in which no more than \<^verbatim>\<open>INT_MAX\<close> units are ever free; that of a
  semaphore for readers and writers as long as fewer than 2 to the 31 readers have it (\<open>activity_fits\<close>). Process numbers, never negative, are \<open>nat\<close>. Records are the
  source's structures. Error codes are values; \<open>None\<close> is a run that does not come back with a value: a
  fault (a null or dangling pointer, an access outside an array, a \<^verbatim>\<open>BUG_ON\<close>) or a loop that never ends. So
  a statement \<open>f x = Some y\<close> says that the code returns, and faults are never assumed away. Code outside
  the repository (the C library, the assembler's string and map library, the file systems and
  security modules behind an operations table) is an argument of the definitions that call it.

  \<^bold>\<open>Theories and what they show.\<close>

  \<^item> \<open>Prelude\<close>: widths, conversions, option computations.
  \<^item> \<open>KList\<close>, \<open>KList_More\<close>: the circular lists of \<^verbatim>\<open>include/linux/list.h\<close> over a heap of cells (the interface is the
    locale \<open>linked_queue\<close>), with moving, replacing and splicing, what readers without a lock see of an
    insertion, and the misplaced test of \<^verbatim>\<open>list_splice_init_rcu\<close>.
  \<^item> \<open>HList\<close>: the lists of hash tables of the same header over a memory of words, and that the buckets of a
    table in memory behave like sequences (the locale \<open>chain_table\<close>).
  \<^item> \<open>PList\<close>: \<^verbatim>\<open>lib/plist.c\<close>, whose lists in memory are stable queues by priority (the locale \<open>stable_queue\<close>).
  \<^item> \<open>Mailbox\<close>: \<^verbatim>\<open>ipc/mailbox.c\<close>. The state is the heap of messages, the array of list heads and the lock. A
    message sent is received by its addressee; in reachable states sends and receives return; and what the swapped
    arguments of \<^verbatim>\<open>list_add_tail\<close> (an earlier message of the bucket is lost for ever), negative pids and the early release
    of the lock lead to.
  \<^item> \<open>Syscalls\<close>, \<open>Join\<close>: the calls added to \<^verbatim>\<open>kernel/sched.c\<close>. \<open>Join\<close> is a step relation over the statements of
    \<^verbatim>\<open>sys_myjoin\<close> and of the lines added to \<^verbatim>\<open>do_exit\<close>, for any number of joining tasks, with the life of the target's
    structure: \<^verbatim>\<open>release_task\<close> takes it out of the process table and drops the last reference. No wakeup is lost until then, and a
    joiner that is still inside, which holds no reference, touches freed memory after it.
  \<^item> \<open>ReadWrite\<close>, \<open>Sendfile\<close>: \<^verbatim>\<open>fs/read_write.c\<close> with the added \<^verbatim>\<open>sys_forcewrite\<close>; limits, overflow and vectors.
    A file system's operations get the file as the code passes it, mode and position included.
  \<^item> \<open>Wrappers\<close>: the programs of \<^verbatim>\<open>wrappers/\<close>, composed with the system calls they make.
  \<^item> \<open>Fat12\<close>, \<open>Fat12_Extract\<close>, \<open>Fat12_Print\<close>: reading an image back from its layout, following cluster chains
    (a fault or a cycle in the table is \<open>None\<close>), file contents, and the directory listing.
  \<^item> \<open>Lex\<close>, \<open>Lex_Correct\<close>: the lexer, what it takes from its input and when it ends; \<open>Lex_Grammar\<close>: the lexer against the
    token grammar written in \<^verbatim>\<open>parse.h\<close>, from which it departs on the words \<open>R0\<close>, \<open>R8\<close> and \<open>not\<close>, and that it reads back
    a file written from tokens of that grammar. The string and map library is a record of functions with named laws, which a
    concrete instance satisfies.
  \<^item> \<open>KString\<close>, \<open>KString_Correct\<close>: \<^verbatim>\<open>lib/string.c\<close> over a byte-addressed memory.
  \<^item> \<open>KFifo\<close>, \<open>KFifo_Concurrent\<close>: \<^verbatim>\<open>kernel/kfifo.c\<close> refines a bounded queue of bytes (the interface is the
    locale \<open>byte_fifo\<close>), also with one writer and one reader interleaving without a lock.
  \<^item> \<open>KSort\<close>, \<open>Extable\<close>: \<^verbatim>\<open>lib/sort.c\<close> for every comparison that is a total preorder (the locale \<open>comparison\<close>),
    and the exception tables that are sorted and searched with it.
  \<^item> \<open>Sched\<close>: the data and operations of \<^verbatim>\<open>kernel/sched.c\<close> for the configured single processor;
    \<open>Sched_Queues\<close>: one priority array and what linking does to it; \<open>Sched_Inv\<close>: the run queue's invariant and
    the half-way states in which a task is unlinked; \<open>Sched_Correct\<close>: every operation keeps it;
    \<open>Sched_Choice\<close>: which task \<^verbatim>\<open>schedule\<close> chooses, that its loop ends, and all reachable states.
  \<^item> \<open>Slices\<close>: what \<^verbatim>\<open>sys_swipe\<close> does to the scheduler that counts the slices down.

  \<^item> \<open>Waitqueue\<close>: \<^verbatim>\<open>__wake_up\<close> and going to sleep, one wakeup at a time, over the scheduler's states.
  \<^item> \<open>Semaphore\<close>: \<^verbatim>\<open>lib/semaphore-sleepers.c\<close> with \<^verbatim>\<open>asm-x86_64/semaphore.h\<close> as a step relation over any number of tasks.
    Successful operations are a run of a counter of units (the locale \<open>unit_lock\<close>, also interpreted on the
    lock of the mailboxes), nobody sleeps while a unit is free as long as the counter has room for the units, and the code inside always comes
    to rest.
  \<^item> \<open>Completion\<close>: the completions of \<^verbatim>\<open>kernel/sched.c\<close>; no wakeup is lost between waits without a timeout, and how
    a wait with a timeout loses one.
  \<^item> \<open>Rwsem\<close>: the semaphores for readers and writers of \<^verbatim>\<open>lib/rwsem-spinlock.c\<close> over the lists of \<open>KList\<close>, and what each
    operation does to the queue as a sequence; \<open>Rwsem_System\<close>: any number of tasks. The counter tells who has the
    semaphore, writers have it alone, and waiting tasks get it in the order in which they came.
  \<^item> \<open>Rtmutex\<close>: the mutexes with priority inheritance of \<^verbatim>\<open>kernel/rtmutex.c\<close> over records of tasks, locks and waiters, the
    invariant of their queues, and the queues in the memory of \<open>PList\<close>. \<open>Rtmutex_Walk\<close>: the walk along a chain of
    owners keeps it and ends; \<open>Rtmutex_Ops\<close>: so does every operation; \<open>Rtmutex_Boost\<close>: a task that blocks as first
    waiter boosts the owner; \<open>Rtmutex_Prio\<close>: priorities stay in range, so that the \<^verbatim>\<open>BUG_ON\<close> of \<^verbatim>\<open>rt_mutex_setprio\<close>, kept as a
    flag of the state, is not met; \<open>Rtmutex_System\<close>: any number of tasks that lock and unlock, with signals, timeouts and
    changes of priority. Reachable states are consistent, calls do not fault and return or sleep; a lock has one holder; and two
    runs in which a boost is lost and a pointer to a dead variable stays behind.
  \<^item> \<open>Bitops\<close>, \<open>Pidmap\<close>: searching bitmaps and \<^verbatim>\<open>alloc_pidmap\<close>, \<^verbatim>\<open>free_pidmap\<close> and \<^verbatim>\<open>next_pidmap\<close> of \<^verbatim>\<open>kernel/pid.c\<close>. The argument
    \<open>kz\<close> answers an allocation of a page and is what other tasks do to the bitmaps meanwhile; \<open>quiet\<close> says
    that they do nothing.
  \<^item> \<open>Pid\<close>: the structures of process identifiers, their counts and the tasks attached to them; the hash
    table is a map from numbers to structures (the locale \<open>name_table\<close>). At the end of this theory its
    chains are put into the memory of \<open>HList\<close>.

  \<^bold>\<open>Bounds and fuel.\<close> Loops are structural recursion, recursion with a measure, or partial functions in
  the option type, with statements of exactly when they return. \<^verbatim>\<open>schedule\<close> reads the clock once per pass
  and takes the list of readings; one reading per task marked for rescheduling and one more is enough.
  The walk of \<^verbatim>\<open>rt_mutex_adjust_prio_chain\<close> has the bound of the code, \<^verbatim>\<open>max_lock_depth\<close>, as its fuel, and the
  statements about it hold for every bound.
  Process numbers are below \<^verbatim>\<open>PID_MAX_LIMIT\<close>, so no counter of tasks wraps. The scheduler's boot state has
  the fields of \<^verbatim>\<open>init_task\<close> in every place of the task table, as each task begins as a copy of another.

  \<^bold>\<open>Not modelled.\<close> The rest of the Linux tree (memory management, file systems, drivers, networking,
  other architectures, the debugger) is vendored code the added code does not change. Of \<^verbatim>\<open>kernel/sched.c\<close>,
  load balancing and hotplug are not in the configured build, \<^verbatim>\<open>cond_resched\<close> and \<^verbatim>\<open>sleep_on\<close> are single calls of
  \<^verbatim>\<open>schedule\<close>, and for \<open>Sched\<close> the walk of \<^verbatim>\<open>rt_mutex_adjust_pi\<close> is an argument (the priorities it sets; the walk is in \<open>Rtmutex\<close>, where a
  task is only its priorities and the waiters it inherits from).
  The debugging aids of the mutexes print and keep fields of their own. Locks are modelled
  where the added code takes them (\<open>Mailbox\<close>, \<open>Join\<close>) and as semaphores and mutexes; the spin locks inside an operation
  are left out, since the configured kernel has one processor and does not preempt. Memory barriers
  are left out for the same reason. \<^verbatim>\<open>parse.c\<close> of the assembler is empty.
\<close>

subsection \<open>The table of process identifiers in memory\<close>

text \<open>\<open>Pid\<close> keeps the chains of the hash table as lists. In memory they are lists of nodes, one node in each
  structure: allocation and release make the same change there, in the bucket the hash function names.\<close>

definition chains_in_memory :: "(nat \<Rightarrow> addr) \<Rightarrow> hheap \<Rightarrow> pids \<Rightarrow> bool" where
  "chains_in_memory heads h s \<longleftrightarrow> pidhash_shift s \<le> 64 \<and> buckets hlist (2 ^ pidhash_shift s) heads h (pid_hash s)"

lemma alloc_pid_in_memory:
  assumes m: "chains_in_memory heads h s" and r: "alloc_pid pid_max kz (Some a) s = (Some a, s')"
    and a: "a \<in> hnodes h" "\<forall>b<2 ^ pidhash_shift s. a \<notin> set (heads b # pid_hash s b)"
  shows "\<exists>h' p. structs s' a = Some p \<and> hlist_add_head_rcu a (heads (pid_hashfn (pidhash_shift s) (nr p))) h = Some h' \<and>
    chains_in_memory heads h' s'"
proof -
  obtain p where p: "structs s' a = Some p" "pidhash_shift s' = pidhash_shift s"
    "pid_hash s' = (pid_hash s)(pid_hashfn (pidhash_shift s) (nr p) := a # pid_hash s (pid_hashfn (pidhash_shift s) (nr p)))"
    using r by (auto simp: alloc_pid_def Let_def split: prod.splits if_splits)
  have "pid_hashfn (pidhash_shift s) (nr p) < 2 ^ pidhash_shift s" using m by (simp add: chains_in_memory_def pid_hashfn_bound)
  from ht.put_step[OF _ a this] show ?thesis using m p by (auto simp: chains_in_memory_def)
qed

lemma free_pid_in_memory:
  assumes m: "chains_in_memory heads h s" and r: "free_pid a s = Some s'" and a: "in_table s n a"
  shows "\<exists>h'. hlist_del_rcu a h = Some h' \<and> chains_in_memory heads h' s'"
proof -
  let ?b = "pid_hashfn (pidhash_shift s) n"
  have s': "pidhash_shift s' = pidhash_shift s" "pid_hash s' = (pid_hash s)(?b := remove1 a (pid_hash s ?b))"
    using r a by (auto simp: free_pid_def in_table_def Let_def split: option.splits)
  have "?b < 2 ^ pidhash_shift s" "a \<in> set (pid_hash s ?b)" using m a by (simp_all add: chains_in_memory_def pid_hashfn_bound in_table_def)
  from ht.take_step[of "2 ^ pidhash_shift s" heads h "pid_hash s" a ?b, OF _ this(2,1)] show ?thesis using m s' by (auto simp: chains_in_memory_def)
qed

end
